(* ===== verification/Katcp_Base.thy ===== *)
theory Katcp_Base
  imports Main "HOL-Library.Word" "HOL-Library.Char_ord" "HOL-Library.List_Lexorder"
begin

text \<open>
  The prelude of the development: the integer types of the C code, the faults a
  run of it can end in, the pieces of the C library it relies on (\<open>strcmp\<close>,
  \<open>memmove\<close>, \<open>realloc\<close>) over lists, and the lemmas and collections that the
  component theories share.

  Conventions. An \<open>int\<close>-returning operation that changes a structure is a function
  that returns the result code and the new structure. A null pointer is \<open>None\<close>.
  Where the code calls \<open>abort()\<close> (its consistency checks are compiled in by
  \<open>Makefile.inc\<close>) or would read or write outside an object, the model returns
  \<open>Inl\<close> of a fault. An allocation is decided by a boolean argument (\<open>ok\<close>): the
  allocator may always refuse. Counters of things that are held in memory
  (queue positions, buffer offsets) are \<open>nat\<close>; values read from a peer or
  computed from them are words of the C width.
\<close>

section \<open>Types\<close>

type_synonym u8 = "8 word"
type_synonym u32 = "32 word"
type_synonym u64 = "64 word"

datatype fault = Abort | OutOfBounds | NullDeref | UseAfterFree | SignedOverflow

type_synonym 'a res = "fault + 'a"

text \<open>Collections filled by the component theories: \<open>katcp_inv\<close> holds the facts
  "this operation keeps the invariant", \<open>katcp_abs\<close> the refinement equations.\<close>

named_theorems katcp_inv
named_theorems katcp_abs

abbreviation nul :: char where "nul \<equiv> CHR 0x00"

section \<open>Sequencing of results\<close>

definition bind_res :: "'a res \<Rightarrow> ('a \<Rightarrow> 'b res) \<Rightarrow> 'b res" where
  "bind_res r f = (case r of Inl e \<Rightarrow> Inl e | Inr x \<Rightarrow> f x)"

lemma bind_res_simps [simp]:
  "bind_res (Inl e) f = Inl e"
  "bind_res (Inr x) f = f x"
  by (simp_all add: bind_res_def)

lemma bind_res_Inr_iff: "bind_res r f = Inr y \<longleftrightarrow> (\<exists>x. r = Inr x \<and> f x = Inr y)"
  by (cases r) simp_all

section \<open>C strings\<close>

text \<open>\<open>strcmp\<close> on strings without their terminator; only the sign of the result
  is used by the callers. Characters compare as unsigned bytes.\<close>

fun strcmp :: "string \<Rightarrow> string \<Rightarrow> int" where
  "strcmp [] [] = 0"
| "strcmp [] (_ # _) = -1"
| "strcmp (_ # _) [] = 1"
| "strcmp (a # as) (b # bs) =
     (if a = b then strcmp as bs else if a < b then -1 else 1)"

lemma strcmp_lt_iff: "strcmp a b < 0 \<longleftrightarrow> a < b"
  by (induction a b rule: strcmp.induct) auto

lemma strcmp_eq_iff: "strcmp a b = 0 \<longleftrightarrow> a = b"
  by (induction a b rule: strcmp.induct) auto

lemma strcmp_gt_iff: "0 < strcmp a b \<longleftrightarrow> b < a"
  by (induction a b rule: strcmp.induct) (auto simp: not_less)

lemmas strcmp_order = strcmp_lt_iff strcmp_eq_iff strcmp_gt_iff

text \<open>\<open>strncmp\<close>, on the same terms.\<close>

definition strncmp :: "nat \<Rightarrow> string \<Rightarrow> string \<Rightarrow> int" where
  "strncmp n a b = strcmp (take n a) (take n b)"

section \<open>Arrays\<close>

text \<open>\<open>memmove\<close> of \<open>n\<close> cells within one array.\<close>

definition memmove :: "nat \<Rightarrow> nat \<Rightarrow> nat \<Rightarrow> 'a list \<Rightarrow> 'a list" where
  "memmove dst src n xs = take dst xs @ take n (drop src xs) @ drop (dst + n) xs"

lemma length_memmove [simp]:
  "dst + n \<le> length xs \<Longrightarrow> src + n \<le> length xs \<Longrightarrow> length (memmove dst src n xs) = length xs"
  by (simp add: memmove_def)

lemma nth_memmove:
  assumes "dst + n \<le> length xs" "src + n \<le> length xs" "i < length xs"
  shows "memmove dst src n xs ! i =
    (if dst \<le> i \<and> i < dst + n then xs ! (src + (i - dst)) else xs ! i)"
proof -
  consider "i < dst" | "dst \<le> i" "i < dst + n" | "dst + n \<le> i" by linarith
  then show ?thesis
    by cases (use assms in \<open>auto simp: memmove_def nth_append\<close>)
qed

text \<open>The index arithmetic of a circular buffer.\<close>

lemma wrap_mod:
  fixes h j s :: nat
  assumes "h < s" "j < s"
  shows "(h + j) mod s = (if h + j < s then h + j else h + j - s)"
  using assms by (auto simp: mod_if)

lemma wrap_mod_le:
  fixes h j s :: nat
  assumes "h < s" "j \<le> s"
  shows "(h + j) mod s = (if h + j < s then h + j else h + j - s)"
  using assms by (auto simp: mod_if)

lemma wrap_inj:
  fixes h i j s :: nat
  assumes "h < s" "i < s" "j < s" "(h + i) mod s = (h + j) mod s"
  shows "i = j"
  using assms by (auto simp: wrap_mod split: if_splits)

lemma map_upt_cong:
  "(\<And>i. i < n \<Longrightarrow> f i = g i) \<Longrightarrow> map f [0..<n] = map g [0..<n]"
  by simp

section \<open>Numbers in the C library\<close>

text \<open>\<open>isspace\<close> in the C locale, the value of a digit, and \<open>strtoul\<close> on 64 bits: it
  skips white space, takes a sign, chooses the base (base 0 reads the prefix), consumes the
  digits and saturates. The result is the value and the number of characters consumed (0
  when there are no digits, as \<open>end == nptr\<close> then).\<close>

definition c_isspace :: "char \<Rightarrow> bool" where
  "c_isspace c \<longleftrightarrow> c \<in> {CHR '' '', CHR 0x09, CHR 0x0A, CHR 0x0B, CHR 0x0C, CHR 0x0D}"

definition digit_val :: "char \<Rightarrow> nat option" where
  "digit_val c =
     (let n = of_char c :: nat in
      if 48 \<le> n \<and> n \<le> 57 then Some (n - 48)
      else if 97 \<le> n \<and> n \<le> 122 then Some (n - 87)
      else if 65 \<le> n \<and> n \<le> 90 then Some (n - 55)
      else None)"

definition is_digit :: "nat \<Rightarrow> char \<Rightarrow> bool" where
  "is_digit base c = (case digit_val c of None \<Rightarrow> False | Some d \<Rightarrow> d < base)"

definition digits_val :: "nat \<Rightarrow> string \<Rightarrow> nat" where
  "digits_val base ds = foldl (\<lambda>v c. v * base + the (digit_val c)) 0 ds"

definition has_hex_prefix :: "string \<Rightarrow> bool" where
  "has_hex_prefix s =
     (case s of z # x # h # _ \<Rightarrow>
        z = CHR ''0'' \<and> (x = CHR ''x'' \<or> x = CHR ''X'') \<and> is_digit 16 h
      | _ \<Rightarrow> False)"

definition starts_with_zero :: "string \<Rightarrow> bool" where
  "starts_with_zero s = (case s of z # _ \<Rightarrow> z = CHR ''0'' | [] \<Rightarrow> False)"

definition scan_ulong :: "nat \<Rightarrow> string \<Rightarrow> (bool \<times> nat) \<times> nat" where
  \<comment> \<open>the sign, the magnitude, and how much was consumed\<close>
  "scan_ulong base s =
     (let ws = takeWhile c_isspace s; s1 = drop (length ws) s;
          signed = (case s1 of c # _ \<Rightarrow> c = CHR ''+'' \<or> c = CHR ''-'' | [] \<Rightarrow> False);
          neg = (case s1 of c # _ \<Rightarrow> c = CHR ''-'' | [] \<Rightarrow> False);
          s2 = (if signed then tl s1 else s1);
          hex = ((base = 0 \<or> base = 16) \<and> has_hex_prefix s2);
          s3 = (if hex then drop 2 s2 else s2);
          b = (if hex then 16 else if base = 0 then (if starts_with_zero s2 then 8 else 10) else base);
          ds = takeWhile (is_digit b) s3
      in if ds = [] then ((False, 0), 0)
         else ((neg, digits_val b ds),
               length ws + (if signed then 1 else 0) + (if hex then 2 else 0) + length ds))"

definition strtoul :: "nat \<Rightarrow> string \<Rightarrow> u64 \<times> nat" where
  "strtoul base s =
     (case scan_ulong base s of ((neg, v), n) \<Rightarrow>
        (if v \<ge> 2 ^ 64 then - 1 else if neg then - of_nat v else of_nat v, n))"

definition strtol :: "nat \<Rightarrow> string \<Rightarrow> int \<times> nat" where
  "strtol base s =
     (case scan_ulong base s of ((neg, v), n) \<Rightarrow>
        (if neg then max (- int v) (- (2 ^ 63)) else min (int v) (2 ^ 63 - 1), n))"

text \<open>\<open>snprintf\<close> with \<open>%lu\<close>, and with a fixed width padded by zeroes as in \<open>%06lu\<close>.\<close>

definition digit_char :: "nat \<Rightarrow> char" where
  "digit_char d = (char_of (48 + d) :: char)"

fun dec_of_nat :: "nat \<Rightarrow> string" where
  "dec_of_nat n = (if n < 10 then [digit_char n] else dec_of_nat (n div 10) @ [digit_char (n mod 10)])"

declare dec_of_nat.simps [simp del]

definition dec_padded :: "nat \<Rightarrow> nat \<Rightarrow> string" where
  "dec_padded w n = (let ds = dec_of_nat n in replicate (w - length ds) (CHR ''0'') @ ds)"

definition dec_of_int :: "int \<Rightarrow> string" where
  "dec_of_int i = (if i < 0 then CHR ''-'' # dec_of_nat (nat (- i)) else dec_of_nat (nat i))"

lemma of_char_digit_char: "d < 10 \<Longrightarrow> of_char (digit_char d) = (48 + d :: nat)"
  by (simp add: digit_char_def)

lemma digit_val_digit_char [simp]: "d < 10 \<Longrightarrow> digit_val (digit_char d) = Some d"
  by (simp add: digit_val_def of_char_digit_char)

lemma is_digit_digit_char [simp]: "d < 10 \<Longrightarrow> is_digit 10 (digit_char d)"
  by (simp add: is_digit_def)

lemma dec_of_nat_digits: "\<forall>c \<in> set (dec_of_nat n). is_digit 10 c"
proof (induction n rule: dec_of_nat.induct)
  case (1 n)
  then show ?case by (subst dec_of_nat.simps) auto
qed

lemma dec_of_nat_nonempty [simp]: "dec_of_nat n \<noteq> []"
  by (subst dec_of_nat.simps) simp

lemma digits_val_snoc: "digits_val b (ds @ [c]) = digits_val b ds * b + the (digit_val c)"
  by (simp add: digits_val_def)

lemma digits_val_dec_of_nat [simp]: "digits_val 10 (dec_of_nat n) = n"
proof (induction n rule: dec_of_nat.induct)
  case (1 n)
  show ?case
  proof (cases "n < 10")
    case True
    then show ?thesis by (subst dec_of_nat.simps) (simp add: digits_val_def)
  next
    case False
    with 1 show ?thesis by (subst dec_of_nat.simps) (simp add: digits_val_snoc)
  qed
qed

lemma digit10_range: "is_digit 10 c \<Longrightarrow> 48 \<le> (of_char c :: nat) \<and> of_char c \<le> (57 :: nat)"
  by (auto simp: is_digit_def digit_val_def Let_def split: if_splits)

lemma digit10_plain:
  assumes "is_digit 10 c"
  shows "\<not> c_isspace c" "c \<noteq> CHR ''+''" "c \<noteq> CHR ''-''"
  using digit10_range [OF assms] by (auto simp: c_isspace_def)

lemma takeWhile_prefix_stop:
  "\<forall>c \<in> set ds. P c \<Longrightarrow> (case s of [] \<Rightarrow> True | c # _ \<Rightarrow> \<not> P c) \<Longrightarrow> takeWhile P (ds @ s) = ds"
  by (induction ds) (auto split: list.splits)

text \<open>Reading back plain decimal digits.\<close>

lemma scan_decimal:
  assumes "ds \<noteq> []" "\<forall>c \<in> set ds. is_digit 10 c"
    "case s of [] \<Rightarrow> True | c # _ \<Rightarrow> \<not> is_digit 10 c"
  shows "scan_ulong 10 (ds @ s) = ((False, digits_val 10 ds), length ds)"
proof -
  obtain d ds' where ds: "ds = d # ds'" using assms(1) by (cases ds) auto
  then have "is_digit 10 d" using assms(2) by simp
  from digit10_plain [OF this] takeWhile_prefix_stop [of ds "is_digit 10" s] assms ds
  show ?thesis by (simp add: scan_ulong_def)
qed

lemma strtoul_decimal:
  assumes "ds \<noteq> []" "\<forall>c \<in> set ds. is_digit 10 c"
    "case s of [] \<Rightarrow> True | c # _ \<Rightarrow> \<not> is_digit 10 c" "digits_val 10 ds < 2 ^ 64"
  shows "strtoul 10 (ds @ s) = (of_nat (digits_val 10 ds), length ds)"
  using assms by (simp add: strtoul_def scan_decimal)

end
