(* ===== verification/Byte_Bit.thy ===== *)
theory Byte_Bit
  imports Katcp_Base
begin

text \<open>
  Byte and bit addresses (\<open>katcp/bytebit.c\<close>): an address is a byte offset and a
  bit offset, kept in byte form (bit below 8), in word form (byte a multiple of 4,
  bit below 32) or in both. The lemmas show that the two normalisations keep the
  position that an address denotes, that comparison decides the order of positions
  and that addition adds them or reports the overflow.
\<close>

unbundle bit_operations_syntax

section \<open>Data\<close>

record byte_bit =
  b_byte :: u64
  b_bit :: u8
  b_align :: u8

definition KATCL_ALIGN_BYTE :: u8 where "KATCL_ALIGN_BYTE = 1"
definition KATCL_ALIGN_WORD :: u8 where "KATCL_ALIGN_WORD = 2"

lemmas align_defs = KATCL_ALIGN_BYTE_def KATCL_ALIGN_WORD_def

text \<open>The alignment that \<open>make_bb_katcl\<close> and \<open>byte_normalise_bb_katcl\<close> both
  write once the bit is below 8.\<close>

definition byte_align :: "u64 \<Rightarrow> u8" where
  "byte_align byte =
     (if byte mod 4 \<noteq> 0 then KATCL_ALIGN_BYTE else KATCL_ALIGN_WORD OR KATCL_ALIGN_BYTE)"

section \<open>Operations\<close>

definition make_bb_katcl :: "byte_bit \<Rightarrow> u64 \<Rightarrow> u64 \<Rightarrow> (int \<times> byte_bit) res" where
  "make_bb_katcl bb byte nbit =
     (let delta = nbit div 8 in
      if byte + delta < byte then Inr (-1, bb)
      else
        let bb1 = bb\<lparr>b_byte := byte + delta, b_bit := ucast (nbit - delta * 8)\<rparr>;
            bb2 = bb1\<lparr>b_align := byte_align (b_byte bb1)\<rparr>
        in if b_bit bb2 \<ge> 8 then Inl Abort else Inr (0, bb2))"

definition byte_normalise_bb_katcl :: "byte_bit \<Rightarrow> int \<times> byte_bit" where
  "byte_normalise_bb_katcl bb =
     (if b_align bb AND KATCL_ALIGN_BYTE \<noteq> 0 then (0, bb)
      else
        let tmp = bb;
            bb1 = bb\<lparr>b_byte := b_byte tmp + ucast (b_bit tmp div 8),
                     b_bit := b_bit tmp mod 8\<rparr>
        in if b_byte bb1 < b_byte tmp then (-1, bb1)
           else (0, bb1\<lparr>b_align := byte_align (b_byte bb1)\<rparr>))"

definition word_normalise_bb_katcl :: "byte_bit \<Rightarrow> int \<times> byte_bit" where
  "word_normalise_bb_katcl bb =
     (if b_align bb AND KATCL_ALIGN_WORD \<noteq> 0 then (0, bb)
      else
        let (r, tmp) = (if b_align bb AND KATCL_ALIGN_BYTE = 0
                        then byte_normalise_bb_katcl bb else (0, bb))
        in if r < 0 then (-1, bb)
           else
             let bb1 = bb\<lparr>b_byte := (b_byte tmp div 4) * 4,
                          b_bit := ucast ((b_byte tmp mod 4) * 8 + ucast (b_bit tmp))\<rparr>
             in (0, bb1\<lparr>b_align := (if b_bit bb1 < 8 then KATCL_ALIGN_WORD OR KATCL_ALIGN_BYTE
                                   else KATCL_ALIGN_WORD)\<rparr>))"

lemma byte_align_has_byte: "byte_align b AND KATCL_ALIGN_BYTE \<noteq> 0"
  by (simp add: byte_align_def align_defs)

lemma byte_normalise_has_byte:
  "(r, bb') = byte_normalise_bb_katcl bb \<Longrightarrow> \<not> r < 0 \<Longrightarrow> b_align bb' AND KATCL_ALIGN_BYTE \<noteq> 0"
  by (auto simp: byte_normalise_bb_katcl_def Let_def byte_align_has_byte split: if_splits)

lemma has_byte_bit: "(x AND KATCL_ALIGN_BYTE \<noteq> 0) = bit (x :: u8) 0"
  by (simp add: align_defs and_one_eq bit_0 odd_iff_mod_2_eq_one)

lemma has_word_bit: "(x AND KATCL_ALIGN_WORD \<noteq> 0) = bit (x :: u8) 1"
  using and_exp_eq_0_iff_not_bit [of x 1] by (simp add: align_defs)

lemma bytes_meet:
  "\<not> 0 < (x AND y :: u8) \<Longrightarrow> x AND KATCL_ALIGN_BYTE \<noteq> 0 \<Longrightarrow> y AND KATCL_ALIGN_BYTE = 0"
  using has_byte_bit [of x] has_byte_bit [of y]
  by (auto simp: word_gt_0 bit_and_iff dest: arg_cong [where f = "\<lambda>w. bit w 0"])

text \<open>The recursion ends because each normalisation gives one side the byte form.\<close>

function exceeds_bb_katcl :: "byte_bit \<Rightarrow> byte_bit \<Rightarrow> int" where
  "exceeds_bb_katcl bb limit =
     (if b_align bb AND b_align limit > 0 then
        (if b_byte bb < b_byte limit then 0
         else if b_byte bb > b_byte limit then 1
         else if b_bit bb > b_bit limit then 1 else 0)
      else if b_align bb AND KATCL_ALIGN_BYTE \<noteq> 0 then
        (case byte_normalise_bb_katcl limit of (r, tmp) \<Rightarrow>
           if r < 0 then -1 else exceeds_bb_katcl bb tmp)
      else
        (case byte_normalise_bb_katcl bb of (r, tmp) \<Rightarrow>
           if r < 0 then -1 else exceeds_bb_katcl tmp limit))"
  by pat_completeness auto
termination
  by (relation "measure (\<lambda>(a, b). (if b_align a AND KATCL_ALIGN_BYTE \<noteq> 0 then 0 else 1)
                                 + (if b_align b AND KATCL_ALIGN_BYTE \<noteq> 0 then 0 else 1))")
    (auto dest: byte_normalise_has_byte bytes_meet)

definition add_bb_katcl :: "byte_bit \<Rightarrow> byte_bit \<Rightarrow> byte_bit \<Rightarrow> int \<times> byte_bit" where
  "add_bb_katcl sigma alpha beta =
     (let byte = b_byte alpha + b_byte beta in
      if byte < b_byte alpha then (-1, sigma)
      else
        let sbit = b_bit alpha + b_bit beta in
        if sbit < b_bit alpha then (-1, sigma)
        else
          let tmp = \<lparr>b_byte = byte, b_bit = sbit, b_align = 0\<rparr>;
              tmp' = (if (b_align alpha AND b_align beta) OR KATCL_ALIGN_WORD \<noteq> 0
                      then snd (word_normalise_bb_katcl tmp)
                      else snd (byte_normalise_bb_katcl tmp))
          in (0, sigma\<lparr>b_byte := b_byte tmp', b_bit := b_bit tmp', b_align := b_align tmp'\<rparr>))"

declare exceeds_bb_katcl.simps [simp del]

section \<open>The position an address denotes\<close>

definition bb_value :: "byte_bit \<Rightarrow> nat" where
  "bb_value bb = 8 * unat (b_byte bb) + unat (b_bit bb)"

definition bb_wf :: "byte_bit \<Rightarrow> bool" where
  "bb_wf bb \<longleftrightarrow> b_align bb \<in> {0, 1, 2, 3} \<and>
     (b_align bb AND KATCL_ALIGN_BYTE \<noteq> 0 \<longrightarrow> unat (b_bit bb) < 8) \<and>
     (b_align bb AND KATCL_ALIGN_WORD \<noteq> 0 \<longrightarrow>
        unat (b_byte bb) mod 4 = 0 \<and> unat (b_bit bb) < 32)"

lemma unat_u64_less: "unat (x :: u64) < 2 ^ 64"
  by (rule order_less_le_trans [OF unsigned_less]) simp

lemma unat_u8_less: "unat (x :: u8) < 2 ^ 8"
  by (rule order_less_le_trans [OF unsigned_less]) simp

lemma u64_add_no_wrap: "\<not> (a + b < (a :: u64)) \<longleftrightarrow> unat a + unat b < 2 ^ 64"
proof -
  have "a + b < a \<longleftrightarrow> 2 ^ 64 \<le> unat a + unat b"
    using unat_u64_less [of a] unat_u64_less [of b]
    by (auto simp: word_less_nat_alt unat_word_ariths mod_if)
  then show ?thesis by auto
qed

lemma u8_add_no_wrap: "\<not> (a + b < (a :: u8)) \<longleftrightarrow> unat a + unat b < 2 ^ 8"
proof -
  have "a + b < a \<longleftrightarrow> 2 ^ 8 \<le> unat a + unat b"
    using unat_u8_less [of a] unat_u8_less [of b]
    by (auto simp: word_less_nat_alt unat_word_ariths mod_if)
  then show ?thesis by auto
qed

lemma unat_ucast_u8: "unat (ucast (x :: u64) :: u8) = unat x mod 256"
  by (simp add: unsigned_ucast_eq take_bit_eq_mod)

lemma unat_ucast_u64 [simp]: "unat (ucast (x :: u8) :: u64) = unat x"
proof -
  have "unat x < 256" using unat_u8_less [of x] by simp
  then show ?thesis by (simp add: unsigned_ucast_eq take_bit_eq_mod)
qed

lemma unat_mod4_0: "x mod 4 = 0 \<longleftrightarrow> unat (x :: u64) mod 4 = 0"
  by (simp add: word_unat_eq_iff unat_mod)

lemma byte_align_word: "byte_align b AND KATCL_ALIGN_WORD \<noteq> 0 \<longleftrightarrow> unat b mod 4 = 0"
  by (simp add: byte_align_def align_defs unat_mod4_0)

lemma byte_align_range: "byte_align b \<in> {0, 1, 2, 3}"
  by (simp add: byte_align_def align_defs)

lemma byte_align_wf:
  "unat (b_bit bb) < 8 \<Longrightarrow> b_align bb = byte_align (b_byte bb) \<Longrightarrow> bb_wf bb"
  using byte_align_range [of "b_byte bb"] by (auto simp: bb_wf_def byte_align_word)

lemma make_bb_eq:
  "make_bb_katcl bb byte nbit =
     (if unat byte + unat nbit div 8 < 2 ^ 64
      then Inr (0, \<lparr>b_byte = byte + nbit div 8, b_bit = ucast (nbit mod 8),
                     b_align = byte_align (byte + nbit div 8)\<rparr>)
      else Inr (-1, bb))"
proof -
  have d: "unat (nbit div 8) = unat nbit div 8" by (simp add: unat_div)
  have m: "nbit - nbit div 8 * 8 = nbit mod 8" by (simp add: minus_div_mult_eq_mod)
  have "unat (ucast (nbit mod 8) :: u8) = unat nbit mod 8"
    by (simp add: unat_ucast_u8 unat_mod)
  then have b: "\<not> ucast (nbit mod 8) \<ge> (8 :: u8)" by (simp add: word_le_nat_alt)
  show ?thesis
    using u64_add_no_wrap [of byte "nbit div 8"] b
    by (auto simp: make_bb_katcl_def Let_def d m)
qed

lemma byte_normalise_value: 
  assumes "bb_wf bb" "byte_normalise_bb_katcl bb = (r, bb')"
  shows "(r = 0 \<longrightarrow> bb_value bb' = bb_value bb \<and> bb_wf bb') \<and>
     (r \<noteq> 0 \<longleftrightarrow> b_align bb AND KATCL_ALIGN_BYTE = 0 \<and> 2 ^ 64 \<le> bb_value bb div 8)"
proof (cases "b_align bb AND KATCL_ALIGN_BYTE = 0")
  case False
  with assms show ?thesis by (auto simp: byte_normalise_bb_katcl_def)
next
  case True
  let ?s = "b_byte bb + ucast (b_bit bb div 8)"
  have q: "unat (b_bit bb div 8) = unat (b_bit bb) div 8" by (simp add: unat_div)
  have m: "unat (b_bit bb mod 8) = unat (b_bit bb) mod 8" by (simp add: unat_mod)
  have v: "bb_value bb div 8 = unat (b_byte bb) + unat (b_bit bb) div 8"
    by (simp add: bb_value_def)
  show ?thesis
  proof (cases "?s < b_byte bb")
    case w: True
    then have "2 ^ 64 \<le> bb_value bb div 8"
      using u64_add_no_wrap [of "b_byte bb" "ucast (b_bit bb div 8)"] by (simp add: q v)
    with w True assms show ?thesis by (auto simp: byte_normalise_bb_katcl_def Let_def)
  next
    case w: False
    then have n: "bb_value bb div 8 < 2 ^ 64"
      using u64_add_no_wrap [of "b_byte bb" "ucast (b_bit bb div 8)"] by (simp add: q v)
    then have "unat ?s = unat (b_byte bb) + unat (b_bit bb) div 8"
      using unat_u8_less [of "b_bit bb"] by (simp add: unat_word_ariths q v)
    then show ?thesis using w True assms n
      by (auto simp: byte_normalise_bb_katcl_def Let_def bb_value_def m intro!: byte_align_wf)
  qed
qed

lemma word_normalise_step:
  fixes bb :: byte_bit
  assumes "unat (b_bit tmp) < 8"
  defines "bb1 \<equiv> bb\<lparr>b_byte := (b_byte tmp div 4) * 4,
                   b_bit := ucast ((b_byte tmp mod 4) * 8 + ucast (b_bit tmp))\<rparr>"
  defines "bb2 \<equiv> bb1\<lparr>b_align := (if b_bit bb1 < 8 then KATCL_ALIGN_WORD OR KATCL_ALIGN_BYTE
                                else KATCL_ALIGN_WORD)\<rparr>"
  shows "bb_value bb2 = bb_value tmp \<and> bb_wf bb2"
proof -
  have "unat ((b_byte tmp div 4) * 4) = unat (b_byte tmp) div 4 * 4"
    using unat_u64_less [of "b_byte tmp"] by (simp add: unat_word_ariths unat_div)
  moreover have "unat ((b_byte tmp mod 4) * 8) = unat (b_byte tmp) mod 4 * 8"
    by (simp add: unat_word_ariths unat_mod)
  ultimately have "unat (b_byte bb1) = unat (b_byte tmp) div 4 * 4"
    "unat (b_bit bb1) = unat (b_byte tmp) mod 4 * 8 + unat (b_bit tmp)"
    using assms(1) by (simp_all add: bb1_def unat_ucast_u8 unat_word_ariths)
  moreover have "b_bit bb1 < 8 \<longleftrightarrow> unat (b_bit bb1) < 8" by (simp add: word_less_nat_alt)
  moreover have "32 * (unat (b_byte tmp) div 4) + unat (b_byte tmp) mod 4 * 8 = 8 * unat (b_byte tmp)"
    by presburger
  ultimately show ?thesis using assms(1)
    by (auto simp: bb2_def bb_value_def bb_wf_def align_defs)
qed

lemma word_normalise_value:
  assumes "bb_wf bb" "word_normalise_bb_katcl bb = (r, bb')"
  shows "(r = 0 \<longrightarrow> bb_value bb' = bb_value bb \<and> bb_wf bb') \<and>
     (r \<noteq> 0 \<longrightarrow> bb' = bb \<and> 2 ^ 64 \<le> bb_value bb div 8)"
proof (cases "b_align bb AND KATCL_ALIGN_WORD = 0")
  case False
  with assms show ?thesis by (auto simp: word_normalise_bb_katcl_def)
next
  case True
  obtain r1 tmp where t: "(if b_align bb AND KATCL_ALIGN_BYTE = 0
      then byte_normalise_bb_katcl bb else (0, bb)) = (r1, tmp)"
    by (cases "if b_align bb AND KATCL_ALIGN_BYTE = 0 then byte_normalise_bb_katcl bb else (0, bb)")
  have r1: "r1 = 0 \<or> r1 = -1"
    using t by (auto simp: byte_normalise_bb_katcl_def Let_def split: if_splits)
  show ?thesis
  proof (cases "r1 = 0")
    case ok: True
    with t assms(1) have v: "bb_value tmp = bb_value bb" "bb_wf tmp"
      "b_align tmp AND KATCL_ALIGN_BYTE \<noteq> 0"
      using byte_normalise_value [OF assms(1)]
      by (auto split: if_splits dest: byte_normalise_has_byte [OF sym])
    then have "unat (b_bit tmp) < 8" by (simp add: bb_wf_def)
    from word_normalise_step [OF this, of bb] ok True t assms(2) v show ?thesis
      by (auto simp: word_normalise_bb_katcl_def Let_def)
  next
    case bad: False
    with r1 have "r1 = -1" by simp
    with True t assms byte_normalise_value [OF assms(1), of r1 tmp] show ?thesis
      by (auto simp: word_normalise_bb_katcl_def Let_def split: if_splits)
  qed
qed

lemma aligns_meet:
  assumes "a \<in> {0, 1, 2, 3 :: u8}" "b \<in> {0, 1, 2, 3 :: u8}" "0 < (a AND b)"
  shows "(a AND KATCL_ALIGN_BYTE \<noteq> 0 \<and> b AND KATCL_ALIGN_BYTE \<noteq> 0) \<or>
         (a AND KATCL_ALIGN_WORD \<noteq> 0 \<and> b AND KATCL_ALIGN_WORD \<noteq> 0)"
  using assms by (auto simp: align_defs)

lemma compare_same_form:
  fixes a b c d m :: nat
  assumes "a mod k = 0" "c mod k = 0" "b < 8 * k" "d < 8 * k"
  shows "8 * c + d < 8 * a + b \<longleftrightarrow> c < a \<or> (c = a \<and> d < b)"
proof -
  obtain x y where "a = k * x" "c = k * y" using assms(1,2) by (auto elim!: dvdE simp: mod_0_imp_dvd)
  show ?thesis
  proof (cases rule: linorder_cases [of c a])
    case less
    then have "y < x" using \<open>a = _\<close> \<open>c = _\<close> by auto
    then have "k * y + k \<le> k * x" by (metis Suc_leI mult_Suc_right mult_le_mono2 add.commute)
    with less assms show ?thesis using \<open>a = _\<close> \<open>c = _\<close> by auto
  next
    case greater
    then have "x < y" using \<open>a = _\<close> \<open>c = _\<close> by auto
    then have "k * x + k \<le> k * y" by (metis Suc_leI mult_Suc_right mult_le_mono2 add.commute)
    with greater assms show ?thesis using \<open>a = _\<close> \<open>c = _\<close> by auto
  qed simp
qed

lemma exceeds_fast:
  assumes "bb_wf a" "bb_wf b" "0 < (b_align a AND b_align b)"
  shows "exceeds_bb_katcl a b = (if bb_value b < bb_value a then 1 else 0)"
proof -
  have "bb_value b < bb_value a \<longleftrightarrow> b_byte b < b_byte a \<or> (b_byte b = b_byte a \<and> b_bit b < b_bit a)"
    using aligns_meet [OF _ _ assms(3)] assms(1,2)
      compare_same_form [of "unat (b_byte a)" 1 "unat (b_byte b)" "unat (b_bit a)" "unat (b_bit b)"]
      compare_same_form [of "unat (b_byte a)" 4 "unat (b_byte b)" "unat (b_bit a)" "unat (b_bit b)"]
    by (auto simp: bb_value_def bb_wf_def word_less_nat_alt word_unat_eq_iff)
  with assms(3) show ?thesis by (subst exceeds_bb_katcl.simps) auto
qed

section \<open>Properties\<close>

text \<open>The three ways to reach a normal form agree with the constructor: building an
  address from any byte and bit counts yields the position \<open>8 * byte + bit\<close>, and bringing
  it to word form and back to byte form keeps that position; the constructor refuses exactly
  the positions outside the 64-bit byte range and never trips its consistency check.\<close>

theorem make_normalise_roundtrip:
  "case make_bb_katcl bb byte nbit of
     Inl _ \<Rightarrow> False
   | Inr (r, b) \<Rightarrow>
       if unat byte + unat nbit div 8 < 2 ^ 64
       then r = 0 \<and> bb_wf b \<and> bb_value b = 8 * unat byte + unat nbit \<and>
            bb_value (snd (word_normalise_bb_katcl b)) = bb_value b \<and>
            bb_value (snd (byte_normalise_bb_katcl (snd (word_normalise_bb_katcl b)))) = bb_value b
       else r = -1 \<and> b = bb"
proof (cases "unat byte + unat nbit div 8 < 2 ^ 64")
  case True
  define b where "b = \<lparr>b_byte = byte + nbit div 8, b_bit = ucast (nbit mod 8) :: u8,
                       b_align = byte_align (byte + nbit div 8)\<rparr>"
  obtain q w where w: "word_normalise_bb_katcl b = (q, w)" by force
  obtain q' w' where w': "byte_normalise_bb_katcl w = (q', w')" by force
  have bit: "unat (b_bit b) = unat nbit mod 8" by (simp add: b_def unat_ucast_u8 unat_mod)
  have wf: "bb_wf b" using bit by (intro byte_align_wf) (simp_all add: b_def)
  have v: "bb_value b = 8 * unat byte + unat nbit"
    using True bit by (simp add: bb_value_def b_def unat_word_ariths unat_div)
  have "bb_value b div 8 < 2 ^ 64" using True by (simp add: v)
  then have "q = 0" "bb_value w = bb_value b" "bb_wf w" "bb_value w div 8 < 2 ^ 64"
    using word_normalise_value [OF wf w] by (cases "q = 0"; auto)+
  moreover from this have "bb_value w' = bb_value b"
    using byte_normalise_value [OF _ w'] by (cases "q' = 0") auto
  ultimately show ?thesis using True wf v w w' by (simp add: make_bb_eq b_def)
qed (simp add: make_bb_eq)

text \<open>Comparison of two addresses in any mix of alignments: the code answers 1 exactly
  when the first position is beyond the limit, 0 otherwise, as long as both positions lie
  in the 64-bit byte range (otherwise a normalisation inside it may report -1).\<close>

theorem exceeds_correct:
  assumes "bb_wf a" "bb_wf b" "bb_value a div 8 < 2 ^ 64" "bb_value b div 8 < 2 ^ 64"
  shows "exceeds_bb_katcl a b = (if bb_value b < bb_value a then 1 else 0)"
  using assms
proof (induction a b rule: exceeds_bb_katcl.induct)
  case (1 a b)
  obtain ra a' where a': "byte_normalise_bb_katcl a = (ra, a')" by force
  obtain rb b' where b': "byte_normalise_bb_katcl b = (rb, b')" by force
  have a: "ra = 0" "bb_value a' = bb_value a" "bb_wf a'"
    using byte_normalise_value [OF 1(3) a'] 1 by auto
  have b: "rb = 0" "bb_value b' = bb_value b" "bb_wf b'"
    using byte_normalise_value [OF 1(4) b'] 1 by auto
  show ?case
  proof (cases "0 < (b_align a AND b_align b)")
    case True
    with 1 show ?thesis by (simp add: exceeds_fast)
  next
    case False
    with 1 a b a' b' show ?thesis by (subst exceeds_bb_katcl.simps) simp
  qed
qed

theorem exceeds_correct_witness:
  "exceeds_bb_katcl \<lparr>b_byte = 4, b_bit = 9, b_align = 2\<rparr> \<lparr>b_byte = 5, b_bit = 0, b_align = 1\<rparr> = 1"
proof -
  let ?a = "\<lparr>b_byte = 4, b_bit = 9, b_align = 2\<rparr>" and ?b = "\<lparr>b_byte = 5, b_bit = 0, b_align = 1\<rparr>"
  have "bb_wf ?a" "bb_wf ?b" by (simp_all add: bb_wf_def align_defs)
  from exceeds_correct [OF this] show ?thesis by (simp add: bb_value_def)
qed

text \<open>C15. Addition: when neither the byte sum nor the bit sum overflows its C type the
  code returns 0 and the sum denotes the exact sum of the two positions, in a consistent
  alignment (also where the ignored result of the inner normalisation reports an overflow);
  otherwise it returns -1 and leaves the target alone.\<close>

theorem add_correct:
  "case add_bb_katcl s a b of (r, s') \<Rightarrow>
     if unat (b_byte a) + unat (b_byte b) < 2 ^ 64 \<and> unat (b_bit a) + unat (b_bit b) < 2 ^ 8
     then r = 0 \<and> bb_value s' = bb_value a + bb_value b \<and> bb_wf s'
     else r = -1 \<and> s' = s"
proof -
  let ?t = "\<lparr>b_byte = b_byte a + b_byte b, b_bit = b_bit a + b_bit b, b_align = 0\<rparr>"
  have w: "bb_wf ?t" by (simp add: bb_wf_def)
  obtain q t where t: "word_normalise_bb_katcl ?t = (q, t)" by force
  have n: "bb_value t = bb_value ?t \<and> bb_wf t"
    using word_normalise_value [OF w t] w by (cases "q = 0") auto
  have f: "(b_align a AND b_align b) OR KATCL_ALIGN_WORD \<noteq> 0"
    by (auto simp: align_defs or_eq_0_iff)
  have v: "bb_value ?t = bb_value a + bb_value b"
    if "unat (b_byte a) + unat (b_byte b) < 2 ^ 64" "unat (b_bit a) + unat (b_bit b) < 2 ^ 8"
    using that by (simp add: bb_value_def unat_word_ariths)
  show ?thesis
    using n v u64_add_no_wrap [of "b_byte a" "b_byte b"] u8_add_no_wrap [of "b_bit a" "b_bit b"] f t
    by (auto simp: add_bb_katcl_def Let_def bb_value_def bb_wf_def split: if_splits)
qed

end
