(* ===== verification/Time_Value.thy ===== *)
theory Time_Value
  imports Katcp_Base
begin

text \<open>
  Time stamps (\<open>katcp/time.c\<close>): reading a decimal time, splitting milliseconds,
  comparing, adding and subtracting \<open>struct timeval\<close>s. The lemmas relate each
  operation to the number of microseconds a time denotes.
\<close>

section \<open>Data\<close>

text \<open>\<open>tv_sec\<close> and \<open>tv_usec\<close> are signed 64-bit; sums of clock times stay far inside
  that range, so they are integers here. The conversion from \<open>strtoul\<close>'s unsigned result
  is written out (\<open>sint\<close>).\<close>

record timeval =
  tv_sec :: int
  tv_usec :: int

section \<open>Operations\<close>

definition char_at :: "string \<Rightarrow> nat \<Rightarrow> char" where
  "char_at s i = (if i < length s then s ! i else nul)"

definition ends_number :: "char \<Rightarrow> bool" where
  "ends_number c \<longleftrightarrow> c \<in> {CHR '' '', CHR 0x0A, CHR 0x0D, CHR 0x09, nul}"

text \<open>The two loops that bring a fraction of \<open>digits\<close> digits to microseconds.\<close>

fun shrink_usec :: "u64 \<Rightarrow> nat \<Rightarrow> u64 \<times> nat" where
  "shrink_usec v d = (if d > 6 then shrink_usec (v div 10) (d - 1) else (v, d))"

function grow_usec :: "u64 \<Rightarrow> nat \<Rightarrow> u64 \<times> nat" where
  "grow_usec v d = (if d < 6 then grow_usec (v * 10) (Suc d) else (v, d))"
  by pat_completeness auto
termination by (relation "measure (\<lambda>(v, d). 6 - d)") auto

declare shrink_usec.simps [simp del] grow_usec.simps [simp del]

definition string_to_tv_katcp :: "timeval \<Rightarrow> string option \<Rightarrow> int \<times> timeval" where
  "string_to_tv_katcp tv string =
     (case string of
        None \<Rightarrow> (-1, tv)
      | Some s \<Rightarrow>
          (case strtoul 10 s of (v0, e) \<Rightarrow>
             if ends_number (char_at s e) then
               (if e = 0 then (-1, tv)
                else (0, tv\<lparr>tv_sec := sint v0, tv_usec := 0\<rparr>))
             else if char_at s e = CHR ''.'' then
               (let p = drop (Suc e) s in
                case strtoul 10 p of (v1, d) \<Rightarrow>
                  if ends_number (char_at p d) then
                    (if d = 0 then (-1, tv)
                     else if d > 10 then (-1, tv)
                     else
                       let (v, d') = shrink_usec v1 d; (v', _) = grow_usec v d'
                       in (0, tv\<lparr>tv_sec := sint v0, tv_usec := sint v'\<rparr>))
                  else (-1, tv))
             else (-1, tv)))"

definition component_time_katcp :: "u32 \<Rightarrow> timeval" where
  "component_time_katcp ms =
     \<lparr>tv_sec = int (unat (ms div 1000)), tv_usec = int (unat ((ms mod 1000) * 1000))\<rparr>"

definition cmp_time_katcp :: "timeval \<Rightarrow> timeval \<Rightarrow> int" where
  "cmp_time_katcp alpha beta =
     (if tv_sec alpha < tv_sec beta then -1
      else if tv_sec alpha > tv_sec beta then 1
      else if tv_usec alpha < tv_usec beta then -1
      else if tv_usec alpha > tv_usec beta then 1
      else 0)"

definition add_time_katcp :: "timeval \<Rightarrow> timeval \<Rightarrow> timeval" where
  "add_time_katcp alpha beta =
     (if tv_usec alpha + tv_usec beta \<ge> 1000000
      then \<lparr>tv_sec = tv_sec alpha + tv_sec beta + 1,
            tv_usec = (tv_usec alpha + tv_usec beta) - 1000000\<rparr>
      else \<lparr>tv_sec = tv_sec alpha + tv_sec beta, tv_usec = tv_usec alpha + tv_usec beta\<rparr>)"

definition sub_time_katcp :: "timeval \<Rightarrow> timeval \<Rightarrow> int \<times> timeval" where
  "sub_time_katcp alpha beta =
     (if tv_usec alpha < tv_usec beta then
        (if tv_sec alpha \<le> tv_sec beta then (-1, \<lparr>tv_sec = 0, tv_usec = 0\<rparr>)
         else (0, \<lparr>tv_sec = tv_sec alpha - (tv_sec beta + 1),
                   tv_usec = (1000000 + tv_usec alpha) - tv_usec beta\<rparr>))
      else
        (if tv_sec alpha < tv_sec beta then (-1, \<lparr>tv_sec = 0, tv_usec = 0\<rparr>)
         else (0, \<lparr>tv_sec = tv_sec alpha - tv_sec beta,
                   tv_usec = tv_usec alpha - tv_usec beta\<rparr>)))"

section \<open>Microseconds\<close>

definition tv_norm :: "timeval \<Rightarrow> bool" where
  "tv_norm t \<longleftrightarrow> 0 \<le> tv_usec t \<and> tv_usec t < 1000000"

definition tv_micros :: "timeval \<Rightarrow> int" where
  "tv_micros t = 1000000 * tv_sec t + tv_usec t"

lemmas tv_defs = tv_norm_def tv_micros_def

lemma cmp_time_micros:
  "tv_norm a \<Longrightarrow> tv_norm b \<Longrightarrow> cmp_time_katcp a b = sgn (tv_micros a - tv_micros b)"
  by (auto simp: cmp_time_katcp_def tv_defs sgn_if)

lemma add_time_micros [simp]: "tv_micros (add_time_katcp a b) = tv_micros a + tv_micros b"
  by (simp add: add_time_katcp_def tv_micros_def)

lemma add_time_norm [katcp_inv]: "tv_norm a \<Longrightarrow> tv_norm b \<Longrightarrow> tv_norm (add_time_katcp a b)"
  by (auto simp: add_time_katcp_def tv_norm_def)

lemma sub_time_micros:
  "tv_norm a \<Longrightarrow> tv_norm b \<Longrightarrow>
   sub_time_katcp a b = (r, d) \<Longrightarrow>
   tv_norm d \<and> (if tv_micros b \<le> tv_micros a then r = 0 \<and> tv_micros d = tv_micros a - tv_micros b
                else r = -1 \<and> tv_micros d = 0)"
  by (auto simp: sub_time_katcp_def tv_defs split: if_splits)

lemma component_time_micros:
  "tv_norm (component_time_katcp ms) \<and> tv_micros (component_time_katcp ms) = 1000 * int (unat ms)"
proof -
  define a where "a = unat ms div 1000"
  define b where "b = unat ms mod 1000"
  have n: "unat ms = 1000 * a + b" and b: "b < 1000" by (simp_all add: a_def b_def)
  have "unat (ms div 1000) = a" by (simp add: unat_div a_def)
  moreover have "unat ((ms mod 1000) * 1000) = b * 1000"
    by (simp add: unat_word_ariths unat_mod b_def)
  ultimately have t: "component_time_katcp ms = \<lparr>tv_sec = int a, tv_usec = int (b * 1000)\<rparr>"
    by (simp only: component_time_katcp_def)
  have "int (b * 1000) < 1000000" using b by simp
  then show ?thesis by (simp add: t tv_defs n del: of_nat_unat)
qed

section \<open>Reading a fraction\<close>

lemma grow_usec_eq:
  "d \<le> 6 \<Longrightarrow> grow_usec v d = (v * 10 ^ (6 - d), 6)"
proof (induction v d rule: grow_usec.induct)
  case (1 v d)
  show ?case
  proof (cases "d < 6")
    case True
    then have "6 - d = Suc (6 - Suc d)" by simp
    with 1 True show ?thesis by (subst grow_usec.simps) (simp add: mult.assoc)
  next
    case False
    with 1 show ?thesis by (subst grow_usec.simps) simp
  qed
qed

lemma shrink_usec_eq:
  "shrink_usec v d = (if d > 6 then (of_nat (unat v div 10 ^ (d - 6)), 6) else (v, d))"
proof (induction v d rule: shrink_usec.induct)
  case (1 v d)
  show ?case
  proof (cases "d > 6")
    case True
    have u: "unat (v div 10) = unat v div 10" by (simp add: unat_div)
    have e: "d - 6 = Suc (d - 1 - 6)" using True by simp
    show ?thesis
    proof (cases "d - 1 > 6")
      case t: True
      with 1 True e u show ?thesis
        by (subst shrink_usec.simps) (simp add: div_mult2_eq)
    next
      case f: False
      with True have "d = 7" by simp
      with 1 True u show ?thesis
        by (subst shrink_usec.simps) (simp flip: u)
    qed
  next
    case False
    then show ?thesis by (subst shrink_usec.simps) simp
  qed
qed

lemma digits_val_append:
  "digits_val b (xs @ ys) = digits_val b xs * b ^ length ys + digits_val b ys"
proof (induction ys rule: rev_induct)
  case Nil
  then show ?case by (simp add: digits_val_def)
next
  case (snoc y ys)
  then show ?case
    by (simp add: digits_val_snoc algebra_simps flip: append_assoc)
qed

lemma digits_val_less:
  "\<forall>c \<in> set ds. is_digit b c \<Longrightarrow> digits_val b ds < b ^ length ds"
proof (induction ds rule: rev_induct)
  case Nil
  then show ?case by (simp add: digits_val_def)
next
  case (snoc d ds)
  then have v: "digits_val b ds + 1 \<le> b ^ length ds" and d: "the (digit_val d) < b"
    by (auto simp: is_digit_def split: option.splits)
  have "digits_val b (ds @ [d]) < digits_val b ds * b + b" using d by (simp add: digits_val_snoc)
  also have "\<dots> = (digits_val b ds + 1) * b" by simp
  also have "\<dots> \<le> b ^ length ds * b" using v by (rule mult_le_mono1)
  finally show ?case by (simp add: mult.commute)
qed

text \<open>The two loops together scale \<open>v / 10 ^ d\<close> seconds to microseconds, rounding down.\<close>

lemma scale_usec:
  assumes "v < 10 ^ d" "1 \<le> d" "d \<le> 10"
  shows "(case shrink_usec (of_nat v) d of (w, d') \<Rightarrow> fst (grow_usec w d')) =
         (of_nat (v * 1000000 div 10 ^ d) :: u64)"
proof -
  have "(10 :: nat) ^ d \<le> 10 ^ 10" using assms(3) by (intro power_increasing) auto
  then have u: "unat (of_nat v :: u64) = v" using assms(1)
    by (simp add: unat_of_nat)
  show ?thesis
  proof (cases "d > 6")
    case True
    then have "(10 :: nat) ^ d = 10 ^ (d - 6) * 10 ^ 6"
      by (metis le_add_diff_inverse2 less_imp_le_nat power_add)
    then have "(10 :: nat) ^ d = 10 ^ (d - 6) * 1000000" by simp
    then have "v * 1000000 div 10 ^ d = v div 10 ^ (d - 6)" by simp
    with True u show ?thesis by (simp add: shrink_usec_eq grow_usec_eq)
  next
    case False
    then have "(1000000 :: nat) = 10 ^ d * 10 ^ (6 - d)"
      by (simp flip: power_add)
    then have "v * 1000000 = v * 10 ^ (6 - d) * 10 ^ d" by (simp add: mult_ac)
    then have "v * 1000000 div 10 ^ d = v * 10 ^ (6 - d)"
      by (metis nonzero_mult_div_cancel_right power_not_zero zero_neq_numeral)
    with False show ?thesis by (simp add: shrink_usec_eq grow_usec_eq)
  qed
qed

lemma ends_number_not_digit: "ends_number c \<Longrightarrow> \<not> is_digit 10 c"
  using digit10_range [of c] by (auto simp: ends_number_def)

lemma char_at_append [simp]: "char_at (xs @ ys) (length xs) = (case ys of [] \<Rightarrow> nul | c # _ \<Rightarrow> c)"
  by (auto simp: char_at_def nth_append split: list.splits)

section \<open>Properties\<close>

text \<open>Arithmetic on normalised times is exact: addition adds the microseconds and keeps
  the normal form, subtraction subtracts them or, when the result would be negative, returns
  -1 and a zero time; comparison is the comparison of the microseconds; and adding then
  subtracting gives back the first time.\<close>

theorem time_arith_correct:
  assumes "tv_norm a" "tv_norm b"
  shows "tv_norm (add_time_katcp a b) \<and>
     tv_micros (add_time_katcp a b) = tv_micros a + tv_micros b \<and>
     cmp_time_katcp a b = sgn (tv_micros a - tv_micros b) \<and>
     (case sub_time_katcp a b of (r, d) \<Rightarrow> tv_norm d \<and>
        (if tv_micros b \<le> tv_micros a then r = 0 \<and> tv_micros d = tv_micros a - tv_micros b
         else r = -1 \<and> tv_micros d = 0)) \<and>
     (0 \<le> tv_sec a \<longrightarrow> sub_time_katcp (add_time_katcp a b) b = (0, a))"
  using assms cmp_time_micros [OF assms] add_time_norm [OF assms]
    sub_time_micros [OF assms, of "fst (sub_time_katcp a b)" "snd (sub_time_katcp a b)"]
  by (auto simp: split_beta sub_time_katcp_def add_time_katcp_def tv_defs)

theorem time_arith_correct_witness:
  "tv_micros (add_time_katcp \<lparr>tv_sec = 1, tv_usec = 600000\<rparr> \<lparr>tv_sec = 2, tv_usec = 500000\<rparr>) = 4100000"
  using time_arith_correct [of "\<lparr>tv_sec = 1, tv_usec = 600000\<rparr>" "\<lparr>tv_sec = 2, tv_usec = 500000\<rparr>"]
  by (simp add: tv_defs)

text \<open>Reading a decimal time: digits, a point and one to ten digits, ended by the end of
  the string or by white space, give the seconds and the fraction in microseconds rounded
  down, in normal form.\<close>

theorem string_to_tv_decimal:
  assumes "ds \<noteq> []" "\<forall>c \<in> set ds. is_digit 10 c" "digits_val 10 ds < 2 ^ 63"
    and "fs \<noteq> []" "\<forall>c \<in> set fs. is_digit 10 c" "length fs \<le> 10"
    and "case rest of [] \<Rightarrow> True | c # _ \<Rightarrow> ends_number c"
  shows "string_to_tv_katcp tv (Some (ds @ CHR ''.'' # fs @ rest)) =
     (0, tv\<lparr>tv_sec := int (digits_val 10 ds),
            tv_usec := int (digits_val 10 fs * 1000000 div 10 ^ length fs)\<rparr>)"
proof -
  let ?v = "digits_val 10 fs" and ?d = "length fs"
  let ?u = "?v * 1000000 div 10 ^ ?d"
  have v: "?v < 10 ^ ?d" using digits_val_less [of fs 10] assms(5) by simp
  have "(10 :: nat) ^ ?d \<le> 10 ^ 10" using assms(6) by (intro power_increasing) auto
  then have v64: "?v < 2 ^ 64" using v by simp
  have "?u < 1000000" using v by (intro less_mult_imp_div_less) simp
  then have u: "?u < 2 ^ 63" by simp
  have sint_small: "sint (of_nat n :: u64) = int n" if "n < 2 ^ 63" for n
    using that by (simp add: signed_of_nat signed_take_bit_int_eq_self)
  have "\<not> is_digit 10 (CHR ''.'')" by (simp add: is_digit_def digit_val_def)
  then have s0: "strtoul 10 (ds @ CHR ''.'' # fs @ rest) = (of_nat (digits_val 10 ds), length ds)"
    using assms(1-3) by (intro strtoul_decimal) auto
  have s1: "strtoul 10 (fs @ rest) = (of_nat ?v, ?d)"
    using assms(4,5,7) v64 by (intro strtoul_decimal) (auto split: list.splits dest: ends_number_not_digit)
  have c1: "ends_number (case rest of [] \<Rightarrow> nul | c # _ \<Rightarrow> c)"
    using assms(7) by (auto simp: ends_number_def split: list.splits)
  have d1: "1 \<le> ?d" using assms(4) by (cases fs) auto
  show ?thesis
    using scale_usec [OF v d1 assms(6)] s0 s1 c1 assms(4,6) assms(3) u
    by (auto simp: string_to_tv_katcp_def Let_def ends_number_def sint_small split: prod.splits)
qed

theorem string_to_tv_decimal_witness:
  "string_to_tv_katcp \<lparr>tv_sec = 0, tv_usec = 0\<rparr> (Some ''12.25'') =
     (0, \<lparr>tv_sec = 12, tv_usec = 250000\<rparr>)"
proof -
  have "is_digit 10 CHR ''1''" "is_digit 10 CHR ''2''" "is_digit 10 CHR ''5''"
    by (simp_all add: is_digit_def digit_val_def)
  then show ?thesis
    using string_to_tv_decimal [of "''12''" "''25''" "[]" "\<lparr>tv_sec = 0, tv_usec = 0\<rparr>"]
    by (simp add: digits_val_def digit_val_def)
qed

end
