(* ===== verification/Interfaces.thy ===== *)
theory Interfaces
  imports Katcp_Base "HOL-Library.Multiset"
begin

text \<open>
  The contracts that several components offer or rely on, as locales over abstract
  operations: a first-in first-out queue (offered by the generic queue, and the measure of the
  queue of messages that the line's writer uses), a priority queue (offered by the heap of the
  timers), and a dictionary (offered by the balanced tree and by the map of the traps).
  Each locale fixes the operations a client calls and assumes what the provider promises;
  its lemmas are proved once here and reach the components through the interpretations in
  their own theories.
\<close>

section \<open>First-in first-out queues\<close>

datatype 'a queue_op = Enq 'a | Deq

text \<open>Running a sequence of operations on a queue, collecting what the removals return.\<close>

fun run_queue ::
  "('a \<Rightarrow> 'q \<Rightarrow> 'q) \<Rightarrow> ('q \<Rightarrow> 'a option \<times> 'q) \<Rightarrow> 'q \<Rightarrow> 'a queue_op list \<Rightarrow> 'a option list \<times> 'q" where
  "run_queue enq deq q [] = ([], q)"
| "run_queue enq deq q (Enq x # ops) = run_queue enq deq (enq x q) ops"
| "run_queue enq deq q (Deq # ops) =
     (case deq q of (r, q') \<Rightarrow>
        case run_queue enq deq q' ops of (rs, q'') \<Rightarrow> (r # rs, q''))"

text \<open>The ideal queue: a list.\<close>

definition list_enq :: "'a \<Rightarrow> 'a list \<Rightarrow> 'a list" where
  "list_enq x xs = xs @ [x]"

definition list_deq :: "'a list \<Rightarrow> 'a option \<times> 'a list" where
  "list_deq xs = (case xs of [] \<Rightarrow> (None, []) | x # xs' \<Rightarrow> (Some x, xs'))"

locale fifo =
  fixes emp :: "'q"
    and enq :: "'a \<Rightarrow> 'q \<Rightarrow> 'q"
    and deq :: "'q \<Rightarrow> 'a option \<times> 'q"
    and items :: "'q \<Rightarrow> 'a list"
    and valid :: "'q \<Rightarrow> bool"
  assumes valid_emp: "valid emp"
    and items_emp: "items emp = []"
    and valid_enq: "valid q \<Longrightarrow> valid (enq x q)"
    and items_enq: "valid q \<Longrightarrow> items (enq x q) = list_enq x (items q)"
    and valid_deq: "valid q \<Longrightarrow> valid (snd (deq q))"
    and items_deq: "valid q \<Longrightarrow> (fst (deq q), items (snd (deq q))) = list_deq (items q)"
begin

lemma run_refines:
  "valid q \<Longrightarrow> run_queue enq deq q ops = (rs, q') \<Longrightarrow>
   valid q' \<and> run_queue list_enq list_deq (items q) ops = (rs, items q')"
proof (induction ops arbitrary: q rs)
  case Nil
  then show ?case by simp
next
  case (Cons op ops)
  show ?case
  proof (cases op)
    case (Enq x)
    with Cons.prems Cons.IH [of "enq x q" rs] show ?thesis
      by (simp add: valid_enq items_enq)
  next
    case Deq
    obtain r q1 where d: "deq q = (r, q1)" by force
    with Cons.prems have "valid q1" "list_deq (items q) = (r, items q1)"
      using valid_deq [of q] items_deq [of q] by simp_all
    with Cons d Deq show ?thesis by (auto split: prod.splits)
  qed
qed

lemma run_from_empty:
  "fst (run_queue enq deq emp ops) = fst (run_queue list_enq list_deq [] ops)"
  using run_refines [OF valid_emp, of ops] items_emp
  by (cases "run_queue enq deq emp ops") fastforce

lemma run_items:
  "items (snd (run_queue enq deq emp ops)) = snd (run_queue list_enq list_deq [] ops)"
  using run_refines [OF valid_emp, of ops] items_emp
  by (cases "run_queue enq deq emp ops") fastforce

lemma enq_all_then_deq_all:
  "valid q \<Longrightarrow> items q = [] \<Longrightarrow>
   fst (run_queue enq deq q (map Enq xs @ replicate (length xs) Deq)) = map Some xs"
proof -
  have enqs: "run_queue list_enq list_deq ys (map Enq xs @ ops) = run_queue list_enq list_deq (ys @ xs) ops"
    for ys ops by (induction xs arbitrary: ys) (simp_all add: list_enq_def)
  have deqs: "run_queue list_enq list_deq ys (replicate (length ys) Deq) = (map Some ys, [])" for ys :: "'a list"
    by (induction ys) (simp_all add: list_deq_def)
  assume "valid q" "items q = []"
  then show ?thesis
    using run_refines [of q "map Enq xs @ replicate (length xs) Deq"] enqs [of "[]"] deqs [of xs]
    by (cases "run_queue enq deq q (map Enq xs @ replicate (length xs) Deq)") simp
qed

end

section \<open>Priority queues\<close>

text \<open>Taking elements off the top, at most \<open>n\<close> of them.\<close>

fun take_tops :: "('q \<Rightarrow> 'a option) \<Rightarrow> ('q \<Rightarrow> 'q) \<Rightarrow> nat \<Rightarrow> 'q \<Rightarrow> 'a list" where
  "take_tops tp del 0 q = []"
| "take_tops tp del (Suc n) q = (case tp q of None \<Rightarrow> [] | Some x \<Rightarrow> x # take_tops tp del n (del q))"

locale priority_queue =
  fixes emp :: "'q"
    and ins :: "'a \<Rightarrow> 'q \<Rightarrow> 'q"
    and tp :: "'q \<Rightarrow> 'a option"
    and del :: "'q \<Rightarrow> 'q"
    and elems :: "'q \<Rightarrow> 'a multiset"
    and valid :: "'q \<Rightarrow> bool"
    and key :: "'a \<Rightarrow> 'k::linorder"
  assumes valid_emp: "valid emp"
    and elems_emp: "elems emp = {#}"
    and valid_ins: "valid q \<Longrightarrow> valid (ins x q)"
    and elems_ins: "valid q \<Longrightarrow> elems (ins x q) = add_mset x (elems q)"
    and top_None: "valid q \<Longrightarrow> tp q = None \<Longrightarrow> elems q = {#}"
    and top_in: "valid q \<Longrightarrow> tp q = Some x \<Longrightarrow> x \<in># elems q"
    and top_least: "valid q \<Longrightarrow> tp q = Some x \<Longrightarrow> y \<in># elems q \<Longrightarrow> key x \<le> key y"
    and valid_del: "valid q \<Longrightarrow> valid (del q)"
    and elems_del: "valid q \<Longrightarrow> tp q = Some x \<Longrightarrow> elems (del q) = elems q - {#x#}"
begin

lemma take_tops_ok:
  "valid q \<Longrightarrow> size (elems q) \<le> n \<Longrightarrow>
   mset (take_tops tp del n q) = elems q \<and> sorted (map key (take_tops tp del n q))"
proof (induction n arbitrary: q)
  case 0
  then show ?case by simp
next
  case (Suc n)
  show ?case
  proof (cases "tp q")
    case None
    then show ?thesis using top_None [OF Suc.prems(1)] by simp
  next
    case (Some x)
    have x: "x \<in># elems q" and e: "elems (del q) = elems q - {#x#}"
      using top_in [OF Suc.prems(1) Some] elems_del [OF Suc.prems(1) Some] .
    then have "size (elems (del q)) \<le> n" using Suc.prems(2) by (simp add: size_Diff_singleton)
    then have ih: "mset (take_tops tp del n (del q)) = elems (del q)" "sorted (map key (take_tops tp del n (del q)))"
      using Suc.IH [OF valid_del [OF Suc.prems(1)]] by simp_all
    have "key x \<le> key y" if mem: "y \<in> set (take_tops tp del n (del q))" for y
    proof -
      have "y \<in># elems (del q)" using mem ih(1) by (metis set_mset_mset)
      then have "y \<in># elems q" unfolding e by (rule in_diffD)
      then show ?thesis using top_least [OF Suc.prems(1) Some] by blast
    qed
    then show ?thesis using Some ih x e by simp
  qed
qed

lemma elems_all: "valid q \<Longrightarrow> elems (fold ins xs q) = mset xs + elems q \<and> valid (fold ins xs q)"
  by (induction xs arbitrary: q) (simp_all add: valid_ins elems_ins)

text \<open>Whatever is put in comes out again, in the order of the keys.\<close>

lemma sorts:
  "mset (take_tops tp del (length xs) (fold ins xs emp)) = mset xs \<and>
   sorted (map key (take_tops tp del (length xs) (fold ins xs emp)))"
  using elems_all [OF valid_emp, of xs] take_tops_ok [of "fold ins xs emp" "length xs"] by (simp add: elems_emp)

end

section \<open>Dictionaries\<close>

text \<open>A store of values by keys that refuses a key it has already: a table of named things.\<close>

datatype ('k, 'v) dict_op = Put 'k 'v | Rem 'k | Look 'k

datatype 'v dict_result = Accepted bool | Found "'v option"

fun run_dict ::
  "('k \<Rightarrow> 'v \<Rightarrow> 't \<Rightarrow> (bool \<times> 't) res) \<Rightarrow> ('k \<Rightarrow> 't \<Rightarrow> (bool \<times> 't) res) \<Rightarrow> ('k \<Rightarrow> 't \<Rightarrow> 'v option) \<Rightarrow>
   't \<Rightarrow> ('k, 'v) dict_op list \<Rightarrow> ('v dict_result list \<times> 't) res" where
  "run_dict put rem look t [] = Inr ([], t)"
| "run_dict put rem look t (Put k v # ops) =
     bind_res (put k v t) (\<lambda>(ok, t1). bind_res (run_dict put rem look t1 ops) (\<lambda>(rs, t2). Inr (Accepted ok # rs, t2)))"
| "run_dict put rem look t (Rem k # ops) =
     bind_res (rem k t) (\<lambda>(ok, t1). bind_res (run_dict put rem look t1 ops) (\<lambda>(rs, t2). Inr (Accepted ok # rs, t2)))"
| "run_dict put rem look t (Look k # ops) =
     bind_res (run_dict put rem look t ops) (\<lambda>(rs, t2). Inr (Found (look k t) # rs, t2))"

text \<open>The ideal dictionary: a map.\<close>

definition map_put :: "'k \<Rightarrow> 'v \<Rightarrow> ('k \<rightharpoonup> 'v) \<Rightarrow> (bool \<times> ('k \<rightharpoonup> 'v)) res" where
  "map_put k v m = Inr (if m k = None then (True, m(k \<mapsto> v)) else (False, m))"

definition map_rem :: "'k \<Rightarrow> ('k \<rightharpoonup> 'v) \<Rightarrow> (bool \<times> ('k \<rightharpoonup> 'v)) res" where
  "map_rem k m = Inr (m k \<noteq> None, m(k := None))"

definition map_look :: "'k \<Rightarrow> ('k \<rightharpoonup> 'v) \<Rightarrow> 'v option" where
  "map_look k m = m k"

locale dictionary =
  fixes emp :: "'t"
    and put :: "'k \<Rightarrow> 'v \<Rightarrow> 't \<Rightarrow> (bool \<times> 't) res"
    and rem :: "'k \<Rightarrow> 't \<Rightarrow> (bool \<times> 't) res"
    and look :: "'k \<Rightarrow> 't \<Rightarrow> 'v option"
    and contents :: "'t \<Rightarrow> 'k \<rightharpoonup> 'v"
    and valid :: "'t \<Rightarrow> bool"
  assumes valid_emp: "valid emp"
    and contents_emp: "contents emp = Map.empty"
    and look_contents: "valid t \<Longrightarrow> look k t = contents t k"
    and put_new: "valid t \<Longrightarrow> contents t k = None \<Longrightarrow>
      \<exists>t1. put k v t = Inr (True, t1) \<and> valid t1 \<and> contents t1 = (contents t)(k \<mapsto> v)"
    and put_old: "valid t \<Longrightarrow> contents t k \<noteq> None \<Longrightarrow> put k v t = Inr (False, t)"
    and rem_old: "valid t \<Longrightarrow> contents t k \<noteq> None \<Longrightarrow>
      \<exists>t1. rem k t = Inr (True, t1) \<and> valid t1 \<and> contents t1 = (contents t)(k := None)"
    and rem_new: "valid t \<Longrightarrow> contents t k = None \<Longrightarrow> rem k t = Inr (False, t)"
begin

lemma put_ok:
  assumes "valid t"
  shows "\<exists>t1. put k v t = Inr (contents t k = None, t1) \<and> valid t1 \<and>
    map_put k v (contents t) = Inr (contents t k = None, contents t1)"
  using put_new [OF assms, of k v] put_old [OF assms, of k v] assms
  by (cases "contents t k = None") (auto simp: map_put_def)

lemma rem_ok:
  assumes "valid t"
  shows "\<exists>t1. rem k t = Inr (contents t k \<noteq> None, t1) \<and> valid t1 \<and>
    map_rem k (contents t) = Inr (contents t k \<noteq> None, contents t1)"
proof (cases "contents t k = None")
  case True
  then have "(contents t)(k := None) = contents t" by auto
  with True rem_new [OF assms] assms show ?thesis by (auto simp: map_rem_def)
next
  case False
  then show ?thesis using rem_old [OF assms False] by (simp add: map_rem_def) metis
qed

text \<open>A run never fails, and answers what the map answers.\<close>

lemma run_refines:
  "valid t \<Longrightarrow> \<exists>rs t1. run_dict put rem look t ops = Inr (rs, t1) \<and> valid t1 \<and>
     run_dict map_put map_rem map_look (contents t) ops = Inr (rs, contents t1)"
proof (induction ops arbitrary: t)
  case Nil
  then show ?case by simp
next
  case (Cons op ops)
  show ?case
  proof (cases op)
    case (Put k v)
    obtain t1 where t1: "put k v t = Inr (contents t k = None, t1)" "valid t1"
      "map_put k v (contents t) = Inr (contents t k = None, contents t1)"
      using put_ok [OF Cons.prems] by blast
    with Cons.IH [OF t1(2)] show ?thesis unfolding Put by auto
  next
    case (Rem k)
    obtain t1 where t1: "rem k t = Inr (contents t k \<noteq> None, t1)" "valid t1"
      "map_rem k (contents t) = Inr (contents t k \<noteq> None, contents t1)"
      using rem_ok [OF Cons.prems] by blast
    with Cons.IH [OF t1(2)] show ?thesis unfolding Rem by auto
  next
    case (Look k)
    with Cons.IH [OF Cons.prems] look_contents [OF Cons.prems] show ?thesis
      by (auto simp: map_look_def)
  qed
qed

lemma run_from_empty:
  "\<exists>rs t. run_dict put rem look emp ops = Inr (rs, t) \<and> valid t \<and>
     run_dict map_put map_rem map_look Map.empty ops = Inr (rs, contents t)"
  using run_refines [OF valid_emp] by (simp add: contents_emp)

end

end
