(* ===== verification/Gen_Queue.thy ===== *)
theory Gen_Queue
  imports Interfaces
begin

text \<open>
  The generic queue (\<open>katcp/generic-queue.c\<close>): a circular array that grows by one
  slot when it is full and from which an element can be removed at any position. The
  record's fields are those of \<open>struct katcl_gueue\<close>; a slot holding a null pointer is
  \<open>None\<close>. The lemmas show that under the invariant each operation refines the operation
  on the plain list of the stored data, and that no consistency check fires.
\<close>

section \<open>State\<close>

record 'a gueue =
  g_queue :: "'a option list"
  g_size :: nat
  g_head :: nat
  g_count :: nat
  g_release :: bool                       \<comment> \<open>whether a cleanup function is set\<close>
  g_precedence :: "('a \<Rightarrow> nat) option"

section \<open>Operations\<close>

definition create_precedence_gueue_katcl ::
  "bool \<Rightarrow> bool \<Rightarrow> ('a \<Rightarrow> nat) option \<Rightarrow> 'a gueue option" where
  "create_precedence_gueue_katcl ok release precedence =
     (if \<not> ok then None
      else Some \<lparr>g_queue = [], g_size = 0, g_head = 0, g_count = 0,
                 g_release = release, g_precedence = precedence\<rparr>)"

definition create_gueue_katcl :: "bool \<Rightarrow> bool \<Rightarrow> 'a gueue option" where
  "create_gueue_katcl ok release = create_precedence_gueue_katcl ok release None"

text \<open>The loop shared by \<open>destroy\<close> and \<open>clear\<close>: it visits the \<open>g_count\<close> used slots
  from the head, hands each to the cleanup function (the list returned is what was handed
  over, in order) and empties it.\<close>

fun release_slots :: "'a gueue \<Rightarrow> nat \<Rightarrow> nat \<Rightarrow> 'a option list \<times> 'a gueue" where
  "release_slots g j 0 = ([], g)"
| "release_slots g j (Suc n) =
     (let i = (g_head g + j) mod g_size g;
          (rs, g') = release_slots (g\<lparr>g_queue := (g_queue g)[i := None]\<rparr>) (Suc j) n
      in ((if g_release g then [g_queue g ! i] else []) @ rs, g'))"

definition destroy_gueue_katcl :: "'a gueue \<Rightarrow> 'a option list" where
  "destroy_gueue_katcl g = fst (release_slots g 0 (g_count g))"

definition clear_gueue_katcl :: "'a gueue \<Rightarrow> 'a option list \<times> 'a gueue" where
  "clear_gueue_katcl g =
     (case release_slots g 0 (g_count g) of (rs, g') \<Rightarrow> (rs, g'\<lparr>g_count := 0\<rparr>))"

definition grow_slots :: "'a option list \<Rightarrow> nat \<Rightarrow> nat \<Rightarrow> 'a option list" where
  \<comment> \<open>the new last slot takes the first, the ones before the head move down by one\<close>
  "grow_slots q sz head =
     (let tmp = q @ [None] in
      if head > 0 then
        (let q1 = tmp[sz := tmp ! 0];
             q2 = (if head > 1 then memmove 0 1 (head - 1) q1 else q1)
         in q2[head - 1 := None])
      else tmp)"

definition add_tail_gueue_katcl :: "bool \<Rightarrow> 'a gueue \<Rightarrow> 'a option \<Rightarrow> (int \<times> 'a gueue) res" where
  "add_tail_gueue_katcl ok g datum =
     (if datum = None then Inr (-1, g)
      else if g_count g \<ge> g_size g \<and> g_size g < g_count g then Inl Abort
      else if g_count g \<ge> g_size g \<and> \<not> ok then Inr (-1, g)
      else
        let g1 = (if g_count g \<ge> g_size g
                  then g\<lparr>g_queue := grow_slots (g_queue g) (g_size g) (g_head g),
                         g_size := g_size g + 1\<rparr>
                  else g);
            index = (g_head g1 + g_count g1) mod g_size g1
        in Inr (0, g1\<lparr>g_queue := (g_queue g1)[index := datum], g_count := g_count g1 + 1\<rparr>))"

definition get_from_head_gueue_katcl :: "'a gueue \<Rightarrow> nat \<Rightarrow> 'a option" where
  "get_from_head_gueue_katcl g position =
     (if g_count g = 0 \<or> g_size g = 0 \<or> g_count g > g_size g then None
      else if position < g_count g then g_queue g ! ((g_head g + position) mod g_size g)
      else None)"

definition get_head_gueue_katcl :: "'a gueue \<Rightarrow> 'a option" where
  "get_head_gueue_katcl g = (if g_count g > 0 then g_queue g ! g_head g else None)"

text \<open>The scan of \<open>get_precedence_head\<close>: \<open>n\<close> slots from position \<open>j\<close>. Calling the
  metric on an empty slot is a null dereference in the callback.\<close>

fun scan_precedence :: "'a gueue \<Rightarrow> ('a \<Rightarrow> nat) \<Rightarrow> nat \<Rightarrow> nat \<Rightarrow> nat \<Rightarrow> 'a option res" where
  "scan_precedence g metric precedence j 0 = Inr None"
| "scan_precedence g metric precedence j (Suc n) =
     (case g_queue g ! ((g_head g + j) mod g_size g) of
        None \<Rightarrow> Inl NullDeref
      | Some x \<Rightarrow> if metric x \<ge> precedence then Inr (Some x)
                  else scan_precedence g metric precedence (Suc j) n)"

definition get_precedence_head_gueue_katcl :: "'a gueue \<Rightarrow> nat \<Rightarrow> 'a option res" where
  "get_precedence_head_gueue_katcl g precedence =
     (case g_precedence g of
        None \<Rightarrow> Inr (get_head_gueue_katcl g)
      | Some metric \<Rightarrow>
          if g_count g = 0 then Inr None
          else if g_size g = 0 \<or> g_count g > g_size g then Inl Abort
          else scan_precedence g metric precedence 0 (g_count g))"

definition remove_index_gueue_katcl :: "'a gueue \<Rightarrow> nat \<Rightarrow> ('a option \<times> 'a gueue) res" where
  "remove_index_gueue_katcl g index =
     (if g_count g \<le> 0 then Inr (None, g)
      else if index \<ge> g_size g then Inl Abort
      else if g_queue g ! index = None then Inl Abort
      else
        let datum = g_queue g ! index;
            q = (g_queue g)[index := None]
        in
        if index = g_head g then
          Inr (datum, g\<lparr>g_queue := q, g_head := (g_head g + 1) mod g_size g,
                        g_count := g_count g - 1\<rparr>)
        else if index > g_head g then
          let q1 = memmove (g_head g + 1) (g_head g) (index - g_head g) q
          in Inr (datum, g\<lparr>g_queue := q1[g_head g := None], g_head := (g_head g + 1) mod g_size g,
                           g_count := g_count g - 1\<rparr>)
        else
          let end = (g_head g + g_count g - 1) mod g_size g in
          if index > end then Inl Abort
          else
            let q1 = (if index < end then memmove index (index + 1) (end - index) q else q)
            in Inr (datum, g\<lparr>g_queue := q1[end := None], g_count := g_count g - 1\<rparr>))"

definition remove_from_head_gueue_katcl :: "'a gueue \<Rightarrow> nat \<Rightarrow> ('a option \<times> 'a gueue) res" where
  "remove_from_head_gueue_katcl g position =
     (if g_count g = 0 \<or> g_size g = 0 \<or> g_count g > g_size g then Inr (None, g)
      else if position \<ge> g_count g then Inr (None, g)
      else remove_index_gueue_katcl g ((g_head g + position) mod g_size g))"

fun find_datum :: "'a gueue \<Rightarrow> 'a \<Rightarrow> nat \<Rightarrow> nat \<Rightarrow> nat option" where
  "find_datum g datum j 0 = None"
| "find_datum g datum j (Suc n) =
     (let i = (g_head g + j) mod g_size g in
      if g_queue g ! i = Some datum then Some i else find_datum g datum (Suc j) n)"

definition remove_datum_gueue_katcl :: "'a gueue \<Rightarrow> 'a \<Rightarrow> ('a option \<times> 'a gueue) res" where
  "remove_datum_gueue_katcl g datum =
     (if g_count g = 0 \<or> g_size g = 0 \<or> g_count g > g_size g then Inr (None, g)
      else case find_datum g datum 0 (g_count g) of
             None \<Rightarrow> Inr (None, g)
           | Some i \<Rightarrow> remove_index_gueue_katcl g i)"

definition remove_head_gueue_katcl :: "'a gueue \<Rightarrow> ('a option \<times> 'a gueue) res" where
  "remove_head_gueue_katcl g = remove_index_gueue_katcl g (g_head g)"

definition size_gueue_katcl :: "'a gueue option \<Rightarrow> nat" where
  "size_gueue_katcl g = (case g of None \<Rightarrow> 0 | Some g' \<Rightarrow> g_count g')"

section \<open>Invariant and abstraction\<close>

lemma wrap_back:
  fixes h s :: nat
  assumes "h < s"
  shows "((h + 1) mod s + (s - 1)) mod s = h"
  using assms by (cases "h + 1 = s") (auto simp: mod_if)

definition gueue_slot :: "'a gueue \<Rightarrow> nat \<Rightarrow> 'a option" where
  "gueue_slot g j = g_queue g ! ((g_head g + j) mod g_size g)"

definition gueue_inv :: "'a gueue \<Rightarrow> bool" where
  "gueue_inv g \<longleftrightarrow>
     length (g_queue g) = g_size g \<and> g_count g \<le> g_size g \<and>
     (if g_size g = 0 then g_head g = 0 else g_head g < g_size g) \<and>
     (\<forall>j < g_size g. (gueue_slot g j \<noteq> None) = (j < g_count g))"

definition gueue_items :: "'a gueue \<Rightarrow> 'a list" where
  "gueue_items g = map (\<lambda>j. the (gueue_slot g j)) [0..<g_count g]"

lemma length_gueue_items [simp]: "length (gueue_items g) = g_count g"
  by (simp add: gueue_items_def)

lemma nth_gueue_items: "j < g_count g \<Longrightarrow> gueue_items g ! j = the (gueue_slot g j)"
  by (simp add: gueue_items_def)

lemma gueue_items_eqI:
  assumes "length xs = g_count g" "\<And>j. j < g_count g \<Longrightarrow> gueue_slot g j = Some (xs ! j)"
  shows "gueue_items g = xs"
  using assms by (intro nth_equalityI) (simp_all add: nth_gueue_items)

lemma gueue_slot_item:
  "gueue_inv g \<Longrightarrow> j < g_count g \<Longrightarrow> gueue_slot g j = Some (gueue_items g ! j)"
  by (auto simp: gueue_inv_def nth_gueue_items)

lemma gueue_slot_empty:
  "gueue_inv g \<Longrightarrow> g_count g \<le> j \<Longrightarrow> j < g_size g \<Longrightarrow> gueue_slot g j = None"
  by (auto simp: gueue_inv_def)

text \<open>How an operation that rearranges slots is verified: it suffices to give the slots of
  the result in terms of the stored list.\<close>

lemma gueue_refineI:
  assumes "length (g_queue g) = g_size g" "g_count g = length xs" "length xs \<le> g_size g"
    "if g_size g = 0 then g_head g = 0 else g_head g < g_size g"
    "\<And>j. j < g_size g \<Longrightarrow> gueue_slot g j = (if j < length xs then Some (xs ! j) else None)"
  shows "gueue_inv g \<and> gueue_items g = xs"
  using assms by (auto simp: gueue_inv_def intro!: gueue_items_eqI)

lemma nth_grow_slots:
  assumes "length q = sz" "h < sz \<or> h = 0" "k \<le> sz"
  shows "grow_slots q sz h ! k =
    (if h = 0 then (q @ [None]) ! k
     else if k = sz then q ! 0
     else if k = h - 1 then None
     else if k < h - 1 then q ! Suc k
     else q ! k)"
  using assms by (auto simp: grow_slots_def Let_def nth_memmove nth_list_update nth_append)

lemma length_grow_slots [simp]:
  "length q = sz \<Longrightarrow> h < sz \<or> h = 0 \<Longrightarrow> length (grow_slots q sz h) = Suc sz"
  by (auto simp: grow_slots_def Let_def)

lemma create_gueue_refines:
  assumes "create_precedence_gueue_katcl ok r p = Some g"
  shows "gueue_inv g \<and> gueue_items g = []"
  using assms by (auto simp: create_precedence_gueue_katcl_def gueue_inv_def gueue_items_def split: if_splits)

lemma add_tail_room:
  assumes inv: "gueue_inv g" and room: "g_count g < g_size g"
  shows "\<exists>g'. add_tail_gueue_katcl ok g (Some x) = Inr (0, g') \<and>
    gueue_inv g' \<and> gueue_items g' = gueue_items g @ [x]"
proof -
  let ?idx = "(g_head g + g_count g) mod g_size g"
  let ?g = "g\<lparr>g_queue := (g_queue g)[?idx := Some x], g_count := g_count g + 1\<rparr>"
  have h: "g_head g < g_size g" "length (g_queue g) = g_size g"
    using inv room by (auto simp: gueue_inv_def split: if_splits)
  have "gueue_slot ?g j = (if j = g_count g then Some x else gueue_slot g j)" if "j < g_size g" for j
    using that h room wrap_inj [of "g_head g" "g_size g" j "g_count g"]
    by (auto simp: gueue_slot_def nth_list_update)
  then have "gueue_inv ?g \<and> gueue_items ?g = gueue_items g @ [x]"
    using h room
    by (intro gueue_refineI)
      (auto simp: nth_append gueue_slot_item [OF inv] gueue_slot_empty [OF inv])
  then show ?thesis using room by (auto simp: add_tail_gueue_katcl_def Let_def)
qed

lemma add_tail_full:
  assumes inv: "gueue_inv g" and full: "g_count g = g_size g"
  shows "\<exists>g'. add_tail_gueue_katcl True g (Some x) = Inr (0, g') \<and>
    gueue_inv g' \<and> gueue_items g' = gueue_items g @ [x]"
proof -
  let ?q = "grow_slots (g_queue g) (g_size g) (g_head g)"
  let ?idx = "(g_head g + g_count g) mod (g_size g + 1)"
  let ?g = "g\<lparr>g_size := g_size g + 1, g_queue := ?q[?idx := Some x], g_count := g_count g + 1\<rparr>"
  have h: "g_head g < g_size g \<or> g_head g = 0" "length (g_queue g) = g_size g"
    using inv by (auto simp: gueue_inv_def split: if_splits)
  have idx: "?idx = (if g_head g = 0 then g_size g else g_head g - 1)"
    using h full by (auto simp: wrap_mod)
  have old: "gueue_slot ?g j = gueue_slot g j" if j: "j < g_size g" for j
  proof -
    have hs: "g_head g < g_size g" using h j by auto
    let ?k = "(g_head g + j) mod (g_size g + 1)"
    have k: "?k = (if g_head g + j < g_size g + 1 then g_head g + j else g_head g + j - (g_size g + 1))"
      using hs j by (intro wrap_mod) auto
    have m: "(g_head g + j) mod g_size g =
        (if g_head g + j < g_size g then g_head g + j else g_head g + j - g_size g)"
      using hs j by (rule wrap_mod)
    have "?k \<noteq> ?idx" using k idx hs j by auto
    then have "gueue_slot ?g j = ?q ! ?k" by (simp add: gueue_slot_def)
    also have "\<dots> = g_queue g ! ((g_head g + j) mod g_size g)"
      using k m hs j h by (subst nth_grow_slots) (auto simp: nth_append Suc_diff_Suc)
    finally show ?thesis by (simp add: gueue_slot_def)
  qed
  have new: "gueue_slot ?g (g_size g) = Some x"
    using h full by (simp add: gueue_slot_def)
  have "gueue_inv ?g \<and> gueue_items ?g = gueue_items g @ [x]"
    using h full old new
    by (intro gueue_refineI)
      (auto simp: nth_append less_Suc_eq gueue_slot_item [OF inv])
  then show ?thesis using full by (auto simp: add_tail_gueue_katcl_def Let_def)
qed

text \<open>Removal at a position: the three layouts (at the head, between the head and the end of
  the array, wrapped around before the head).\<close>

definition drop_nth :: "nat \<Rightarrow> 'a list \<Rightarrow> 'a list" where
  "drop_nth p xs = take p xs @ drop (Suc p) xs"

lemma length_drop_nth [simp]: "p < length xs \<Longrightarrow> length (drop_nth p xs) = length xs - 1"
  by (simp add: drop_nth_def)

lemma nth_drop_nth:
  "p < length xs \<Longrightarrow> j < length xs - 1 \<Longrightarrow> drop_nth p xs ! j = (if j < p then xs ! j else xs ! Suc j)"
  by (auto simp: drop_nth_def nth_append min_def)

lemma gueue_raw_slot:
  assumes "gueue_inv g" "j < g_size g"
  shows "g_queue g ! (if g_head g + j < g_size g then g_head g + j else g_head g + j - g_size g) =
    (if j < g_count g then Some (gueue_items g ! j) else None)"
proof -
  have "g_head g < g_size g" using assms by (auto simp: gueue_inv_def split: if_splits)
  then show ?thesis
    using assms gueue_slot_item [OF assms(1), of j] gueue_slot_empty [OF assms(1), of j]
    by (auto simp: gueue_slot_def wrap_mod)
qed

lemma gueue_dropI:
  assumes "p < g_count g" "length (g_queue g') = g_size g'" "g_count g' = g_count g - 1"
    "g_count g \<le> g_size g'" "g_head g' < g_size g'"
    "\<And>j. j < g_size g' \<Longrightarrow> gueue_slot g' j =
       (if j < g_count g - 1
        then Some (if j < p then gueue_items g ! j else gueue_items g ! Suc j) else None)"
  shows "gueue_inv g' \<and> gueue_items g' = drop_nth p (gueue_items g)"
  using assms by (intro gueue_refineI) (auto simp: nth_drop_nth)

lemma gueue_used_slot:
  assumes "gueue_inv g" "p < g_count g"
  shows "g_head g < g_size g" "length (g_queue g) = g_size g" "g_count g \<le> g_size g" "p < g_size g"
    "(g_head g + p) mod g_size g < g_size g"
    "g_queue g ! ((g_head g + p) mod g_size g) = Some (gueue_items g ! p)"
  using assms gueue_slot_item [OF assms] by (auto simp: gueue_inv_def gueue_slot_def split: if_splits)

lemma remove_index_at_head:
  assumes inv: "gueue_inv g" and p: "p < g_count g"
    and i: "i = (g_head g + p) mod g_size g" and c: "i = g_head g"
  shows "\<exists>g'. remove_index_gueue_katcl g i = Inr (Some (gueue_items g ! p), g') \<and>
    gueue_inv g' \<and> gueue_items g' = drop_nth p (gueue_items g)"
proof -
  let ?h = "g_head g" and ?s = "g_size g" and ?q = "g_queue g" and ?n = "g_count g"
  let ?q1 = "?q[i := None]"
  note h = gueue_used_slot(1-4) [OF inv p] gueue_used_slot(5) [OF inv p, folded i]
  note datum = gueue_used_slot(6) [OF inv p, folded i]
  note slot = gueue_raw_slot [OF inv] and refI = gueue_dropI [OF p]
  have i': "i = (if ?h + p < ?s then ?h + p else ?h + p - ?s)"
    using h i by (simp add: wrap_mod)
  from c have p0: "p = 0" using i' h by (auto split: if_splits)
  let ?g = "g\<lparr>g_queue := ?q1, g_head := (?h + 1) mod ?s, g_count := ?n - 1\<rparr>"
  have "gueue_slot ?g j = (if j < ?n - 1 then Some (gueue_items g ! Suc j) else None)"
    if j: "j < ?s" for j
  proof (cases "Suc j < ?s")
    case True
    have "((?h + 1) mod ?s + j) mod ?s = (?h + Suc j) mod ?s" by (simp add: mod_simps)
    also have "\<dots> = (if ?h + Suc j < ?s then ?h + Suc j else ?h + Suc j - ?s)"
      using True h by (intro wrap_mod) auto
    finally show ?thesis
      using slot [of "Suc j"] True c h by (auto simp: gueue_slot_def nth_list_update)
  next
    case False
    then have "j = ?s - 1" using j by simp
    then have "((?h + 1) mod ?s + j) mod ?s = ?h"
      using wrap_back [OF h(1)] by simp
    then show ?thesis using False h p c by (auto simp: gueue_slot_def)
  qed
  then have "gueue_inv ?g \<and> gueue_items ?g = drop_nth p (gueue_items g)"
    using h p0 by (intro refI) auto
  with c h p datum show ?thesis by (auto simp: remove_index_gueue_katcl_def Let_def)
qed

lemma remove_index_after_head:
  assumes inv: "gueue_inv g" and p: "p < g_count g"
    and i: "i = (g_head g + p) mod g_size g" and c: "g_head g < i"
  shows "\<exists>g'. remove_index_gueue_katcl g i = Inr (Some (gueue_items g ! p), g') \<and>
    gueue_inv g' \<and> gueue_items g' = drop_nth p (gueue_items g)"
proof -
  let ?h = "g_head g" and ?s = "g_size g" and ?q = "g_queue g" and ?n = "g_count g"
  let ?q1 = "?q[i := None]"
  note h = gueue_used_slot(1-4) [OF inv p] gueue_used_slot(5) [OF inv p, folded i]
  note datum = gueue_used_slot(6) [OF inv p, folded i]
  note slot = gueue_raw_slot [OF inv] and refI = gueue_dropI [OF p]
  have i': "i = (if ?h + p < ?s then ?h + p else ?h + p - ?s)"
    using h i by (simp add: wrap_mod)
  from c have ip: "i = ?h + p" "?h + p < ?s" "0 < p" using i' h by (auto split: if_splits)
  define Q where "Q = (memmove (?h + 1) ?h (i - ?h) ?q1)[?h := None]"
  let ?g = "g\<lparr>g_queue := Q, g_head := (?h + 1) mod ?s, g_count := ?n - 1\<rparr>"
  have lenQ: "length Q = ?s" using h ip by (simp add: Q_def)
  have Q: "Q ! k = (if k = ?h then None else if ?h < k \<and> k \<le> i then ?q ! (k - 1) else ?q ! k)"
    if "k < ?s" for k
    using that h ip by (auto simp: Q_def nth_list_update nth_memmove)
  have "gueue_slot ?g j =
      (if j < ?n - 1 then Some (if j < p then gueue_items g ! j else gueue_items g ! Suc j) else None)"
    if j: "j < ?s" for j
  proof (cases "Suc j < ?s")
    case True
    let ?k = "if ?h + Suc j < ?s then ?h + Suc j else ?h + Suc j - ?s"
    have "((?h + 1) mod ?s + j) mod ?s = (?h + Suc j) mod ?s" by (simp add: mod_simps)
    also have "\<dots> = ?k" using True h by (intro wrap_mod) auto
    finally have k: "((?h + 1) mod ?s + j) mod ?s = ?k" .
    have "gueue_slot ?g j = Q ! (((?h + 1) mod ?s + j) mod ?s)" by (simp add: gueue_slot_def)
    also have "\<dots> = Q ! ?k" by (simp only: k)
    also have "\<dots> = (if ?k = ?h then None else if ?h < ?k \<and> ?k \<le> i then ?q ! (?k - 1) else ?q ! ?k)"
      using True h by (intro Q) auto
    finally show ?thesis
      using slot [OF True] slot [OF j] True ip h p by auto
  next
    case False
    then have "j = ?s - 1" using j by simp
    then have "((?h + 1) mod ?s + j) mod ?s = ?h"
      using wrap_back [OF h(1)] by simp
    then show ?thesis using False h p by (auto simp: gueue_slot_def Q)
  qed
  then have "gueue_inv ?g \<and> gueue_items ?g = drop_nth p (gueue_items g)"
    using h ip lenQ by (intro refI) auto
  moreover have "remove_index_gueue_katcl g i = Inr (Some (gueue_items g ! p), ?g)"
    using c h p datum by (simp add: remove_index_gueue_katcl_def Let_def Q_def)
  ultimately show ?thesis by blast
qed

lemma remove_index_wrapped:
  assumes inv: "gueue_inv g" and p: "p < g_count g"
    and i: "i = (g_head g + p) mod g_size g" and c: "i < g_head g"
  shows "\<exists>g'. remove_index_gueue_katcl g i = Inr (Some (gueue_items g ! p), g') \<and>
    gueue_inv g' \<and> gueue_items g' = drop_nth p (gueue_items g)"
proof -
  let ?h = "g_head g" and ?s = "g_size g" and ?q = "g_queue g" and ?n = "g_count g"
  let ?q1 = "?q[i := None]"
  note h = gueue_used_slot(1-4) [OF inv p] gueue_used_slot(5) [OF inv p, folded i]
  note datum = gueue_used_slot(6) [OF inv p, folded i]
  note slot = gueue_raw_slot [OF inv] and refI = gueue_dropI [OF p]
  have i': "i = (if ?h + p < ?s then ?h + p else ?h + p - ?s)"
    using h i by (simp add: wrap_mod)
  from c have ip: "i = ?h + p - ?s" "?s \<le> ?h + p" using i' h by (auto split: if_splits)
  define E where "E = ?h + ?n - 1 - ?s"
  have e: "(?h + ?n - 1) mod ?s = E" "i \<le> E" "E < ?h"
    using ip p h wrap_mod [of ?h ?s "?n - 1"] by (auto simp: E_def)
  define Q where "Q = (if i < E then memmove i (i + 1) (E - i) ?q1 else ?q1)[E := None]"
  let ?g = "g\<lparr>g_queue := Q, g_count := ?n - 1\<rparr>"
  have lenQ: "length Q = ?s" using h e by (simp add: Q_def)
  have Q: "Q ! k = (if k = E then None else if i \<le> k \<and> k < E then ?q ! (k + 1) else ?q ! k)"
    if "k < ?s" for k
    using that h(2,5) e(2,3) h(1) by (auto simp: Q_def nth_list_update nth_memmove)
  have "gueue_slot ?g j =
      (if j < ?n - 1 then Some (if j < p then gueue_items g ! j else gueue_items g ! Suc j) else None)"
    if j: "j < ?s" for j
  proof -
    let ?k = "if ?h + j < ?s then ?h + j else ?h + j - ?s"
    have "gueue_slot ?g j = Q ! ?k" using j h by (simp add: gueue_slot_def wrap_mod)
    also have "\<dots> = (if ?k = E then None else if i \<le> ?k \<and> ?k < E then ?q ! (?k + 1) else ?q ! ?k)"
      using j h by (intro Q) auto
    finally have eq: "gueue_slot ?g j = \<dots>" .
    show ?thesis
    proof (cases "?h + j < ?s")
      case True
      then have "j < p" "\<not> ?h + j < E" "?h + j \<noteq> E" using ip e by auto
      with eq slot [OF j] True p show ?thesis by auto
    next
      case False
      have E': "E + ?s + 1 = ?h + ?n" "i + ?s = ?h + p" using ip p E_def by linarith+
      have k: "(?h + j - ?s = E) = (j = ?n - 1)" "(?h + j - ?s < E) = (j < ?n - 1)"
        "(i \<le> ?h + j - ?s) = (p \<le> j)" using False E' p by linarith+
      have "?h + j - ?s + 1 = ?h + Suc j - ?s" using False by simp
      with eq slot [OF j] slot [of "Suc j"] False k j h p show ?thesis by auto
    qed
  qed
  then have "gueue_inv ?g \<and> gueue_items ?g = drop_nth p (gueue_items g)"
    using h lenQ by (intro refI) auto
  moreover have "remove_index_gueue_katcl g i = Inr (Some (gueue_items g ! p), ?g)"
    using c h p datum e by (simp add: remove_index_gueue_katcl_def Let_def Q_def)
  ultimately show ?thesis by blast
qed

lemma remove_index_refines:
  assumes "gueue_inv g" "p < g_count g" "i = (g_head g + p) mod g_size g"
  shows "\<exists>g'. remove_index_gueue_katcl g i = Inr (Some (gueue_items g ! p), g') \<and>
    gueue_inv g' \<and> gueue_items g' = drop_nth p (gueue_items g)"
  using remove_index_at_head [OF assms] remove_index_after_head [OF assms] remove_index_wrapped [OF assms]
  by (cases rule: linorder_cases [of i "g_head g"]) simp_all

lemma remove_from_head_refines:
  assumes "gueue_inv g"
  shows "\<exists>g'. remove_from_head_gueue_katcl g p =
      Inr (if p < g_count g then Some (gueue_items g ! p) else None, g') \<and>
    gueue_inv g' \<and>
    gueue_items g' = (if p < g_count g then drop_nth p (gueue_items g) else gueue_items g)"
proof (cases "p < g_count g")
  case True
  with gueue_used_slot [OF assms True] remove_index_refines [OF assms True refl] show ?thesis
    by (simp add: remove_from_head_gueue_katcl_def)
next
  case False
  with assms show ?thesis by (auto simp: remove_from_head_gueue_katcl_def)
qed

lemma remove_head_refines:
  assumes "gueue_inv g"
  shows "\<exists>g'. remove_head_gueue_katcl g = Inr (fst (list_deq (gueue_items g)), g') \<and>
    gueue_inv g' \<and> gueue_items g' = snd (list_deq (gueue_items g))"
proof (cases "g_count g")
  case 0
  then show ?thesis using assms
    by (auto simp: remove_head_gueue_katcl_def remove_index_gueue_katcl_def list_deq_def gueue_items_def)
next
  case (Suc n)
  then obtain x xs where xs: "gueue_items g = x # xs"
    by (cases "gueue_items g") (auto dest: arg_cong [where f = length])
  have "0 < g_count g" using Suc by simp
  from remove_index_refines [OF assms this, of "g_head g"] gueue_used_slot [OF assms this] xs
  show ?thesis by (auto simp: remove_head_gueue_katcl_def list_deq_def drop_nth_def)
qed

lemma find_datum_spec:
  assumes "gueue_inv g" "j + n \<le> g_count g"
  shows "case find_datum g x j n of
      None \<Rightarrow> \<forall>p. j \<le> p \<and> p < j + n \<longrightarrow> gueue_items g ! p \<noteq> x
    | Some i \<Rightarrow> \<exists>p. j \<le> p \<and> p < j + n \<and> i = (g_head g + p) mod g_size g \<and> gueue_items g ! p = x \<and>
        (\<forall>q. j \<le> q \<and> q < p \<longrightarrow> gueue_items g ! q \<noteq> x)"
  using assms
proof (induction n arbitrary: j)
  case 0
  then show ?case by auto
next
  case (Suc n)
  have q: "g_queue g ! ((g_head g + j) mod g_size g) = Some (gueue_items g ! j)"
    using Suc.prems by (intro gueue_used_slot) auto
  show ?case
  proof (cases "gueue_items g ! j = x")
    case True
    with q show ?thesis by (auto simp: Let_def intro!: exI [of _ j])
  next
    case False
    then have skip: "j \<le> p \<Longrightarrow> gueue_items g ! p = x \<Longrightarrow> Suc j \<le> p" for p
      by (cases "p = j") auto
    have IH: "case find_datum g x (Suc j) n of
      None \<Rightarrow> \<forall>p. Suc j \<le> p \<and> p < Suc j + n \<longrightarrow> gueue_items g ! p \<noteq> x
    | Some i \<Rightarrow> \<exists>p. Suc j \<le> p \<and> p < Suc j + n \<and> i = (g_head g + p) mod g_size g \<and>
        gueue_items g ! p = x \<and> (\<forall>q. Suc j \<le> q \<and> q < p \<longrightarrow> gueue_items g ! q \<noteq> x)"
      using Suc.prems by (intro Suc.IH) auto
    then show ?thesis
    proof (cases "find_datum g x (Suc j) n")
      case None
      with IH False q skip show ?thesis by (auto simp: Let_def)
    next
      case (Some i)
      with IH obtain p where "Suc j \<le> p" "p < Suc j + n" "i = (g_head g + p) mod g_size g"
        "gueue_items g ! p = x" "\<forall>q. Suc j \<le> q \<and> q < p \<longrightarrow> gueue_items g ! q \<noteq> x" by auto
      with Some False q skip show ?thesis
        by (auto simp: Let_def intro!: exI [of _ p])
    qed
  qed
qed

lemma drop_nth_remove1:
  "p < length xs \<Longrightarrow> xs ! p = x \<Longrightarrow> (\<forall>q < p. xs ! q \<noteq> x) \<Longrightarrow> drop_nth p xs = remove1 x xs"
proof (induction xs arbitrary: p)
  case (Cons y ys)
  show ?case
  proof (cases p)
    case 0
    with Cons show ?thesis by (simp add: drop_nth_def)
  next
    case (Suc p')
    with Cons.prems have "y \<noteq> x" "p' < length ys" "ys ! p' = x" "\<forall>q < p'. ys ! q \<noteq> x"
      by (force, auto)
    with Suc Cons.IH [of p'] show ?thesis by (simp add: drop_nth_def)
  qed
qed simp

lemma remove_datum_refines:
  assumes inv: "gueue_inv g"
  shows "\<exists>g'. remove_datum_gueue_katcl g x =
      Inr (if x \<in> set (gueue_items g) then Some x else None, g') \<and>
    gueue_inv g' \<and> gueue_items g' = remove1 x (gueue_items g)"
proof (cases "g_count g = 0")
  case True
  then show ?thesis using inv by (auto simp: remove_datum_gueue_katcl_def gueue_items_def)
next
  case False
  then have z: "g_size g \<noteq> 0" "\<not> g_count g > g_size g" using inv by (auto simp: gueue_inv_def)
  from find_datum_spec [OF inv, of 0 "g_count g" x] show ?thesis
  proof (cases "find_datum g x 0 (g_count g)")
    case None
    with find_datum_spec [OF inv, of 0 "g_count g" x] have "x \<notin> set (gueue_items g)"
      by (auto simp: in_set_conv_nth)
    with None False z inv show ?thesis by (auto simp: remove_datum_gueue_katcl_def remove1_idem)
  next
    case (Some i)
    with find_datum_spec [OF inv, of 0 "g_count g" x] obtain p where
      p: "p < g_count g" "i = (g_head g + p) mod g_size g" "gueue_items g ! p = x"
        "\<forall>q < p. gueue_items g ! q \<noteq> x"
      by auto
    from p have "x \<in> set (gueue_items g)" by (auto simp: in_set_conv_nth)
    with Some False z p remove_index_refines [OF inv p(1,2)] drop_nth_remove1 [of p "gueue_items g" x]
    show ?thesis by (auto simp: remove_datum_gueue_katcl_def)
  qed
qed

lemma scan_precedence_spec:
  assumes "gueue_inv g" "j + n \<le> g_count g"
  shows "scan_precedence g m v j n = Inr (List.find (\<lambda>x. v \<le> m x) (take n (drop j (gueue_items g))))"
  using assms
proof (induction n arbitrary: j)
  case 0
  then show ?case by simp
next
  case (Suc n)
  have q: "g_queue g ! ((g_head g + j) mod g_size g) = Some (gueue_items g ! j)"
    using Suc.prems by (intro gueue_used_slot) auto
  have "drop j (gueue_items g) = gueue_items g ! j # drop (Suc j) (gueue_items g)"
    using Suc.prems by (intro Cons_nth_drop_Suc [symmetric]) simp
  with q Suc show ?case by simp
qed

lemma get_precedence_head_spec:
  assumes "gueue_inv g"
  shows "get_precedence_head_gueue_katcl g v =
    Inr (case g_precedence g of
           None \<Rightarrow> fst (list_deq (gueue_items g))
         | Some m \<Rightarrow> List.find (\<lambda>x. v \<le> m x) (gueue_items g))"
proof -
  have h: "get_head_gueue_katcl g = fst (list_deq (gueue_items g))"
  proof (cases "g_count g")
    case 0
    then show ?thesis by (simp add: get_head_gueue_katcl_def gueue_items_def list_deq_def)
  next
    case (Suc n)
    then have "0 < g_count g" by simp
    moreover from this obtain x xs where "gueue_items g = x # xs"
      by (cases "gueue_items g") (auto dest: arg_cong [where f = length])
    ultimately show ?thesis using gueue_used_slot [OF assms, of 0]
      by (simp add: get_head_gueue_katcl_def list_deq_def)
  qed
  have "g_size g \<noteq> 0" if "g_count g \<noteq> 0" using assms that by (auto simp: gueue_inv_def)
  with h scan_precedence_spec [OF assms, of 0 "g_count g"] assms show ?thesis
    by (auto simp: get_precedence_head_gueue_katcl_def gueue_inv_def gueue_items_def split: option.splits)
qed

lemma release_slots_spec:
  assumes "release_slots g j n = (rs, g')" "j + n \<le> g_size g" "g_head g < g_size g"
    "length (g_queue g) = g_size g"
  shows "rs = (if g_release g then map (gueue_slot g) [j..<j + n] else []) \<and>
    g' = g\<lparr>g_queue := g_queue g'\<rparr> \<and> length (g_queue g') = g_size g \<and>
    (\<forall>k < g_size g. gueue_slot g' k = (if j \<le> k \<and> k < j + n then None else gueue_slot g k))"
  using assms
proof (induction n arbitrary: g j rs g')
  case 0
  then show ?case by auto
next
  case (Suc n)
  let ?i = "(g_head g + j) mod g_size g"
  let ?g = "g\<lparr>g_queue := (g_queue g)[?i := None]\<rparr>"
  obtain rs1 where r: "release_slots ?g (Suc j) n = (rs1, g')"
    "rs = (if g_release g then [g_queue g ! ?i] else []) @ rs1"
    using Suc.prems(1) by (auto simp: Let_def split: prod.splits)
  have slot: "gueue_slot ?g k = (if k = j then None else gueue_slot g k)" if "k < g_size g" for k
    using that Suc.prems wrap_inj [of "g_head g" "g_size g" k j]
    by (auto simp: gueue_slot_def nth_list_update)
  have IH: "rs1 = (if g_release g then map (gueue_slot ?g) [Suc j..<Suc j + n] else []) \<and>
    g' = ?g\<lparr>g_queue := g_queue g'\<rparr> \<and> length (g_queue g') = g_size g \<and>
    (\<forall>k < g_size g. gueue_slot g' k = (if Suc j \<le> k \<and> k < Suc j + n then None else gueue_slot ?g k))"
    using Suc.IH [OF r(1)] Suc.prems by simp
  have "map (gueue_slot ?g) [Suc j..<Suc j + n] = map (gueue_slot g) [Suc j..<Suc j + n]"
    using slot Suc.prems by (intro map_cong) auto
  moreover have "[j..<j + Suc n] = j # [Suc j..<Suc j + n]" by (simp add: upt_rec)
  ultimately show ?case using IH r slot Suc.prems
    by (auto simp: gueue_slot_def [of g j])
qed

lemma clear_gueue_spec:
  assumes "gueue_inv g" "clear_gueue_katcl g = (rs, g')"
  shows "rs = (if g_release g then map Some (gueue_items g) else []) \<and>
    gueue_inv g' \<and> gueue_items g' = []"
proof (cases "g_count g = 0")
  case True
  with assms show ?thesis
    by (auto simp: clear_gueue_katcl_def gueue_items_def gueue_inv_def gueue_slot_def)
next
  case False
  then have h: "g_head g < g_size g" "length (g_queue g) = g_size g" "g_count g \<le> g_size g"
    using gueue_used_slot [OF assms(1), of 0] by auto
  obtain g1 where r: "release_slots g 0 (g_count g) = (rs, g1)" "g' = g1\<lparr>g_count := 0\<rparr>"
    using assms(2) by (auto simp: clear_gueue_katcl_def split: prod.splits)
  from release_slots_spec [OF r(1)] h have s:
    "rs = (if g_release g then map (gueue_slot g) [0..<g_count g] else [])"
    "g_size g1 = g_size g" "g_head g1 = g_head g" "length (g_queue g1) = g_size g"
    "\<forall>k < g_size g. gueue_slot g1 k = (if k < g_count g then None else gueue_slot g k)"
    by (simp_all add: gueue.equality) (metis gueue.ext_inject gueue.surjective gueue.update_convs(1))+
  have "map (gueue_slot g) [0..<g_count g] = map Some (gueue_items g)"
    using gueue_slot_item [OF assms(1)] by (auto simp: gueue_items_def)
  moreover have "gueue_slot g' k = None" if "k < g_size g" for k
    using s(5) that gueue_slot_empty [OF assms(1), of k] r(2) by (auto simp: gueue_slot_def)
  ultimately show ?thesis using s r h by (auto simp: gueue_inv_def gueue_items_def)
qed

section \<open>The queue contract\<close>

text \<open>The generic queue as a first-in first-out queue, the allocator granting the growth.\<close>

definition gueue_push :: "'a \<Rightarrow> 'a gueue \<Rightarrow> 'a gueue" where
  "gueue_push x g = (case add_tail_gueue_katcl True g (Some x) of Inl _ \<Rightarrow> g | Inr (_, g') \<Rightarrow> g')"

definition gueue_pop :: "'a gueue \<Rightarrow> 'a option \<times> 'a gueue" where
  "gueue_pop g = (case remove_head_gueue_katcl g of Inl _ \<Rightarrow> (None, g) | Inr r \<Rightarrow> r)"

definition gueue_empty :: "'a gueue" where
  "gueue_empty = the (create_gueue_katcl True True)"

lemma add_tail_refines:
  assumes "gueue_inv g"
  shows "\<exists>g'. add_tail_gueue_katcl ok g (Some x) =
      Inr (if ok \<or> g_count g < g_size g then (0, g') else (-1, g)) \<and>
    gueue_inv g' \<and> gueue_items g' = gueue_items g @ [x]"
proof (cases "g_count g < g_size g")
  case True
  from add_tail_room [OF assms True, of ok x] True show ?thesis by auto
next
  case False
  then have "g_count g = g_size g" using assms by (auto simp: gueue_inv_def)
  with add_tail_full [OF assms this, of x] show ?thesis
    by (cases ok) (auto simp: add_tail_gueue_katcl_def)
qed

interpretation gq: fifo gueue_empty gueue_push gueue_pop gueue_items gueue_inv
proof unfold_locales
  show "gueue_inv gueue_empty" "gueue_items gueue_empty = []"
    by (simp_all add: gueue_empty_def create_gueue_katcl_def create_precedence_gueue_katcl_def
        gueue_inv_def gueue_items_def)
  fix g :: "'a gueue" and x
  assume g: "gueue_inv g"
  from add_tail_refines [OF g, of True x]
  show "gueue_inv (gueue_push x g)" "gueue_items (gueue_push x g) = list_enq x (gueue_items g)"
    by (auto simp: gueue_push_def list_enq_def)
  from remove_head_refines [OF g]
  show "gueue_inv (snd (gueue_pop g))"
    "(fst (gueue_pop g), gueue_items (snd (gueue_pop g))) = list_deq (gueue_items g)"
    by (auto simp: gueue_pop_def)
qed

section \<open>Properties\<close>

definition gueue_sample :: "nat gueue" where
  "gueue_sample = \<lparr>g_queue = [Some 30, Some 40, Some 10, Some 20], g_size = 4, g_head = 2,
     g_count = 4, g_release = True, g_precedence = Some (\<lambda>x. x)\<rparr>"

lemma gueue_sample_inv: "gueue_inv gueue_sample"
proof -
  have "j = 0 \<or> j = 1 \<or> j = 2 \<or> j = 3" if "j < 4" for j :: nat using that by linarith
  then have "(gueue_slot gueue_sample j \<noteq> None) = (j < 4)" if "j < 4" for j
    using that by (fastforce simp: gueue_sample_def gueue_slot_def)
  then show ?thesis by (simp add: gueue_inv_def) (simp add: gueue_sample_def)
qed

text \<open>Removing from any position of the generic queue, in each of the circular layouts,
  returns the datum stored at that position counted from the head (nothing beyond the end),
  keeps the order of all others, and never reaches one of the code's consistency aborts.\<close>

theorem gueue_remove_position:
  assumes "gueue_inv g"
  shows "case remove_from_head_gueue_katcl g p of
      Inl _ \<Rightarrow> False
    | Inr (d, g') \<Rightarrow> gueue_inv g' \<and>
        (if p < length (gueue_items g)
         then d = Some (gueue_items g ! p) \<and>
              gueue_items g' = take p (gueue_items g) @ drop (Suc p) (gueue_items g)
         else d = None \<and> gueue_items g' = gueue_items g)"
  using remove_from_head_refines [OF assms, of p] by (auto simp: drop_nth_def)

theorem gueue_remove_position_witness:
  "gueue_inv gueue_sample \<and>
   (case remove_from_head_gueue_katcl gueue_sample 2 of Inl _ \<Rightarrow> False | Inr (d, g') \<Rightarrow> d = Some 30)"
  using gueue_remove_position [OF gueue_sample_inv, of 2] gueue_sample_inv
  by (auto simp: gueue_sample_def gueue_items_def gueue_slot_def split: sum.splits)

text \<open>C14. Any sequence of additions at the tail and removals from the head of a fresh generic
  queue returns what a plain list used as a queue returns, whatever growing and wrapping
  around of the array it causes.\<close>

theorem gueue_is_fifo:
  "fst (run_queue gueue_push gueue_pop gueue_empty ops) = fst (run_queue list_enq list_deq [] ops)"
  by (rule gq.run_from_empty)

text \<open>With a metric set, the precedence lookup returns the first datum from the head
  whose metric reaches the requested one, and removing that datum takes out its first
  occurrence; without a metric the lookup is the head.\<close>

theorem gueue_precedence_then_remove:
  assumes "gueue_inv g" "g_precedence g = Some m"
  shows "get_precedence_head_gueue_katcl g v = Inr (List.find (\<lambda>x. v \<le> m x) (gueue_items g)) \<and>
    (case List.find (\<lambda>x. v \<le> m x) (gueue_items g) of
       None \<Rightarrow> True
     | Some x \<Rightarrow> \<exists>g'. remove_datum_gueue_katcl g x = Inr (Some x, g') \<and>
         gueue_inv g' \<and> gueue_items g' = remove1 x (gueue_items g))"
proof -
  have "x \<in> set (gueue_items g)" if "List.find (\<lambda>x. v \<le> m x) (gueue_items g) = Some x" for x
    using that by (metis find_Some_iff nth_mem)
  with get_precedence_head_spec [OF assms(1), of v] remove_datum_refines [OF assms(1)] assms(2)
  show ?thesis by (cases "List.find (\<lambda>x. v \<le> m x) (gueue_items g)") (simp_all, metis)
qed

theorem gueue_precedence_then_remove_witness:
  "get_precedence_head_gueue_katcl gueue_sample 15 = Inr (Some 20)"
proof -
  have "g_precedence gueue_sample = Some (\<lambda>x. x)" by (simp add: gueue_sample_def)
  from gueue_precedence_then_remove [OF gueue_sample_inv this, of 15] show ?thesis
    by (simp add: gueue_sample_def gueue_items_def gueue_slot_def upt_rec)
qed

text \<open>Clearing hands every stored datum to the cleanup function exactly once, in order,
  and leaves an empty queue that satisfies the invariant.\<close>

theorem gueue_clear_releases_all:
  assumes "gueue_inv g" "g_release g"
  shows "case clear_gueue_katcl g of (rs, g') \<Rightarrow>
    rs = map Some (gueue_items g) \<and> gueue_inv g' \<and> gueue_items g' = []"
  using clear_gueue_spec [OF assms(1)] assms(2) by (auto split: prod.splits)

theorem gueue_clear_releases_all_witness:
  "fst (clear_gueue_katcl gueue_sample) = [Some 10, Some 20, Some 30, Some 40]"
proof -
  have "g_release gueue_sample" by (simp add: gueue_sample_def)
  from gueue_clear_releases_all [OF gueue_sample_inv this] show ?thesis
    by (auto simp: gueue_sample_def gueue_items_def gueue_slot_def upt_rec split: prod.splits)
qed

end
