(* ===== verification/Parse.thy ===== *)
theory Parse
  imports Byte_Bit Time_Value
begin

text \<open>
  The message parser (\<open>katcp/parse.c\<close>): \<open>struct katcl_parse\<close> holds the bytes of one
  message and the offsets of its arguments in them. The reading half is the state machine of
  \<open>parse_katcl\<close>, which works in place: it unescapes each argument to the position
  \<open>p_kept\<close> while it consumes bytes at \<open>p_used\<close>. This theory models the structure and
  the state machine, gives the tokenizer it is meant to be (a machine over the list of bytes,
  with no buffer at all) and proves that the one simulates the other.
\<close>

section \<open>Data\<close>

datatype pstate =
    PARSE_FRESH | PARSE_COMMAND | PARSE_WHITESPACE | PARSE_ARG | PARSE_TAG | PARSE_ESCAPE
  | PARSE_FAKE | PARSE_DONE

record larg =
  a_begin :: nat
  a_end :: nat
  a_escape :: nat

text \<open>\<open>p_current\<close> points into \<open>p_args\<close>: it is an index or null. \<open>p_magic\<close> guards against
  the use of freed memory, which the store of parses (theory \<open>Parse_Store\<close>) decides.\<close>

record parse =
  p_state :: pstate
  p_buffer :: "char list"
  p_size :: nat
  p_have :: nat
  p_used :: nat
  p_kept :: nat
  p_args :: "larg list"
  p_current :: "nat option"
  p_count :: nat
  p_got :: nat
  p_refs :: int
  p_tag :: int

definition KATCL_ARGS_INC :: nat where "KATCL_ARGS_INC = 8"
definition ENOMEM :: int where "ENOMEM = 12"
definition EINVAL :: int where "EINVAL = 22"

text \<open>The fields that \<open>create_parse_katcl\<close> sets.\<close>

definition fresh_parse :: parse where
  "fresh_parse = \<lparr>p_state = PARSE_FRESH, p_buffer = [], p_size = 0, p_have = 0, p_used = 0,
     p_kept = 0, p_args = [], p_current = None, p_count = 0, p_got = 0, p_refs = 0, p_tag = -1\<rparr>"

text \<open>Memory that \<open>realloc\<close> adds is not initialised; the model fills it with zeroes and
  the invariants show that it is never read.\<close>

definition grow_buffer :: "nat \<Rightarrow> char list \<Rightarrow> char list" where
  "grow_buffer n b = b @ replicate (n - length b) nul"

definition junk_larg :: larg where
  "junk_larg = \<lparr>a_begin = 0, a_end = 0, a_escape = 0\<rparr>"

section \<open>The state machine of the reader\<close>

definition check_array_parse_katcl :: "bool \<Rightarrow> parse \<Rightarrow> int \<times> parse" where
  "check_array_parse_katcl ok p =
     (if p_got p < p_count p then (0, p\<lparr>p_current := Some (p_got p)\<rparr>)
      else if \<not> ok then (-1, p)
      else (0, p\<lparr>p_args := p_args p @ replicate KATCL_ARGS_INC junk_larg,
                 p_count := p_count p + KATCL_ARGS_INC,
                 p_current := Some (p_got p)\<rparr>))"

text \<open>One write to the buffer, and the three writes through \<open>p_current\<close>.\<close>

definition poke :: "nat \<Rightarrow> char \<Rightarrow> parse \<Rightarrow> parse res" where
  "poke i c p = (if i < length (p_buffer p) then Inr (p\<lparr>p_buffer := (p_buffer p)[i := c]\<rparr>)
                 else Inl OutOfBounds)"

definition on_current :: "(larg \<Rightarrow> larg) \<Rightarrow> parse \<Rightarrow> parse res" where
  "on_current f p =
     (case p_current p of
        None \<Rightarrow> Inl NullDeref
      | Some i \<Rightarrow> if i < length (p_args p)
                  then Inr (p\<lparr>p_args := (p_args p)[i := f (p_args p ! i)]\<rparr>)
                  else Inl OutOfBounds)"

definition start_token :: "parse \<Rightarrow> parse res" where
  "start_token p = on_current (\<lambda>la. la\<lparr>a_begin := p_kept p, a_escape := 0\<rparr>) p"

definition end_token :: "pstate \<Rightarrow> parse \<Rightarrow> parse res" where
  "end_token st p =
     bind_res (poke (p_kept p) nul p) (\<lambda>p1.
     bind_res (on_current (\<lambda>la. la\<lparr>a_end := p_kept p1\<rparr>) p1) (\<lambda>p2.
     Inr (p2\<lparr>p_got := p_got p2 + 1, p_state := st\<rparr>)))"

definition advance :: "nat \<Rightarrow> parse \<Rightarrow> parse" where
  "advance increment p = p\<lparr>p_used := p_used p + 1, p_kept := p_kept p + increment\<rparr>"

text \<open>\<open>p_tag\<close> is a C \<open>int\<close>; its overflow is left to the compiler by the standard and
  modelled as two's complement wrap-around.\<close>

definition wrap32 :: "int \<Rightarrow> int" where
  "wrap32 i = sint (of_int i :: 32 word)"

definition tag_digit :: "int \<Rightarrow> char \<Rightarrow> int" where
  "tag_digit tag c = wrap32 (tag * 10 + (of_char c - 48))"

definition is_ws :: "char \<Rightarrow> bool" where "is_ws c \<longleftrightarrow> c = CHR '' '' \<or> c = CHR 0x09"
definition is_eol :: "char \<Rightarrow> bool" where "is_eol c \<longleftrightarrow> c = CHR 0x0A \<or> c = CHR 0x0D"
definition is_type :: "char \<Rightarrow> bool" where
  "is_type c \<longleftrightarrow> c = CHR ''#'' \<or> c = CHR ''!'' \<or> c = CHR ''?''"
definition is_tag_digit :: "char \<Rightarrow> bool" where
  "is_tag_digit c \<longleftrightarrow> c \<in> set ''0123456789''"

definition backslash :: char where "backslash = CHR 0x5C"

definition unescape :: "char \<Rightarrow> char option" where
  \<comment> \<open>the byte that an escape stands for; \<open>None\<close> for the empty argument\<close>
  "unescape c =
     (if c = CHR ''e'' then Some (CHR 0x1B)
      else if c = CHR ''n'' then Some (CHR 0x0A)
      else if c = CHR ''r'' then Some (CHR 0x0D)
      else if c = CHR ''t'' then Some (CHR 0x09)
      else if c = CHR ''0'' then Some nul
      else if c = CHR ''_'' then Some (CHR '' '')
      else if c = CHR ''@'' then None
      else Some c)"

text \<open>One round of the loop of \<open>parse_katcl\<close>. The result code is 0 to go on or the value
  that \<open>l_error\<close> gets when the code returns -1.\<close>

definition parse_step :: "bool \<Rightarrow> parse \<Rightarrow> (int \<times> parse) res" where
  "parse_step ok p =
     (if p_used p \<ge> length (p_buffer p) then Inl OutOfBounds
      else let c = p_buffer p ! p_used p in
      case p_state p of
        PARSE_FAKE \<Rightarrow> Inl Abort
      | PARSE_FRESH \<Rightarrow>
          if is_type c then
            (case check_array_parse_katcl ok p of (r, p1) \<Rightarrow>
               if r < 0 then Inr (ENOMEM, p1)
               else bind_res (start_token p1) (\<lambda>p2.
                    bind_res (poke (p_kept p2) c (p2\<lparr>p_state := PARSE_COMMAND\<rparr>)) (\<lambda>p3.
                    Inr (0, advance 1 p3))))
          else Inr (0, advance 0 p)
      | PARSE_COMMAND \<Rightarrow>
          if c = CHR ''['' then
            bind_res (end_token PARSE_TAG (p\<lparr>p_tag := 0\<rparr>)) (\<lambda>p1. Inr (0, advance 1 p1))
          else if is_ws c then
            bind_res (end_token PARSE_WHITESPACE p) (\<lambda>p1. Inr (0, advance 1 p1))
          else if is_eol c then
            bind_res (end_token PARSE_DONE p) (\<lambda>p1. Inr (0, advance 1 p1))
          else bind_res (poke (p_kept p) c p) (\<lambda>p1. Inr (0, advance 1 p1))
      | PARSE_TAG \<Rightarrow>
          if is_tag_digit c then Inr (0, advance 0 (p\<lparr>p_tag := tag_digit (p_tag p) c\<rparr>))
          else if c = CHR '']'' then Inr (0, advance 0 (p\<lparr>p_state := PARSE_WHITESPACE\<rparr>))
          else Inr (EINVAL, p)
      | PARSE_WHITESPACE \<Rightarrow>
          if is_ws c then Inr (0, advance 0 p)
          else if is_eol c then Inr (0, advance 0 (p\<lparr>p_state := PARSE_DONE\<rparr>))
          else if c = backslash then
            (case check_array_parse_katcl ok p of (r, p1) \<Rightarrow>
               if r < 0 then Inr (ENOMEM, p1)
               else bind_res (start_token p1) (\<lambda>p2.
                    Inr (0, advance 0 (p2\<lparr>p_state := PARSE_ESCAPE\<rparr>))))
          else
            (case check_array_parse_katcl ok p of (r, p1) \<Rightarrow>
               if r < 0 then Inr (ENOMEM, p1)
               else bind_res (start_token p1) (\<lambda>p2.
                    bind_res (poke (p_kept p2) c (p2\<lparr>p_state := PARSE_ARG\<rparr>)) (\<lambda>p3.
                    Inr (0, advance 1 p3))))
      | PARSE_ARG \<Rightarrow>
          if is_ws c then
            bind_res (end_token PARSE_WHITESPACE p) (\<lambda>p1. Inr (0, advance 1 p1))
          else if is_eol c then
            bind_res (end_token PARSE_DONE p) (\<lambda>p1. Inr (0, advance 1 p1))
          else if c = backslash then Inr (0, advance 0 (p\<lparr>p_state := PARSE_ESCAPE\<rparr>))
          else bind_res (poke (p_kept p) c p) (\<lambda>p1. Inr (0, advance 1 p1))
      | PARSE_ESCAPE \<Rightarrow>
          bind_res (case unescape c of None \<Rightarrow> Inr p | Some v \<Rightarrow> poke (p_kept p) v p) (\<lambda>p1.
          bind_res (on_current (\<lambda>la. la\<lparr>a_escape := 1\<rparr>) p1) (\<lambda>p2.
          Inr (0, advance (if unescape c = None then 0 else 1) (p2\<lparr>p_state := PARSE_ARG\<rparr>))))
      | PARSE_DONE \<Rightarrow> Inr (0, advance 0 p))"

text \<open>The helpers leave the two ends of the unread input and the reference count alone.\<close>

lemma check_array_io: "check_array_parse_katcl ok p = (r, p') \<Longrightarrow>
    p_used p' = p_used p \<and> p_have p' = p_have p \<and> p_refs p' = p_refs p"
  by (auto simp: check_array_parse_katcl_def split: if_splits)

lemma poke_io: "poke i c p = Inr p' \<Longrightarrow> p_used p' = p_used p \<and> p_have p' = p_have p \<and> p_refs p' = p_refs p"
  by (auto simp: poke_def split: if_splits)

lemma on_current_io: "on_current f p = Inr p' \<Longrightarrow> p_used p' = p_used p \<and> p_have p' = p_have p \<and> p_refs p' = p_refs p"
  by (auto simp: on_current_def split: option.splits if_splits)

lemma start_token_io: "start_token p = Inr p' \<Longrightarrow> p_used p' = p_used p \<and> p_have p' = p_have p \<and> p_refs p' = p_refs p"
  by (auto simp: start_token_def dest: on_current_io)

lemma end_token_io: "end_token st p = Inr p' \<Longrightarrow> p_used p' = p_used p \<and> p_have p' = p_have p \<and> p_refs p' = p_refs p"
  by (auto simp: end_token_def bind_res_Inr_iff dest!: on_current_io poke_io)

lemmas parse_io = check_array_io poke_io on_current_io start_token_io end_token_io

lemma parse_step_progress:
  assumes "parse_step ok p = Inr (0, p')"
  shows "p_used p' = Suc (p_used p) \<and> p_have p' = p_have p"
proof (cases "p_state p")
qed (use assms in \<open>auto simp: parse_step_def Let_def bind_res_Inr_iff advance_def ENOMEM_def EINVAL_def
    dest!: parse_io split: if_splits option.splits prod.splits\<close>)

function parse_loop :: "(nat \<Rightarrow> bool) \<Rightarrow> parse \<Rightarrow> (int \<times> parse) res" where
  "parse_loop mem p =
     (if p_used p < p_have p \<and> p_state p \<noteq> PARSE_DONE then
        (case parse_step (mem (p_used p)) p of
           Inl e \<Rightarrow> Inl e
         | Inr (err, p') \<Rightarrow> if err \<noteq> 0 then Inr (err, p') else parse_loop mem p')
      else Inr (0, p))"
  by pat_completeness auto
termination
  by (relation "measure (\<lambda>(mem, p). p_have p - p_used p)") (auto dest!: parse_step_progress dest: sym)

declare parse_loop.simps [simp del]

section \<open>The tokenizer it is meant to be\<close>

text \<open>The reader as a machine over bytes: complete arguments, the argument being read, the
  tag. \<open>tok_step\<close> is partial: a byte other than a digit or \<open>]\<close> inside a tag is an error.\<close>

record tok =
  t_state :: pstate
  t_args :: "string list"
  t_cur :: string
  t_tag :: int

definition tok_init :: tok where
  "tok_init = \<lparr>t_state = PARSE_FRESH, t_args = [], t_cur = [], t_tag = -1\<rparr>"

definition tok_end :: "pstate \<Rightarrow> tok \<Rightarrow> tok" where
  "tok_end st t = t\<lparr>t_state := st, t_args := t_args t @ [t_cur t], t_cur := []\<rparr>"

definition tok_put :: "char \<Rightarrow> tok \<Rightarrow> tok" where
  "tok_put c t = t\<lparr>t_cur := t_cur t @ [c]\<rparr>"

fun tok_step :: "char \<Rightarrow> tok \<Rightarrow> tok option" where
  "tok_step c t =
     (case t_state t of
        PARSE_FRESH \<Rightarrow>
          Some (if is_type c then t\<lparr>t_state := PARSE_COMMAND, t_cur := [c]\<rparr> else t)
      | PARSE_COMMAND \<Rightarrow>
          Some (if c = CHR ''['' then tok_end PARSE_TAG (t\<lparr>t_tag := 0\<rparr>)
                else if is_ws c then tok_end PARSE_WHITESPACE t
                else if is_eol c then tok_end PARSE_DONE t
                else tok_put c t)
      | PARSE_TAG \<Rightarrow>
          (if is_tag_digit c then Some (t\<lparr>t_tag := tag_digit (t_tag t) c\<rparr>)
           else if c = CHR '']'' then Some (t\<lparr>t_state := PARSE_WHITESPACE\<rparr>)
           else None)
      | PARSE_WHITESPACE \<Rightarrow>
          Some (if is_ws c then t
                else if is_eol c then t\<lparr>t_state := PARSE_DONE\<rparr>
                else if c = backslash then t\<lparr>t_state := PARSE_ESCAPE, t_cur := []\<rparr>
                else t\<lparr>t_state := PARSE_ARG, t_cur := [c]\<rparr>)
      | PARSE_ARG \<Rightarrow>
          Some (if is_ws c then tok_end PARSE_WHITESPACE t
                else if is_eol c then tok_end PARSE_DONE t
                else if c = backslash then t\<lparr>t_state := PARSE_ESCAPE\<rparr>
                else tok_put c t)
      | PARSE_ESCAPE \<Rightarrow>
          Some ((case unescape c of None \<Rightarrow> t | Some v \<Rightarrow> tok_put v t)\<lparr>t_state := PARSE_ARG\<rparr>)
      | _ \<Rightarrow> Some t)"

declare tok_step.simps [simp del]

text \<open>Consuming a list of bytes up to the end of one message: the machine and the bytes it
  left, or an error.\<close>

fun tok_run :: "string \<Rightarrow> tok \<Rightarrow> (tok \<times> string) option" where
  "tok_run [] t = Some (t, [])"
| "tok_run (c # cs) t =
     (if t_state t = PARSE_DONE then Some (t, c # cs)
      else case tok_step c t of None \<Rightarrow> None | Some t' \<Rightarrow> tok_run cs t')"

section \<open>Invariant and abstraction\<close>

definition slice :: "nat \<Rightarrow> nat \<Rightarrow> 'a list \<Rightarrow> 'a list" where
  "slice b e xs = take (e - b) (drop b xs)"

lemma slice_update_outside [simp]:
  "e \<le> i \<or> i < b \<Longrightarrow> slice b e (xs[i := c]) = slice b e xs"
  by (intro nth_equalityI) (auto simp: slice_def nth_list_update)

lemma slice_snoc:
  "b \<le> k \<Longrightarrow> k < length xs \<Longrightarrow> slice b (Suc k) (xs[k := c]) = slice b k xs @ [c]"
  by (intro nth_equalityI) (auto simp: slice_def nth_append nth_list_update)

lemma slice_empty [simp]: "e \<le> b \<Longrightarrow> slice b e xs = []"
  by (simp add: slice_def)

lemma slice_Cons:
  "b < e \<Longrightarrow> e \<le> length xs \<Longrightarrow> slice b e xs = xs ! b # slice (Suc b) e xs"
  by (auto simp: slice_def Cons_nth_drop_Suc [symmetric] take_Cons' Suc_diff_le)

definition in_token :: "pstate \<Rightarrow> bool" where
  "in_token st \<longleftrightarrow> st \<in> {PARSE_COMMAND, PARSE_ARG, PARSE_ESCAPE}"

definition arg_text :: "parse \<Rightarrow> nat \<Rightarrow> string" where
  "arg_text p i = slice (a_begin (p_args p ! i)) (a_end (p_args p ! i)) (p_buffer p)"

definition parse_args :: "parse \<Rightarrow> string list" where
  "parse_args p = map (arg_text p) [0..<p_got p]"

definition parse_unread :: "parse \<Rightarrow> string" where
  "parse_unread p = slice (p_used p) (p_have p) (p_buffer p)"

definition parse_inv :: "parse \<Rightarrow> bool" where
  "parse_inv p \<longleftrightarrow>
     length (p_buffer p) = p_size p \<and> p_kept p \<le> p_used p \<and> p_used p \<le> p_have p \<and>
     p_have p \<le> p_size p \<and> length (p_args p) = p_count p \<and> p_got p \<le> p_count p \<and>
     (\<forall>i < p_got p. a_begin (p_args p ! i) \<le> a_end (p_args p ! i) \<and>
        a_end (p_args p ! i) < p_kept p \<and> p_buffer p ! a_end (p_args p ! i) = nul) \<and>
     (in_token (p_state p) \<longrightarrow> p_current p = Some (p_got p) \<and> p_got p < p_count p \<and>
        a_begin (p_args p ! p_got p) \<le> p_kept p)"

definition tok_of :: "parse \<Rightarrow> tok" where
  "tok_of p = \<lparr>t_state = p_state p, t_args = parse_args p,
     t_cur = (if in_token (p_state p)
              then slice (a_begin (p_args p ! p_got p)) (p_kept p) (p_buffer p) else []),
     t_tag = p_tag p\<rparr>"

lemma in_token_simps [simp]:
  "in_token PARSE_COMMAND" "in_token PARSE_ARG" "in_token PARSE_ESCAPE"
  "\<not> in_token PARSE_FRESH" "\<not> in_token PARSE_TAG" "\<not> in_token PARSE_WHITESPACE"
  "\<not> in_token PARSE_DONE" "\<not> in_token PARSE_FAKE"
  by (simp_all add: in_token_def)

text \<open>The steps that do not touch the arguments.\<close>

lemma advance_skip:
  assumes "parse_inv p" "p_used p < p_have p" "\<not> in_token st" "\<not> in_token (p_state p)"
  shows "parse_inv (advance 0 (p\<lparr>p_state := st, p_tag := tg\<rparr>))"
    and "tok_of (advance 0 (p\<lparr>p_state := st, p_tag := tg\<rparr>)) = (tok_of p)\<lparr>t_state := st, t_tag := tg\<rparr>"
  using assms by (auto simp: parse_inv_def advance_def tok_of_def parse_args_def arg_text_def)

lemma advance_unread:
  assumes "p_used p < p_have p" "p_have p \<le> length (p_buffer p)"
    "p_used q = p_used p" "p_have q = p_have p" "k \<le> p_used p"
    "p_buffer q = p_buffer p \<or> p_buffer q = (p_buffer p)[k := c]"
  shows "parse_unread p = p_buffer p ! p_used p # parse_unread (advance n q)"
  using assms by (auto simp: parse_unread_def advance_def slice_Cons)

text \<open>Opening a token: the argument array has room (or grows), and the new argument begins
  where the kept bytes end.\<close>

definition same_bytes :: "parse \<Rightarrow> parse \<Rightarrow> bool" where
  "same_bytes p q \<longleftrightarrow>
     p_buffer q = p_buffer p \<and> p_used q = p_used p \<and> p_have q = p_have p \<and>
     p_kept q = p_kept p \<and> p_got q = p_got p \<and> p_state q = p_state p \<and> p_refs q = p_refs p"

lemma check_array_inv:
  assumes "parse_inv p" "check_array_parse_katcl ok p = (r, p1)" "\<not> in_token (p_state p)"
  shows "r = 0 \<and> same_bytes p p1 \<and> p_current p1 = Some (p_got p1) \<and> p_got p1 < p_count p1 \<and>
      parse_inv p1 \<and> tok_of p1 = tok_of p
    \<or> \<not> ok \<and> r = -1 \<and> p1 = p"
  using assms
  by (auto simp: check_array_parse_katcl_def parse_inv_def KATCL_ARGS_INC_def tok_of_def same_bytes_def
      parse_args_def arg_text_def nth_append split: if_splits)

lemma start_token_inv:
  assumes "parse_inv p" "p_current p = Some (p_got p)" "p_got p < p_count p" "\<not> in_token (p_state p)"
  shows "\<exists>p'. start_token p = Inr p' \<and> parse_inv p' \<and> tok_of p' = tok_of p \<and> same_bytes p p' \<and>
    p_current p' = Some (p_got p') \<and> p_got p' < p_count p' \<and> a_begin (p_args p' ! p_got p') = p_kept p'"
  using assms
  by (auto simp: start_token_def on_current_def parse_inv_def tok_of_def parse_args_def arg_text_def
      same_bytes_def nth_list_update)

lemma enter_token_inv:
  assumes "parse_inv p" "p_current p = Some (p_got p)" "p_got p < p_count p"
    "a_begin (p_args p ! p_got p) \<le> p_kept p" "p_used p < p_have p" "in_token st"
  shows "parse_inv (advance 0 (p\<lparr>p_state := st\<rparr>)) \<and>
    tok_of (advance 0 (p\<lparr>p_state := st\<rparr>)) =
      (tok_of p)\<lparr>t_state := st, t_cur := slice (a_begin (p_args p ! p_got p)) (p_kept p) (p_buffer p)\<rparr>"
  using assms by (auto simp: parse_inv_def advance_def tok_of_def parse_args_def arg_text_def)

text \<open>Keeping one byte of the token being read.\<close>

lemma put_token_inv:
  assumes "parse_inv p" "p_current p = Some (p_got p)" "p_got p < p_count p"
    "a_begin (p_args p ! p_got p) \<le> p_kept p" "p_used p < p_have p" "in_token st"
  shows "\<exists>p'. poke (p_kept p) c (p\<lparr>p_state := st\<rparr>) = Inr p' \<and> parse_inv (advance 1 p') \<and>
    p' = p\<lparr>p_state := st, p_buffer := (p_buffer p)[p_kept p := c]\<rparr> \<and>
    tok_of (advance 1 p') =
      (tok_of p)\<lparr>t_state := st,
        t_cur := slice (a_begin (p_args p ! p_got p)) (p_kept p) (p_buffer p) @ [c]\<rparr>"
proof -
  let ?p = "p\<lparr>p_state := st, p_buffer := (p_buffer p)[p_kept p := c]\<rparr>"
  have k: "p_kept p < length (p_buffer p)" using assms by (auto simp: parse_inv_def)
  then have "poke (p_kept p) c (p\<lparr>p_state := st\<rparr>) = Inr ?p" by (simp add: poke_def)
  moreover have "parse_inv (advance 1 ?p)"
    using assms by (auto simp: parse_inv_def advance_def)
  moreover have "arg_text (advance 1 ?p) i = arg_text p i" if "i < p_got p" for i
    using assms that by (auto simp: arg_text_def advance_def parse_inv_def less_imp_le)
  moreover have "slice (a_begin (p_args p ! p_got p)) (Suc (p_kept p)) ((p_buffer p)[p_kept p := c]) =
      slice (a_begin (p_args p ! p_got p)) (p_kept p) (p_buffer p) @ [c]"
    using assms(4) k by (rule slice_snoc)
  ultimately show ?thesis
    using assms(6) by (simp add: tok_of_def parse_args_def) (simp add: advance_def)
qed

text \<open>Closing a token: the terminator goes behind it and the argument is counted.\<close>

lemma end_token_inv:
  assumes "parse_inv p" "in_token (p_state p)" "p_used p < p_have p" "\<not> in_token st"
  shows "\<exists>p'. end_token st p = Inr p' \<and> parse_inv (advance 1 p') \<and>
    p_buffer p' = (p_buffer p)[p_kept p := nul] \<and> tok_of (advance 1 p') = tok_end st (tok_of p)"
proof -
  let ?i = "p_got p"
  let ?p = "p\<lparr>p_buffer := (p_buffer p)[p_kept p := nul],
    p_args := (p_args p)[?i := (p_args p ! ?i)\<lparr>a_end := p_kept p\<rparr>],
    p_got := ?i + 1, p_state := st\<rparr>"
  have c: "p_current p = Some ?i" "?i < length (p_args p)" "p_kept p < length (p_buffer p)"
    using assms by (auto simp: parse_inv_def)
  then have e: "end_token st p = Inr ?p" by (simp add: end_token_def poke_def on_current_def)
  have "parse_inv (advance 1 ?p)"
    using assms c by (auto simp: parse_inv_def advance_def nth_list_update less_Suc_eq)
  moreover have "arg_text (advance 1 ?p) j = arg_text p j" if "j < ?i" for j
    using assms that c by (auto simp: arg_text_def advance_def parse_inv_def less_imp_le)
  then have "parse_args (advance 1 ?p) =
      parse_args p @ [slice (a_begin (p_args p ! ?i)) (p_kept p) (p_buffer p)]"
    using c by (simp add: parse_args_def advance_def arg_text_def)
  ultimately show ?thesis
    using e assms(2,4) by (simp add: tok_of_def tok_end_def) (simp add: advance_def)
qed

section \<open>The simulation\<close>

text \<open>What one round of the reader has to do: a step of the tokenizer on the next byte, the
  bytes behind it untouched; or one of the two errors, each for its own reason only.\<close>

definition step_ok :: "bool \<Rightarrow> parse \<Rightarrow> (int \<times> parse) res \<Rightarrow> bool" where
  "step_ok ok p r =
     (case r of
        Inl _ \<Rightarrow> False
      | Inr (err, p') \<Rightarrow>
          (if err = 0 then parse_inv p' \<and> tok_step (p_buffer p ! p_used p) (tok_of p) = Some (tok_of p') \<and>
             parse_unread p = p_buffer p ! p_used p # parse_unread p' \<and> p_refs p' = p_refs p
           else p' = p \<and> (err = ENOMEM \<and> \<not> ok \<or>
             err = EINVAL \<and> tok_step (p_buffer p ! p_used p) (tok_of p) = None)))"

lemma tok_of_state [simp]: "t_state (tok_of p) = p_state p" "t_tag (tok_of p) = p_tag p"
  by (simp_all add: tok_of_def)

lemma tok_of_cur: "in_token (p_state p) \<Longrightarrow>
    t_cur (tok_of p) = slice (a_begin (p_args p ! p_got p)) (p_kept p) (p_buffer p)"
  by (simp add: tok_of_def)

lemma tok_of_no_cur: "\<not> in_token (p_state p) \<Longrightarrow> t_cur (tok_of p) = []"
  by (simp add: tok_of_def)

lemma advance_refs [simp]: "p_refs (advance n p) = p_refs p"
  by (simp add: advance_def)

lemma inv_bounds:
  assumes "parse_inv p" "p_used p < p_have p"
  shows "p_used p < length (p_buffer p)" "p_have p \<le> length (p_buffer p)" "p_kept p \<le> p_used p"
    "p_kept p < length (p_buffer p)"
  using assms by (auto simp: parse_inv_def)

lemma parse_step_skip:
  assumes inv: "parse_inv p" "p_used p < p_have p" "\<not> in_token st" "\<not> in_token (p_state p)"
    and "tok_step (p_buffer p ! p_used p) (tok_of p) = Some ((tok_of p)\<lparr>t_state := st, t_tag := tg\<rparr>)"
  shows "step_ok ok p (Inr (0, advance 0 (p\<lparr>p_state := st, p_tag := tg\<rparr>)))"
  using advance_skip [OF inv] inv_bounds [OF inv(1,2)] assms
    advance_unread [of p "p\<lparr>p_state := st, p_tag := tg\<rparr>" "p_kept p"]
  by (simp add: step_ok_def)

lemma parse_step_put:
  assumes inv: "parse_inv p" "p_used p < p_have p" "in_token (p_state p)"
    and st: "in_token st"
    and tok: "tok_step (p_buffer p ! p_used p) (tok_of p) = Some ((tok_put c (tok_of p))\<lparr>t_state := st\<rparr>)"
  shows "step_ok ok p (bind_res (poke (p_kept p) c (p\<lparr>p_state := st\<rparr>)) (\<lambda>p1. Inr (0, advance 1 p1)))"
proof -
  have "p_current p = Some (p_got p)" "p_got p < p_count p" "a_begin (p_args p ! p_got p) \<le> p_kept p"
    using inv by (auto simp: parse_inv_def)
  from put_token_inv [OF inv(1) this inv(2) st, of c] obtain p' where
    p': "poke (p_kept p) c (p\<lparr>p_state := st\<rparr>) = Inr p'" "parse_inv (advance 1 p')"
      "p' = p\<lparr>p_state := st, p_buffer := (p_buffer p)[p_kept p := c]\<rparr>"
      "tok_of (advance 1 p') = (tok_of p)\<lparr>t_state := st, t_cur := t_cur (tok_of p) @ [c]\<rparr>"
    by (auto simp: tok_of_cur [OF inv(3)])
  have "parse_unread p = p_buffer p ! p_used p # parse_unread (advance 1 p')"
    using inv_bounds [OF inv(1,2)] inv(2) p'(3) by (intro advance_unread [where k = "p_kept p" and c = c]) auto
  with p' tok show ?thesis by (simp add: step_ok_def tok_put_def)
qed

lemma parse_step_end:
  assumes inv: "parse_inv p" "p_used p < p_have p" "in_token (p_state p)" "\<not> in_token st"
    and tok: "tok_step (p_buffer p ! p_used p) (tok_of p) = Some (tok_end st (tok_of p))"
  shows "step_ok ok p (bind_res (end_token st p) (\<lambda>p1. Inr (0, advance 1 p1)))"
proof -
  from end_token_inv [OF inv(1,3,2,4)] obtain p' where
    p': "end_token st p = Inr p'" "parse_inv (advance 1 p')"
      "p_buffer p' = (p_buffer p)[p_kept p := nul]" "tok_of (advance 1 p') = tok_end st (tok_of p)"
    by blast
  have "parse_unread p = p_buffer p ! p_used p # parse_unread (advance 1 p')"
    using inv_bounds [OF inv(1,2)] inv(2) p'(3) end_token_io [OF p'(1)]
    by (intro advance_unread [where k = "p_kept p" and c = nul]) auto
  with p' tok end_token_io [OF p'(1)] show ?thesis by (simp add: step_ok_def)
qed

text \<open>Opening a token keeps its first byte, or for an escape waits for the next one.\<close>

lemma parse_step_open:
  assumes inv: "parse_inv p" "p_used p < p_have p" "\<not> in_token (p_state p)" and st: "in_token st"
    and tok: "tok_step (p_buffer p ! p_used p) (tok_of p) =
      Some ((tok_of p)\<lparr>t_state := st, t_cur := (if keep then [c] else [])\<rparr>)"
  shows "step_ok ok p
    (case check_array_parse_katcl ok p of (r, p1) \<Rightarrow>
       if r < 0 then Inr (ENOMEM, p1)
       else bind_res (start_token p1) (\<lambda>p2.
         if keep then bind_res (poke (p_kept p2) c (p2\<lparr>p_state := st\<rparr>)) (\<lambda>p3. Inr (0, advance 1 p3))
         else Inr (0, advance 0 (p2\<lparr>p_state := st\<rparr>))))"
proof -
  obtain r p1 where ca: "check_array_parse_katcl ok p = (r, p1)" by force
  from check_array_inv [OF inv(1) ca inv(3)] show ?thesis
  proof
    assume "\<not> ok \<and> r = -1 \<and> p1 = p"
    with ca show ?thesis by (simp add: step_ok_def ENOMEM_def)
  next
    assume p1: "r = 0 \<and> same_bytes p p1 \<and> p_current p1 = Some (p_got p1) \<and> p_got p1 < p_count p1 \<and>
      parse_inv p1 \<and> tok_of p1 = tok_of p"
    then have "\<not> in_token (p_state p1)" using inv(3) by (simp add: same_bytes_def)
    with p1 start_token_inv [of p1] obtain p2 where
      p2: "start_token p1 = Inr p2" "parse_inv p2" "tok_of p2 = tok_of p" "same_bytes p1 p2"
        "p_current p2 = Some (p_got p2)" "p_got p2 < p_count p2" "a_begin (p_args p2 ! p_got p2) = p_kept p2"
      by auto
    have same: "p_buffer p2 = p_buffer p" "p_used p2 = p_used p" "p_have p2 = p_have p"
      "p_kept p2 = p_kept p" "p_refs p2 = p_refs p"
      using p1 p2(4) by (auto simp: same_bytes_def)
    have used: "p_used p2 < p_have p2" using inv(2) same by simp
    show ?thesis
    proof (cases keep)
      case True
      from put_token_inv [OF p2(2,5,6) _ used st, of c] p2(7) obtain p3 where
        p3: "poke (p_kept p2) c (p2\<lparr>p_state := st\<rparr>) = Inr p3" "parse_inv (advance 1 p3)"
          "p3 = p2\<lparr>p_state := st, p_buffer := (p_buffer p2)[p_kept p2 := c]\<rparr>"
          "tok_of (advance 1 p3) = (tok_of p)\<lparr>t_state := st, t_cur := [c]\<rparr>"
        by (auto simp: p2(3))
      have "parse_unread p = p_buffer p ! p_used p # parse_unread (advance 1 p3)"
        using inv_bounds [OF inv(1,2)] inv(2) p3(3) same
        by (intro advance_unread [where k = "p_kept p" and c = c]) auto
      with p1 ca p2 p3 True tok same show ?thesis by (simp add: step_ok_def)
    next
      case False
      from enter_token_inv [OF p2(2,5,6) _ used st] p2(7)
      have e: "parse_inv (advance 0 (p2\<lparr>p_state := st\<rparr>))"
        "tok_of (advance 0 (p2\<lparr>p_state := st\<rparr>)) = (tok_of p)\<lparr>t_state := st, t_cur := []\<rparr>"
        by (auto simp: p2(3))
      have "parse_unread p = p_buffer p ! p_used p # parse_unread (advance 0 (p2\<lparr>p_state := st\<rparr>))"
        using inv_bounds [OF inv(1,2)] inv(2) same
        by (intro advance_unread [where k = "p_kept p"]) auto
      with p1 ca p2 e False tok same show ?thesis by (simp add: step_ok_def)
    qed
  qed
qed

text \<open>The byte behind an escape: it is kept (or not), and the argument is marked.\<close>

lemma slice_Suc_end:
  "b \<le> e \<Longrightarrow> e < length xs \<Longrightarrow> slice b (Suc e) xs = slice b e xs @ [xs ! e]"
  using slice_snoc [of b e xs "xs ! e"] by simp

lemma mark_escape_inv:
  assumes "parse_inv p" "in_token (p_state p)"
  shows "\<exists>p'. on_current (\<lambda>la. la\<lparr>a_escape := 1\<rparr>) p = Inr p' \<and> parse_inv p' \<and>
    tok_of p' = tok_of p \<and> same_bytes p p'"
  using assms
  by (auto simp: on_current_def parse_inv_def tok_of_def parse_args_def arg_text_def same_bytes_def
      nth_list_update)

lemma poke_kept_inv:
  assumes "parse_inv p" "p_used p < p_have p"
  shows "\<exists>p'. poke (p_kept p) c p = Inr p' \<and> parse_inv p' \<and> tok_of p' = tok_of p \<and>
    p' = p\<lparr>p_buffer := (p_buffer p)[p_kept p := c]\<rparr>"
  using assms inv_bounds [OF assms]
  by (auto simp: poke_def parse_inv_def tok_of_def parse_args_def arg_text_def less_imp_le)

lemma advance_keep_inv:
  assumes "parse_inv p" "p_used p < p_have p" "in_token (p_state p)" "in_token st"
  shows "parse_inv (advance 1 (p\<lparr>p_state := st\<rparr>)) \<and>
    tok_of (advance 1 (p\<lparr>p_state := st\<rparr>)) = (tok_put (p_buffer p ! p_kept p) (tok_of p))\<lparr>t_state := st\<rparr>"
  using assms inv_bounds [OF assms(1,2)]
  by (auto simp: parse_inv_def advance_def tok_of_def tok_put_def parse_args_def arg_text_def
      slice_Suc_end)

lemma parse_step_escape:
  assumes inv: "parse_inv p" "p_used p < p_have p" "p_state p = PARSE_ESCAPE"
  defines "v \<equiv> unescape (p_buffer p ! p_used p)"
  shows "step_ok ok p
    (bind_res (case v of None \<Rightarrow> Inr p | Some v \<Rightarrow> poke (p_kept p) v p) (\<lambda>p1.
     bind_res (on_current (\<lambda>la. la\<lparr>a_escape := 1\<rparr>) p1) (\<lambda>p2.
     Inr (0, advance (if v = None then 0 else 1) (p2\<lparr>p_state := PARSE_ARG\<rparr>)))))"
proof -
  have tok: "tok_step (p_buffer p ! p_used p) (tok_of p) =
      Some ((case v of None \<Rightarrow> tok_of p | Some v \<Rightarrow> tok_put v (tok_of p))\<lparr>t_state := PARSE_ARG\<rparr>)"
    using inv(3) by (simp add: tok_step.simps v_def)
  obtain p1 c where p1: "(case v of None \<Rightarrow> Inr p | Some v \<Rightarrow> poke (p_kept p) v p) = Inr p1"
    "parse_inv p1" "tok_of p1 = tok_of p" "p_state p1 = PARSE_ESCAPE" "p_used p1 = p_used p"
    "p_have p1 = p_have p" "p_kept p1 = p_kept p" "p_refs p1 = p_refs p"
    "p_buffer p1 = p_buffer p \<or> p_buffer p1 = (p_buffer p)[p_kept p := c]"
    "v = None \<or> p_buffer p1 ! p_kept p = the v"
  proof (cases v)
    case None
    with that [of p] inv show ?thesis by simp
  next
    case (Some w)
    with poke_kept_inv [OF inv(1,2), of w] inv that [of _ w] inv_bounds [OF inv(1,2)] show ?thesis
      by auto
  qed
  obtain p2 where p2: "on_current (\<lambda>la. la\<lparr>a_escape := 1\<rparr>) p1 = Inr p2" "parse_inv p2"
    "tok_of p2 = tok_of p" "same_bytes p1 p2"
    using mark_escape_inv [OF p1(2)] p1 by auto
  have q: "p_used p2 < p_have p2" "p_state p2 = PARSE_ESCAPE" "p_kept p2 = p_kept p"
    "p_buffer p2 = p_buffer p1" "p_used p2 = p_used p" "p_have p2 = p_have p" "p_refs p2 = p_refs p"
    using p1 p2 inv by (auto simp: same_bytes_def)
  let ?p3 = "advance (if v = None then 0 else 1) (p2\<lparr>p_state := PARSE_ARG\<rparr>)"
  have "parse_inv ?p3 \<and> tok_of ?p3 =
      (case v of None \<Rightarrow> tok_of p | Some v \<Rightarrow> tok_put v (tok_of p))\<lparr>t_state := PARSE_ARG\<rparr>"
  proof (cases v)
    case None
    have "p_current p2 = Some (p_got p2)" "p_got p2 < p_count p2" "a_begin (p_args p2 ! p_got p2) \<le> p_kept p2"
      using p2(2) q(2) by (auto simp: parse_inv_def)
    from enter_token_inv [OF p2(2) this q(1), of PARSE_ARG] None show ?thesis
      using tok_of_cur [of p2] q(2) p2(3) by simp
  next
    case (Some w)
    then show ?thesis using advance_keep_inv [OF p2(2) q(1), of PARSE_ARG] q p1(10) p2(3) by simp
  qed
  moreover have "parse_unread p = p_buffer p ! p_used p # parse_unread ?p3"
    using inv_bounds [OF inv(1,2)] inv(2) p1(9) q
    by (intro advance_unread [where k = "p_kept p" and c = c]) auto
  ultimately show ?thesis using p1 p2 q tok by (simp add: step_ok_def)
qed

lemmas parse_step_open_keep = parse_step_open [where keep = True, simplified if_True]
  and parse_step_open_wait = parse_step_open [where keep = False, simplified if_False]

lemma same_updates [simp]:
  "p_state p = st \<Longrightarrow> p\<lparr>p_state := st\<rparr> = p"
  "p_tag p = tg \<Longrightarrow> p\<lparr>p_tag := tg\<rparr> = p"
  "t_state t = st \<Longrightarrow> t\<lparr>t_state := st\<rparr> = t"
  "t_tag t = tg \<Longrightarrow> t\<lparr>t_tag := tg\<rparr> = t"
  by auto

lemma unread_tag [simp]: "parse_unread (p\<lparr>p_tag := tg\<rparr>) = parse_unread p"
  by (simp add: parse_unread_def)

lemma parse_step_shift:
  assumes inv: "parse_inv p" "p_used p < p_have p" "in_token (p_state p)" "in_token st"
    and tok: "tok_step (p_buffer p ! p_used p) (tok_of p) = Some ((tok_of p)\<lparr>t_state := st\<rparr>)"
  shows "step_ok ok p (Inr (0, advance 0 (p\<lparr>p_state := st\<rparr>)))"
proof -
  have c: "p_current p = Some (p_got p)" "p_got p < p_count p" "a_begin (p_args p ! p_got p) \<le> p_kept p"
    using inv by (auto simp: parse_inv_def)
  have "parse_unread p = p_buffer p ! p_used p # parse_unread (advance 0 (p\<lparr>p_state := st\<rparr>))"
    using inv_bounds [OF inv(1,2)] inv(2) by (intro advance_unread [where k = "p_kept p"]) auto
  with enter_token_inv [OF inv(1) c inv(2,4)] tok tok_of_cur [OF inv(3)] show ?thesis
    by (simp add: step_ok_def)
qed

lemma tag_then_end:
  assumes "parse_inv p"
  shows "parse_inv (p\<lparr>p_tag := tg\<rparr>) \<and> tok_of (p\<lparr>p_tag := tg\<rparr>) = (tok_of p)\<lparr>t_tag := tg\<rparr>"
  using assms by (auto simp: parse_inv_def tok_of_def parse_args_def arg_text_def)

lemma parse_step_simulates:
  assumes inv: "parse_inv p" "p_used p < p_have p" and st: "p_state p \<noteq> PARSE_FAKE" "p_state p \<noteq> PARSE_DONE"
  shows "step_ok ok p (parse_step ok p)"
proof -
  let ?c = "p_buffer p ! p_used p"
  note rng = inv_bounds [OF inv]
  note t = tok_step.simps [of ?c "tok_of p"]
  note skip = parse_step_skip [OF inv, where ok = ok] and endt = parse_step_end [OF inv, where ok = ok]
    and put = parse_step_put [OF inv, where ok = ok and st = "p_state p" and c = ?c]
    and keep = parse_step_open_keep [OF inv, where ok = ok and c = ?c]
    and wait = parse_step_open_wait [OF inv, where ok = ok]
  show ?thesis
  proof (cases "p_state p")
    case PARSE_FRESH
    then show ?thesis
      using rng t skip [of PARSE_FRESH "p_tag p"] keep [of PARSE_COMMAND]
      by (cases "is_type ?c") (simp_all add: parse_step_def)
  next
    case PARSE_COMMAND
    then show ?thesis
    proof (cases "?c = CHR ''[''")
      case True
      let ?p = "p\<lparr>p_tag := 0\<rparr>"
      have "step_ok ok ?p (bind_res (end_token PARSE_TAG ?p) (\<lambda>p1. Inr (0, advance 1 p1)))"
        using inv tag_then_end [OF inv(1)] PARSE_COMMAND True
        by (intro parse_step_end) (simp_all add: tok_step.simps tok_end_def)
      moreover have "tok_step ?c (tok_of ?p) = tok_step ?c (tok_of p)"
        using tag_then_end [OF inv(1), of 0] PARSE_COMMAND True by (simp add: tok_step.simps)
      ultimately show ?thesis using PARSE_COMMAND True rng
        by (auto simp: parse_step_def step_ok_def bind_res_def split: sum.splits)
    next
      case False
      with PARSE_COMMAND show ?thesis
        using rng t endt [of PARSE_WHITESPACE] endt [of PARSE_DONE] put
        by (auto simp: parse_step_def Let_def tok_put_def)
    qed
  next
    case PARSE_WHITESPACE
    then show ?thesis
      using rng t skip [of PARSE_WHITESPACE "p_tag p"] skip [of PARSE_DONE "p_tag p"]
        keep [of PARSE_ARG] wait [of PARSE_ESCAPE]
      by (auto simp: parse_step_def Let_def)
  next
    case PARSE_ARG
    then show ?thesis
      using rng t parse_step_shift [OF inv, of PARSE_ESCAPE ok] endt [of PARSE_WHITESPACE] endt [of PARSE_DONE] put
      by (auto simp: parse_step_def Let_def tok_put_def)
  next
    case PARSE_TAG
    then have "step_ok ok p (Inr (EINVAL, p))" if "\<not> is_tag_digit ?c" "?c \<noteq> CHR '']''"
      using that t by (simp add: step_ok_def EINVAL_def)
    with PARSE_TAG show ?thesis
      using rng t skip [of PARSE_TAG "tag_digit (p_tag p) ?c"] skip [of PARSE_WHITESPACE "p_tag p"]
      by (cases "is_tag_digit ?c"; cases "?c = CHR '']''") (simp_all add: parse_step_def Let_def)
  next
    case PARSE_ESCAPE
    then show ?thesis using parse_step_escape [OF inv PARSE_ESCAPE, of ok] rng by (simp add: parse_step_def Let_def)
  qed (use st in auto)
qed

section \<open>The loop\<close>

lemma tok_run_done [simp]: "t_state t = PARSE_DONE \<Longrightarrow> tok_run cs t = Some (t, cs)"
  by (cases cs) simp_all

lemma tok_step_not_fake:
  "tok_step c t = Some t' \<Longrightarrow> t_state t \<noteq> PARSE_FAKE \<Longrightarrow> t_state t' \<noteq> PARSE_FAKE"
  by (auto simp: tok_step.simps tok_end_def tok_put_def split: pstate.splits if_splits option.splits)

definition loop_ok :: "(nat \<Rightarrow> bool) \<Rightarrow> parse \<Rightarrow> (int \<times> parse) res \<Rightarrow> bool" where
  "loop_ok mem p r =
     (case r of
        Inl _ \<Rightarrow> False
      | Inr (err, p') \<Rightarrow>
          parse_inv p' \<and> p_refs p' = p_refs p \<and> p_state p' \<noteq> PARSE_FAKE \<and>
          (if err = 0 then tok_run (parse_unread p) (tok_of p) = Some (tok_of p', parse_unread p')
           else err = ENOMEM \<and> (\<exists>i. \<not> mem i) \<or>
             err = EINVAL \<and> tok_run (parse_unread p) (tok_of p) = None))"

lemma parse_loop_simulates:
  assumes "parse_inv p" "p_state p \<noteq> PARSE_FAKE"
  shows "loop_ok mem p (parse_loop mem p)"
  using assms
proof (induction mem p rule: parse_loop.induct)
  case (1 mem p)
  show ?case
  proof (cases "p_used p < p_have p \<and> p_state p \<noteq> PARSE_DONE")
    case False
    then have "parse_unread p = [] \<or> p_state p = PARSE_DONE"
      using 1(2) by (auto simp: parse_unread_def)
    then have "tok_run (parse_unread p) (tok_of p) = Some (tok_of p, parse_unread p)" by auto
    moreover have "parse_loop mem p = Inr (0, p)" using False by (subst parse_loop.simps) auto
    ultimately show ?thesis using 1(2,3) by (simp add: loop_ok_def)
  next
    case True
    let ?c = "p_buffer p ! p_used p"
    have sim: "step_ok (mem (p_used p)) p (parse_step (mem (p_used p)) p)"
      using 1(2,3) True by (intro parse_step_simulates) auto
    obtain err p' where s: "parse_step (mem (p_used p)) p = Inr (err, p')"
      using sim by (auto simp: step_ok_def split: sum.splits)
    have un: "parse_unread p = ?c # slice (Suc (p_used p)) (p_have p) (p_buffer p)"
      using True inv_bounds [OF 1(2)] by (simp add: parse_unread_def slice_Cons)
    show ?thesis
    proof (cases "err = 0")
      case e: True
      then have st: "parse_inv p'" "tok_step ?c (tok_of p) = Some (tok_of p')"
        "parse_unread p = ?c # parse_unread p'" "p_refs p' = p_refs p"
        using sim s by (simp_all add: step_ok_def)
      have "p_state p' \<noteq> PARSE_FAKE" using tok_step_not_fake [OF st(2)] 1(3) by simp
      with st e True s have "loop_ok mem p' (parse_loop mem p')" by (intro 1(1)) auto
      moreover have "parse_loop mem p = parse_loop mem p'"
        using True s e by (subst parse_loop.simps) simp
      ultimately show ?thesis using st True by (auto simp: loop_ok_def split: sum.splits prod.splits)
    next
      case False
      have "parse_loop mem p = Inr (err, p')" using True s False by (subst parse_loop.simps) simp
      moreover have "err = ENOMEM \<and> \<not> mem (p_used p) \<or>
          err = EINVAL \<and> tok_run (parse_unread p) (tok_of p) = None"
        using sim s False True by (auto simp: step_ok_def un)
      moreover have "p' = p" using sim s False by (simp add: step_ok_def)
      ultimately show ?thesis using False 1(2,3) by (auto simp: loop_ok_def)
    qed
  qed
qed

text \<open>The tokenizer reads a stream in any pieces.\<close>

lemma tok_run_append:
  "tok_run (xs @ ys) t =
    (case tok_run xs t of None \<Rightarrow> None | Some (t', rest) \<Rightarrow> tok_run (rest @ ys) t')"
proof (induction xs arbitrary: t)
  case (Cons x xs)
  then show ?case by (auto split: option.splits)
qed simp

lemma tok_run_rest:
  "tok_run xs t = Some (t', rest) \<Longrightarrow> rest = [] \<or> t_state t' = PARSE_DONE"
  by (induction xs arbitrary: t) (auto split: if_splits option.splits)


section \<open>What one line left over for the next\<close>

definition stash_remainder_parse_katcl :: "bool \<Rightarrow> string \<Rightarrow> parse \<Rightarrow> (int \<times> parse) res" where
  "stash_remainder_parse_katcl ok buffer p =
     (let need = p_used p + length buffer;
          grow = need > p_size p;
          p1 = (if grow then p\<lparr>p_buffer := grow_buffer need (p_buffer p), p_size := need\<rparr> else p)
      in if grow \<and> \<not> ok then Inr (-1, p)
         else if p_used p1 + length buffer > length (p_buffer p1) then Inl OutOfBounds
         else Inr (0, p1\<lparr>p_buffer := take (p_used p1) (p_buffer p1) @ buffer @
                                 drop (p_used p1 + length buffer) (p_buffer p1),
                         p_have := need\<rparr>))"

lemma fresh_inv [simp]: "parse_inv fresh_parse" "parse_unread fresh_parse = []" "tok_of fresh_parse = tok_init"
  "p_state fresh_parse = PARSE_FRESH"
  by (simp_all add: fresh_parse_def parse_inv_def parse_unread_def tok_of_def parse_args_def tok_init_def)

lemma stash_fresh:
  assumes "ok" "0 < length s"
  shows "\<exists>p. stash_remainder_parse_katcl ok s (fresh_parse\<lparr>p_refs := n\<rparr>) = Inr (0, p) \<and> parse_inv p \<and>
    parse_unread p = s \<and> tok_of p = tok_init \<and> p_refs p = n"
  using assms
  by (simp add: stash_remainder_parse_katcl_def fresh_parse_def parse_inv_def parse_unread_def tok_of_def
      parse_args_def tok_init_def grow_buffer_def slice_def Let_def)

section \<open>Properties\<close>

text \<open>C4. The reader implements the tokenizer. From every state that a message can be in while
  it is read, the loop of \<open>parse_katcl\<close> ends, never reads or writes outside its arrays, and
  the message it leaves stands for the result of the tokenizer on the unread bytes, with the
  bytes that the tokenizer leaves still unread. It fails with \<open>EINVAL\<close> exactly when the
  tokenizer meets an illegal tag, and with \<open>ENOMEM\<close> only when memory ran out.\<close>

theorem reader_refines_tokenizer:
  assumes "parse_inv p" "p_state p \<noteq> PARSE_FAKE"
  shows "\<exists>err p'. parse_loop mem p = Inr (err, p') \<and>
    (err = 0 \<and> parse_inv p' \<and> tok_run (parse_unread p) (tok_of p) = Some (tok_of p', parse_unread p') \<or>
     err = EINVAL \<and> tok_run (parse_unread p) (tok_of p) = None \<or>
     err = ENOMEM \<and> (\<exists>i. \<not> mem i))"
  using parse_loop_simulates [OF assms, of mem]
  by (auto simp: loop_ok_def split: sum.splits if_splits)

theorem reader_refines_tokenizer_witness:
  "\<exists>p p'. parse_unread p = ''?a b'' \<and> parse_loop (\<lambda>_. True) p = Inr (0, p') \<and> parse_args p' = [''?a'']"
proof -
  obtain p where p: "parse_inv p" "parse_unread p = ''?a b''" "tok_of p = tok_init"
    using stash_fresh [of True "''?a b''" 0] by auto
  have "p_state p = PARSE_FRESH" using p(3) tok_of_state(1) [of p] by (simp add: tok_init_def)
  moreover have "tok_run ''?a b'' tok_init =
      Some (\<lparr>t_state = PARSE_ARG, t_args = [''?a''], t_cur = ''b'', t_tag = -1\<rparr>, [])"
    by (simp add: tok_init_def tok_step.simps tok_end_def tok_put_def is_type_def is_ws_def is_eol_def backslash_def)
  ultimately obtain p' where "parse_loop (\<lambda>_. True) p = Inr (0, p')" 
      "tok_of p' = \<lparr>t_state = PARSE_ARG, t_args = [''?a''], t_cur = ''b'', t_tag = -1\<rparr>"
    using reader_refines_tokenizer [of p "\<lambda>_. True"] p by (auto simp del: tok_run.simps)
  then have "parse_loop (\<lambda>_. True) p = Inr (0, p') \<and> parse_args p' = [''?a'']" by (simp add: tok_of_def)
  then show ?thesis using p(2) by blast
qed

end
