(* ===== verification/Parse_Build.thy ===== *)
theory Parse_Build
  imports Parse "HOL-Library.Signed_Division"
begin

text \<open>
  Building messages and reading their arguments (the rest of \<open>katcp/parse.c\<close>). A message
  under construction is a \<open>parse\<close> in the state \<open>PARSE_FAKE\<close>: each \<open>add_\<dots>\<close> function
  claims a cell of the argument array, asks for buffer space behind the bytes kept so far,
  copies its bytes there and closes the argument. The theory models every such function and
  every reader, and shows that each of them appends exactly one argument (or none, when
  memory runs out), that nothing is written outside the buffer, and that the readers give
  back what was added. The calls of \<open>abort\<close> under \<open>KATCP_CONSISTENCY_CHECKS\<close> are the
  fault \<open>Abort\<close>.
\<close>

section \<open>Flags and raw writes\<close>

type_synonym flags = "32 word"

definition KATCP_FLAG_FIRST :: flags where "KATCP_FLAG_FIRST = 1"
definition KATCP_FLAG_LAST :: flags where "KATCP_FLAG_LAST = 2"
definition KATCP_FLAG_STRING :: flags where "KATCP_FLAG_STRING = 16"

unbundle bit_operations_syntax

definition has_flag :: "flags \<Rightarrow> flags \<Rightarrow> bool" where
  "has_flag fl f \<longleftrightarrow> fl AND f \<noteq> 0"

lemmas flag_defs = has_flag_def KATCP_FLAG_FIRST_def KATCP_FLAG_LAST_def KATCP_FLAG_STRING_def

text \<open>\<open>memcpy\<close> of \<open>s\<close> to position \<open>i\<close> of the buffer.\<close>

definition blit :: "nat \<Rightarrow> string \<Rightarrow> parse \<Rightarrow> parse res" where
  "blit i s p =
     (if i + length s \<le> length (p_buffer p)
      then Inr (p\<lparr>p_buffer := take i (p_buffer p) @ s @ drop (i + length s) (p_buffer p)\<rparr>)
      else Inl OutOfBounds)"

text \<open>What \<open>snprintf\<close> leaves in a buffer of \<open>n > 0\<close> bytes when the whole text is \<open>s\<close>.\<close>

definition snprintf_bytes :: "nat \<Rightarrow> string \<Rightarrow> string" where
  "snprintf_bytes n s = take (n - 1) s @ [nul]"

section \<open>Opening and closing an argument\<close>

definition before_add_parse_katcl :: "bool \<Rightarrow> flags \<Rightarrow> parse \<Rightarrow> (int \<times> parse) res" where
  "before_add_parse_katcl ok fl p =
     bind_res
       (if has_flag fl KATCP_FLAG_FIRST then
          (if 0 < p_got p then Inl Abort
           else if p_state p \<noteq> PARSE_FRESH then Inl Abort
           else Inr (p\<lparr>p_state := PARSE_FAKE\<rparr>))
        else if p_got p = 0 then Inl Abort else Inr p)
     (\<lambda>p1.
     if p_state p1 \<noteq> PARSE_FAKE then Inl Abort
     else case check_array_parse_katcl ok p1 of (r, p2) \<Rightarrow>
       if r < 0 then Inr (-1, p2)
       else bind_res (on_current (\<lambda>la. la\<lparr>a_begin := p_kept p2, a_end := p_kept p2, a_escape := 0\<rparr>) p2)
              (\<lambda>p3. Inr (0, p3)))"

definition after_add_parse_katcl :: "nat \<Rightarrow> nat \<Rightarrow> flags \<Rightarrow> parse \<Rightarrow> (int \<times> parse) res" where
  "after_add_parse_katcl data escape fl p =
     (if p_size p < p_kept p + data + 1 then Inl Abort
      else let p1 = (if has_flag fl KATCP_FLAG_LAST then p\<lparr>p_state := PARSE_DONE\<rparr> else p) in
       bind_res (on_current (\<lambda>la. la\<lparr>a_end := p_kept p1 + data, a_escape := escape\<rparr>) p1) (\<lambda>p2.
       bind_res (poke (p_kept p2 + data) nul p2) (\<lambda>p3.
       let k = p_kept p3 + (data + 1) in
       Inr (int data + 1, p3\<lparr>p_kept := k, p_have := k, p_used := k, p_got := p_got p3 + 1,
                             p_current := None\<rparr>))))"

definition actual_space_parse_katcl :: "parse \<Rightarrow> nat" where
  "actual_space_parse_katcl p = p_size p - p_kept p"

definition request_space_parse_katcl :: "bool \<Rightarrow> nat \<Rightarrow> parse \<Rightarrow> bool \<times> parse" where
  \<comment> \<open>the flag tells whether the pointer returned is not null\<close>
  "request_space_parse_katcl ok amount p =
     (let need = p_kept p + amount in
      if need \<ge> p_size p then
        (if \<not> ok then (False, p)
         else (True, p\<lparr>p_buffer := grow_buffer (need + 1) (p_buffer p), p_size := need + 1\<rparr>))
      else (True, p))"

definition add_end_parse_katcl :: "parse \<Rightarrow> (int \<times> parse) res" where
  "add_end_parse_katcl p =
     (if p_state p \<noteq> PARSE_FAKE then Inl Abort
      else if p_got p = 0 then Inl Abort
      else Inr (0, p\<lparr>p_state := PARSE_DONE\<rparr>))"

section \<open>The functions that add an argument\<close>

text \<open>The two booleans say whether the allocation of the argument array and that of the
  buffer succeed, if they are tried at all.\<close>

type_synonym memory = "bool \<times> bool"

definition add_unsafe_parse_katcl :: "memory \<Rightarrow> flags \<Rightarrow> string \<Rightarrow> parse \<Rightarrow> (int \<times> parse) res" where
  "add_unsafe_parse_katcl m fl s p =
     bind_res (before_add_parse_katcl (fst m) fl p) (\<lambda>(r, p1).
     if r < 0 then Inr (-1, p1)
     else case request_space_parse_katcl (snd m) (length s + 1) p1 of (ptr, p2) \<Rightarrow>
       if \<not> ptr then Inr (-1, p2)
       else bind_res (blit (p_kept p2) s p2) (\<lambda>p3. after_add_parse_katcl (length s) 0 fl p3))"

definition add_plain_parse_katcl :: "memory \<Rightarrow> flags \<Rightarrow> string \<Rightarrow> parse \<Rightarrow> (int \<times> parse) res" where
  "add_plain_parse_katcl m fl s p = add_unsafe_parse_katcl m fl s p"

definition add_buffer_parse_katcl ::
  "memory \<Rightarrow> flags \<Rightarrow> string option \<Rightarrow> nat \<Rightarrow> parse \<Rightarrow> (int \<times> parse) res" where
  "add_buffer_parse_katcl m fl buffer len p =
     bind_res (before_add_parse_katcl (fst m) fl p) (\<lambda>(r, p1).
     if r < 0 then Inr (-1, p1)
     else case request_space_parse_katcl (snd m) (len + 1) p1 of (dst, p2) \<Rightarrow>
       if \<not> dst then Inr (-1, p2)
       else bind_res
         (if 0 < len then
            (case buffer of
               None \<Rightarrow> Inl Abort
             | Some b \<Rightarrow> if len \<le> length b then blit (p_kept p2) (take len b) p2 else Inl OutOfBounds)
          else Inr p2)
         (\<lambda>p3. after_add_parse_katcl len 1 fl p3))"

definition add_string_parse_katcl ::
  "memory \<Rightarrow> flags \<Rightarrow> string option \<Rightarrow> parse \<Rightarrow> (int \<times> parse) res" where
  "add_string_parse_katcl m fl buffer p =
     (case buffer of
        Some b \<Rightarrow> add_buffer_parse_katcl m fl (Some b) (length b) p
      | None \<Rightarrow> add_buffer_parse_katcl m fl None 0 p)"

definition add_parameter_parse_katcl ::
  "memory \<Rightarrow> parse \<Rightarrow> flags \<Rightarrow> parse \<Rightarrow> nat \<Rightarrow> (int \<times> parse) res" where
  "add_parameter_parse_katcl m pd fl ps index =
     (if index \<ge> p_got ps then Inr (-1, pd)
      else if index \<ge> length (p_args ps) then Inl OutOfBounds
      else let la = p_args ps ! index;
               len = (if a_begin la \<ge> a_end la then 0 else a_end la - a_begin la) in
        bind_res (before_add_parse_katcl (fst m) fl pd) (\<lambda>(r, p1).
        if r < 0 then Inr (-1, p1)
        else case request_space_parse_katcl (snd m) (len + 1) p1 of (dst, p2) \<Rightarrow>
          if \<not> dst then Inr (-1, p2)
          else bind_res
            (if len = 0 then Inr p2
             else if a_begin la + len \<le> length (p_buffer ps)
                  then blit (p_kept p2) (slice (a_begin la) (a_end la) (p_buffer ps)) p2
                  else Inl OutOfBounds)
            (\<lambda>p3. after_add_parse_katcl len 1 fl p3)))"

text \<open>The loop of \<open>add_trailing_parse_katcl\<close> over the positions before the last one, with
  the flags it keeps in \<open>f\<close>; it returns -1 or the position, the sum and the flags.\<close>

fun trailing_loop ::
  "(nat \<Rightarrow> memory) \<Rightarrow> nat \<Rightarrow> parse \<Rightarrow> nat \<Rightarrow> flags \<Rightarrow> int \<Rightarrow> parse
   \<Rightarrow> ((flags \<times> int) option \<times> parse) res" where
  "trailing_loop m 0 ps i f result pd = Inr (Some (f, result), pd)"
| "trailing_loop m (Suc n) ps i f result pd =
     bind_res (add_parameter_parse_katcl (m i) pd (f AND KATCP_FLAG_FIRST) ps i) (\<lambda>(r, pd1).
     if r < 0 then Inr (None, pd1)
     else trailing_loop m n ps (i + 1) 0 (result + r) pd1)"

definition add_trailing_parse_katcl ::
  "(nat \<Rightarrow> memory) \<Rightarrow> parse \<Rightarrow> flags \<Rightarrow> parse \<Rightarrow> nat \<Rightarrow> (int \<times> parse) res" where
  "add_trailing_parse_katcl m pd fl ps start =
     (if p_got ps = 0 then Inr (-1, pd)
      else if start \<ge> p_got ps then Inr (-1, pd)
      else let penulti = p_got ps - 1 in
        bind_res (trailing_loop m (penulti - start) ps start fl 0 pd) (\<lambda>(fr, pd1).
        case fr of
          None \<Rightarrow> Inr (-1, pd1)
        | Some (f, result) \<Rightarrow>
            bind_res (add_parameter_parse_katcl (m penulti) pd1 (f OR (fl AND KATCP_FLAG_LAST)) ps penulti)
              (\<lambda>(r, pd2). if r < 0 then Inr (-1, pd2) else Inr (result + r, pd2))))"

text \<open>The five functions that print a number into the message have one body, but for the
  format of \<open>snprintf\<close>; \<open>s\<close> is the text the format gives.\<close>

definition TMP_BUFFER :: nat where "TMP_BUFFER = 32"

definition add_printed :: "memory \<Rightarrow> flags \<Rightarrow> string \<Rightarrow> parse \<Rightarrow> (int \<times> parse) res" where
  "add_printed m fl s p =
     bind_res (before_add_parse_katcl (fst m) fl p) (\<lambda>(r, p1).
     if r < 0 then Inr (-1, p1)
     else case request_space_parse_katcl (snd m) TMP_BUFFER p1 of (ptr, p2) \<Rightarrow>
       if \<not> ptr then Inr (-1, p2)
       else bind_res (blit (p_kept p2) (snprintf_bytes TMP_BUFFER s) p2) (\<lambda>p3.
         if length s = 0 \<or> length s \<ge> TMP_BUFFER then Inr (-1, p3)
         else after_add_parse_katcl (length s) 0 fl p3))"

definition hex_char :: "nat \<Rightarrow> char" where
  "hex_char d = (if d < 10 then char_of (48 + d) else char_of (87 + d))"

fun hex_of_nat :: "nat \<Rightarrow> string" where
  "hex_of_nat n = (if n < 16 then [hex_char n] else hex_of_nat (n div 16) @ [hex_char (n mod 16)])"

declare hex_of_nat.simps [simp del]

definition add_unsigned_long_parse_katcl :: "memory \<Rightarrow> flags \<Rightarrow> u64 \<Rightarrow> parse \<Rightarrow> (int \<times> parse) res" where
  "add_unsigned_long_parse_katcl m fl v p = add_printed m fl (dec_of_nat (unat v)) p"

definition add_signed_long_parse_katcl :: "memory \<Rightarrow> flags \<Rightarrow> u64 \<Rightarrow> parse \<Rightarrow> (int \<times> parse) res" where
  "add_signed_long_parse_katcl m fl v p = add_printed m fl (dec_of_int (sint v)) p"

definition add_hex_long_parse_katcl :: "memory \<Rightarrow> flags \<Rightarrow> u64 \<Rightarrow> parse \<Rightarrow> (int \<times> parse) res" where
  "add_hex_long_parse_katcl m fl v p = add_printed m fl (''0x'' @ hex_of_nat (unat v)) p"

definition add_unsigned_llong_parse_katcl :: "memory \<Rightarrow> flags \<Rightarrow> u64 \<Rightarrow> parse \<Rightarrow> (int \<times> parse) res" where
  "add_unsigned_llong_parse_katcl m fl v p = add_printed m fl (dec_of_nat (unat v)) p"

definition add_signed_llong_parse_katcl :: "memory \<Rightarrow> flags \<Rightarrow> u64 \<Rightarrow> parse \<Rightarrow> (int \<times> parse) res" where
  "add_signed_llong_parse_katcl m fl v p = add_printed m fl (dec_of_int (sint v)) p"

text \<open>\<open>add_timestamp_parse_katcl\<close> prints seconds and milliseconds into 16 bytes on the
  stack; \<open>major5\<close> is the build time choice \<open>KATCP_PROTOCOL_MAJOR_VERSION >= 5\<close>. The time is
  the one given or that of \<open>gettimeofday\<close>, \<open>None\<close> when this fails. The cell for the
  milliseconds is an \<open>unsigned int\<close>.\<close>

definition TIMESTAMP_BUFFER :: nat where "TIMESTAMP_BUFFER = 16"

definition timestamp_text :: "bool \<Rightarrow> timeval \<Rightarrow> string" where
  "timestamp_text major5 tv =
     dec_of_nat (unat (of_int (tv_sec tv) :: u64)) @ (if major5 then ''.'' else '''') @
     dec_padded 3 (unat (of_int (tv_usec tv sdiv 1000) :: u32))"

definition add_timestamp_parse_katcl ::
  "bool \<Rightarrow> memory \<Rightarrow> timeval option \<Rightarrow> flags \<Rightarrow> timeval option \<Rightarrow> parse \<Rightarrow> (int \<times> parse) res" where
  "add_timestamp_parse_katcl major5 m clock fl tv p =
     (case (case tv of Some t \<Rightarrow> Some t | None \<Rightarrow> clock) of
        None \<Rightarrow> Inr (-1, p)
      | Some t \<Rightarrow> add_unsafe_parse_katcl m (fl OR KATCP_FLAG_STRING)
                   (take (TIMESTAMP_BUFFER - 1) (timestamp_text major5 t)) p)"


text \<open>The loop of \<open>add_vargs_parse_katcl\<close>: the text goes straight into the space at the
  end of the buffer, and a second round gives it the space the first one found missing.
  \<open>s\<close> is the text that the format and its arguments give, \<open>None\<close> when \<open>vsnprintf\<close>
  returns a negative number. \<open>n\<close> counts the rounds left of \<open>TMP_LIMIT - 1\<close>; running out of
  them is the \<open>abort\<close> of the sanity check behind the loop.\<close>

definition VARGS_BUFFER :: nat where "VARGS_BUFFER = 8"
definition TMP_LIMIT :: nat where "TMP_LIMIT = 10"

fun add_vargs_rounds ::
  "(nat \<Rightarrow> bool) \<Rightarrow> flags \<Rightarrow> string option \<Rightarrow> nat \<Rightarrow> nat \<Rightarrow> parse \<Rightarrow> (int \<times> parse) res" where
  "add_vargs_rounds mem fl s 0 got p = Inl Abort"
| "add_vargs_rounds mem fl s (Suc n) got p =
     (case request_space_parse_katcl (mem n) got p of (ptr, p1) \<Rightarrow>
       if \<not> ptr then Inr (-1, p1)
       else let got1 = actual_space_parse_katcl p1 in
         case s of
           None \<Rightarrow> add_vargs_rounds mem fl s n (got1 * 2) p1
         | Some t \<Rightarrow>
             bind_res (if got1 = 0 then Inr p1 else blit (p_kept p1) (snprintf_bytes got1 t) p1) (\<lambda>p2.
             if length t < got1 then after_add_parse_katcl (length t) 1 fl p2
             else add_vargs_rounds mem fl s n (length t + 1) p2))"

definition add_vargs_parse_katcl ::
  "bool \<Rightarrow> (nat \<Rightarrow> bool) \<Rightarrow> flags \<Rightarrow> string option \<Rightarrow> parse \<Rightarrow> (int \<times> parse) res" where
  "add_vargs_parse_katcl ok mem fl s p =
     bind_res (before_add_parse_katcl ok fl p) (\<lambda>(r, p1).
     if r < 0 then Inr (-1, p1)
     else add_vargs_rounds mem fl s (TMP_LIMIT - 1) VARGS_BUFFER p1)"

definition add_args_parse_katcl ::
  "bool \<Rightarrow> (nat \<Rightarrow> bool) \<Rightarrow> flags \<Rightarrow> string option \<Rightarrow> parse \<Rightarrow> (int \<times> parse) res" where
  "add_args_parse_katcl ok mem fl s p = add_vargs_parse_katcl ok mem fl s p"

section \<open>The functions that read a message\<close>

text \<open>Reading one byte, and the C string that begins at a position.\<close>

definition peek :: "nat \<Rightarrow> parse \<Rightarrow> char res" where
  "peek i p = (if i < length (p_buffer p) then Inr (p_buffer p ! i) else Inl OutOfBounds)"

definition cstr :: "string \<Rightarrow> string" where
  "cstr s = takeWhile (\<lambda>c. c \<noteq> nul) s"

definition cstr_at :: "nat \<Rightarrow> parse \<Rightarrow> string res" where
  "cstr_at i p =
     (if nul \<in> set (drop i (p_buffer p)) then Inr (cstr (drop i (p_buffer p))) else Inl OutOfBounds)"

definition larg_at :: "nat \<Rightarrow> parse \<Rightarrow> larg res" where
  "larg_at i p = (if i < length (p_args p) then Inr (p_args p ! i) else Inl OutOfBounds)"

definition get_count_parse_katcl :: "parse \<Rightarrow> nat" where
  "get_count_parse_katcl p = p_got p"

definition get_tag_parse_katcl :: "parse \<Rightarrow> int" where
  "get_tag_parse_katcl p = p_tag p"

definition is_type_parse_katcl :: "parse \<Rightarrow> char \<Rightarrow> bool res" where
  "is_type_parse_katcl p type =
     (if p_got p = 0 then Inr False
      else bind_res (larg_at 0 p) (\<lambda>la. bind_res (peek (a_begin la) p) (\<lambda>c. Inr (c = type))))"

definition KATCP_REQUEST :: char where "KATCP_REQUEST = CHR ''?''"
definition KATCP_REPLY :: char where "KATCP_REPLY = CHR ''!''"
definition KATCP_INFORM :: char where "KATCP_INFORM = CHR ''#''"

definition is_request_parse_katcl :: "parse \<Rightarrow> bool res" where
  "is_request_parse_katcl p = is_type_parse_katcl p KATCP_REQUEST"

definition is_reply_parse_katcl :: "parse \<Rightarrow> bool res" where
  "is_reply_parse_katcl p = is_type_parse_katcl p KATCP_REPLY"

definition is_inform_parse_katcl :: "parse \<Rightarrow> bool res" where
  "is_inform_parse_katcl p = is_type_parse_katcl p KATCP_INFORM"

definition is_null_parse_katcl :: "parse \<Rightarrow> nat \<Rightarrow> bool res" where
  "is_null_parse_katcl p index =
     (if index \<ge> p_got p then Inr True
      else bind_res (larg_at index p) (\<lambda>la. Inr (a_begin la \<ge> a_end la)))"

definition get_string_parse_katcl :: "parse \<Rightarrow> nat \<Rightarrow> string option res" where
  \<comment> \<open>the pointer returned is the C string it points to\<close>
  "get_string_parse_katcl p index =
     (if index \<ge> p_got p then Inr None
      else bind_res (larg_at index p) (\<lambda>la.
        if a_begin la \<ge> a_end la then Inr None
        else bind_res (cstr_at (a_begin la) p) (\<lambda>s. Inr (Some s))))"

definition copy_string_parse_katcl :: "bool \<Rightarrow> parse \<Rightarrow> nat \<Rightarrow> string option res" where
  "copy_string_parse_katcl ok p index =
     bind_res (get_string_parse_katcl p index) (\<lambda>ptr.
     case ptr of Some s \<Rightarrow> Inr (if ok then Some s else None) | None \<Rightarrow> Inr None)"

definition KATCP_OK :: string where "KATCP_OK = ''ok''"
definition KATCP_FAIL :: string where "KATCP_FAIL = ''fail''"

definition is_reply_ok_parse_katcl :: "parse \<Rightarrow> int res" where
  "is_reply_ok_parse_katcl p =
     bind_res (is_type_parse_katcl p KATCP_REPLY) (\<lambda>t.
     if t then
       bind_res (get_string_parse_katcl p 1) (\<lambda>str.
       case str of
         Some s \<Rightarrow> Inr (if strcmp s KATCP_OK = 0 then 1 else 0)
       | None \<Rightarrow> Inr (-1))
     else Inr (-1))"

definition get_unsigned_long_parse_katcl :: "parse \<Rightarrow> nat \<Rightarrow> u64 res" where
  "get_unsigned_long_parse_katcl p index =
     (if index \<ge> p_got p then Inr 0
      else bind_res (larg_at index p) (\<lambda>la.
        bind_res (cstr_at (a_begin la) p) (\<lambda>s. Inr (fst (strtoul 0 s)))))"

definition get_signed_long_parse_katcl :: "parse \<Rightarrow> nat \<Rightarrow> int res" where
  "get_signed_long_parse_katcl p index =
     (if index \<ge> p_got p then Inr 0
      else bind_res (larg_at index p) (\<lambda>la.
        bind_res (cstr_at (a_begin la) p) (\<lambda>s. Inr (fst (strtol 0 s)))))"

definition get_bb_parse_katcl :: "parse \<Rightarrow> nat \<Rightarrow> byte_bit option \<Rightarrow> (int \<times> byte_bit option) res" where
  "get_bb_parse_katcl p index b =
     (case b of
        None \<Rightarrow> Inr (-1, None)
      | Some bb \<Rightarrow>
        bind_res (get_string_parse_katcl p index) (\<lambda>str.
        case str of
          None \<Rightarrow> Inr (-1, b)
        | Some string \<Rightarrow>
           let is_colon = (\<lambda>s. case s of c # _ \<Rightarrow> c = CHR '':'' | [] \<Rightarrow> False);
               (byte, string1) =
                 (if \<not> is_colon string then
                    (let (v, n) = strtoul 0 string; end = drop n string
                     in (v, if is_colon end then end else string))
                  else (0, string));
               bit = (if is_colon string1 then fst (strtoul 0 (tl string1)) else 0)
           in bind_res (make_bb_katcl bb byte bit) (\<lambda>(r, bb1). Inr (r, Some bb1))))"

definition get_buffer_parse_katcl :: "parse \<Rightarrow> nat \<Rightarrow> nat \<Rightarrow> (nat \<times> string) res" where
  \<comment> \<open>the value returned and the bytes copied to the caller's buffer of \<open>room\<close> bytes\<close>
  "get_buffer_parse_katcl p index room =
     (if index \<ge> p_got p then Inr (0, [])
      else bind_res (larg_at index p) (\<lambda>la.
        let got = a_end la - a_begin la; copied = (if got > room then room else got) in
        if a_begin la + copied \<le> length (p_buffer p)
        then Inr (got, take copied (drop (a_begin la) (p_buffer p)))
        else Inl OutOfBounds))"


section \<open>Every add appends one argument\<close>

definition parse_escapes :: "parse \<Rightarrow> nat list" where
  "parse_escapes p = map (\<lambda>i. a_escape (p_args p ! i)) [0..<p_got p]"

text \<open>When an add is allowed, and what it has to achieve.\<close>

definition can_add :: "flags \<Rightarrow> parse \<Rightarrow> bool" where
  "can_add fl p \<longleftrightarrow> parse_inv p \<and>
     (if has_flag fl KATCP_FLAG_FIRST then p_got p = 0 \<and> p_state p = PARSE_FRESH
      else 0 < p_got p \<and> p_state p = PARSE_FAKE)"

definition added :: "flags \<Rightarrow> string \<Rightarrow> nat \<Rightarrow> parse \<Rightarrow> parse \<Rightarrow> bool" where
  "added fl s esc p p' \<longleftrightarrow> parse_inv p' \<and> parse_args p' = parse_args p @ [s] \<and>
     parse_escapes p' = parse_escapes p @ [esc] \<and> p_got p' = Suc (p_got p) \<and>
     p_state p' = (if has_flag fl KATCP_FLAG_LAST then PARSE_DONE else PARSE_FAKE) \<and>
     p_refs p' = p_refs p \<and> p_tag p' = p_tag p \<and> p_have p' = p_used p'"

definition untouched :: "parse \<Rightarrow> parse \<Rightarrow> bool" where
  "untouched p p' \<longleftrightarrow> parse_inv p' \<and> parse_args p' = parse_args p \<and>
     parse_escapes p' = parse_escapes p \<and> p_got p' = p_got p \<and> p_refs p' = p_refs p \<and> p_tag p' = p_tag p"

definition add_ok :: "bool \<Rightarrow> flags \<Rightarrow> string \<Rightarrow> nat \<Rightarrow> parse \<Rightarrow> (int \<times> parse) res \<Rightarrow> bool" where
  "add_ok memory fl s esc p r =
     (case r of
        Inl _ \<Rightarrow> False
      | Inr (v, p') \<Rightarrow>
          v = int (length s) + 1 \<and> added fl s esc p p' \<or> \<not> memory \<and> v = -1 \<and> untouched p p')"

text \<open>Between \<open>before_add\<close> and \<open>after_add\<close>.\<close>

definition open_arg :: "parse \<Rightarrow> bool" where
  "open_arg p \<longleftrightarrow> parse_inv p \<and> p_state p = PARSE_FAKE \<and> p_current p = Some (p_got p) \<and>
     p_got p < p_count p \<and> a_begin (p_args p ! p_got p) = p_kept p"

lemma untouched_refl: "parse_inv p \<Longrightarrow> untouched p p"
  by (simp add: untouched_def)

lemma untouched_trans: "untouched p q \<Longrightarrow> untouched q r \<Longrightarrow> untouched p r"
  by (simp add: untouched_def)

lemma untouched_added: "untouched p q \<Longrightarrow> added fl s e q r \<Longrightarrow> added fl s e p r"
  by (simp add: untouched_def added_def)

lemma check_array_untouched:
  assumes "parse_inv p" "check_array_parse_katcl ok p = (r, q)"
  shows "untouched p q"
proof -
  have n: "p_got p \<le> length (p_args p)" using assms(1) by (simp add: parse_inv_def)
  then have "parse_args q = parse_args p" "parse_escapes q = parse_escapes p"
    using assms(2) by (auto simp: check_array_parse_katcl_def parse_args_def arg_text_def
        parse_escapes_def nth_append split: if_splits)
  moreover have "parse_inv q"
    using assms by (auto simp: check_array_parse_katcl_def parse_inv_def nth_append KATCL_ARGS_INC_def
        split: if_splits)
  ultimately show ?thesis
    using assms(2) by (auto simp: check_array_parse_katcl_def untouched_def split: if_splits)
qed

lemma claim_cell:
  assumes "parse_inv p" "\<not> in_token (p_state p)"
  shows "parse_inv (p\<lparr>p_args := (p_args p)[p_got p := la]\<rparr>)"
    and "untouched p (p\<lparr>p_args := (p_args p)[p_got p := la]\<rparr>)"
proof -
  have cell: "(p_args p)[p_got p := la] ! i = p_args p ! i" if "i < p_got p" for i
    using that by simp
  show inv: "parse_inv (p\<lparr>p_args := (p_args p)[p_got p := la]\<rparr>)"
    using assms cell by (simp add: parse_inv_def)
  show "untouched p (p\<lparr>p_args := (p_args p)[p_got p := la]\<rparr>)"
    using inv cell by (simp add: untouched_def parse_args_def arg_text_def parse_escapes_def)
qed

lemma before_add_open:
  assumes "can_add fl p"
  shows "(\<exists>q. before_add_parse_katcl ok fl p = Inr (0, q) \<and> open_arg q \<and> untouched p q) \<or>
    (\<not> ok \<and> (\<exists>q. before_add_parse_katcl ok fl p = Inr (-1, q) \<and> untouched p q))"
proof -
  define p1 where "p1 = (if has_flag fl KATCP_FLAG_FIRST then p\<lparr>p_state := PARSE_FAKE\<rparr> else p)"
  have p1: "parse_inv p1" "p_state p1 = PARSE_FAKE" "untouched p p1"
    using assms by (auto simp: can_add_def p1_def parse_inv_def untouched_def parse_args_def arg_text_def
        parse_escapes_def split: if_splits)
  obtain r p2 where c: "check_array_parse_katcl ok p1 = (r, p2)" by fastforce
  have b: "before_add_parse_katcl ok fl p =
      (if r < 0 then Inr (-1, p2)
       else bind_res (on_current (\<lambda>la. la\<lparr>a_begin := p_kept p2, a_end := p_kept p2, a_escape := 0\<rparr>) p2)
              (\<lambda>p3. Inr (0, p3)))"
    using assms c p1(2) by (auto simp: before_add_parse_katcl_def can_add_def p1_def split: if_splits)
  from check_array_inv [OF p1(1) c] p1(2)
  consider "r = 0" "same_bytes p1 p2" "p_current p2 = Some (p_got p2)" "p_got p2 < p_count p2"
      "parse_inv p2" "tok_of p2 = tok_of p1"
    | "\<not> ok" "r = -1" "p2 = p1" by auto
  then show ?thesis
  proof cases
    case 1
    let ?q = "p2\<lparr>p_args := (p_args p2)[p_got p2 := (p_args p2 ! p_got p2)
      \<lparr>a_begin := p_kept p2, a_end := p_kept p2, a_escape := 0\<rparr>]\<rparr>"
    have len: "p_got p2 < length (p_args p2)" using 1(4,5) by (simp add: parse_inv_def)
    have st: "p_state p2 = PARSE_FAKE" using 1(2) p1(2) by (simp add: same_bytes_def)
    have "before_add_parse_katcl ok fl p = Inr (0, ?q)"
      using b 1(1,3) len by (simp add: on_current_def)
    moreover have "open_arg ?q"
      using claim_cell [OF 1(5), of "(p_args p2 ! p_got p2)
        \<lparr>a_begin := p_kept p2, a_end := p_kept p2, a_escape := 0\<rparr>"] 1(3,4) len st
      by (simp add: open_arg_def)
    moreover have "untouched p1 p2"
      using p1(1) c by (rule check_array_untouched)
    moreover have "untouched p2 ?q"
      using claim_cell [OF 1(5)] st by simp
    ultimately have "untouched p ?q" "before_add_parse_katcl ok fl p = Inr (0, ?q)" "open_arg ?q"
      using p1(3) untouched_trans by blast+
    then show ?thesis by blast
  next
    case 2
    then show ?thesis using b p1(3) by auto
  qed
qed

text \<open>A view of the buffer that forgets everything from \<open>p_kept\<close> on.\<close>

lemma slice_take_cong:
  assumes "take k xs = take k ys" "e \<le> k"
  shows "slice b e xs = slice b e ys"
proof -
  have "take e xs = take e (take k xs)" "take e ys = take e (take k ys)"
    using assms(2) by (simp_all add: min_absorb1)
  with assms(1) show ?thesis by (simp add: slice_def drop_take [symmetric])
qed

lemma open_buffer_change:
  assumes "open_arg p" "length b = n" "p_have p \<le> n"
    "take (p_kept p) b = take (p_kept p) (p_buffer p)"
  shows "open_arg (p\<lparr>p_buffer := b, p_size := n\<rparr>) \<and> untouched p (p\<lparr>p_buffer := b, p_size := n\<rparr>)"
proof -
  have pre: "b ! i = p_buffer p ! i" if "i < p_kept p" for i
    using assms(4) that by (metis nth_take)
  have sl: "slice x y b = slice x y (p_buffer p)" if "y \<le> p_kept p" for x y
    using assms(4) that by (rule slice_take_cong)
  show ?thesis
    using assms pre sl
    by (auto simp: open_arg_def untouched_def parse_inv_def parse_args_def arg_text_def parse_escapes_def
        less_imp_le)
qed

lemma request_space_open:
  assumes "open_arg p" "request_space_parse_katcl ok n p = (ptr, q)"
  shows "ptr \<and> open_arg q \<and> untouched p q \<and> p_kept q + n < length (p_buffer q) \<and> p_kept q = p_kept p
    \<or> \<not> ok \<and> \<not> ptr \<and> q = p"
proof (cases "p_kept p + n \<ge> p_size p \<and> ok")
  case True
  let ?n = "p_kept p + n + 1"
  have l: "length (p_buffer p) = p_size p" "p_kept p \<le> p_size p" "p_have p \<le> p_size p"
    using assms(1) by (auto simp: open_arg_def parse_inv_def)
  have "open_arg (p\<lparr>p_buffer := grow_buffer ?n (p_buffer p), p_size := ?n\<rparr>) \<and>
      untouched p (p\<lparr>p_buffer := grow_buffer ?n (p_buffer p), p_size := ?n\<rparr>)"
    using l True by (intro open_buffer_change [OF assms(1)]) (auto simp: grow_buffer_def)
  then show ?thesis
    using assms(2) True l by (auto simp: request_space_parse_katcl_def Let_def grow_buffer_def)
next
  case False
  then show ?thesis
    using assms untouched_refl [of p]
    by (auto simp: request_space_parse_katcl_def Let_def open_arg_def parse_inv_def split: if_splits)
qed


text \<open>Writing behind the kept bytes, and closing the argument.\<close>

lemma blit_open:
  assumes "open_arg p" "p_kept p + length s \<le> length (p_buffer p)"
  shows "\<exists>q. blit (p_kept p) s p = Inr q \<and> open_arg q \<and> untouched p q \<and> p_kept q = p_kept p \<and>
    length (p_buffer q) = length (p_buffer p) \<and> slice (p_kept p) (p_kept p + length s) (p_buffer q) = s"
proof -
  let ?b = "take (p_kept p) (p_buffer p) @ s @ drop (p_kept p + length s) (p_buffer p)"
  have l: "length ?b = p_size p" "p_have p \<le> p_size p"
    using assms by (auto simp: open_arg_def parse_inv_def)
  have "open_arg (p\<lparr>p_buffer := ?b, p_size := p_size p\<rparr>) \<and>
      untouched p (p\<lparr>p_buffer := ?b, p_size := p_size p\<rparr>)"
    using assms l by (intro open_buffer_change [OF assms(1)]) auto
  moreover have "p\<lparr>p_buffer := ?b, p_size := p_size p\<rparr> = p\<lparr>p_buffer := ?b\<rparr>" by simp
  ultimately show ?thesis using assms by (simp add: blit_def slice_def)
qed

lemma after_add_open:
  assumes "open_arg p" "p_kept p + length s < length (p_buffer p)"
    "slice (p_kept p) (p_kept p + length s) (p_buffer p) = s"
  shows "\<exists>q. after_add_parse_katcl (length s) e fl p = Inr (int (length s) + 1, q) \<and> added fl s e p q"
proof -
  let ?i = "p_got p" and ?k = "p_kept p + length s"
  let ?q = "p\<lparr>p_state := (if has_flag fl KATCP_FLAG_LAST then PARSE_DONE else PARSE_FAKE),
    p_args := (p_args p)[?i := (p_args p ! ?i)\<lparr>a_end := ?k, a_escape := e\<rparr>],
    p_buffer := (p_buffer p)[?k := nul], p_kept := ?k + 1, p_have := ?k + 1, p_used := ?k + 1,
    p_got := ?i + 1, p_current := None\<rparr>"
  have inv: "parse_inv p" "p_state p = PARSE_FAKE" "p_current p = Some ?i" "?i < length (p_args p)"
    "a_begin (p_args p ! ?i) = p_kept p" "length (p_buffer p) = p_size p"
    using assms(1) by (auto simp: open_arg_def parse_inv_def)
  have "after_add_parse_katcl (length s) e fl p = Inr (int (length s) + 1, ?q)"
    using inv assms(2) by (simp add: after_add_parse_katcl_def on_current_def poke_def Let_def)
  moreover have "parse_inv ?q"
    using inv assms(2) by (auto simp: parse_inv_def nth_list_update less_Suc_eq)
  moreover have "arg_text ?q j = arg_text p j" if "j < ?i" for j
    using inv(1) that by (auto simp: arg_text_def parse_inv_def)
  then have "parse_args ?q = parse_args p @ [s]"
    using inv assms by (simp add: parse_args_def arg_text_def)
  moreover have "parse_escapes ?q = parse_escapes p @ [e]"
    using inv(4) by (simp add: parse_escapes_def)
  ultimately show ?thesis by (auto simp: added_def)
qed

text \<open>All the functions have this shape: open, make room, write \<open>w\<close>, close over the \<open>s\<close>
  that \<open>w\<close> begins with.\<close>

lemma write_and_close:
  assumes "open_arg p" "p_kept p + length w \<le> length (p_buffer p)"
    "p_kept p + length s < length (p_buffer p)" "take (length s) w = s"
  shows "\<exists>q r. blit (p_kept p) w p = Inr q \<and>
    after_add_parse_katcl (length s) e fl q = Inr (int (length s) + 1, r) \<and> added fl s e p r"
proof -
  obtain q where q: "blit (p_kept p) w p = Inr q" "open_arg q" "untouched p q" "p_kept q = p_kept p"
    "length (p_buffer q) = length (p_buffer p)"
    "slice (p_kept p) (p_kept p + length w) (p_buffer q) = w"
    using blit_open [OF assms(1,2)] by auto
  have "length s \<le> length w" using assms(4) by (metis length_take min.cobounded2 min.commute)
  then have "slice (p_kept p) (p_kept p + length s) (p_buffer q) = take (length s) w"
    using q(6) by (metis add_diff_cancel_left' min.absorb1 slice_def take_take)
  then obtain r where "after_add_parse_katcl (length s) e fl q = Inr (int (length s) + 1, r)"
      "added fl s e q r"
    using after_add_open [OF q(2), of s e fl] q assms by auto
  then show ?thesis using q(1,3) untouched_added by blast
qed

lemma add_ok_intro:
  assumes c: "can_add fl p"
    and room: "length s \<le> n" "length w \<le> n + 1" "take (length s) w = s"
    and cont: "\<And>q. open_arg q \<Longrightarrow> f q = bind_res (blit (p_kept q) w q) (after_add_parse_katcl (length s) e fl)"
  shows "add_ok (fst m \<and> snd m) fl s e p
    (bind_res (before_add_parse_katcl (fst m) fl p) (\<lambda>(r, p1).
       if r < 0 then Inr (-1, p1)
       else case request_space_parse_katcl (snd m) n p1 of (ptr, p2) \<Rightarrow>
         if \<not> ptr then Inr (-1, p2) else f p2))"
  using before_add_open [OF c, of "fst m"]
proof (elim disjE exE conjE)
  fix q assume b: "before_add_parse_katcl (fst m) fl p = Inr (0, q)" "open_arg q" "untouched p q"
  obtain ptr q2 where r: "request_space_parse_katcl (snd m) n q = (ptr, q2)" by fastforce
  from request_space_open [OF b(2) r] show ?thesis
  proof (elim disjE conjE)
    assume a: ptr "open_arg q2" "untouched q q2" "p_kept q2 + n < length (p_buffer q2)"
    obtain q3 t where "blit (p_kept q2) w q2 = Inr q3"
        "after_add_parse_katcl (length s) e fl q3 = Inr (int (length s) + 1, t)" "added fl s e q2 t"
      using write_and_close [OF a(2), of w s e fl] a room by auto
    then show ?thesis
      using b r a cont [OF a(2)] by (auto simp: add_ok_def dest: untouched_trans untouched_added)
  next
    assume "\<not> snd m" "\<not> ptr" "q2 = q"
    then show ?thesis using b r by (simp add: add_ok_def)
  qed
next
  fix q assume "\<not> fst m" "before_add_parse_katcl (fst m) fl p = Inr (-1, q)" "untouched p q"
  then show ?thesis by (simp add: add_ok_def)
qed


section \<open>The functions, one by one\<close>

lemma open_kept: "open_arg p \<Longrightarrow> p_kept p \<le> length (p_buffer p)"
  by (simp add: open_arg_def parse_inv_def)

lemma blit_Nil: "open_arg p \<Longrightarrow> blit (p_kept p) [] p = Inr p"
  using open_kept [of p] by (simp add: blit_def)

lemma add_unsafe_ok:
  "can_add fl p \<Longrightarrow> add_ok (fst m \<and> snd m) fl s 0 p (add_unsafe_parse_katcl m fl s p)"
  unfolding add_unsafe_parse_katcl_def by (intro add_ok_intro [where w = s]) auto

lemma add_buffer_ok:
  assumes "can_add fl p" "len \<le> length b"
  shows "add_ok (fst m \<and> snd m) fl (take len b) 1 p (add_buffer_parse_katcl m fl (Some b) len p)"
  using assms(2) unfolding add_buffer_parse_katcl_def
  by (intro add_ok_intro [OF assms(1), where w = "take len b"]) (auto simp: blit_Nil min_absorb2)

lemma add_buffer_null_ok:
  "can_add fl p \<Longrightarrow> add_ok (fst m \<and> snd m) fl [] 1 p (add_buffer_parse_katcl m fl None 0 p)"
  unfolding add_buffer_parse_katcl_def by (intro add_ok_intro [where w = "[]"]) (auto simp: blit_Nil)

lemma add_string_ok:
  "can_add fl p \<Longrightarrow> add_ok (fst m \<and> snd m) fl (case s of None \<Rightarrow> [] | Some b \<Rightarrow> b) 1 p
     (add_string_parse_katcl m fl s p)"
  using add_buffer_ok [of fl p "length (the s)" "the s" m] add_buffer_null_ok [of fl p m]
  by (cases s) (simp_all add: add_string_parse_katcl_def)

lemma add_printed_ok:
  assumes "can_add fl p" "0 < length s" "length s < TMP_BUFFER"
  shows "add_ok (fst m \<and> snd m) fl s 0 p (add_printed m fl s p)"
  using assms(2,3) unfolding add_printed_def
  by (intro add_ok_intro [OF assms(1), where w = "snprintf_bytes TMP_BUFFER s"])
    (auto simp: snprintf_bytes_def TMP_BUFFER_def)

lemma parse_inv_arg:
  assumes "parse_inv p" "i < p_got p"
  shows "i < length (p_args p)" "a_begin (p_args p ! i) \<le> a_end (p_args p ! i)"
    "a_end (p_args p ! i) < length (p_buffer p)" "p_buffer p ! a_end (p_args p ! i) = nul"
  using assms by (auto simp: parse_inv_def intro: less_le_trans)

lemma parse_args_nth [simp]: "i < p_got p \<Longrightarrow> parse_args p ! i = arg_text p i"
  by (simp add: parse_args_def)

lemma length_parse_args [simp]: "length (parse_args p) = p_got p"
  by (simp add: parse_args_def)

lemma length_slice [simp]: "e \<le> length xs \<Longrightarrow> length (slice b e xs) = e - b"
  by (simp add: slice_def)

lemma add_parameter_ok:
  assumes "can_add fl pd" "parse_inv ps" "i < p_got ps"
  shows "add_ok (fst m \<and> snd m) fl (parse_args ps ! i) 1 pd (add_parameter_parse_katcl m pd fl ps i)"
proof -
  let ?la = "p_args ps ! i"
  note a = parse_inv_arg [OF assms(2,3)]
  have e: "(if a_begin ?la \<ge> a_end ?la then 0 else a_end ?la - a_begin ?la) = length (arg_text ps i)"
    using a by (simp add: arg_text_def)
  have n: "\<not> i \<ge> p_got ps" "\<not> i \<ge> length (p_args ps)" using a(1) assms(3) by auto
  have "add_ok (fst m \<and> snd m) fl (arg_text ps i) 1 pd (add_parameter_parse_katcl m pd fl ps i)"
    unfolding add_parameter_parse_katcl_def Let_def e if_not_P [OF n(1)] if_not_P [OF n(2)]
    using a by (intro add_ok_intro [OF assms(1), where w = "arg_text ps i"])
      (auto simp: blit_Nil arg_text_def)
  then show ?thesis using assms(3) by simp
qed

text \<open>\<open>vsnprintf\<close> into the space at the end: two rounds are enough for any text, as the
  first one finds out how much is missing.\<close>

lemma vargs_round:
  assumes "open_arg p"
  shows "add_vargs_rounds mem fl (Some t) (Suc n) got p =
    (case request_space_parse_katcl (mem n) got p of (ptr, p1) \<Rightarrow>
       if \<not> ptr then Inr (-1, p1)
       else bind_res (blit (p_kept p1) (snprintf_bytes (actual_space_parse_katcl p1) t) p1) (\<lambda>p2.
         if length t < actual_space_parse_katcl p1 then after_add_parse_katcl (length t) 1 fl p2
         else add_vargs_rounds mem fl (Some t) n (length t + 1) p2))"
proof -
  have "0 < actual_space_parse_katcl p1" if "request_space_parse_katcl (mem n) got p = (True, p1)" for p1
    using request_space_open [OF assms that] by (auto simp: open_arg_def parse_inv_def actual_space_parse_katcl_def)
  then show ?thesis by (auto simp: Let_def split: prod.splits)
qed

lemma vargs_fits:
  assumes "open_arg p" "length t \<le> got"
  shows "add_ok (mem n) fl t 1 p (add_vargs_rounds mem fl (Some t) (Suc n) got p)"
proof -
  obtain ptr q where r: "request_space_parse_katcl (mem n) got p = (ptr, q)" by fastforce
  from request_space_open [OF assms(1) r] show ?thesis
  proof (elim disjE conjE)
    assume a: ptr "open_arg q" "untouched p q" "p_kept q + got < length (p_buffer q)"
    then have sp: "got < actual_space_parse_katcl q" "actual_space_parse_katcl q = length (p_buffer q) - p_kept q"
      by (auto simp: actual_space_parse_katcl_def open_arg_def parse_inv_def)
    obtain u v where "blit (p_kept q) (snprintf_bytes (actual_space_parse_katcl q) t) q = Inr u"
        "after_add_parse_katcl (length t) 1 fl u = Inr (int (length t) + 1, v)" "added fl t 1 q v"
      using write_and_close [OF a(2), of "snprintf_bytes (actual_space_parse_katcl q) t" t 1 fl] a assms(2) sp
      by (auto simp: snprintf_bytes_def)
    then show ?thesis
      using r a sp assms by (auto simp: vargs_round add_ok_def dest: untouched_added)
  next
    assume "\<not> mem n" "\<not> ptr" "q = p"
    then show ?thesis
      using r assms by (auto simp: vargs_round add_ok_def open_arg_def untouched_def)
  qed
qed


lemma add_ok_mono: "add_ok m fl s e p r \<Longrightarrow> (m' \<longrightarrow> m) \<Longrightarrow> add_ok m' fl s e p r"
  by (auto simp: add_ok_def split: sum.splits)

lemma add_ok_untouched: "add_ok m fl s e q r \<Longrightarrow> untouched p q \<Longrightarrow> add_ok m fl s e p r"
  by (auto simp: add_ok_def split: sum.splits dest: untouched_trans untouched_added)

lemma vargs_two_rounds:
  assumes "open_arg p"
  shows "add_ok (mem (Suc n) \<and> mem n) fl t 1 p (add_vargs_rounds mem fl (Some t) (Suc (Suc n)) got p)"
proof (cases "length t \<le> got")
  case True
  from vargs_fits [OF assms this] show ?thesis by (rule add_ok_mono) simp
next
  case False
  obtain ptr q where r: "request_space_parse_katcl (mem (Suc n)) got p = (ptr, q)" by fastforce
  from request_space_open [OF assms(1) r] show ?thesis
  proof (elim disjE conjE)
    assume a: ptr "open_arg q" "untouched p q" "p_kept q + got < length (p_buffer q)"
    let ?sp = "actual_space_parse_katcl q"
    have sp: "?sp = length (p_buffer q) - p_kept q"
      using a by (auto simp: actual_space_parse_katcl_def open_arg_def parse_inv_def)
    show ?thesis
    proof (cases "length t < ?sp")
      case True
      obtain u v where "blit (p_kept q) (snprintf_bytes ?sp t) q = Inr u"
          "after_add_parse_katcl (length t) 1 fl u = Inr (int (length t) + 1, v)" "added fl t 1 q v"
        using write_and_close [OF a(2), of "snprintf_bytes ?sp t" t 1 fl] a sp True
        by (auto simp: snprintf_bytes_def less_diff_conv add.commute)
      then show ?thesis
        using r a True by (auto simp: vargs_round [OF assms] add_ok_def dest: untouched_added)
    next
      case False
      have lw: "length (snprintf_bytes ?sp t) = ?sp"
        using False a sp by (simp add: snprintf_bytes_def)
      obtain u where u: "blit (p_kept q) (snprintf_bytes ?sp t) q = Inr u" "open_arg u" "untouched q u"
        using blit_open [OF a(2), of "snprintf_bytes ?sp t"] a sp lw by auto
      have "add_vargs_rounds mem fl (Some t) (Suc (Suc n)) got p =
          add_vargs_rounds mem fl (Some t) (Suc n) (length t + 1) u"
        using r a u False by (simp only: vargs_round [OF assms]) simp
      moreover have "add_ok (mem n) fl t 1 u (add_vargs_rounds mem fl (Some t) (Suc n) (length t + 1) u)"
        using u(2) by (rule vargs_fits) simp
      ultimately show ?thesis
        using add_ok_untouched [OF add_ok_mono] untouched_trans [OF a(3) u(3)] by (metis (no_types))
    qed
  next
    assume "\<not> mem (Suc n)" "\<not> ptr" "q = p"
    then show ?thesis
      using r assms by (auto simp: vargs_round add_ok_def open_arg_def untouched_def)
  qed
qed

lemma add_vargs_ok:
  assumes "can_add fl p"
  shows "add_ok (ok \<and> mem 8 \<and> mem 7) fl t 1 p (add_vargs_parse_katcl ok mem fl (Some t) p)"
  using before_add_open [OF assms, of ok]
proof (elim disjE exE conjE)
  fix q assume b: "before_add_parse_katcl ok fl p = Inr (0, q)" "open_arg q" "untouched p q"
  have "TMP_LIMIT - 1 = Suc (Suc 7)" by (simp add: TMP_LIMIT_def)
  with b vargs_two_rounds [OF b(2), of mem 7 fl t VARGS_BUFFER]
  have "add_ok (mem 8 \<and> mem 7) fl t 1 p (add_vargs_parse_katcl ok mem fl (Some t) p)"
    by (auto simp: add_vargs_parse_katcl_def simp del: add_vargs_rounds.simps intro: add_ok_untouched)
  then show ?thesis by (rule add_ok_mono) simp
next
  fix q assume "\<not> ok" "before_add_parse_katcl ok fl p = Inr (-1, q)" "untouched p q"
  then show ?thesis by (simp add: add_vargs_parse_katcl_def add_ok_def)
qed

text \<open>The extra flag of the timestamps changes nothing.\<close>

lemma string_flag [simp]:
  "has_flag (fl OR KATCP_FLAG_STRING) KATCP_FLAG_FIRST = has_flag fl KATCP_FLAG_FIRST"
  "has_flag (fl OR KATCP_FLAG_STRING) KATCP_FLAG_LAST = has_flag fl KATCP_FLAG_LAST"
  by (simp_all add: flag_defs bit.conj_disj_distrib2)

lemma string_flag_ok [simp]: "add_ok m (fl OR KATCP_FLAG_STRING) s e p r = add_ok m fl s e p r"
  by (simp only: add_ok_def added_def string_flag)

lemma add_timestamp_ok:
  assumes "can_add fl p"
  shows "add_ok (fst m \<and> snd m) fl (take 15 (timestamp_text major5 tv)) 0 p
    (add_timestamp_parse_katcl major5 m clock fl (Some tv) p)"
proof -
  have "can_add (fl OR KATCP_FLAG_STRING) p" using assms by (simp add: can_add_def)
  from add_unsafe_ok [OF this, of m "take 15 (timestamp_text major5 tv)"] show ?thesis
    by (simp add: add_timestamp_parse_katcl_def TIMESTAMP_BUFFER_def string_flag_ok)
qed

text \<open>Copying the tail of another message.\<close>

definition can_add_more :: "parse \<Rightarrow> bool" where
  "can_add_more p \<longleftrightarrow> parse_inv p \<and> 0 < p_got p \<and> p_state p = PARSE_FAKE"

lemma can_add_more: "can_add_more p \<Longrightarrow> \<not> has_flag fl KATCP_FLAG_FIRST \<Longrightarrow> can_add fl p"
  by (simp add: can_add_more_def can_add_def)

lemma added_more: "added fl s e p q \<Longrightarrow> \<not> has_flag fl KATCP_FLAG_LAST \<Longrightarrow> can_add_more q"
  by (simp add: added_def can_add_more_def)

lemma flag_zero [simp]: "\<not> has_flag 0 f"
  by (simp add: has_flag_def)

lemma flag_first_only [simp]:
  "has_flag (fl AND KATCP_FLAG_FIRST) KATCP_FLAG_FIRST = has_flag fl KATCP_FLAG_FIRST"
  "\<not> has_flag (fl AND KATCP_FLAG_FIRST) KATCP_FLAG_LAST"
  by (simp_all add: flag_defs and.assoc)

lemma flag_last_only [simp]:
  "has_flag (fl AND KATCP_FLAG_LAST) KATCP_FLAG_LAST = has_flag fl KATCP_FLAG_LAST"
  "\<not> has_flag (fl AND KATCP_FLAG_LAST) KATCP_FLAG_FIRST"
  by (simp_all add: flag_defs and.assoc)

lemma flag_or [simp]: "has_flag (a OR b) f \<longleftrightarrow> has_flag a f \<or> has_flag b f"
  by (simp add: has_flag_def bit.conj_disj_distrib2 bit.conj_disj_distrib or_eq_0_iff)


definition serial_size :: "string list \<Rightarrow> int" where
  "serial_size ss = (\<Sum>s\<leftarrow>ss. int (length s) + 1)"

lemma serial_size_simps [simp]: "serial_size [] = 0" "serial_size (s # ss) = int (length s) + 1 + serial_size ss"
  "serial_size (ss @ ts) = serial_size ss + serial_size ts"
  by (simp_all add: serial_size_def)

lemma serial_size_nonneg [simp]: "0 \<le> serial_size ss"
  by (induction ss) simp_all

definition trail_ok ::
  "(nat \<Rightarrow> memory) \<Rightarrow> nat \<Rightarrow> string list \<Rightarrow> flags \<Rightarrow> int \<Rightarrow> parse
    \<Rightarrow> ((flags \<times> int) option \<times> parse) res \<Rightarrow> bool" where
  "trail_ok m n ts f v pd r =
    (case r of
      Inl _ \<Rightarrow> False
    | Inr (None, pd') \<Rightarrow> (\<exists>j. \<not> (fst (m j) \<and> snd (m j))) \<and> parse_inv pd' \<and>
        (\<exists>k. parse_args pd' = parse_args pd @ take k ts)
    | Inr (Some (f', v'), pd') \<Rightarrow>
        v' = v + serial_size (take n ts) \<and> parse_inv pd' \<and> p_refs pd' = p_refs pd \<and>
        parse_args pd' = parse_args pd @ take n ts \<and>
        (if n = 0 then f' = f \<and> pd' = pd else f' = 0 \<and> can_add_more pd'))"

lemma trail_ok_cases [consumes 1, case_names loop fail]:
  assumes "trail_ok m n ts f v pd r"
  obtains f' v' q where "r = Inr (Some (f', v'), q)" "v' = v + serial_size (take n ts)"
      "parse_args q = parse_args pd @ take n ts" "p_refs q = p_refs pd"
      "if n = 0 then f' = f \<and> q = pd else f' = 0 \<and> can_add_more q"
    | q k where "r = Inr (None, q)" "\<exists>j. \<not> (fst (m j) \<and> snd (m j))" "parse_inv q"
      "parse_args q = parse_args pd @ take k ts"
proof -
  obtain fv q where r: "r = Inr (fv, q)" using assms by (cases r) (auto simp: trail_ok_def)
  show thesis
  proof (cases fv)
    case None
    with assms r that(2) show thesis by (auto simp: trail_ok_def)
  next
    case (Some x)
    with assms r that(1) show thesis by (cases x) (simp add: trail_ok_def)
  qed
qed

lemma trail_ok_step:
  assumes "trail_ok m n ts 0 (v + (int (length t) + 1)) pd1 r" "added fl t e pd pd1" "can_add_more pd1"
  shows "trail_ok m (Suc n) (t # ts) f v pd r"
proof (cases r)
  case (Inr x)
  obtain fv q where x: "x = (fv, q)" by fastforce
  have a: "parse_args pd1 = parse_args pd @ [t]" "p_refs pd1 = p_refs pd"
    using assms(2) by (simp_all add: added_def)
  show ?thesis
  proof (cases fv)
    case None
    with assms(1) Inr x obtain k where
      "(\<exists>j. \<not> (fst (m j) \<and> snd (m j)))" "parse_inv q" "parse_args q = parse_args pd1 @ take k ts"
      by (auto simp: trail_ok_def)
    then show ?thesis using None Inr x a by (auto simp: trail_ok_def intro: exI [of _ "Suc k"])
  next
    case (Some y)
    then show ?thesis using assms Inr x a by (auto simp: trail_ok_def split: prod.splits if_splits)
  qed
qed (use assms in \<open>simp add: trail_ok_def\<close>)

lemma trailing_loop_ok:
  assumes "parse_inv ps" "i + n < p_got ps" "n \<noteq> 0 \<Longrightarrow> can_add (f AND KATCP_FLAG_FIRST) pd" "parse_inv pd"
  shows "trail_ok m n (drop i (parse_args ps)) f v pd (trailing_loop m n ps i f v pd)"
  using assms
proof (induction n arbitrary: i f v pd)
  case (Suc n)
  let ?t = "parse_args ps ! i"
  have drop: "drop i (parse_args ps) = ?t # drop (Suc i) (parse_args ps)"
    using Suc.prems(2) by (intro Cons_nth_drop_Suc [symmetric]) simp
  have "add_ok (fst (m i) \<and> snd (m i)) (f AND KATCP_FLAG_FIRST) ?t 1 pd
      (add_parameter_parse_katcl (m i) pd (f AND KATCP_FLAG_FIRST) ps i)"
    using Suc.prems by (intro add_parameter_ok) auto
  then consider (ok) pd1 where
      "add_parameter_parse_katcl (m i) pd (f AND KATCP_FLAG_FIRST) ps i = Inr (int (length ?t) + 1, pd1)"
      "added (f AND KATCP_FLAG_FIRST) ?t 1 pd pd1"
    | (fail) pd1 where "\<not> (fst (m i) \<and> snd (m i))" "untouched pd pd1"
      "add_parameter_parse_katcl (m i) pd (f AND KATCP_FLAG_FIRST) ps i = Inr (-1, pd1)"
    unfolding add_ok_def by (auto split: sum.splits)
  then show ?case
  proof cases
    case ok
    have more: "can_add_more pd1" using added_more [OF ok(2)] by simp
    have "trail_ok m n (drop (Suc i) (parse_args ps)) 0 (v + (int (length ?t) + 1)) pd1
        (trailing_loop m n ps (Suc i) 0 (v + (int (length ?t) + 1)) pd1)"
      using Suc.prems(1,2) more by (intro Suc.IH) (auto simp: can_add_more_def intro: can_add_more)
    then show ?thesis
      using ok(1) trail_ok_step [OF _ ok(2) more] drop by simp
  next
    case fail
    then show ?thesis by (auto simp: trail_ok_def untouched_def intro: exI [of _ 0])
  qed
qed (simp add: trail_ok_def)

lemma add_trailing_ok:
  assumes "can_add fl pd" "parse_inv ps" "start < p_got ps"
  shows "case add_trailing_parse_katcl m pd fl ps start of
      Inl _ \<Rightarrow> False
    | Inr (v, pd') \<Rightarrow>
        v = serial_size (drop start (parse_args ps)) \<and> parse_inv pd' \<and>
          parse_args pd' = parse_args pd @ drop start (parse_args ps) \<and> p_refs pd' = p_refs pd \<and>
          p_state pd' = (if has_flag fl KATCP_FLAG_LAST then PARSE_DONE else PARSE_FAKE) \<or>
        v = -1 \<and> (\<exists>j. \<not> (fst (m j) \<and> snd (m j))) \<and> parse_inv pd' \<and>
          (\<exists>k. parse_args pd' = parse_args pd @ take k (drop start (parse_args ps)))"
proof -
  let ?n = "p_got ps - 1 - start" and ?t = "parse_args ps ! (p_got ps - 1)"
  let ?ts = "drop start (parse_args ps)"
  have len: "length ?ts = Suc ?n" using assms(3) by simp
  moreover have "?ts ! ?n = ?t" using assms(3) by (subst nth_drop) simp_all
  ultimately have ts: "?ts = take ?n ?ts @ [?t]"
    using take_Suc_conv_app_nth [of ?n ?ts] by simp
  have "trail_ok m ?n ?ts fl 0 pd (trailing_loop m ?n ps start fl 0 pd)"
    using assms by (intro trailing_loop_ok) (auto simp: can_add_def)
  then show ?thesis
  proof (cases rule: trail_ok_cases)
    case (loop f v q)
    let ?f = "f OR (fl AND KATCP_FLAG_LAST)" and ?i = "p_got ps - 1"
    have can: "can_add ?f q" and last: "has_flag ?f KATCP_FLAG_LAST = has_flag fl KATCP_FLAG_LAST"
      using loop(5) assms(1) can_add_more [of q ?f] by (auto simp: can_add_def split: if_splits)
    have "add_ok (fst (m ?i) \<and> snd (m ?i)) ?f ?t 1 q (add_parameter_parse_katcl (m ?i) q ?f ps ?i)"
      using assms can by (intro add_parameter_ok) auto
    then consider (full) q2 where
        "add_parameter_parse_katcl (m ?i) q ?f ps ?i = Inr (int (length ?t) + 1, q2)" "added ?f ?t 1 q q2"
      | (last) q2 where "\<not> (fst (m ?i) \<and> snd (m ?i))" "untouched q q2"
        "add_parameter_parse_katcl (m ?i) q ?f ps ?i = Inr (-1, q2)"
      unfolding add_ok_def by (auto split: sum.splits)
    then show ?thesis
    proof cases
      case full
      have "add_trailing_parse_katcl m pd fl ps start = Inr (v + (int (length ?t) + 1), q2)"
        using loop(1) full(1) assms(3) by (simp add: add_trailing_parse_katcl_def Let_def)
      moreover have "serial_size ?ts = v + (int (length ?t) + 1)"
        using loop(2) by (subst ts) simp
      moreover have "parse_args q2 = parse_args pd @ ?ts"
        using full(2) loop(3) by (subst ts) (simp add: added_def)
      ultimately show ?thesis
        using full(2) loop(4) last by (simp add: added_def)
    next
      case last
      have "add_trailing_parse_katcl m pd fl ps start = Inr (-1, q2)"
        using loop(1) last(3) assms(3) by (simp add: add_trailing_parse_katcl_def Let_def)
      then show ?thesis using last(1,2) loop(3) by (auto simp: untouched_def)
    qed
  next
    case (fail q k)
    then show ?thesis using assms(3) by (auto simp: add_trailing_parse_katcl_def Let_def)
  qed
qed


section \<open>What the readers return\<close>

lemma drop_slice:
  "b \<le> e \<Longrightarrow> e < length xs \<Longrightarrow> drop b xs = slice b e xs @ xs ! e # drop (Suc e) xs"
  by (simp add: slice_def Cons_nth_drop_Suc) (metis add.commute append_take_drop_id drop_drop le_add_diff_inverse2)

lemma cstr_append_nul: "cstr (s @ nul # t) = cstr s"
  by (induction s) (simp_all add: cstr_def)

lemma cstr_id: "nul \<notin> set s \<Longrightarrow> cstr s = s"
  by (auto simp: cstr_def takeWhile_eq_all_conv)

lemma cstr_at_arg:
  assumes "parse_inv p" "i < p_got p"
  shows "cstr_at (a_begin (p_args p ! i)) p = Inr (cstr (parse_args p ! i))"
proof -
  note a = parse_inv_arg [OF assms]
  have "drop (a_begin (p_args p ! i)) (p_buffer p) =
      parse_args p ! i @ nul # drop (Suc (a_end (p_args p ! i))) (p_buffer p)"
    using drop_slice [OF a(2,3)] a(4) assms(2) by (simp add: arg_text_def)
  then show ?thesis by (simp add: cstr_at_def cstr_append_nul)
qed

lemma larg_at_inv: "parse_inv p \<Longrightarrow> i < p_got p \<Longrightarrow> larg_at i p = Inr (p_args p ! i)"
  using parse_inv_arg(1) by (simp add: larg_at_def)

lemma arg_empty_iff:
  assumes "parse_inv p" "i < p_got p"
  shows "parse_args p ! i = [] \<longleftrightarrow> a_end (p_args p ! i) \<le> a_begin (p_args p ! i)"
  using parse_inv_arg [OF assms] assms(2) by (auto simp: arg_text_def slice_def)

lemma get_string_spec:
  assumes "parse_inv p"
  shows "get_string_parse_katcl p i =
    Inr (if i < p_got p \<and> parse_args p ! i \<noteq> [] then Some (cstr (parse_args p ! i)) else None)"
  using assms cstr_at_arg [OF assms, of i] larg_at_inv [OF assms, of i] arg_empty_iff [OF assms, of i]
  by (auto simp: get_string_parse_katcl_def simp del: parse_args_nth)

lemma get_unsigned_spec:
  assumes "parse_inv p"
  shows "get_unsigned_long_parse_katcl p i =
    Inr (if i < p_got p then fst (strtoul 0 (cstr (parse_args p ! i))) else 0)"
  using cstr_at_arg [OF assms, of i] larg_at_inv [OF assms, of i]
  by (auto simp: get_unsigned_long_parse_katcl_def simp del: parse_args_nth)

lemma get_signed_spec:
  assumes "parse_inv p"
  shows "get_signed_long_parse_katcl p i =
    Inr (if i < p_got p then fst (strtol 0 (cstr (parse_args p ! i))) else 0)"
  using cstr_at_arg [OF assms, of i] larg_at_inv [OF assms, of i]
  by (auto simp: get_signed_long_parse_katcl_def simp del: parse_args_nth)

lemma get_buffer_spec:
  assumes "parse_inv p"
  shows "get_buffer_parse_katcl p i room =
    Inr (if i < p_got p then (length (parse_args p ! i), take room (parse_args p ! i)) else (0, []))"
proof (cases "i < p_got p")
  case True
  note a = parse_inv_arg [OF assms True]
  have "length (arg_text p i) = a_end (p_args p ! i) - a_begin (p_args p ! i)"
    using a by (simp add: arg_text_def)
  moreover have "arg_text p i = take (a_end (p_args p ! i) - a_begin (p_args p ! i))
      (drop (a_begin (p_args p ! i)) (p_buffer p))" by (simp add: arg_text_def slice_def)
  ultimately show ?thesis
    using a True larg_at_inv [OF assms True]
    by (auto simp: get_buffer_parse_katcl_def Let_def min_def split: if_splits)
qed (simp add: get_buffer_parse_katcl_def)

lemma is_type_spec:
  assumes "parse_inv p"
  shows "is_type_parse_katcl p c = Inr (0 < p_got p \<and> hd (parse_args p ! 0 @ [nul]) = c)"
proof (cases "0 < p_got p")
  case True
  note a = parse_inv_arg [OF assms True]
  have "p_buffer p ! a_begin (p_args p ! 0) = hd (arg_text p 0 @ [nul])"
    using drop_slice [OF a(2,3)] a by (simp add: arg_text_def hd_append hd_drop_conv_nth [symmetric])
  then show ?thesis
    using a True larg_at_inv [OF assms True] by (simp add: is_type_parse_katcl_def peek_def)
qed (simp add: is_type_parse_katcl_def)

lemma is_null_spec:
  assumes "parse_inv p"
  shows "is_null_parse_katcl p i = Inr (\<not> (i < p_got p \<and> parse_args p ! i \<noteq> []))"
  using larg_at_inv [OF assms, of i] arg_empty_iff [OF assms, of i]
  by (auto simp: is_null_parse_katcl_def simp del: parse_args_nth)

lemmas reader_specs = get_string_spec get_unsigned_spec get_signed_spec get_buffer_spec is_type_spec is_null_spec

section \<open>Numbers go through unchanged\<close>

lemma length_dec_of_nat: "n < 10 ^ k \<Longrightarrow> 0 < k \<Longrightarrow> length (dec_of_nat n) \<le> k"
proof (induction n arbitrary: k rule: dec_of_nat.induct)
  case (1 n)
  show ?case
  proof (cases "n < 10")
    case False
    then have "k \<noteq> 1" using 1(2) by auto
    then obtain j where j: "k = Suc j" "0 < j" using 1(3) by (cases k) auto
    then have "n div 10 < 10 ^ j" using 1(2) by (simp add: less_mult_imp_div_less)
    then have "length (dec_of_nat (n div 10)) \<le> j" using 1(1) False j(2) by blast
    then show ?thesis using False j by (subst dec_of_nat.simps) simp
  qed (use 1 in \<open>subst dec_of_nat.simps, simp\<close>)
qed

lemma length_hex_of_nat: "n < 16 ^ k \<Longrightarrow> 0 < k \<Longrightarrow> length (hex_of_nat n) \<le> k"
proof (induction n arbitrary: k rule: hex_of_nat.induct)
  case (1 n)
  show ?case
  proof (cases "n < 16")
    case False
    then have "k \<noteq> 1" using 1(2) by auto
    then obtain j where j: "k = Suc j" "0 < j" using 1(3) by (cases k) auto
    then have "n div 16 < 16 ^ j" using 1(2) by (simp add: less_mult_imp_div_less)
    then have "length (hex_of_nat (n div 16)) \<le> j" using 1(1) False j(2) by blast
    then show ?thesis using False j by (subst hex_of_nat.simps) simp
  qed (use 1 in \<open>subst hex_of_nat.simps, simp\<close>)
qed

lemma digit_val_hex_char [simp]: "d < 16 \<Longrightarrow> digit_val (hex_char d) = Some d"
  by (auto simp: digit_val_def hex_char_def Let_def)

lemma hex_of_nat_digits: "\<forall>c \<in> set (hex_of_nat n). is_digit 16 c"
proof (induction n rule: hex_of_nat.induct)
  case (1 n)
  then show ?case by (subst hex_of_nat.simps) (auto simp: is_digit_def)
qed

lemma hex_of_nat_nonempty [simp]: "hex_of_nat n \<noteq> []"
  by (subst hex_of_nat.simps) simp

lemma digits_val_hex_of_nat [simp]: "digits_val 16 (hex_of_nat n) = n"
proof (induction n rule: hex_of_nat.induct)
  case (1 n)
  show ?case
  proof (cases "n < 16")
    case True
    then show ?thesis by (subst hex_of_nat.simps) (simp add: digits_val_def)
  next
    case False
    with 1 show ?thesis by (subst hex_of_nat.simps) (simp add: digits_val_snoc)
  qed
qed

text \<open>Decimal text of a positive number does not begin with the zero that means base 8.\<close>

lemma dec_of_nat_no_zero: "0 < n \<Longrightarrow> \<not> starts_with_zero (dec_of_nat n)"
proof (induction n rule: dec_of_nat.induct)
  case (1 n)
  show ?case
  proof (cases "n < 10")
    case True
    then have "of_char (digit_char n) = (48 + n :: nat)" by (rule of_char_digit_char)
    then have "digit_char n \<noteq> CHR ''0''" using 1(2) by auto
    then show ?thesis using True by (subst dec_of_nat.simps) (simp add: starts_with_zero_def)
  next
    case False
    then have "\<not> starts_with_zero (dec_of_nat (n div 10))" using 1 by simp
    then show ?thesis
      using False by (subst dec_of_nat.simps) (auto simp: starts_with_zero_def split: list.splits)
  qed
qed


lemma takeWhile_all: "\<forall>c \<in> set ds. P c \<Longrightarrow> takeWhile P ds = ds"
  by (simp add: takeWhile_eq_all_conv)

lemma dec_of_nat_Cons: "\<exists>d ds. dec_of_nat n = d # ds \<and> is_digit 10 d"
  using dec_of_nat_digits [of n] by (cases "dec_of_nat n") auto

lemma dec_of_nat_0 [simp]: "dec_of_nat 0 = ''0''"
  by code_simp

lemma scan_base0_dec:
  assumes "sg = '''' \<or> sg = ''-''"
  shows "scan_ulong 0 (sg @ dec_of_nat n) = ((sg \<noteq> [], n), length sg + length (dec_of_nat n))"
proof (cases "n = 0")
  case True
  then show ?thesis using assms
    by (auto simp: scan_ulong_def c_isspace_def has_hex_prefix_def starts_with_zero_def is_digit_def
        digit_val_def digits_val_def)
next
  case False
  obtain d ds where d: "dec_of_nat n = d # ds" "is_digit 10 d" using dec_of_nat_Cons by blast
  have z: "d \<noteq> CHR ''0''" using dec_of_nat_no_zero [of n] False d by (simp add: starts_with_zero_def)
  have all: "takeWhile (is_digit 10) (d # ds) = d # ds"
    using dec_of_nat_digits [of n] d by (intro takeWhile_all) simp
  have v: "digits_val 10 (d # ds) = n" using d digits_val_dec_of_nat [of n] by simp
  have h: "\<not> has_hex_prefix (d # ds)" "\<not> starts_with_zero (d # ds)"
    using z by (auto simp: has_hex_prefix_def starts_with_zero_def split: list.splits)
  have sp: "\<not> c_isspace d" "d \<noteq> CHR ''+''" "d \<noteq> CHR ''-''" "\<not> c_isspace (CHR ''-'')"
    using digit10_plain [OF d(2)] by (auto simp: c_isspace_def)
  show ?thesis
    using assms d(1) sp h all v by (elim disjE) (simp_all add: scan_ulong_def Let_def)
qed

lemma scan_base0_hex: "scan_ulong 0 (''0x'' @ hex_of_nat n) = ((False, n), 2 + length (hex_of_nat n))"
proof -
  obtain d ds where d: "hex_of_nat n = d # ds" "is_digit 16 d"
    using hex_of_nat_digits [of n] by (cases "hex_of_nat n") auto
  have all: "takeWhile (is_digit 16) ds = ds"
    using hex_of_nat_digits [of n] d by (intro takeWhile_all) simp
  have v: "digits_val 16 (d # ds) = n" using d digits_val_hex_of_nat [of n] by simp
  have sp: "\<not> c_isspace (CHR ''0'')" by (simp add: c_isspace_def)
  show ?thesis using d sp all v
    by (simp add: scan_ulong_def Let_def has_hex_prefix_def takeWhile_all)
qed

lemma strtoul_dec: "n < 2 ^ 64 \<Longrightarrow> fst (strtoul 0 (dec_of_nat n)) = of_nat n"
  using scan_base0_dec [of "[]" n] by (simp add: strtoul_def)

lemma strtoul_hex: "n < 2 ^ 64 \<Longrightarrow> fst (strtoul 0 (''0x'' @ hex_of_nat n)) = of_nat n"
  using scan_base0_hex [of n] by (simp add: strtoul_def)

lemma strtol_dec:
  assumes "- (2 ^ 63) \<le> i" "i < 2 ^ 63"
  shows "fst (strtol 0 (dec_of_int i)) = i"
  using assms scan_base0_dec [of "''-''" "nat (- i)"] scan_base0_dec [of "[]" "nat i"]
  by (auto simp: strtol_def dec_of_int_def)

lemma dec_of_int_nonempty [simp]: "dec_of_int i \<noteq> []"
  by (simp add: dec_of_int_def)

text \<open>None of these texts contains a NUL, and all of them fit.\<close>

lemma digit_not_nul: "is_digit b c \<Longrightarrow> c \<noteq> nul"
  by (auto simp: is_digit_def digit_val_def)

lemma number_texts:
  fixes v :: u64
  shows "nul \<notin> set (dec_of_nat (unat v))" "nul \<notin> set (dec_of_int (sint v))"
    "nul \<notin> set (''0x'' @ hex_of_nat (unat v))"
    "length (dec_of_nat (unat v)) < TMP_BUFFER" "length (dec_of_int (sint v)) < TMP_BUFFER"
    "length (''0x'' @ hex_of_nat (unat v)) < TMP_BUFFER"
proof -
  have nod: "nul \<notin> set (dec_of_nat n)" for n using dec_of_nat_digits [of n] digit_not_nul by blast
  have u: "unat v < 10 ^ 20" "unat v < 16 ^ 16" using unat_u64_less [of v] by simp_all
  have si: "nat (- sint v) < 10 ^ 20" "nat (sint v) < 10 ^ 20"
    using sint_range_size [of v] by (auto simp: word_size nat_less_iff)
  show "nul \<notin> set (dec_of_nat (unat v))" by (rule nod)
  show "nul \<notin> set (dec_of_int (sint v))" using nod by (auto simp: dec_of_int_def)
  show "nul \<notin> set (''0x'' @ hex_of_nat (unat v))"
    using hex_of_nat_digits [of "unat v"] digit_not_nul by auto
  show "length (dec_of_nat (unat v)) < TMP_BUFFER"
    using length_dec_of_nat [OF u(1)] by (simp add: TMP_BUFFER_def)
  show "length (dec_of_int (sint v)) < TMP_BUFFER"
    using length_dec_of_nat [OF si(1)] length_dec_of_nat [OF si(2)] by (simp add: dec_of_int_def TMP_BUFFER_def)
  show "length (''0x'' @ hex_of_nat (unat v)) < TMP_BUFFER"
    using length_hex_of_nat [OF u(2)] by (simp add: TMP_BUFFER_def)
qed


section \<open>The whole message as one text\<close>

text \<open>\<open>memcpy\<close> and single writes into the caller's buffer.\<close>

definition put_bytes :: "int \<Rightarrow> string \<Rightarrow> string \<Rightarrow> string res" where
  "put_bytes i s b =
     (if 0 \<le> i \<and> nat i + length s \<le> length b
      then Inr (take (nat i) b @ s @ drop (nat i + length s) b) else Inl OutOfBounds)"

text \<open>The loop over the arguments, from position \<open>i\<close> on, \<open>n\<close> of them: the result is the
  value to return at once, if any, the offset and the buffer. \<open>offset\<close> begins at -1 and is
  moved on to the byte behind the separator at the head of each round.\<close>

fun buffer_loop :: "parse \<Rightarrow> nat \<Rightarrow> nat \<Rightarrow> int \<Rightarrow> int \<Rightarrow> string \<Rightarrow> (int option \<times> int \<times> string) res" where
  "buffer_loop p 0 i offset space b = Inr (None, offset, b)"
| "buffer_loop p (Suc n) i offset space b =
     bind_res (larg_at i p) (\<lambda>la.
     let offset1 = offset + 1; sz = int (a_end la) - int (a_begin la) in
     if sz < 0 then Inl Abort
     else if sz \<ge> space then
       (if length b < 4 then bind_res (put_bytes 0 [nul] b) (\<lambda>b1. Inr (Some (-1), offset1, b1))
        else
          bind_res (put_bytes offset1 (take (nat space) (drop (a_begin la) (p_buffer p))) b) (\<lambda>b1.
          bind_res (put_bytes (int (length b) - 4) (''...'' @ [nul]) b1) (\<lambda>b2.
          Inr (Some (int (length b)), offset1, b2))))
     else
       bind_res (put_bytes offset1 (take (nat sz) (drop (a_begin la) (p_buffer p))) b) (\<lambda>b1.
       bind_res (put_bytes (offset1 + sz) '' '' b1) (\<lambda>b2.
       buffer_loop p n (i + 1) (offset1 + sz) (space - sz - 1) b2)))"

definition buffer_from_parse_katcl :: "parse \<Rightarrow> string option \<Rightarrow> (int \<times> string option) res" where
  "buffer_from_parse_katcl p buffer =
     (if p_state p \<noteq> PARSE_FAKE \<and> p_state p \<noteq> PARSE_DONE then Inr (-1, buffer)
      else case buffer of
        None \<Rightarrow> Inr (-1, None)
      | Some b \<Rightarrow>
        if length b = 0 then Inr (-1, Some b)
        else bind_res (buffer_loop p (p_got p) 0 (if p_got p = 0 then 0 else -1) (int (length b)) b)
          (\<lambda>(early, offset, b1).
          case early of
            Some v \<Rightarrow> Inr (v, Some b1)
          | None \<Rightarrow> bind_res (put_bytes offset [nul] b1) (\<lambda>b2. Inr (offset, Some b2))))"

definition join :: "string list \<Rightarrow> string" where
  "join ss = concat (map (\<lambda>s. s @ '' '') ss)"

text \<open>\<open>join\<close> puts a separator behind every argument; the code overwrites the last one.\<close>

lemma join_simps [simp]: "join [] = []" "join (s # ss) = s @ CHR '' '' # join ss"
  by (simp_all add: join_def)

definition shown :: "string \<Rightarrow> string \<Rightarrow> (int option \<times> int \<times> string) res \<Rightarrow> bool" where
  "shown b t r =
     (case r of
        Inl _ \<Rightarrow> False
      | Inr (None, offset, b') \<Rightarrow> length t \<le> length b \<and> offset = int (length t) - 1 \<and> length b' = length b \<and>
          take (length t) b' = t
      | Inr (Some v, _, b') \<Rightarrow> length b < length t \<and> length b' = length b \<and>
          (if length b < 4 then v = -1 \<and> hd b' = nul
           else v = int (length b) \<and> b' = take (length b - 4) t @ ''...'' @ [nul]))"

lemma put_bytes_ok:
  "0 \<le> i \<Longrightarrow> nat i + length s \<le> length b \<Longrightarrow>
    put_bytes i s b = Inr (take (nat i) b @ s @ drop (nat i + length s) b)"
  by (simp add: put_bytes_def)

lemma arg_text_take:
  assumes "parse_inv p" "i < p_got p" "n \<le> length (arg_text p i)"
  shows "take n (drop (a_begin (p_args p ! i)) (p_buffer p)) = take n (arg_text p i)"
  using parse_inv_arg [OF assms(1,2)] assms(3) by (simp add: arg_text_def slice_def min_absorb1)

lemma buffer_loop_shown:
  assumes "parse_inv p" "i + n = p_got p" "length pre \<le> length b" "take (length pre) b = pre"
    "offset = int (length pre) - 1" "space = int (length b) - int (length pre)" "0 < length b"
  shows "shown b (pre @ join (drop i (parse_args p))) (buffer_loop p n i offset space b)"
  using assms
proof (induction n arbitrary: i b offset space pre)
  case 0
  then show ?case by (simp add: shown_def)
next
  case (Suc n)
  let ?la = "p_args p ! i" and ?s = "arg_text p i"
  have i: "i < p_got p" using Suc.prems(2) by simp
  note a = parse_inv_arg [OF Suc.prems(1) i]
  have d: "drop i (parse_args p) = ?s # drop (Suc i) (parse_args p)"
    using i by (subst Cons_nth_drop_Suc [symmetric]) simp_all
  have sz: "int (a_end ?la) - int (a_begin ?la) = int (length ?s)"
    using a by (simp add: arg_text_def)
  have off: "offset + 1 = int (length pre)" using Suc.prems(5) by simp
  have la: "larg_at i p = Inr ?la" using larg_at_inv [OF Suc.prems(1) i] .
  show ?case
  proof (cases "space \<le> int (length ?s)")
    case big: True
    have t: "take (nat space) (drop (a_begin ?la) (p_buffer p)) = take (nat space) ?s"
      using arg_text_take [OF Suc.prems(1) i] big by simp
    show ?thesis
    proof (cases "length b < 4")
      case True
      then show ?thesis
        using la sz off big Suc.prems d
        by (simp add: shown_def Let_def put_bytes_ok Suc_le_eq)
    next
      case False
      let ?b1 = "pre @ take (nat space) ?s"
      have l: "length ?b1 = length b" using big Suc.prems(3,6) by simp
      have "put_bytes (offset + 1) (take (nat space) ?s) b = Inr ?b1"
        using off l Suc.prems(3,4) by (simp add: put_bytes_ok)
      moreover have "put_bytes (int (length b) - 4) (''...'' @ [nul]) ?b1 =
          Inr (take (length b - 4) ?b1 @ ''...'' @ [nul])"
        using l False by (subst put_bytes_ok) (simp_all add: nat_diff_distrib)
      moreover have "take (length b - 4) ?b1 = take (length b - 4) (pre @ join (drop i (parse_args p)))"
        using big Suc.prems(3,6) d by (simp add: min_def)
      moreover have "length b < length (pre @ join (drop i (parse_args p)))"
        using big Suc.prems(6) d by simp
      ultimately show ?thesis
        using la sz off big False t l by (simp add: shown_def Let_def)
    qed
  next
    case False
    let ?pre = "pre @ ?s @ '' ''"
    have t: "take (nat (int (length ?s))) (drop (a_begin ?la) (p_buffer p)) = ?s"
      using arg_text_take [OF Suc.prems(1) i] by simp
    have room: "length ?pre \<le> length b" using False Suc.prems(6) by simp
    define b1 where "b1 = take (length pre) b @ ?s @ drop (length pre + length ?s) b"
    define b2 where "b2 = take (length pre + length ?s) b1 @ '' '' @ drop (length ?pre) b1"
    have b1: "put_bytes (offset + 1) ?s b = Inr b1" "length b1 = length b"
      using off room by (auto simp: put_bytes_ok b1_def)
    have b2: "put_bytes (offset + 1 + int (length ?s)) '' '' b1 = Inr b2" "length b2 = length b"
      using off room b1(2) by (auto simp: put_bytes_ok b2_def nat_add_distrib)
    have pre: "take (length ?pre) b2 = ?pre"
      using Suc.prems(3,4) room by (simp add: b2_def b1_def min_def)
    have "shown b2 (?pre @ join (drop (Suc i) (parse_args p)))
        (buffer_loop p n (Suc i) (offset + 1 + int (length ?s)) (space - int (length ?s) - 1) b2)"
      using Suc.prems room pre b2(2) by (intro Suc.IH) auto
    moreover have "buffer_loop p (Suc n) i offset space b =
        buffer_loop p n (Suc i) (offset + 1 + int (length ?s)) (space - int (length ?s) - 1) b2"
      using la sz False t b1(1) b2(1) by (simp add: Let_def)
    moreover have "shown b2 x r = shown b x r" for x r
      by (simp only: shown_def b2(2))
    ultimately show ?thesis using d by simp
  qed
qed


lemma buffer_from_parse_shown:
  assumes "parse_inv p" "p_state p = PARSE_FAKE \<or> p_state p = PARSE_DONE" "0 < length b"
  shows "\<exists>v b'. buffer_from_parse_katcl p (Some b) = Inr (v, Some b') \<and> length b' = length b \<and>
    (let t = butlast (join (parse_args p)) in
      if length t < length b then v = int (length t) \<and> take (length t + 1) b' = t @ [nul]
      else if length b < 4 then v = -1 \<and> hd b' = nul
      else v = int (length b) \<and> b' = take (length b - 4) t @ ''...'' @ [nul])"
proof (cases "p_got p = 0")
  case True
  then show ?thesis
    using assms by (auto simp: buffer_from_parse_katcl_def parse_args_def Let_def put_bytes_ok Suc_le_eq)
next
  case False
  let ?j = "join (parse_args p)" and ?r = "buffer_loop p (p_got p) 0 (-1) (int (length b)) b"
  have "ss \<noteq> [] \<Longrightarrow> join ss = butlast (join ss) @ '' ''" for ss
    by (induction ss rule: rev_induct) (simp_all add: join_def butlast_append)
  moreover have "parse_args p \<noteq> []" using False by (metis length_parse_args length_0_conv)
  ultimately obtain t where j: "?j = t @ '' ''" by blast
  have sh: "shown b (t @ '' '') ?r"
    using buffer_loop_shown [OF assms(1), of 0 "p_got p" "[]" b] assms(3) j by simp
  then obtain v off b1 where r: "?r = Inr (v, off, b1)" by (cases ?r) (auto simp: shown_def)
  show ?thesis
  proof (cases v)
    case None
    then have s: "length t < length b" "off = int (length t)" "length b1 = length b"
        "take (Suc (length t)) b1 = t @ '' ''"
      using sh r by (simp_all add: shown_def)
    have "take (length t) (take (Suc (length t)) b1) = take (length t) (t @ '' '')" by (simp only: s(4))
    then have "take (length t) b1 = t" by simp
    then show ?thesis
      using assms False r None s j by (simp add: buffer_from_parse_katcl_def put_bytes_ok Let_def)
  next
    case (Some w)
    then have s: "length b \<le> length t" "length b1 = length b"
      "if length b < 4 then w = -1 \<and> hd b1 = nul
       else w = int (length b) \<and> b1 = take (length b - 4) (t @ '' '') @ ''...'' @ [nul]"
      using sh r by (simp_all add: shown_def split: if_splits)
    then have "take (length b - 4) (t @ '' '') = take (length b - 4) t" by simp
    then show ?thesis
      using assms False r Some s j
      by (auto simp: buffer_from_parse_katcl_def Let_def split: if_splits)
  qed
qed


section \<open>Properties\<close>

text \<open>What becomes of an argument that cannot be made: the program ends, or an allocation has been
  refused before it came to that and the call returns -1.\<close>

definition add_fails :: "bool \<Rightarrow> parse \<Rightarrow> (int \<times> parse) res \<Rightarrow> bool" where
  "add_fails memory p r = (case r of Inl f \<Rightarrow> f = Abort | Inr (v, q) \<Rightarrow> \<not> memory \<and> v = -1 \<and> untouched p q)"

lemma vargs_rounds_fail:
  "open_arg p \<Longrightarrow> add_fails (\<forall>j. mem j) p (add_vargs_rounds mem fl None n got p)"
proof (induction n arbitrary: got p)
  case (Suc n)
  obtain ptr q where r: "request_space_parse_katcl (mem n) got p = (ptr, q)" by fastforce
  from request_space_open [OF Suc.prems r]
  consider "ptr" "open_arg q" "untouched p q" | "\<not> mem n" "\<not> ptr" "q = p" by blast
  then show ?case
  proof cases
    case 1
    have "add_fails (\<forall>j. mem j) q (add_vargs_rounds mem fl None n (actual_space_parse_katcl q * 2) q)" by (rule Suc.IH [OF 1(2)])
    then show ?thesis using r 1(1,3)
      by (auto simp: add_fails_def Let_def untouched_def split: sum.splits)
  next
    case 2
    then show ?thesis using r Suc.prems untouched_refl by (auto simp: add_fails_def open_arg_def)
  qed
qed (simp add: add_fails_def)

lemma add_vargs_fail:
  assumes "can_add fl p"
  shows "add_fails (ok \<and> (\<forall>j. mem j)) p (add_vargs_parse_katcl ok mem fl None p)"
  using before_add_open [OF assms, of ok]
proof (elim disjE exE conjE)
  fix q assume b: "before_add_parse_katcl ok fl p = Inr (0, q)" "open_arg q" "untouched p q"
  then show ?thesis using vargs_rounds_fail [OF b(2), of mem fl "TMP_LIMIT - 1" VARGS_BUFFER]
    by (auto simp: add_vargs_parse_katcl_def add_fails_def untouched_def simp del: add_vargs_rounds.simps split: sum.splits)
qed (simp add: add_vargs_parse_katcl_def add_fails_def)

lemma add_buffer_fail:
  assumes "can_add fl p"
  shows "add_fails (fst m \<and> snd m) p (add_buffer_parse_katcl m fl None (Suc n) p)"
  using before_add_open [OF assms, of "fst m"]
proof (elim disjE exE conjE)
  fix q assume b: "before_add_parse_katcl (fst m) fl p = Inr (0, q)" "open_arg q" "untouched p q"
  obtain ptr q' where r: "request_space_parse_katcl (snd m) (Suc n + 1) q = (ptr, q')" by fastforce
  show ?thesis using b(1,3) r request_space_open [OF b(2) r]
    by (auto simp: add_buffer_parse_katcl_def add_fails_def)
qed (simp add: add_buffer_parse_katcl_def add_fails_def)

text \<open>C6. Every function that adds one argument to a message under construction appends exactly
  one, with the bytes it was given, and keeps the invariant of the structure; it
  returns their number plus one. It marks the argument as one to be escaped unless the bytes
  are its own. When an allocation fails it returns -1 and leaves the arguments alone. None of
  them writes outside the buffer, and a formatted text is appended in full whatever
  space the first round found. An argument that the source message does not have gives -1, and so
  does a time when there is no clock. Only two calls abort: with a format that \<open>vsnprintf\<close> refuses
  in every round, and with a length but no buffer. (\<open>add_double_parse_katcl\<close>, which
  prints a floating point number, is left out; \<open>add_trailing_parse_katcl\<close> adds several.)\<close>

theorem adds_append_one:
  assumes "can_add fl p" "parse_inv ps"
  shows "add_ok (fst m \<and> snd m) fl s 0 p (add_plain_parse_katcl m fl s p) \<and>
    add_ok (fst m \<and> snd m) fl (case so of None \<Rightarrow> [] | Some b \<Rightarrow> b) 1 p (add_string_parse_katcl m fl so p) \<and>
    add_ok (fst m \<and> snd m) fl s 1 p (add_buffer_parse_katcl m fl (Some (s @ t)) (length s) p) \<and>
    add_fails (fst m \<and> snd m) p (add_buffer_parse_katcl m fl None (Suc k) p) \<and>
    add_ok (fst m \<and> snd m) fl (dec_of_nat (unat v)) 0 p (add_unsigned_long_parse_katcl m fl v p) \<and>
    add_ok (fst m \<and> snd m) fl (dec_of_int (sint v)) 0 p (add_signed_long_parse_katcl m fl v p) \<and>
    add_ok (fst m \<and> snd m) fl (''0x'' @ hex_of_nat (unat v)) 0 p (add_hex_long_parse_katcl m fl v p) \<and>
    add_ok (fst m \<and> snd m) fl (dec_of_nat (unat v)) 0 p (add_unsigned_llong_parse_katcl m fl v p) \<and>
    add_ok (fst m \<and> snd m) fl (dec_of_int (sint v)) 0 p (add_signed_llong_parse_katcl m fl v p) \<and>
    (if i < p_got ps then add_ok (fst m \<and> snd m) fl (parse_args ps ! i) 1 p (add_parameter_parse_katcl m p fl ps i)
     else add_parameter_parse_katcl m p fl ps i = Inr (-1, p)) \<and>
    (case (case tv of Some c \<Rightarrow> Some c | None \<Rightarrow> clock) of
       Some c \<Rightarrow> add_ok (fst m \<and> snd m) fl (take 15 (timestamp_text major5 c)) 0 p
                   (add_timestamp_parse_katcl major5 m clock fl tv p)
     | None \<Rightarrow> add_timestamp_parse_katcl major5 m clock fl tv p = Inr (-1, p)) \<and>
    add_ok (ok \<and> mem 8 \<and> mem 7) fl s 1 p (add_vargs_parse_katcl ok mem fl (Some s) p) \<and>
    add_ok (ok \<and> mem 8 \<and> mem 7) fl s 1 p (add_args_parse_katcl ok mem fl (Some s) p) \<and>
    add_fails (ok \<and> (\<forall>j. mem j)) p (add_vargs_parse_katcl ok mem fl None p) \<and>
    add_fails (ok \<and> (\<forall>j. mem j)) p (add_args_parse_katcl ok mem fl None p)"
proof -
  note c = assms(1)
  have "case (case tv of Some c \<Rightarrow> Some c | None \<Rightarrow> clock) of
      Some c \<Rightarrow> add_ok (fst m \<and> snd m) fl (take 15 (timestamp_text major5 c)) 0 p
                  (add_timestamp_parse_katcl major5 m clock fl tv p)
    | None \<Rightarrow> add_timestamp_parse_katcl major5 m clock fl tv p = Inr (-1, p)"
  proof (cases "case tv of Some c \<Rightarrow> Some c | None \<Rightarrow> clock")
    case (Some x)
    then have "add_timestamp_parse_katcl major5 m clock fl tv p = add_timestamp_parse_katcl major5 m clock fl (Some x) p"
      by (simp add: add_timestamp_parse_katcl_def)
    then show ?thesis using add_timestamp_ok [OF c, of m major5 x clock] Some by simp
  qed (simp add: add_timestamp_parse_katcl_def)
  then show ?thesis
    using number_texts [of v] add_buffer_ok [OF c, of "length s" "s @ t" m] add_string_ok [OF c, of m so]
      add_unsafe_ok [OF c, of m s] add_vargs_ok [OF c, of ok mem s] add_vargs_fail [OF c, of ok mem] add_buffer_fail [OF c, of m k]
      add_printed_ok [OF c, of "dec_of_nat (unat v)" m] add_printed_ok [OF c, of "dec_of_int (sint v)" m]
      add_printed_ok [OF c, of "''0x'' @ hex_of_nat (unat v)" m] add_parameter_ok [OF c assms(2), of i m]
    by (simp add: add_plain_parse_katcl_def add_unsigned_long_parse_katcl_def add_parameter_parse_katcl_def
        add_signed_long_parse_katcl_def add_hex_long_parse_katcl_def add_unsigned_llong_parse_katcl_def
        add_signed_llong_parse_katcl_def add_args_parse_katcl_def not_less del: add_vargs_rounds.simps)
qed

theorem adds_append_one_witness:
  "add_ok True KATCP_FLAG_FIRST ''?help'' 1 fresh_parse
     (add_string_parse_katcl (True, True) KATCP_FLAG_FIRST (Some ''?help'') fresh_parse) \<and>
   add_parameter_parse_katcl (True, True) fresh_parse KATCP_FLAG_FIRST fresh_parse 0 = Inr (-1, fresh_parse) \<and>
   add_args_parse_katcl True (\<lambda>_. True) KATCP_FLAG_FIRST None fresh_parse = Inl Abort"
proof -
  have "can_add KATCP_FLAG_FIRST fresh_parse" "parse_inv fresh_parse"
    by (simp_all add: can_add_def flag_defs fresh_parse_def parse_inv_def)
  from adds_append_one [OF this, where m = "(True, True)" and so = "Some ''?help''" and ok = True and mem = "\<lambda>_. True" and i = 0]
  have "add_ok True KATCP_FLAG_FIRST ''?help'' 1 fresh_parse
      (add_string_parse_katcl (True, True) KATCP_FLAG_FIRST (Some ''?help'') fresh_parse)"
    "add_parameter_parse_katcl (True, True) fresh_parse KATCP_FLAG_FIRST fresh_parse 0 = Inr (-1, fresh_parse)"
    "add_fails True fresh_parse (add_args_parse_katcl True (\<lambda>_. True) KATCP_FLAG_FIRST None fresh_parse)"
    by (simp_all add: fresh_parse_def)
  then show ?thesis by (auto simp: add_fails_def split: sum.splits)
qed

text \<open>C8. A number put into a message by the functions for unsigned, signed and hexadecimal
  numbers is the number that the reading functions find there, for every 64-bit value.\<close>

theorem numbers_roundtrip:
  assumes "can_add fl p"
  shows "(\<exists>n q. add_unsigned_long_parse_katcl (True, True) fl v p = Inr (n, q) \<and>
      get_unsigned_long_parse_katcl q (p_got p) = Inr v) \<and>
    (\<exists>n q. add_hex_long_parse_katcl (True, True) fl v p = Inr (n, q) \<and>
      get_unsigned_long_parse_katcl q (p_got p) = Inr v) \<and>
    (\<exists>n q. add_signed_long_parse_katcl (True, True) fl v p = Inr (n, q) \<and>
      get_signed_long_parse_katcl q (p_got p) = Inr (sint v))"
proof -
  note t = number_texts [of v]
  have last: "\<exists>n q. add_printed (True, True) fl s p = Inr (n, q) \<and> parse_inv q \<and>
      p_got p < p_got q \<and> parse_args q ! p_got p = s"
    if "s \<noteq> []" "length s < TMP_BUFFER" for s
    using add_printed_ok [OF assms, of s "(True, True)"] that
    by (auto simp: add_ok_def added_def nth_append simp del: parse_args_nth split: sum.splits)
  have u: "unat v < 2 ^ 64" by (rule unat_u64_less)
  have i: "- (2 ^ 63) \<le> sint v" "sint v < 2 ^ 63"
    using sint_range_size [of v] by (simp_all add: word_size)
  from last [of "dec_of_nat (unat v)"] last [of "dec_of_int (sint v)"]
    last [of "''0x'' @ hex_of_nat (unat v)"] t strtoul_dec [OF u] strtoul_hex [OF u] strtol_dec [OF i]
  show ?thesis
    by (intro conjI)
      (force simp: add_unsigned_long_parse_katcl_def add_signed_long_parse_katcl_def
        add_hex_long_parse_katcl_def get_unsigned_spec get_signed_spec cstr_id simp del: parse_args_nth)+
qed

theorem numbers_roundtrip_witness:
  "\<exists>n q. add_signed_long_parse_katcl (True, True) KATCP_FLAG_FIRST (- 5) fresh_parse = Inr (n, q) \<and>
      get_signed_long_parse_katcl q 0 = Inr (- 5)"
proof -
  have "can_add KATCP_FLAG_FIRST fresh_parse"
    by (simp add: can_add_def flag_defs fresh_parse_def parse_inv_def)
  from numbers_roundtrip [OF this, of "- 5"] show ?thesis by (simp add: fresh_parse_def)
qed

text \<open>C7. \<open>add_trailing_parse_katcl\<close> appends the arguments of another message from the given
  position to its last one, in order, and returns the sum of their sizes; only the last one
  can end the message. When memory runs out it returns -1, having appended some of them.\<close>

theorem add_trailing_copies:
  assumes "can_add fl pd" "parse_inv ps" "start < p_got ps"
  shows "\<exists>v pd'. add_trailing_parse_katcl m pd fl ps start = Inr (v, pd') \<and> parse_inv pd' \<and>
    (v = serial_size (drop start (parse_args ps)) \<and>
       parse_args pd' = parse_args pd @ drop start (parse_args ps) \<and>
       p_state pd' = (if has_flag fl KATCP_FLAG_LAST then PARSE_DONE else PARSE_FAKE)
     \<or> v = -1 \<and> (\<exists>j. m j \<noteq> (True, True)) \<and>
       (\<exists>k. parse_args pd' = parse_args pd @ take k (drop start (parse_args ps))))"
proof -
  have "\<not> (fst x \<and> snd x) \<Longrightarrow> x \<noteq> (True, True)" for x by auto
  then show ?thesis
    using add_trailing_ok [OF assms, of m]
    by (cases "add_trailing_parse_katcl m pd fl ps start") (auto simp del: not_True_eq_False)
qed

definition sample_done :: parse where
  "sample_done = fresh_parse\<lparr>p_state := PARSE_DONE, p_buffer := ''!a'' @ [nul] @ ''b'' @ [nul],
     p_size := 5, p_have := 5, p_used := 5, p_kept := 5, p_count := 2, p_got := 2,
     p_args := [\<lparr>a_begin = 0, a_end = 2, a_escape = 0\<rparr>, \<lparr>a_begin = 3, a_end = 4, a_escape = 1\<rparr>]\<rparr>"

lemma sample_done: "parse_inv sample_done" "parse_args sample_done = [''!a'', ''b'']"
  "p_got sample_done = 2"
  by (simp_all add: sample_done_def fresh_parse_def parse_inv_def parse_args_def arg_text_def slice_def
      All_less_Suc numeral_2_eq_2 upt_rec)

theorem add_trailing_copies_witness:
  "\<exists>v pd'. add_trailing_parse_katcl (\<lambda>_. (True, True)) fresh_parse KATCP_FLAG_FIRST sample_done 1 = Inr (v, pd') \<and>
     v = 2 \<and> parse_args pd' = [''b'']"
proof -
  have c: "can_add KATCP_FLAG_FIRST fresh_parse"
    by (simp add: can_add_def flag_defs fresh_parse_def parse_inv_def)
  have "1 < p_got sample_done" "parse_args fresh_parse = []"
    by (simp_all add: sample_done_def fresh_parse_def parse_args_def)
  with add_trailing_copies [OF c sample_done(1), of 1 "\<lambda>_. (True, True)"] sample_done(2)
  show ?thesis by auto
qed

text \<open>The functions that read a message return its arguments: the text up to the first NUL
  byte (null for an empty or a missing argument), the bytes with their number, the values of
  the C library on that text, and the type of the message by its first byte.\<close>

theorem readers_return_arguments:
  assumes "parse_inv p"
  shows "get_string_parse_katcl p i =
      Inr (if i < p_got p \<and> parse_args p ! i \<noteq> [] then Some (cstr (parse_args p ! i)) else None) \<and>
    get_buffer_parse_katcl p i room =
      Inr (if i < p_got p then (length (parse_args p ! i), take room (parse_args p ! i)) else (0, [])) \<and>
    get_unsigned_long_parse_katcl p i =
      Inr (if i < p_got p then fst (strtoul 0 (cstr (parse_args p ! i))) else 0) \<and>
    is_null_parse_katcl p i = Inr (\<not> (i < p_got p \<and> parse_args p ! i \<noteq> [])) \<and>
    is_type_parse_katcl p c = Inr (0 < p_got p \<and> hd (parse_args p ! 0 @ [nul]) = c)"
  using reader_specs [OF assms] by blast

theorem readers_return_arguments_witness:
  "get_string_parse_katcl sample_done 1 = Inr (Some ''b'')"
  using readers_return_arguments [OF sample_done(1), of 1] sample_done(2,3)
  by (simp add: cstr_def del: parse_args_nth)

text \<open>\<open>buffer_from_parse_katcl\<close> writes the arguments separated by spaces and ended by a NUL,
  and returns the length, when they fit; otherwise it fills the buffer with a prefix that
  ends in dots and returns the size of the buffer, or gives up in less than four bytes. It
  never writes outside the buffer.\<close>

theorem buffer_from_parse_text:
  assumes "parse_inv p" "p_state p = PARSE_FAKE \<or> p_state p = PARSE_DONE" "0 < length b"
  shows "\<exists>v b'. buffer_from_parse_katcl p (Some b) = Inr (v, Some b') \<and> length b' = length b \<and>
    (let t = butlast (join (parse_args p)) in
      if length t < length b then v = int (length t) \<and> take (length t + 1) b' = t @ [nul]
      else if length b < 4 then v = -1 \<and> hd b' = nul
      else v = int (length b) \<and> b' = take (length b - 4) t @ ''...'' @ [nul])"
  using buffer_from_parse_shown [OF assms] .

theorem buffer_from_parse_text_witness:
  "\<exists>v b'. buffer_from_parse_katcl sample_done (Some ''xxxxxx'') = Inr (v, Some b') \<and> v = 4 \<and>
     take 5 b' = ''!a b'' @ [nul]"
proof -
  have "p_state sample_done = PARSE_DONE" by (simp add: sample_done_def)
  with buffer_from_parse_text [OF sample_done(1), of "''xxxxxx''"] sample_done(2)
  show ?thesis by (auto simp: Let_def eval_nat_numeral)
qed

end
