(* ===== verification/Parse_Store.thy ===== *)
theory Parse_Store
  imports Parse_Build "HOL-Library.Multiset"
begin

text \<open>
  The life of a \<open>struct katcl_parse\<close> (the first part of \<open>katcp/parse.c\<close>): messages are
  shared between lines, queues and jobs through pointers and counted references. The store
  maps the addresses that are allocated to their structures; an address is not given out
  twice, so that every use of a message after its last reference is gone is the fault
  \<open>UseAfterFree\<close>. The checks of \<open>sane_parse_katcl\<close> and of \<open>clear_parse_katcl\<close> are the fault
  \<open>Abort\<close>. \<open>refs_ok\<close> states the ownership discipline: every count is the number of
  the references held, and the lemmas show what each operation does to it.
\<close>

section \<open>The store\<close>

record store =
  st_heap :: "nat \<rightharpoonup> parse"
  st_fresh :: nat

definition empty_store :: store where
  "empty_store = \<lparr>st_heap = Map.empty, st_fresh = 0\<rparr>"

definition st_put :: "nat \<Rightarrow> parse \<Rightarrow> store \<Rightarrow> store" where
  "st_put a p s = s\<lparr>st_heap := (st_heap s)(a \<mapsto> p)\<rparr>"

definition st_free :: "nat \<Rightarrow> store \<Rightarrow> store" where
  "st_free a s = s\<lparr>st_heap := (st_heap s)(a := None)\<rparr>"

definition deref :: "nat \<Rightarrow> store \<Rightarrow> parse res" where
  "deref a s = (case st_heap s a of None \<Rightarrow> Inl UseAfterFree | Some p \<Rightarrow> Inr p)"

text \<open>The check at the head of most functions, and the access behind it.\<close>

definition sane_parse_katcl :: "nat option \<Rightarrow> store \<Rightarrow> (nat \<times> parse) res" where
  "sane_parse_katcl ptr s =
     (case ptr of
        None \<Rightarrow> Inl Abort
      | Some a \<Rightarrow> bind_res (deref a s) (\<lambda>p. Inr (a, p)))"

section \<open>Operations\<close>

definition create_parse_katcl :: "bool \<Rightarrow> store \<Rightarrow> nat option \<times> store" where
  "create_parse_katcl ok s =
     (if \<not> ok then (None, s)
      else (Some (st_fresh s), (st_put (st_fresh s) fresh_parse s)\<lparr>st_fresh := st_fresh s + 1\<rparr>))"

definition create_referenced_parse_katcl :: "bool \<Rightarrow> store \<Rightarrow> (nat option \<times> store) res" where
  "create_referenced_parse_katcl ok s =
     (case create_parse_katcl ok s of
        (None, s1) \<Rightarrow> Inr (None, s1)
      | (Some a, s1) \<Rightarrow> bind_res (deref a s1) (\<lambda>p. Inr (Some a, st_put a (p\<lparr>p_refs := p_refs p + 1\<rparr>) s1)))"

definition copy_parse_katcl :: "nat option \<Rightarrow> store \<Rightarrow> (nat option \<times> store) res" where
  "copy_parse_katcl ptr s =
     (if ptr = None then Inr (None, s)
      else bind_res (sane_parse_katcl ptr s) (\<lambda>(a, p).
        if p_state p \<noteq> PARSE_DONE then Inr (None, s)
        else Inr (Some a, st_put a (p\<lparr>p_refs := p_refs p + 1\<rparr>) s)))"

definition cleared :: "parse \<Rightarrow> parse" where
  "cleared p = p\<lparr>p_state := PARSE_FRESH, p_have := 0, p_used := 0, p_kept := 0, p_tag := -1,
     p_got := 0, p_current := None\<rparr>"

definition clear_parse_katcl :: "nat option \<Rightarrow> store \<Rightarrow> store res" where
  "clear_parse_katcl ptr s =
     bind_res (sane_parse_katcl ptr s) (\<lambda>(a, p).
     if p_refs p \<noteq> 1 then Inl Abort else Inr (st_put a (cleared p) s))"

definition destroy_parse_katcl :: "nat option \<Rightarrow> store \<Rightarrow> store res" where
  "destroy_parse_katcl ptr s =
     bind_res (sane_parse_katcl ptr s) (\<lambda>(a, p).
     let p1 = p\<lparr>p_refs := p_refs p - 1\<rparr> in
     Inr (if p_refs p1 \<le> 0 then st_free a s else st_put a p1 s))"

definition reuse_parse_katcl :: "bool \<Rightarrow> nat option \<Rightarrow> store \<Rightarrow> (nat option \<times> store) res" where
  "reuse_parse_katcl ok ptr s =
     bind_res (case ptr of None \<Rightarrow> Inr False | Some a \<Rightarrow> bind_res (deref a s) (\<lambda>p. Inr (p_refs p \<le> 1)))
     (\<lambda>alone.
     if alone then bind_res (clear_parse_katcl ptr s) (\<lambda>s1. Inr (ptr, s1))
     else bind_res (create_referenced_parse_katcl ok s) (\<lambda>(px, s1).
          bind_res (destroy_parse_katcl ptr s1) (\<lambda>s2. Inr (px, s2))))"

text \<open>An operation on a message that is reached through its address.\<close>

definition on_parse :: "nat \<Rightarrow> (parse \<Rightarrow> ('a \<times> parse) res) \<Rightarrow> store \<Rightarrow> ('a \<times> store) res" where
  "on_parse a f s =
     bind_res (deref a s) (\<lambda>p. bind_res (f p) (\<lambda>(v, p'). Inr (v, st_put a p' s)))"

text \<open>The names of the result codes (\<open>katcp/misc.c\<close>): a table indexed by the negated code,
  with a null pointer behind the names.\<close>

definition misc_result_table :: "string option list" where
  "misc_result_table = [Some ''ok'', Some ''fail'', Some ''invalid'', Some ''partial'', None]"

definition code_to_name_katcm :: "int \<Rightarrow> string option res" where
  "code_to_name_katcm code =
     (if 0 \<le> - code \<and> nat (- code) < length misc_result_table
      then Inr (misc_result_table ! nat (- code)) else Inl OutOfBounds)"

text \<open>Turning a request into its reply, in place when nobody else holds it. \<open>mem\<close> numbers
  the allocations: 0 for the copy of the name, 1 for the new message, 2 to 8 for the
  additions; \<open>extra\<close> is the text of the format and its arguments, if there is a format. The
  build leaves \<open>KATCP_ENABLE_TAGS\<close> out (\<open>Makefile.inc\<close>), so the reply carries no tag.\<close>

definition vturnaround_extra_parse_katcl ::
  "(nat \<Rightarrow> bool) \<Rightarrow> nat \<Rightarrow> int \<Rightarrow> string option \<Rightarrow> store \<Rightarrow> (nat option \<times> store) res" where
  "vturnaround_extra_parse_katcl mem a code extra s =
     bind_res (deref a s) (\<lambda>p.
     if p_state p \<noteq> PARSE_DONE then Inl Abort
     else bind_res (copy_string_parse_katcl (mem 0) p 0) (\<lambda>string.
     case string of
       None \<Rightarrow> Inr (None, s)
     | Some name \<Rightarrow>
       if name = [] \<or> hd name \<noteq> KATCP_REQUEST then Inl Abort
       else
       bind_res (reuse_parse_katcl (mem 1) (Some a) s) (\<lambda>(px, s1).
       case px of
         None \<Rightarrow> bind_res (destroy_parse_katcl (Some a) s1) (\<lambda>s2. Inr (None, s2))
       | Some b \<Rightarrow>
         let name1 = KATCP_REPLY # tl name; fl = KATCP_FLAG_FIRST OR KATCP_FLAG_STRING;
             last = KATCP_FLAG_LAST OR KATCP_FLAG_STRING in
         bind_res (on_parse b (add_string_parse_katcl (mem 2, mem 3) fl (Some name1)) s1) (\<lambda>(_, s2).
         bind_res (code_to_name_katcm code) (\<lambda>cname.
         let text = (case cname of Some t \<Rightarrow> t | None \<Rightarrow> KATCP_FAIL) in
         case extra of
           Some t \<Rightarrow>
             bind_res (on_parse b (add_plain_parse_katcl (mem 4, mem 5) KATCP_FLAG_STRING text) s2) (\<lambda>(_, s3).
             bind_res (on_parse b (add_vargs_parse_katcl (mem 6) (\<lambda>_. mem 7) last (Some t)) s3) (\<lambda>(_, s4).
             Inr (Some b, s4)))
         | None \<Rightarrow>
             bind_res (on_parse b (add_plain_parse_katcl (mem 4, mem 5) last text) s2) (\<lambda>(_, s3).
             Inr (Some b, s3)))))))"

definition turnaround_extra_parse_katcl ::
  "(nat \<Rightarrow> bool) \<Rightarrow> nat \<Rightarrow> int \<Rightarrow> string option \<Rightarrow> store \<Rightarrow> (nat option \<times> store) res" where
  "turnaround_extra_parse_katcl mem a code extra s = vturnaround_extra_parse_katcl mem a code extra s"

definition turnaround_parse_katcl ::
  "(nat \<Rightarrow> bool) \<Rightarrow> nat \<Rightarrow> int \<Rightarrow> store \<Rightarrow> (nat option \<times> store) res" where
  "turnaround_parse_katcl mem a code s = turnaround_extra_parse_katcl mem a code None s"

section \<open>Ownership\<close>

text \<open>\<open>M\<close> counts, for every address, the references that somebody holds and will give back.\<close>

definition addr_ok :: "nat \<Rightarrow> nat \<Rightarrow> nat \<Rightarrow> parse option \<Rightarrow> bool" where
  "addr_ok fresh n a x =
     (case x of
        None \<Rightarrow> n = 0
      | Some p \<Rightarrow> 0 < n \<and> p_refs p = int n \<and> parse_inv p \<and> a < fresh)"

definition refs_ok :: "store \<Rightarrow> nat multiset \<Rightarrow> bool" where
  "refs_ok s M \<longleftrightarrow> (\<forall>a. addr_ok (st_fresh s) (count M a) a (st_heap s a))"

lemma refs_okD: "refs_ok s M \<Longrightarrow> addr_ok (st_fresh s) (count M a) a (st_heap s a)"
  by (simp add: refs_ok_def)

lemma addr_ok_simps [simp]:
  "addr_ok f n a None = (n = 0)"
  "addr_ok f n a (Some p) = (0 < n \<and> p_refs p = int n \<and> parse_inv p \<and> a < f)"
  by (simp_all add: addr_ok_def)

lemma addr_ok_Suc: "addr_ok f n a x \<Longrightarrow> addr_ok (Suc f) n a x"
  by (cases x) simp_all

lemma refs_ok_live: "refs_ok s M \<Longrightarrow> a \<in># M \<Longrightarrow>
    \<exists>p. st_heap s a = Some p \<and> p_refs p = int (count M a) \<and> parse_inv p \<and> a < st_fresh s"
  using refs_okD [of s M a] by (cases "st_heap s a") (auto simp: count_eq_zero_iff)

lemma refs_ok_freshD: "refs_ok s M \<Longrightarrow> st_heap s (st_fresh s) = None \<and> st_fresh s \<notin># M"
  using refs_okD [of s M "st_fresh s"] by (cases "st_heap s (st_fresh s)") (auto simp: not_in_iff)

lemma refs_ok_change:
  assumes "refs_ok s M" "addr_ok (st_fresh s) (count N a) a x"
    "\<And>b. b \<noteq> a \<Longrightarrow> count N b = count M b"
  shows "refs_ok (s\<lparr>st_heap := (st_heap s)(a := x)\<rparr>) N"
  unfolding refs_ok_def
proof
  fix b
  show "addr_ok (st_fresh (s\<lparr>st_heap := (st_heap s)(a := x)\<rparr>)) (count N b) b
      (st_heap (s\<lparr>st_heap := (st_heap s)(a := x)\<rparr>) b)"
    using assms(2,3) refs_okD [OF assms(1), of b] by (cases "b = a") simp_all
qed

lemma refs_ok_put:
  assumes "refs_ok s M" "parse_inv p" "p_refs p = int (count N a)" "a \<in># N" "a < st_fresh s"
    "\<And>b. b \<noteq> a \<Longrightarrow> count N b = count M b"
  shows "refs_ok (st_put a p s) N"
  unfolding st_put_def using assms(2-) by (intro refs_ok_change [OF assms(1)]) auto

lemma refs_ok_grow: "refs_ok s M \<Longrightarrow> refs_ok (s\<lparr>st_fresh := Suc (st_fresh s)\<rparr>) M"
  by (simp add: refs_ok_def addr_ok_Suc)

lemma parse_inv_refs [simp]: "parse_inv (p\<lparr>p_refs := n\<rparr>) = parse_inv p"
  by (simp add: parse_inv_def)

lemma parse_args_refs [simp]: "parse_args (p\<lparr>p_refs := n\<rparr>) = parse_args p"
  by (simp add: parse_args_def arg_text_def)

lemma parse_inv_cleared: "parse_inv p \<Longrightarrow> parse_inv (cleared p)"
  by (auto simp: parse_inv_def cleared_def)

lemma create_referenced_ok:
  assumes "refs_ok s M"
  shows "create_referenced_parse_katcl ok s =
      Inr (if ok then (Some (st_fresh s),
             (st_put (st_fresh s) (fresh_parse\<lparr>p_refs := 1\<rparr>) s)\<lparr>st_fresh := st_fresh s + 1\<rparr>)
           else (None, s)) \<and>
    (ok \<longrightarrow> refs_ok ((st_put (st_fresh s) (fresh_parse\<lparr>p_refs := 1\<rparr>) s)\<lparr>st_fresh := st_fresh s + 1\<rparr>)
              (add_mset (st_fresh s) M) \<and> st_fresh s \<notin># M)"
proof -
  note n = refs_ok_freshD [OF assms]
  let ?s = "s\<lparr>st_fresh := Suc (st_fresh s)\<rparr>"
  have "create_referenced_parse_katcl ok s =
      Inr (if ok then (Some (st_fresh s),
             (st_put (st_fresh s) (fresh_parse\<lparr>p_refs := 1\<rparr>) s)\<lparr>st_fresh := st_fresh s + 1\<rparr>)
           else (None, s))"
    by (simp add: create_referenced_parse_katcl_def create_parse_katcl_def deref_def st_put_def fresh_parse_def)
  moreover have "refs_ok (st_put (st_fresh s) (fresh_parse\<lparr>p_refs := 1\<rparr>) ?s) (add_mset (st_fresh s) M)"
    using n by (intro refs_ok_put [OF refs_ok_grow [OF assms]]) (auto simp: not_in_iff)
  moreover have "st_put (st_fresh s) (fresh_parse\<lparr>p_refs := 1\<rparr>) ?s =
      (st_put (st_fresh s) (fresh_parse\<lparr>p_refs := 1\<rparr>) s)\<lparr>st_fresh := st_fresh s + 1\<rparr>"
    by (cases s) (simp add: st_put_def)
  ultimately show ?thesis using n by simp
qed

lemma copy_ok:
  assumes "refs_ok s M" "a \<in># M"
  shows "\<exists>p. st_heap s a = Some p \<and>
    copy_parse_katcl (Some a) s =
      Inr (if p_state p = PARSE_DONE then (Some a, st_put a (p\<lparr>p_refs := p_refs p + 1\<rparr>) s) else (None, s)) \<and>
    refs_ok (st_put a (p\<lparr>p_refs := p_refs p + 1\<rparr>) s) (add_mset a M)"
proof -
  obtain p where p: "st_heap s a = Some p" "p_refs p = int (count M a)" "parse_inv p" "a < st_fresh s"
    using refs_ok_live [OF assms] by auto
  have "refs_ok (st_put a (p\<lparr>p_refs := p_refs p + 1\<rparr>) s) (add_mset a M)"
    using p by (intro refs_ok_put [OF assms(1)]) auto
  then show ?thesis using p by (simp add: copy_parse_katcl_def sane_parse_katcl_def deref_def)
qed

lemma destroy_ok:
  assumes "refs_ok s (add_mset a M)"
  shows "\<exists>p s'. st_heap s a = Some p \<and> destroy_parse_katcl (Some a) s = Inr s' \<and> refs_ok s' M \<and>
    st_heap s' = (st_heap s)(a := (if a \<in># M then Some (p\<lparr>p_refs := p_refs p - 1\<rparr>) else None)) \<and>
    st_fresh s' = st_fresh s"
proof -
  obtain p where p: "st_heap s a = Some p" "p_refs p = int (count M a) + 1" "parse_inv p" "a < st_fresh s"
    using refs_ok_live [OF assms, of a] by auto
  show ?thesis
  proof (cases "a \<in># M")
    case True
    then have "destroy_parse_katcl (Some a) s = Inr (st_put a (p\<lparr>p_refs := p_refs p - 1\<rparr>) s)"
      using p by (simp add: destroy_parse_katcl_def sane_parse_katcl_def deref_def count_greater_zero_iff [symmetric]
          del: count_greater_zero_iff)
    moreover have "refs_ok (st_put a (p\<lparr>p_refs := p_refs p - 1\<rparr>) s) M"
      using p True by (intro refs_ok_put [OF assms]) auto
    ultimately show ?thesis using p True by (simp add: st_put_def)
  next
    case False
    then have "destroy_parse_katcl (Some a) s = Inr (st_free a s)"
      using p by (simp add: destroy_parse_katcl_def sane_parse_katcl_def deref_def not_in_iff)
    moreover have "refs_ok (st_free a s) M"
      unfolding st_free_def using False by (intro refs_ok_change [OF assms]) (auto simp: not_in_iff)
    ultimately show ?thesis using p False by (simp add: st_free_def)
  qed
qed


text \<open>What the other holders of a message see of an operation: their messages, with at most
  another count.\<close>

definition same_msgs :: "store \<Rightarrow> store \<Rightarrow> nat multiset \<Rightarrow> bool" where
  "same_msgs s s' M \<longleftrightarrow>
     (\<forall>c \<in># M. \<exists>p n. st_heap s c = Some p \<and> st_heap s' c = Some (p\<lparr>p_refs := n\<rparr>))"

lemma same_msgs_refl: "refs_ok s M \<Longrightarrow> same_msgs s s M"
  by (metis parse.surjective parse.update_convs(11) refs_ok_live same_msgs_def)

lemma same_msgs_trans: "same_msgs s t M \<Longrightarrow> same_msgs t u M \<Longrightarrow> same_msgs s u M"
  by (fastforce simp: same_msgs_def)

lemma same_msgs_put:
  assumes "refs_ok s N" "set_mset M \<subseteq> set_mset N" "a \<notin># M"
  shows "same_msgs s (st_put a p s) M"
proof -
  have "\<exists>q n. st_heap s c = Some q \<and> st_heap (st_put a p s) c = Some (q\<lparr>p_refs := n\<rparr>)" if mem: "c \<in># M" for c
  proof -
    obtain q where q: "st_heap s c = Some q" using refs_ok_live [OF assms(1), of c] assms(2) mem by auto
    moreover have "c \<noteq> a" using assms(3) mem by auto
    ultimately have "st_heap (st_put a p s) c = Some (q\<lparr>p_refs := p_refs q\<rparr>)" by (simp add: st_put_def)
    with q show ?thesis by blast
  qed
  then show ?thesis by (simp add: same_msgs_def)
qed

lemma destroy_same:
  assumes "refs_ok s (add_mset a M)" "destroy_parse_katcl (Some a) s = Inr s'"
  shows "same_msgs s s' M"
proof -
  obtain p where p: "st_heap s a = Some p"
    "st_heap s' = (st_heap s)(a := (if a \<in># M then Some (p\<lparr>p_refs := p_refs p - 1\<rparr>) else None))"
    using destroy_ok [OF assms(1)] assms(2) by auto
  have "\<exists>q n. st_heap s c = Some q \<and> st_heap s' c = Some (q\<lparr>p_refs := n\<rparr>)" if mem: "c \<in># M" for c
  proof (cases "c = a")
    case True
    then show ?thesis using p mem by auto
  next
    case False
    obtain q where q: "st_heap s c = Some q" using refs_ok_live [OF assms(1), of c] mem by auto
    then have "st_heap s' c = Some (q\<lparr>p_refs := p_refs q\<rparr>)" using p False by simp
    with q show ?thesis by blast
  qed
  then show ?thesis by (simp add: same_msgs_def)
qed

text \<open>A message with a single holder, as the builders need it.\<close>

definition blank :: "parse \<Rightarrow> bool" where
  "blank p \<longleftrightarrow> parse_inv p \<and> p_state p = PARSE_FRESH \<and> p_got p = 0 \<and> p_refs p = 1 \<and> p_tag p = -1 \<and>
     p_have p = 0 \<and> p_used p = 0"

lemma blank_fresh: "blank (fresh_parse\<lparr>p_refs := 1\<rparr>)"
  by (simp add: blank_def fresh_parse_def parse_inv_def)

lemma blank_cleared: "parse_inv p \<Longrightarrow> p_refs p = 1 \<Longrightarrow> blank (cleared p)"
  by (simp add: blank_def parse_inv_cleared) (simp add: cleared_def)

lemma reuse_ok:
  assumes "refs_ok s (add_mset a M)"
  shows "\<exists>px s'. reuse_parse_katcl ok (Some a) s = Inr (px, s') \<and> same_msgs s s' M \<and>
    (case px of
       None \<Rightarrow> \<not> ok \<and> a \<in># M \<and> refs_ok s' M
     | Some b \<Rightarrow> refs_ok s' (add_mset b M) \<and> b \<notin># M \<and> (\<exists>q. st_heap s' b = Some q \<and> blank q))"
proof -
  obtain p where p: "st_heap s a = Some p" "p_refs p = int (count M a) + 1" "parse_inv p" "a < st_fresh s"
    using refs_ok_live [OF assms, of a] by auto
  show ?thesis
  proof (cases "a \<in># M")
    case False
    then have r: "p_refs p = 1" using p(2) by (simp add: not_in_iff)
    have "refs_ok (st_put a (cleared p) s) (add_mset a M)"
      using p r False by (intro refs_ok_put [OF assms]) (simp_all add: parse_inv_cleared not_in_iff, simp add: cleared_def)
    moreover have "reuse_parse_katcl ok (Some a) s = Inr (Some a, st_put a (cleared p) s)"
      using p r by (simp add: reuse_parse_katcl_def clear_parse_katcl_def sane_parse_katcl_def deref_def)
    moreover have "same_msgs s (st_put a (cleared p) s) M"
      using False by (intro same_msgs_put [OF assms]) auto
    ultimately show ?thesis
      using False blank_cleared [OF p(3) r] by (simp add: st_put_def)
  next
    case True
    then obtain k where r: "count M a = Suc k" by (cases "count M a") (auto simp: count_eq_zero_iff)
    define s1 where "s1 = (if ok then (st_put (st_fresh s) (fresh_parse\<lparr>p_refs := 1\<rparr>) s)\<lparr>st_fresh := st_fresh s + 1\<rparr> else s)"
    define N where "N = (if ok then add_mset (st_fresh s) M else M)"
    note c = create_referenced_ok [OF assms, of ok]
    have c1: "create_referenced_parse_katcl ok s = Inr (if ok then Some (st_fresh s) else None, s1)"
      using c by (simp add: s1_def)
    have c2: "refs_ok s1 (add_mset a N)" "ok \<Longrightarrow> st_fresh s \<notin># add_mset a M"
      using c assms by (auto simp: s1_def N_def add_mset_commute)
    obtain s2 where d: "destroy_parse_katcl (Some a) s1 = Inr s2" "refs_ok s2 N"
        "st_heap s2 (st_fresh s) = (if ok then Some (fresh_parse\<lparr>p_refs := 1\<rparr>) else st_heap s2 (st_fresh s))"
      using destroy_ok [OF c2(1)] c2(2) by (auto simp: s1_def st_put_def)
    have "same_msgs s s1 M"
      using same_msgs_put [OF assms, of M "st_fresh s"] same_msgs_refl [OF assms] c2(2)
      by (cases ok) (auto simp: s1_def same_msgs_def)
    moreover have "same_msgs s1 s2 M"
      using destroy_same [OF c2(1) d(1)] by (auto simp: same_msgs_def N_def split: if_splits)
    ultimately have "same_msgs s s2 M" by (rule same_msgs_trans)
    moreover have "reuse_parse_katcl ok (Some a) s = Inr (if ok then Some (st_fresh s) else None, s2)"
      using p r c1 d(1) by (simp add: reuse_parse_katcl_def deref_def)
    ultimately show ?thesis
      using d c2 True blank_fresh by (auto simp: N_def)
  qed
qed

lemma on_parse_ok:
  assumes "refs_ok s (add_mset b M)" "b \<notin># M" "st_heap s b = Some p"
    "f p = Inr (v, q)" "parse_inv q" "p_refs q = p_refs p"
  shows "on_parse b f s = Inr (v, st_put b q s) \<and> refs_ok (st_put b q s) (add_mset b M) \<and>
    same_msgs s (st_put b q s) M \<and> st_heap (st_put b q s) b = Some q"
proof -
  have "refs_ok (st_put b q s) (add_mset b M)"
    using assms refs_ok_live [OF assms(1), of b] by (intro refs_ok_put [OF assms(1)]) auto
  moreover have "same_msgs s (st_put b q s) M"
    using assms(2) by (intro same_msgs_put [OF assms(1)]) auto
  ultimately show ?thesis using assms by (simp add: on_parse_def deref_def st_put_def)
qed

text \<open>An add that has its memory, on a message held once.\<close>

lemma on_parse_add:
  assumes "refs_ok s (add_mset b M)" "b \<notin># M" "st_heap s b = Some p" "add_ok True fl t e p (f p)"
  shows "\<exists>v q s'. on_parse b f s = Inr (v, s') \<and> refs_ok s' (add_mset b M) \<and> same_msgs s s' M \<and>
    st_heap s' b = Some q \<and> added fl t e p q"
proof -
  obtain v q where "f p = Inr (v, q)" "added fl t e p q"
    using assms(4) by (auto simp: add_ok_def split: sum.splits)
  then show ?thesis using on_parse_ok [OF assms(1-3), of f v q] by (auto simp: added_def)
qed


section \<open>Properties\<close>

text \<open>The reply to a request: the name with its type changed, the name of the code, and the
  extra text.\<close>

definition reply_args :: "parse \<Rightarrow> string \<Rightarrow> string option \<Rightarrow> string list" where
  "reply_args p text extra =
     (KATCP_REPLY # tl (cstr (parse_args p ! 0))) # text #
     (case extra of None \<Rightarrow> [] | Some t \<Rightarrow> [t])"

lemma turnaround_flags [simp]:
  "has_flag KATCP_FLAG_FIRST KATCP_FLAG_FIRST" "has_flag KATCP_FLAG_LAST KATCP_FLAG_LAST"
  "\<not> has_flag KATCP_FLAG_FIRST KATCP_FLAG_LAST" "\<not> has_flag KATCP_FLAG_LAST KATCP_FLAG_FIRST"
  "has_flag (KATCP_FLAG_FIRST OR KATCP_FLAG_STRING) KATCP_FLAG_FIRST"
  "\<not> has_flag (KATCP_FLAG_FIRST OR KATCP_FLAG_STRING) KATCP_FLAG_LAST"
  "\<not> has_flag (KATCP_FLAG_LAST OR KATCP_FLAG_STRING) KATCP_FLAG_FIRST"
  "has_flag (KATCP_FLAG_LAST OR KATCP_FLAG_STRING) KATCP_FLAG_LAST"
  "\<not> has_flag KATCP_FLAG_STRING KATCP_FLAG_FIRST" "\<not> has_flag KATCP_FLAG_STRING KATCP_FLAG_LAST"
  by (simp_all add: flag_defs)

lemma code_to_name_range:
  assumes "-3 \<le> code" "code \<le> 0"
  shows "\<exists>t. code_to_name_katcm code = Inr (Some t) \<and> misc_result_table ! nat (- code) = Some t"
proof -
  have "code = 0 \<or> code = -1 \<or> code = -2 \<or> code = -3" using assms by linarith
  then show ?thesis by (elim disjE) (simp_all add: code_to_name_katcm_def misc_result_table_def eval_nat_numeral)
qed

lemma turnaround_shown:
  assumes refs: "refs_ok s (add_mset a M)" and p: "st_heap s a = Some p" "p_state p = PARSE_DONE"
    and req: "0 < p_got p" "parse_args p ! 0 = KATCP_REQUEST # n"
    and code: "code_to_name_katcm code = Inr (Some text)" and mem: "\<forall>i. mem i"
  shows "\<exists>b s' q. vturnaround_extra_parse_katcl mem a code extra s = Inr (Some b, s') \<and>
    refs_ok s' (add_mset b M) \<and> same_msgs s s' M \<and> st_heap s' b = Some q \<and>
    p_state q = PARSE_DONE \<and> parse_args q = reply_args p text extra \<and> p_tag q = -1 \<and> b \<notin># M"
proof -
  have inv: "parse_inv p" using refs_ok_live [OF refs, of a] p by simp
  have c0: "cstr (parse_args p ! 0) = KATCP_REQUEST # cstr n"
    using req by (simp add: cstr_def KATCP_REQUEST_def)
  have name: "copy_string_parse_katcl True p 0 = Inr (Some (KATCP_REQUEST # cstr n))"
    using get_string_spec [OF inv, of 0] req c0 by (simp add: copy_string_parse_katcl_def)
  define name1 where "name1 = KATCP_REPLY # cstr n"
  obtain b s1 q1 where r: "reuse_parse_katcl True (Some a) s = Inr (Some b, s1)" "same_msgs s s1 M"
      "refs_ok s1 (add_mset b M)" "b \<notin># M" "st_heap s1 b = Some q1" "blank q1"
    using reuse_ok [OF refs, of True] by (auto split: option.splits)
  let ?fl = "KATCP_FLAG_FIRST OR KATCP_FLAG_STRING"
  let ?f = "add_string_parse_katcl (True, True) ?fl (Some (KATCP_REPLY # cstr n))"
  have can: "can_add ?fl q1" using r(6) by (simp add: can_add_def blank_def)
  have ok1: "add_ok True ?fl name1 1 q1 (?f q1)"
    using add_string_ok [OF can, of "(True, True)" "Some name1"] by (simp add: name1_def)
  obtain v2 q2 s2 where a2: "on_parse b ?f s1 = Inr (v2, s2)" "refs_ok s2 (add_mset b M)"
      "same_msgs s1 s2 M" "st_heap s2 b = Some q2" "added ?fl name1 1 q1 q2"
    using on_parse_add [where f = ?f, OF r(3-5) ok1] by blast
  have args2: "parse_args q2 = [name1]"
  proof -
    have "parse_args q1 = []" using r(6) by (simp add: blank_def parse_args_def)
    then show ?thesis using a2(5) by (simp add: added_def)
  qed
  have tag2: "p_tag q2 = -1" using a2(5) r(6) by (simp add: added_def blank_def)
  have more2: "can_add_more q2" using added_more [OF a2(5)] by simp
  show ?thesis
  proof (cases extra)
    case None
    let ?l = "KATCP_FLAG_LAST OR KATCP_FLAG_STRING"
    have "can_add ?l q2" using can_add_more [OF more2] by simp
    from add_unsafe_ok [OF this, of "(True, True)" "text"]
    have ok3: "add_ok True ?l text 0 q2 (add_plain_parse_katcl (True, True) ?l text q2)"
      by (simp add: add_plain_parse_katcl_def)
    obtain v3 q3 s3 where a3: "on_parse b (add_plain_parse_katcl (True, True) ?l text) s2 = Inr (v3, s3)"
        "refs_ok s3 (add_mset b M)" "same_msgs s2 s3 M" "st_heap s3 b = Some q3" "added ?l text 0 q2 q3"
      using on_parse_add [where f = "add_plain_parse_katcl (True, True) ?l text", OF a2(2) r(4) a2(4) ok3] by blast
    have "vturnaround_extra_parse_katcl mem a code extra s = Inr (Some b, s3)"
      using p name r(1) a2(1) a3(1) code None mem
      by (simp add: vturnaround_extra_parse_katcl_def deref_def Let_def)
    moreover have "parse_args q3 = reply_args p text extra"
      using a3(5) args2 None c0 by (simp add: added_def reply_args_def name1_def)
    ultimately show ?thesis
      using a3 r(4) tag2 same_msgs_trans [OF r(2) same_msgs_trans [OF a2(3) a3(3)]] by (auto simp: added_def)
  next
    case (Some t)
    let ?l = "KATCP_FLAG_STRING" and ?l4 = "KATCP_FLAG_LAST OR KATCP_FLAG_STRING"
    have "can_add ?l q2" using can_add_more [OF more2] by simp
    from add_unsafe_ok [OF this, of "(True, True)" "text"]
    have ok3: "add_ok True ?l text 0 q2 (add_plain_parse_katcl (True, True) ?l text q2)"
      by (simp add: add_plain_parse_katcl_def)
    obtain v3 q3 s3 where a3: "on_parse b (add_plain_parse_katcl (True, True) ?l text) s2 = Inr (v3, s3)"
        "refs_ok s3 (add_mset b M)" "same_msgs s2 s3 M" "st_heap s3 b = Some q3" "added ?l text 0 q2 q3"
      using on_parse_add [where f = "add_plain_parse_katcl (True, True) ?l text", OF a2(2) r(4) a2(4) ok3] by blast
    have "can_add ?l4 q3" using can_add_more [OF added_more [OF a3(5)]] by simp
    from add_vargs_ok [OF this, of True "\<lambda>_. True" t]
    have ok4: "add_ok True ?l4 t 1 q3 (add_vargs_parse_katcl True (\<lambda>_. True) ?l4 (Some t) q3)" by simp
    obtain v4 q4 s4 where a4: "on_parse b (add_vargs_parse_katcl True (\<lambda>_. True) ?l4 (Some t)) s3 = Inr (v4, s4)"
        "refs_ok s4 (add_mset b M)" "same_msgs s3 s4 M" "st_heap s4 b = Some q4" "added ?l4 t 1 q3 q4"
      using on_parse_add [where f = "add_vargs_parse_katcl True (\<lambda>_. True) ?l4 (Some t)",
          OF a3(2) r(4) a3(4) ok4] by blast
    have "vturnaround_extra_parse_katcl mem a code extra s = Inr (Some b, s4)"
      using p name r(1) a2(1) a3(1) a4(1) code Some mem
      by (simp add: vturnaround_extra_parse_katcl_def deref_def Let_def)
    moreover have "parse_args q4 = reply_args p text extra"
      using a3(5) a4(5) args2 Some c0 by (simp add: added_def reply_args_def name1_def)
    ultimately show ?thesis
      using a4 a3(5) r(4) tag2 same_msgs_trans [OF r(2) same_msgs_trans [OF a2(3) same_msgs_trans [OF a3(3) a4(3)]]]
      by (auto simp: added_def)
  qed
qed


text \<open>A store with two messages: 0 held twice, 1 held once.\<close>

definition request_msg :: parse where
  "request_msg = fresh_parse\<lparr>p_state := PARSE_DONE, p_buffer := ''?a'' @ [nul] @ ''b'' @ [nul],
     p_size := 5, p_have := 5, p_used := 5, p_kept := 5, p_count := 2, p_got := 2, p_tag := 7,
     p_args := [\<lparr>a_begin = 0, a_end = 2, a_escape = 0\<rparr>, \<lparr>a_begin = 3, a_end = 4, a_escape = 1\<rparr>]\<rparr>"

definition sample_store :: store where
  "sample_store = \<lparr>st_heap = [0 \<mapsto> request_msg\<lparr>p_refs := 2\<rparr>, 1 \<mapsto> request_msg\<lparr>p_refs := 1\<rparr>], st_fresh = 2\<rparr>"

lemma request_msg: "parse_inv request_msg" "parse_args request_msg = [''?a'', ''b'']"
  "p_got request_msg = 2" "p_tag request_msg = 7" "p_state request_msg = PARSE_DONE"
  by (simp_all add: request_msg_def fresh_parse_def parse_inv_def parse_args_def arg_text_def slice_def
      All_less_Suc numeral_2_eq_2 upt_rec)

lemma sample_store: "refs_ok sample_store {#0, 0, 1#}"
  using request_msg(1) by (auto simp: refs_ok_def sample_store_def)

text \<open>C9. Copying, destroying and reusing a message follow the ownership discipline: with every
  count equal to the number of holders, copying a complete message adds one holder of the same
  message and an incomplete one is refused, destroying takes one holder away and frees the
  message exactly with its last, and reusing gives back one holder and yields an empty message
  that nobody else holds, or nothing when there is no memory for a new one. None of them changes
  what a holder sees of any message, and no freed message is touched.\<close>

theorem sharing_discipline:
  assumes "refs_ok s (add_mset a M)"
  shows "(\<exists>p s'. st_heap s a = Some p \<and>
      copy_parse_katcl (Some a) s = Inr (if p_state p = PARSE_DONE then (Some a, s') else (None, s)) \<and>
      refs_ok s' (add_mset a (add_mset a M)) \<and> same_msgs s s' (add_mset a M) \<and> dom (st_heap s') = dom (st_heap s)) \<and>
    (\<exists>s'. destroy_parse_katcl (Some a) s = Inr s' \<and> refs_ok s' M \<and> same_msgs s s' M \<and>
      (st_heap s' a = None) = (a \<notin># M)) \<and>
    (\<exists>px s'. reuse_parse_katcl ok (Some a) s = Inr (px, s') \<and> same_msgs s s' M \<and>
      (case px of
         None \<Rightarrow> \<not> ok \<and> a \<in># M \<and> refs_ok s' M
       | Some b \<Rightarrow> refs_ok s' (add_mset b M) \<and> b \<notin># M \<and> (\<exists>q. st_heap s' b = Some q \<and> blank q)))"
proof (intro conjI)
  obtain p where p: "st_heap s a = Some p"
      "copy_parse_katcl (Some a) s =
        Inr (if p_state p = PARSE_DONE then (Some a, st_put a (p\<lparr>p_refs := p_refs p + 1\<rparr>) s) else (None, s))"
      "refs_ok (st_put a (p\<lparr>p_refs := p_refs p + 1\<rparr>) s) (add_mset a (add_mset a M))"
    using copy_ok [OF assms, of a] by auto
  have "same_msgs s (st_put a (p\<lparr>p_refs := p_refs p + 1\<rparr>) s) (add_mset a M)"
    using p(1) same_msgs_refl [OF assms] by (auto simp: same_msgs_def st_put_def)
  moreover have "dom (st_heap (st_put a (p\<lparr>p_refs := p_refs p + 1\<rparr>) s)) = dom (st_heap s)"
    using p(1) by (auto simp: st_put_def)
  ultimately show "\<exists>p s'. st_heap s a = Some p \<and>
      copy_parse_katcl (Some a) s = Inr (if p_state p = PARSE_DONE then (Some a, s') else (None, s)) \<and>
      refs_ok s' (add_mset a (add_mset a M)) \<and> same_msgs s s' (add_mset a M) \<and> dom (st_heap s') = dom (st_heap s)"
    using p by blast
  show "\<exists>s'. destroy_parse_katcl (Some a) s = Inr s' \<and> refs_ok s' M \<and> same_msgs s s' M \<and>
      (st_heap s' a = None) = (a \<notin># M)"
    using destroy_ok [OF assms] destroy_same [OF assms] by fastforce
  show "\<exists>px s'. reuse_parse_katcl ok (Some a) s = Inr (px, s') \<and> same_msgs s s' M \<and>
      (case px of
         None \<Rightarrow> \<not> ok \<and> a \<in># M \<and> refs_ok s' M
       | Some b \<Rightarrow> refs_ok s' (add_mset b M) \<and> b \<notin># M \<and> (\<exists>q. st_heap s' b = Some q \<and> blank q))"
    by (rule reuse_ok [OF assms])
qed

theorem sharing_discipline_witness:
  "\<exists>s'. destroy_parse_katcl (Some 0) sample_store = Inr s' \<and> refs_ok s' {#0, 1#} \<and> st_heap s' 0 \<noteq> None"
proof -
  have "refs_ok sample_store (add_mset 0 {#0, 1#})" using sample_store by simp
  from sharing_discipline [OF this, of True] show ?thesis by (auto split: option.splits)
qed

text \<open>C10. Turning a request around gives its reply and nothing else: a complete message whose
  first argument is the request's name with the type of a reply, followed by the name of the
  result code and by the text of the format, if there is one; a tag of the request is dropped,
  as the build has it. This holds when every allocation succeeds; the property about the double
  release says what happens when there is no memory for the reply. The caller's reference becomes
  one to the reply, and the other holders of the request keep it as it was.\<close>

theorem turnaround_reply:
  assumes "refs_ok s (add_mset a M)" "st_heap s a = Some p" "p_state p = PARSE_DONE"
    "0 < p_got p" "parse_args p ! 0 = KATCP_REQUEST # n" "-3 \<le> code" "code \<le> 0" "\<forall>i. mem i"
  shows "\<exists>b s' q text. vturnaround_extra_parse_katcl mem a code extra s = Inr (Some b, s') \<and>
    refs_ok s' (add_mset b M) \<and> same_msgs s s' M \<and> st_heap s' b = Some q \<and>
    p_state q = PARSE_DONE \<and> misc_result_table ! nat (- code) = Some text \<and>
    parse_args q = reply_args p text extra"
proof -
  obtain cname where "code_to_name_katcm code = Inr (Some cname)" "misc_result_table ! nat (- code) = Some cname"
    using code_to_name_range [OF assms(6,7)] by blast
  then show ?thesis using turnaround_shown [OF assms(1-5) _ assms(8), of code cname extra] by blast
qed

theorem turnaround_reply_witness:
  "\<exists>b s' q. vturnaround_extra_parse_katcl (\<lambda>_. True) 0 (-1) (Some ''x'') sample_store = Inr (Some b, s') \<and>
    refs_ok s' {#b, 0, 1#} \<and> st_heap s' b = Some q \<and> parse_args q = [''!a'', ''fail'', ''x'']"
proof -
  let ?p = "request_msg\<lparr>p_refs := 2\<rparr>"
  have p: "st_heap sample_store 0 = Some ?p" "p_state ?p = PARSE_DONE" "0 < p_got ?p"
    "parse_args ?p ! 0 = KATCP_REQUEST # ''a''" "parse_args ?p = [''?a'', ''b'']"
    using request_msg by (simp_all add: sample_store_def KATCP_REQUEST_def del: parse_args_nth)
  have "reply_args ?p ''fail'' (Some ''x'') = [''!a'', ''fail'', ''x'']"
    using p(5) by (simp add: reply_args_def KATCP_REPLY_def cstr_def)
  then show ?thesis
    using turnaround_reply [OF _ p(1-4), of "{#0, 1#}" "-1" "\<lambda>_. True" "Some ''x''"] sample_store
    by (auto simp: misc_result_table_def eval_nat_numeral)
qed

text \<open>C16. When there is no memory for the reply, \<open>vturnaround_extra_parse_katcl\<close> gives back the
  caller's reference twice: \<open>reuse_parse_katcl\<close> has already destroyed the request that it
  destroys again. With two holders the message is freed under the other one.\<close>

theorem turnaround_releases_twice:
  assumes "refs_ok s {#a, a#}" "st_heap s a = Some p" "p_state p = PARSE_DONE"
    "0 < p_got p" "parse_args p ! 0 = KATCP_REQUEST # n" "mem 0" "\<not> mem 1"
  shows "\<exists>s'. vturnaround_extra_parse_katcl mem a code extra s = Inr (None, s') \<and> st_heap s' a = None"
proof -
  have inv: "parse_inv p" and r: "p_refs p = 2" using refs_ok_live [OF assms(1), of a] assms(2) by auto
  have "cstr (parse_args p ! 0) = KATCP_REQUEST # cstr n"
    using assms(5) by (simp add: cstr_def KATCP_REQUEST_def)
  then have name: "copy_string_parse_katcl True p 0 = Inr (Some (KATCP_REQUEST # cstr n))"
    using get_string_spec [OF inv, of 0] assms(4,5) by (simp add: copy_string_parse_katcl_def)
  have "reuse_parse_katcl False (Some a) s = Inr (None, st_put a (p\<lparr>p_refs := 1\<rparr>) s)"
    using assms(2) r by (simp add: reuse_parse_katcl_def deref_def create_referenced_parse_katcl_def
        create_parse_katcl_def destroy_parse_katcl_def sane_parse_katcl_def Let_def)
  then show ?thesis
    using assms name by (simp add: vturnaround_extra_parse_katcl_def deref_def st_put_def st_free_def
        destroy_parse_katcl_def sane_parse_katcl_def Let_def)
qed

theorem turnaround_releases_twice_witness:
  "\<exists>s'. vturnaround_extra_parse_katcl (\<lambda>i. i = 0) 0 (-1) None
      \<lparr>st_heap = [0 \<mapsto> request_msg\<lparr>p_refs := 2\<rparr>], st_fresh = 1\<rparr> = Inr (None, s') \<and> st_heap s' 0 = None"
proof -
  let ?s = "\<lparr>st_heap = [0 \<mapsto> request_msg\<lparr>p_refs := 2\<rparr>], st_fresh = 1\<rparr>"
  let ?p = "request_msg\<lparr>p_refs := 2\<rparr>"
  have p: "st_heap ?s 0 = Some ?p" "p_state ?p = PARSE_DONE" "0 < p_got ?p"
    "parse_args ?p ! 0 = KATCP_REQUEST # ''a''"
    using request_msg by (simp_all add: KATCP_REQUEST_def del: parse_args_nth)
  have "refs_ok ?s {#0, 0#}" using request_msg(1) by (auto simp: refs_ok_def)
  from turnaround_releases_twice [OF this p, of "\<lambda>i. i = 0"] show ?thesis by simp
qed

end
