(* ===== verification/Parse_Queue.thy ===== *)
theory Parse_Queue
  imports Parse_Store Gen_Queue
begin

text \<open>
  The queue of messages (\<open>katcp/queue.c\<close>): a circular array of pointers, like the generic
  queue, that holds a counted reference to each of its messages. Its array is laid out and
  grows exactly as that of \<open>Gen_Queue\<close>, which the lemmas here use through \<open>as_gueue\<close>;
  removal differs, as this code moves the tail instead of the head when the used part does
  not wrap around. The queue offers the first-in first-out contract to the line's writer.
\<close>

section \<open>State and operations\<close>

record pqueue =
  q_queue :: "nat option list"
  q_head :: nat
  q_count :: nat
  q_size :: nat

definition create_queue_katcl :: "bool \<Rightarrow> pqueue option" where
  "create_queue_katcl ok =
     (if ok then Some \<lparr>q_queue = [], q_head = 0, q_count = 0, q_size = 0\<rparr> else None)"

text \<open>The loop that \<open>destroy\<close> and \<open>clear\<close> share: \<open>n\<close> slots from position \<open>j\<close> on.\<close>

fun destroy_slots :: "nat \<Rightarrow> nat \<Rightarrow> pqueue \<Rightarrow> store \<Rightarrow> (pqueue \<times> store) res" where
  "destroy_slots 0 j q s = Inr (q, s)"
| "destroy_slots (Suc n) j q s =
     (if q_size q = 0 then Inl OutOfBounds
      else let i = (q_head q + j) mod q_size q in
        if i \<ge> length (q_queue q) then Inl OutOfBounds
        else bind_res (destroy_parse_katcl (q_queue q ! i) s) (\<lambda>s1.
             destroy_slots n (j + 1) (q\<lparr>q_queue := (q_queue q)[i := None]\<rparr>) s1))"

definition clear_queue_katcl :: "pqueue \<Rightarrow> store \<Rightarrow> (pqueue \<times> store) res" where
  "clear_queue_katcl q s =
     bind_res (destroy_slots (q_count q) 0 q s) (\<lambda>(q1, s1). Inr (q1\<lparr>q_count := 0\<rparr>, s1))"

definition destroy_queue_katcl :: "pqueue \<Rightarrow> store \<Rightarrow> store res" where
  "destroy_queue_katcl q s = bind_res (destroy_slots (q_count q) 0 q s) (\<lambda>(q1, s1). Inr s1)"

text \<open>The array part of \<open>add_tail_queue_katcl\<close>: make room, and store a pointer behind the
  last one.\<close>

definition make_room :: "bool \<Rightarrow> pqueue \<Rightarrow> (bool \<times> pqueue) res" where
  "make_room ok q =
     (if q_count q \<ge> q_size q then
        (if q_size q < q_count q then Inl Abort
         else if \<not> ok then Inr (False, q)
         else Inr (True, q\<lparr>q_queue := grow_slots (q_queue q) (q_size q) (q_head q),
                           q_size := q_size q + 1\<rparr>))
      else Inr (True, q))"

definition put_tail :: "nat option \<Rightarrow> pqueue \<Rightarrow> pqueue" where
  "put_tail ptr q =
     (let index = (q_head q + q_count q) mod q_size q
      in q\<lparr>q_queue := (q_queue q)[index := ptr], q_count := q_count q + 1\<rparr>)"

definition add_tail_queue_katcl ::
  "bool \<Rightarrow> pqueue \<Rightarrow> nat option \<Rightarrow> store \<Rightarrow> (int \<times> pqueue \<times> store) res" where
  "add_tail_queue_katcl ok q p s =
     (if p = None then Inr (-1, q, s)
      else bind_res (make_room ok q) (\<lambda>(room, q1).
        if \<not> room then Inr (-1, q1, s)
        else bind_res (copy_parse_katcl p s) (\<lambda>(ptr, s1). Inr (0, put_tail ptr q1, s1))))"

definition get_index_queue_katcl :: "pqueue \<Rightarrow> nat \<Rightarrow> nat option" where
  "get_index_queue_katcl q index =
     (if q_count q = 0 \<or> q_size q = 0 \<or> q_count q \<ge> q_size q then None
      else if q_count q > index \<and> index < q_size q
      then q_queue q ! ((q_head q + index) mod q_size q) else None)"

definition get_head_queue_katcl :: "pqueue \<Rightarrow> nat option" where
  "get_head_queue_katcl q = (if q_count q > 0 then q_queue q ! q_head q else None)"

definition remove_index_queue_katcl :: "pqueue \<Rightarrow> nat \<Rightarrow> (nat option \<times> pqueue) res" where
  "remove_index_queue_katcl q index =
     (if q_count q = 0 then Inr (None, q)
      else if index \<ge> q_size q then Inl Abort
      else if q_queue q ! index = None then Inl Abort
      else
        let p = q_queue q ! index;
            q1 = q\<lparr>q_queue := (q_queue q)[index := None]\<rparr>;
            end = q_head q1 + q_count q1 - 1
        in
        if index = q_head q1 then
          Inr (p, q1\<lparr>q_head := (q_head q1 + 1) mod q_size q1, q_count := q_count q1 - 1\<rparr>)
        else if q_head q1 + q_count q1 > q_size q1 \<and> index \<ge> q_head q1 then
          let a = (if index > q_head q1
                   then memmove (q_head q1 + 1) (q_head q1) (index - q_head q1) (q_queue q1)
                   else q_queue q1)
          in Inr (p, q1\<lparr>q_queue := a[q_head q1 := None], q_head := (q_head q1 + 1) mod q_size q1,
                        q_count := q_count q1 - 1\<rparr>)
        else if \<not> q_head q1 + q_count q1 > q_size q1 \<and> index < q_head q1 then Inr (None, q1)
        else if index > end then Inr (None, q1)
        else if end \<ge> length (q_queue q1) then Inl OutOfBounds
        else
          let a = (if index < end then memmove index (index + 1) (end - index) (q_queue q1)
                   else q_queue q1)
          in Inr (p, q1\<lparr>q_queue := a[end := None], q_count := q_count q1 - 1\<rparr>))"

definition remove_head_queue_katcl :: "pqueue \<Rightarrow> (nat option \<times> pqueue) res" where
  "remove_head_queue_katcl q = remove_index_queue_katcl q (q_head q)"

definition size_queue_katcl :: "pqueue option \<Rightarrow> nat" where
  "size_queue_katcl q = (case q of None \<Rightarrow> 0 | Some q' \<Rightarrow> q_count q')"

section \<open>Invariant and abstraction\<close>

definition as_gueue :: "pqueue \<Rightarrow> nat gueue" where
  "as_gueue q = \<lparr>g_queue = q_queue q, g_size = q_size q, g_head = q_head q, g_count = q_count q,
     g_release = True, g_precedence = None\<rparr>"

definition pq_inv :: "pqueue \<Rightarrow> bool" where
  "pq_inv q \<longleftrightarrow> gueue_inv (as_gueue q)"

definition pq_items :: "pqueue \<Rightarrow> nat list" where
  "pq_items q = gueue_items (as_gueue q)"

lemma as_gueue_simps [simp]:
  "g_queue (as_gueue q) = q_queue q" "g_size (as_gueue q) = q_size q" "g_head (as_gueue q) = q_head q"
  "g_count (as_gueue q) = q_count q"
  by (simp_all add: as_gueue_def)

lemma length_pq_items [simp]: "length (pq_items q) = q_count q"
  by (simp add: pq_items_def)

lemma pq_refines:
  assumes "gueue_inv g" "gueue_items g = xs" "q_queue q = g_queue g" "q_size q = g_size g"
    "q_head q = g_head g" "q_count q = g_count g"
  shows "pq_inv q \<and> pq_items q = xs"
  using assms by (auto simp: pq_inv_def pq_items_def as_gueue_def gueue_inv_def gueue_items_def gueue_slot_def)

text \<open>Adding is the addition of the generic queue.\<close>

lemma tail_refines:
  assumes "pq_inv q" "ok \<or> q_count q < q_size q"
  shows "\<exists>q1. make_room ok q = Inr (True, q1) \<and> pq_inv (put_tail (Some a) q1) \<and>
    pq_items (put_tail (Some a) q1) = pq_items q @ [a]"
proof -
  obtain g where g: "add_tail_gueue_katcl ok (as_gueue q) (Some a) = Inr (0, g)" "gueue_inv g"
      "gueue_items g = pq_items q @ [a]"
    using add_tail_refines [of "as_gueue q" ok a] assms by (auto simp: pq_inv_def pq_items_def)
  obtain q1 where q1: "make_room ok q = Inr (True, q1)"
    using g(1) assms(2) by (auto simp: make_room_def add_tail_gueue_katcl_def Let_def split: if_splits)
  have "q_queue (put_tail (Some a) q1) = g_queue g \<and> q_size (put_tail (Some a) q1) = g_size g \<and>
      q_head (put_tail (Some a) q1) = g_head g \<and> q_count (put_tail (Some a) q1) = g_count g"
    using g(1) q1 assms(2)
    by (auto simp: make_room_def add_tail_gueue_katcl_def put_tail_def Let_def split: if_splits)
  then show ?thesis using q1 pq_refines [OF g(2,3)] by blast
qed

lemma make_room_fails:
  "pq_inv q \<Longrightarrow> \<not> (ok \<or> q_count q < q_size q) \<Longrightarrow> make_room ok q = Inr (False, q)"
  by (auto simp: make_room_def pq_inv_def gueue_inv_def)

lemma remove_head_pq:
  assumes "pq_inv q"
  shows "\<exists>q'. remove_head_queue_katcl q = Inr (fst (list_deq (pq_items q)), q') \<and> pq_inv q' \<and>
    pq_items q' = snd (list_deq (pq_items q)) \<and> get_head_queue_katcl q = fst (list_deq (pq_items q))"
proof (cases "q_count q = 0")
  case True
  then have "pq_items q = []" by (metis length_0_conv length_pq_items)
  then show ?thesis using True assms
    by (auto simp: remove_head_queue_katcl_def remove_index_queue_katcl_def get_head_queue_katcl_def list_deq_def)
next
  case False
  have inv: "gueue_inv (as_gueue q)" "0 < g_count (as_gueue q)" using assms False by (simp_all add: pq_inv_def)
  note u = gueue_used_slot [OF inv, simplified]
  obtain g where g: "remove_head_gueue_katcl (as_gueue q) = Inr (fst (list_deq (pq_items q)), g)" "gueue_inv g"
      "gueue_items g = snd (list_deq (pq_items q))"
    using remove_head_refines [OF inv(1)] by (auto simp: pq_items_def)
  let ?q = "q\<lparr>q_queue := (q_queue q)[q_head q := None], q_head := (q_head q + 1) mod q_size q,
    q_count := q_count q - 1\<rparr>"
  have "remove_head_queue_katcl q = Inr (q_queue q ! q_head q, ?q)"
    using u False by (simp add: remove_head_queue_katcl_def remove_index_queue_katcl_def Let_def)
  moreover have "fst (list_deq (pq_items q)) = q_queue q ! q_head q"
    using g(1) u False
    by (simp add: remove_head_gueue_katcl_def remove_index_gueue_katcl_def Let_def)
  moreover have "pq_inv ?q \<and> pq_items ?q = snd (list_deq (pq_items q))"
    using g(1) u False
    by (intro pq_refines [OF g(2,3)])
      (auto simp: remove_head_gueue_katcl_def remove_index_gueue_katcl_def Let_def)
  ultimately show ?thesis using False by (simp add: get_head_queue_katcl_def)
qed


section \<open>The queue and the messages it holds\<close>

definition pq_slot :: "pqueue \<Rightarrow> nat \<Rightarrow> nat option" where
  "pq_slot q j = q_queue q ! ((q_head q + j) mod q_size q)"

lemma gueue_slot_as [simp]: "gueue_slot (as_gueue q) j = pq_slot q j"
  by (simp add: gueue_slot_def pq_slot_def)

lemma same_msgs_mono: "same_msgs s s' N \<Longrightarrow> set_mset M \<subseteq> set_mset N \<Longrightarrow> same_msgs s s' M"
  by (auto simp: same_msgs_def)

lemma destroy_slots_ok:
  assumes "length (q_queue q) = q_size q" "q_head q < q_size q" "j + length xs \<le> q_size q"
    "\<And>k. k < length xs \<Longrightarrow> pq_slot q (j + k) = Some (xs ! k)" "refs_ok s (mset xs + M)"
  shows "\<exists>q' s'. destroy_slots (length xs) j q s = Inr (q', s') \<and> refs_ok s' M \<and> same_msgs s s' M \<and>
    length (q_queue q') = q_size q \<and> q_size q' = q_size q \<and> q_head q' = q_head q \<and> q_count q' = q_count q \<and>
    (\<forall>k < q_size q. pq_slot q' k = (if j \<le> k \<and> k < j + length xs then None else pq_slot q k))"
  using assms
proof (induction xs arbitrary: j q s)
  case Nil
  then show ?case using same_msgs_refl by auto
next
  case (Cons x xs)
  let ?i = "(q_head q + j) mod q_size q"
  let ?q = "q\<lparr>q_queue := (q_queue q)[?i := None]\<rparr>"
  have i: "?i < q_size q" using Cons.prems(2) by simp
  have x: "q_queue q ! ?i = Some x" using Cons.prems(4) [of 0] by (simp add: pq_slot_def)
  obtain s1 where d: "destroy_parse_katcl (Some x) s = Inr s1" "refs_ok s1 (mset xs + M)" "same_msgs s s1 (mset xs + M)"
    using destroy_ok [of s x "mset xs + M"] destroy_same [of s x "mset xs + M"] Cons.prems(5) by auto
  have slot: "pq_slot ?q k = (if k = j then None else pq_slot q k)" if "k < q_size q" for k
    using that i Cons.prems(1-3) wrap_inj [of "q_head q" "q_size q" k j]
    by (auto simp: pq_slot_def nth_list_update)
  have "\<exists>q' s'. destroy_slots (length xs) (Suc j) ?q s1 = Inr (q', s') \<and> refs_ok s' M \<and> same_msgs s1 s' M \<and>
    length (q_queue q') = q_size ?q \<and> q_size q' = q_size ?q \<and> q_head q' = q_head ?q \<and> q_count q' = q_count ?q \<and>
    (\<forall>k < q_size ?q. pq_slot q' k = (if Suc j \<le> k \<and> k < Suc j + length xs then None else pq_slot ?q k))"
  proof (rule Cons.IH)
    fix k assume "k < length xs"
    then show "pq_slot ?q (Suc j + k) = Some (xs ! k)"
      using Cons.prems(3) Cons.prems(4) [of "Suc k"] slot [of "Suc j + k"] by simp
  qed (use Cons.prems d(2) in auto)
  then obtain q' s' where r: "destroy_slots (length xs) (Suc j) ?q s1 = Inr (q', s')" "refs_ok s' M"
    "same_msgs s1 s' M" "length (q_queue q') = q_size q" "q_size q' = q_size q" "q_head q' = q_head q"
    "q_count q' = q_count q"
    "\<forall>k < q_size q. pq_slot q' k = (if Suc j \<le> k \<and> k < Suc j + length xs then None else pq_slot ?q k)"
    by auto
  have "same_msgs s s' M"
    using same_msgs_trans [OF same_msgs_mono [OF d(3)] r(3)] by simp
  moreover have "destroy_slots (length (x # xs)) j q s = Inr (q', s')"
    using i x d(1) r(1) Cons.prems(1) by (auto simp: Let_def)
  ultimately show ?case using r slot by auto
qed

lemma pq_used:
  assumes "pq_inv q"
  shows "length (q_queue q) = q_size q" "q_count q \<le> q_size q" "0 < q_count q \<Longrightarrow> q_head q < q_size q"
    "k < q_count q \<Longrightarrow> pq_slot q k = Some (pq_items q ! k)"
    "k < q_size q \<Longrightarrow> q_count q \<le> k \<Longrightarrow> pq_slot q k = None"
  using assms gueue_slot_item [of "as_gueue q" k] gueue_slot_empty [of "as_gueue q" k]
  by (auto simp: pq_inv_def pq_items_def gueue_inv_def split: if_splits)

lemma clear_queue_ok:
  assumes "pq_inv q" "refs_ok s (mset (pq_items q) + M)"
  shows "\<exists>q' s'. clear_queue_katcl q s = Inr (q', s') \<and> pq_inv q' \<and> pq_items q' = [] \<and>
    refs_ok s' M \<and> same_msgs s s' M \<and> destroy_queue_katcl q s = Inr s'"
proof (cases "q_count q = 0")
  case True
  then have "pq_items q = []" by (metis length_0_conv length_pq_items)
  moreover have "q\<lparr>q_count := 0\<rparr> = q" using True by (cases q) simp
  then have "clear_queue_katcl q s = Inr (q, s)" "destroy_queue_katcl q s = Inr s"
    using True by (simp_all add: clear_queue_katcl_def destroy_queue_katcl_def)
  ultimately show ?thesis using assms same_msgs_refl by auto
next
  case False
  note u = pq_used [OF assms(1)]
  obtain q' s' where r: "destroy_slots (q_count q) 0 q s = Inr (q', s')" "refs_ok s' M" "same_msgs s s' M"
    "length (q_queue q') = q_size q" "q_size q' = q_size q" "q_head q' = q_head q"
    "\<forall>k < q_size q. pq_slot q' k = (if k < q_count q then None else pq_slot q k)"
    using destroy_slots_ok [of q 0 "pq_items q" s M] u assms(2) False by auto
  let ?q = "q'\<lparr>q_count := 0\<rparr>"
  have "pq_slot ?q k = None" if "k < q_size q" for k
    using r(7) that u(5) [of k] by (auto simp: pq_slot_def)
  then have "pq_inv ?q \<and> pq_items ?q = []"
    using r u(3) False by (auto simp: pq_inv_def pq_items_def gueue_inv_def gueue_items_def)
  then show ?thesis using r by (auto simp: clear_queue_katcl_def destroy_queue_katcl_def)
qed

lemma add_tail_ok:
  assumes "pq_inv q" "refs_ok s M" "a \<in># M" "st_heap s a = Some p" "p_state p = PARSE_DONE"
  shows "\<exists>q' s'. add_tail_queue_katcl True q (Some a) s = Inr (0, q', s') \<and> pq_inv q' \<and>
    pq_items q' = pq_items q @ [a] \<and> refs_ok s' (add_mset a M) \<and> same_msgs s s' M"
proof -
  obtain q1 where q1: "make_room True q = Inr (True, q1)" "pq_inv (put_tail (Some a) q1)"
      "pq_items (put_tail (Some a) q1) = pq_items q @ [a]"
    using tail_refines [OF assms(1), of True a] by auto
  let ?s = "st_put a (p\<lparr>p_refs := p_refs p + 1\<rparr>) s"
  have c: "copy_parse_katcl (Some a) s = Inr (Some a, ?s)" "refs_ok ?s (add_mset a M)"
    using copy_ok [OF assms(2,3)] assms(4,5) by auto
  have "same_msgs s ?s M"
    using same_msgs_refl [OF assms(2)] assms(4) unfolding same_msgs_def st_put_def by auto
  then show ?thesis using q1 c by (auto simp: add_tail_queue_katcl_def)
qed

section \<open>Properties\<close>

text \<open>A sequence of additions and removals on the queue, with what the removals return.\<close>

fun run_messages :: "nat queue_op list \<Rightarrow> pqueue \<Rightarrow> store \<Rightarrow> (nat option list \<times> pqueue \<times> store) res" where
  "run_messages [] q s = Inr ([], q, s)"
| "run_messages (Enq a # ops) q s =
     bind_res (add_tail_queue_katcl True q (Some a) s) (\<lambda>(_, q1, s1). run_messages ops q1 s1)"
| "run_messages (Deq # ops) q s =
     bind_res (remove_head_queue_katcl q) (\<lambda>(r, q1).
     bind_res (run_messages ops q1 s) (\<lambda>(rs, q2, s2). Inr (r # rs, q2, s2)))"

definition pq_empty :: pqueue where
  "pq_empty = the (create_queue_katcl True)"

lemma pq_empty: "pq_inv pq_empty" "pq_items pq_empty = []"
  by (simp_all add: pq_empty_def create_queue_katcl_def pq_inv_def pq_items_def gueue_inv_def gueue_items_def)

text \<open>The references that the removals hand to their caller.\<close>

definition handed :: "nat option list \<Rightarrow> nat multiset" where
  "handed rs = mset (concat (map (\<lambda>r. case r of None \<Rightarrow> [] | Some a \<Rightarrow> [a]) rs))"

lemma run_messages_ok:
  assumes "pq_inv q" "refs_ok s (M + mset (pq_items q) + H)" "same_msgs s0 s M"
    "\<forall>a. Enq a \<in> set ops \<longrightarrow> a \<in># M \<and> (\<exists>p. st_heap s0 a = Some p \<and> p_state p = PARSE_DONE)"
  shows "\<exists>rs q' s'. run_messages ops q s = Inr (rs, q', s') \<and> pq_inv q' \<and>
    run_queue list_enq list_deq (pq_items q) ops = (rs, pq_items q') \<and>
    refs_ok s' (M + mset (pq_items q') + handed rs + H) \<and> same_msgs s0 s' M"
  using assms
proof (induction ops arbitrary: q s H)
  case Nil
  then show ?case by (simp add: handed_def)
next
  case (Cons op ops)
  have rest: "\<forall>a. Enq a \<in> set ops \<longrightarrow> a \<in># M \<and> (\<exists>p. st_heap s0 a = Some p \<and> p_state p = PARSE_DONE)"
    using Cons.prems(4) by simp
  show ?case
  proof (cases op)
    case (Enq a)
    then obtain p where a: "a \<in># M" "st_heap s0 a = Some p" "p_state p = PARSE_DONE" using Cons.prems(4) by auto
    then obtain n where n: "st_heap s a = Some (p\<lparr>p_refs := n\<rparr>)" using Cons.prems(3) by (auto simp: same_msgs_def)
    have mem: "a \<in># M + mset (pq_items q) + H" using a(1) by simp
    obtain q1 s1 where 1: "add_tail_queue_katcl True q (Some a) s = Inr (0, q1, s1)" "pq_inv q1" "pq_items q1 = pq_items q @ [a]"
        "refs_ok s1 (add_mset a (M + mset (pq_items q) + H))" "same_msgs s s1 (M + mset (pq_items q) + H)"
      using add_tail_ok [OF Cons.prems(1,2) mem n] a(3) by auto
    have "refs_ok s1 (M + mset (pq_items q1) + H)" using 1(3,4) by simp
    moreover have "same_msgs s0 s1 M"
      using same_msgs_trans [OF Cons.prems(3)] same_msgs_mono [OF 1(5), of M] by auto
    ultimately show ?thesis using Cons.IH [OF 1(2) _ _ rest, of s1 H] 1(1,3) by (simp add: Enq list_enq_def)
  next
    case Deq
    obtain q1 where 1: "remove_head_queue_katcl q = Inr (fst (list_deq (pq_items q)), q1)" "pq_inv q1"
        "pq_items q1 = snd (list_deq (pq_items q))"
      using remove_head_pq [OF Cons.prems(1)] by blast
    let ?r = "fst (list_deq (pq_items q))"
    have m: "mset (pq_items q) = mset (pq_items q1) + handed [?r]"
      using 1(3) by (cases "pq_items q") (simp_all add: list_deq_def handed_def)
    have ok1: "refs_ok s (M + mset (pq_items q1) + (handed [?r] + H))" using Cons.prems(2) unfolding m by (simp add: ac_simps)
    obtain rs q2 s2 where 2: "run_messages ops q1 s = Inr (rs, q2, s2)" "pq_inv q2"
        "run_queue list_enq list_deq (pq_items q1) ops = (rs, pq_items q2)"
        "refs_ok s2 (M + mset (pq_items q2) + handed rs + (handed [?r] + H))" "same_msgs s0 s2 M"
      using Cons.IH [OF 1(2) ok1 Cons.prems(3) rest] by blast
    have "handed (?r # rs) = handed rs + handed [?r]" by (simp add: handed_def)
    then have "refs_ok s2 (M + mset (pq_items q2) + handed (?r # rs) + H)" using 2(4) by (simp add: ac_simps)
    moreover have "run_queue list_enq list_deq (pq_items q) (Deq # ops) = (?r # rs, pq_items q2)"
      using 2(3) 1(3) by (simp add: split_beta)
    ultimately show ?thesis using 1(1) 2(1,2,5) by (simp add: Deq)
  qed
qed

text \<open>C12. A sequence of calls of \<open>add_tail_queue_katcl\<close> and \<open>remove_head_queue_katcl\<close> on a fresh
  queue, the additions being complete messages that the caller holds and every allocation
  succeeding, returns the messages in the order in which they were added and a null pointer
  when the queue is empty. The caller keeps its references; of those that the queue took, each
  went to the caller with the message that was removed or is still in the queue; no message
  changes.\<close>

theorem message_queue_fifo:
  assumes "refs_ok s M" "\<forall>a. Enq a \<in> set ops \<longrightarrow> a \<in># M \<and> (\<exists>p. st_heap s a = Some p \<and> p_state p = PARSE_DONE)"
  shows "\<exists>rs q s'. run_messages ops pq_empty s = Inr (rs, q, s') \<and> pq_inv q \<and>
    run_queue list_enq list_deq [] ops = (rs, pq_items q) \<and>
    refs_ok s' (M + mset (pq_items q) + handed rs) \<and> same_msgs s s' M"
proof -
  have "refs_ok s (M + mset (pq_items pq_empty) + {#})" using assms(1) pq_empty(2) by simp
  from run_messages_ok [OF pq_empty(1) this same_msgs_refl [OF assms(1)] assms(2)] show ?thesis
    unfolding pq_empty(2) by simp
qed

theorem message_queue_fifo_witness:
  "\<exists>q s'. run_messages [Enq 1, Enq 0, Deq, Deq, Deq] pq_empty sample_store = Inr ([Some 1, Some 0, None], q, s') \<and>
    refs_ok s' {#0, 0, 1, 1, 0#}"
proof -
  have c: "\<forall>a. Enq a \<in> set [Enq 1, Enq 0, Deq, Deq, Deq] \<longrightarrow>
      a \<in># {#0, 0, 1#} \<and> (\<exists>p. st_heap sample_store a = Some p \<and> p_state p = PARSE_DONE)"
    using request_msg(5) by (auto simp: sample_store_def)
  have r: "run_queue list_enq list_deq [] [Enq 1, Enq 0, Deq, Deq, Deq] = ([Some 1, Some 0, None], [] :: nat list)"
    by (simp add: list_enq_def list_deq_def)
  from message_queue_fifo [OF sample_store c] obtain rs q s' where
    k: "run_messages [Enq 1, Enq 0, Deq, Deq, Deq] pq_empty sample_store = Inr (rs, q, s')"
      "run_queue list_enq list_deq [] [Enq 1, Enq 0, Deq, Deq, Deq] = (rs, pq_items q)"
      "refs_ok s' ({#0, 0, 1#} + mset (pq_items q) + handed rs)"
    by blast
  have "rs = [Some 1, Some 0, None]" "pq_items q = []" using k(2) unfolding r by simp_all
  then show ?thesis using k(1,3) by (simp add: handed_def add_mset_commute)
qed

text \<open>C11. The message queue holds a reference of its own to each of its messages: adding a
  complete message takes one reference more and puts it last; clearing or destroying the queue
  gives back every reference, once each, and leaves an empty queue.\<close>

theorem message_queue_references:
  assumes "pq_inv q" "refs_ok s (mset (pq_items q) + add_mset a M)" "st_heap s a = Some p"
    "p_state p = PARSE_DONE"
  shows "\<exists>q' s'. add_tail_queue_katcl True q (Some a) s = Inr (0, q', s') \<and> pq_inv q' \<and>
    pq_items q' = pq_items q @ [a] \<and> refs_ok s' (mset (pq_items q') + add_mset a M) \<and>
    (\<exists>q'' s''. clear_queue_katcl q' s' = Inr (q'', s'') \<and> destroy_queue_katcl q' s' = Inr s'' \<and>
      pq_inv q'' \<and> pq_items q'' = [] \<and> refs_ok s'' (add_mset a M) \<and> same_msgs s s'' (add_mset a M))"
proof -
  obtain q' s' where a: "add_tail_queue_katcl True q (Some a) s = Inr (0, q', s')" "pq_inv q'"
      "pq_items q' = pq_items q @ [a]" "refs_ok s' (mset (pq_items q') + add_mset a M)"
      "same_msgs s s' (mset (pq_items q) + add_mset a M)"
    using add_tail_ok [OF assms(1,2) _ assms(3,4)] by (auto simp: add_mset_commute)
  moreover obtain q'' s'' where "clear_queue_katcl q' s' = Inr (q'', s'')" "destroy_queue_katcl q' s' = Inr s''"
      "pq_inv q''" "pq_items q'' = []" "refs_ok s'' (add_mset a M)" "same_msgs s' s'' (add_mset a M)"
    using clear_queue_ok [OF a(2,4)] by auto
  moreover have "same_msgs s s' (add_mset a M)" using a(5) by (auto simp: same_msgs_def)
  ultimately show ?thesis using same_msgs_trans by blast
qed

theorem message_queue_references_witness:
  "\<exists>q' s'. add_tail_queue_katcl True pq_empty (Some 1) sample_store = Inr (0, q', s') \<and> pq_items q' = [1]"
proof -
  have "refs_ok sample_store (mset (pq_items pq_empty) + add_mset 1 {#0, 0#})"
    using sample_store pq_empty(2) by (simp add: add_mset_commute)
  from message_queue_references [OF pq_empty(1) this, of "request_msg\<lparr>p_refs := 1\<rparr>"]
  show ?thesis using pq_empty(2) request_msg(5) by (auto simp: sample_store_def)
qed

text \<open>Three places where the message queue does not do what its callers expect: the lookup
  by position finds nothing at all in a queue whose array is full, which is every queue that
  was only added to; adding a message that is not complete succeeds and stores a null pointer;
  and removing a position that has wrapped around before the head moves data from beyond the
  end of the array.\<close>

theorem message_queue_oddities:
  assumes "pq_inv q" "0 < q_count q"
  shows "(q_count q = q_size q \<longrightarrow> get_index_queue_katcl q i = None) \<and>
    (st_heap s a = Some p \<and> p_state p \<noteq> PARSE_DONE \<longrightarrow>
      (\<exists>q' s'. add_tail_queue_katcl True q (Some a) s = Inr (0, q', s') \<and> pq_slot q' (q_count q) = None)) \<and>
    (q_size q < q_head q + q_count q \<and> i < q_head q + q_count q - q_size q \<longrightarrow>
      remove_index_queue_katcl q i = Inl OutOfBounds)"
proof (intro conjI impI)
  show "get_index_queue_katcl q i = None" if "q_count q = q_size q"
    using that by (simp add: get_index_queue_katcl_def)
next
  assume p: "st_heap s a = Some p \<and> p_state p \<noteq> PARSE_DONE"
  obtain q1 where q1: "make_room True q = Inr (True, q1)" "pq_inv (put_tail (Some a) q1)"
      "pq_items (put_tail (Some a) q1) = pq_items q @ [a]"
    using tail_refines [OF assms(1), of True a] by auto
  have "length (pq_items (put_tail (Some a) q1)) = Suc (q_count q)" by (simp only: q1(3)) simp
  then have n: "q_count q1 = q_count q" by (simp add: put_tail_def Let_def)
  have len: "length (q_queue q1) = q_size q1" "q_count q1 < q_size q1"
    using pq_used(1,2) [OF q1(2)] by (simp_all add: put_tail_def Let_def)
  then have "pq_slot (put_tail None q1) (q_count q) = None"
    using n by (simp add: pq_slot_def put_tail_def Let_def)
  moreover have "add_tail_queue_katcl True q (Some a) s = Inr (0, put_tail None q1, s)"
    using p q1(1) by (simp add: add_tail_queue_katcl_def copy_parse_katcl_def sane_parse_katcl_def deref_def)
  ultimately show "\<exists>q' s'. add_tail_queue_katcl True q (Some a) s = Inr (0, q', s') \<and> pq_slot q' (q_count q) = None"
    by blast
next
  assume w: "q_size q < q_head q + q_count q \<and> i < q_head q + q_count q - q_size q"
  let ?k = "i + q_size q - q_head q"
  note u = pq_used [OF assms(1)]
  have h: "q_head q < q_size q" using u(3) assms(2) by simp
  have k: "?k < q_count q" "i < q_head q" using w h u(2) by linarith+
  have "(q_head q + ?k) mod q_size q = i" using k h by (simp add: mod_if)
  then have "q_queue q ! i \<noteq> None" using u(4) [OF k(1)] by (simp add: pq_slot_def)
  then show "remove_index_queue_katcl q i = Inl OutOfBounds"
    using k h w u(1) assms(2) by (auto simp: remove_index_queue_katcl_def Let_def)
qed

definition sample_queue :: pqueue where
  "sample_queue = \<lparr>q_queue = [Some 1, None, Some 0], q_head = 2, q_count = 2, q_size = 3\<rparr>"

lemma sample_queue: "pq_inv sample_queue"
proof -
  have "j = 0 \<or> j = 1 \<or> j = 2" if "j < 3" for j :: nat using that by linarith
  then have "(pq_slot sample_queue j \<noteq> None) = (j < 2)" if "j < 3" for j
    using that by (fastforce simp: sample_queue_def pq_slot_def)
  then show ?thesis by (simp add: pq_inv_def gueue_inv_def) (simp add: sample_queue_def)
qed

theorem message_queue_oddities_witness:
  "remove_index_queue_katcl sample_queue 0 = Inl OutOfBounds"
proof -
  have "0 < q_count sample_queue" by (simp add: sample_queue_def)
  from message_queue_oddities [OF sample_queue this, where i = 0] show ?thesis
    by (simp add: sample_queue_def)
qed

end
