(* ===== verification/Line.thy ===== *)
theory Line
  imports Parse_Queue
begin

text \<open>
  A connection (\<open>struct katcl_line\<close>, \<open>katcp/line.c\<close>) and its reading half: bytes are loaded
  or read behind those that the message \<open>l_next\<close> still has to parse, \<open>parse_katcl\<close>
  (\<open>katcp/parse.c\<close>) runs the state machine of theory \<open>Parse\<close> over them, and a complete
  message moves to \<open>l_ready\<close> while the bytes behind it go to a new \<open>l_next\<close>. The writing
  half is in theory \<open>Line_Write\<close>. The lemmas show the ownership of the messages of a line
  and that a line delivers the messages of the byte stream, however it arrives.
\<close>

section \<open>State\<close>

record line =
  l_fd :: int
  l_ready :: "nat option"
  l_next :: "nat option"
  l_stage :: "nat option"
  l_buffer :: string
  l_pending :: nat
  l_arg :: nat
  l_offset :: nat
  l_queue :: pqueue
  l_error :: int
  l_sendable :: int

definition KATCL_IO_SIZE :: nat where "KATCL_IO_SIZE = 4096"
definition KATCL_BUFFER_INC :: nat where "KATCL_BUFFER_INC = 512"

text \<open>The consistency check at the head of the public functions: the next message is there,
  and the messages are allocated.\<close>

definition sane_line_katcl :: "line \<Rightarrow> store \<Rightarrow> unit res" where
  "sane_line_katcl l s =
     (case l_next l of
        None \<Rightarrow> Inl Abort
      | Some a \<Rightarrow>
        bind_res (deref a s) (\<lambda>_.
        bind_res (case l_ready l of None \<Rightarrow> Inr () | Some b \<Rightarrow> bind_res (deref b s) (\<lambda>_. Inr ())) (\<lambda>_.
        bind_res (case l_stage l of None \<Rightarrow> Inr () | Some b \<Rightarrow> bind_res (deref b s) (\<lambda>_. Inr ())) (\<lambda>_.
        Inr ()))))"

text \<open>\<open>if(p) destroy_parse_katcl(p);\<close>\<close>

definition drop_parse :: "nat option \<Rightarrow> store \<Rightarrow> store res" where
  "drop_parse ptr s = (case ptr of None \<Rightarrow> Inr s | Some a \<Rightarrow> destroy_parse_katcl (Some a) s)"

section \<open>Creation and destruction\<close>

definition destroy_katcl :: "line \<Rightarrow> pqueue option \<Rightarrow> bool \<Rightarrow> store \<Rightarrow> (int option \<times> store) res" where
  \<comment> \<open>the queue separately, as it can be missing while the line is created; the result is the
    file descriptor closed, if any, and the store\<close>
  "destroy_katcl l queue end s =
     bind_res (drop_parse (l_ready l) s) (\<lambda>s1.
     bind_res (drop_parse (l_next l) s1) (\<lambda>s2.
     bind_res (drop_parse (l_stage l) s2) (\<lambda>s3.
     bind_res (case queue of None \<Rightarrow> Inr s3 | Some q \<Rightarrow> destroy_queue_katcl q s3) (\<lambda>s4.
     Inr (if end \<and> l_fd l \<ge> 0 then Some (l_fd l) else None, s4)))))"

definition create_katcl :: "(nat \<Rightarrow> bool) \<Rightarrow> int \<Rightarrow> store \<Rightarrow> (line option \<times> store) res" where
  "create_katcl mem fd s =
     (if \<not> mem 0 then Inr (None, s)
      else
        let l = \<lparr>l_fd = fd, l_ready = None, l_next = None, l_stage = None,
                 l_buffer = replicate KATCL_IO_SIZE nul, l_pending = 0, l_arg = 0, l_offset = 0,
                 l_queue = the (create_queue_katcl True), l_error = 0, l_sendable = 1\<rparr> in
        bind_res (create_referenced_parse_katcl (mem 1) s) (\<lambda>(next, s1).
        let l1 = l\<lparr>l_next := next\<rparr> in
        if next = None then bind_res (destroy_katcl l1 None False s1) (\<lambda>(_, s2). Inr (None, s2))
        else case create_queue_katcl (mem 2) of
          None \<Rightarrow> bind_res (destroy_katcl l1 None False s1) (\<lambda>(_, s2). Inr (None, s2))
        | Some q \<Rightarrow> Inr (Some (l1\<lparr>l_queue := q\<rparr>), s1)))"

definition exchange_katcl ::
  "bool \<Rightarrow> line \<Rightarrow> int \<Rightarrow> store \<Rightarrow> (int option \<times> line \<times> store) res" where
  \<comment> \<open>the first component is the file descriptor closed\<close>
  "exchange_katcl ok l fd s =
     bind_res (sane_line_katcl l s) (\<lambda>_.
     bind_res (drop_parse (l_ready l) s) (\<lambda>s1.
     bind_res (case l_next l of None \<Rightarrow> Inr (None, s1) | Some a \<Rightarrow> reuse_parse_katcl ok (Some a) s1) (\<lambda>(next, s2).
     bind_res (drop_parse (l_stage l) s2) (\<lambda>s3.
     bind_res (clear_queue_katcl (l_queue l) s3) (\<lambda>(q, s4).
     Inr (if l_fd l \<ge> 0 then Some (l_fd l) else None,
          l\<lparr>l_fd := fd, l_ready := None, l_next := next, l_stage := None, l_pending := 0, l_arg := 0,
            l_offset := 0, l_queue := q, l_error := 0, l_sendable := 1\<rparr>, s4))))))"

definition discard_katcl :: "bool \<Rightarrow> line \<Rightarrow> store \<Rightarrow> (line \<times> store) res" where
  "discard_katcl ok l s =
     bind_res (sane_line_katcl l s) (\<lambda>_.
     bind_res (case l_next l of None \<Rightarrow> Inr (None, s) | Some a \<Rightarrow> reuse_parse_katcl ok (Some a) s) (\<lambda>(next, s1).
     Inr (l\<lparr>l_next := next\<rparr>, s1)))"

definition fileno_katcl :: "line option \<Rightarrow> int" where
  "fileno_katcl l = (case l of None \<Rightarrow> -1 | Some l' \<Rightarrow> l_fd l')"

definition error_katcl :: "line option \<Rightarrow> int \<times> line option" where
  "error_katcl l = (case l of None \<Rightarrow> (EINVAL, None) | Some l' \<Rightarrow> (l_error l', Some (l'\<lparr>l_error := 0\<rparr>)))"

section \<open>Bytes in\<close>

definition load_parse :: "string \<Rightarrow> parse \<Rightarrow> parse" where
  \<comment> \<open>room for the bytes, and the bytes behind those already there\<close>
  "load_parse buffer p =
     (let sz = length buffer;
          p1 = (if p_size p \<le> p_have p + sz
                then p\<lparr>p_buffer := grow_buffer (p_have p + sz + 1) (p_buffer p), p_size := p_have p + sz + 1\<rparr>
                else p)
      in p1\<lparr>p_buffer := take (p_have p1) (p_buffer p1) @ buffer @ drop (p_have p1 + sz) (p_buffer p1),
            p_have := p_have p1 + sz\<rparr>)"

definition load_katcl :: "bool \<Rightarrow> string \<Rightarrow> line \<Rightarrow> store \<Rightarrow> (int \<times> line \<times> store) res" where
  "load_katcl ok buffer l s =
     bind_res (sane_line_katcl l s) (\<lambda>_.
     case l_next l of
       None \<Rightarrow> Inl Abort
     | Some a \<Rightarrow> bind_res (deref a s) (\<lambda>p.
         if p_size p \<le> p_have p + length buffer \<and> \<not> ok then Inr (-1, l\<lparr>l_error := ENOMEM\<rparr>, s)
         else Inr (0, l, st_put a (load_parse buffer p) s)))"

text \<open>What \<open>read\<close> returns: bytes, the end of the file, or an error number.\<close>

datatype read_result = Rd_data string | Rd_eof | Rd_error int

definition ECONNRESET :: int where "ECONNRESET = 104"
definition EAGAIN :: int where "EAGAIN = 11"
definition EINTR :: int where "EINTR = 4"
definition ENOTSOCK :: int where "ENOTSOCK = 88"

text \<open>Room for at least one byte.\<close>

definition grow_for_read :: "parse \<Rightarrow> parse" where
  "grow_for_read p =
     (if p_size p \<le> p_have p
      then p\<lparr>p_buffer := grow_buffer (p_size p + KATCL_BUFFER_INC) (p_buffer p),
             p_size := p_size p + KATCL_BUFFER_INC\<rparr>
      else p)"

text \<open>\<open>io\<close> answers a \<open>read\<close> of at most so many bytes.\<close>

definition read_katcl :: "bool \<Rightarrow> (nat \<Rightarrow> read_result) \<Rightarrow> line \<Rightarrow> store \<Rightarrow> (int \<times> line \<times> store) res" where
  "read_katcl ok io l s =
     bind_res (sane_line_katcl l s) (\<lambda>_.
     case l_next l of
       None \<Rightarrow> Inl Abort
     | Some a \<Rightarrow> bind_res (deref a s) (\<lambda>p.
         if p_size p \<le> p_have p \<and> \<not> ok then Inr (-1, l\<lparr>l_error := ENOMEM\<rparr>, s)
         else
           let p1 = grow_for_read p;
               room = p_size p1 - p_have p1
           in case io room of
                Rd_error e \<Rightarrow>
                  if e = ECONNRESET then Inr (1, l, st_put a p1 s)
                  else if e = EAGAIN \<or> e = EINTR then Inr (0, l, st_put a p1 s)
                  else Inr (-1, l\<lparr>l_error := e\<rparr>, st_put a p1 s)
              | Rd_eof \<Rightarrow> Inr (1, l, st_put a p1 s)
              | Rd_data d \<Rightarrow>
                  if d = [] then Inr (1, l, st_put a p1 s)
                  else if length d > room then Inl OutOfBounds
                  else Inr (0, l, st_put a
                         (p1\<lparr>p_buffer := take (p_have p1) (p_buffer p1) @ d @
                                        drop (p_have p1 + length d) (p_buffer p1),
                             p_have := p_have p1 + length d\<rparr>) s)))"

text \<open>The end of \<open>parse_katcl\<close>, once the message \<open>a\<close> is complete: a new next message, the
  old ready message released, the bytes left over moved on. \<open>okn\<close> is for the next message and
  \<open>oks\<close> for its buffer. The result of \<open>stash_remainder_parse_katcl\<close> is not looked at.\<close>

definition parse_done :: "bool \<Rightarrow> bool \<Rightarrow> line \<Rightarrow> nat \<Rightarrow> store \<Rightarrow> (int \<times> line \<times> store) res" where
  "parse_done okn oks l a s =
     bind_res (create_referenced_parse_katcl okn s) (\<lambda>(next, s2).
     case next of
       None \<Rightarrow> Inr (-1, l\<lparr>l_next := None, l_error := ENOMEM\<rparr>, s2)
     | Some b \<Rightarrow>
       bind_res (drop_parse (l_ready l) s2) (\<lambda>s3.
       bind_res (deref a s3) (\<lambda>p.
       bind_res
         (if p_used p < p_have p
          then bind_res (on_parse b (stash_remainder_parse_katcl oks (parse_unread p)) s3) (\<lambda>(_, s4).
               Inr (st_put a (p\<lparr>p_have := p_used p\<rparr>) s4))
          else Inr s3) (\<lambda>s5.
       Inr (1, l\<lparr>l_next := Some b, l_ready := Some a\<rparr>, s5)))))"

definition parse_katcl ::
  "(nat \<Rightarrow> bool) \<Rightarrow> bool \<Rightarrow> bool \<Rightarrow> line \<Rightarrow> store \<Rightarrow> (int \<times> line \<times> store) res" where
  "parse_katcl mem okn oks l s =
     (case l_next l of
        None \<Rightarrow> Inl Abort
      | Some a \<Rightarrow>
        bind_res (on_parse a (parse_loop mem) s) (\<lambda>(err, s1).
        if err \<noteq> 0 then Inr (-1, l\<lparr>l_error := err\<rparr>, s1)
        else bind_res (deref a s1) (\<lambda>p.
          if p_state p \<noteq> PARSE_DONE then Inr (0, l, s1)
          else parse_done okn oks l a s1)))"

definition awaiting_katcl :: "line \<Rightarrow> store \<Rightarrow> nat res" where
  "awaiting_katcl l s =
     (case l_next l of None \<Rightarrow> Inl Abort | Some a \<Rightarrow> bind_res (deref a s) (\<lambda>p. Inr (p_have p)))"

definition ready_katcl :: "line \<Rightarrow> nat option" where
  "ready_katcl l = l_ready l"

definition clear_katcl :: "line \<Rightarrow> store \<Rightarrow> (line \<times> store) res" where
  "clear_katcl l s =
     (if l_ready l = None then Inr (l, s)
      else bind_res (destroy_parse_katcl (l_ready l) s) (\<lambda>s1. Inr (l\<lparr>l_ready := None\<rparr>, s1)))"

definition have_katcl ::
  "(nat \<Rightarrow> bool) \<Rightarrow> bool \<Rightarrow> bool \<Rightarrow> line \<Rightarrow> store \<Rightarrow> (int \<times> line \<times> store) res" where
  "have_katcl mem okn oks l s =
     bind_res (if ready_katcl l \<noteq> None then clear_katcl l s else Inr (l, s)) (\<lambda>(l1, s1).
     parse_katcl mem okn oks l1 s1)"

section \<open>The arguments of the ready message\<close>

definition with_ready :: "'a \<Rightarrow> (parse \<Rightarrow> 'a res) \<Rightarrow> line \<Rightarrow> store \<Rightarrow> 'a res" where
  "with_ready none f l s = (case l_ready l of None \<Rightarrow> Inr none | Some a \<Rightarrow> bind_res (deref a s) f)"

definition arg_count_katcl :: "line \<Rightarrow> store \<Rightarrow> nat res" where
  "arg_count_katcl l s = with_ready 0 (\<lambda>p. Inr (get_count_parse_katcl p)) l s"

definition arg_tag_katcl :: "line \<Rightarrow> store \<Rightarrow> int res" where
  "arg_tag_katcl l s = with_ready (-1) (\<lambda>p. Inr (get_tag_parse_katcl p)) l s"

definition truth :: "bool res \<Rightarrow> int res" where
  "truth r = bind_res r (\<lambda>b. Inr (if b then 1 else 0))"

definition arg_request_katcl :: "line \<Rightarrow> store \<Rightarrow> int res" where
  "arg_request_katcl l s = with_ready (-1) (\<lambda>p. truth (is_request_parse_katcl p)) l s"

definition arg_reply_katcl :: "line \<Rightarrow> store \<Rightarrow> int res" where
  "arg_reply_katcl l s = with_ready (-1) (\<lambda>p. truth (is_reply_parse_katcl p)) l s"

definition arg_inform_katcl :: "line \<Rightarrow> store \<Rightarrow> int res" where
  "arg_inform_katcl l s = with_ready (-1) (\<lambda>p. truth (is_inform_parse_katcl p)) l s"

definition arg_null_katcl :: "line \<Rightarrow> nat \<Rightarrow> store \<Rightarrow> int res" where
  "arg_null_katcl l index s = with_ready (-1) (\<lambda>p. truth (is_null_parse_katcl p index)) l s"

definition arg_string_katcl :: "line \<Rightarrow> nat \<Rightarrow> store \<Rightarrow> string option res" where
  "arg_string_katcl l index s = with_ready None (\<lambda>p. get_string_parse_katcl p index) l s"

definition arg_copy_string_katcl :: "bool \<Rightarrow> line \<Rightarrow> nat \<Rightarrow> store \<Rightarrow> string option res" where
  "arg_copy_string_katcl ok l index s = with_ready None (\<lambda>p. copy_string_parse_katcl ok p index) l s"

definition arg_unsigned_long_katcl :: "line \<Rightarrow> nat \<Rightarrow> store \<Rightarrow> u64 res" where
  "arg_unsigned_long_katcl l index s = with_ready 0 (\<lambda>p. get_unsigned_long_parse_katcl p index) l s"

definition arg_bb_katcl ::
  "line \<Rightarrow> nat \<Rightarrow> byte_bit option \<Rightarrow> store \<Rightarrow> (int \<times> byte_bit option) res" where
  "arg_bb_katcl l index b s = with_ready (0, b) (\<lambda>p. get_bb_parse_katcl p index b) l s"

definition arg_buffer_katcl :: "line \<Rightarrow> nat \<Rightarrow> nat \<Rightarrow> store \<Rightarrow> (nat \<times> string) res" where
  "arg_buffer_katcl l index sz s = with_ready (0, []) (\<lambda>p. get_buffer_parse_katcl p index sz) l s"


section \<open>Bytes that arrive\<close>

lemma append_view:
  assumes "parse_inv p" "take (p_have p + length d) b = take (p_have p) (p_buffer p) @ d"
    "p_have p + length d \<le> length b"
  shows "parse_inv (p\<lparr>p_buffer := b, p_size := length b, p_have := p_have p + length d\<rparr>) \<and>
    tok_of (p\<lparr>p_buffer := b, p_size := length b, p_have := p_have p + length d\<rparr>) = tok_of p \<and>
    parse_unread (p\<lparr>p_buffer := b, p_size := length b, p_have := p_have p + length d\<rparr>) = parse_unread p @ d"
proof -
  let ?h = "p_have p"
  have h: "?h \<le> length (p_buffer p)" "p_kept p \<le> p_used p" "p_used p \<le> ?h"
    using assms(1) by (simp_all add: parse_inv_def)
  have pre: "take ?h b = take ?h (p_buffer p)"
  proof -
    have "take ?h (take (?h + length d) b) = take ?h (take ?h (p_buffer p) @ d)" by (simp only: assms(2))
    then show ?thesis using h by (simp add: min_absorb1)
  qed
  have sl: "slice x y b = slice x y (p_buffer p)" if "y \<le> ?h" for x y
    using pre that by (rule slice_take_cong)
  have nth: "b ! i = p_buffer p ! i" if "i < ?h" for i
    using pre that by (metis nth_take)
  have ends: "a_end (p_args p ! i) < ?h" if "i < p_got p" for i
    using assms(1) that h by (auto simp: parse_inv_def)
  have "slice (p_used p) (?h + length d) b = drop (p_used p) (take (?h + length d) b)"
    by (simp add: slice_def drop_take)
  also have "\<dots> = drop (p_used p) (take ?h (p_buffer p)) @ d"
    using assms(2) h by simp
  finally have un: "slice (p_used p) (?h + length d) b = slice (p_used p) ?h (p_buffer p) @ d"
    by (simp add: slice_def drop_take)
  show ?thesis
    using assms(1,3) h nth ends sl un
    by (auto simp: parse_inv_def tok_of_def parse_args_def arg_text_def parse_unread_def less_imp_le)
qed

lemma load_parse_view:
  assumes "parse_inv p"
  shows "parse_inv (load_parse d p)" "tok_of (load_parse d p) = tok_of p"
    "parse_unread (load_parse d p) = parse_unread p @ d" "p_refs (load_parse d p) = p_refs p"
    "p_state (load_parse d p) = p_state p"
proof -
  have h: "p_have p \<le> p_size p" "length (p_buffer p) = p_size p" using assms by (simp_all add: parse_inv_def)
  let ?g = "if p_size p \<le> p_have p + length d then grow_buffer (p_have p + length d + 1) (p_buffer p) else p_buffer p"
  let ?b = "take (p_have p) ?g @ d @ drop (p_have p + length d) ?g"
  have "load_parse d p = p\<lparr>p_buffer := ?b, p_size := length ?b, p_have := p_have p + length d\<rparr>"
    using h by (simp add: load_parse_def Let_def grow_buffer_def)
  moreover have "take (p_have p + length d) ?b = take (p_have p) (p_buffer p) @ d"
    "p_have p + length d \<le> length ?b"
    using h by (auto simp: grow_buffer_def)
  ultimately obtain b where
    b: "load_parse d p = p\<lparr>p_buffer := b, p_size := length b, p_have := p_have p + length d\<rparr>"
      "take (p_have p + length d) b = take (p_have p) (p_buffer p) @ d" "p_have p + length d \<le> length b"
    by blast
  show "parse_inv (load_parse d p)" "tok_of (load_parse d p) = tok_of p"
    "parse_unread (load_parse d p) = parse_unread p @ d" "p_refs (load_parse d p) = p_refs p"
    "p_state (load_parse d p) = p_state p"
    unfolding b(1) using append_view [OF assms b(2,3)] by simp_all
qed

text \<open>Growing the buffer alone.\<close>

lemma grow_view:
  assumes "parse_inv p" "p_size p \<le> n"
  shows "parse_inv (p\<lparr>p_buffer := grow_buffer n (p_buffer p), p_size := n\<rparr>)"
    "tok_of (p\<lparr>p_buffer := grow_buffer n (p_buffer p), p_size := n\<rparr>) = tok_of p"
    "parse_unread (p\<lparr>p_buffer := grow_buffer n (p_buffer p), p_size := n\<rparr>) = parse_unread p"
proof -
  let ?b = "grow_buffer n (p_buffer p)"
  have h: "p_have p \<le> p_size p" "length (p_buffer p) = p_size p" using assms(1) by (simp_all add: parse_inv_def)
  have "take (p_have p + length []) ?b = take (p_have p) (p_buffer p) @ []" "p_have p + length [] \<le> length ?b"
    "length ?b = n"
    using h assms(2) by (auto simp: grow_buffer_def)
  moreover have "p\<lparr>p_buffer := ?b, p_size := n, p_have := p_have p\<rparr> = p\<lparr>p_buffer := ?b, p_size := n\<rparr>"
    by (cases p) simp
  ultimately
  show "parse_inv (p\<lparr>p_buffer := ?b, p_size := n\<rparr>)"
    "tok_of (p\<lparr>p_buffer := ?b, p_size := n\<rparr>) = tok_of p"
    "parse_unread (p\<lparr>p_buffer := ?b, p_size := n\<rparr>) = parse_unread p"
    using append_view [OF assms(1), of "[]" ?b] by simp_all
qed

section \<open>The messages of a line\<close>

definition opt_refs :: "'a option \<Rightarrow> 'a multiset" where
  "opt_refs x = (case x of None \<Rightarrow> {#} | Some a \<Rightarrow> {#a#})"

lemma opt_refs_simps [simp]: "opt_refs None = {#}" "opt_refs (Some a) = {#a#}"
  by (simp_all add: opt_refs_def)

definition line_refs :: "line \<Rightarrow> nat multiset" where
  "line_refs l = opt_refs (l_next l) + (opt_refs (l_ready l) + opt_refs (l_stage l) + mset (pq_items (l_queue l)))"

text \<open>\<open>F\<close> are the references of the rest of the program. The message being read is held by
  the line alone.\<close>

definition line_ok :: "store \<Rightarrow> line \<Rightarrow> nat multiset \<Rightarrow> bool" where
  "line_ok s l F \<longleftrightarrow> refs_ok s (line_refs l + F) \<and> pq_inv (l_queue l) \<and>
     (\<exists>a p. l_next l = Some a \<and> st_heap s a = Some p \<and> p_refs p = 1 \<and> p_state p \<noteq> PARSE_FAKE)"

definition next_view :: "store \<Rightarrow> line \<Rightarrow> tok \<Rightarrow> string \<Rightarrow> bool" where
  "next_view s l t u \<longleftrightarrow>
     (\<exists>a p. l_next l = Some a \<and> st_heap s a = Some p \<and> tok_of p = t \<and> parse_unread p = u)"

definition ready_view :: "store \<Rightarrow> line \<Rightarrow> (string list \<times> int) option" where
  "ready_view s l =
     (case l_ready l of
        None \<Rightarrow> None
      | Some a \<Rightarrow> (case st_heap s a of None \<Rightarrow> None | Some p \<Rightarrow> Some (parse_args p, p_tag p)))"


lemma sane_line_ok:
  assumes "line_ok s l F"
  shows "sane_line_katcl l s = Inr ()"
proof -
  have "\<exists>p. st_heap s b = Some p" if "b \<in># line_refs l + F" for b
    using assms refs_ok_live [of s "line_refs l + F" b] that by (auto simp: line_ok_def)
  then have r: "\<exists>p. st_heap s b = Some p" if "l_ready l = Some b \<or> l_stage l = Some b" for b
    using that by (auto simp: line_refs_def)
  show ?thesis
    using assms r by (cases "l_ready l"; cases "l_stage l") (fastforce simp: sane_line_katcl_def deref_def line_ok_def)+
qed

text \<open>The message being read, and the references besides it.\<close>

definition other_refs :: "line \<Rightarrow> nat multiset" where
  "other_refs l = opt_refs (l_ready l) + opt_refs (l_stage l) + mset (pq_items (l_queue l))"

lemma line_refs_next: "l_next l = Some a \<Longrightarrow> line_refs l = add_mset a (other_refs l)"
  by (simp add: line_refs_def other_refs_def ac_simps)

lemma line_okE:
  assumes "line_ok s l F"
  obtains a p where "l_next l = Some a" "st_heap s a = Some p" "p_refs p = 1" "parse_inv p"
    "p_state p \<noteq> PARSE_FAKE" "refs_ok s (add_mset a (other_refs l + F))" "a \<notin># other_refs l + F"
    "pq_inv (l_queue l)"
proof -
  obtain a p where a: "l_next l = Some a" "st_heap s a = Some p" "p_refs p = 1" "p_state p \<noteq> PARSE_FAKE"
    "refs_ok s (add_mset a (other_refs l + F))" "pq_inv (l_queue l)"
    using assms by (auto simp: line_ok_def line_refs_next)
  then have "parse_inv p" "a \<notin># other_refs l + F"
    using refs_ok_live [OF a(5), of a] by (auto simp: not_in_iff)
  with a that show thesis by blast
qed

lemma line_okI:
  assumes "l_next l = Some a" "st_heap s a = Some p" "p_refs p = 1" "p_state p \<noteq> PARSE_FAKE"
    "refs_ok s (add_mset a (other_refs l + F))" "pq_inv (l_queue l)"
  shows "line_ok s l F"
  using assms by (auto simp: line_ok_def line_refs_next)

lemma load_ok:
  assumes "line_ok s l F" "next_view s l t u"
  shows "\<exists>s'. load_katcl True d l s = Inr (0, l, s') \<and> line_ok s' l F \<and> next_view s' l t (u @ d) \<and>
    same_msgs s s' (other_refs l + F)"
proof -
  obtain a p where a: "l_next l = Some a" "st_heap s a = Some p" "p_refs p = 1" "parse_inv p"
    "p_state p \<noteq> PARSE_FAKE" "refs_ok s (add_mset a (other_refs l + F))" "a \<notin># other_refs l + F"
    "pq_inv (l_queue l)"
    using line_okE [OF assms(1)] .
  let ?p = "load_parse d p"
  note v = load_parse_view [OF a(4), of d]
  have refs: "refs_ok (st_put a ?p s) (add_mset a (other_refs l + F))"
    using v a refs_ok_live [OF a(6), of a] by (intro refs_ok_put [OF a(6)]) auto
  have "load_katcl True d l s = Inr (0, l, st_put a ?p s)"
    using sane_line_ok [OF assms(1)] a by (simp add: load_katcl_def deref_def)
  moreover have "line_ok (st_put a ?p s) l F"
    using a v refs by (intro line_okI [of l a _ ?p]) (simp_all add: st_put_def)
  moreover have "next_view (st_put a ?p s) l t (u @ d)"
    using assms(2) a v by (auto simp: next_view_def st_put_def)
  moreover have "same_msgs s (st_put a ?p s) (other_refs l + F)"
    using a(7) by (intro same_msgs_put [OF a(6)]) auto
  ultimately show ?thesis by blast
qed


lemma same_msgs_keep:
  assumes "same_msgs s s' K" "a \<in># K" "st_heap s a = Some p" "refs_ok s' N" "p_refs p = int (count N a)"
  shows "st_heap s' a = Some p"
proof -
  obtain n where n: "st_heap s' a = Some (p\<lparr>p_refs := n\<rparr>)" using assms(1-3) by (auto simp: same_msgs_def)
  then have "n = p_refs p" using refs_okD [OF assms(4), of a] assms(5) by simp
  with n show ?thesis by simp
qed

lemma drop_ok:
  assumes "refs_ok s (opt_refs x + M)"
  shows "\<exists>s'. drop_parse x s = Inr s' \<and> refs_ok s' M \<and> same_msgs s s' M"
  using assms destroy_ok [of s _ M] destroy_same [of s _ M] same_msgs_refl [of s M]
  by (cases x) (auto simp: drop_parse_def, metis)

text \<open>What stays as it is when a line takes up a new message.\<close>

definition kept_refs :: "line \<Rightarrow> nat multiset" where
  "kept_refs l = opt_refs (l_stage l) + mset (pq_items (l_queue l))"

lemma other_refs_ready: "other_refs l = opt_refs (l_ready l) + kept_refs l"
  by (simp add: other_refs_def kept_refs_def ac_simps)

lemma unread_empty: "parse_inv p \<Longrightarrow> \<not> p_used p < p_have p \<Longrightarrow> parse_unread p = []"
  by (simp add: parse_unread_def)

lemma unread_some: "parse_inv p \<Longrightarrow> p_used p < p_have p \<Longrightarrow> parse_unread p \<noteq> []"
  by (auto simp: parse_unread_def parse_inv_def dest!: arg_cong [where f = length])

lemma parse_done_ok:
  assumes "refs_ok s (add_mset a (other_refs l + F))" "a \<notin># other_refs l + F" "st_heap s a = Some p"
    "p_state p = PARSE_DONE" "pq_inv (l_queue l)"
  shows "\<exists>b s'. parse_done True True l a s = Inr (1, l\<lparr>l_next := Some b, l_ready := Some a\<rparr>, s') \<and>
    line_ok s' (l\<lparr>l_next := Some b, l_ready := Some a\<rparr>) F \<and> same_msgs s s' (kept_refs l + F) \<and>
    next_view s' (l\<lparr>l_next := Some b, l_ready := Some a\<rparr>) tok_init (parse_unread p) \<and>
    ready_view s' (l\<lparr>l_next := Some b, l_ready := Some a\<rparr>) = Some (parse_args p, p_tag p)"
proof -
  let ?K = "kept_refs l + F" and ?l = "\<lambda>b. l\<lparr>l_next := Some b, l_ready := Some a\<rparr>"
  define b where "b = st_fresh s"
  have inv: "parse_inv p" "p_refs p = 1" "a < st_fresh s"
    using refs_ok_live [OF assms(1), of a] assms(2,3) by (auto simp: not_in_iff)
  define s2 where "s2 = (st_put b (fresh_parse\<lparr>p_refs := 1\<rparr>) s)\<lparr>st_fresh := b + 1\<rparr>"
  have s2: "create_referenced_parse_katcl True s = Inr (Some b, s2)" "st_fresh s2 = Suc b"
      "refs_ok s2 (add_mset b (add_mset a (other_refs l + F)))" "b \<notin># add_mset a (other_refs l + F)"
      "st_heap s2 = (st_heap s)(b \<mapsto> fresh_parse\<lparr>p_refs := 1\<rparr>)"
    using create_referenced_ok [OF assms(1), of True] by (simp_all add: b_def s2_def st_put_def)
  have "refs_ok s2 (opt_refs (l_ready l) + add_mset b (add_mset a ?K))"
    using s2(3) by (simp add: other_refs_ready ac_simps)
  then obtain s3 where s3: "drop_parse (l_ready l) s2 = Inr s3" "refs_ok s3 (add_mset b (add_mset a ?K))"
      "same_msgs s2 s3 (add_mset b (add_mset a ?K))"
    using drop_ok by blast
  have notin: "a \<notin># ?K" "b \<notin># ?K" "a \<noteq> b" "b \<notin># add_mset a ?K"
    using assms(2) s2(4) by (auto simp: other_refs_ready)
  have ha: "st_heap s3 a = Some p"
    using inv notin assms(3) s2(5) by (intro same_msgs_keep [OF s3(3) _ _ s3(2)]) (auto simp: not_in_iff)
  have hb: "st_heap s3 b = Some (fresh_parse\<lparr>p_refs := 1\<rparr>)"
    using notin s2(5) by (intro same_msgs_keep [OF s3(3) _ _ s3(2)]) (auto simp: not_in_iff)
  have same2: "same_msgs s s2 ?K"
  proof -
    have "\<exists>q n. st_heap s c = Some q \<and> st_heap s2 c = Some (q\<lparr>p_refs := n\<rparr>)" if mem: "c \<in># ?K" for c
    proof -
      have "c \<noteq> b" using notin mem by auto
      moreover obtain q where q: "st_heap s c = Some q"
        using refs_ok_live [OF assms(1), of c] mem by (auto simp: other_refs_ready)
      ultimately have "st_heap s2 c = Some (q\<lparr>p_refs := p_refs q\<rparr>)" using s2(5) by simp
      with q show ?thesis by blast
    qed
    then show ?thesis by (simp add: same_msgs_def)
  qed
  have "same_msgs s2 s3 ?K" by (rule same_msgs_mono [OF s3(3)]) auto
  with same2 have same3: "same_msgs s s3 ?K" by (rule same_msgs_trans)
  show ?thesis
  proof (cases "p_used p < p_have p")
    case False
    have "parse_done True True l a s = Inr (1, ?l b, s3)"
      using s2(1) s3(1) ha False by (simp add: parse_done_def deref_def)
    moreover have "line_ok s3 (?l b) F"
      using hb s3(2) assms(5)
      by (intro line_okI [of _ b _ "fresh_parse\<lparr>p_refs := 1\<rparr>"])
        (simp_all add: other_refs_ready kept_refs_def)
    moreover have "next_view s3 (?l b) tok_init (parse_unread p)"
      using hb unread_empty [OF inv(1) False]
      by (simp add: next_view_def fresh_parse_def tok_of_def tok_init_def parse_args_def parse_unread_def)
    ultimately show ?thesis
      using same3 ha by (auto simp: ready_view_def)
  next
    case True
    obtain q where q: "stash_remainder_parse_katcl True (parse_unread p) (fresh_parse\<lparr>p_refs := 1\<rparr>) = Inr (0, q)"
        "parse_inv q" "parse_unread q = parse_unread p" "tok_of q = tok_init" "p_refs q = 1"
      using stash_fresh [of True "parse_unread p" 1] unread_some [OF inv(1) True] by auto
    have st: "p_state q = PARSE_FRESH" using tok_of_state(1) [of q] q(4) by (simp add: tok_init_def)
    obtain s4 where s4: "on_parse b (stash_remainder_parse_katcl True (parse_unread p)) s3 = Inr (0, s4)"
        "s4 = st_put b q s3" "refs_ok s4 (add_mset b (add_mset a ?K))" "same_msgs s3 s4 (add_mset a ?K)"
      using on_parse_ok [where f = "stash_remainder_parse_katcl True (parse_unread p)", OF s3(2) notin(4) hb q(1,2)] q(5)
      by auto
    let ?p = "p\<lparr>p_have := p_used p\<rparr>"
    have ip: "parse_inv ?p" using inv(1) True by (auto simp: parse_inv_def)
    have s5: "refs_ok (st_put a ?p s4) (add_mset b (add_mset a ?K))"
      using refs_ok_live [OF s4(3), of a] ip inv notin
      by (intro refs_ok_put [OF s4(3)]) (auto simp: not_in_iff)
    have "parse_done True True l a s = Inr (1, ?l b, st_put a ?p s4)"
      using s2(1) s3(1) ha True s4(1) by (simp add: parse_done_def deref_def)
    moreover have "line_ok (st_put a ?p s4) (?l b) F"
      using s5 assms(5) s4(2) q(5) st notin
      by (intro line_okI [of _ b _ q]) (simp_all add: other_refs_ready kept_refs_def st_put_def)
    moreover have "next_view (st_put a ?p s4) (?l b) tok_init (parse_unread p)"
      using s4(2) q notin by (simp add: next_view_def st_put_def)
    moreover have "ready_view (st_put a ?p s4) (?l b) = Some (parse_args p, p_tag p)"
      by (simp add: ready_view_def st_put_def parse_args_def arg_text_def)
    moreover have "same_msgs s4 (st_put a ?p s4) ?K"
      using notin(1) by (intro same_msgs_put [OF s4(3)]) auto
    with same_msgs_mono [OF s4(4), of ?K] have "same_msgs s3 (st_put a ?p s4) ?K"
      by (auto intro: same_msgs_trans)
    with same3 have "same_msgs s (st_put a ?p s4) ?K" by (rule same_msgs_trans)
    ultimately show ?thesis by blast
  qed
qed


text \<open>One call of \<open>parse_katcl\<close>, against the tokenizer on the bytes that wait.\<close>

definition parse_result ::
  "line \<Rightarrow> nat multiset \<Rightarrow> store \<Rightarrow> (tok \<times> string) option \<Rightarrow> (int \<times> line \<times> store) res \<Rightarrow> bool" where
  "parse_result l F s r out =
     (case out of
        Inl _ \<Rightarrow> False
      | Inr (v, l', s') \<Rightarrow>
          line_ok s' l' F \<and> same_msgs s s' (kept_refs l + F) \<and> kept_refs l' = kept_refs l \<and>
          (case r of
             None \<Rightarrow> v = -1 \<and> l' = l\<lparr>l_error := EINVAL\<rparr>
           | Some (t, rest) \<Rightarrow>
               if t_state t = PARSE_DONE
               then v = 1 \<and> ready_view s' l' = Some (t_args t, t_tag t) \<and> next_view s' l' tok_init rest \<and>
                    l_error l' = l_error l
               else v = 0 \<and> l' = l \<and> next_view s' l t rest))"

lemma parse_katcl_ok:
  assumes "line_ok s l F" "next_view s l t u" "\<forall>i. mem i"
  shows "parse_result l F s (tok_run u t) (parse_katcl mem True True l s)"
proof -
  obtain a p where a: "l_next l = Some a" "st_heap s a = Some p" "p_refs p = 1" "parse_inv p"
    "p_state p \<noteq> PARSE_FAKE" "refs_ok s (add_mset a (other_refs l + F))" "a \<notin># other_refs l + F"
    "pq_inv (l_queue l)"
    using line_okE [OF assms(1)] .
  have tu: "tok_of p = t" "parse_unread p = u" using assms(2) a by (auto simp: next_view_def)
  obtain err q where q: "parse_loop mem p = Inr (err, q)" "parse_inv q" "p_refs q = 1" "p_state q \<noteq> PARSE_FAKE"
      "if err = 0 then tok_run u t = Some (tok_of q, parse_unread q) else err = EINVAL \<and> tok_run u t = None"
    using parse_loop_simulates [OF a(4,5), of mem] assms(3) tu a(3)
    by (cases "tok_run u t") (auto simp: loop_ok_def split: sum.splits if_splits)
  define s1 where "s1 = st_put a q s"
  have s1: "on_parse a (parse_loop mem) s = Inr (err, s1)" "refs_ok s1 (add_mset a (other_refs l + F))"
      "same_msgs s s1 (other_refs l + F)" "st_heap s1 a = Some q"
    using on_parse_ok [where f = "parse_loop mem", OF a(6,7,2) q(1,2)] q(3) a(3) by (simp_all add: s1_def)
  have same: "same_msgs s s1 (kept_refs l + F)"
    using s1(3) by (rule same_msgs_mono) (auto simp: other_refs_ready)
  show ?thesis
  proof (cases "err = 0")
    case False
    then have "parse_katcl mem True True l s = Inr (-1, l\<lparr>l_error := EINVAL\<rparr>, s1)"
      using a(1) s1(1) q(5) by (simp add: parse_katcl_def)
    moreover have "line_ok s1 (l\<lparr>l_error := EINVAL\<rparr>) F"
      using a s1 q by (intro line_okI [of _ a _ q]) (simp_all add: other_refs_def)
    ultimately show ?thesis
      using False q(5) same by (simp add: parse_result_def kept_refs_def)
  next
    case True
    have st: "t_state (tok_of q) = p_state q" by simp
    show ?thesis
    proof (cases "p_state q = PARSE_DONE")
      case False
      then have "parse_katcl mem True True l s = Inr (0, l, s1)"
        using a(1) s1(1,4) True by (simp add: parse_katcl_def deref_def)
      moreover have "line_ok s1 l F"
        using a s1 q by (intro line_okI [of _ a _ q]) simp_all
      moreover have "next_view s1 l (tok_of q) (parse_unread q)"
        using a(1) s1(4) by (simp add: next_view_def)
      ultimately show ?thesis using False True q(5) same st by (simp add: parse_result_def)
    next
      case d: True
      obtain b s' where f: "parse_done True True l a s1 = Inr (1, l\<lparr>l_next := Some b, l_ready := Some a\<rparr>, s')"
        "line_ok s' (l\<lparr>l_next := Some b, l_ready := Some a\<rparr>) F" "same_msgs s1 s' (kept_refs l + F)"
        "next_view s' (l\<lparr>l_next := Some b, l_ready := Some a\<rparr>) tok_init (parse_unread q)"
        "ready_view s' (l\<lparr>l_next := Some b, l_ready := Some a\<rparr>) = Some (parse_args q, p_tag q)"
        using parse_done_ok [OF s1(2) a(7) s1(4) d a(8)] by blast
      have "parse_katcl mem True True l s = Inr (1, l\<lparr>l_next := Some b, l_ready := Some a\<rparr>, s')"
        using a(1) s1(1,4) True d f(1) by (simp add: parse_katcl_def deref_def)
      moreover have "t_args (tok_of q) = parse_args q" "t_tag (tok_of q) = p_tag q" by (simp_all add: tok_of_def)
      ultimately show ?thesis
        using True q(5) st d f same_msgs_trans [OF same f(3)] by (simp add: parse_result_def kept_refs_def)
    qed
  qed
qed


lemma clear_ok:
  assumes "line_ok s l F" "next_view s l t u"
  shows "\<exists>s1. (if ready_katcl l \<noteq> None then clear_katcl l s else Inr (l, s)) = Inr (l\<lparr>l_ready := None\<rparr>, s1) \<and>
    line_ok s1 (l\<lparr>l_ready := None\<rparr>) F \<and> next_view s1 (l\<lparr>l_ready := None\<rparr>) t u \<and>
    same_msgs s s1 (kept_refs l + F)"
proof -
  obtain a p where a: "l_next l = Some a" "st_heap s a = Some p" "p_refs p = 1" "parse_inv p"
    "p_state p \<noteq> PARSE_FAKE" "refs_ok s (add_mset a (other_refs l + F))" "a \<notin># other_refs l + F"
    "pq_inv (l_queue l)"
    using line_okE [OF assms(1)] .
  have "refs_ok s (opt_refs (l_ready l) + add_mset a (kept_refs l + F))"
    using a(6) by (simp add: other_refs_ready ac_simps)
  then obtain s1 where s1: "drop_parse (l_ready l) s = Inr s1" "refs_ok s1 (add_mset a (kept_refs l + F))"
      "same_msgs s s1 (add_mset a (kept_refs l + F))"
    using drop_ok by blast
  have ha: "st_heap s1 a = Some p"
    using a(2,3,7) by (intro same_msgs_keep [OF s1(3) _ _ s1(2)]) (auto simp: not_in_iff other_refs_ready)
  have "l\<lparr>l_ready := None\<rparr> = l \<and> s1 = s" if "l_ready l = None"
    using that s1(1) by (cases l) (simp add: drop_parse_def)
  then have "(if ready_katcl l \<noteq> None then clear_katcl l s else Inr (l, s)) = Inr (l\<lparr>l_ready := None\<rparr>, s1)"
    using s1(1) by (cases "l_ready l") (auto simp: ready_katcl_def clear_katcl_def drop_parse_def)
  moreover have "line_ok s1 (l\<lparr>l_ready := None\<rparr>) F"
    using a ha s1(2) by (intro line_okI [of _ a _ p]) (simp_all add: other_refs_ready kept_refs_def)
  moreover have "next_view s1 (l\<lparr>l_ready := None\<rparr>) t u"
    using assms(2) a(1,2) ha by (auto simp: next_view_def)
  moreover have "same_msgs s s1 (kept_refs l + F)" using s1(3) by (rule same_msgs_mono) auto
  ultimately show ?thesis by blast
qed

lemma have_ok:
  assumes "line_ok s l F" "next_view s l t u" "\<forall>i. mem i"
  shows "parse_result (l\<lparr>l_ready := None\<rparr>) F s (tok_run u t) (have_katcl mem True True l s)"
proof -
  obtain s1 where s1: "(if ready_katcl l \<noteq> None then clear_katcl l s else Inr (l, s)) = Inr (l\<lparr>l_ready := None\<rparr>, s1)"
    "line_ok s1 (l\<lparr>l_ready := None\<rparr>) F" "next_view s1 (l\<lparr>l_ready := None\<rparr>) t u" "same_msgs s s1 (kept_refs l + F)"
    using clear_ok [OF assms(1,2)] by blast
  have "kept_refs (l\<lparr>l_ready := None\<rparr>) = kept_refs l" by (simp add: kept_refs_def)
  then show ?thesis
    using parse_katcl_ok [OF s1(2,3) assms(3)] s1(1,4)
    by (auto simp: have_katcl_def parse_result_def split: sum.splits option.splits intro: same_msgs_trans)
qed

section \<open>The stream of messages\<close>

text \<open>What a stream of bytes means: the messages that the tokenizer completes, one after the
  other, and its state at the end (\<open>None\<close> after an error).\<close>

fun feed :: "tok \<Rightarrow> string \<Rightarrow> (string list \<times> int) list \<times> tok option" where
  "feed t [] = ([], Some t)"
| "feed t (c # cs) =
     (case tok_step c t of
        None \<Rightarrow> ([], None)
      | Some t' \<Rightarrow>
          if t_state t' = PARSE_DONE
          then (case feed tok_init cs of (ms, r) \<Rightarrow> ((t_args t', t_tag t') # ms, r))
          else feed t' cs)"

lemma feed_run:
  assumes "t_state t \<noteq> PARSE_DONE"
  shows "feed t u =
    (case tok_run u t of
       None \<Rightarrow> ([], None)
     | Some (t', rest) \<Rightarrow>
         if t_state t' = PARSE_DONE
         then (case feed tok_init rest of (ms, r) \<Rightarrow> ((t_args t', t_tag t') # ms, r))
         else ([], Some t'))"
  using assms
proof (induction u arbitrary: t)
  case (Cons c cs)
  show ?case
  proof (cases "tok_step c t")
    case (Some t')
    with Cons show ?thesis by (cases "t_state t' = PARSE_DONE") auto
  qed (use Cons in simp)
qed simp

lemma feed_append:
  "feed t (xs @ ys) =
    (case feed t xs of
       (ms, None) \<Rightarrow> (ms, None)
     | (ms, Some t') \<Rightarrow> (case feed t' ys of (ns, r) \<Rightarrow> (ms @ ns, r)))"
proof (induction xs arbitrary: t)
  case (Cons c cs)
  show ?case
  proof (cases "tok_step c t")
    case (Some t')
    then show ?thesis using Cons.IH [of t'] Cons.IH [of tok_init]
      by (auto split: prod.splits option.splits)
  qed simp
qed (simp split: prod.splits)

lemma feed_not_done: "feed t u = (ms, Some t') \<Longrightarrow> t_state t \<noteq> PARSE_DONE \<Longrightarrow> t_state t' \<noteq> PARSE_DONE"
proof (induction t u arbitrary: ms rule: feed.induct)
  case (2 t c cs)
  then show ?case
    by (auto split: option.splits if_splits prod.splits simp: tok_init_def)
qed simp

lemma tok_run_length: "tok_run u t = Some (t', rest) \<Longrightarrow> length rest \<le> length u"
  by (induction u arbitrary: t) (auto split: if_splits option.splits intro: le_SucI)

lemma tok_run_shorter:
  "tok_run u t = Some (t', rest) \<Longrightarrow> t_state t \<noteq> PARSE_DONE \<Longrightarrow> t_state t' = PARSE_DONE \<Longrightarrow> length rest < length u"
  by (cases u) (auto split: option.splits dest!: tok_run_length)

text \<open>The loop of a caller: as long as \<open>have_katcl\<close> returns a message, take it. \<open>n\<close> bounds
  the rounds; one more than the bytes that wait are enough.\<close>

fun drain :: "(nat \<Rightarrow> bool) \<Rightarrow> nat \<Rightarrow> line \<Rightarrow> store \<Rightarrow> ((string list \<times> int) list \<times> int \<times> line \<times> store) res" where
  "drain mem 0 l s = Inr ([], 1, l, s)"
| "drain mem (Suc n) l s =
     bind_res (have_katcl mem True True l s) (\<lambda>(r, l1, s1).
     if r \<le> 0 then Inr ([], r, l1, s1)
     else case ready_view s1 l1 of
       None \<Rightarrow> Inl NullDeref
     | Some m \<Rightarrow> bind_res (drain mem n l1 s1) (\<lambda>(ms, r2, l2, s2). Inr (m # ms, r2, l2, s2)))"

definition drained :: "line \<Rightarrow> nat multiset \<Rightarrow> store \<Rightarrow> (string list \<times> int) list \<times> tok option
    \<Rightarrow> ((string list \<times> int) list \<times> int \<times> line \<times> store) res \<Rightarrow> bool" where
  "drained l F s f out =
     (case out of
        Inl _ \<Rightarrow> False
      | Inr (ms, r, l', s') \<Rightarrow>
          ms = fst f \<and> line_ok s' l' F \<and> same_msgs s s' (kept_refs l + F) \<and> kept_refs l' = kept_refs l \<and>
          (case snd f of None \<Rightarrow> r = -1 | Some t \<Rightarrow> r = 0 \<and> next_view s' l' t []))"

lemma drain_ok:
  assumes "line_ok s l F" "next_view s l t u" "\<forall>i. mem i" "t_state t \<noteq> PARSE_DONE" "length u < n"
  shows "drained l F s (feed t u) (drain mem n l s)"
  using assms
proof (induction n arbitrary: l s t u)
  case (Suc n)
  have h: "parse_result (l\<lparr>l_ready := None\<rparr>) F s (tok_run u t) (have_katcl mem True True l s)"
    using Suc.prems by (intro have_ok) auto
  have k: "kept_refs (l\<lparr>l_ready := None\<rparr>) = kept_refs l" by (simp add: kept_refs_def)
  obtain v l1 s1 where v: "have_katcl mem True True l s = Inr (v, l1, s1)"
    using h by (auto simp: parse_result_def split: sum.splits)
  show ?case
  proof (cases "tok_run u t")
    case None
    then show ?thesis using h v k feed_run [OF Suc.prems(4), of u]
      by (auto simp: parse_result_def drained_def)
  next
    case (Some x)
    obtain t' rest where x: "x = (t', rest)" by fastforce
    show ?thesis
    proof (cases "t_state t' = PARSE_DONE")
      case False
      then have "rest = []" using tok_run_rest Some x by blast
      then show ?thesis using h v k False Some x feed_run [OF Suc.prems(4), of u]
        by (auto simp: parse_result_def drained_def)
    next
      case True
      have p: "v = 1" "ready_view s1 l1 = Some (t_args t', t_tag t')" "next_view s1 l1 tok_init rest"
        "line_ok s1 l1 F" "same_msgs s s1 (kept_refs l + F)" "kept_refs l1 = kept_refs l"
        using h v Some x True k by (simp_all add: parse_result_def)
      have "length rest < n" using tok_run_shorter [of u t t' rest] Some x True Suc.prems(4,5) by auto
      then have d: "drained l1 F s1 (feed tok_init rest) (drain mem n l1 s1)"
        using p Suc.prems(3) by (intro Suc.IH) (auto simp: tok_init_def)
      then show ?thesis
        using v p Some x True feed_run [OF Suc.prems(4), of u] same_msgs_trans [OF p(5)]
        by (auto simp: drained_def split: sum.splits prod.splits)
    qed
  qed
qed simp

section \<open>Ends and exchanges\<close>

lemma same_msgs_unionD: "same_msgs s s' (M + N) \<Longrightarrow> same_msgs s s' N"
  by (simp add: same_msgs_def)

lemma same_msgs_addD: "same_msgs s s' (add_mset a M) \<Longrightarrow> same_msgs s s' M"
  by (simp add: same_msgs_def)

lemmas same_msgsD = same_msgs_unionD same_msgs_addD

definition fresh_line :: "int \<Rightarrow> nat \<Rightarrow> line" where
  "fresh_line fd a = \<lparr>l_fd = fd, l_ready = None, l_next = Some a, l_stage = None,
     l_buffer = replicate KATCL_IO_SIZE nul, l_pending = 0, l_arg = 0, l_offset = 0,
     l_queue = pq_empty, l_error = 0, l_sendable = 1\<rparr>"

lemma create_line_ok:
  assumes "refs_ok s F"
  shows "\<exists>s'. create_katcl (\<lambda>_. True) fd s = Inr (Some (fresh_line fd (st_fresh s)), s') \<and>
    line_ok s' (fresh_line fd (st_fresh s)) F \<and> next_view s' (fresh_line fd (st_fresh s)) tok_init [] \<and>
    same_msgs s s' F"
proof -
  let ?p = "fresh_parse\<lparr>p_refs := 1\<rparr>" and ?l = "fresh_line fd (st_fresh s)"
  define s1 where "s1 = (st_put (st_fresh s) ?p s)\<lparr>st_fresh := st_fresh s + 1\<rparr>"
  note c = create_referenced_ok [OF assms, of True]
  have heap: "st_heap s1 (st_fresh s) = Some ?p" by (simp add: s1_def st_put_def)
  have "create_katcl (\<lambda>_. True) fd s = Inr (Some ?l, s1)"
    using c by (simp add: create_katcl_def s1_def fresh_line_def create_queue_katcl_def pq_empty_def)
  moreover have "line_ok s1 ?l F"
    using c heap pq_empty by (intro line_okI [of _ "st_fresh s" _ ?p])
      (simp_all add: s1_def fresh_line_def other_refs_def)
  moreover have "next_view s1 ?l tok_init []"
    using heap by (simp add: next_view_def fresh_line_def tok_of_def tok_init_def parse_args_def parse_unread_def fresh_parse_def)
  moreover have "same_msgs s s1 F"
    using same_msgs_put [OF assms, of F "st_fresh s" ?p] c by (simp add: s1_def same_msgs_def)
  ultimately show ?thesis by blast
qed

lemma destroy_line_ok:
  assumes "line_ok s l F"
  shows "\<exists>s'. destroy_katcl l (Some (l_queue l)) end s = Inr (if end \<and> l_fd l \<ge> 0 then Some (l_fd l) else None, s') \<and>
    refs_ok s' F \<and> same_msgs s s' F"
proof -
  let ?q = "mset (pq_items (l_queue l))"
  have "refs_ok s (opt_refs (l_ready l) + (opt_refs (l_next l) + (opt_refs (l_stage l) + (?q + F))))"
    using assms by (simp add: line_ok_def line_refs_def ac_simps)
  then obtain s1 where s1: "drop_parse (l_ready l) s = Inr s1"
      "refs_ok s1 (opt_refs (l_next l) + (opt_refs (l_stage l) + (?q + F)))"
      "same_msgs s s1 (opt_refs (l_next l) + (opt_refs (l_stage l) + (?q + F)))"
    using drop_ok by blast
  from drop_ok [OF s1(2)] obtain s2 where s2: "drop_parse (l_next l) s1 = Inr s2"
      "refs_ok s2 (opt_refs (l_stage l) + (?q + F))" "same_msgs s1 s2 (opt_refs (l_stage l) + (?q + F))"
    by blast
  from drop_ok [OF s2(2)] obtain s3 where s3: "drop_parse (l_stage l) s2 = Inr s3"
      "refs_ok s3 (?q + F)" "same_msgs s2 s3 (?q + F)"
    by blast
  have "pq_inv (l_queue l)" using assms by (simp add: line_ok_def)
  from clear_queue_ok [OF this s3(2)] obtain s4 where
    s4: "destroy_queue_katcl (l_queue l) s3 = Inr s4" "refs_ok s4 F" "same_msgs s3 s4 F" by blast
  have "same_msgs s s1 F" "same_msgs s1 s2 F" "same_msgs s2 s3 F"
    using s1(3) s2(3) s3(3) by (auto dest!: same_msgsD)
  with s4(3) have "same_msgs s s4 F" by (blast intro: same_msgs_trans)
  with s1 s2 s3 s4 show ?thesis by (auto simp: destroy_katcl_def)
qed

lemma exchange_ok:
  assumes "line_ok s l F"
  shows "\<exists>b q s'. exchange_katcl True l fd s =
      Inr (if l_fd l \<ge> 0 then Some (l_fd l) else None,
           l\<lparr>l_fd := fd, l_ready := None, l_next := Some b, l_stage := None, l_pending := 0, l_arg := 0,
             l_offset := 0, l_queue := q, l_error := 0, l_sendable := 1\<rparr>, s') \<and>
    line_ok s' (l\<lparr>l_fd := fd, l_ready := None, l_next := Some b, l_stage := None, l_pending := 0, l_arg := 0,
             l_offset := 0, l_queue := q, l_error := 0, l_sendable := 1\<rparr>) F \<and>
    (\<exists>p. st_heap s' b = Some p \<and> blank p) \<and> pq_items q = [] \<and> same_msgs s s' F"
proof -
  obtain a p where a: "l_next l = Some a" "st_heap s a = Some p" "p_refs p = 1" "parse_inv p"
    "p_state p \<noteq> PARSE_FAKE" "refs_ok s (add_mset a (other_refs l + F))" "a \<notin># other_refs l + F"
    "pq_inv (l_queue l)"
    using line_okE [OF assms] .
  let ?q = "mset (pq_items (l_queue l))"
  have "refs_ok s (opt_refs (l_ready l) + add_mset a (opt_refs (l_stage l) + (?q + F)))"
    using a(6) by (simp add: other_refs_def ac_simps)
  from drop_ok [OF this] obtain s1 where s1: "drop_parse (l_ready l) s = Inr s1"
      "refs_ok s1 (add_mset a (opt_refs (l_stage l) + (?q + F)))" "same_msgs s s1 F"
    by (auto dest!: same_msgsD)
  from reuse_ok [OF s1(2), of True] obtain b s2 pb where s2: "reuse_parse_katcl True (Some a) s1 = Inr (Some b, s2)"
      "refs_ok s2 (opt_refs (l_stage l) + add_mset b (?q + F))" "b \<notin># opt_refs (l_stage l) + (?q + F)"
      "same_msgs s1 s2 F" "st_heap s2 b = Some pb" "blank pb"
    by (auto split: option.splits dest!: same_msgs_unionD)
  from drop_ok [OF s2(2)] obtain s3 where s3: "drop_parse (l_stage l) s2 = Inr s3"
      "refs_ok s3 (?q + add_mset b F)" "same_msgs s2 s3 (add_mset b (?q + F))"
    by auto
  from clear_queue_ok [OF a(8) s3(2)] obtain q s4 where
    s4: "clear_queue_katcl (l_queue l) s3 = Inr (q, s4)" "pq_inv q" "pq_items q = []"
      "refs_ok s4 (add_mset b F)" "same_msgs s3 s4 (add_mset b F)"
    by blast
  have rb: "p_refs pb = 1" "p_state pb = PARSE_FRESH" using s2(6) by (simp_all add: blank_def)
  have nb: "count F b = 0" "count ?q b = 0" using s2(3) by (auto simp: not_in_iff)
  have h3: "st_heap s3 b = Some pb"
    using s2(5) rb nb by (intro same_msgs_keep [OF s3(3) _ _ s3(2)]) auto
  have h4: "st_heap s4 b = Some pb"
    using h3 rb nb by (intro same_msgs_keep [OF s4(5) _ _ s4(4)]) auto
  let ?l = "l\<lparr>l_fd := fd, l_ready := None, l_next := Some b, l_stage := None, l_pending := 0, l_arg := 0,
             l_offset := 0, l_queue := q, l_error := 0, l_sendable := 1\<rparr>"
  have "line_ok s4 ?l F"
    using h4 rb s4 by (intro line_okI [of _ b _ pb]) (simp_all add: other_refs_def)
  moreover have "same_msgs s2 s3 F" "same_msgs s3 s4 F"
    using s3(3) s4(5) by (auto dest!: same_msgsD)
  with s1(3) s2(4) have "same_msgs s s4 F" by (blast intro: same_msgs_trans)
  moreover have "exchange_katcl True l fd s = Inr (if l_fd l \<ge> 0 then Some (l_fd l) else None, ?l, s4)"
    using sane_line_ok [OF assms] a(1) s1(1) s2(1) s3(1) s4(1) by (simp add: exchange_katcl_def)
  ultimately show ?thesis using h4 s2(6) s4(3) by blast
qed


text \<open>Changing the message being read, for an operation that reads.\<close>

lemma next_change:
  assumes "l_next l = Some a" "st_heap s a = Some p" "p_refs p = 1"
    "refs_ok s (add_mset a (other_refs l + F))" "a \<notin># other_refs l + F" "pq_inv (l_queue l)"
    "parse_inv q" "p_refs q = 1" "p_state q \<noteq> PARSE_FAKE"
    "l_next l' = Some a" "other_refs l' = other_refs l" "l_queue l' = l_queue l"
  shows "line_ok (st_put a q s) l' F \<and> next_view (st_put a q s) l' (tok_of q) (parse_unread q) \<and>
    same_msgs s (st_put a q s) (other_refs l + F)"
proof -
  have "refs_ok (st_put a q s) (add_mset a (other_refs l + F))"
    using assms refs_ok_live [OF assms(4), of a] by (intro refs_ok_put [OF assms(4)]) (auto simp: not_in_iff)
  then have "line_ok (st_put a q s) l' F"
    using assms by (intro line_okI [of _ a _ q]) (simp_all add: st_put_def)
  moreover have "same_msgs s (st_put a q s) (other_refs l + F)"
    using assms(5) by (intro same_msgs_put [OF assms(4)]) auto
  ultimately show ?thesis using assms(10) by (simp add: next_view_def st_put_def)
qed

definition read_effect ::
  "nat multiset \<Rightarrow> line \<Rightarrow> store \<Rightarrow> tok \<Rightarrow> string \<Rightarrow> read_result \<Rightarrow> (int \<times> line \<times> store) res \<Rightarrow> bool" where
  "read_effect F l s t u x out =
     (case out of
        Inl _ \<Rightarrow> False
      | Inr (v, l', s') \<Rightarrow> line_ok s' l' F \<and> same_msgs s s' (other_refs l + F) \<and>
          (case x of
             Rd_data d \<Rightarrow> v = (if d = [] then 1 else 0) \<and> l' = l \<and> next_view s' l' t (u @ d)
           | Rd_eof \<Rightarrow> v = 1 \<and> l' = l \<and> next_view s' l' t u
           | Rd_error e \<Rightarrow> next_view s' l' t u \<and>
               (if e = ECONNRESET then v = 1 \<and> l' = l
                else if e = EAGAIN \<or> e = EINTR then v = 0 \<and> l' = l
                else v = -1 \<and> l' = l\<lparr>l_error := e\<rparr>)))"

text \<open>The number of bytes that a read asks for.\<close>

definition read_room :: "line \<Rightarrow> store \<Rightarrow> nat" where
  "read_room l s =
     (case l_next l of
        None \<Rightarrow> 0
      | Some a \<Rightarrow> (case st_heap s a of None \<Rightarrow> 0 | Some p \<Rightarrow> p_size (grow_for_read p) - p_have (grow_for_read p)))"

lemma read_ok:
  assumes "line_ok s l F" "next_view s l t u" "\<And>n d. io n = Rd_data d \<Longrightarrow> length d \<le> n"
  shows "0 < read_room l s \<and> read_effect F l s t u (io (read_room l s)) (read_katcl True io l s)"
proof -
  obtain a p where a: "l_next l = Some a" "st_heap s a = Some p" "p_refs p = 1" "parse_inv p"
    "p_state p \<noteq> PARSE_FAKE" "refs_ok s (add_mset a (other_refs l + F))" "a \<notin># other_refs l + F"
    "pq_inv (l_queue l)"
    using line_okE [OF assms(1)] .
  have tu: "tok_of p = t" "parse_unread p = u" using assms(2) a by (auto simp: next_view_def)
  define p1 where "p1 = grow_for_read p"
  have p1: "parse_inv p1" "tok_of p1 = t" "parse_unread p1 = u" "p_refs p1 = 1" "p_state p1 \<noteq> PARSE_FAKE"
    using grow_view [OF a(4), of "p_size p + KATCL_BUFFER_INC"] a tu by (auto simp: p1_def grow_for_read_def)
  have room: "p_have p1 < p_size p1" "length (p_buffer p1) = p_size p1"
    using a(4) p1(1) by (auto simp: p1_def grow_for_read_def KATCL_BUFFER_INC_def parse_inv_def)
  define n where "n = p_size p1 - p_have p1"
  have nr: "read_room l s = n" using a(1,2) by (simp add: read_room_def n_def p1_def)
  have keep: "line_ok (st_put a p1 s) l F" "next_view (st_put a p1 s) l t u"
    "line_ok (st_put a p1 s) (l\<lparr>l_error := e\<rparr>) F" "next_view (st_put a p1 s) (l\<lparr>l_error := e\<rparr>) t u"
    "same_msgs s (st_put a p1 s) (other_refs l + F)" for e
    using next_change [OF a(1-3,6-8) p1(1,4,5), of l] next_change [OF a(1-3,6-8) p1(1,4,5), of "l\<lparr>l_error := e\<rparr>"] a(1) p1(2,3)
    by (simp_all add: other_refs_def)
  have rd: "read_katcl True io l s =
      (case io n of
         Rd_error e \<Rightarrow>
           if e = ECONNRESET then Inr (1, l, st_put a p1 s)
           else if e = EAGAIN \<or> e = EINTR then Inr (0, l, st_put a p1 s)
           else Inr (-1, l\<lparr>l_error := e\<rparr>, st_put a p1 s)
       | Rd_eof \<Rightarrow> Inr (1, l, st_put a p1 s)
       | Rd_data d \<Rightarrow>
           if d = [] then Inr (1, l, st_put a p1 s)
           else if length d > n then Inl OutOfBounds
           else Inr (0, l, st_put a
             (p1\<lparr>p_buffer := take (p_have p1) (p_buffer p1) @ d @ drop (p_have p1 + length d) (p_buffer p1),
                 p_have := p_have p1 + length d\<rparr>) s))"
    unfolding n_def p1_def using sane_line_ok [OF assms(1)] a(1,2)
    by (simp add: read_katcl_def deref_def Let_def)
  have "read_effect F l s t u (io n) (read_katcl True io l s)"
  proof (cases "io n")
    case (Rd_data d)
    show ?thesis
    proof (cases "d = []")
      case False
      have len: "length d \<le> n" using assms(3) Rd_data by blast
      let ?b = "take (p_have p1) (p_buffer p1) @ d @ drop (p_have p1 + length d) (p_buffer p1)"
      let ?q = "p1\<lparr>p_buffer := ?b, p_have := p_have p1 + length d\<rparr>"
      have lb: "length ?b = p_size p1" using room len by (simp add: n_def)
      have "p1\<lparr>p_buffer := ?b, p_size := length ?b, p_have := p_have p1 + length d\<rparr> = ?q"
        using lb by (cases p1) simp
      moreover have "take (p_have p1 + length d) ?b = take (p_have p1) (p_buffer p1) @ d"
        "p_have p1 + length d \<le> length ?b"
        using room len by (auto simp: n_def)
      ultimately have q: "parse_inv ?q" "tok_of ?q = t" "parse_unread ?q = u @ d"
        using append_view [OF p1(1), of d ?b] p1(2,3) by (simp_all only:)
      have "line_ok (st_put a ?q s) l F \<and> next_view (st_put a ?q s) l (tok_of ?q) (parse_unread ?q) \<and>
          same_msgs s (st_put a ?q s) (other_refs l + F)"
        using a p1 q(1) by (intro next_change [OF a(1-3,6-8)]) simp_all
      then show ?thesis
        using rd Rd_data False len q(2,3) by (simp add: read_effect_def)
    qed (use rd Rd_data keep in \<open>simp add: read_effect_def\<close>)
  qed (use rd keep in \<open>simp_all add: read_effect_def\<close>)
  moreover have "0 < n" using room by (simp add: n_def)
  ultimately show ?thesis by (simp add: nr)
qed

section \<open>Reading a stream\<close>

text \<open>A kernel that holds the bytes that arrived. Asked for bytes it gives some of them, as
  many as it likes from one to the number asked for, or, with \<open>None\<close> or when it has none, it
  says that the read is to be tried again.\<close>

definition kernel_read :: "nat option \<Rightarrow> string \<Rightarrow> nat \<Rightarrow> read_result" where
  "kernel_read piece bytes room =
     (case piece of
        None \<Rightarrow> Rd_error EAGAIN
      | Some k \<Rightarrow> if bytes = [] then Rd_error EAGAIN else Rd_data (take (min (Suc k) room) bytes))"

definition kernel_left :: "nat option \<Rightarrow> string \<Rightarrow> nat \<Rightarrow> string" where
  "kernel_left piece bytes room =
     (case kernel_read piece bytes room of Rd_data d \<Rightarrow> drop (length d) bytes | _ \<Rightarrow> bytes)"

text \<open>The main loop of a reader: \<open>read_katcl\<close>, then every complete message taken, once for each
  entry of the list of cuts. The result holds the messages and what the kernel still has.\<close>

fun serve ::
  "(nat \<Rightarrow> bool) \<Rightarrow> nat \<Rightarrow> nat option list \<Rightarrow> string \<Rightarrow> line \<Rightarrow> store \<Rightarrow>
   ((string list \<times> int) list \<times> string \<times> int \<times> line \<times> store) res" where
  "serve mem n [] bytes l s = Inr ([], bytes, 0, l, s)"
| "serve mem n (c # cs) bytes l s =
     bind_res (read_katcl True (kernel_read c bytes) l s) (\<lambda>(r, l1, s1).
     let left = kernel_left c bytes (read_room l s) in
     if r \<noteq> 0 then Inr ([], left, r, l1, s1)
     else bind_res (drain mem n l1 s1) (\<lambda>(ms, r2, l2, s2).
       if r2 \<noteq> 0 then Inr (ms, left, r2, l2, s2)
       else bind_res (serve mem n cs left l2 s2) (\<lambda>(ns, b, r3, l3, s3). Inr (ms @ ns, b, r3, l3, s3))))"

text \<open>The number of rounds in which the kernel gives something if it can.\<close>

definition reads :: "nat option list \<Rightarrow> nat" where
  "reads cs = length (filter (\<lambda>c. c \<noteq> None) cs)"

definition served ::
  "line \<Rightarrow> nat multiset \<Rightarrow> store \<Rightarrow> tok \<Rightarrow> string \<Rightarrow> nat \<Rightarrow>
   ((string list \<times> int) list \<times> string \<times> int \<times> line \<times> store) res \<Rightarrow> bool" where
  "served l F s t bytes k out =
     (\<exists>ms got left r l' s'. out = Inr (ms, left, r, l', s') \<and> bytes = got @ left \<and> ms = fst (feed t got) \<and>
        line_ok s' l' F \<and> same_msgs s s' (kept_refs l + F) \<and> kept_refs l' = kept_refs l \<and>
        (case snd (feed t got) of
           None \<Rightarrow> r = -1
         | Some t' \<Rightarrow> r = 0 \<and> next_view s' l' t' [] \<and> (length bytes \<le> k \<longrightarrow> left = [])))"

lemma kernel_step:
  assumes "0 < room"
  shows "\<exists>d. bytes = d @ kernel_left c bytes room \<and> length d \<le> room \<and>
    (kernel_read c bytes room = Rd_data d \<and> d \<noteq> [] \<or> kernel_read c bytes room = Rd_error EAGAIN \<and> d = [] \<and> (c = None \<or> bytes = []))"
proof (cases "c = None \<or> bytes = []")
  case True
  then show ?thesis by (auto simp: kernel_left_def kernel_read_def split: option.splits)
next
  case False
  then obtain k where k: "c = Some k" "bytes \<noteq> []" by auto
  let ?d = "take (min (Suc k) room) bytes"
  have "?d \<noteq> []" using k(2) assms by (cases bytes; cases room) simp_all
  moreover have "xs = take m xs @ drop (length (take m xs)) xs" for m and xs :: string
    by (cases "m \<le> length xs") simp_all
  then have "bytes = ?d @ kernel_left c bytes room"
    unfolding kernel_left_def kernel_read_def using k by (simp only: option.case if_False read_result.case)
  moreover have "kernel_read c bytes room = Rd_data ?d" using k by (simp add: kernel_read_def)
  moreover have "length ?d \<le> room" by simp
  ultimately show ?thesis by blast
qed

lemma serve_ok:
  assumes "line_ok s l F" "next_view s l t []" "\<forall>i. mem i" "t_state t \<noteq> PARSE_DONE" "length bytes < n"
  shows "served l F s t bytes (reads cs) (serve mem n cs bytes l s)"
  using assms
proof (induction cs arbitrary: l s t bytes)
  case Nil
  have "refs_ok s (line_refs l + F)" using Nil.prems(1) by (simp add: line_ok_def)
  from same_msgs_refl [OF this] have "same_msgs s s (kept_refs l + F)"
    by (rule same_msgs_mono) (auto simp: line_refs_def kept_refs_def)
  then show ?case using Nil.prems by (simp add: served_def reads_def)
next
  case (Cons c cs)
  let ?io = "kernel_read c bytes" and ?left = "kernel_left c bytes (read_room l s)"
  have io: "length d \<le> m" if "?io m = Rd_data d" for m d
    using that by (auto simp: kernel_read_def split: option.splits if_splits)
  have rd: "0 < read_room l s \<and> read_effect F l s t [] (?io (read_room l s)) (read_katcl True ?io l s)"
    by (rule read_ok [OF Cons.prems(1,2)]) (rule io)
  obtain d where d: "bytes = d @ ?left" "?io (read_room l s) = Rd_data d \<and> d \<noteq> [] \<or>
      ?io (read_room l s) = Rd_error EAGAIN \<and> d = [] \<and> (c = None \<or> bytes = [])"
    using kernel_step [OF conjunct1 [OF rd], of bytes c] by metis
  have "read_effect F l s t [] (?io (read_room l s)) (read_katcl True ?io l s)" using rd by blast
  then obtain s1 where s1: "read_katcl True ?io l s = Inr (0, l, s1)" "line_ok s1 l F" "next_view s1 l t d"
      "same_msgs s s1 (other_refs l + F)"
    using d(2) by (auto simp: read_effect_def EAGAIN_def ECONNRESET_def EINTR_def split: sum.splits)
  have same1: "same_msgs s s1 (kept_refs l + F)"
    using s1(4) by (rule same_msgs_mono) (auto simp: other_refs_ready)
  have len: "length d < n" "length ?left < n" using Cons.prems(5) arg_cong [OF d(1), of length] by simp_all
  have dr: "drained l F s1 (feed t d) (drain mem n l s1)"
    using s1 Cons.prems len(1) by (intro drain_ok) auto
  then obtain ms r l2 s2 where r: "drain mem n l s1 = Inr (ms, r, l2, s2)"
    by (auto simp: drained_def split: sum.splits)
  show ?case
  proof (cases "snd (feed t d)")
    case None
    have "r = -1" "ms = fst (feed t d)" "line_ok s2 l2 F" "same_msgs s1 s2 (kept_refs l + F)" "kept_refs l2 = kept_refs l"
      using dr r None by (simp_all add: drained_def)
    then show ?thesis using r s1(1) d(1) None same_msgs_trans [OF same1] unfolding served_def
      by (intro exI [of _ ms] exI [of _ d] exI [of _ ?left] exI [of _ r] exI [of _ l2] exI [of _ s2]) (simp add: Let_def)
  next
    case (Some t2)
    obtain ms' where f: "feed t d = (ms', Some t2)" using Some by (cases "feed t d") auto
    have p: "ms = ms'" "r = 0" "line_ok s2 l2 F" "next_view s2 l2 t2 []" "same_msgs s1 s2 (kept_refs l + F)"
      "kept_refs l2 = kept_refs l"
      using dr r f by (simp_all add: drained_def)
    have "served l2 F s2 t2 ?left (reads cs) (serve mem n cs ?left l2 s2)"
      using p Cons.prems(3,4) feed_not_done [OF f] len(2) by (intro Cons.IH) auto
    then obtain ns got left r3 l3 s3 where g: "serve mem n cs ?left l2 s2 = Inr (ns, left, r3, l3, s3)" "?left = got @ left"
        "ns = fst (feed t2 got)" "line_ok s3 l3 F" "same_msgs s2 s3 (kept_refs l2 + F)" "kept_refs l3 = kept_refs l2"
        "case snd (feed t2 got) of None \<Rightarrow> r3 = -1
         | Some t' \<Rightarrow> r3 = 0 \<and> next_view s3 l3 t' [] \<and> (length ?left \<le> reads cs \<longrightarrow> left = [])"
      unfolding served_def by blast
    have fa: "feed t (d @ got) = (ms @ fst (feed t2 got), snd (feed t2 got))"
      using feed_append [of t d got] f p(1) by (simp add: split_beta)
    have run: "serve mem n (c # cs) bytes l s = Inr (ms @ ns, left, r3, l3, s3)"
      using r s1(1) p(2) g(1) by (simp add: Let_def)
    have more: "length ?left \<le> reads cs" if "length bytes \<le> reads (c # cs)"
    proof (cases "c = None")
      case True
      then have "reads (c # cs) = reads cs" by (simp add: reads_def)
      then show ?thesis using that arg_cong [OF d(1), of length] by simp
    next
      case False
      then have "reads (c # cs) = Suc (reads cs)" by (simp add: reads_def)
      moreover have "d \<noteq> [] \<or> bytes = []" using d(2) False by blast
      moreover have "length bytes = length d + length ?left" using arg_cong [OF d(1), of length] by simp
      ultimately show ?thesis using that by (cases d) auto
    qed
    show ?thesis
      unfolding served_def
    proof (intro exI conjI)
      show "serve mem n (c # cs) bytes l s = Inr (ms @ ns, left, r3, l3, s3)" by (rule run)
      show "bytes = (d @ got) @ left" using d(1) g(2) by (metis append.assoc)
      show "ms @ ns = fst (feed t (d @ got))" using fa g(3) by simp
      show "line_ok s3 l3 F" by (rule g(4))
      show "same_msgs s s3 (kept_refs l + F)"
        using same_msgs_trans [OF same1 same_msgs_trans [OF p(5)]] g(5) p(6) by simp
      show "kept_refs l3 = kept_refs l" using g(6) p(6) by simp
      show "case snd (feed t (d @ got)) of None \<Rightarrow> r3 = -1
         | Some t' \<Rightarrow> r3 = 0 \<and> next_view s3 l3 t' [] \<and> (length bytes \<le> reads (c # cs) \<longrightarrow> left = [])"
        using g(7) more unfolding fa by (auto split: option.splits)
    qed
  qed
qed

section \<open>Properties\<close>

text \<open>C5. A line delivers the messages of the byte stream, however the kernel cuts it into reads.
  On a new line whose reader calls \<open>read_katcl\<close> again and again and takes every message after
  each call, the messages delivered are exactly those that the tokenizer finds in the bytes that
  the kernel has handed over, in order, with their arguments and tags. The loop stops with an
  error exactly where the tokenizer does; without one it has read everything as soon as the
  kernel has given way as often as there are bytes, since every such call gets at least one.
  Messages held by others stay as they are, and every reference is accounted for. All
  allocations are taken to succeed.\<close>

theorem line_delivers_stream:
  assumes "refs_ok s F" "\<forall>i. mem i" "length bytes < n"
  shows "\<exists>l s1. create_katcl (\<lambda>_. True) fd s = Inr (Some l, s1) \<and>
    (\<exists>ms got left r l' s'. serve mem n cs bytes l s1 = Inr (ms, left, r, l', s') \<and> bytes = got @ left \<and>
      ms = fst (feed tok_init got) \<and> r = (if snd (feed tok_init got) = None then -1 else 0) \<and>
      (r = 0 \<and> length bytes \<le> reads cs \<longrightarrow> left = []) \<and> line_ok s' l' F \<and> same_msgs s s' F)"
proof -
  let ?l = "fresh_line fd (st_fresh s)"
  obtain s1 where c: "create_katcl (\<lambda>_. True) fd s = Inr (Some ?l, s1)" "line_ok s1 ?l F"
      "next_view s1 ?l tok_init []" "same_msgs s s1 F"
    using create_line_ok [OF assms(1)] by blast
  have "served ?l F s1 tok_init bytes (reads cs) (serve mem n cs bytes ?l s1)"
    using c assms(2,3) by (intro serve_ok) (auto simp: tok_init_def)
  then obtain ms got left r l' s' where r: "serve mem n cs bytes ?l s1 = Inr (ms, left, r, l', s')" "bytes = got @ left"
      "ms = fst (feed tok_init got)" "line_ok s' l' F" "same_msgs s1 s' (kept_refs ?l + F)"
      "case snd (feed tok_init got) of None \<Rightarrow> r = -1
         | Some t' \<Rightarrow> r = 0 \<and> next_view s' l' t' [] \<and> (length bytes \<le> reads cs \<longrightarrow> left = [])"
    unfolding served_def by blast
  have "r = (if snd (feed tok_init got) = None then -1 else 0)" "r = 0 \<and> length bytes \<le> reads cs \<longrightarrow> left = []"
    using r(6) by (auto split: option.splits)
  moreover have "same_msgs s s' F" using c(4) same_msgs_unionD [OF r(5)] by (rule same_msgs_trans)
  ultimately show ?thesis using c(1) r(1-4) by blast
qed

theorem line_delivers_stream_witness:
  "\<exists>l s1 l' s'. create_katcl (\<lambda>_. True) 3 empty_store = Inr (Some l, s1) \<and>
    serve (\<lambda>_. True) 20 (replicate 14 (Some 2)) (''?a b'' @ ''c'' @ [CHR 0x0A] @ ''#x'') l s1 =
      Inr ([([''?a'', ''bc''], -1)], [], 0, l', s')"
proof -
  let ?b = "''?a b'' @ ''c'' @ [CHR 0x0A] @ ''#x''"
  have e: "refs_ok empty_store {#}" by (simp add: refs_ok_def empty_store_def)
  have f: "feed tok_init ?b =
      ([([''?a'', ''bc''], -1)], Some \<lparr>t_state = PARSE_COMMAND, t_args = [], t_cur = ''#x'', t_tag = -1\<rparr>)"
    by (simp add: tok_init_def tok_step.simps tok_end_def tok_put_def is_type_def is_ws_def is_eol_def backslash_def)
  have n: "length ?b < 20" "length ?b \<le> reads (replicate 14 (Some 2))" by (simp_all add: reads_def)
  obtain l s1 ms got left r l' s' where k: "create_katcl (\<lambda>_. True) 3 empty_store = Inr (Some l, s1)"
      "serve (\<lambda>_. True) 20 (replicate 14 (Some 2)) ?b l s1 = Inr (ms, left, r, l', s')" "?b = got @ left"
      "ms = fst (feed tok_init got)" "r = (if snd (feed tok_init got) = None then -1 else 0)"
      "r = 0 \<and> length ?b \<le> reads (replicate 14 (Some 2)) \<longrightarrow> left = []"
    using line_delivers_stream [OF e _ n(1), of "\<lambda>_. True" 3 "replicate 14 (Some 2)"] by blast
  have some: "snd (feed tok_init ?b) \<noteq> None" unfolding f by simp
  have "snd (feed tok_init got) \<noteq> None"
  proof
    assume "snd (feed tok_init got) = None"
    then have "snd (feed tok_init ?b) = None" using feed_append [of tok_init got left] unfolding k(3) by (simp add: split_beta)
    then show False using some by blast
  qed
  then have z: "r = 0" "left = []" using k(5,6) n(2) by simp_all
  then have "got = ?b" using k(3) by simp
  then have "ms = [([''?a'', ''bc''], -1)]" using k(4) f by simp
  with k(1,2) z show ?thesis by blast
qed

text \<open>\<open>read_katcl\<close> puts the bytes it gets behind those that wait and changes nothing else;
  it always asks for at least one byte, tells the end of the file and a reset connection from
  a read to be tried again, and records any other error.\<close>

theorem read_appends:
  assumes "line_ok s l F" "next_view s l t u" "\<And>n d. io n = Rd_data d \<Longrightarrow> length d \<le> n"
  shows "\<exists>n > 0. read_effect F l s t u (io n) (read_katcl True io l s)"
  using read_ok [OF assms] by blast

theorem read_appends_witness:
  "\<exists>l s1. create_katcl (\<lambda>_. True) 3 empty_store = Inr (Some l, s1) \<and>
    read_effect {#} l s1 tok_init [] (Rd_data ''?'') (read_katcl True (\<lambda>n. if n = 0 then Rd_eof else Rd_data ''?'') l s1)"
proof -
  have e: "refs_ok empty_store {#}" by (simp add: refs_ok_def empty_store_def)
  obtain s1 where c: "create_katcl (\<lambda>_. True) 3 empty_store = Inr (Some (fresh_line 3 (st_fresh empty_store)), s1)"
    "line_ok s1 (fresh_line 3 (st_fresh empty_store)) {#}"
    "next_view s1 (fresh_line 3 (st_fresh empty_store)) tok_init []"
    using create_line_ok [OF e] by blast
  let ?io = "\<lambda>n :: nat. if n = 0 then Rd_eof else Rd_data ''?''"
  have io: "length d \<le> n" if "?io n = Rd_data d" for n d using that by (cases n) auto
  obtain n where "n > 0" "read_effect {#} (fresh_line 3 (st_fresh empty_store)) s1 tok_init [] (?io n)
      (read_katcl True ?io (fresh_line 3 (st_fresh empty_store)) s1)"
    using read_appends [where io = ?io, OF c(2,3) io] by blast
  with c(1) show ?thesis by auto
qed

text \<open>C13. Exchanging the file descriptor of a line closes the old one, drops every message of
  the line, in and out, and leaves an empty line; destroying a line gives back every reference
  it holds. Messages held by others are not touched in either case.\<close>

theorem line_ends:
  assumes "line_ok s l F"
  shows "(\<exists>l' s'. exchange_katcl True l fd s = Inr (if l_fd l \<ge> 0 then Some (l_fd l) else None, l', s') \<and>
      line_ok s' l' F \<and> same_msgs s s' F \<and> l_fd l' = fd \<and> l_ready l' = None \<and> l_stage l' = None \<and>
      pq_items (l_queue l') = [] \<and> l_pending l' = 0 \<and>
      (\<exists>b p. l_next l' = Some b \<and> st_heap s' b = Some p \<and> blank p)) \<and>
    (\<exists>s'. destroy_katcl l (Some (l_queue l)) True s = Inr (if l_fd l \<ge> 0 then Some (l_fd l) else None, s') \<and>
      refs_ok s' F \<and> same_msgs s s' F)"
proof
  from exchange_ok [OF assms, of fd]
  show "\<exists>l' s'. exchange_katcl True l fd s = Inr (if l_fd l \<ge> 0 then Some (l_fd l) else None, l', s') \<and>
      line_ok s' l' F \<and> same_msgs s s' F \<and> l_fd l' = fd \<and> l_ready l' = None \<and> l_stage l' = None \<and>
      pq_items (l_queue l') = [] \<and> l_pending l' = 0 \<and>
      (\<exists>b p. l_next l' = Some b \<and> st_heap s' b = Some p \<and> blank p)"
    by fastforce
  from destroy_line_ok [OF assms, of True]
  show "\<exists>s'. destroy_katcl l (Some (l_queue l)) True s = Inr (if l_fd l \<ge> 0 then Some (l_fd l) else None, s') \<and>
      refs_ok s' F \<and> same_msgs s s' F" by simp
qed

theorem line_ends_witness:
  "\<exists>l s1 s2. create_katcl (\<lambda>_. True) 3 empty_store = Inr (Some l, s1) \<and>
    destroy_katcl l (Some (l_queue l)) True s1 = Inr (Some 3, s2) \<and> refs_ok s2 {#}"
proof -
  have e: "refs_ok empty_store {#}" by (simp add: refs_ok_def empty_store_def)
  obtain s1 where c: "create_katcl (\<lambda>_. True) 3 empty_store = Inr (Some (fresh_line 3 (st_fresh empty_store)), s1)"
    "line_ok s1 (fresh_line 3 (st_fresh empty_store)) {#}"
    using create_line_ok [OF e] by blast
  from line_ends [OF c(2)] c(1) show ?thesis by (auto simp: fresh_line_def)
qed

end
