(* ===== verification/Line_Write.thy ===== *)
theory Line_Write
  imports Line
begin

text \<open>
  The writing half of a connection (\<open>katcp/line.c\<close>): messages are staged argument by
  argument, queued when they are complete, and turned into bytes by the state machine of
  \<open>write_katcl\<close>, which fills the output buffer of the line, escapes what has to be
  escaped and hands the buffer to the kernel as far as it takes it. The lemmas give the
  text of a message on the wire, show that the bytes sent and the bytes still waiting are
  always the text of the messages queued, that the buffer is never overrun and that
  \<open>write_katcl\<close> ends, and that the reader of theory \<open>Line\<close> gets back the messages that
  were written.
\<close>

section \<open>Staging a message\<close>

definition before_append_katcl ::
  "bool \<Rightarrow> line \<Rightarrow> flags \<Rightarrow> store \<Rightarrow> (nat option \<times> line \<times> store) res" where
  "before_append_katcl ok l fl s =
     bind_res (sane_line_katcl l s) (\<lambda>_.
     if l_stage l = None then
       (if \<not> has_flag fl KATCP_FLAG_FIRST then Inr (None, l, s)
        else bind_res (create_referenced_parse_katcl ok s) (\<lambda>(p, s1). Inr (p, l\<lparr>l_stage := p\<rparr>, s1)))
     else Inr (l_stage l, l, s))"

definition after_append_katcl ::
  "bool \<Rightarrow> line \<Rightarrow> flags \<Rightarrow> int \<Rightarrow> store \<Rightarrow> (int \<times> line \<times> store) res" where
  "after_append_katcl ok l fl result s =
     (if result < 0 then
        bind_res (drop_parse (l_stage l) s) (\<lambda>s1. Inr (result, l\<lparr>l_stage := None\<rparr>, s1))
      else if \<not> has_flag fl KATCP_FLAG_LAST then Inr (result, l, s)
      else if l_stage l = None then Inr (-1, l, s)
      else
        bind_res (add_tail_queue_katcl ok (l_queue l) (l_stage l) s) (\<lambda>(_, q, s1).
        bind_res (destroy_parse_katcl (l_stage l) s1) (\<lambda>s2.
        Inr (result, l\<lparr>l_queue := q, l_stage := None\<rparr>, s2))))"

text \<open>The body that the functions named \<open>append_\<dots>\<close> share; \<open>mem 0\<close> is for the stage and
  \<open>mem 1\<close> for the queue, the rest for the addition itself.\<close>

definition append_by ::
  "(nat \<Rightarrow> bool) \<Rightarrow> line \<Rightarrow> flags \<Rightarrow> (parse \<Rightarrow> (int \<times> parse) res) \<Rightarrow> store \<Rightarrow> (int \<times> line \<times> store) res" where
  "append_by mem l fl add s =
     bind_res (before_append_katcl (mem 0) l fl s) (\<lambda>(p, l1, s1).
     case p of
       None \<Rightarrow> Inr (-1, l1, s1)
     | Some a \<Rightarrow>
         bind_res (on_parse a add s1) (\<lambda>(result, s2). after_append_katcl (mem 1) l1 fl result s2))"

definition append_vargs_katcl ::
  "(nat \<Rightarrow> bool) \<Rightarrow> line \<Rightarrow> flags \<Rightarrow> string option \<Rightarrow> store \<Rightarrow> (int \<times> line \<times> store) res" where
  "append_vargs_katcl mem l fl t s =
     append_by mem l fl (add_vargs_parse_katcl (mem 2) (\<lambda>i. mem (i + 3)) fl t) s"

definition append_args_katcl ::
  "(nat \<Rightarrow> bool) \<Rightarrow> line \<Rightarrow> flags \<Rightarrow> string option \<Rightarrow> store \<Rightarrow> (int \<times> line \<times> store) res" where
  "append_args_katcl mem l fl t s =
     append_by mem l fl (add_vargs_parse_katcl (mem 2) (\<lambda>i. mem (i + 3)) fl t) s"

definition append_string_katcl ::
  "(nat \<Rightarrow> bool) \<Rightarrow> line \<Rightarrow> flags \<Rightarrow> string option \<Rightarrow> store \<Rightarrow> (int \<times> line \<times> store) res" where
  "append_string_katcl mem l fl buffer s =
     append_by mem l fl (add_string_parse_katcl (mem 2, mem 3) fl buffer) s"

definition append_unsigned_long_katcl ::
  "(nat \<Rightarrow> bool) \<Rightarrow> line \<Rightarrow> flags \<Rightarrow> u64 \<Rightarrow> store \<Rightarrow> (int \<times> line \<times> store) res" where
  "append_unsigned_long_katcl mem l fl v s =
     append_by mem l fl (add_unsigned_long_parse_katcl (mem 2, mem 3) fl v) s"

definition append_signed_long_katcl ::
  "(nat \<Rightarrow> bool) \<Rightarrow> line \<Rightarrow> flags \<Rightarrow> u64 \<Rightarrow> store \<Rightarrow> (int \<times> line \<times> store) res" where
  "append_signed_long_katcl mem l fl v s =
     append_by mem l fl (add_signed_long_parse_katcl (mem 2, mem 3) fl v) s"

definition append_hex_long_katcl ::
  "(nat \<Rightarrow> bool) \<Rightarrow> line \<Rightarrow> flags \<Rightarrow> u64 \<Rightarrow> store \<Rightarrow> (int \<times> line \<times> store) res" where
  "append_hex_long_katcl mem l fl v s =
     append_by mem l fl (add_hex_long_parse_katcl (mem 2, mem 3) fl v) s"

definition append_unsigned_llong_katcl ::
  "(nat \<Rightarrow> bool) \<Rightarrow> line \<Rightarrow> flags \<Rightarrow> u64 \<Rightarrow> store \<Rightarrow> (int \<times> line \<times> store) res" where
  "append_unsigned_llong_katcl mem l fl v s =
     append_by mem l fl (add_unsigned_llong_parse_katcl (mem 2, mem 3) fl v) s"

definition append_signed_llong_katcl ::
  "(nat \<Rightarrow> bool) \<Rightarrow> line \<Rightarrow> flags \<Rightarrow> u64 \<Rightarrow> store \<Rightarrow> (int \<times> line \<times> store) res" where
  "append_signed_llong_katcl mem l fl v s =
     append_by mem l fl (add_signed_llong_parse_katcl (mem 2, mem 3) fl v) s"

definition append_buffer_katcl ::
  "(nat \<Rightarrow> bool) \<Rightarrow> line \<Rightarrow> flags \<Rightarrow> string option \<Rightarrow> nat \<Rightarrow> store \<Rightarrow> (int \<times> line \<times> store) res" where
  "append_buffer_katcl mem l fl buffer len s =
     append_by mem l fl (add_buffer_parse_katcl (mem 2, mem 3) fl buffer len) s"

definition append_timestamp_katcl ::
  "bool \<Rightarrow> (nat \<Rightarrow> bool) \<Rightarrow> timeval option \<Rightarrow> line \<Rightarrow> flags \<Rightarrow> timeval option \<Rightarrow> store
   \<Rightarrow> (int \<times> line \<times> store) res" where
  "append_timestamp_katcl major5 mem clock l fl tv s =
     append_by mem l fl (add_timestamp_parse_katcl major5 (mem 2, mem 3) clock fl tv) s"

text \<open>The source of these two is another message, read through its address.\<close>

definition append_parameter_katcl ::
  "(nat \<Rightarrow> bool) \<Rightarrow> line \<Rightarrow> flags \<Rightarrow> nat \<Rightarrow> nat \<Rightarrow> store \<Rightarrow> (int \<times> line \<times> store) res" where
  "append_parameter_katcl mem l fl px index s =
     bind_res (deref px s) (\<lambda>ps.
     append_by mem l fl (\<lambda>pd. add_parameter_parse_katcl (mem 2, mem 3) pd fl ps index) s)"

definition append_trailing_katcl ::
  "(nat \<Rightarrow> bool) \<Rightarrow> line \<Rightarrow> flags \<Rightarrow> nat \<Rightarrow> nat \<Rightarrow> store \<Rightarrow> (int \<times> line \<times> store) res" where
  "append_trailing_katcl mem l fl px start s =
     bind_res (deref px s) (\<lambda>ps.
     append_by mem l fl (\<lambda>pd. add_trailing_parse_katcl (\<lambda>i. (mem (2 * i + 2), mem (2 * i + 3))) pd fl ps start) s)"

definition append_parse_katcl :: "bool \<Rightarrow> line \<Rightarrow> nat \<Rightarrow> store \<Rightarrow> (int \<times> line \<times> store) res" where
  "append_parse_katcl ok l p s =
     bind_res (deref p s) (\<lambda>px.
     if p_state px \<noteq> PARSE_DONE then Inl Abort
     else bind_res (add_tail_queue_katcl ok (l_queue l) (Some p) s) (\<lambda>(r, q, s1).
          Inr (r, l\<lparr>l_queue := q\<rparr>, s1)))"

definition append_end_katcl :: "(nat \<Rightarrow> bool) \<Rightarrow> line \<Rightarrow> store \<Rightarrow> (int \<times> line \<times> store) res" where
  "append_end_katcl mem l s = append_by mem l KATCP_FLAG_LAST add_end_parse_katcl s"

text \<open>\<open>vsend_katcl\<close>: the variable argument list is a list of values behind their flags; a
  list that is too short, or a value of another type, is not defined in C.\<close>

datatype send_value = Send_string "string option" | Send_number u64 | Send_buffer "string option" nat

definition KATCP_ORDER_FLAGS :: flags where "KATCP_ORDER_FLAGS = 0x0f"
definition KATCP_TYPE_FLAGS :: flags where "KATCP_TYPE_FLAGS = 0xf0"

definition send_one ::
  "(nat \<Rightarrow> bool) \<Rightarrow> line \<Rightarrow> flags \<Rightarrow> send_value \<Rightarrow> store \<Rightarrow> (int \<times> line \<times> store) res" where
  "send_one mem l fl v s =
     (let ty = fl AND KATCP_TYPE_FLAGS; ord = fl AND KATCP_ORDER_FLAGS in
      if ty = 0x10 then (case v of Send_string t \<Rightarrow> append_string_katcl mem l ord t s | _ \<Rightarrow> Inl OutOfBounds)
      else if ty = 0x30 \<or> ty = 0x80 then
        (case v of Send_number n \<Rightarrow> append_signed_long_katcl mem l ord n s | _ \<Rightarrow> Inl OutOfBounds)
      else if ty = 0x20 \<or> ty = 0x70 then
        (case v of Send_number n \<Rightarrow> append_unsigned_long_katcl mem l ord n s | _ \<Rightarrow> Inl OutOfBounds)
      else if ty = 0x40 then
        (case v of Send_number n \<Rightarrow> append_hex_long_katcl mem l ord n s | _ \<Rightarrow> Inl OutOfBounds)
      else if ty = 0x50 then
        (case v of Send_buffer b n \<Rightarrow> append_buffer_katcl mem l ord b n s | _ \<Rightarrow> Inl OutOfBounds)
      else Inr (-1, l, s))"

fun vsend_loop ::
  "(nat \<Rightarrow> bool) \<Rightarrow> line \<Rightarrow> flags \<Rightarrow> (flags \<times> send_value) list \<Rightarrow> store \<Rightarrow> (int \<times> line \<times> store) res" where
  "vsend_loop mem l check [] s = Inl OutOfBounds"
| "vsend_loop mem l check ((fl, v) # args) s =
     (if check AND fl \<noteq> check then Inr (-1, l, s)
      else bind_res (send_one mem l fl v s) (\<lambda>(result, l1, s1).
        if result \<le> 0 then Inr (-1, l1, s1)
        else if has_flag fl KATCP_FLAG_LAST then Inr (0, l1, s1)
        else vsend_loop mem l1 0 args s1))"

definition vsend_katcl ::
  "(nat \<Rightarrow> bool) \<Rightarrow> line \<Rightarrow> (flags \<times> send_value) list \<Rightarrow> store \<Rightarrow> (int \<times> line \<times> store) res" where
  "vsend_katcl mem l args s = vsend_loop mem l KATCP_FLAG_FIRST args s"

definition send_katcl ::
  "(nat \<Rightarrow> bool) \<Rightarrow> line \<Rightarrow> (flags \<times> send_value) list \<Rightarrow> store \<Rightarrow> (int \<times> line \<times> store) res" where
  "send_katcl mem l args s = vsend_katcl mem l args s"

definition relay_katcl :: "bool \<Rightarrow> line \<Rightarrow> line \<Rightarrow> store \<Rightarrow> (int \<times> line \<times> store) res" where
  \<comment> \<open>from the first line to the second, which is returned\<close>
  "relay_katcl ok lx ly s =
     (case l_ready lx of None \<Rightarrow> Inr (-1, ly, s) | Some a \<Rightarrow> append_parse_katcl ok ly a s)"

section \<open>Messages to bytes\<close>

definition escape_char :: "char \<Rightarrow> char option" where
  "escape_char c =
     (if c = CHR 27 then Some (CHR ''e'')
      else if c = CHR 0x0A then Some (CHR ''n'')
      else if c = CHR 0x0D then Some (CHR ''r'')
      else if c = nul then Some (CHR ''0'')
      else if c = backslash then Some backslash
      else if c = CHR '' '' then Some (CHR ''_'')
      else if c = CHR 0x09 then Some (CHR ''t'')
      else None)"

text \<open>The bytes that \<open>escape_copy_katcl\<close> writes for the bytes it is given; it returns their
  number.\<close>

fun escape_copy_katcl :: "string \<Rightarrow> string" where
  "escape_copy_katcl [] = []"
| "escape_copy_katcl (c # cs) =
     (case escape_char c of
        None \<Rightarrow> c # escape_copy_katcl cs
      | Some v \<Rightarrow> backslash # v # escape_copy_katcl cs)"

definition TMP_MARGIN :: nat where "TMP_MARGIN = 32"

datatype write_state = WRITE_STATE_DONE | WRITE_STATE_FILL | WRITE_STATE_NEXT | WRITE_STATE_SEND

text \<open>What \<open>send\<close> (or \<open>write\<close>) answers: so many bytes taken, or an error.\<close>

datatype send_result = Sent nat | Send_error int

text \<open>The local state of a run: \<open>w_sent\<close> are the bytes the kernel took so far, \<open>w_calls\<close>
  counts the calls made.\<close>

record wrun =
  w_line :: line
  w_store :: store
  w_state :: write_state
  w_sent :: string
  w_calls :: nat

definition buf_write :: "string \<Rightarrow> line \<Rightarrow> line res" where
  \<comment> \<open>bytes at the end of the pending ones, which still have to be counted\<close>
  "buf_write bs l =
     (if l_pending l + length bs \<le> length (l_buffer l)
      then Inr (l\<lparr>l_buffer := take (l_pending l) (l_buffer l) @ bs @
                              drop (l_pending l + length bs) (l_buffer l)\<rparr>)
      else Inl OutOfBounds)"

definition set_escape :: "nat \<Rightarrow> nat \<Rightarrow> nat \<Rightarrow> store \<Rightarrow> store res" where
  \<comment> \<open>\<open>a_escape\<close> of argument \<open>i\<close> of message \<open>a\<close>\<close>
  "set_escape a i e s =
     bind_res (deref a s) (\<lambda>p.
     if i < length (p_args p)
     then Inr (st_put a (p\<lparr>p_args := (p_args p)[i := (p_args p ! i)\<lparr>a_escape := e\<rparr>]\<rparr>) s)
     else Inl OutOfBounds)"

text \<open>The rest of an argument, as far as it fits.\<close>

definition write_copy :: "wrun \<Rightarrow> nat \<Rightarrow> parse \<Rightarrow> larg \<Rightarrow> wrun res" where
  "write_copy w a p la =
     (let l = w_line w; s = w_store w;
          want = a_end la - (a_begin la + l_offset l);
          space = KATCL_IO_SIZE - (l_pending l + 1) in
      if a_escape la \<noteq> 0 then
        let can = (if space div 2 \<ge> want then want else space div 2);
            src = slice (a_begin la + l_offset l) (a_begin la + l_offset l + can) (p_buffer p);
            bytes = escape_copy_katcl src in
        bind_res (buf_write bytes l) (\<lambda>l1.
        bind_res (if length bytes > can then set_escape a (l_arg l) 2 s else Inr s) (\<lambda>s1.
        Inr (w\<lparr>w_line := l1\<lparr>l_pending := l_pending l1 + length bytes, l_offset := l_offset l1 + can\<rparr>,
               w_store := s1\<rparr>)))
      else
        let can = (if space \<ge> want then want else space);
            src = slice (a_begin la + l_offset l) (a_begin la + l_offset l + can) (p_buffer p) in
        bind_res (buf_write src l) (\<lambda>l1.
        Inr (w\<lparr>w_line := l1\<lparr>l_pending := l_pending l1 + can, l_offset := l_offset l1 + can\<rparr>\<rparr>)))"

definition write_fill :: "wrun \<Rightarrow> wrun res" where
  "write_fill w =
     (let l = w_line w; s = w_store w in
      case get_head_queue_katcl (l_queue l) of
        None \<Rightarrow> Inr (w\<lparr>w_state := (if 0 < l_pending l then WRITE_STATE_SEND else WRITE_STATE_DONE)\<rparr>)
      | Some a \<Rightarrow>
        bind_res (deref a s) (\<lambda>p.
        if l_pending l + TMP_MARGIN > KATCL_IO_SIZE then Inr (w\<lparr>w_state := WRITE_STATE_SEND\<rparr>)
        else if l_arg l \<ge> p_got p then Inl Abort
        else bind_res (larg_at (l_arg l) p) (\<lambda>la.
          if a_begin la + l_offset l > a_end la then Inl Abort
          else if a_begin la + l_offset l \<ge> a_end la then
            bind_res
              (if l_offset l = 0 then
                 (if l_arg l = 0 then Inl Abort
                  else bind_res (buf_write [backslash, CHR ''@'', nul] l) (\<lambda>l1.
                       Inr (l1\<lparr>l_pending := l_pending l1 + 2\<rparr>)))
               else Inr l)
              (\<lambda>l1.
            bind_res (if a_escape la \<le> 1 then set_escape a (l_arg l) 0 s else Inr s) (\<lambda>s1.
            Inr (w\<lparr>w_line := l1\<lparr>l_arg := l_arg l1 + 1, l_offset := 0\<rparr>, w_store := s1,
                   w_state := WRITE_STATE_NEXT\<rparr>)))
          else write_copy w a p la)))"

definition write_next :: "wrun \<Rightarrow> wrun res" where
  "write_next w =
     (let l = w_line w; s = w_store w in
      case get_head_queue_katcl (l_queue l) of
        None \<Rightarrow> Inr (w\<lparr>w_line := l\<lparr>l_offset := 0, l_arg := 0\<rparr>, w_state := WRITE_STATE_SEND\<rparr>)
      | Some a \<Rightarrow>
        bind_res (deref a s) (\<lambda>p.
        if l_arg l < p_got p then
          bind_res (buf_write '' '' l) (\<lambda>l1.
          Inr (w\<lparr>w_line := l1\<lparr>l_pending := l_pending l1 + 1\<rparr>, w_state := WRITE_STATE_FILL\<rparr>))
        else
          bind_res (buf_write [CHR 0x0A] (l\<lparr>l_arg := 0\<rparr>)) (\<lambda>l1.
          bind_res (remove_head_queue_katcl (l_queue l1)) (\<lambda>(px, q).
          bind_res (destroy_parse_katcl px s) (\<lambda>s1.
          Inr (w\<lparr>w_line := l1\<lparr>l_pending := l_pending l1 + 1, l_queue := q\<rparr>, w_store := s1,
                 w_state := (if px \<noteq> None then WRITE_STATE_FILL else WRITE_STATE_SEND)\<rparr>))))))"

text \<open>The result is the value to return, if any. \<open>io\<close> answers the calls in their order,
  given the number of bytes offered.\<close>

definition write_send :: "(nat \<Rightarrow> nat \<Rightarrow> send_result) \<Rightarrow> wrun \<Rightarrow> (int option \<times> wrun) res" where
  "write_send io w =
     (let l = w_line w; p = get_head_queue_katcl (l_queue l) in
      if l_pending l = 0 then
        Inr (None, w\<lparr>w_state := (if p \<noteq> None then WRITE_STATE_FILL else WRITE_STATE_DONE)\<rparr>)
      else
        let w1 = w\<lparr>w_calls := w_calls w + 1\<rparr> in
        case io (w_calls w) (l_pending l) of
          Send_error e \<Rightarrow>
            if e = EAGAIN \<or> e = EINTR then Inr (Some 0, w1)
            else if e = ENOTSOCK \<and> l_sendable l > 0 then Inr (None, w1\<lparr>w_line := l\<lparr>l_sendable := 0\<rparr>\<rparr>)
            else Inr (Some (-1), w1\<lparr>w_line := l\<lparr>l_error := e\<rparr>\<rparr>)
        | Sent n \<Rightarrow>
            let w2 = w1\<lparr>w_sent := w_sent w1 @ take n (take (l_pending l) (l_buffer l))\<rparr> in
            if 0 < n then
              (if n < l_pending l
               then Inr (None, w2\<lparr>w_line := l\<lparr>l_buffer := memmove 0 n (l_pending l - n) (l_buffer l),
                                           l_pending := l_pending l - n\<rparr>\<rparr>)
               else Inr (None, w2\<lparr>w_line := l\<lparr>l_pending := 0\<rparr>\<rparr>))
            else Inr (None, w2))"

definition write_step :: "(nat \<Rightarrow> nat \<Rightarrow> send_result) \<Rightarrow> wrun \<Rightarrow> (int option \<times> wrun) res" where
  "write_step io w =
     (case w_state w of
        WRITE_STATE_DONE \<Rightarrow> Inr (Some 1, w)
      | WRITE_STATE_FILL \<Rightarrow> bind_res (write_fill w) (\<lambda>w1. Inr (None, w1))
      | WRITE_STATE_NEXT \<Rightarrow> bind_res (write_next w) (\<lambda>w1. Inr (None, w1))
      | WRITE_STATE_SEND \<Rightarrow> write_send io w)"

text \<open>The loop, with a bound on its rounds: \<open>None\<close> when they do not suffice.\<close>

fun write_loop :: "(nat \<Rightarrow> nat \<Rightarrow> send_result) \<Rightarrow> nat \<Rightarrow> wrun \<Rightarrow> (int \<times> wrun) option res" where
  "write_loop io 0 w = Inr None"
| "write_loop io (Suc n) w =
     bind_res (write_step io w) (\<lambda>(r, w1).
     case r of Some v \<Rightarrow> Inr (Some (v, w1)) | None \<Rightarrow> write_loop io n w1)"

definition write_start :: "line \<Rightarrow> store \<Rightarrow> wrun" where
  "write_start l s = \<lparr>w_line = l, w_store = s, w_state = WRITE_STATE_FILL, w_sent = [], w_calls = 0\<rparr>"

definition write_katcl ::
  "(nat \<Rightarrow> nat \<Rightarrow> send_result) \<Rightarrow> nat \<Rightarrow> line \<Rightarrow> store \<Rightarrow> (int \<times> wrun) option res" where
  "write_katcl io n l s = write_loop io n (write_start l s)"

definition flushing_katcl :: "line \<Rightarrow> int" where
  "flushing_katcl l =
     (if 0 < l_pending l then 1 else if size_queue_katcl (Some (l_queue l)) > 0 then 1 else 0)"

definition flushing_bytes_katcl :: "line \<Rightarrow> nat" where
  "flushing_bytes_katcl l = l_pending l"

definition flushing_queue_katcl :: "line \<Rightarrow> nat" where
  "flushing_queue_katcl l = size_queue_katcl (Some (l_queue l))"

section \<open>The text of a message\<close>

definition arg_wire :: "nat \<Rightarrow> string \<Rightarrow> string" where
  "arg_wire e t =
     (if t = [] then [backslash, CHR ''@''] else if e = 0 then t else escape_copy_katcl t)"

definition arg_wires :: "parse \<Rightarrow> string list" where
  "arg_wires p = map (\<lambda>i. arg_wire (a_escape (p_args p ! i)) (arg_text p i)) [0..<p_got p]"

text \<open>The arguments from position \<open>i\<close> on, each but the first behind a space, and the end of
  the line.\<close>

fun wire_from :: "string list \<Rightarrow> string" where
  "wire_from [] = [CHR 0x0A]"
| "wire_from (t # ts) = CHR '' '' # t @ wire_from ts"

definition msg_wire :: "parse \<Rightarrow> string" where
  "msg_wire p = tl (wire_from (arg_wires p))"

lemma escape_copy_append: "escape_copy_katcl (a @ b) = escape_copy_katcl a @ escape_copy_katcl b"
  by (induction a) (auto split: option.splits)

lemma length_escape_copy: "length s \<le> length (escape_copy_katcl s)" "length (escape_copy_katcl s) \<le> 2 * length s"
  by (induction s) (auto split: option.splits)

lemma escape_copy_same: "length (escape_copy_katcl s) \<le> length s \<Longrightarrow> escape_copy_katcl s = s"
proof (induction s)
  case (Cons c cs)
  then show ?case using length_escape_copy(1) [of cs] by (auto split: option.splits)
qed simp


section \<open>What is still to be written\<close>

text \<open>All that matters of a message to those who hold it: its arguments, their text on the
  wire, its state and its tag. The writer changes nothing but the marks that say whether an
  argument has to be escaped.\<close>

definition mv :: "parse \<Rightarrow> string list \<times> string list \<times> pstate \<times> int" where
  "mv p = (parse_args p, arg_wires p, p_state p, p_tag p)"

lemma mv_eq: "mv q = mv p \<longleftrightarrow>
    parse_args q = parse_args p \<and> arg_wires q = arg_wires p \<and> p_state q = p_state p \<and> p_tag q = p_tag p"
  by (simp add: mv_def)

lemma mv_got: "mv q = mv p \<Longrightarrow> p_got q = p_got p"
  by (metis length_parse_args mv_eq)

lemma mv_refs [simp]: "mv (p\<lparr>p_refs := n\<rparr>) = mv p"
  by (simp add: mv_def arg_wires_def arg_text_def)

definition views :: "store \<Rightarrow> store \<Rightarrow> nat multiset \<Rightarrow> bool" where
  "views s s' M \<longleftrightarrow> (\<forall>c \<in># M. \<exists>p q. st_heap s c = Some p \<and> st_heap s' c = Some q \<and> mv q = mv p)"

lemma same_msgs_views: "same_msgs s s' M \<Longrightarrow> views s s' M"
  unfolding same_msgs_def views_def by (metis mv_refs)

lemma views_trans: "views s t M \<Longrightarrow> views t u M \<Longrightarrow> views s u M"
  unfolding views_def by (metis option.inject)

lemma views_mono: "views s s' N \<Longrightarrow> set_mset M \<subseteq> set_mset N \<Longrightarrow> views s s' M"
  by (auto simp: views_def)

lemma views_refl: "refs_ok s M \<Longrightarrow> views s s M"
  using same_msgs_refl same_msgs_views by blast

definition sendable :: "parse \<Rightarrow> bool" where
  "sendable p \<longleftrightarrow> p_state p = PARSE_DONE \<and> parse_args p \<noteq> [] \<and> hd (parse_args p) \<noteq> []"

lemma sendable_mv: "mv q = mv p \<Longrightarrow> sendable q = sendable p"
  by (simp add: mv_eq sendable_def)

lemma length_arg_wires [simp]: "length (arg_wires p) = p_got p"
  by (simp add: arg_wires_def)

lemma arg_wires_nth [simp]:
  "i < p_got p \<Longrightarrow> arg_wires p ! i = arg_wire (a_escape (p_args p ! i)) (arg_text p i)"
  by (simp add: arg_wires_def)

text \<open>The rest of the message at the head of the queue, and of the whole queue.\<close>

definition piece :: "parse \<Rightarrow> nat \<Rightarrow> nat \<Rightarrow> string" where
  "piece p i off =
     (if off = 0 then arg_wires p ! i
      else if a_escape (p_args p ! i) = 0 then drop off (arg_text p i)
      else escape_copy_katcl (drop off (arg_text p i)))"

definition head_rest :: "bool \<Rightarrow> parse \<Rightarrow> nat \<Rightarrow> nat \<Rightarrow> string" where
  \<comment> \<open>whether the machine is between two arguments\<close>
  "head_rest nxt p i off =
     (if nxt then wire_from (drop i (arg_wires p)) else piece p i off @ wire_from (drop (Suc i) (arg_wires p)))"

definition wire_of :: "store \<Rightarrow> nat \<Rightarrow> string" where
  "wire_of s a = (case st_heap s a of None \<Rightarrow> [] | Some p \<Rightarrow> msg_wire p)"

definition line_rest :: "bool \<Rightarrow> line \<Rightarrow> store \<Rightarrow> string" where
  "line_rest nxt l s =
     (case pq_items (l_queue l) of
        [] \<Rightarrow> []
      | a # as \<Rightarrow>
          (case st_heap s a of None \<Rightarrow> [] | Some p \<Rightarrow> head_rest nxt p (l_arg l) (l_offset l)) @
          concat (map (wire_of s) as))"

text \<open>The bytes that a line still owes to the kernel.\<close>

definition line_wire :: "line \<Rightarrow> store \<Rightarrow> string" where
  "line_wire l s = take (l_pending l) (l_buffer l) @ line_rest False l s"

definition cursor_ok :: "bool \<Rightarrow> parse \<Rightarrow> nat \<Rightarrow> nat \<Rightarrow> bool" where
  "cursor_ok nxt p i off \<longleftrightarrow>
     (if nxt then 1 \<le> i \<and> i \<le> p_got p \<and> off = 0
      else i < p_got p \<and> off \<le> length (arg_text p i) \<and>
        (a_escape (p_args p ! i) = 1 \<longrightarrow> escape_copy_katcl (take off (arg_text p i)) = take off (arg_text p i)))"

definition out_ok :: "bool \<Rightarrow> line \<Rightarrow> store \<Rightarrow> bool" where
  "out_ok nxt l s \<longleftrightarrow>
     length (l_buffer l) = KATCL_IO_SIZE \<and> l_pending l \<le> (if nxt then KATCL_IO_SIZE - 1 else KATCL_IO_SIZE) \<and>
     (\<forall>a \<in> set (pq_items (l_queue l)). \<exists>p. st_heap s a = Some p \<and> sendable p) \<and>
     (case pq_items (l_queue l) of
        [] \<Rightarrow> \<not> nxt \<and> l_arg l = 0 \<and> l_offset l = 0
      | a # as \<Rightarrow> \<exists>p. st_heap s a = Some p \<and> cursor_ok nxt p (l_arg l) (l_offset l))"

lemma wire_of_views:
  assumes "views s s' M" "a \<in># M"
  shows "wire_of s' a = wire_of s a"
  using assms by (fastforce simp: views_def wire_of_def msg_wire_def mv_eq)

lemma msg_wire_head:
  assumes "0 < p_got p"
  shows "head_rest False p 0 0 = msg_wire p"
proof -
  have "arg_wires p = arg_wires p ! 0 # drop (Suc 0) (arg_wires p)"
    using assms by (simp add: Cons_nth_drop_Suc del: arg_wires_nth)
  then have "wire_from (arg_wires p) = CHR '' '' # arg_wires p ! 0 @ wire_from (drop (Suc 0) (arg_wires p))"
    by (metis wire_from.simps(2))
  then show ?thesis by (simp add: head_rest_def piece_def msg_wire_def del: arg_wires_nth)
qed

text \<open>Changing a mark.\<close>

lemma set_escape_ok:
  assumes "refs_ok s M" "a \<in># M" "st_heap s a = Some p" "i < p_got p"
    "arg_wire e (arg_text p i) = arg_wire (a_escape (p_args p ! i)) (arg_text p i)"
  shows "\<exists>q. set_escape a i e s = Inr (st_put a q s) \<and> refs_ok (st_put a q s) M \<and> mv q = mv p \<and>
    a_escape (p_args q ! i) = e \<and> (\<forall>j. arg_text q j = arg_text p j) \<and> views s (st_put a q s) M"
proof -
  let ?q = "p\<lparr>p_args := (p_args p)[i := (p_args p ! i)\<lparr>a_escape := e\<rparr>]\<rparr>"
  have inv: "parse_inv p" "p_refs p = int (count M a)" "a < st_fresh s"
    using refs_ok_live [OF assms(1,2)] assms(3) by auto
  have i: "i < length (p_args p)" using parse_inv_arg(1) [OF inv(1) assms(4)] .
  have texts: "arg_text ?q j = arg_text p j" for j
    using i by (cases "i = j") (simp_all add: arg_text_def)
  then have args: "parse_args ?q = parse_args p" by (simp add: parse_args_def)
  have wires: "arg_wires ?q = arg_wires p"
    using i assms(5) texts by (auto simp: arg_wires_def nth_list_update)
  have mvq: "mv ?q = mv p" using args wires by (simp add: mv_eq)
  have "parse_inv ?q" using inv(1) i by (auto simp: parse_inv_def nth_list_update)
  then have refs: "refs_ok (st_put a ?q s) M"
    using inv assms(2) by (intro refs_ok_put [OF assms(1)]) auto
  have "\<exists>x y. st_heap s c = Some x \<and> st_heap (st_put a ?q s) c = Some y \<and> mv y = mv x" if mem: "c \<in># M" for c
  proof (cases "c = a")
    case True
    then show ?thesis using assms(3) mvq by (simp add: st_put_def)
  next
    case False
    then show ?thesis using refs_ok_live [OF assms(1) mem] by (auto simp: st_put_def)
  qed
  then have "views s (st_put a ?q s) M" by (simp add: views_def)
  moreover have "set_escape a i e s = Inr (st_put a ?q s)"
    using assms(3) i by (simp add: set_escape_def deref_def)
  ultimately show ?thesis using refs mvq texts i by auto
qed


section \<open>One round of the writer\<close>

text \<open>A bound on the rounds left: the arguments that are not in the buffer yet, then the
  choice between \<open>send\<close> and \<open>write\<close>, then the bytes in the buffer and the state.\<close>

definition args_work :: "string list \<Rightarrow> nat" where
  "args_work ts = (\<Sum>t\<leftarrow>ts. length t + 2)"

lemma args_work_simps [simp]:
  "args_work [] = 0" "args_work (t # ts) = length t + 2 + args_work ts"
  by (simp_all add: args_work_def)

definition head_work :: "bool \<Rightarrow> parse \<Rightarrow> nat \<Rightarrow> nat \<Rightarrow> nat" where
  "head_work nxt p i off =
     (if nxt then args_work (drop i (parse_args p)) + 1
      else length (parse_args p ! i) - off + args_work (drop (Suc i) (parse_args p)) + 2)"

definition work_of :: "store \<Rightarrow> nat \<Rightarrow> nat" where
  "work_of s a = (case st_heap s a of None \<Rightarrow> 0 | Some p \<Rightarrow> args_work (parse_args p))"

definition line_work :: "bool \<Rightarrow> line \<Rightarrow> store \<Rightarrow> nat" where
  "line_work nxt l s =
     (case pq_items (l_queue l) of
        [] \<Rightarrow> 0
      | a # as \<Rightarrow>
          (case st_heap s a of None \<Rightarrow> 0 | Some p \<Rightarrow> head_work nxt p (l_arg l) (l_offset l)) + sum_list (map (work_of s) as))"

definition rank :: "wrun \<Rightarrow> nat" where
  "rank w =
     (case w_state w of
        WRITE_STATE_DONE \<Rightarrow> 0
      | WRITE_STATE_NEXT \<Rightarrow> 0
      | WRITE_STATE_SEND \<Rightarrow> 2 * l_pending (w_line w) + 2
      | WRITE_STATE_FILL \<Rightarrow> if l_pending (w_line w) = 0 then 1 else 2 * l_pending (w_line w) + 3)"

definition nxt :: "wrun \<Rightarrow> bool" where
  "nxt w \<longleftrightarrow> w_state w = WRITE_STATE_NEXT"

definition rounds :: "wrun \<Rightarrow> nat" where
  "rounds w =
     (2 * line_work (nxt w) (w_line w) (w_store w) + (if l_sendable (w_line w) > 0 then 1 else 0)) * 8200 + rank w"

definition wtotal :: "wrun \<Rightarrow> string" where
  "wtotal w = w_sent w @ take (l_pending (w_line w)) (l_buffer (w_line w)) @
     line_rest (nxt w) (w_line w) (w_store w)"

definition winv :: "nat multiset \<Rightarrow> wrun \<Rightarrow> bool" where
  "winv F w \<longleftrightarrow> line_ok (w_store w) (w_line w) F \<and> out_ok (nxt w) (w_line w) (w_store w) \<and>
     (w_state w = WRITE_STATE_DONE \<longrightarrow> l_pending (w_line w) = 0 \<and> pq_items (l_queue (w_line w)) = [])"

text \<open>What the writer leaves alone: the other half of the line and everybody else's messages.\<close>

definition line_keep :: "line \<Rightarrow> nat multiset" where
  "line_keep l = opt_refs (l_next l) + opt_refs (l_ready l) + opt_refs (l_stage l)"

definition wframe :: "nat multiset \<Rightarrow> wrun \<Rightarrow> wrun \<Rightarrow> bool" where
  "wframe F w w' \<longleftrightarrow>
     l_next (w_line w') = l_next (w_line w) \<and> l_ready (w_line w') = l_ready (w_line w) \<and>
     l_stage (w_line w') = l_stage (w_line w) \<and> l_fd (w_line w') = l_fd (w_line w) \<and>
     views (w_store w) (w_store w') (line_keep (w_line w) + F)"

lemma wframe_trans: "wframe F w w1 \<Longrightarrow> wframe F w1 w2 \<Longrightarrow> wframe F w w2"
  using views_trans by (auto simp: wframe_def line_keep_def)

definition wgood :: "nat multiset \<Rightarrow> wrun \<Rightarrow> wrun \<Rightarrow> bool" where
  "wgood F w w' \<longleftrightarrow> winv F w' \<and> wtotal w' = wtotal w \<and> wframe F w w' \<and> rounds w' < rounds w"

lemma rank_bound: "l_pending (w_line w) \<le> KATCL_IO_SIZE \<Longrightarrow> rank w < 8200"
  by (auto simp: rank_def KATCL_IO_SIZE_def split: write_state.splits)

lemma roundsI:
  assumes "line_work (nxt w') (w_line w') (w_store w') < line_work (nxt w) (w_line w) (w_store w)"
    "l_pending (w_line w') \<le> KATCL_IO_SIZE"
  shows "rounds w' < rounds w"
  using assms rank_bound [OF assms(2)] by (auto simp: rounds_def)

lemma roundsI2:
  assumes "line_work (nxt w') (w_line w') (w_store w') = line_work (nxt w) (w_line w) (w_store w)"
    "l_sendable (w_line w') = l_sendable (w_line w)" "rank w' < rank w"
  shows "rounds w' < rounds w"
  using assms by (simp add: rounds_def)

lemma line_refs_keep: "line_refs l = line_keep l + mset (pq_items (l_queue l))"
  by (simp add: line_refs_def line_keep_def ac_simps)

text \<open>The head of the queue.\<close>

lemma get_head_items: "pq_inv q \<Longrightarrow> get_head_queue_katcl q = fst (list_deq (pq_items q))"
  using remove_head_pq by blast

lemma out_headE:
  assumes "winv F w" "pq_items (l_queue (w_line w)) = a # as"
  obtains p where "st_heap (w_store w) a = Some p" "cursor_ok (nxt w) p (l_arg (w_line w)) (l_offset (w_line w))"
    "sendable p" "parse_inv p" "get_head_queue_katcl (l_queue (w_line w)) = Some a"
    "refs_ok (w_store w) (line_refs (w_line w) + F)" "a \<in># line_refs (w_line w) + F"
    "line_ok (w_store w) (w_line w) F"
proof -
  have ok: "line_ok (w_store w) (w_line w) F" "out_ok (nxt w) (w_line w) (w_store w)" using assms(1) by (simp_all add: winv_def)
  then have refs: "refs_ok (w_store w) (line_refs (w_line w) + F)" "pq_inv (l_queue (w_line w))" by (simp_all add: line_ok_def)
  have mem: "a \<in># line_refs (w_line w) + F" using assms(2) by (simp add: line_refs_def)
  obtain p where p: "st_heap (w_store w) a = Some p" "cursor_ok (nxt w) p (l_arg (w_line w)) (l_offset (w_line w))"
    "sendable p"
    using ok(2) assms(2) by (auto simp: out_ok_def)
  moreover have "parse_inv p" using refs_ok_live [OF refs(1) mem] p(1) by auto
  moreover have "get_head_queue_katcl (l_queue (w_line w)) = Some a"
    using get_head_items [OF refs(2)] assms(2) by (simp add: list_deq_def)
  ultimately show thesis using that refs mem ok by blast
qed

lemma line_ok_views:
  assumes "line_ok s l F" "refs_ok s' (line_refs l' + F)" "views s s' (line_keep l + F)"
    "l_next l' = l_next l" "pq_inv (l_queue l')" "line_refs l' \<subseteq># line_refs l"
  shows "line_ok s' l' F"
proof -
  obtain a p where a: "l_next l = Some a" "st_heap s a = Some p" "p_refs p = 1" "parse_inv p"
    "p_state p \<noteq> PARSE_FAKE" "refs_ok s (add_mset a (other_refs l + F))" "a \<notin># other_refs l + F"
    using line_okE [OF assms(1)] .
  have "a \<in># line_keep l + F" using a(1) by (simp add: line_keep_def)
  then obtain q where q: "st_heap s' a = Some q" "mv q = mv p"
    using assms(3) a(2) by (fastforce simp: views_def)
  have c: "a \<in># line_refs l' + F" using a(1) assms(4) by (simp add: line_refs_def)
  have "count (line_refs l + F) a = 1"
    using a(1,7) by (simp add: line_refs_next not_in_iff)
  moreover have "count (line_refs l' + F) a \<le> count (line_refs l + F) a"
    using mset_subset_eq_count [OF assms(6), of a] by simp
  moreover have "0 < count (line_refs l' + F) a" using c by (simp only: count_greater_zero_iff)
  ultimately have "count (line_refs l' + F) a = 1" by linarith
  then have "p_refs q = 1" using refs_ok_live [OF assms(2) c] q(1) by simp
  then show ?thesis
    using a q assms(2,4,5) by (auto simp: line_ok_def mv_eq)
qed

lemma line_rest_views:
  assumes "pq_items (l_queue l) = a # as" "st_heap s a = Some p" "set as \<subseteq> set_mset M" "views s s' M"
    "st_heap s' a = Some q" "pq_items (l_queue l') = a # as"
    "head_rest n' q (l_arg l') (l_offset l') = h"
  shows "line_rest n' l' s' = h @ concat (map (wire_of s) as)"
proof -
  have e: "map (wire_of s') as = map (wire_of s) as"
    using assms(3) wire_of_views [OF assms(4)] by auto
  show ?thesis using assms by (simp add: line_rest_def e)
qed

lemma work_of_views:
  assumes "views s s' M" "a \<in># M"
  shows "work_of s' a = work_of s a"
  using assms by (fastforce simp: views_def work_of_def mv_eq)

lemma line_work_views:
  assumes "pq_items (l_queue l) = a # as" "st_heap s a = Some p" "set as \<subseteq> set_mset M" "views s s' M"
    "st_heap s' a = Some q" "pq_items (l_queue l') = a # as"
  shows "line_work n' l' s' = head_work n' q (l_arg l') (l_offset l') + sum_list (map (work_of s) as)"
proof -
  have e: "map (work_of s') as = map (work_of s) as"
    using assms(3) work_of_views [OF assms(4)] by auto
  show ?thesis using assms by (simp add: line_work_def e)
qed

lemma tail_sendable_views:
  assumes "\<forall>b \<in> set bs. \<exists>p. st_heap s b = Some p \<and> sendable p" "set bs \<subseteq> set_mset M" "views s s' M"
  shows "\<forall>b \<in> set bs. \<exists>p. st_heap s' b = Some p \<and> sendable p"
proof
  fix b assume b: "b \<in> set bs"
  then obtain p where "st_heap s b = Some p" "sendable p" using assms(1) by blast
  moreover have m: "b \<in># M" using assms(2) b by auto
  moreover from m assms(3) obtain x y where
    "st_heap s b = Some x" "st_heap s' b = Some y" "mv y = mv x"
    unfolding views_def by blast
  ultimately show "\<exists>p. st_heap s' b = Some p \<and> sendable p"
    using sendable_mv [of y x] by auto
qed

text \<open>How a round of the writer on the message at the head is verified: the new store differs
  in a mark at most, the new line in its cursor and its pending bytes.\<close>

lemma wgood_head:
  assumes inv: "winv F w" and items: "pq_items (l_queue (w_line w)) = a # as"
    and p: "st_heap (w_store w) a = Some p" "sendable p"
    and line: "l_queue (w_line w') = l_queue (w_line w)" "l_next (w_line w') = l_next (w_line w)"
      "l_ready (w_line w') = l_ready (w_line w)" "l_stage (w_line w') = l_stage (w_line w)"
      "l_fd (w_line w') = l_fd (w_line w)"
    and store: "refs_ok (w_store w') (line_refs (w_line w) + F)"
      "views (w_store w) (w_store w') (line_refs (w_line w) + F)" "st_heap (w_store w') a = Some q" "mv q = mv p"
    and buf: "length (l_buffer (w_line w')) = KATCL_IO_SIZE"
      "l_pending (w_line w') \<le> (if nxt w' then KATCL_IO_SIZE - 1 else KATCL_IO_SIZE)"
    and cur: "cursor_ok (nxt w') q (l_arg (w_line w')) (l_offset (w_line w'))"
    and st: "w_state w' \<noteq> WRITE_STATE_DONE" "w_sent w' = w_sent w"
    and bytes: "take (l_pending (w_line w')) (l_buffer (w_line w')) @
        head_rest (nxt w') q (l_arg (w_line w')) (l_offset (w_line w')) =
      take (l_pending (w_line w)) (l_buffer (w_line w)) @
        head_rest (nxt w) p (l_arg (w_line w)) (l_offset (w_line w))"
    and work: "head_work (nxt w') q (l_arg (w_line w')) (l_offset (w_line w')) <
        head_work (nxt w) p (l_arg (w_line w)) (l_offset (w_line w)) \<or>
      head_work (nxt w') q (l_arg (w_line w')) (l_offset (w_line w')) =
        head_work (nxt w) p (l_arg (w_line w)) (l_offset (w_line w)) \<and>
      l_sendable (w_line w') = l_sendable (w_line w) \<and> rank w' < rank w"
  shows "wgood F w w'"
proof -
  let ?M = "line_refs (w_line w) + F"
  have as: "set as \<subseteq> set_mset ?M" using items by (auto simp: line_refs_def)
  have items': "pq_items (l_queue (w_line w')) = a # as" using items line(1) by simp
  have refs': "line_refs (w_line w') = line_refs (w_line w)" using line by (simp add: line_refs_def)
  have ok: "line_ok (w_store w) (w_line w) F" "out_ok (nxt w) (w_line w) (w_store w)" using inv by (simp_all add: winv_def)
  have keep: "views (w_store w) (w_store w') (line_keep (w_line w) + F)"
    using store(2) by (rule views_mono) (auto simp: line_refs_keep)
  have "line_ok (w_store w') (w_line w') F"
    using store(1) keep line(1,2) ok(1) refs' by (intro line_ok_views [OF ok(1)]) (auto simp: line_ok_def)
  moreover have "\<forall>b \<in> set (a # as). \<exists>p. st_heap (w_store w') b = Some p \<and> sendable p"
    using ok(2) items as line_refs_def by (intro tail_sendable_views [OF _ _ store(2)]) (auto simp: out_ok_def line_refs_def)
  then have "out_ok (nxt w') (w_line w') (w_store w')"
    using buf cur store(3) items' by (simp add: out_ok_def)
  ultimately have "winv F w'" using st by (simp add: winv_def)
  moreover have "wtotal w' = wtotal w"
    using line_rest_views [OF items p(1) as store(2,3) items' refl, of "nxt w'"] bytes st(2) items p(1)
    by (simp add: wtotal_def line_rest_def)
  moreover have "rounds w' < rounds w"
  proof -
    have "l_pending (w_line w') \<le> KATCL_IO_SIZE" using buf(2) by (simp split: if_splits)
    moreover have "line_work (nxt w') (w_line w') (w_store w') =
        head_work (nxt w') q (l_arg (w_line w')) (l_offset (w_line w')) + sum_list (map (work_of (w_store w)) as)"
      by (rule line_work_views [OF items p(1) as store(2,3) items'])
    moreover have "line_work (nxt w) (w_line w) (w_store w) =
        head_work (nxt w) p (l_arg (w_line w)) (l_offset (w_line w)) + sum_list (map (work_of (w_store w)) as)"
      using items p(1) by (simp add: line_work_def)
    ultimately show ?thesis using work roundsI [of w' w] roundsI2 [of w' w] by auto
  qed
  moreover have "wframe F w w'" using line keep by (simp add: wframe_def)
  ultimately show ?thesis by (simp add: wgood_def)
qed


lemma buf_write_ok:
  assumes "length (l_buffer l) = KATCL_IO_SIZE" "l_pending l + length bs \<le> KATCL_IO_SIZE"
  shows "\<exists>b. buf_write bs l = Inr (l\<lparr>l_buffer := b\<rparr>) \<and> length b = KATCL_IO_SIZE \<and>
    (\<forall>n \<le> length bs. take (l_pending l + n) b = take (l_pending l) (l_buffer l) @ take n bs)"
  using assms by (auto simp: buf_write_def)

text \<open>A round that changes only the state, with the cursor between no two arguments.\<close>

lemma wgood_state:
  assumes inv: "winv F w" and st: "w' = w\<lparr>w_state := st\<rparr>" "\<not> nxt w" "st \<noteq> WRITE_STATE_NEXT" "rank w' < rank w"
    and d: "st = WRITE_STATE_DONE \<Longrightarrow> l_pending (w_line w) = 0 \<and> pq_items (l_queue (w_line w)) = []"
  shows "wgood F w w'"
proof -
  have refs: "refs_ok (w_store w) (line_refs (w_line w) + F)" using inv by (simp add: winv_def line_ok_def)
  have n: "nxt w' = nxt w" using st by (simp add: nxt_def)
  have "winv F w'" using inv st n d by (auto simp: winv_def)
  moreover have "wframe F w w'"
    using views_mono [OF views_refl [OF refs], of "line_keep (w_line w) + F"] st(1)
    by (auto simp: wframe_def line_refs_keep)
  moreover have "rounds w' < rounds w" using st n by (intro roundsI2) auto
  moreover have "wtotal w' = wtotal w" using st n by (simp add: wtotal_def)
  ultimately show ?thesis by (simp add: wgood_def)
qed

lemma text_bounds:
  assumes "parse_inv p" "i < p_got p"
  shows "larg_at i p = Inr (p_args p ! i)" "parse_args p ! i = arg_text p i"
    "a_end (p_args p ! i) = a_begin (p_args p ! i) + length (arg_text p i)"
    "\<And>x n. x + n \<le> length (arg_text p i) \<Longrightarrow>
      slice (a_begin (p_args p ! i) + x) (a_begin (p_args p ! i) + x + n) (p_buffer p) = take n (drop x (arg_text p i))"
proof -
  note a = parse_inv_arg [OF assms]
  show "larg_at i p = Inr (p_args p ! i)" using larg_at_inv [OF assms] .
  show "parse_args p ! i = arg_text p i" using assms(2) by simp
  show e: "a_end (p_args p ! i) = a_begin (p_args p ! i) + length (arg_text p i)"
    using a by (simp add: arg_text_def)
  fix x n assume n: "x + n \<le> length (arg_text p i)"
  have "arg_text p i = take (length (arg_text p i)) (drop (a_begin (p_args p ! i)) (p_buffer p))"
    using e by (simp add: arg_text_def slice_def)
  then have "take n (drop x (arg_text p i)) = take n (drop x (take (length (arg_text p i)) (drop (a_begin (p_args p ! i)) (p_buffer p))))"
    by simp
  also have "\<dots> = take n (drop (a_begin (p_args p ! i) + x) (p_buffer p))"
    using n by (simp add: drop_take add.commute min_absorb1)
  finally show "slice (a_begin (p_args p ! i) + x) (a_begin (p_args p ! i) + x + n) (p_buffer p) = take n (drop x (arg_text p i))"
    by (simp add: slice_def)
qed

text \<open>The end of an argument.\<close>

lemma write_fill_end:
  assumes inv: "winv F w" and st: "w_state w = WRITE_STATE_FILL"
    and items: "pq_items (l_queue (w_line w)) = a # as"
    and p: "st_heap (w_store w) a = Some p"
    and margin: "\<not> l_pending (w_line w) + TMP_MARGIN > KATCL_IO_SIZE"
    and fin: "l_offset (w_line w) = length (arg_text p (l_arg (w_line w)))"
  shows "\<exists>w'. write_fill w = Inr w' \<and> wgood F w w'"
proof -
  let ?l = "w_line w" and ?s = "w_store w" and ?i = "l_arg (w_line w)"
  have n: "\<not> nxt w" using st by (simp add: nxt_def)
  from out_headE [OF inv items] p n have h: "cursor_ok False p ?i (l_offset ?l)" "sendable p" "parse_inv p"
    "get_head_queue_katcl (l_queue ?l) = Some a" "refs_ok ?s (line_refs ?l + F)" "a \<in># line_refs ?l + F"
    by auto
  have buf: "length (l_buffer ?l) = KATCL_IO_SIZE" using inv by (simp add: winv_def out_ok_def)
  have i: "?i < p_got p" using h(1) by (simp add: cursor_ok_def)
  note t = text_bounds [OF h(3) i]
  let ?e = "a_escape (p_args p ! ?i)" and ?t = "arg_text p ?i"
  have arg0: "?i \<noteq> 0" if "l_offset ?l = 0"
  proof
    assume "?i = 0"
    then have "hd (parse_args p) = []" using fin that i by (simp add: hd_conv_nth parse_args_def)
    then show False using h(2) by (simp add: sendable_def)
  qed
  \<comment> \<open>the mark\<close>
  have same: "arg_wire 0 ?t = arg_wire ?e ?t" if "?e \<le> 1"
    using that h(1) fin by (cases "?e = 0") (auto simp: cursor_ok_def arg_wire_def)
  obtain q s1 where s1: "(if ?e \<le> 1 then set_escape a ?i 0 ?s else Inr ?s) = Inr s1" "refs_ok s1 (line_refs ?l + F)"
      "views ?s s1 (line_refs ?l + F)" "st_heap s1 a = Some q" "mv q = mv p"
  proof (cases "?e \<le> 1")
    case True
    from set_escape_ok [OF h(5,6) p i same [OF True]] show thesis using that True by (auto simp: st_put_def)
  next
    case False
    then show thesis using that h(5) views_refl [OF h(5)] p by auto
  qed
  \<comment> \<open>the mark of the empty argument\<close>
  define null where "null = (if l_offset ?l = 0 then [backslash, CHR ''@''] else [])"
  obtain l1 where l1: "(if l_offset ?l = 0 then
         (if ?i = 0 then Inl Abort
          else bind_res (buf_write [backslash, CHR ''@'', nul] ?l) (\<lambda>l1. Inr (l1\<lparr>l_pending := l_pending l1 + 2\<rparr>)))
       else Inr ?l) = Inr l1"
      "l1 = ?l\<lparr>l_buffer := l_buffer l1, l_pending := l_pending ?l + length null\<rparr>"
      "length (l_buffer l1) = KATCL_IO_SIZE"
      "take (l_pending l1) (l_buffer l1) = take (l_pending ?l) (l_buffer ?l) @ null"
  proof (cases "l_offset ?l = 0")
    case True
    have "l_pending ?l + length [backslash, CHR ''@'', nul] \<le> KATCL_IO_SIZE"
      using margin by (simp add: TMP_MARGIN_def)
    from buf_write_ok [OF buf this] obtain b where
      b: "buf_write [backslash, CHR ''@'', nul] ?l = Inr (?l\<lparr>l_buffer := b\<rparr>)" "length b = KATCL_IO_SIZE"
        "\<forall>n \<le> length [backslash, CHR ''@'', nul]. take (l_pending ?l + n) b =
          take (l_pending ?l) (l_buffer ?l) @ take n [backslash, CHR ''@'', nul]"
      by blast
    have "take (l_pending ?l + 2) b = take (l_pending ?l) (l_buffer ?l) @ [backslash, CHR ''@'']"
      using b(3) [THEN spec, of 2] by simp
    with b(1,2) show thesis using that [of "?l\<lparr>l_buffer := b, l_pending := l_pending ?l + 2\<rparr>"] True arg0
      by (simp add: null_def)
  next
    case False
    have "?l = ?l\<lparr>l_buffer := l_buffer ?l, l_pending := l_pending ?l\<rparr>" by simp
    then show thesis using that [of ?l] False buf by (simp add: null_def)
  qed
  let ?w = "w\<lparr>w_line := l1\<lparr>l_arg := ?i + 1, l_offset := 0\<rparr>, w_store := s1, w_state := WRITE_STATE_NEXT\<rparr>"
  have f1: "l_queue l1 = l_queue ?l" "l_next l1 = l_next ?l" "l_ready l1 = l_ready ?l" "l_stage l1 = l_stage ?l"
    "l_fd l1 = l_fd ?l" "l_pending l1 = l_pending ?l + length null" "l_arg l1 = ?i"
    by (subst l1(2), simp)+
  have "write_fill w = Inr ?w"
  proof -
    have "\<not> a_begin (p_args p ! ?i) + l_offset ?l > a_end (p_args p ! ?i)"
      "a_begin (p_args p ! ?i) + l_offset ?l \<ge> a_end (p_args p ! ?i)" "\<not> ?i \<ge> p_got p"
      using t(3) fin i by simp_all
    then show ?thesis
      unfolding write_fill_def Let_def h(4)
      using p margin l1(1) s1(1) t(1) f1(7) by (simp add: deref_def)
  qed
  moreover have "wgood F w ?w"
  proof (rule wgood_head [OF inv items p h(2)])
    show "mv q = mv p" by (rule s1(5))
    have got: "p_got q = p_got p" using mv_got [OF s1(5)] .
    have wires: "arg_wires q = arg_wires p" "parse_args q = parse_args p" using s1(5) by (simp_all add: mv_eq)
    show "cursor_ok (nxt ?w) q (l_arg (w_line ?w)) (l_offset (w_line ?w))"
      using i got by (simp add: cursor_ok_def nxt_def)
    have "piece p ?i (l_offset ?l) = null"
      using fin i by (auto simp: piece_def null_def arg_wire_def)
    then show "take (l_pending (w_line ?w)) (l_buffer (w_line ?w)) @
        head_rest (nxt ?w) q (l_arg (w_line ?w)) (l_offset (w_line ?w)) =
      take (l_pending ?l) (l_buffer ?l) @ head_rest (nxt w) p ?i (l_offset ?l)"
      using n l1(4) wires by (simp add: head_rest_def nxt_def)
    show "head_work (nxt ?w) q (l_arg (w_line ?w)) (l_offset (w_line ?w)) < head_work (nxt w) p ?i (l_offset ?l) \<or>
      head_work (nxt ?w) q (l_arg (w_line ?w)) (l_offset (w_line ?w)) = head_work (nxt w) p ?i (l_offset ?l) \<and>
      l_sendable (w_line ?w) = l_sendable ?l \<and> rank ?w < rank w"
      using n wires by (simp add: head_work_def nxt_def)
  qed (use s1(2-4) f1 l1(3) margin in \<open>simp_all add: nxt_def null_def TMP_MARGIN_def KATCL_IO_SIZE_def\<close>)
  ultimately show ?thesis by blast
qed


text \<open>Copying a part of an argument.\<close>

lemma piece_raw:
  assumes "i < p_got p" "off < length (arg_text p i)" "a_escape (p_args p ! i) = 0"
  shows "piece p i off = drop off (arg_text p i)"
  using assms by (auto simp: piece_def arg_wire_def)

lemma piece_escaped:
  assumes "i < p_got p" "off < length (arg_text p i)" "a_escape (p_args p ! i) \<noteq> 0"
  shows "piece p i off = escape_copy_katcl (drop off (arg_text p i))"
  using assms by (auto simp: piece_def arg_wire_def)

lemma write_fill_copy:
  assumes inv: "winv F w" and st: "w_state w = WRITE_STATE_FILL"
    and items: "pq_items (l_queue (w_line w)) = a # as"
    and p: "st_heap (w_store w) a = Some p"
    and margin: "\<not> l_pending (w_line w) + TMP_MARGIN > KATCL_IO_SIZE"
    and more: "l_offset (w_line w) < length (arg_text p (l_arg (w_line w)))"
  shows "\<exists>w'. write_fill w = Inr w' \<and> wgood F w w'"
proof -
  let ?l = "w_line w" and ?s = "w_store w" and ?i = "l_arg (w_line w)" and ?off = "l_offset (w_line w)"
  have n: "\<not> nxt w" using st by (simp add: nxt_def)
  from out_headE [OF inv items] p n have h: "cursor_ok False p ?i ?off" "sendable p" "parse_inv p"
    "get_head_queue_katcl (l_queue ?l) = Some a" "refs_ok ?s (line_refs ?l + F)" "a \<in># line_refs ?l + F"
    by auto
  have buf: "length (l_buffer ?l) = KATCL_IO_SIZE" using inv by (simp add: winv_def out_ok_def)
  have i: "?i < p_got p" using h(1) by (simp add: cursor_ok_def)
  note t = text_bounds [OF h(3) i]
  let ?e = "a_escape (p_args p ! ?i)" and ?t = "arg_text p ?i"
  define space where "space = KATCL_IO_SIZE - (l_pending ?l + 1)"
  define want where "want = length ?t - ?off"
  have space: "31 \<le> space" "l_pending ?l + space < KATCL_IO_SIZE"
    using margin by (simp_all add: space_def TMP_MARGIN_def KATCL_IO_SIZE_def)
  have want: "a_end (p_args p ! ?i) - (a_begin (p_args p ! ?i) + ?off) = want" "0 < want" "?off + want = length ?t"
    using t(3) more by (simp_all add: want_def)
  have guards: "\<not> a_begin (p_args p ! ?i) + ?off > a_end (p_args p ! ?i)"
    "\<not> a_begin (p_args p ! ?i) + ?off \<ge> a_end (p_args p ! ?i)" "\<not> ?i \<ge> p_got p"
    using t(3) more i by simp_all
  define room where "room = (if ?e \<noteq> 0 then space div 2 else space)"
  define can where "can = (if room \<ge> want then want else room)"
  have can: "0 < can" "can \<le> want" "can \<le> room" using space want by (auto simp: can_def room_def)
  define src where "src = take can (drop ?off ?t)"
  have src: "slice (a_begin (p_args p ! ?i) + ?off) (a_begin (p_args p ! ?i) + ?off + can) (p_buffer p) = src"
    "length src = can" "drop ?off ?t = src @ drop (?off + can) ?t" "take (?off + can) ?t = take ?off ?t @ src"
  proof -
    have le: "?off + can \<le> length ?t" using can want by simp
    then show "slice (a_begin (p_args p ! ?i) + ?off) (a_begin (p_args p ! ?i) + ?off + can) (p_buffer p) = src"
      using t(4) [of ?off can] by (simp add: src_def)
    show "length src = can" using le by (simp add: src_def)
    show "drop ?off ?t = src @ drop (?off + can) ?t"
      using append_take_drop_id [of can "drop ?off ?t"] by (simp add: src_def add.commute)
    show "take (?off + can) ?t = take ?off ?t @ src" by (simp add: src_def take_add)
  qed
  define bytes where "bytes = (if ?e \<noteq> 0 then escape_copy_katcl src else src)"
  have lb: "length bytes \<le> space" "can \<le> length bytes"
    using length_escape_copy [of src] src(2) can(3) by (auto simp: bytes_def room_def split: if_splits)
  obtain b where b: "buf_write bytes ?l = Inr (?l\<lparr>l_buffer := b\<rparr>)" "length b = KATCL_IO_SIZE"
      "take (l_pending ?l + length bytes) b = take (l_pending ?l) (l_buffer ?l) @ bytes"
    using buf_write_ok [OF buf, of bytes] lb space by auto
  \<comment> \<open>the mark\<close>
  obtain q s1 where s1: "(if ?e \<noteq> 0 \<and> length bytes > can then set_escape a ?i 2 ?s else Inr ?s) = Inr s1"
      "refs_ok s1 (line_refs ?l + F)" "views ?s s1 (line_refs ?l + F)" "st_heap s1 a = Some q" "mv q = mv p"
      "arg_text q ?i = ?t" "a_escape (p_args q ! ?i) = (if ?e \<noteq> 0 \<and> length bytes > can then 2 else ?e)"
  proof (cases "?e \<noteq> 0 \<and> length bytes > can")
    case True
    then have "arg_wire 2 ?t = arg_wire ?e ?t" by (auto simp: arg_wire_def)
    from set_escape_ok [OF h(5,6) p i this] show thesis using that True by (auto simp: st_put_def)
  next
    case False
    then show thesis using that h(5) views_refl [OF h(5)] p by auto
  qed
  let ?w = "w\<lparr>w_line := ?l\<lparr>l_buffer := b, l_pending := l_pending ?l + length bytes, l_offset := ?off + can\<rparr>,
    w_store := s1\<rparr>"
  have "write_copy w a p (p_args p ! ?i) = Inr ?w"
  proof (cases "?e = 0")
    case True
    then have e: "bytes = src" "(if space \<ge> want then want else space) = can" "s1 = ?s" "length bytes = can"
      using s1(1) src(2) by (simp_all add: bytes_def can_def room_def)
    show ?thesis
      unfolding write_copy_def Let_def want(1) space_def [symmetric] e(2) src(1)
      using True b(1) e by simp
  next
    case False
    then have e: "escape_copy_katcl src = bytes" "(if space div 2 \<ge> want then want else space div 2) = can"
      by (simp_all add: bytes_def can_def room_def)
    show ?thesis
      unfolding write_copy_def Let_def want(1) space_def [symmetric] e(2) src(1) e(1)
      using False b(1) s1(1) by simp
  qed
  then have "write_fill w = Inr ?w"
    unfolding write_fill_def Let_def h(4)
    using p margin guards t(1) by (simp add: deref_def)
  moreover have "wgood F w ?w"
  proof (rule wgood_head [OF inv items p h(2)])
    show "mv q = mv p" by (rule s1(5))
    have got: "p_got q = p_got p" using mv_got [OF s1(5)] .
    have wires: "arg_wires q = arg_wires p" "parse_args q = parse_args p" using s1(5) by (simp_all add: mv_eq)
    have old: "?e = 1" if "a_escape (p_args q ! ?i) = 1"
      using that s1(7) by (cases "0 < ?e"; cases "can < length bytes") simp_all
    have same: "escape_copy_katcl src = src" if mark: "a_escape (p_args q ! ?i) = 1"
    proof (rule escape_copy_same)
      have "\<not> length bytes > can"
        using mark s1(7) old [OF mark] by (cases "length bytes > can") simp_all
      then show "length (escape_copy_katcl src) \<le> length src"
        using old [OF mark] src(2) by (simp add: bytes_def)
    qed
    show "cursor_ok (nxt ?w) q (l_arg (w_line ?w)) (l_offset (w_line ?w))"
      using n i got s1(6) can want same old h(1) src(4)
      by (auto simp: cursor_ok_def nxt_def escape_copy_append)
    have "piece p ?i ?off = bytes @ piece q ?i (?off + can)"
    proof (cases "?e = 0")
      case True
      then show ?thesis
        using piece_raw [OF i more] s1(6,7) src(3) can by (simp add: piece_def bytes_def)
    next
      case False
      then have "a_escape (p_args q ! ?i) \<noteq> 0" using s1(7) by (auto split: if_splits)
      then show ?thesis
        using False piece_escaped [OF i more] s1(6) src(3) can
        by (simp add: piece_def bytes_def flip: escape_copy_append)
    qed
    then show "take (l_pending (w_line ?w)) (l_buffer (w_line ?w)) @
        head_rest (nxt ?w) q (l_arg (w_line ?w)) (l_offset (w_line ?w)) =
      take (l_pending ?l) (l_buffer ?l) @ head_rest (nxt w) p ?i ?off"
      using n st b(3) wires by (simp add: head_rest_def nxt_def)
    show "head_work (nxt ?w) q (l_arg (w_line ?w)) (l_offset (w_line ?w)) < head_work (nxt w) p ?i ?off \<or>
      head_work (nxt ?w) q (l_arg (w_line ?w)) (l_offset (w_line ?w)) = head_work (nxt w) p ?i ?off \<and>
      l_sendable (w_line ?w) = l_sendable ?l \<and> rank ?w < rank w"
      using n st wires more can(1) t(2) by (auto simp: head_work_def nxt_def)
  qed (use s1(2-4) st b(2) lb(1) space(2) in \<open>simp_all add: nxt_def\<close>)
  ultimately show ?thesis by blast
qed

end
