(* ===== verification/Line_Append.thy ===== *)
theory Line_Append
  imports Line_Write
begin

text \<open>
  The staging half of the writer: the functions named \<open>append_\<dots>\<close> build a message
  argument by argument in \<open>l_stage\<close> and queue it with its last argument. The lemmas show
  that a message queued this way adds exactly its text to what the line owes, and that a
  failure throws the staged message away and leaves the rest of the line alone.
\<close>

section \<open>Changing a line outside of the message being read\<close>

lemma line_ok_change:
  assumes "line_ok s l F" "refs_ok s' (line_refs l' + F)" "same_msgs s s' K" "opt_refs (l_next l) \<subseteq># K"
    "l_next l' = l_next l" "pq_inv (l_queue l')" "\<And>b. l_next l = Some b \<Longrightarrow> b \<notin># other_refs l' + F"
  shows "line_ok s' l' F"
proof -
  obtain b p where b: "l_next l = Some b" "st_heap s b = Some p" "p_refs p = 1" "p_state p \<noteq> PARSE_FAKE"
    using line_okE [OF assms(1)] by metis
  have refs: "refs_ok s' (add_mset b (other_refs l' + F))"
    using assms(2,5) b(1) by (simp add: line_refs_next)
  have "b \<in># K" using assms(4) b(1) by simp
  then have "st_heap s' b = Some p"
    using same_msgs_keep [OF assms(3) _ b(2) refs] b(3) assms(7) [OF b(1)] by (simp add: not_in_iff)
  then show ?thesis using b assms(5,6) refs by (intro line_okI [of l' b s' p]) simp_all
qed

text \<open>The output of a line when its queue and its buffer stay, and when a message is queued.\<close>

lemma sendable_msgs:
  assumes "same_msgs s s' K" "a \<in># K" "st_heap s a = Some p"
  obtains q where "st_heap s' a = Some q" "mv q = mv p" "\<And>i. p_args q ! i = p_args p ! i" "\<And>i. arg_text q i = arg_text p i"
    "p_got q = p_got p"
proof -
  obtain n where "st_heap s' a = Some (p\<lparr>p_refs := n\<rparr>)" using assms by (auto simp: same_msgs_def)
  then show thesis using that [of "p\<lparr>p_refs := n\<rparr>"] by (simp add: arg_text_def)
qed

definition same_output :: "line \<Rightarrow> line \<Rightarrow> bool" where
  "same_output l l' \<longleftrightarrow> l_arg l' = l_arg l \<and> l_offset l' = l_offset l \<and> l_buffer l' = l_buffer l \<and>
     l_pending l' = l_pending l"

lemma queued_wires:
  assumes "same_msgs s s' K" "set bs \<subseteq> set_mset K"
  shows "map (wire_of s') bs = map (wire_of s) bs"
  using wire_of_views [OF same_msgs_views [OF assms(1)]] assms(2) by auto

lemma head_same:
  assumes "same_msgs s s' K" "a \<in># K" "st_heap s a = Some p"
  obtains q where "st_heap s' a = Some q" "head_rest n q i j = head_rest n p i j" "cursor_ok n q i j = cursor_ok n p i j"
proof -
  obtain q where q: "st_heap s' a = Some q" "mv q = mv p" "\<And>i. p_args q ! i = p_args p ! i"
    "\<And>i. arg_text q i = arg_text p i" "p_got q = p_got p"
    using sendable_msgs [OF assms] by blast
  have "arg_wires q = arg_wires p" using q(2) by (simp add: mv_eq)
  then show thesis using that [of q] q by (simp add: head_rest_def piece_def cursor_ok_def)
qed

lemma output_same:
  assumes "out_ok False l s" "same_msgs s s' K" "set (pq_items (l_queue l)) \<subseteq> set_mset K"
    "same_output l l'" "pq_items (l_queue l') = pq_items (l_queue l)"
  shows "out_ok False l' s' \<and> line_wire l' s' = line_wire l s"
proof -
  have send: "\<forall>b \<in> set (pq_items (l_queue l')). \<exists>p. st_heap s' b = Some p \<and> sendable p"
    using assms(1,3,5) by (intro tail_sendable_views [OF _ _ same_msgs_views [OF assms(2)]]) (auto simp: out_ok_def)
  note o = assms(4) [unfolded same_output_def]
  show ?thesis
  proof (cases "pq_items (l_queue l)")
    case Nil
    then show ?thesis using assms(1,5) o by (simp add: out_ok_def line_wire_def line_rest_def)
  next
    case (Cons a as)
    then obtain p where p: "st_heap s a = Some p" "cursor_ok False p (l_arg l) (l_offset l)"
      using assms(1) by (auto simp: out_ok_def)
    have a: "a \<in># K" using assms(3) Cons by auto
    obtain q where q: "st_heap s' a = Some q" "head_rest False q (l_arg l) (l_offset l) = head_rest False p (l_arg l) (l_offset l)"
      "cursor_ok False q (l_arg l) (l_offset l) = cursor_ok False p (l_arg l) (l_offset l)"
      using head_same [OF assms(2) a p(1)] by metis
    have w: "concat (map (wire_of s') as) = concat (map (wire_of s) as)"
      using assms(3) Cons by (intro arg_cong [where f = concat] queued_wires [OF assms(2)]) auto
    have "out_ok False l' s'" using assms(1,5) send o Cons q p by (simp add: out_ok_def)
    moreover have "line_wire l' s' = line_wire l s"
      using Cons assms(5) o p(1) q(1,2) w by (simp add: line_wire_def line_rest_def)
    ultimately show ?thesis by simp
  qed
qed

lemma output_snoc:
  assumes "out_ok False l s" "same_msgs s s' K" "set (pq_items (l_queue l)) \<subseteq> set_mset K"
    "same_output l l'" "pq_items (l_queue l') = pq_items (l_queue l) @ [a]" "st_heap s' a = Some q" "sendable q"
  shows "out_ok False l' s' \<and> line_wire l' s' = line_wire l s @ msg_wire q"
proof -
  let ?l = "l'\<lparr>l_queue := l_queue l\<rparr>"
  have o: "l_arg l' = l_arg l" "l_offset l' = l_offset l" using assms(4) by (simp_all add: same_output_def)
  have old: "out_ok False ?l s'" "line_wire ?l s' = line_wire l s"
    using output_same [OF assms(1-3), of ?l] assms(4) by (simp_all add: same_output_def)
  have got: "0 < p_got q" using assms(7) by (auto simp: sendable_def parse_args_def)
  show ?thesis
  proof (cases "pq_items (l_queue l)")
    case Nil
    then have z: "l_arg l = 0" "l_offset l = 0" using assms(1) by (simp_all add: out_ok_def)
    have "out_ok False l' s'" using old(1) Nil assms(5-7) o z got by (simp add: out_ok_def cursor_ok_def)
    moreover have "line_wire l' s' = line_wire ?l s' @ msg_wire q"
      using Nil assms(5,6) o z msg_wire_head [OF got] by (simp add: line_wire_def line_rest_def)
    ultimately show ?thesis using old(2) by simp
  next
    case (Cons b bs)
    have "out_ok False l' s'" using old(1) Cons assms(5-7) by (auto simp: out_ok_def)
    moreover obtain p where "st_heap s' b = Some p" using old(1) Cons by (auto simp: out_ok_def)
    then have "line_wire l' s' = line_wire ?l s' @ msg_wire q"
      using Cons assms(5,6) by (simp add: line_wire_def line_rest_def wire_of_def)
    ultimately show ?thesis using old(2) by simp
  qed
qed

section \<open>The staged message\<close>

text \<open>What \<open>l_stage\<close> holds: nothing, or a message under construction with these arguments,
  marked to be escaped or not, that only the line knows.\<close>

definition stage_is :: "store \<Rightarrow> line \<Rightarrow> nat list \<Rightarrow> string list \<Rightarrow> bool" where
  "stage_is s l es ts \<longleftrightarrow>
     (case l_stage l of
        None \<Rightarrow> ts = [] \<and> es = []
      | Some a \<Rightarrow> \<exists>p. st_heap s a = Some p \<and> p_refs p = 1 \<and> p_state p = PARSE_FAKE \<and> ts \<noteq> [] \<and>
          parse_args p = ts \<and> parse_escapes p = es)"

text \<open>The text on the wire of arguments with their marks.\<close>

definition text_of :: "nat list \<Rightarrow> string list \<Rightarrow> string" where
  "text_of es ts = tl (wire_from (map2 arg_wire es ts))"

lemma msg_wire_text: "msg_wire p = text_of (parse_escapes p) (parse_args p)"
proof -
  have "map2 arg_wire (parse_escapes p) (parse_args p) = arg_wires p"
    by (intro nth_equalityI) (simp_all add: parse_escapes_def parse_args_def arg_wires_def)
  then show ?thesis by (simp add: msg_wire_def text_of_def)
qed

text \<open>The references of a line without those of its stage.\<close>

definition unstaged :: "line \<Rightarrow> nat multiset" where
  "unstaged l = opt_refs (l_next l) + (opt_refs (l_ready l) + mset (pq_items (l_queue l)))"

lemma line_refs_unstaged: "line_refs l = opt_refs (l_stage l) + unstaged l"
  by (simp add: line_refs_def unstaged_def ac_simps)

lemma unstaged_stage [simp]: "unstaged (l\<lparr>l_stage := x\<rparr>) = unstaged l"
  by (simp add: unstaged_def)

lemma next_unstaged: "opt_refs (l_next l) \<subseteq># unstaged l + F"
  by (simp add: unstaged_def)

lemma queue_unstaged: "set (pq_items (l_queue l)) \<subseteq> set_mset (unstaged l + F)"
  by (auto simp: unstaged_def)

lemma next_not_other:
  assumes "line_ok s l F" "l_next l = Some b"
  shows "b \<notin># other_refs l + F"
  using line_okE [OF assms(1)] assms(2) by (metis option.inject)

lemma other_refs_stage: "other_refs l = opt_refs (l_stage l) + (opt_refs (l_ready l) + mset (pq_items (l_queue l)))"
  by (simp add: other_refs_def ac_simps)

lemma before_append_ok:
  assumes ok: "line_ok s l F" and out: "out_ok False l s" and st: "stage_is s l es ts"
    and first: "has_flag fl KATCP_FLAG_FIRST = (ts = [])"
  shows "\<exists>a s1 p. before_append_katcl True l fl s = Inr (Some a, l\<lparr>l_stage := Some a\<rparr>, s1) \<and>
    st_heap s1 a = Some p \<and> can_add fl p \<and> parse_args p = ts \<and> parse_escapes p = es \<and>
    refs_ok s1 (add_mset a (unstaged l + F)) \<and> a \<notin># unstaged l + F \<and> same_msgs s s1 (unstaged l + F)"
proof (cases "l_stage l")
  case None
  then have e: "ts = []" "es = []" "has_flag fl KATCP_FLAG_FIRST" using st first by (simp_all add: stage_is_def)
  let ?p = "fresh_parse\<lparr>p_refs := 1\<rparr>"
  define s1 where "s1 = (st_put (st_fresh s) ?p s)\<lparr>st_fresh := st_fresh s + 1\<rparr>"
  have refs: "refs_ok s (unstaged l + F)" using ok None by (simp add: line_ok_def line_refs_unstaged)
  note c = create_referenced_ok [OF refs, of True]
  have heap: "st_heap s1 (st_fresh s) = Some ?p" by (simp add: s1_def st_put_def)
  have "before_append_katcl True l fl s = Inr (Some (st_fresh s), l\<lparr>l_stage := Some (st_fresh s)\<rparr>, s1)"
    using sane_line_ok [OF ok] None e(3) c by (simp add: before_append_katcl_def s1_def)
  moreover have "can_add fl ?p"
    using blank_fresh e(3) by (simp add: can_add_def blank_def)
  moreover have "parse_args ?p = ts" "parse_escapes ?p = es"
    using e by (simp_all add: parse_args_def parse_escapes_def fresh_parse_def)
  moreover have "same_msgs s s1 (unstaged l + F)"
    using same_msgs_put [OF refs, of "unstaged l + F" "st_fresh s" ?p] c by (simp add: s1_def same_msgs_def)
  ultimately show ?thesis using c heap by (auto simp: s1_def)
next
  case (Some a)
  then obtain p where p: "st_heap s a = Some p" "p_refs p = 1" "p_state p = PARSE_FAKE" "ts \<noteq> []"
    "parse_args p = ts" "parse_escapes p = es"
    using st by (auto simp: stage_is_def)
  have refs: "refs_ok s (add_mset a (unstaged l + F))" using ok Some by (simp add: line_ok_def line_refs_unstaged)
  then have "parse_inv p" "a \<notin># unstaged l + F"
    using refs_ok_live [OF refs, of a] p(1,2) by (auto simp: not_in_iff)
  moreover have "can_add fl p"
    using p first calculation by (auto simp: can_add_def parse_args_def)
  moreover have "before_append_katcl True l fl s = Inr (Some a, l\<lparr>l_stage := Some a\<rparr>, s)"
    using sane_line_ok [OF ok] Some by (simp add: before_append_katcl_def)
  moreover have "same_msgs s s (unstaged l + F)"
    using same_msgs_refl [OF refs] by (rule same_msgs_addD)
  ultimately show ?thesis using p refs by blast
qed

text \<open>The messages of the reading half.\<close>

definition input_refs :: "line \<Rightarrow> nat multiset" where
  "input_refs l = opt_refs (l_next l) + opt_refs (l_ready l)"

lemma input_unstaged: "same_msgs s s' (unstaged l + F) \<Longrightarrow> same_msgs s s' (input_refs l + F)"
  by (erule same_msgs_mono) (auto simp: unstaged_def input_refs_def)

lemma input_same: "l_next l' = l_next l \<Longrightarrow> l_ready l' = l_ready l \<Longrightarrow> input_refs l' = input_refs l"
  by (simp add: input_refs_def)

definition append_result ::
  "nat multiset \<Rightarrow> flags \<Rightarrow> line \<Rightarrow> store \<Rightarrow> nat list \<Rightarrow> string list \<Rightarrow> line \<Rightarrow> store \<Rightarrow> bool" where
  "append_result F fl l s es ts l' s' \<longleftrightarrow>
     line_ok s' l' F \<and> out_ok False l' s' \<and> same_msgs s s' (input_refs l + F) \<and>
     l_next l' = l_next l \<and> l_ready l' = l_ready l \<and>
     (if has_flag fl KATCP_FLAG_LAST
      then stage_is s' l' [] [] \<and> line_wire l' s' = line_wire l s @ text_of es ts
      else stage_is s' l' es ts \<and> line_wire l' s' = line_wire l s)"

lemma append_by_ok:
  assumes ok: "line_ok s l F" and out: "out_ok False l s" and st: "stage_is s l es ts"
    and first: "has_flag fl KATCP_FLAG_FIRST = (ts = [])" and mem: "mem 0" "mem 1"
    and add: "\<And>p. can_add fl p \<Longrightarrow> add_ok True fl t e p (add p)" and named: "hd (ts @ [t]) \<noteq> []"
  shows "\<exists>l' s'. append_by mem l fl add s = Inr (int (length t) + 1, l', s') \<and>
    append_result F fl l s (es @ [e]) (ts @ [t]) l' s'"
proof -
  let ?M = "unstaged l + F"
  obtain a s1 p where b: "before_append_katcl True l fl s = Inr (Some a, l\<lparr>l_stage := Some a\<rparr>, s1)"
      "st_heap s1 a = Some p" "can_add fl p" "parse_args p = ts" "parse_escapes p = es"
      "refs_ok s1 (add_mset a ?M)" "a \<notin># ?M" "same_msgs s s1 ?M"
    using before_append_ok [OF ok out st first] by blast
  obtain v q s2 where q: "on_parse a add s1 = Inr (v, s2)" "refs_ok s2 (add_mset a ?M)" "same_msgs s1 s2 ?M"
      "st_heap s2 a = Some q" "added fl t e p q" "v = int (length t) + 1"
  proof -
    obtain v q where q: "add p = Inr (v, q)" "added fl t e p q" "v = int (length t) + 1"
      using add [OF b(3)] by (auto simp: add_ok_def split: sum.splits)
    then show thesis using on_parse_ok [where f = add, OF b(6,7,2), of v q] that by (auto simp: added_def)
  qed
  have q_args: "parse_args q = ts @ [t]" "parse_escapes q = es @ [e]" using q(5) b(4,5) by (simp_all add: added_def)
  have same2: "same_msgs s s2 ?M" using b(8) q(3) by (rule same_msgs_trans)
  have pq: "pq_inv (l_queue l)" using ok by (simp add: line_ok_def)
  let ?l1 = "l\<lparr>l_stage := Some a\<rparr>"
  have next_other: "c \<noteq> a" "c \<notin># opt_refs (l_ready l) + mset (pq_items (l_queue l)) + F" if "l_next l = Some c" for c
    using that b(7) next_not_other [OF ok that] by (auto simp: unstaged_def other_refs_def)
  show ?thesis
  proof (cases "has_flag fl KATCP_FLAG_LAST")
    case False
    have "append_by mem l fl add s = Inr (v, ?l1, s2)"
      using mem b(1) q(1,6) False by (simp add: append_by_def after_append_katcl_def)
    moreover have "line_ok s2 ?l1 F"
      using q(2) same2 next_unstaged pq next_other
      by (intro line_ok_change [OF ok]) (auto simp: line_refs_unstaged other_refs_stage)
    moreover have "out_ok False ?l1 s2 \<and> line_wire ?l1 s2 = line_wire l s"
      by (intro output_same [OF out same2 queue_unstaged]) (simp_all add: same_output_def)
    moreover have "p_refs q = 1" using refs_ok_live [OF q(2), of a] q(4) b(7) by (auto simp: not_in_iff)
    then have "stage_is s2 ?l1 (es @ [e]) (ts @ [t])"
      using q(4,5) q_args False by (simp add: stage_is_def added_def)
    ultimately show ?thesis
      using False q(6) input_unstaged [OF same2] by (auto simp: append_result_def)
  next
    case True
    have final: "p_state q = PARSE_DONE" using q(5) True by (simp add: added_def)
    obtain k s3 where t: "add_tail_queue_katcl True (l_queue l) (Some a) s2 = Inr (0, k, s3)" "pq_inv k"
        "pq_items k = pq_items (l_queue l) @ [a]" "refs_ok s3 (add_mset a (add_mset a ?M))" "same_msgs s2 s3 (add_mset a ?M)"
      using add_tail_ok [OF pq q(2) _ q(4) final] by auto
    obtain s4 where d: "destroy_parse_katcl (Some a) s3 = Inr s4" "refs_ok s4 (add_mset a ?M)" "same_msgs s3 s4 (add_mset a ?M)"
      using destroy_ok [OF t(4)] destroy_same [OF t(4)] by blast
    let ?l' = "l\<lparr>l_queue := k, l_stage := None\<rparr>"
    have same24: "same_msgs s2 s4 (add_mset a ?M)" using t(5) d(3) by (rule same_msgs_trans)
    have same4: "same_msgs s s4 ?M" using same2 same_msgs_addD [OF same24] by (rule same_msgs_trans)
    obtain q' where q': "st_heap s4 a = Some q'" "mv q' = mv q"
      by (rule sendable_msgs [OF same24 _ q(4)]) auto
    have "append_by mem l fl add s = Inr (v, ?l', s4)"
      using mem b(1) q(1,6) True t(1) d(1) by (simp add: append_by_def after_append_katcl_def)
    moreover have "line_ok s4 ?l' F"
    proof (rule line_ok_change [OF ok _ same4 next_unstaged])
      show "refs_ok s4 (line_refs ?l' + F)" using d(2) t(3) by (simp add: line_refs_unstaged unstaged_def)
    qed (use t(2,3) next_other in \<open>auto simp: other_refs_stage\<close>)
    moreover have "sendable q'"
      using sendable_mv [OF q'(2)] final q_args named by (simp add: sendable_def)
    then have "out_ok False ?l' s4 \<and> line_wire ?l' s4 = line_wire l s @ msg_wire q'"
      using t(3) by (intro output_snoc [OF out same4 queue_unstaged _ _ q'(1)]) (simp_all add: same_output_def)
    moreover have "msg_wire q' = text_of (es @ [e]) (ts @ [t])"
      using q'(2) q_args msg_wire_text [of q] by (simp add: mv_eq msg_wire_def)
    moreover have "stage_is s4 ?l' [] []" by (simp add: stage_is_def)
    ultimately show ?thesis
      using True q(6) input_unstaged [OF same4] by (auto simp: append_result_def)
  qed
qed

text \<open>Failures: the addition itself, or the growth of the queue.\<close>

lemma drop_stage_ok:
  assumes ok: "line_ok s l F" and out: "out_ok False l s"
    and s2: "refs_ok s2 (add_mset a (unstaged l + F))" "same_msgs s s2 (unstaged l + F)"
  shows "\<exists>s3. destroy_parse_katcl (Some a) s2 = Inr s3 \<and> line_ok s3 (l\<lparr>l_stage := None\<rparr>) F \<and>
    out_ok False (l\<lparr>l_stage := None\<rparr>) s3 \<and> line_wire (l\<lparr>l_stage := None\<rparr>) s3 = line_wire l s \<and>
    same_msgs s s3 F \<and> stage_is s3 (l\<lparr>l_stage := None\<rparr>) [] []"
proof -
  let ?l = "l\<lparr>l_stage := None\<rparr>"
  obtain s3 where d: "destroy_parse_katcl (Some a) s2 = Inr s3" "refs_ok s3 (unstaged l + F)" "same_msgs s2 s3 (unstaged l + F)"
    using destroy_ok [OF s2(1)] destroy_same [OF s2(1)] by blast
  have same: "same_msgs s s3 (unstaged l + F)" using s2(2) d(3) by (rule same_msgs_trans)
  have "line_ok s3 ?l F"
    using d(2) ok next_not_other [OF ok]
    by (intro line_ok_change [OF ok _ same next_unstaged]) (auto simp: line_refs_unstaged line_ok_def other_refs_stage)
  moreover have "out_ok False ?l s3 \<and> line_wire ?l s3 = line_wire l s"
    by (intro output_same [OF out same queue_unstaged]) (simp_all add: same_output_def)
  ultimately show ?thesis using d(1) same_msgs_unionD [OF same] by (auto simp: stage_is_def)
qed

lemma append_by_fail:
  assumes ok: "line_ok s l F" and out: "out_ok False l s" and st: "stage_is s l es ts"
    and first: "has_flag fl KATCP_FLAG_FIRST = (ts = [])" and mem: "mem 0"
    and add: "\<And>p. can_add fl p \<Longrightarrow> \<exists>q. add p = Inr (-1, q) \<and> untouched p q"
  shows "\<exists>l' s'. append_by mem l fl add s = Inr (-1, l', s') \<and> line_ok s' l' F \<and> out_ok False l' s' \<and>
    same_msgs s s' F \<and> stage_is s' l' [] [] \<and> line_wire l' s' = line_wire l s"
proof -
  let ?M = "unstaged l + F"
  obtain a s1 p where b: "before_append_katcl True l fl s = Inr (Some a, l\<lparr>l_stage := Some a\<rparr>, s1)"
      "st_heap s1 a = Some p" "can_add fl p" "refs_ok s1 (add_mset a ?M)" "a \<notin># ?M" "same_msgs s s1 ?M"
    using before_append_ok [OF ok out st first] by blast
  obtain q where q: "add p = Inr (-1, q)" "parse_inv q" "p_refs q = p_refs p"
    using add [OF b(3)] by (auto simp: untouched_def)
  define s2 where "s2 = st_put a q s1"
  have s2: "on_parse a add s1 = Inr (-1, s2)" "refs_ok s2 (add_mset a ?M)" "same_msgs s1 s2 ?M"
    using on_parse_ok [where f = add, OF b(4,5,2) q] by (simp_all add: s2_def)
  from drop_stage_ok [OF ok out s2(2) same_msgs_trans [OF b(6) s2(3)]]
  obtain s3 where d: "destroy_parse_katcl (Some a) s2 = Inr s3" "line_ok s3 (l\<lparr>l_stage := None\<rparr>) F"
    "out_ok False (l\<lparr>l_stage := None\<rparr>) s3" "line_wire (l\<lparr>l_stage := None\<rparr>) s3 = line_wire l s"
    "same_msgs s s3 F" "stage_is s3 (l\<lparr>l_stage := None\<rparr>) [] []"
    by blast
  have "append_by mem l fl add s = Inr (-1, l\<lparr>l_stage := None\<rparr>, s3)"
    using mem b(1) s2(1) d(1) by (simp add: append_by_def after_append_katcl_def drop_parse_def)
  with d show ?thesis by blast
qed

lemma append_by_lost:
  assumes ok: "line_ok s l F" and out: "out_ok False l s" and st: "stage_is s l es ts"
    and first: "has_flag fl KATCP_FLAG_FIRST = (ts = [])" and mem: "mem 0" "\<not> mem 1"
    and full: "q_count (l_queue l) = q_size (l_queue l)" and last_flag: "has_flag fl KATCP_FLAG_LAST"
    and add: "\<And>p. can_add fl p \<Longrightarrow> add_ok True fl t e p (add p)"
  shows "\<exists>l' s'. append_by mem l fl add s = Inr (int (length t) + 1, l', s') \<and> line_ok s' l' F \<and>
    stage_is s' l' [] [] \<and> pq_items (l_queue l') = pq_items (l_queue l) \<and> line_wire l' s' = line_wire l s"
proof -
  let ?M = "unstaged l + F"
  obtain a s1 p where b: "before_append_katcl True l fl s = Inr (Some a, l\<lparr>l_stage := Some a\<rparr>, s1)"
      "st_heap s1 a = Some p" "can_add fl p" "refs_ok s1 (add_mset a ?M)" "a \<notin># ?M" "same_msgs s s1 ?M"
    using before_append_ok [OF ok out st first] by blast
  obtain q where q: "add p = Inr (int (length t) + 1, q)" "added fl t e p q"
    using add [OF b(3)] by (auto simp: add_ok_def split: sum.splits)
  define s2 where "s2 = st_put a q s1"
  have s2: "on_parse a add s1 = Inr (int (length t) + 1, s2)" "refs_ok s2 (add_mset a ?M)" "same_msgs s1 s2 ?M"
    using on_parse_ok [where f = add, OF b(4,5,2) q(1)] q(2) by (simp_all add: s2_def added_def)
  from drop_stage_ok [OF ok out s2(2) same_msgs_trans [OF b(6) s2(3)]]
  obtain s3 where d: "destroy_parse_katcl (Some a) s2 = Inr s3" "line_ok s3 (l\<lparr>l_stage := None\<rparr>) F"
    "line_wire (l\<lparr>l_stage := None\<rparr>) s3 = line_wire l s" "stage_is s3 (l\<lparr>l_stage := None\<rparr>) [] []"
    by blast
  have "add_tail_queue_katcl False (l_queue l) (Some a) s2 = Inr (-1, l_queue l, s2)"
    using full by (simp add: add_tail_queue_katcl_def make_room_def)
  then have "append_by mem l fl add s = Inr (int (length t) + 1, l\<lparr>l_queue := l_queue l, l_stage := None\<rparr>, s3)"
    using mem b(1) s2(1) d(1) last_flag by (simp add: append_by_def after_append_katcl_def)
  with d show ?thesis by fastforce
qed

section \<open>Sending a list of values\<close>

lemma order_flags [simp]:
  "has_flag (fl AND KATCP_ORDER_FLAGS) KATCP_FLAG_FIRST = has_flag fl KATCP_FLAG_FIRST"
  "has_flag (fl AND KATCP_ORDER_FLAGS) KATCP_FLAG_LAST = has_flag fl KATCP_FLAG_LAST"
  by (simp_all add: flag_defs KATCP_ORDER_FLAGS_def and.assoc)

text \<open>The argument and its mark that a value stands for.\<close>

definition value_arg :: "flags \<Rightarrow> send_value \<Rightarrow> (nat \<times> string) option" where
  "value_arg fl v =
     (let ty = fl AND KATCP_TYPE_FLAGS in
      case v of
        Send_string so \<Rightarrow> if ty = 0x10 then Some (1, case so of None \<Rightarrow> [] | Some b \<Rightarrow> b) else None
      | Send_number n \<Rightarrow>
          if ty = 0x30 \<or> ty = 0x80 then Some (0, dec_of_int (sint n))
          else if ty = 0x20 \<or> ty = 0x70 then Some (0, dec_of_nat (unat n))
          else if ty = 0x40 then Some (0, ''0x'' @ hex_of_nat (unat n)) else None
      | Send_buffer bo n \<Rightarrow>
          if ty \<noteq> 0x50 then None
          else case bo of Some b \<Rightarrow> if n \<le> length b then Some (1, take n b) else None
                        | None \<Rightarrow> if n = 0 then Some (1, []) else None)"

lemma adds_of_values:
  assumes "can_add fl p"
  shows "add_ok True fl (case so of None \<Rightarrow> [] | Some b \<Rightarrow> b) 1 p (add_string_parse_katcl (True, True) fl so p)"
    "add_ok True fl (dec_of_nat (unat v)) 0 p (add_unsigned_long_parse_katcl (True, True) fl v p)"
    "add_ok True fl (dec_of_int (sint v)) 0 p (add_signed_long_parse_katcl (True, True) fl v p)"
    "add_ok True fl (''0x'' @ hex_of_nat (unat v)) 0 p (add_hex_long_parse_katcl (True, True) fl v p)"
    "n \<le> length b \<Longrightarrow> add_ok True fl (take n b) 1 p (add_buffer_parse_katcl (True, True) fl (Some b) n p)"
    "add_ok True fl [] 1 p (add_buffer_parse_katcl (True, True) fl None 0 p)"
  using number_texts [of v] add_string_ok [OF assms, of "(True, True)" so] add_buffer_ok [OF assms, of n b "(True, True)"]
    add_buffer_null_ok [OF assms, of "(True, True)"]
    add_printed_ok [OF assms, of "dec_of_nat (unat v)" "(True, True)"] add_printed_ok [OF assms, of "dec_of_int (sint v)" "(True, True)"]
    add_printed_ok [OF assms, of "''0x'' @ hex_of_nat (unat v)" "(True, True)"]
  by (simp_all add: add_unsigned_long_parse_katcl_def add_signed_long_parse_katcl_def add_hex_long_parse_katcl_def)

lemma append_flags:
  "append_result F (fl AND KATCP_ORDER_FLAGS) l s es ts l' s' = append_result F fl l s es ts l' s'"
  by (simp add: append_result_def)

lemma send_one_ok:
  assumes "line_ok s l F" "out_ok False l s" "stage_is s l es ts" "has_flag fl KATCP_FLAG_FIRST = (ts = [])"
    "\<forall>i. mem i" "value_arg fl v = Some (e, t)" "hd (ts @ [t]) \<noteq> []"
  shows "\<exists>l' s'. send_one mem l fl v s = Inr (int (length t) + 1, l', s') \<and>
    append_result F fl l s (es @ [e]) (ts @ [t]) l' s'"
proof -
  let ?fl = "fl AND KATCP_ORDER_FLAGS"
  have first: "has_flag ?fl KATCP_FLAG_FIRST = (ts = [])" using assms(4) by simp
  have m: "mem i" for i using assms(5) by simp
  have go: "\<exists>l' s'. append_by mem l ?fl add s = Inr (int (length t) + 1, l', s') \<and>
      append_result F fl l s (es @ [e]) (ts @ [t]) l' s'"
    if "\<And>p. can_add ?fl p \<Longrightarrow> add_ok True ?fl t e p (add p)" for add
    using append_by_ok [OF assms(1-3) first m m that assms(7)] by (simp only: append_flags)
  show ?thesis
  proof (cases v)
    case (Send_string so)
    then have v: "fl AND KATCP_TYPE_FLAGS = 0x10" "e = 1" "t = (case so of None \<Rightarrow> [] | Some b \<Rightarrow> b)"
      using assms(6) by (auto simp: value_arg_def Let_def split: if_splits)
    have s: "send_one mem l fl v s = append_by mem l ?fl (add_string_parse_katcl (True, True) ?fl so) s"
      using v(1) m by (simp add: send_one_def Let_def append_string_katcl_def Send_string)
    show ?thesis unfolding s by (rule go) (use v in \<open>simp add: adds_of_values(1) [unfolded One_nat_def]\<close>)
  next
    case (Send_number n)
    then consider "fl AND KATCP_TYPE_FLAGS = 0x30 \<or> fl AND KATCP_TYPE_FLAGS = 0x80" "e = 0" "t = dec_of_int (sint n)"
      | "fl AND KATCP_TYPE_FLAGS = 0x20 \<or> fl AND KATCP_TYPE_FLAGS = 0x70" "e = 0" "t = dec_of_nat (unat n)"
      | "fl AND KATCP_TYPE_FLAGS = 0x40" "e = 0" "t = ''0x'' @ hex_of_nat (unat n)"
      using assms(6) by (auto simp: value_arg_def Let_def split: if_splits)
    then show ?thesis
    proof cases
      case 1
      have s: "send_one mem l fl v s = append_by mem l ?fl (add_signed_long_parse_katcl (True, True) ?fl n) s"
        using 1(1) m by (auto simp: send_one_def Let_def append_signed_long_katcl_def Send_number)
      show ?thesis unfolding s by (rule go) (use 1 in \<open>simp add: adds_of_values(3)\<close>)
    next
      case 2
      have s: "send_one mem l fl v s = append_by mem l ?fl (add_unsigned_long_parse_katcl (True, True) ?fl n) s"
        using 2(1) m by (auto simp: send_one_def Let_def append_unsigned_long_katcl_def Send_number)
      show ?thesis unfolding s by (rule go) (use 2 in \<open>simp add: adds_of_values(2)\<close>)
    next
      case 3
      have s: "send_one mem l fl v s = append_by mem l ?fl (add_hex_long_parse_katcl (True, True) ?fl n) s"
        using 3(1) m by (simp add: send_one_def Let_def append_hex_long_katcl_def Send_number)
      show ?thesis unfolding s by (rule go) (use 3 in \<open>simp add: adds_of_values(4) [simplified]\<close>)
    qed
  next
    case (Send_buffer bo n)
    then have v: "fl AND KATCP_TYPE_FLAGS = 0x50" "e = 1"
      using assms(6) by (auto simp: value_arg_def Let_def split: if_splits option.splits)
    have s: "send_one mem l fl v s = append_by mem l ?fl (add_buffer_parse_katcl (True, True) ?fl bo n) s"
      using v(1) m by (simp add: send_one_def Let_def append_buffer_katcl_def Send_buffer)
    show ?thesis
    proof (cases bo)
      case None
      then have "n = 0" "t = []" using assms(6) v(1) Send_buffer by (auto simp: value_arg_def Let_def split: if_splits)
      then show ?thesis unfolding s by (intro go) (use v(2) None in \<open>simp add: adds_of_values(6) [unfolded One_nat_def]\<close>)
    next
      case (Some b)
      then have "n \<le> length b" "t = take n b"
        using assms(6) v(1) Send_buffer by (auto simp: value_arg_def Let_def split: if_splits)
      then show ?thesis unfolding s by (intro go) (use v(2) Some in \<open>simp add: adds_of_values(5) [unfolded One_nat_def]\<close>)
    qed
  qed
qed

text \<open>A proper list of values: the first one starts the message, the last one ends it.\<close>

fun proper_list :: "bool \<Rightarrow> (flags \<times> send_value) list \<Rightarrow> bool" where
  "proper_list first [] = False"
| "proper_list first ((fl, v) # args) =
     (has_flag fl KATCP_FLAG_FIRST = first \<and> has_flag fl KATCP_FLAG_LAST = (args = []) \<and>
      value_arg fl v \<noteq> None \<and> (args = [] \<or> proper_list False args))"

definition list_args :: "(flags \<times> send_value) list \<Rightarrow> (nat \<times> string) list" where
  "list_args args = map (\<lambda>(fl, v). the (value_arg fl v)) args"

lemma vsend_loop_ok:
  assumes "line_ok s l F" "out_ok False l s" "stage_is s l es ts" "proper_list (ts = []) args" "\<forall>i. mem i"
    "check = (if ts = [] then KATCP_FLAG_FIRST else 0)" "hd (ts @ map snd (list_args args)) \<noteq> []"
  shows "\<exists>l' s'. vsend_loop mem l check args s = Inr (0, l', s') \<and>
    append_result F KATCP_FLAG_LAST l s (es @ map fst (list_args args)) (ts @ map snd (list_args args)) l' s'"
  using assms
proof (induction args arbitrary: l s es ts check)
  case (Cons x args)
  obtain fl v where x: "x = (fl, v)" by fastforce
  with Cons.prems(4) obtain e t where a: "has_flag fl KATCP_FLAG_FIRST = (ts = [])"
      "has_flag fl KATCP_FLAG_LAST = (args = [])" "value_arg fl v = Some (e, t)" "args = [] \<or> proper_list False args"
    by auto
  have named: "hd (ts @ [t]) \<noteq> []" using Cons.prems(7) x a(3) by (cases ts) (simp_all add: list_args_def)
  obtain l1 s1 where o: "send_one mem l fl v s = Inr (int (length t) + 1, l1, s1)"
      "append_result F fl l s (es @ [e]) (ts @ [t]) l1 s1"
    using send_one_ok [OF Cons.prems(1-3) a(1) Cons.prems(5) a(3) named] by blast
  have "check AND fl = check"
  proof (cases "ts = []")
    case True
    then have "fl AND 1 \<noteq> 0" using a(1) by (simp add: flag_defs)
    then have "1 AND fl = 1" by (simp add: and.commute [of 1] and_one_eq)
    then show ?thesis using True Cons.prems(6) by (simp add: KATCP_FLAG_FIRST_def)
  qed (use Cons.prems(6) in simp)
  then have step: "vsend_loop mem l check (x # args) s =
      (if has_flag fl KATCP_FLAG_LAST then Inr (0, l1, s1) else vsend_loop mem l1 0 args s1)"
    using o(1) x by simp
  show ?case
  proof (cases "args = []")
    case True
    then show ?thesis using step o(2) x a by (simp add: append_result_def list_args_def flag_defs)
  next
    case False
    then have r: "line_ok s1 l1 F" "out_ok False l1 s1" "stage_is s1 l1 (es @ [e]) (ts @ [t])"
        "same_msgs s s1 (input_refs l + F)"
        "l_next l1 = l_next l" "l_ready l1 = l_ready l" "line_wire l1 s1 = line_wire l s"
      using o(2) a(2) by (simp_all add: append_result_def)
    have "hd ((ts @ [t]) @ map snd (list_args args)) \<noteq> []" using named by (cases ts) simp_all
    then obtain l' s' where i: "vsend_loop mem l1 0 args s1 = Inr (0, l', s')"
        "append_result F KATCP_FLAG_LAST l1 s1 ((es @ [e]) @ map fst (list_args args)) ((ts @ [t]) @ map snd (list_args args)) l' s'"
      using Cons.IH [OF r(1-3) _ Cons.prems(5), of 0] a(4) False by auto
    have "append_result F KATCP_FLAG_LAST l s ((es @ [e]) @ map fst (list_args args)) ((ts @ [t]) @ map snd (list_args args)) l' s'"
      using i(2) r(4-7) input_same [OF r(5,6)] by (auto simp: append_result_def intro: same_msgs_trans)
    then show ?thesis using step i(1) False a(2,3) x by (simp add: list_args_def)
  qed
qed simp

section \<open>Properties\<close>

lemma send_list_ok:
  assumes "line_ok s l F" "out_ok False l s" "l_stage l = None" "proper_list True args" "\<forall>i. mem i"
    "snd (hd (list_args args)) \<noteq> []"
  shows "\<exists>l' s'. send_katcl mem l args s = Inr (0, l', s') \<and> line_ok s' l' F \<and> out_ok False l' s' \<and>
    same_msgs s s' F \<and> l_stage l' = None \<and> l_next l' = l_next l \<and> l_ready l' = l_ready l \<and>
    line_wire l' s' = line_wire l s @ text_of (map fst (list_args args)) (map snd (list_args args))"
proof -
  have st: "stage_is s l [] []" using assms(3) by (simp add: stage_is_def)
  have "args \<noteq> []" using assms(4) by (cases args) auto
  then have "hd ([] @ map snd (list_args args)) \<noteq> []" using assms(6) by (cases args) (simp_all add: list_args_def)
  from vsend_loop_ok [OF assms(1,2) st _ assms(5) _ this] assms(4)
  obtain l' s' where r: "vsend_loop mem l KATCP_FLAG_FIRST args s = Inr (0, l', s')"
    "append_result F KATCP_FLAG_LAST l s ([] @ map fst (list_args args)) ([] @ map snd (list_args args)) l' s'"
    by auto
  then have "l_stage l' = None"
    by (auto simp: append_result_def stage_is_def flag_defs split: option.splits)
  with r show ?thesis
    by (auto simp: send_katcl_def vsend_katcl_def append_result_def flag_defs dest: same_msgs_unionD)
qed

lemma fresh_output: "out_ok False (fresh_line fd a) s" "line_wire (fresh_line fd a) s = []" "l_stage (fresh_line fd a) = None"
  using pq_empty by (simp_all add: out_ok_def fresh_line_def line_wire_def line_rest_def)

lemma empty_store_ok: "refs_ok empty_store {#}"
  by (simp add: refs_ok_def empty_store_def)

definition sample_list :: "(flags \<times> send_value) list" where
  "sample_list = [(0x11, Send_string (Some ''?set'')), (0x30, Send_number (-5)), (0x12, Send_string (Some ''a b''))]"

lemma sample_list_args: "list_args sample_list = [(1, ''?set''), (0, dec_of_int (- 5)), (1, ''a b'')]"
  by (simp add: sample_list_def list_args_def value_arg_def KATCP_TYPE_FLAGS_def)

lemma sample_list_proper: "proper_list True sample_list"
  by (simp add: sample_list_def value_arg_def KATCP_TYPE_FLAGS_def flag_defs)

text \<open>C3. \<open>send_katcl\<close> sends the message it was given. For a list of values of which the first
  starts and the last ends a message, the call succeeds and the line owes, behind what it owed
  before, exactly the text of the message: strings and buffers as arguments to be escaped,
  numbers in decimal or hexadecimal. The other half of the line and the messages held by
  others stay as they are, and nothing remains staged. All allocations are granted; what a
  refused one does is \<open>append_failures\<close> below.\<close>

theorem send_queues_message:
  assumes "line_ok s l F" "out_ok False l s" "l_stage l = None" "proper_list True args" "\<forall>i. mem i"
    "snd (hd (list_args args)) \<noteq> []"
  shows "\<exists>l' s'. send_katcl mem l args s = Inr (0, l', s') \<and> line_ok s' l' F \<and> out_ok False l' s' \<and>
    same_msgs s s' F \<and> l_stage l' = None \<and> l_next l' = l_next l \<and> l_ready l' = l_ready l \<and>
    line_wire l' s' = line_wire l s @ text_of (map fst (list_args args)) (map snd (list_args args))"
  by (rule send_list_ok [OF assms])

theorem send_queues_message_witness:
  "\<exists>l s l' s'. create_katcl (\<lambda>_. True) 3 empty_store = Inr (Some l, s) \<and>
    send_katcl (\<lambda>_. True) l sample_list s = Inr (0, l', s') \<and>
    line_wire l' s' = ''?set -5 a'' @ [backslash] @ ''_b'' @ [CHR 0x0A]"
proof -
  obtain s where c: "create_katcl (\<lambda>_. True) 3 empty_store = Inr (Some (fresh_line 3 0), s)"
    "line_ok s (fresh_line 3 0) {#}"
    using create_line_ok [OF empty_store_ok, of 3] by (auto simp: empty_store_def)
  have "text_of (map fst (list_args sample_list)) (map snd (list_args sample_list)) =
      ''?set -5 a'' @ [backslash] @ ''_b'' @ [CHR 0x0A]"
    by (simp add: sample_list_args text_of_def) code_simp
  with send_queues_message [OF c(2) fresh_output(1,3) sample_list_proper, of "\<lambda>_. True"] c(1) fresh_output(2)
  show ?thesis by (fastforce simp: sample_list_args)
qed

text \<open>What becomes of a staged message when an append fails. An argument that cannot be
  added, here one taken from a position that the source does not have, makes the call return
  -1, and the whole staged message is thrown away. But when the message is complete and only
  the queue cannot grow, the call reports success with the number of bytes added, although
  the message is gone and will never be sent.\<close>

theorem append_failures:
  assumes "line_ok s l F" "out_ok False l s" "stage_is s l es ts" "has_flag fl KATCP_FLAG_FIRST = (ts = [])" "mem 0"
  shows "(px \<in># F \<and> st_heap s px = Some ps \<and> p_got ps \<le> i \<longrightarrow>
      (\<exists>l' s'. append_parameter_katcl mem l fl px i s = Inr (-1, l', s') \<and> line_ok s' l' F \<and>
        l_stage l' = None \<and> line_wire l' s' = line_wire l s)) \<and>
    (has_flag fl KATCP_FLAG_LAST \<and> \<not> mem 1 \<and> mem 2 \<and> mem 3 \<and> q_count (l_queue l) = q_size (l_queue l) \<longrightarrow>
      (\<exists>l' s'. append_string_katcl mem l fl (Some t) s = Inr (int (length t) + 1, l', s') \<and> line_ok s' l' F \<and>
        l_stage l' = None \<and> pq_items (l_queue l') = pq_items (l_queue l) \<and> line_wire l' s' = line_wire l s))"
proof (intro conjI impI; elim conjE)
  assume px: "px \<in># F" "st_heap s px = Some ps" "p_got ps \<le> i"
  have "add_parameter_parse_katcl (mem 2, mem 3) pd fl ps i = Inr (-1, pd)" for pd
    using px(3) by (simp add: add_parameter_parse_katcl_def)
  then have "\<exists>q. add_parameter_parse_katcl (mem 2, mem 3) pd fl ps i = Inr (-1, q) \<and> untouched pd q" if "can_add fl pd" for pd
    using that untouched_refl [of pd] by (simp add: can_add_def)
  from append_by_fail [where mem = mem and add = "\<lambda>pd. add_parameter_parse_katcl (mem 2, mem 3) pd fl ps i", OF assms this]
  show "\<exists>l' s'. append_parameter_katcl mem l fl px i s = Inr (-1, l', s') \<and> line_ok s' l' F \<and>
      l_stage l' = None \<and> line_wire l' s' = line_wire l s"
    using px(2) by (auto simp: append_parameter_katcl_def deref_def stage_is_def split: option.splits)
next
  assume m: "has_flag fl KATCP_FLAG_LAST" "\<not> mem 1" "mem 2" "mem 3" "q_count (l_queue l) = q_size (l_queue l)"
  have "add_ok True fl t 1 p (add_string_parse_katcl (mem 2, mem 3) fl (Some t) p)" if "can_add fl p" for p
    using add_string_ok [OF that, of "(True, True)" "Some t"] m by simp
  from append_by_lost [where mem = mem and add = "add_string_parse_katcl (mem 2, mem 3) fl (Some t)", OF assms(1-5) m(2,5,1) this]
  show "\<exists>l' s'. append_string_katcl mem l fl (Some t) s = Inr (int (length t) + 1, l', s') \<and> line_ok s' l' F \<and>
      l_stage l' = None \<and> pq_items (l_queue l') = pq_items (l_queue l) \<and> line_wire l' s' = line_wire l s"
    by (auto simp: append_string_katcl_def stage_is_def split: option.splits)
qed

theorem append_failures_witness:
  "\<exists>l s l' s'. create_katcl (\<lambda>_. True) 3 empty_store = Inr (Some l, s) \<and>
    append_string_katcl (\<lambda>i. i \<noteq> 1) l 3 (Some ''?help'') s = Inr (6, l', s') \<and> pq_items (l_queue l') = []"
proof -
  obtain s where c: "create_katcl (\<lambda>_. True) 3 empty_store = Inr (Some (fresh_line 3 0), s)"
    "line_ok s (fresh_line 3 0) {#}"
    using create_line_ok [OF empty_store_ok, of 3] by (auto simp: empty_store_def)
  have st: "stage_is s (fresh_line 3 0) [] []" by (simp add: stage_is_def fresh_output(3))
  have q: "q_count (l_queue (fresh_line 3 0)) = q_size (l_queue (fresh_line 3 0))" "pq_items (l_queue (fresh_line 3 0)) = []"
    using pq_empty by (simp_all add: fresh_line_def pq_empty_def create_queue_katcl_def)
  have f: "has_flag 3 KATCP_FLAG_FIRST = ([] = ([] :: string list))" "has_flag 3 KATCP_FLAG_LAST" by (simp_all add: flag_defs)
  from append_failures [OF c(2) fresh_output(1) st f(1), of "\<lambda>i. i \<noteq> 1" _ _ 0 "''?help''"] c(1) q f(2)
  show ?thesis by fastforce
qed

end
