(* ===== verification/Line_Flush.thy ===== *)
theory Line_Flush
  imports Line_Append
begin

text \<open>
  The whole run of \<open>write_katcl\<close>: each round of its state machine keeps the bytes sent and
  the bytes still owed together, and the loop ends.
\<close>

section \<open>Filling the buffer\<close>

lemma views_still:
  assumes "winv F w"
  shows "views (w_store w) (w_store w) (line_keep (w_line w) + F)"
proof -
  have "refs_ok (w_store w) (line_refs (w_line w) + F)" using assms by (simp add: winv_def line_ok_def)
  from views_refl [OF this] show ?thesis
    by (rule views_mono) (auto simp: line_refs_keep)
qed

lemma write_fill_good:
  assumes inv: "winv F w" and st: "w_state w = WRITE_STATE_FILL"
  shows "\<exists>w'. write_fill w = Inr w' \<and> wgood F w w'"
proof (cases "pq_items (l_queue (w_line w))")
  case Nil
  have q: "pq_inv (l_queue (w_line w))" using inv by (simp add: winv_def line_ok_def)
  have "get_head_queue_katcl (l_queue (w_line w)) = None"
    using get_head_items [OF q] Nil by (simp add: list_deq_def)
  moreover have "wgood F w (w\<lparr>w_state := (if 0 < l_pending (w_line w) then WRITE_STATE_SEND else WRITE_STATE_DONE)\<rparr>)"
    using st Nil by (intro wgood_state [OF inv refl]) (auto simp: nxt_def rank_def split: if_splits)
  ultimately show ?thesis by (simp add: write_fill_def Let_def)
next
  case (Cons a as)
  have n: "\<not> nxt w" using st by (simp add: nxt_def)
  obtain p where p: "st_heap (w_store w) a = Some p" "cursor_ok (nxt w) p (l_arg (w_line w)) (l_offset (w_line w))"
    "get_head_queue_katcl (l_queue (w_line w)) = Some a"
    using out_headE [OF inv Cons] by metis
  show ?thesis
  proof (cases "l_pending (w_line w) + TMP_MARGIN > KATCL_IO_SIZE")
    case True
    moreover have "wgood F w (w\<lparr>w_state := WRITE_STATE_SEND\<rparr>)"
      using st True n
      by (intro wgood_state [OF inv refl]) (auto simp: rank_def TMP_MARGIN_def KATCL_IO_SIZE_def)
    ultimately show ?thesis using p by (simp add: write_fill_def deref_def)
  next
    case False
    have "l_offset (w_line w) \<le> length (arg_text p (l_arg (w_line w)))"
      using p(2) n by (simp add: cursor_ok_def)
    then show ?thesis
      using write_fill_end [OF inv st Cons p(1) False] write_fill_copy [OF inv st Cons p(1) False]
      by (cases "l_offset (w_line w) = length (arg_text p (l_arg (w_line w)))") simp_all
  qed
qed

section \<open>Between two arguments\<close>

lemma out_headE_nxt:
  assumes "winv F w" "w_state w = WRITE_STATE_NEXT"
  obtains a as where "pq_items (l_queue (w_line w)) = a # as"
  using assms by (cases "pq_items (l_queue (w_line w))") (auto simp: winv_def out_ok_def nxt_def)

lemma write_next_space:
  assumes inv: "winv F w" and st: "w_state w = WRITE_STATE_NEXT"
    and items: "pq_items (l_queue (w_line w)) = a # as"
    and p: "st_heap (w_store w) a = Some p" and more: "l_arg (w_line w) < p_got p"
  shows "\<exists>w'. write_next w = Inr w' \<and> wgood F w w'"
proof -
  let ?l = "w_line w" and ?s = "w_store w" and ?i = "l_arg (w_line w)"
  have n: "nxt w" using st by (simp add: nxt_def)
  from out_headE [OF inv items] p n have h: "cursor_ok True p ?i (l_offset ?l)" "sendable p" "parse_inv p"
    "get_head_queue_katcl (l_queue ?l) = Some a" "refs_ok ?s (line_refs ?l + F)" "a \<in># line_refs ?l + F"
    by auto
  have off: "l_offset ?l = 0" using h(1) by (simp add: cursor_ok_def)
  have buf: "length (l_buffer ?l) = KATCL_IO_SIZE" "l_pending ?l \<le> KATCL_IO_SIZE - 1"
    using inv n by (simp_all add: winv_def out_ok_def)
  have room: "l_pending ?l + length '' '' \<le> KATCL_IO_SIZE" using buf(2) by (simp add: KATCL_IO_SIZE_def)
  obtain b where b: "buf_write '' '' ?l = Inr (?l\<lparr>l_buffer := b\<rparr>)" "length b = KATCL_IO_SIZE"
      "take (l_pending ?l + 1) b = take (l_pending ?l) (l_buffer ?l) @ '' ''"
    using buf_write_ok [OF buf(1) room] by auto
  let ?w = "w\<lparr>w_line := ?l\<lparr>l_buffer := b, l_pending := l_pending ?l + 1\<rparr>, w_state := WRITE_STATE_FILL\<rparr>"
  have "write_next w = Inr ?w"
    using h(4) p more b(1) by (simp add: write_next_def deref_def Let_def)
  moreover have "wgood F w ?w"
  proof (rule wgood_head [OF inv items p h(2)])
    show "cursor_ok (nxt ?w) p (l_arg (w_line ?w)) (l_offset (w_line ?w))"
      using more off by (simp add: cursor_ok_def nxt_def)
    have wires: "wire_from (drop ?i (arg_wires p)) =
        CHR '' '' # arg_wires p ! ?i @ wire_from (drop (Suc ?i) (arg_wires p))"
      using more by (simp add: Cons_nth_drop_Suc [symmetric] del: arg_wires_nth)
    show "take (l_pending (w_line ?w)) (l_buffer (w_line ?w)) @
        head_rest (nxt ?w) p (l_arg (w_line ?w)) (l_offset (w_line ?w)) =
      take (l_pending ?l) (l_buffer ?l) @ head_rest (nxt w) p ?i (l_offset ?l)"
      using n b(3) off wires by (simp add: head_rest_def nxt_def piece_def del: arg_wires_nth)
    have "args_work (drop ?i (parse_args p)) = length (parse_args p ! ?i) + 2 + args_work (drop (Suc ?i) (parse_args p))"
      using more by (subst Cons_nth_drop_Suc [symmetric]) simp_all
    then show "head_work (nxt ?w) p (l_arg (w_line ?w)) (l_offset (w_line ?w)) < head_work (nxt w) p ?i (l_offset ?l) \<or>
      head_work (nxt ?w) p (l_arg (w_line ?w)) (l_offset (w_line ?w)) = head_work (nxt w) p ?i (l_offset ?l) \<and>
      l_sendable (w_line ?w) = l_sendable ?l \<and> rank ?w < rank w"
      using n off by (simp add: head_work_def nxt_def)
  qed (use h(5) views_refl [OF h(5)] p b(2) room in \<open>simp_all add: nxt_def\<close>)
  ultimately show ?thesis by blast
qed

text \<open>The end of a message.\<close>

lemma line_rest_fresh:
  assumes "pq_items (l_queue l) = as" "l_arg l = 0" "l_offset l = 0"
    "\<forall>b \<in> set as. \<exists>p. st_heap s b = Some p \<and> sendable p"
  shows "line_rest False l s = concat (map (wire_of s) as)"
    "line_work False l s \<le> sum_list (map (work_of s) as)"
proof -
  have "line_rest False l s = concat (map (wire_of s) as) \<and> line_work False l s \<le> sum_list (map (work_of s) as)"
  proof (cases as)
    case (Cons b bs)
    then obtain p where p: "st_heap s b = Some p" "sendable p" using assms(4) by auto
    then have got: "0 < p_got p" by (auto simp: sendable_def parse_args_def)
    then obtain t ts where t: "parse_args p = t # ts" by (cases "parse_args p") (auto simp: parse_args_def)
    show ?thesis
      using assms(1-3) Cons p t msg_wire_head [OF got]
      by (simp add: line_rest_def line_work_def wire_of_def work_of_def head_work_def)
  qed (use assms(1) in \<open>simp add: line_rest_def line_work_def\<close>)
  then show "line_rest False l s = concat (map (wire_of s) as)"
    "line_work False l s \<le> sum_list (map (work_of s) as)" by simp_all
qed

lemma write_next_newline:
  assumes inv: "winv F w" and st: "w_state w = WRITE_STATE_NEXT"
    and items: "pq_items (l_queue (w_line w)) = a # as"
    and p: "st_heap (w_store w) a = Some p" and fin: "\<not> l_arg (w_line w) < p_got p"
  shows "\<exists>w'. write_next w = Inr w' \<and> wgood F w w'"
proof -
  let ?l = "w_line w" and ?s = "w_store w" and ?i = "l_arg (w_line w)"
  let ?M = "line_keep ?l + mset as + F"
  have n: "nxt w" using st by (simp add: nxt_def)
  from out_headE [OF inv items] p n have h: "cursor_ok True p ?i (l_offset ?l)"
    "get_head_queue_katcl (l_queue ?l) = Some a" "refs_ok ?s (line_refs ?l + F)" "line_ok ?s ?l F"
    by auto
  have at: "l_offset ?l = 0" "?i = p_got p" using h(1) fin by (simp_all add: cursor_ok_def)
  have buf: "length (l_buffer ?l) = KATCL_IO_SIZE" "l_pending ?l \<le> KATCL_IO_SIZE - 1"
    and send: "\<forall>b \<in> set as. \<exists>p. st_heap ?s b = Some p \<and> sendable p"
    using inv n items by (auto simp: winv_def out_ok_def)
  have room: "l_pending ?l + length [CHR 0x0A] \<le> KATCL_IO_SIZE" using buf(2) by (simp add: KATCL_IO_SIZE_def)
  obtain b where b: "buf_write [CHR 0x0A] (?l\<lparr>l_arg := 0\<rparr>) = Inr (?l\<lparr>l_arg := 0, l_buffer := b\<rparr>)"
      "length b = KATCL_IO_SIZE" "take (l_pending ?l + 1) b = take (l_pending ?l) (l_buffer ?l) @ [CHR 0x0A]"
    using buf_write_ok [of "?l\<lparr>l_arg := 0\<rparr>" "[CHR 0x0A]"] buf(1) room by auto
  have "pq_inv (l_queue ?l)" using h(4) by (simp add: line_ok_def)
  from remove_head_pq [OF this] items obtain q where
    q: "remove_head_queue_katcl (l_queue ?l) = Inr (Some a, q)" "pq_inv q" "pq_items q = as"
    by (auto simp: list_deq_def)
  have "refs_ok ?s (add_mset a ?M)" using h(3) items by (simp add: line_refs_keep ac_simps)
  then obtain s1 where s1: "destroy_parse_katcl (Some a) ?s = Inr s1" "refs_ok s1 ?M" "same_msgs ?s s1 ?M"
    using destroy_ok [of ?s a ?M] destroy_same [of ?s a ?M] by blast
  have views: "views ?s s1 ?M" using same_msgs_views [OF s1(3)] .
  let ?l' = "?l\<lparr>l_arg := 0, l_buffer := b, l_pending := l_pending ?l + 1, l_queue := q\<rparr>"
  let ?w = "w\<lparr>w_line := ?l', w_store := s1, w_state := WRITE_STATE_FILL\<rparr>"
  have "write_next w = Inr ?w"
    using h(2) p fin b(1) q(1) s1(1) by (simp add: write_next_def deref_def Let_def)
  moreover have "wgood F w ?w"
  proof -
    have keep': "line_keep ?l' = line_keep ?l" by (simp add: line_keep_def)
    have refs': "line_refs ?l' = line_keep ?l + mset as" using q(3) keep' by (simp add: line_refs_keep)
    have keep: "views ?s s1 (line_keep ?l + F)" using views by (rule views_mono) auto
    have "line_ok s1 ?l' F"
    proof (rule line_ok_views [OF h(4)])
      show "line_refs ?l' \<subseteq># line_refs ?l" using items unfolding refs' by (simp add: line_refs_keep)
      show "refs_ok s1 (line_refs ?l' + F)" unfolding refs' by (rule s1(2))
    qed (use q(2) keep in simp_all)
    moreover have send': "\<forall>b \<in> set as. \<exists>p. st_heap s1 b = Some p \<and> sendable p"
      using send by (rule tail_sendable_views [OF _ _ views]) auto
    have cursor: "cursor_ok False x 0 0" if sx: "sendable x" for x
    proof -
      have "0 < p_got x" using sx by (auto simp: sendable_def parse_args_def)
      then show ?thesis by (simp add: cursor_ok_def)
    qed
    have "out_ok False ?l' s1"
      using send' cursor b(2) room q(3) at by (cases as) (auto simp: out_ok_def)
    ultimately have "winv F ?w" by (simp add: winv_def nxt_def)
    moreover note fresh = line_rest_fresh [of ?l' as s1, OF _ _ _ send']
    have wires: "map (wire_of s1) as = map (wire_of ?s) as" "map (work_of s1) as = map (work_of ?s) as"
      using wire_of_views [OF views] work_of_views [OF views] by auto
    have "line_rest (nxt w) ?l ?s = CHR 0x0A # concat (map (wire_of ?s) as)"
      using n items p at by (simp add: line_rest_def head_rest_def)
    then have "wtotal ?w = wtotal w"
      using fresh(1) q(3) at wires b(3) by (simp add: wtotal_def nxt_def)
    moreover have "line_work (nxt w) ?l ?s = 1 + sum_list (map (work_of ?s) as)"
      using n items p at by (simp add: line_work_def head_work_def)
    then have "rounds ?w < rounds w"
      using fresh(2) q(3) at wires room by (intro roundsI) (simp_all add: nxt_def)
    moreover have "wframe F w ?w" using keep by (simp add: wframe_def)
    ultimately show ?thesis by (simp add: wgood_def)
  qed
  ultimately show ?thesis by blast
qed

lemma write_next_good:
  assumes "winv F w" "w_state w = WRITE_STATE_NEXT"
  shows "\<exists>w'. write_next w = Inr w' \<and> wgood F w w'"
proof -
  obtain a as where items: "pq_items (l_queue (w_line w)) = a # as" using out_headE_nxt [OF assms] .
  moreover obtain p where "st_heap (w_store w) a = Some p" using out_headE [OF assms(1) items] by blast
  ultimately show ?thesis using write_next_space [OF assms] write_next_newline [OF assms] by blast
qed

section \<open>Handing the buffer to the kernel\<close>

definition kernel_ok :: "(nat \<Rightarrow> nat \<Rightarrow> send_result) \<Rightarrow> bool" where
  \<comment> \<open>a call takes at least one of the bytes offered and no more than those, or fails\<close>
  "kernel_ok io \<longleftrightarrow> (\<forall>k n m. 0 < n \<longrightarrow> io k n = Sent m \<longrightarrow> 0 < m \<and> m \<le> n)"

text \<open>A round that changes the line outside of its messages and its output.\<close>

lemma wgood_line:
  assumes inv: "winv F w" and st: "w_state w = WRITE_STATE_SEND"
    and w': "w' = w\<lparr>w_line := l', w_sent := w_sent w @ x, w_calls := c\<rparr>"
    and l': "l' = (w_line w)\<lparr>l_buffer := b, l_pending := k, l_sendable := e, l_error := r\<rparr>"
    and buf: "length b = KATCL_IO_SIZE" "k \<le> KATCL_IO_SIZE"
      "x @ take k b = take (l_pending (w_line w)) (l_buffer (w_line w))"
  shows "winv F w' \<and> wtotal w' = wtotal w \<and> wframe F w w' \<and>
    line_work (nxt w') (w_line w') (w_store w') = line_work (nxt w) (w_line w) (w_store w)"
proof -
  have n: "\<not> nxt w" "\<not> nxt w'" using st w' by (simp_all add: nxt_def)
  have same: "line_refs l' = line_refs (w_line w)" "line_keep l' = line_keep (w_line w)"
      "l_queue l' = l_queue (w_line w)" "l_arg l' = l_arg (w_line w)" "l_offset l' = l_offset (w_line w)"
      "l_next l' = l_next (w_line w)" "l_pending l' = k" "l_buffer l' = b"
    using l' by (simp_all add: line_refs_def line_keep_def)
  have "line_ok (w_store w) l' F"
    using inv same by (simp add: winv_def line_ok_def)
  moreover have "out_ok False l' (w_store w)"
  proof -
    have "out_ok (nxt w) (w_line w) (w_store w)" using inv by (simp add: winv_def)
    then have "out_ok False (w_line w) (w_store w)" using n by simp
    then show ?thesis using buf unfolding out_ok_def same by simp
  qed
  ultimately have "winv F w'" using w' st n by (simp add: winv_def)
  moreover have "line_rest False l' (w_store w) = line_rest False (w_line w) (w_store w)"
    "line_work False l' (w_store w) = line_work False (w_line w) (w_store w)"
    unfolding line_rest_def line_work_def same by simp_all
  moreover have "wframe F w w'"
    using w' l' views_still [OF inv] by (simp add: wframe_def)
  ultimately show ?thesis using w' n buf(3) same by (simp add: wtotal_def)
qed

definition step_result :: "nat multiset \<Rightarrow> (nat \<Rightarrow> nat \<Rightarrow> send_result) \<Rightarrow> wrun \<Rightarrow> int option \<Rightarrow> wrun \<Rightarrow> bool" where
  "step_result F io w r w' \<longleftrightarrow>
     winv F w' \<and> wtotal w' = wtotal w \<and> wframe F w w' \<and>
     (case r of
        None \<Rightarrow> rounds w' < rounds w
      | Some v \<Rightarrow> \<not> nxt w' \<and>
          (v = 1 \<and> w_state w' = WRITE_STATE_DONE \<or>
           (v = 0 \<or> v = -1 \<and> l_error (w_line w') \<noteq> 0) \<and> (\<exists>k n e. io k n = Send_error e)))"

lemma wgood_result: "wgood F w w' \<Longrightarrow> step_result F io w None w'"
  by (simp add: wgood_def step_result_def)

lemma write_send_ok:
  assumes inv: "winv F w" and st: "w_state w = WRITE_STATE_SEND" and io: "kernel_ok io" "\<And>k n. io k n \<noteq> Send_error 0"
  shows "\<exists>r w'. write_send io w = Inr (r, w') \<and> step_result F io w r w'"
proof (cases "l_pending (w_line w) = 0")
  case True
  let ?st = "if get_head_queue_katcl (l_queue (w_line w)) \<noteq> None then WRITE_STATE_FILL else WRITE_STATE_DONE"
  have q: "pq_inv (l_queue (w_line w))" using inv by (simp add: winv_def line_ok_def)
  have "pq_items (l_queue (w_line w)) = []" if "get_head_queue_katcl (l_queue (w_line w)) = None"
    using that get_head_items [OF q] by (cases "pq_items (l_queue (w_line w))") (simp_all add: list_deq_def)
  then have "wgood F w (w\<lparr>w_state := ?st\<rparr>)"
    using st True by (intro wgood_state [OF inv refl]) (auto simp: nxt_def rank_def split: if_splits)
  then show ?thesis using True wgood_result by (fastforce simp: write_send_def Let_def)
next
  case False
  let ?l = "w_line w"
  let ?w1 = "w\<lparr>w_calls := w_calls w + 1\<rparr>"
  have buf: "length (l_buffer ?l) = KATCL_IO_SIZE" "l_pending ?l \<le> KATCL_IO_SIZE"
    using inv st by (simp_all add: winv_def out_ok_def nxt_def)
  have line: "?l = ?l\<lparr>l_buffer := l_buffer ?l, l_pending := l_pending ?l, l_sendable := l_sendable ?l, l_error := l_error ?l\<rparr>"
    by simp
  show ?thesis
  proof (cases "io (w_calls w) (l_pending ?l)")
    case (Send_error e)
    have e: "e \<noteq> 0" using Send_error io(2) by metis
    consider "e = EAGAIN \<or> e = EINTR" | "\<not> (e = EAGAIN \<or> e = EINTR)" "e = ENOTSOCK \<and> l_sendable ?l > 0"
      | "\<not> (e = EAGAIN \<or> e = EINTR)" "\<not> (e = ENOTSOCK \<and> l_sendable ?l > 0)" by blast
    then show ?thesis
    proof cases
      case 1
      have "write_send io w = Inr (Some 0, ?w1)"
        using False Send_error 1 by (simp add: write_send_def Let_def)
      moreover have "step_result F io w (Some 0) ?w1"
        using wgood_line [OF inv st _ line, where x = "[]" and w' = ?w1 and c = "w_calls w + 1"] buf Send_error st
        by (auto simp: step_result_def nxt_def)
      ultimately show ?thesis by blast
    next
      case 2
      let ?w = "?w1\<lparr>w_line := ?l\<lparr>l_sendable := 0\<rparr>\<rparr>"
      have "write_send io w = Inr (None, ?w)"
        using False Send_error 2 by (simp add: write_send_def Let_def)
      moreover have g: "winv F ?w \<and> wtotal ?w = wtotal w \<and> wframe F w ?w \<and>
          line_work (nxt ?w) (w_line ?w) (w_store ?w) = line_work (nxt w) ?l (w_store w)"
        using buf by (intro wgood_line [OF inv st _ _ buf, where x = "[]" and c = "w_calls w + 1" and e = 0 and r = "l_error ?l"]) simp_all
      moreover have "rounds ?w < rounds w"
      proof -
        have "rank ?w = rank w" using st by (simp add: rank_def)
        then show ?thesis using g 2 by (simp add: rounds_def)
      qed
      ultimately show ?thesis by (auto simp: step_result_def)
    next
      case 3
      let ?w = "?w1\<lparr>w_line := ?l\<lparr>l_error := e\<rparr>\<rparr>"
      have "write_send io w = Inr (Some (-1), ?w)"
        using False Send_error 3 by (auto simp: write_send_def Let_def)
      moreover have "winv F ?w \<and> wtotal ?w = wtotal w \<and> wframe F w ?w \<and>
          line_work (nxt ?w) (w_line ?w) (w_store ?w) = line_work (nxt w) ?l (w_store w)"
        using buf by (intro wgood_line [OF inv st _ _ buf, where x = "[]" and c = "w_calls w + 1" and e = "l_sendable ?l" and r = e]) simp_all
      ultimately show ?thesis using e Send_error st by (auto simp: step_result_def nxt_def)
    qed
  next
    case (Sent m)
    then have m: "0 < m" "m \<le> l_pending ?l" using io(1) False by (auto simp: kernel_ok_def)
    let ?x = "take m (l_buffer ?l)"
    let ?b = "if m < l_pending ?l then memmove 0 m (l_pending ?l - m) (l_buffer ?l) else l_buffer ?l"
    let ?w = "w\<lparr>w_line := ?l\<lparr>l_buffer := ?b, l_pending := l_pending ?l - m\<rparr>, w_sent := w_sent w @ ?x,
      w_calls := w_calls w + 1\<rparr>"
    have "write_send io w = Inr (None, ?w)"
      using False Sent m by (auto simp: write_send_def Let_def min_absorb1)
    moreover have "?x @ take (l_pending ?l - m) ?b = take (l_pending ?l) (l_buffer ?l)"
      using m buf take_add [of m "l_pending ?l - m" "l_buffer ?l"] by (simp add: memmove_def)
    then have g: "winv F ?w \<and> wtotal ?w = wtotal w \<and> wframe F w ?w \<and>
        line_work (nxt ?w) (w_line ?w) (w_store ?w) = line_work (nxt w) ?l (w_store w)"
      using buf m
      by (intro wgood_line [OF inv st refl, where k = "l_pending ?l - m" and b = ?b and e = "l_sendable ?l" and r = "l_error ?l"])
        simp_all
    moreover have "rounds ?w < rounds w"
    proof -
      have "rank ?w < rank w" using st m by (simp add: rank_def)
      then show ?thesis using g by (simp add: rounds_def)
    qed
    ultimately show ?thesis by (auto simp: step_result_def)
  qed
qed

section \<open>The loop\<close>

lemma write_step_ok:
  assumes inv: "winv F w" and io: "kernel_ok io" "\<And>k n. io k n \<noteq> Send_error 0"
  shows "\<exists>r w'. write_step io w = Inr (r, w') \<and> step_result F io w r w'"
proof (cases "w_state w")
  case WRITE_STATE_DONE
  show ?thesis using WRITE_STATE_DONE inv views_still [OF inv] by (simp add: write_step_def step_result_def wframe_def nxt_def)
next
  case WRITE_STATE_FILL
  then show ?thesis using write_fill_good [OF inv] wgood_result by (fastforce simp: write_step_def)
next
  case WRITE_STATE_NEXT
  then show ?thesis using write_next_good [OF inv] wgood_result by (fastforce simp: write_step_def)
next
  case WRITE_STATE_SEND
  then show ?thesis using write_send_ok [OF inv _ io] by (simp add: write_step_def)
qed

definition run_result :: "nat multiset \<Rightarrow> (nat \<Rightarrow> nat \<Rightarrow> send_result) \<Rightarrow> wrun \<Rightarrow> int \<Rightarrow> wrun \<Rightarrow> bool" where
  "run_result F io w v w' \<longleftrightarrow> step_result F io w (Some v) w'"

lemma write_loop_ok:
  assumes io: "kernel_ok io" "\<And>k n. io k n \<noteq> Send_error 0"
  shows "winv F w \<Longrightarrow> rounds w < n \<Longrightarrow> \<exists>v w'. write_loop io n w = Inr (Some (v, w')) \<and> run_result F io w v w'"
proof (induction n arbitrary: w)
  case (Suc n)
  obtain r w1 where r: "write_step io w = Inr (r, w1)" "step_result F io w r w1"
    using write_step_ok [OF Suc.prems(1) io] by blast
  show ?case
  proof (cases r)
    case (Some v)
    then show ?thesis using r by (simp add: run_result_def)
  next
    case None
    then have s: "winv F w1" "wtotal w1 = wtotal w" "wframe F w w1" "rounds w1 < rounds w"
      using r(2) by (simp_all add: step_result_def)
    then obtain v w' where "write_loop io n w1 = Inr (Some (v, w'))" "run_result F io w1 v w'"
      using Suc.IH [OF s(1)] Suc.prems(2) by auto
    then show ?thesis
      using r(1) None s(2) wframe_trans [OF s(3)] by (auto simp: run_result_def step_result_def)
  qed
qed simp

section \<open>Property\<close>

lemma winv_start:
  assumes "line_ok s l F" "out_ok False l s"
  shows "winv F (write_start l s)" "wtotal (write_start l s) = line_wire l s"
  using assms by (simp_all add: winv_def write_start_def nxt_def wtotal_def line_wire_def)

definition bytes_out :: "nat multiset \<Rightarrow> line \<Rightarrow> store \<Rightarrow> int \<Rightarrow> wrun \<Rightarrow> bool" where
  "bytes_out F l s v w \<longleftrightarrow>
     w_sent w @ line_wire (w_line w) (w_store w) = line_wire l s \<and>
     line_ok (w_store w) (w_line w) F \<and> out_ok False (w_line w) (w_store w) \<and>
     wframe F (write_start l s) w \<and> v \<in> {1, 0, -1} \<and> (v = -1 \<longrightarrow> l_error (w_line w) \<noteq> 0) \<and>
     (v = 1 \<longrightarrow> w_sent w = line_wire l s \<and> flushing_katcl (w_line w) = 0)"

lemma run_result_out:
  assumes "line_ok s l F" "out_ok False l s" "run_result F io (write_start l s) v w"
  shows "bytes_out F l s v w \<and> (v \<noteq> 1 \<longrightarrow> (\<exists>k n e. io k n = Send_error e))"
proof -
  have w: "winv F w" "wtotal w = line_wire l s" "wframe F (write_start l s) w" "\<not> nxt w"
      "v = 1 \<and> w_state w = WRITE_STATE_DONE \<or> (v = 0 \<or> v = -1 \<and> l_error (w_line w) \<noteq> 0) \<and> (\<exists>k n e. io k n = Send_error e)"
    using assms(3) winv_start [OF assms(1,2)] by (simp_all add: run_result_def step_result_def)
  have total: "w_sent w @ line_wire (w_line w) (w_store w) = line_wire l s"
    using w(2,4) by (simp add: wtotal_def line_wire_def)
  have ok: "line_ok (w_store w) (w_line w) F" "out_ok False (w_line w) (w_store w)" "pq_inv (l_queue (w_line w))"
    using w(1,4) by (simp_all add: winv_def line_ok_def)
  have "w_sent w = line_wire l s \<and> flushing_katcl (w_line w) = 0" if "w_state w = WRITE_STATE_DONE"
  proof -
    have d: "l_pending (w_line w) = 0" "pq_items (l_queue (w_line w)) = []" using w(1) that by (simp_all add: winv_def)
    then have "q_count (l_queue (w_line w)) = 0" using length_pq_items [of "l_queue (w_line w)"] by simp
    with d total show ?thesis by (simp add: line_wire_def line_rest_def flushing_katcl_def size_queue_katcl_def)
  qed
  with w total ok show ?thesis by (auto simp: bytes_out_def)
qed

text \<open>C2. \<open>write_katcl\<close> delivers. From any state of the output, and whatever parts of its
  offers the kernel takes, the run ends within the given number of rounds, without touching a
  freed message or leaving its buffer. The bytes that it handed over, followed by those it
  still owes, are the bytes owed at the start, so that nothing is lost, doubled or reordered
  when a call is interrupted and repeated. It returns 1 only when everything has been handed
  over, and it does so unless a call to the kernel fails; a failure that is not to be tried
  again is recorded and returned as -1.\<close>

theorem write_delivers:
  assumes "line_ok s l F" "out_ok False l s" "kernel_ok io" "\<forall>k n. io k n \<noteq> Send_error 0"
    "rounds (write_start l s) < n"
  shows "\<exists>v w. write_katcl io n l s = Inr (Some (v, w)) \<and> bytes_out F l s v w \<and>
    ((\<forall>k n e. io k n \<noteq> Send_error e) \<longrightarrow> v = 1)"
  using write_loop_ok [OF assms(3) _ winv_start(1) [OF assms(1,2)] assms(5)] run_result_out [OF assms(1,2)] assms(4)
  unfolding write_katcl_def by blast

theorem write_delivers_witness:
  "\<exists>l s l' s' v w n. create_katcl (\<lambda>_. True) 3 empty_store = Inr (Some l, s) \<and>
    send_katcl (\<lambda>_. True) l sample_list s = Inr (0, l', s') \<and>
    write_katcl (\<lambda>k n. Sent 1) n l' s' = Inr (Some (1, w)) \<and> w_sent w = ''?set -5 a'' @ [backslash] @ ''_b'' @ [CHR 0x0A]"
proof -
  obtain s where c: "create_katcl (\<lambda>_. True) 3 empty_store = Inr (Some (fresh_line 3 0), s)"
    "line_ok s (fresh_line 3 0) {#}"
    using create_line_ok [OF empty_store_ok, of 3] by (auto simp: empty_store_def)
  have t: "text_of (map fst (list_args sample_list)) (map snd (list_args sample_list)) =
      ''?set -5 a'' @ [backslash] @ ''_b'' @ [CHR 0x0A]"
    by (simp add: sample_list_args text_of_def) code_simp
  obtain l' s' where l: "send_katcl (\<lambda>_. True) (fresh_line 3 0) sample_list s = Inr (0, l', s')"
      "line_ok s' l' {#}" "out_ok False l' s'" "line_wire l' s' = ''?set -5 a'' @ [backslash] @ ''_b'' @ [CHR 0x0A]"
    using send_list_ok [OF c(2) fresh_output(1,3) sample_list_proper, of "\<lambda>_. True"] fresh_output(2) t
    by (auto simp: sample_list_args)
  have k: "kernel_ok (\<lambda>k n. Sent 1)" "\<forall>k n. (\<lambda>k n. Sent 1) k n \<noteq> Send_error 0" by (simp_all add: kernel_ok_def)
  obtain v w where "write_katcl (\<lambda>k n. Sent 1) (Suc (rounds (write_start l' s'))) l' s' = Inr (Some (v, w))"
      "bytes_out {#} l' s' v w" "v = 1"
    using write_delivers [OF l(2,3) k lessI] by auto
  with c(1) l(1,4) show ?thesis unfolding bytes_out_def by metis
qed

end
