(* ===== verification/Wire.thy ===== *)
theory Wire
  imports Line_Flush
begin

text \<open>
  The two halves of a connection against each other: the text that the writer gives a
  message (theories \<open>Line_Write\<close> and \<open>Line_Append\<close>) is read back by the tokenizer, and so
  by \<open>parse_katcl\<close>, as the arguments of that message; what one end sends with
  \<open>send_katcl\<close> and \<open>write_katcl\<close> is what the other end finds with \<open>have_katcl\<close>.
\<close>

section \<open>Reading back the text of a message\<close>

definition plain :: "char \<Rightarrow> bool" where
  "plain c \<longleftrightarrow> escape_char c = None"

text \<open>A message name that comes through unchanged: a type, then no byte that would be escaped
  and no bracket, which would start a tag.\<close>

definition plain_name :: "string \<Rightarrow> bool" where
  "plain_name s \<longleftrightarrow> (case s of [] \<Rightarrow> False | c # cs \<Rightarrow> is_type c \<and> (\<forall>x \<in> set cs. plain x \<and> x \<noteq> CHR ''[''))"

definition readable_arg :: "nat \<Rightarrow> string \<Rightarrow> bool" where
  "readable_arg e t \<longleftrightarrow> e \<noteq> 0 \<or> (\<forall>x \<in> set t. plain x)"

lemma plain_not: "plain c \<Longrightarrow> \<not> is_ws c \<and> \<not> is_eol c \<and> c \<noteq> backslash"
  by (auto simp: plain_def escape_char_def is_ws_def is_eol_def backslash_def split: if_splits)

lemma escape_plain: "\<forall>x \<in> set s. plain x \<Longrightarrow> escape_copy_katcl s = s"
  by (induction s) (simp_all add: plain_def)

lemma escape_unescape: "escape_char c = Some v \<Longrightarrow> unescape v = Some c"
  by (auto simp: escape_char_def unescape_def backslash_def split: if_splits)

lemma backslash_not: "\<not> is_ws backslash" "\<not> is_eol backslash"
  by (simp_all add: is_ws_def is_eol_def backslash_def)

text \<open>One argument, from the blank before it or from its middle.\<close>

lemma feed_go: "tok_step c t = Some t' \<Longrightarrow> t_state t' \<noteq> PARSE_DONE \<Longrightarrow> feed t (c # u) = feed t' u"
  by simp

lemma feed_escaped:
  "t_state t = PARSE_ARG \<Longrightarrow> feed t (escape_copy_katcl s @ u) = feed (t\<lparr>t_cur := t_cur t @ s\<rparr>) u"
proof (induction s arbitrary: t)
  case (Cons c cs)
  show ?case
  proof (cases "escape_char c")
    case None
    have "tok_step c t = Some (tok_put c t)"
      using Cons.prems plain_not [of c] None by (simp add: tok_step.simps plain_def)
    then show ?thesis using Cons None by (simp add: tok_put_def)
  next
    case (Some v)
    have s1: "tok_step backslash t = Some (t\<lparr>t_state := PARSE_ESCAPE\<rparr>)"
      using Cons.prems backslash_not by (simp add: tok_step.simps)
    have s2: "tok_step v (t\<lparr>t_state := PARSE_ESCAPE\<rparr>) = Some (tok_put c t)"
      using Cons.prems escape_unescape [OF Some] by (simp add: tok_step.simps tok_put_def)
    show ?thesis using Cons Some s1 s2 by (simp add: tok_put_def)
  qed
qed simp

lemma feed_arg:
  assumes "t_state t = PARSE_WHITESPACE" "readable_arg e s"
  shows "feed t (arg_wire e s @ u) = feed (t\<lparr>t_state := PARSE_ARG, t_cur := s\<rparr>) u"
proof (cases s)
  case Nil
  have s1: "tok_step backslash t = Some (t\<lparr>t_state := PARSE_ESCAPE, t_cur := []\<rparr>)"
    using assms(1) backslash_not by (simp add: tok_step.simps)
  have s2: "tok_step (CHR ''@'') (t\<lparr>t_state := PARSE_ESCAPE, t_cur := []\<rparr>) = Some (t\<lparr>t_state := PARSE_ARG, t_cur := []\<rparr>)"
    by (simp add: tok_step.simps unescape_def)
  show ?thesis using Nil s1 s2 by (simp add: arg_wire_def)
next
  case (Cons c cs)
  have w: "arg_wire e s = escape_copy_katcl s"
    using assms(2) Cons escape_plain [of s] by (auto simp: arg_wire_def readable_arg_def)
  show ?thesis
  proof (cases "escape_char c")
    case None
    have "tok_step c t = Some (t\<lparr>t_state := PARSE_ARG, t_cur := [c]\<rparr>)"
      using assms(1) plain_not [of c] None by (simp add: tok_step.simps plain_def)
    then show ?thesis unfolding w using Cons None feed_escaped [of "t\<lparr>t_state := PARSE_ARG, t_cur := [c]\<rparr>" cs u] by simp
  next
    case (Some v)
    have s1: "tok_step backslash t = Some (t\<lparr>t_state := PARSE_ESCAPE, t_cur := []\<rparr>)"
      using assms(1) backslash_not by (simp add: tok_step.simps)
    have s2: "tok_step v (t\<lparr>t_state := PARSE_ESCAPE, t_cur := []\<rparr>) = Some (t\<lparr>t_state := PARSE_ARG, t_cur := [c]\<rparr>)"
      using escape_unescape [OF Some] by (simp add: tok_step.simps tok_put_def)
    show ?thesis unfolding w
      using Cons Some s1 s2 feed_escaped [of "t\<lparr>t_state := PARSE_ARG, t_cur := [c]\<rparr>" cs u] by simp
  qed
qed

lemma feed_name:
  assumes "plain_name s"
  shows "feed tok_init (s @ u) = feed (tok_init\<lparr>t_state := PARSE_COMMAND, t_cur := s\<rparr>) u"
proof -
  obtain c cs where s: "s = c # cs" "is_type c" "\<forall>x \<in> set cs. plain x \<and> x \<noteq> CHR ''[''"
    using assms by (auto simp: plain_name_def split: list.splits)
  have run: "feed t (cs @ u) = feed (t\<lparr>t_cur := t_cur t @ cs\<rparr>) u" if "t_state t = PARSE_COMMAND" for t
    using that s(3)
  proof (induction cs arbitrary: t)
    case (Cons x xs)
    have "tok_step x t = Some (tok_put x t)"
      using Cons.prems plain_not [of x] by (simp add: tok_step.simps)
    then show ?case using Cons by (simp add: tok_put_def)
  qed simp
  have "tok_step c tok_init = Some (tok_init\<lparr>t_state := PARSE_COMMAND, t_cur := [c]\<rparr>)"
    using s(2) by (simp add: tok_step.simps tok_init_def)
  then show ?thesis using run [of "tok_init\<lparr>t_state := PARSE_COMMAND, t_cur := [c]\<rparr>"] s(1) by simp
qed

lemma feed_rest:
  assumes "t_state t = PARSE_COMMAND \<or> t_state t = PARSE_ARG" "list_all2 readable_arg es ts"
  shows "feed t (wire_from (map2 arg_wire es ts) @ u) =
    (case feed tok_init u of (ms, r) \<Rightarrow> ((t_args t @ [t_cur t] @ ts, t_tag t) # ms, r))"
  using assms(2,1)
proof (induction es ts arbitrary: t rule: list_all2_induct)
  case Nil
  have "tok_step (CHR 0x0A) t = Some (tok_end PARSE_DONE t)"
    using Nil by (auto simp: tok_step.simps is_ws_def is_eol_def)
  then show ?case by (simp add: tok_end_def split: prod.split)
next
  case (Cons e es s ts)
  have "tok_step (CHR '' '') t = Some (tok_end PARSE_WHITESPACE t)"
    using Cons.prems by (auto simp: tok_step.simps is_ws_def)
  then have "feed t (CHR '' '' # arg_wire e s @ wire_from (map2 arg_wire es ts) @ u) =
      feed (tok_end PARSE_WHITESPACE t) (arg_wire e s @ wire_from (map2 arg_wire es ts) @ u)"
    by (simp add: tok_end_def)
  also have "\<dots> = feed ((tok_end PARSE_WHITESPACE t)\<lparr>t_state := PARSE_ARG, t_cur := s\<rparr>) (wire_from (map2 arg_wire es ts) @ u)"
    using Cons.hyps(1) by (intro feed_arg) (simp_all add: tok_end_def)
  also have "\<dots> = (case feed tok_init u of (ms, r) \<Rightarrow> ((t_args t @ [t_cur t] @ s # ts, t_tag t) # ms, r))"
    using Cons.IH [of "(tok_end PARSE_WHITESPACE t)\<lparr>t_state := PARSE_ARG, t_cur := s\<rparr>"] by (simp add: tok_end_def)
  finally show ?case by simp
qed

definition readable :: "nat list \<Rightarrow> string list \<Rightarrow> bool" where
  "readable es ts \<longleftrightarrow> length es = length ts \<and> ts \<noteq> [] \<and> plain_name (hd ts) \<and> list_all2 readable_arg (tl es) (tl ts)"

lemma plain_type: "is_type c \<Longrightarrow> plain c"
  by (auto simp: is_type_def plain_def escape_char_def backslash_def)

lemma arg_wire_name: "plain_name s \<Longrightarrow> arg_wire e s = s"
  using escape_plain [of s] plain_type by (auto simp: plain_name_def arg_wire_def split: list.splits)

lemma feed_text:
  assumes "readable es ts"
  shows "feed tok_init (text_of es ts @ u) = (case feed tok_init u of (ms, r) \<Rightarrow> ((ts, -1) # ms, r))"
proof -
  obtain e es' s ts' where l: "es = e # es'" "ts = s # ts'"
    using assms by (cases es; cases ts) (auto simp: readable_def)
  have n: "plain_name s" "list_all2 readable_arg es' ts'" using assms l by (simp_all add: readable_def)
  have "text_of es ts = s @ wire_from (map2 arg_wire es' ts')"
    using l arg_wire_name [OF n(1)] by (simp add: text_of_def)
  then show ?thesis
    using feed_name [OF n(1)] feed_rest [OF _ n(2), of "tok_init\<lparr>t_state := PARSE_COMMAND, t_cur := s\<rparr>" u] l(2)
    by (simp add: tok_init_def split: prod.splits)
qed

text \<open>Numbers come through unchanged.\<close>

lemma digit_plain:
  assumes "is_digit 16 c"
  shows "plain c"
proof (rule ccontr)
  assume "\<not> plain c"
  then have "c = CHR 27 \<or> c = CHR 0x0A \<or> c = CHR 0x0D \<or> c = nul \<or> c = backslash \<or> c = CHR '' '' \<or> c = CHR 0x09"
    by (simp add: plain_def escape_char_def split: if_splits)
  moreover have "\<not> is_digit 16 (CHR 27)" "\<not> is_digit 16 (CHR 0x0A)" "\<not> is_digit 16 (CHR 0x0D)" "\<not> is_digit 16 nul"
    "\<not> is_digit 16 backslash" "\<not> is_digit 16 (CHR '' '')" "\<not> is_digit 16 (CHR 0x09)"
    by (simp_all add: is_digit_def digit_val_def backslash_def)
  ultimately show False using assms by blast
qed

lemma digit10_16: "is_digit 10 c \<Longrightarrow> is_digit 16 c"
  by (auto simp: is_digit_def split: option.splits)

lemma number_plain:
  "\<forall>x \<in> set (dec_of_nat n). plain x" "\<forall>x \<in> set (dec_of_int i). plain x" "\<forall>x \<in> set (''0x'' @ hex_of_nat n). plain x"
proof -
  show d: "\<forall>x \<in> set (dec_of_nat n). plain x" for n
    using dec_of_nat_digits [of n] digit10_16 digit_plain by blast
  show "\<forall>x \<in> set (dec_of_int i). plain x"
    using d by (auto simp: dec_of_int_def plain_def escape_char_def backslash_def)
  show "\<forall>x \<in> set (''0x'' @ hex_of_nat n). plain x"
    using hex_of_nat_digits [of n] digit_plain by (auto simp: plain_def escape_char_def backslash_def)
qed

lemma value_readable: "value_arg fl v = Some (e, t) \<Longrightarrow> readable_arg e t"
  using number_plain
  by (auto simp: value_arg_def Let_def readable_arg_def split: send_value.splits if_splits option.splits)

lemma proper_values: "proper_list b args \<Longrightarrow> x \<in> set args \<Longrightarrow> value_arg (fst x) (snd x) \<noteq> None"
  by (induction b args rule: proper_list.induct) auto

lemma list_readable:
  assumes "proper_list True args" "plain_name (snd (hd (list_args args)))"
  shows "readable (map fst (list_args args)) (map snd (list_args args))"
proof -
  have all: "readable_arg (fst y) (snd y)" if mem: "y \<in> set (list_args args)" for y
  proof -
    obtain fl v where x: "(fl, v) \<in> set args" "y = the (value_arg fl v)"
      using mem by (auto simp: list_args_def)
    have "value_arg fl v \<noteq> None" using proper_values [OF assms(1) x(1)] by simp
    then obtain e t where "value_arg fl v = Some (e, t)" by auto
    then show ?thesis using value_readable x(2) by simp
  qed
  obtain y ys where y: "list_args args = y # ys"
    using assms(1) by (cases args) (auto simp: list_args_def)
  have "list_all2 readable_arg (map fst ys) (map snd ys)"
    using all y by (simp add: list_all2_conv_all_nth)
  then show ?thesis using y assms(2) by (simp add: readable_def)
qed

section \<open>Both ends\<close>

text \<open>Messages sent one after the other.\<close>

fun send_all :: "(nat \<Rightarrow> bool) \<Rightarrow> line \<Rightarrow> (flags \<times> send_value) list list \<Rightarrow> store \<Rightarrow> (int \<times> line \<times> store) res" where
  "send_all mem l [] s = Inr (0, l, s)"
| "send_all mem l (c # cs) s =
     bind_res (send_katcl mem l c s) (\<lambda>(r, l1, s1). if r < 0 then Inr (r, l1, s1) else send_all mem l1 cs s1)"

definition call_args :: "(flags \<times> send_value) list \<Rightarrow> string list" where
  "call_args args = map snd (list_args args)"

definition wire_text :: "(flags \<times> send_value) list \<Rightarrow> string" where
  "wire_text args = text_of (map fst (list_args args)) (call_args args)"

definition good_call :: "(flags \<times> send_value) list \<Rightarrow> bool" where
  "good_call args \<longleftrightarrow> proper_list True args \<and> plain_name (snd (hd (list_args args)))"

lemma send_all_ok:
  assumes "line_ok s l F" "out_ok False l s" "l_stage l = None" "\<forall>c \<in> set calls. good_call c" "\<forall>i. mem i"
  shows "\<exists>l' s'. send_all mem l calls s = Inr (0, l', s') \<and> line_ok s' l' F \<and> out_ok False l' s' \<and>
    line_wire l' s' = line_wire l s @ concat (map wire_text calls)"
  using assms
proof (induction calls arbitrary: l s)
  case (Cons c cs)
  have g: "proper_list True c" "snd (hd (list_args c)) \<noteq> []"
    using Cons.prems(4) by (auto simp: good_call_def plain_name_def split: list.splits)
  obtain l1 s1 where l1: "send_katcl mem l c s = Inr (0, l1, s1)" "line_ok s1 l1 F" "out_ok False l1 s1" "l_stage l1 = None"
      "line_wire l1 s1 = line_wire l s @ wire_text c"
    using send_list_ok [OF Cons.prems(1-3) g(1) Cons.prems(5) g(2)] by (auto simp: call_args_def wire_text_def)
  obtain l' s' where "send_all mem l1 cs s1 = Inr (0, l', s')" "line_ok s' l' F" "out_ok False l' s'"
      "line_wire l' s' = line_wire l1 s1 @ concat (map wire_text cs)"
    using Cons.IH [OF l1(2-4) _ Cons.prems(5)] Cons.prems(4) by auto
  with l1(1,5) show ?case by simp
qed simp

lemma feed_texts:
  assumes "\<forall>c \<in> set calls. good_call c"
  shows "feed tok_init (concat (map wire_text calls)) =
    (map (\<lambda>c. (call_args c, -1)) calls, Some tok_init)"
  using assms
proof (induction calls)
  case (Cons c cs)
  have "readable (map fst (list_args c)) (call_args c)"
    using Cons.prems list_readable [of c] by (simp add: good_call_def call_args_def)
  from feed_text [OF this] Cons show ?case by (simp add: wire_text_def)
qed simp

section \<open>Properties\<close>

text \<open>C1. What one end sends is what the other end receives. Messages given to \<open>send_katcl\<close> one
  after the other on a new connection, written by \<open>write_katcl\<close> through a kernel that takes
  any part of what it is offered, and read by \<open>read_katcl\<close> on a line at the other end from a
  kernel that hands those bytes over in any pieces, are delivered there once each, in order and
  with their arguments, as soon as the kernel has given way as often as there are bytes. All
  allocations are taken to succeed.\<close>

theorem end_to_end:
  assumes "refs_ok s F" "refs_ok t G" "\<forall>c \<in> set calls. good_call c" "\<forall>i. mem i"
    "kernel_ok io" "\<forall>k n e. io k n \<noteq> Send_error e"
    "length (concat (map wire_text calls)) < m" "length (concat (map wire_text calls)) \<le> reads cs"
  shows "\<exists>l s1 l' s' n w. create_katcl (\<lambda>_. True) fd s = Inr (Some l, s1) \<and>
    send_all mem l calls s1 = Inr (0, l', s') \<and> write_katcl io n l' s' = Inr (Some (1, w)) \<and>
    w_sent w = concat (map wire_text calls) \<and>
    (\<exists>r t1 r' t'. create_katcl (\<lambda>_. True) fd' t = Inr (Some r, t1) \<and>
      serve mem m cs (w_sent w) r t1 = Inr (map (\<lambda>c. (call_args c, -1)) calls, [], 0, r', t'))"
proof -
  obtain s1 where s1: "create_katcl (\<lambda>_. True) fd s = Inr (Some (fresh_line fd (st_fresh s)), s1)"
    "line_ok s1 (fresh_line fd (st_fresh s)) F"
    using create_line_ok [OF assms(1)] by blast
  obtain l' s' where l': "send_all mem (fresh_line fd (st_fresh s)) calls s1 = Inr (0, l', s')" "line_ok s' l' F" "out_ok False l' s'"
    "line_wire l' s' = concat (map wire_text calls)"
    using send_all_ok [OF s1(2) fresh_output(1,3) assms(3,4)] fresh_output(2) by auto
  obtain v w where w: "write_katcl io (Suc (rounds (write_start l' s'))) l' s' = Inr (Some (v, w))" "run_result F io (write_start l' s') v w"
    using write_loop_ok [OF assms(5) _ winv_start(1) [OF l'(2,3)] lessI] assms(6) unfolding write_katcl_def by blast
  have v: "v = 1" "w_sent w = line_wire l' s'"
    using run_result_out [OF l'(2,3) w(2)] assms(6) by (auto simp: bytes_out_def)
  obtain t1 where t1: "create_katcl (\<lambda>_. True) fd' t = Inr (Some (fresh_line fd' (st_fresh t)), t1)"
    "line_ok t1 (fresh_line fd' (st_fresh t)) G" "next_view t1 (fresh_line fd' (st_fresh t)) tok_init []"
    using create_line_ok [OF assms(2)] by blast
  let ?b = "concat (map wire_text calls)" and ?r = "fresh_line fd' (st_fresh t)"
  have f: "feed tok_init ?b = (map (\<lambda>c. (call_args c, -1)) calls, Some tok_init)" by (rule feed_texts [OF assms(3)])
  have "served ?r G t1 tok_init ?b (reads cs) (serve mem m cs ?b ?r t1)"
    by (rule serve_ok [OF t1(2,3) assms(4) _ assms(7)]) (simp add: tok_init_def)
  then obtain ms got left r r' t' where k: "serve mem m cs ?b ?r t1 = Inr (ms, left, r, r', t')" "?b = got @ left"
      "ms = fst (feed tok_init got)"
      "case snd (feed tok_init got) of None \<Rightarrow> r = -1
       | Some t'' \<Rightarrow> r = 0 \<and> next_view t' r' t'' [] \<and> (length ?b \<le> reads cs \<longrightarrow> left = [])"
    unfolding served_def by blast
  have "snd (feed tok_init got) \<noteq> None"
  proof
    assume "snd (feed tok_init got) = None"
    then have "snd (feed tok_init ?b) = None" using feed_append [of tok_init got left] unfolding k(2) by (simp add: split_beta)
    then show False unfolding f by simp
  qed
  then have z: "r = 0" "left = []" using k(4) assms(8) by auto
  then have "ms = map (\<lambda>c. (call_args c, -1)) calls" using k(2,3) f by simp
  then have "serve mem m cs (w_sent w) ?r t1 = Inr (map (\<lambda>c. (call_args c, -1)) calls, [], 0, r', t')"
    using k(1) z unfolding v(2) l'(4) by simp
  with s1(1) l'(1,4) w(1) v t1(1) show ?thesis by metis
qed

theorem end_to_end_witness:
  "\<exists>r t1 r' t'. create_katcl (\<lambda>_. True) 4 empty_store = Inr (Some r, t1) \<and>
    serve (\<lambda>_. True) 20 (replicate 16 (Some 4)) (''?set -5 a'' @ [backslash] @ ''_b'' @ [CHR 0x0A]) r t1 =
      Inr ([([''?set'', ''-5'', ''a b''], -1)], [], 0, r', t')"
proof -
  let ?b = "''?set -5 a'' @ [backslash] @ ''_b'' @ [CHR 0x0A]"
  have d: "dec_of_int (-5) = ''-5''" by code_simp
  have g: "\<forall>c \<in> set [sample_list]. good_call c"
    using sample_list_proper by (simp add: good_call_def sample_list_args plain_name_def is_type_def plain_def escape_char_def backslash_def)
  have k: "kernel_ok (\<lambda>k n. Sent 1)" by (simp add: kernel_ok_def)
  have a: "call_args sample_list = [''?set'', ''-5'', ''a b'']"
    by (simp add: call_args_def sample_list_args d)
  have t: "concat (map wire_text [sample_list]) = ?b"
    by (simp add: wire_text_def a) (simp add: sample_list_args text_of_def arg_wire_def escape_char_def backslash_def)
  have n: "length (concat (map wire_text [sample_list])) < 20"
    "length (concat (map wire_text [sample_list])) \<le> reads (replicate 16 (Some 4))"
    unfolding t by (simp_all add: reads_def)
  from end_to_end [OF empty_store_ok empty_store_ok g _ k _ n, of "\<lambda>_. True" 3 4] a
  show ?thesis unfolding t by fastforce
qed

end
