(* ===== verification/Timer_Heap.thy ===== *)
theory Timer_Heap
  imports Katcp_Base Interfaces
begin

text \<open>
  The priority queue behind the timers (\<open>katcp/heap.c\<close>): a binary heap in a growing array
  of nodes, ordered by a callback, where every node knows its position. The lemmas show
  that the loops that move a node up and down restore the order of the heap wherever it
  was disturbed, and that the operations are those of a priority queue.
\<close>

section \<open>State\<close>

text \<open>A node belongs to its slot of the array alone, so it is kept there by value; a slot
  is \<open>None\<close> when it holds a null pointer. The callback \<open>h_min_cmp\<close> looks at data that
  change while they are in the heap, and is an argument of the operations that call it.\<close>

record 'a hnode =
  n_index :: int
  n_data :: 'a

record 'a heap =
  h_size :: nat
  h_array :: "'a hnode option list"

definition init_heap :: "bool \<Rightarrow> 'a heap option" where
  \<comment> \<open>the argument is the success of \<open>malloc\<close>; the callback is there\<close>
  "init_heap ok = (if ok then Some \<lparr>h_size = 0, h_array = []\<rparr> else None)"

text \<open>Reading a slot of the array through its pointer.\<close>

definition slot :: "'a heap \<Rightarrow> nat \<Rightarrow> 'a hnode option res" where
  "slot h i = (if i < length (h_array h) then Inr (h_array h ! i) else Inl OutOfBounds)"

definition node_at :: "'a heap \<Rightarrow> nat \<Rightarrow> 'a hnode res" where
  "node_at h i =
     bind_res (slot h i) (\<lambda>n. case n of None \<Rightarrow> Inl NullDeref | Some x \<Rightarrow> Inr x)"

definition put_slot :: "nat \<Rightarrow> 'a hnode option \<Rightarrow> 'a heap \<Rightarrow> 'a heap" where
  "put_slot i n h = h\<lparr>h_array := (h_array h)[i := n]\<rparr>"

section \<open>Operations\<close>

text \<open>Destroying the heap frees its nodes, of which there is one per slot; the data stay
  with their owners. The result counts the nodes freed.\<close>

fun destroy_nodes :: "'a hnode option list \<Rightarrow> nat" where
  "destroy_nodes [] = 0"
| "destroy_nodes (n # ns) = (if n = None then 0 else 1) + destroy_nodes ns"

definition destroy_heap :: "'a heap option \<Rightarrow> nat res" where
  "destroy_heap ho =
     (case ho of
        None \<Rightarrow> Inr 0
      | Some h \<Rightarrow>
          if h_size h \<le> length (h_array h) then Inr (destroy_nodes (take (h_size h) (h_array h)))
          else Inl OutOfBounds)"

definition get_data_ref_by_index_heap :: "'a heap option \<Rightarrow> int \<Rightarrow> 'a option res" where
  "get_data_ref_by_index_heap ho index =
     (case ho of
        None \<Rightarrow> Inr None
      | Some h \<Rightarrow>
          if index < 0 \<or> index \<ge> int (h_size h) then Inr None
          else bind_res (node_at h (nat index)) (\<lambda>n. Inr (Some (n_data n))))"

definition get_size_of_heap :: "'a heap option \<Rightarrow> nat" where
  "get_size_of_heap ho = (case ho of None \<Rightarrow> 0 | Some h \<Rightarrow> h_size h)"

definition grow_by_one_heap :: "bool \<Rightarrow> 'a heap \<Rightarrow> int \<times> 'a heap" where
  "grow_by_one_heap ok h =
     (if \<not> ok then (-1, h)
      else (int (h_size h),
            h\<lparr>h_array := take (h_size h) (h_array h) @ [None], h_size := h_size h + 1\<rparr>))"

definition create_node_heap :: "bool \<Rightarrow> 'a \<Rightarrow> 'a hnode option" where
  \<comment> \<open>with the data that the caller puts into it\<close>
  "create_node_heap ok d = (if ok then Some \<lparr>n_index = -1, n_data = d\<rparr> else None)"

definition swap_nodes_heap :: "nat \<Rightarrow> nat \<Rightarrow> 'a heap \<Rightarrow> (int \<times> 'a heap) res" where
  "swap_nodes_heap a b h =
     (if a \<ge> h_size h then Inr (-1, h)
      else if b \<ge> h_size h then Inr (-1, h)
      else if a = b then Inr (0, h)
      else bind_res (node_at h a) (\<lambda>alpha.
           bind_res (node_at h b) (\<lambda>beta.
           Inr (0, put_slot b (Some (alpha\<lparr>n_index := n_index beta\<rparr>))
                     (put_slot a (Some (beta\<lparr>n_index := n_index alpha\<rparr>)) h)))))"

definition parent :: "nat \<Rightarrow> nat" where "parent i = (i - 1) div 2"
definition left_child :: "nat \<Rightarrow> nat" where "left_child i = 2 * i + 1"
definition right_child :: "nat \<Rightarrow> nat" where "right_child i = 2 * i + 2"

lemma bind_res_cong [fundef_cong]:
  "r = r' \<Longrightarrow> (\<And>x. r' = Inr x \<Longrightarrow> f x = g x) \<Longrightarrow> bind_res r f = bind_res r' g"
  by (cases r') simp_all

text \<open>The loop of \<open>cascade_up_heap\<close>, entered with a position that is not the root.\<close>

function cascade_up_loop :: "('a \<Rightarrow> 'a \<Rightarrow> bool) \<Rightarrow> nat \<Rightarrow> 'a heap \<Rightarrow> 'a heap res" where
  "cascade_up_loop cmp child h =
     bind_res (node_at h child) (\<lambda>c.
     bind_res (node_at h (parent child)) (\<lambda>p.
     if cmp (n_data c) (n_data p) then
       bind_res (swap_nodes_heap (parent child) child h) (\<lambda>(_, h1).
       if parent child < 1 then Inr h1 else cascade_up_loop cmp (parent child) h1)
     else Inr h))"
  by pat_completeness auto
termination by (relation "measure (\<lambda>(cmp, i, h). i)") (auto simp: parent_def)

declare cascade_up_loop.simps [simp del]

definition cascade_up_heap :: "('a \<Rightarrow> 'a \<Rightarrow> bool) \<Rightarrow> nat \<Rightarrow> 'a heap \<Rightarrow> (int \<times> 'a heap) res" where
  "cascade_up_heap cmp start h =
     (if h_size h < 2 then Inr (0, h)
      else if start < 1 then Inr (0, h)
      else if start > h_size h - 1 then Inr (-1, h)
      else bind_res (cascade_up_loop cmp start h) (\<lambda>h1. Inr (0, h1)))"

function cascade_down_loop :: "('a \<Rightarrow> 'a \<Rightarrow> bool) \<Rightarrow> nat \<Rightarrow> 'a heap \<Rightarrow> 'a heap res" where
  "cascade_down_loop cmp par h =
     (if left_child par \<ge> h_size h then Inr h
      else
        bind_res
          (if right_child par \<ge> h_size h then Inr (left_child par, False)
           else bind_res (node_at h (left_child par)) (\<lambda>l.
                bind_res (node_at h (right_child par)) (\<lambda>r.
                Inr (if cmp (n_data l) (n_data r) then left_child par else right_child par, True))))
          (\<lambda>(child, run).
        bind_res (node_at h child) (\<lambda>c.
        bind_res (node_at h par) (\<lambda>p.
        if cmp (n_data c) (n_data p) then
          bind_res (swap_nodes_heap child par h) (\<lambda>(_, h1).
          if run then cascade_down_loop cmp child h1 else Inr h1)
        else Inr h))))"
  by pat_completeness auto
termination
  by (relation "measure (\<lambda>(cmp, i, h). h_size h - i)")
    (auto simp: left_child_def right_child_def swap_nodes_heap_def put_slot_def bind_res_Inr_iff split: if_splits)

declare cascade_down_loop.simps [simp del]

definition cascade_down_heap :: "('a \<Rightarrow> 'a \<Rightarrow> bool) \<Rightarrow> nat \<Rightarrow> 'a heap \<Rightarrow> (int \<times> 'a heap) res" where
  "cascade_down_heap cmp start h =
     (if h_size h < 2 then Inr (0, h)
      else if start \<ge> h_size h then Inr (-1, h)
      else bind_res (cascade_down_loop cmp start h) (\<lambda>h1. Inr (0, h1)))"

text \<open>One datum of \<open>add_to_heap\<close>; the two booleans are the growth of the array and the new
  node. The data given are never null.\<close>

definition va_add_to_heap ::
  "('a \<Rightarrow> 'a \<Rightarrow> bool) \<Rightarrow> bool \<times> bool \<Rightarrow> 'a \<Rightarrow> 'a heap \<Rightarrow> (int \<times> 'a heap) res" where
  "va_add_to_heap cmp m d h =
     (case grow_by_one_heap (fst m) h of (index, h1) \<Rightarrow>
        if index = -1 then Inr (-1, h1)
        else case create_node_heap (snd m) d of
          None \<Rightarrow> Inr (-1, h1)
        | Some n \<Rightarrow>
            bind_res (cascade_up_heap cmp (h_size h1 - 1) (put_slot (nat index) (Some (n\<lparr>n_index := index\<rparr>)) h1))
              (\<lambda>(_, h2). Inr (index, h2)))"

fun add_all :: "('a \<Rightarrow> 'a \<Rightarrow> bool) \<Rightarrow> (bool \<times> bool) list \<Rightarrow> 'a list \<Rightarrow> 'a heap \<Rightarrow> 'a heap res" where
  "add_all cmp ms [] h = Inr h"
| "add_all cmp ms (d # ds) h =
     bind_res (va_add_to_heap cmp (case ms of [] \<Rightarrow> (True, True) | m # _ \<Rightarrow> m) d h) (\<lambda>(_, h1).
     add_all cmp (tl ms) ds h1)"

definition add_to_heap ::
  "('a \<Rightarrow> 'a \<Rightarrow> bool) \<Rightarrow> (bool \<times> bool) list \<Rightarrow> 'a list \<Rightarrow> 'a heap option \<Rightarrow> (int \<times> 'a heap option) res" where
  "add_to_heap cmp ms ds ho =
     (case ho of
        None \<Rightarrow> Inr (-1, None)
      | Some h \<Rightarrow> if ds = [] then Inr (-1, Some h)
                  else bind_res (add_all cmp ms ds h) (\<lambda>h1. Inr (0, Some h1)))"

definition set_data :: "nat \<Rightarrow> 'a \<Rightarrow> 'a heap \<Rightarrow> 'a heap res" where
  "set_data i d h = bind_res (node_at h i) (\<lambda>n. Inr (put_slot i (Some (n\<lparr>n_data := d\<rparr>)) h))"

definition update_node_on_heap ::
  "('a \<Rightarrow> 'a \<Rightarrow> bool) \<Rightarrow> int \<Rightarrow> 'a \<Rightarrow> 'a heap option \<Rightarrow> (int \<times> 'a heap option) res" where
  "update_node_on_heap cmp index d ho =
     (case ho of
        None \<Rightarrow> Inr (-1, None)
      | Some h \<Rightarrow>
          if index < 0 \<or> index \<ge> int (h_size h) then Inr (-1, Some h)
          else bind_res (set_data (nat index) d h) (\<lambda>h1.
               bind_res (cascade_up_heap cmp (nat index) h1) (\<lambda>(r1, h2).
               bind_res (cascade_down_heap cmp (nat index) h2) (\<lambda>(r2, h3). Inr (r1 + r2, Some h3)))))"

definition update_top_of_heap ::
  "('a \<Rightarrow> 'a \<Rightarrow> bool) \<Rightarrow> 'a \<Rightarrow> 'a heap option \<Rightarrow> (int \<times> 'a heap option) res" where
  "update_top_of_heap cmp d ho =
     (case ho of
        None \<Rightarrow> Inr (-1, None)
      | Some h \<Rightarrow>
          bind_res (set_data 0 d h) (\<lambda>h1.
          bind_res (cascade_down_heap cmp 0 h1) (\<lambda>(_, h2). Inr (0, Some h2))))"

definition get_top_of_heap :: "'a heap option \<Rightarrow> 'a option res" where
  "get_top_of_heap ho =
     (case ho of
        None \<Rightarrow> Inr None
      | Some h \<Rightarrow>
          if h_size h = 0 then Inr None
          else bind_res (node_at h 0) (\<lambda>n. Inr (Some (n_data n))))"

definition remove_top_of_heap ::
  "('a \<Rightarrow> 'a \<Rightarrow> bool) \<Rightarrow> 'a heap option \<Rightarrow> ('a option \<times> 'a heap option) res" where
  "remove_top_of_heap cmp ho =
     (case ho of
        None \<Rightarrow> Inr (None, None)
      | Some h \<Rightarrow>
          if h_size h = 0 then Inr (None, Some h)
          else
            bind_res (node_at h 0) (\<lambda>top.
            let last_node = (if h_size h = 1 then 0 else h_size h - 1) in
            bind_res (if h_size h = 1 then Inr (0, h) else swap_nodes_heap 0 last_node h) (\<lambda>(r, h1).
            if r \<noteq> 0 then Inr (None, Some h1)
            else bind_res (slot h1 last_node) (\<lambda>n.
              if n = None then Inr (None, Some h1)
              else bind_res (cascade_down_heap cmp 0 ((put_slot last_node None h1)\<lparr>h_size := h_size h1 - 1\<rparr>))
                     (\<lambda>(_, h2). Inr (Some (n_data top), Some h2))))))"

section \<open>The order of a heap\<close>

text \<open>On the list of the data. \<open>heap_at\<close> is the order between a position and its parent.\<close>

definition edge :: "('a \<Rightarrow> 'k::linorder) \<Rightarrow> 'a list \<Rightarrow> nat \<Rightarrow> bool" where
  "edge key xs i \<longleftrightarrow> key (xs ! parent i) \<le> key (xs ! i)"

definition heap_ordered :: "('a \<Rightarrow> 'k::linorder) \<Rightarrow> 'a list \<Rightarrow> bool" where
  "heap_ordered key xs \<longleftrightarrow> (\<forall>i. 0 < i \<and> i < length xs \<longrightarrow> edge key xs i)"

text \<open>Ordered but for the edges above, or below, a position; from the position's parent to
  its children the order holds.\<close>

definition bridge :: "('a \<Rightarrow> 'k::linorder) \<Rightarrow> 'a list \<Rightarrow> nat \<Rightarrow> bool" where
  "bridge key xs j \<longleftrightarrow> (0 < j \<longrightarrow> (\<forall>i. i < length xs \<and> 0 < i \<and> parent i = j \<longrightarrow> key (xs ! parent j) \<le> key (xs ! i)))"

definition ordered_but :: "bool \<Rightarrow> bool \<Rightarrow> ('a \<Rightarrow> 'k::linorder) \<Rightarrow> 'a list \<Rightarrow> nat \<Rightarrow> bool" where
  "ordered_but up dn key xs j \<longleftrightarrow> bridge key xs j \<and>
     (\<forall>i. 0 < i \<and> i < length xs \<longrightarrow> (up \<and> i = j) \<or> (dn \<and> parent i = j) \<or> edge key xs i)"

definition swap :: "nat \<Rightarrow> nat \<Rightarrow> 'a list \<Rightarrow> 'a list" where
  "swap a b xs = xs[a := xs ! b, b := xs ! a]"

lemma length_swap [simp]: "length (swap a b xs) = length xs"
  by (simp add: swap_def)

lemma mset_swap_list [simp]: "a < length xs \<Longrightarrow> b < length xs \<Longrightarrow> mset (swap a b xs) = mset xs"
  by (simp add: swap_def mset_swap)

lemma parent_less: "0 < i \<Longrightarrow> parent i < i"
  by (simp add: parent_def)

lemma parent_children: "parent i = j \<and> 0 < i \<longleftrightarrow> i = left_child j \<or> i = right_child j"
  by (auto simp: parent_def left_child_def right_child_def)

lemma ordered_but_none: "ordered_but False False key xs j \<Longrightarrow> heap_ordered key xs"
  by (simp add: ordered_but_def heap_ordered_def)

lemma heap_ordered_top: "heap_ordered key xs \<Longrightarrow> i < length xs \<Longrightarrow> key (xs ! 0) \<le> key (xs ! i)"
proof (induction i rule: less_induct)
  case (less i)
  show ?case
  proof (cases "i = 0")
    case False
    then have "parent i < i" by (simp add: parent_less)
    with less False have "key (xs ! 0) \<le> key (xs ! parent i)" "edge key xs i"
      by (auto simp: heap_ordered_def)
    then show ?thesis by (simp add: edge_def)
  qed simp
qed

lemma swap_nth:
  "a < length xs \<Longrightarrow> b < length xs \<Longrightarrow> swap a b xs ! i = (if i = b then xs ! a else if i = a then xs ! b else xs ! i)"
  by (simp add: swap_def nth_list_update)

lemma swap_up:
  assumes "ordered_but True dn key xs j" "0 < j" "j < length xs" "key (xs ! j) < key (xs ! parent j)"
  shows "ordered_but True False key (swap (parent j) j xs) (parent j)"
proof -
  let ?p = "parent j" and ?ys = "swap (parent j) j xs"
  have p: "?p < j" using parent_less [OF assms(2)] .
  note nth = swap_nth [of ?p xs j, OF less_trans [OF p assms(3)] assms(3)]
  have old: "edge key xs i" if "0 < i" "i < length xs" "i \<noteq> j" "parent i \<noteq> j" for i
    using assms(1) that by (auto simp: ordered_but_def)
  have siblings: "key (xs ! ?p) \<le> key (xs ! i)" if "0 < i" "i < length xs" "i \<noteq> j" "parent i = ?p" for i
    using old [of i] that p by (simp add: edge_def)
  have "bridge key ?ys ?p"
    unfolding bridge_def
  proof (intro impI allI; elim conjE)
    fix i assume h: "0 < ?p" "i < length ?ys" "0 < i" "parent i = ?p"
    have pp: "parent ?p < ?p" using parent_less [OF h(1)] .
    have "key (xs ! parent ?p) \<le> key (xs ! ?p)"
      using old [of ?p] h(1) p pp assms(3) by (simp add: edge_def)
    moreover have "i \<noteq> ?p" using h(3,4) parent_less [of i] by auto
    ultimately show "key (?ys ! parent ?p) \<le> key (?ys ! i)"
      using siblings [of i] h p pp by (auto simp: nth)
  qed
  moreover have "edge key ?ys i" if i: "0 < i" "i < length xs" "i \<noteq> ?p" for i
  proof -
    consider "i = j" | "i \<noteq> j" "parent i = ?p" | "parent i = j" | "i \<noteq> j" "parent i \<noteq> ?p" "parent i \<noteq> j" by blast
    then show ?thesis
    proof cases
      case 1
      then show ?thesis using p assms(4) by (simp add: edge_def nth)
    next
      case 2
      then show ?thesis using siblings [of i] i p assms(4) by (simp add: edge_def nth)
    next
      case 3
      then have "key (xs ! ?p) \<le> key (xs ! i)" "i \<noteq> j"
        using assms(1,2) i parent_less [of i] by (auto simp: ordered_but_def bridge_def)
      then show ?thesis using 3 i by (simp add: edge_def nth)
    next
      case 4
      then show ?thesis using old [of i] i by (simp add: edge_def nth)
    qed
  qed
  ultimately show ?thesis by (auto simp: ordered_but_def)
qed

lemma swap_down:
  assumes "ordered_but False True key xs j" "parent c = j" "0 < c" "c < length xs" "key (xs ! c) < key (xs ! j)"
    and least: "\<And>i. 0 < i \<Longrightarrow> i < length xs \<Longrightarrow> parent i = j \<Longrightarrow> key (xs ! c) \<le> key (xs ! i)"
  shows "ordered_but False True key (swap c j xs) c"
proof -
  let ?ys = "swap c j xs"
  have j: "j < c" using parent_less [OF assms(3)] assms(2) by simp
  note nth = swap_nth [of c xs j, OF assms(4) less_trans [OF j assms(4)]]
  have old: "edge key xs i" if "0 < i" "i < length xs" "parent i \<noteq> j" for i
    using assms(1) that by (auto simp: ordered_but_def)
  have "bridge key ?ys c"
    unfolding bridge_def
  proof (intro impI allI; elim conjE)
    fix i assume h: "i < length ?ys" "0 < i" "parent i = c"
    then have "c < i" using parent_less [of i] by simp
    then show "key (?ys ! parent c) \<le> key (?ys ! i)"
      using old [of i] h assms(2) j by (simp add: nth edge_def)
  qed
  moreover have "edge key ?ys i" if i: "0 < i" "i < length xs" "parent i \<noteq> c" for i
  proof -
    have pi: "parent i < i" using parent_less [OF i(1)] .
    consider "i = j" | "i = c" | "i \<noteq> c" "parent i = j" | "i \<noteq> j" "i \<noteq> c" "parent i \<noteq> j" by blast
    then show ?thesis
    proof cases
      case 1
      then have "key (xs ! parent j) \<le> key (xs ! c)"
        using assms(1-4) i by (simp add: ordered_but_def bridge_def)
      then show ?thesis using 1 pi j by (simp add: edge_def nth)
    next
      case 2
      then show ?thesis using assms(2,5) by (simp add: edge_def nth less_imp_le)
    next
      case 3
      then show ?thesis using least [of i] i pi by (simp add: edge_def nth)
    next
      case 4
      then show ?thesis using old [of i] i by (simp add: edge_def nth)
    qed
  qed
  ultimately show ?thesis by (auto simp: ordered_but_def)
qed

section \<open>The array\<close>

definition shaped :: "'a heap \<Rightarrow> bool" where
  "shaped h \<longleftrightarrow> h_size h \<le> length (h_array h) \<and>
     (\<forall>i < h_size h. \<exists>n. h_array h ! i = Some n \<and> n_index n = int i)"

definition hdata :: "'a heap \<Rightarrow> 'a list" where
  "hdata h = map (\<lambda>i. n_data (the (h_array h ! i))) [0..<h_size h]"

lemma length_hdata [simp]: "length (hdata h) = h_size h"
  by (simp add: hdata_def)

lemma node_at_ok:
  assumes "shaped h" "i < h_size h"
  obtains n where "node_at h i = Inr n" "n_data n = hdata h ! i" "n_index n = int i" "h_array h ! i = Some n"
    "i < length (h_array h)"
proof -
  obtain n where n: "h_array h ! i = Some n" "n_index n = int i" "i < length (h_array h)"
    using assms by (auto simp: shaped_def)
  then show thesis using that [of n] assms(2) by (simp add: node_at_def slot_def hdata_def)
qed

lemma swap_nodes_ok:
  assumes "shaped h" "a < h_size h" "b < h_size h"
  shows "\<exists>h'. swap_nodes_heap a b h = Inr (0, h') \<and> shaped h' \<and> hdata h' = swap a b (hdata h) \<and> h_size h' = h_size h"
proof (cases "a = b")
  case True
  then show ?thesis using assms by (simp add: swap_nodes_heap_def swap_def)
next
  case False
  obtain x where x: "node_at h a = Inr x" "n_data x = hdata h ! a" "n_index x = int a" "a < length (h_array h)"
    using node_at_ok [OF assms(1,2)] by metis
  obtain y where y: "node_at h b = Inr y" "n_data y = hdata h ! b" "n_index y = int b" "b < length (h_array h)"
    using node_at_ok [OF assms(1,3)] by metis
  let ?h = "put_slot b (Some (x\<lparr>n_index := n_index y\<rparr>)) (put_slot a (Some (y\<lparr>n_index := n_index x\<rparr>)) h)"
  have "swap_nodes_heap a b h = Inr (0, ?h)"
    using False assms(2,3) x(1) y(1) by (simp add: swap_nodes_heap_def)
  moreover have "shaped ?h"
    using assms x y by (auto simp: shaped_def put_slot_def nth_list_update)
  moreover have "hdata ?h = swap a b (hdata h)"
  proof (rule nth_equalityI)
    fix i assume "i < length (hdata ?h)"
    then have i: "i < h_size h" by (simp add: put_slot_def)
    then have "hdata ?h ! i = n_data (the (h_array ?h ! i))" "hdata h ! i = n_data (the (h_array h ! i))"
      by (simp_all add: hdata_def put_slot_def)
    then show "hdata ?h ! i = swap a b (hdata h) ! i"
      using x y assms(2,3) by (simp add: swap_nth) (simp add: put_slot_def nth_list_update)
  qed (simp add: put_slot_def)
  moreover have "h_size ?h = h_size h" by (simp add: put_slot_def)
  ultimately show ?thesis by blast
qed

section \<open>The loops restore the order\<close>

abbreviation cmp_of :: "('a \<Rightarrow> 'k::linorder) \<Rightarrow> 'a \<Rightarrow> 'a \<Rightarrow> bool" where
  "cmp_of key \<equiv> \<lambda>x y. key x < key y"

definition same_nodes :: "'a heap \<Rightarrow> 'a heap \<Rightarrow> bool" where
  "same_nodes h h' \<longleftrightarrow> shaped h' \<and> h_size h' = h_size h \<and> mset (hdata h') = mset (hdata h)"

lemma same_nodes_trans: "same_nodes h h1 \<Longrightarrow> same_nodes h1 h2 \<Longrightarrow> same_nodes h h2"
  by (simp add: same_nodes_def)

lemma swap_nodes_same:
  assumes "shaped h" "a < h_size h" "b < h_size h"
  shows "\<exists>h'. swap_nodes_heap a b h = Inr (0, h') \<and> same_nodes h h' \<and> hdata h' = swap a b (hdata h)"
  using swap_nodes_ok [OF assms] assms(2,3) by (auto simp: same_nodes_def)

lemma cascade_up_loop_ok:
  assumes "shaped h" "0 < j" "j < h_size h" "ordered_but True dn key (hdata h) j"
  shows "\<exists>h'. cascade_up_loop (cmp_of key) j h = Inr h' \<and> same_nodes h h' \<and>
    (heap_ordered key (hdata h') \<or> h' = h \<and> ordered_but False dn key (hdata h) j)"
  using assms
proof (induction j arbitrary: h dn rule: less_induct)
  case (less j)
  let ?p = "parent j"
  have p: "?p < j" using parent_less [OF less.prems(2)] .
  obtain c where c: "node_at h j = Inr c" "n_data c = hdata h ! j"
    using node_at_ok [OF less.prems(1,3)] by metis
  obtain q where q: "node_at h ?p = Inr q" "n_data q = hdata h ! ?p"
    using node_at_ok [OF less.prems(1) less_trans [OF p less.prems(3)]] by metis
  show ?case
  proof (cases "key (hdata h ! j) < key (hdata h ! ?p)")
    case False
    then have "edge key (hdata h) j" by (simp add: edge_def)
    then have "ordered_but False dn key (hdata h) j"
      using less.prems(4) by (auto simp: ordered_but_def)
    then show ?thesis
      using False c q less.prems(1) by (subst cascade_up_loop.simps) (simp add: same_nodes_def)
  next
    case True
    obtain h1 where h1: "swap_nodes_heap ?p j h = Inr (0, h1)" "same_nodes h h1" "hdata h1 = swap ?p j (hdata h)"
      using swap_nodes_same [OF less.prems(1) less_trans [OF p less.prems(3)] less.prems(3)] by blast
    have o: "ordered_but True False key (hdata h1) ?p"
      using swap_up [OF less.prems(4,2) _ True] less.prems(3) h1(3) by simp
    have step: "cascade_up_loop (cmp_of key) j h = (if ?p < 1 then Inr h1 else cascade_up_loop (cmp_of key) ?p h1)"
      using True c q h1(1) by (subst cascade_up_loop.simps) simp
    show ?thesis
    proof (cases "?p < 1")
      case True
      then have "heap_ordered key (hdata h1)"
        using o by (auto simp: ordered_but_def heap_ordered_def)
      then show ?thesis using step True h1(2) by simp
    next
      case False
      moreover have s: "shaped h1" "?p < h_size h1" using h1(2) p less.prems(3) by (simp_all add: same_nodes_def)
      ultimately obtain h' where "cascade_up_loop (cmp_of key) ?p h1 = Inr h'" "same_nodes h1 h'"
          "heap_ordered key (hdata h') \<or> h' = h1 \<and> ordered_but False False key (hdata h1) ?p"
        using less.IH [OF p s(1) _ s(2) o] by auto
      then show ?thesis using step False same_nodes_trans [OF h1(2)] ordered_but_none by auto
    qed
  qed
qed

lemma children_parent:
  "parent (left_child j) = j" "parent (right_child j) = j" "0 < left_child j" "0 < right_child j"
  "j < left_child j" "j < right_child j"
  by (simp_all add: parent_def left_child_def right_child_def)

lemma no_children: "left_child j \<ge> n \<Longrightarrow> 0 < i \<Longrightarrow> i < n \<Longrightarrow> parent i \<noteq> j"
  using parent_children [of i j] by (auto simp: left_child_def right_child_def)

lemma cascade_down_loop_ok:
  assumes "shaped h" "j < h_size h" "ordered_but False True key (hdata h) j"
  shows "\<exists>h'. cascade_down_loop (cmp_of key) j h = Inr h' \<and> same_nodes h h' \<and> heap_ordered key (hdata h')"
  using assms
proof (induction "h_size h - j" arbitrary: j h rule: less_induct)
  case less
  show ?case
  proof (cases "left_child j \<ge> h_size h")
    case True
    then have "heap_ordered key (hdata h)"
      using less.prems(3) no_children [OF True] by (auto simp: ordered_but_def heap_ordered_def)
    then show ?thesis using True less.prems(1) by (subst cascade_down_loop.simps) (simp add: same_nodes_def)
  next
    case False
    then have l: "left_child j < h_size h" by simp
    obtain child run where child: "(if right_child j \<ge> h_size h then Inr (left_child j, False)
           else bind_res (node_at h (left_child j)) (\<lambda>l.
                bind_res (node_at h (right_child j)) (\<lambda>r.
                Inr (if key (n_data l) < key (n_data r) then left_child j else right_child j, True)))) = Inr (child, run)"
        "child < h_size h" "parent child = j" "0 < child" "j < child"
        "\<And>i. 0 < i \<Longrightarrow> i < h_size h \<Longrightarrow> parent i = j \<Longrightarrow> key (hdata h ! child) \<le> key (hdata h ! i)"
        "\<not> run \<Longrightarrow> left_child child \<ge> h_size h"
    proof (cases "right_child j \<ge> h_size h")
      case True
      have only: "i = left_child j" if "0 < i" "i < h_size h" "parent i = j" for i
        using parent_children [of i j] that True by auto
      show thesis
      proof (rule that [of "left_child j" False])
        show "h_size h \<le> left_child (left_child j)" using True by (simp add: left_child_def right_child_def)
        show "key (hdata h ! left_child j) \<le> key (hdata h ! i)" if "0 < i" "i < h_size h" "parent i = j" for i
          using only [OF that] by simp
      qed (use True l children_parent [of j] in simp_all)
    next
      case False
      obtain x where x: "node_at h (left_child j) = Inr x" "n_data x = hdata h ! left_child j"
        using node_at_ok [OF less.prems(1) l] by metis
      obtain y where y: "node_at h (right_child j) = Inr y" "n_data y = hdata h ! right_child j"
        using node_at_ok [OF less.prems(1), of "right_child j"] False by (metis not_le)
      let ?c = "if key (hdata h ! left_child j) < key (hdata h ! right_child j) then left_child j else right_child j"
      have "key (hdata h ! ?c) \<le> key (hdata h ! i)" if "0 < i" "parent i = j" for i
        using parent_children [of i j] that by auto
      then show thesis using that [of ?c True] x y False l children_parent [of j] by auto
    qed
    obtain c where c: "node_at h child = Inr c" "n_data c = hdata h ! child"
      using node_at_ok [OF less.prems(1) child(2)] by metis
    obtain q where q: "node_at h j = Inr q" "n_data q = hdata h ! j"
      using node_at_ok [OF less.prems(1,2)] by metis
    obtain h1 where h1: "swap_nodes_heap child j h = Inr (0, h1)" "same_nodes h h1" "hdata h1 = swap child j (hdata h)"
      using swap_nodes_same [OF less.prems(1) child(2) less.prems(2)] by blast
    have step: "cascade_down_loop (cmp_of key) j h =
        (if key (hdata h ! child) < key (hdata h ! j)
         then if run then cascade_down_loop (cmp_of key) child h1 else Inr h1 else Inr h)"
      using False child(1) c q h1(1) by (subst cascade_down_loop.simps) simp
    show ?thesis
    proof (cases "key (hdata h ! child) < key (hdata h ! j)")
      case False
      then have "edge key (hdata h) i" if "0 < i" "i < h_size h" "parent i = j" for i
        using child(6) [OF that] that by (simp add: edge_def)
      then have "heap_ordered key (hdata h)"
        using less.prems(3) by (auto simp: ordered_but_def heap_ordered_def)
      then show ?thesis using step False less.prems(1) by (simp add: same_nodes_def)
    next
      case True
      have o: "ordered_but False True key (hdata h1) child"
        unfolding h1(3) using child True by (intro swap_down [OF less.prems(3)]) auto
      have s: "shaped h1" "h_size h1 = h_size h" using h1(2) by (simp_all add: same_nodes_def)
      show ?thesis
      proof (cases run)
        case True
        then obtain h' where "cascade_down_loop (cmp_of key) child h1 = Inr h'" "same_nodes h1 h'" "heap_ordered key (hdata h')"
          using less.hyps [of h1 child] s o child by fastforce
        then show ?thesis using step True \<open>key (hdata h ! child) < key (hdata h ! j)\<close> same_nodes_trans [OF h1(2)] by auto
      next
        case False
        then have "heap_ordered key (hdata h1)"
          using o s(2) no_children [OF child(7) [OF False]] by (auto simp: ordered_but_def heap_ordered_def)
        then show ?thesis using step True False h1(2) by simp
      qed
    qed
  qed
qed

section \<open>The operations\<close>

definition heap_ok :: "('a \<Rightarrow> 'k::linorder) \<Rightarrow> 'a heap \<Rightarrow> bool" where
  "heap_ok key h \<longleftrightarrow> shaped h \<and> heap_ordered key (hdata h)"

lemma ordered_small: "length xs < 2 \<Longrightarrow> heap_ordered key xs"
  by (auto simp: heap_ordered_def)

lemma cascade_up_ok:
  assumes "shaped h" "j < h_size h" "ordered_but True dn key (hdata h) j"
  shows "\<exists>h'. cascade_up_heap (cmp_of key) j h = Inr (0, h') \<and> same_nodes h h' \<and>
    (heap_ordered key (hdata h') \<or> h' = h \<and> ordered_but False dn key (hdata h) j)"
proof (cases "h_size h < 2 \<or> j < 1")
  case True
  have "heap_ordered key (hdata h) \<or> ordered_but False dn key (hdata h) j"
  proof (cases "h_size h < 2")
    case True
    then show ?thesis by (simp add: ordered_small)
  next
    case False
    then show ?thesis using \<open>h_size h < 2 \<or> j < 1\<close> assms(3) by (auto simp: ordered_but_def)
  qed
  moreover have "cascade_up_heap (cmp_of key) j h = Inr (0, h)" using True by (auto simp: cascade_up_heap_def)
  ultimately show ?thesis using assms(1) by (simp add: same_nodes_def)
next
  case False
  then show ?thesis
    using cascade_up_loop_ok [OF assms(1) _ assms(2,3)] assms(2) by (auto simp: cascade_up_heap_def)
qed

lemma cascade_down_ok:
  assumes "shaped h" "j < h_size h \<or> h_size h < 2" "h_size h < 2 \<or> ordered_but False True key (hdata h) j"
  shows "\<exists>h'. cascade_down_heap (cmp_of key) j h = Inr (0, h') \<and> same_nodes h h' \<and> heap_ordered key (hdata h')"
proof (cases "h_size h < 2")
  case True
  then show ?thesis using assms(1) by (simp add: cascade_down_heap_def same_nodes_def ordered_small)
next
  case False
  then show ?thesis
    using cascade_down_loop_ok [OF assms(1), of j key] assms(2,3) by (auto simp: cascade_down_heap_def)
qed

text \<open>Adding.\<close>

lemma va_add_ok:
  assumes "heap_ok key h"
  shows "\<exists>h'. va_add_to_heap (cmp_of key) (True, True) d h = Inr (int (h_size h), h') \<and> heap_ok key h' \<and>
    mset (hdata h') = add_mset d (mset (hdata h)) \<and> h_size h' = h_size h + 1"
proof -
  have sh: "shaped h" and ord: "heap_ordered key (hdata h)" using assms by (simp_all add: heap_ok_def)
  let ?n = "h_size h"
  let ?h = "h\<lparr>h_array := take ?n (h_array h) @ [Some \<lparr>n_index = int ?n, n_data = d\<rparr>], h_size := ?n + 1\<rparr>"
  have len: "length (take ?n (h_array h)) = ?n" using sh by (simp add: shaped_def)
  have shaped: "shaped ?h" using sh len by (auto simp: shaped_def nth_append less_Suc_eq)
  have data: "hdata ?h = hdata h @ [d]"
    using len by (intro nth_equalityI) (auto simp: hdata_def nth_append less_Suc_eq)
  have "ordered_but True False key (hdata ?h) ?n"
  proof -
    have "edge key (hdata h @ [d]) i" if "0 < i" "i < ?n" for i
    proof -
      have "parent i < ?n" using parent_less [OF that(1)] that(2) by simp
      moreover have "edge key (hdata h) i" using ord that by (simp add: heap_ordered_def)
      ultimately show ?thesis using that by (simp add: edge_def nth_append)
    qed
    moreover have "parent i \<noteq> ?n" if "0 < i" "i < Suc ?n" for i using parent_less [OF that(1)] that(2) by simp
    ultimately show ?thesis unfolding data by (auto simp: ordered_but_def bridge_def less_Suc_eq)
  qed
  then obtain h' where h': "cascade_up_heap (cmp_of key) ?n ?h = Inr (0, h')" "same_nodes ?h h'"
      "heap_ordered key (hdata h') \<or> h' = ?h \<and> ordered_but False False key (hdata ?h) ?n"
    using cascade_up_ok [OF shaped, of ?n False key] by auto
  have "put_slot ?n (Some \<lparr>n_index = int ?n, n_data = d\<rparr>)
      (h\<lparr>h_array := take ?n (h_array h) @ [None], h_size := ?n + 1\<rparr>) = ?h"
    using len by (simp add: put_slot_def list_update_append)
  then have "va_add_to_heap (cmp_of key) (True, True) d h = Inr (int ?n, h')"
    using h'(1) by (simp add: va_add_to_heap_def grow_by_one_heap_def create_node_heap_def)
  moreover have "heap_ok key h'"
    using h'(2,3) ordered_but_none by (auto simp: heap_ok_def same_nodes_def)
  ultimately show ?thesis using h'(2) data by (simp add: same_nodes_def)
qed

text \<open>Updating a node: its datum may be new, or the order of the old one may have changed.\<close>

lemma ordered_update:
  assumes "heap_ordered key0 xs" "j < length xs" "\<And>i. i < length xs \<Longrightarrow> i \<noteq> j \<Longrightarrow> key (xs ! i) = key0 (xs ! i)"
  shows "ordered_but True True key (xs[j := d]) j"
proof -
  have old: "key0 (xs ! parent i) \<le> key0 (xs ! i)" "parent i < i" if "0 < i" "i < length xs" for i
    using assms(1) that parent_less [of i] by (simp_all add: heap_ordered_def edge_def)
  have "edge key (xs[j := d]) i" if "0 < i" "i < length xs" "i \<noteq> j" "parent i \<noteq> j" for i
    using old [OF that(1,2)] that assms(3) [of i] assms(3) [of "parent i"] by (simp add: edge_def)
  moreover have "key (xs[j := d] ! parent j) \<le> key (xs[j := d] ! i)" if h: "0 < j" "i < length xs" "0 < i" "parent i = j" for i
  proof -
    have "key0 (xs ! parent j) \<le> key0 (xs ! i)" "parent j < j" "j < i"
      using old [of j] old [of i] h assms(2) by auto
    then show ?thesis using assms(3) [of i] assms(3) [of "parent j"] h assms(2) by simp
  qed
  ultimately show ?thesis by (auto simp: ordered_but_def bridge_def)
qed

lemma ordered_no_op:
  assumes "heap_ordered key xs" "j < length xs"
  shows "ordered_but False True key xs j"
proof -
  have "ordered_but True True key (xs[j := xs ! j]) j" using assms by (intro ordered_update) auto
  then show ?thesis using assms(1) by (simp add: ordered_but_def heap_ordered_def)
qed

lemma set_data_ok:
  assumes "shaped h" "j < h_size h"
  shows "\<exists>h'. set_data j d h = Inr h' \<and> shaped h' \<and> h_size h' = h_size h \<and> hdata h' = (hdata h)[j := d]"
proof -
  obtain n where n: "node_at h j = Inr n" "n_index n = int j" "j < length (h_array h)"
    using node_at_ok [OF assms] by metis
  let ?h = "put_slot j (Some (n\<lparr>n_data := d\<rparr>)) h"
  have "shaped ?h" using assms n by (auto simp: shaped_def put_slot_def nth_list_update)
  moreover have "hdata ?h = (hdata h)[j := d]"
    using n(3) by (intro nth_equalityI) (auto simp: hdata_def put_slot_def nth_list_update)
  ultimately show ?thesis using n(1) by (simp add: set_data_def put_slot_def)
qed

lemma update_node_ok:
  assumes "heap_ok key0 h" "j < h_size h" "\<And>i. i < h_size h \<Longrightarrow> i \<noteq> j \<Longrightarrow> key (hdata h ! i) = key0 (hdata h ! i)"
  shows "\<exists>h'. update_node_on_heap (cmp_of key) (int j) d (Some h) = Inr (0, Some h') \<and> heap_ok key h' \<and>
    h_size h' = h_size h \<and> mset (hdata h') = mset ((hdata h)[j := d])"
proof -
  have sh: "shaped h" and ord: "heap_ordered key0 (hdata h)" using assms(1) by (simp_all add: heap_ok_def)
  obtain h1 where h1: "set_data j d h = Inr h1" "shaped h1" "h_size h1 = h_size h" "hdata h1 = (hdata h)[j := d]"
    using set_data_ok [OF sh assms(2)] by blast
  have j: "j < h_size h1" using assms(2) h1(3) by simp
  have "ordered_but True True key (hdata h1) j"
    unfolding h1(4) using assms(2,3) by (intro ordered_update [OF ord]) auto
  then obtain h2 where h2: "cascade_up_heap (cmp_of key) j h1 = Inr (0, h2)" "same_nodes h1 h2"
      "heap_ordered key (hdata h2) \<or> h2 = h1 \<and> ordered_but False True key (hdata h1) j"
    using cascade_up_ok [OF h1(2) j] by blast
  have s2: "shaped h2" "j < h_size h2" using h2(2) j by (simp_all add: same_nodes_def)
  have "ordered_but False True key (hdata h2) j"
    using h2(3) ordered_no_op [of key "hdata h2" j] s2(2) by auto
  then obtain h3 where h3: "cascade_down_heap (cmp_of key) j h2 = Inr (0, h3)" "same_nodes h2 h3" "heap_ordered key (hdata h3)"
    using cascade_down_ok [OF s2(1), of j key] s2(2) by blast
  have "same_nodes h1 h3" using same_nodes_trans [OF h2(2) h3(2)] .
  then show ?thesis
    using assms(2) h1 h2(1) h3(1,3) by (auto simp: update_node_on_heap_def heap_ok_def same_nodes_def)
qed

text \<open>Removing the top.\<close>

lemma remove_top_ok:
  assumes "heap_ok key h" "0 < h_size h"
  shows "\<exists>h'. remove_top_of_heap (cmp_of key) (Some h) = Inr (Some (hdata h ! 0), Some h') \<and> heap_ok key h' \<and>
    h_size h' = h_size h - 1 \<and> mset (hdata h') = mset (hdata h) - {#hdata h ! 0#}"
proof -
  have sh: "shaped h" and ord: "heap_ordered key (hdata h)" using assms(1) by (simp_all add: heap_ok_def)
  let ?m = "h_size h - 1"
  obtain top where top: "node_at h 0 = Inr top" "n_data top = hdata h ! 0"
    using node_at_ok [OF sh assms(2)] by metis
  obtain h1 where h1: "(if h_size h = 1 then Inr (0, h) else swap_nodes_heap 0 ?m h) = Inr (0, h1)" "shaped h1"
      "hdata h1 = swap 0 ?m (hdata h)" "h_size h1 = h_size h"
  proof (cases "h_size h = 1")
    case True
    then show thesis using that [of h] sh by (simp add: swap_def)
  next
    case False
    then show thesis using swap_nodes_ok [OF sh assms(2), of ?m] that assms(2) by auto
  qed
  have m: "?m < h_size h1" using assms(2) h1(4) by simp
  obtain x where x: "slot h1 ?m = Inr (Some x)" "?m < length (h_array h1)"
    using node_at_ok [OF h1(2) m] by (metis slot_def)
  let ?h = "(put_slot ?m None h1)\<lparr>h_size := h_size h1 - 1\<rparr>"
  have shaped: "shaped ?h" using h1(2,4) by (auto simp: shaped_def put_slot_def nth_list_update)
  have data: "hdata ?h = take ?m (swap 0 ?m (hdata h))"
  proof (rule nth_equalityI)
    fix i assume "i < length (hdata ?h)"
    then have i: "i < ?m" using h1(4) by simp
    then have "hdata ?h ! i = hdata h1 ! i" using m h1(4) by (simp add: hdata_def put_slot_def)
    then show "hdata ?h ! i = take ?m (swap 0 ?m (hdata h)) ! i" using i h1(3) by simp
  qed (use h1(4) assms(2) in simp)
  have "ordered_but False True key (hdata ?h) 0"
  proof -
    have "edge key (take ?m (swap 0 ?m (hdata h))) i" if i: "0 < i" "i < ?m" "parent i \<noteq> 0" for i
    proof -
      have "parent i < ?m" using parent_less [OF i(1)] i(2) by simp
      moreover have "edge key (hdata h) i" using ord i by (simp add: heap_ordered_def)
      ultimately show ?thesis using i assms(2) by (simp add: edge_def swap_nth)
    qed
    then show ?thesis unfolding data by (auto simp: ordered_but_def bridge_def)
  qed
  then obtain h2 where h2: "cascade_down_heap (cmp_of key) 0 ?h = Inr (0, h2)" "same_nodes ?h h2" "heap_ordered key (hdata h2)"
    using cascade_down_ok [OF shaped, of 0 key] by fastforce
  have "remove_top_of_heap (cmp_of key) (Some h) = Inr (Some (hdata h ! 0), Some h2)"
    using assms(2) top h1(1,4) x(1) h2(1) by (simp add: remove_top_of_heap_def Let_def split: if_splits)
  moreover have "mset (hdata ?h) = mset (hdata h) - {#hdata h ! 0#}"
  proof -
    let ?s = "swap 0 ?m (hdata h)"
    have "?s = take ?m ?s @ [?s ! ?m]"
      using assms(2) take_Suc_conv_app_nth [of ?m ?s] by simp
    then have "mset ?s = mset (take ?m ?s @ [?s ! ?m])" by (rule arg_cong)
    moreover have "mset ?s = mset (hdata h)" "?s ! ?m = hdata h ! 0" using assms(2) by (simp_all add: swap_nth)
    ultimately have "mset (hdata h) = add_mset (hdata h ! 0) (mset (take ?m ?s))" by simp
    then show ?thesis unfolding data by simp
  qed
  ultimately show ?thesis
    using h2(2,3) h1(4) by (auto simp: heap_ok_def same_nodes_def)
qed

lemma get_top_ok:
  assumes "heap_ok key h"
  shows "get_top_of_heap (Some h) = Inr (if h_size h = 0 then None else Some (hdata h ! 0))"
proof (cases "h_size h = 0")
  case False
  then obtain n where "node_at h 0 = Inr n" "n_data n = hdata h ! 0"
    using node_at_ok [of h 0] assms by (auto simp: heap_ok_def)
  then show ?thesis using False by (simp add: get_top_of_heap_def)
qed (simp add: get_top_of_heap_def)

lemma get_data_ok:
  assumes "shaped h"
  shows "get_data_ref_by_index_heap (Some h) i =
    Inr (if 0 \<le> i \<and> i < int (h_size h) then Some (hdata h ! nat i) else None)"
proof (cases "0 \<le> i \<and> i < int (h_size h)")
  case True
  then have "nat i < h_size h" by linarith
  from node_at_ok [OF assms this] obtain n where "node_at h (nat i) = Inr n" "n_data n = hdata h ! nat i" by metis
  with True show ?thesis by (simp add: get_data_ref_by_index_heap_def)
qed (auto simp: get_data_ref_by_index_heap_def)

section \<open>The contract\<close>

text \<open>The operations as a client sees them who has the memory.\<close>

definition hq_empty :: "'a heap" where
  "hq_empty = the (init_heap True)"

definition hq_ins :: "('a \<Rightarrow> 'k::linorder) \<Rightarrow> 'a \<Rightarrow> 'a heap \<Rightarrow> 'a heap" where
  "hq_ins key d h =
     (case add_to_heap (cmp_of key) [(True, True)] [d] (Some h) of Inr (_, Some h') \<Rightarrow> h' | _ \<Rightarrow> h)"

definition hq_top :: "'a heap \<Rightarrow> 'a option" where
  "hq_top h = (case get_top_of_heap (Some h) of Inr x \<Rightarrow> x | _ \<Rightarrow> None)"

definition hq_del :: "('a \<Rightarrow> 'k::linorder) \<Rightarrow> 'a heap \<Rightarrow> 'a heap" where
  "hq_del key h = (case remove_top_of_heap (cmp_of key) (Some h) of Inr (_, Some h') \<Rightarrow> h' | _ \<Rightarrow> h)"

definition heap_elems :: "'a heap \<Rightarrow> 'a multiset" where
  "heap_elems h = mset (hdata h)"

lemma add_ok_one:
  assumes "heap_ok key h"
  shows "\<exists>h'. add_to_heap (cmp_of key) [(True, True)] [d] (Some h) = Inr (0, Some h') \<and> heap_ok key h' \<and>
    heap_elems h' = add_mset d (heap_elems h) \<and> h_size h' = h_size h + 1"
  using va_add_ok [OF assms, of d] by (auto simp: add_to_heap_def heap_elems_def)

lemma remove_empty: "h_size h = 0 \<Longrightarrow> remove_top_of_heap cmp (Some h) = Inr (None, Some h)"
  by (simp add: remove_top_of_heap_def)

lemma hq_emptyD: "h_size h = 0 \<Longrightarrow> heap_elems h = {#}"
  by (simp add: heap_elems_def hdata_def)

interpretation hq: priority_queue hq_empty "hq_ins key" hq_top "hq_del key" heap_elems "heap_ok key" key
  for key :: "'a \<Rightarrow> 'k::linorder"
proof unfold_locales
  show "heap_ok key hq_empty" "heap_elems hq_empty = {#}"
    by (simp_all add: hq_empty_def init_heap_def heap_ok_def shaped_def hdata_def heap_ordered_def heap_elems_def)
next
  fix h :: "'a heap" and x
  assume h: "heap_ok key h"
  from add_ok_one [OF h, of x] show "heap_ok key (hq_ins key x h)" "heap_elems (hq_ins key x h) = add_mset x (heap_elems h)"
    by (auto simp: hq_ins_def)
  have top: "hq_top h = (if h_size h = 0 then None else Some (hdata h ! 0))"
    using get_top_ok [OF h] by (simp add: hq_top_def)
  show "heap_elems h = {#}" if "hq_top h = None"
    using that top hq_emptyD [of h] by (simp split: if_splits)
  show "heap_ok key (hq_del key h)"
    using h remove_top_ok [OF h] remove_empty [of h "cmp_of key"] by (cases "h_size h = 0") (auto simp: hq_del_def)
  fix y
  assume t: "hq_top h = Some y"
  then have y: "0 < h_size h" "y = hdata h ! 0" using top by (auto split: if_splits)
  then show "y \<in># heap_elems h" by (simp add: heap_elems_def)
  show "heap_elems (hq_del key h) = heap_elems h - {#y#}"
    using remove_top_ok [OF h y(1)] y(2) by (auto simp: hq_del_def heap_elems_def)
  show "key y \<le> key z" if mem: "z \<in># heap_elems h" for z
  proof -
    obtain i where "i < h_size h" "z = hdata h ! i"
      using mem by (auto simp: heap_elems_def in_set_conv_nth)
    then show ?thesis using heap_ordered_top [of key "hdata h" i] h y(2) by (simp add: heap_ok_def)
  qed
qed

section \<open>Properties\<close>

text \<open>C24. The heap is a priority queue: any data added to a new heap come off its top once each
  and in the order that the callback says, whatever the order in which they were added.\<close>

theorem heap_sorts:
  "mset (take_tops hq_top (hq_del key) (length xs) (fold (hq_ins key) xs hq_empty)) = mset xs \<and>
   sorted (map key (take_tops hq_top (hq_del key) (length xs) (fold (hq_ins key) xs hq_empty)))"
  by (rule hq.sorts)

text \<open>Updating a node restores the order of the heap, whether its datum is replaced or the
  order of the datum has changed where it is: with every other datum ordered as before, the
  result is a heap again, with the same data but for the one replaced.\<close>

theorem heap_update_restores:
  assumes "heap_ok old h" "j < h_size h" "\<And>i. i < h_size h \<Longrightarrow> i \<noteq> j \<Longrightarrow> key (hdata h ! i) = old (hdata h ! i)"
  shows "\<exists>h'. update_node_on_heap (cmp_of key) (int j) d (Some h) = Inr (0, Some h') \<and> heap_ok key h' \<and>
    h_size h' = h_size h \<and> heap_elems h' = mset ((hdata h)[j := d])"
  using update_node_ok [OF assms] by (simp add: heap_elems_def)

definition sample_heap :: "nat heap" where
  "sample_heap = \<lparr>h_size = 3, h_array = [Some \<lparr>n_index = 0, n_data = 1\<rparr>, Some \<lparr>n_index = 1, n_data = 4\<rparr>,
     Some \<lparr>n_index = 2, n_data = 2\<rparr>]\<rparr>"

lemma sample_heap_ok: "heap_ok (\<lambda>x. x) sample_heap" "hdata sample_heap = [1, 4, 2]" "h_size sample_heap = 3"
proof -
  show "h_size sample_heap = 3" by (simp add: sample_heap_def)
  show d: "hdata sample_heap = [1, 4, 2]"
    by (simp add: sample_heap_def hdata_def upt_rec numeral_3_eq_3)
  have "shaped sample_heap"
    by (auto simp: shaped_def sample_heap_def less_Suc_eq numeral_3_eq_3)
  moreover have "heap_ordered (\<lambda>x. x) [1, 4, 2 :: nat]"
    by (auto simp: heap_ordered_def edge_def parent_def less_Suc_eq)
  ultimately show "heap_ok (\<lambda>x. x) sample_heap" by (simp add: heap_ok_def d)
qed

theorem heap_update_restores_witness:
  "\<exists>h'. update_node_on_heap (\<lambda>x y. x < y) 0 9 (Some sample_heap) = Inr (0, Some h') \<and> heap_ok (\<lambda>x. x) h' \<and>
    heap_elems h' = {#9, 4, 2#}"
  using heap_update_restores [OF sample_heap_ok(1), of 0 "\<lambda>x. x" 9] sample_heap_ok(2,3)
  by auto

text \<open>When there is no memory for the node, \<open>add_to_heap\<close> reports success all the same, and
  leaves the array one longer with a null pointer at its end; the datum is not in the heap,
  and the next access to that position follows the null pointer.\<close>

theorem heap_add_without_node:
  assumes "heap_ok key h"
  shows "\<exists>h'. add_to_heap (cmp_of key) [(True, False)] [d] (Some h) = Inr (0, Some h') \<and> h_size h' = h_size h + 1 \<and>
    get_data_ref_by_index_heap (Some h') (int (h_size h)) = Inl NullDeref \<and>
    (h_size h = 0 \<longrightarrow> get_top_of_heap (Some h') = Inl NullDeref)"
proof -
  have "length (take (h_size h) (h_array h)) = h_size h"
    using assms by (simp add: heap_ok_def shaped_def)
  then show ?thesis
    by (simp add: add_to_heap_def va_add_to_heap_def grow_by_one_heap_def create_node_heap_def
        get_data_ref_by_index_heap_def get_top_of_heap_def node_at_def slot_def nth_append)
qed

theorem heap_add_without_node_witness:
  "\<exists>h'. add_to_heap (\<lambda>x y. x < y) [(True, False)] [7] (Some sample_heap) = Inr (0, Some h') \<and>
    get_data_ref_by_index_heap (Some h') 3 = Inl NullDeref"
  using heap_add_without_node [OF sample_heap_ok(1), of 7] by (auto simp: sample_heap_def)

end
