(* ===== verification/Timers.thy ===== *)
theory Timers
  imports Timer_Heap Time_Value Parse "HOL-Library.Product_Lexorder"
begin

text \<open>
  The timers (\<open>katcp/ts.c\<close>, as built with \<open>KATCP_HEAP_TIMERS\<close>): objects in the store,
  queued by the time they are due in the heap of theory \<open>Timer_Heap\<close>. The lemmas show that
  registering, adjusting and running timers keep the queue in order and every timer in it
  once, that a run fires the earliest timer exactly when it is due and plans it anew after
  the present, and what happens when a callback changes the queue or a timer has no name.
\<close>

section \<open>State\<close>

text \<open>Data and callbacks are addresses. \<open>'u\<close> is the state of the rest of the program, which
  the callbacks work on. The counters are statistics and are not bounded here.\<close>

record ts =
  t_name :: "string option"
  t_when :: timeval
  t_interval :: timeval
  t_armed :: int
  t_data :: nat
  t_call :: nat
  t_hits :: int
  t_misses :: int
  t_late :: int

record 'u tstate =
  s_tmr_heap :: "nat heap option"
  ts_store :: "nat \<Rightarrow> ts option"
  ts_fresh :: nat
  ts_user :: 'u

text \<open>The operations take a dispatch structure; \<open>None\<close> when it, or its shared state, is not
  there.\<close>

definition on_shared ::
  "'u tstate option \<Rightarrow> 'r \<Rightarrow> ('u tstate \<Rightarrow> ('r \<times> 'u tstate) res) \<Rightarrow> ('r \<times> 'u tstate option) res" where
  "on_shared d r f = (case d of None \<Rightarrow> Inr (r, None) | Some t \<Rightarrow> bind_res (f t) (\<lambda>(v, t1). Inr (v, Some t1)))"

definition no_time :: timeval where "no_time = \<lparr>tv_sec = 0, tv_usec = 0\<rparr>"
definition KATCP_DEFAULT_DEADLINE :: int where "KATCP_DEFAULT_DEADLINE = 100000"

definition ts_at :: "nat \<Rightarrow> 'u tstate \<Rightarrow> ts res" where
  "ts_at a t = (case ts_store t a of None \<Rightarrow> Inl UseAfterFree | Some x \<Rightarrow> Inr x)"

definition ts_put :: "nat \<Rightarrow> ts \<Rightarrow> 'u tstate \<Rightarrow> 'u tstate" where
  "ts_put a x t = t\<lparr>ts_store := (ts_store t)(a \<mapsto> x)\<rparr>"

text \<open>The order of the heap. A timer that was freed has no time; the invariant below keeps
  such timers out of the heap.\<close>

definition when_of :: "(nat \<Rightarrow> ts option) \<Rightarrow> nat \<Rightarrow> timeval" where
  "when_of st a = (case st a of None \<Rightarrow> no_time | Some x \<Rightarrow> t_when x)"

definition cmp_heap_timers_katcp :: "(nat \<Rightarrow> ts option) \<Rightarrow> nat \<Rightarrow> nat \<Rightarrow> bool" where
  "cmp_heap_timers_katcp st x y = (cmp_time_katcp (when_of st x) (when_of st y) = -1)"

section \<open>Creating and destroying\<close>

definition create_ts_katcp :: "bool \<Rightarrow> nat \<Rightarrow> nat \<Rightarrow> 'u tstate \<Rightarrow> nat option \<times> 'u tstate" where
  "create_ts_katcp ok call data t =
     (if ok then
        (Some (ts_fresh t),
         t\<lparr>ts_store := (ts_store t)(ts_fresh t \<mapsto>
              \<lparr>t_name = None, t_when = no_time, t_interval = no_time, t_armed = 0, t_data = data,
               t_call = call, t_hits = 0, t_misses = 0, t_late = 0\<rparr>),
           ts_fresh := ts_fresh t + 1\<rparr>)
      else (None, t))"

definition destroy_ts_katcp :: "nat \<Rightarrow> 'u tstate \<Rightarrow> 'u tstate res" where
  "destroy_ts_katcp a t = bind_res (ts_at a t) (\<lambda>_. Inr (t\<lparr>ts_store := (ts_store t)(a := None)\<rparr>))"

section \<open>Finding\<close>

text \<open>The loops over the positions of the heap, from \<open>i\<close> on with \<open>n\<close> to go.\<close>

fun find_from :: "(ts \<Rightarrow> bool res) \<Rightarrow> 'u tstate \<Rightarrow> nat \<Rightarrow> nat \<Rightarrow> (nat \<times> nat) option res" where
  "find_from p t i 0 = Inr None"
| "find_from p t i (Suc n) =
     bind_res (get_data_ref_by_index_heap (s_tmr_heap t) (int i)) (\<lambda>ao.
     case ao of
       None \<Rightarrow> Inl NullDeref
     | Some a \<Rightarrow>
         bind_res (ts_at a t) (\<lambda>x.
         bind_res (p x) (\<lambda>hit. if hit then Inr (Some (a, i)) else find_from p t (Suc i) n)))"

definition name_matches :: "string \<Rightarrow> ts \<Rightarrow> bool res" where
  \<comment> \<open>\<open>strlen\<close> of a missing name follows a null pointer\<close>
  "name_matches name x =
     (case t_name x of
        None \<Rightarrow> Inl NullDeref
      | Some n \<Rightarrow> Inr (strncmp (length n) name n = 0))"

definition find_by_name_heap_timer_katcp :: "string option \<Rightarrow> 'u tstate \<Rightarrow> (nat \<times> nat) option res" where
  \<comment> \<open>the timer and its index\<close>
  "find_by_name_heap_timer_katcp name t =
     (case name of
        None \<Rightarrow> Inr None
      | Some s \<Rightarrow>
          if s_tmr_heap t = None then Inr None
          else find_from (name_matches s) t 0 (get_size_of_heap (s_tmr_heap t)))"

definition find_data_by_name_heap_timer_katcp :: "string option \<Rightarrow> 'u tstate \<Rightarrow> nat option res" where
  "find_data_by_name_heap_timer_katcp name t =
     bind_res (find_by_name_heap_timer_katcp name t) (\<lambda>r.
     case r of None \<Rightarrow> Inr None | Some (a, _) \<Rightarrow> bind_res (ts_at a t) (\<lambda>x. Inr (Some (t_data x))))"

definition find_by_data_ref_heap_timer_katcp :: "nat \<Rightarrow> 'u tstate \<Rightarrow> (nat \<times> nat) option res" where
  "find_by_data_ref_heap_timer_katcp data t =
     (if s_tmr_heap t = None then Inr None
      else find_from (\<lambda>x. Inr (t_data x = data)) t 0 (get_size_of_heap (s_tmr_heap t)))"

section \<open>Registering\<close>

text \<open>What the three functions share. They differ in the interval and the time due. The
  memory: the heap, the object, the name, and the two of \<open>add_to_heap\<close>.\<close>

definition register_heap_timer ::
  "(nat \<Rightarrow> bool) \<Rightarrow> timeval \<Rightarrow> timeval \<Rightarrow> nat \<Rightarrow> nat \<Rightarrow> string option \<Rightarrow> 'u tstate \<Rightarrow> (int \<times> 'u tstate) res" where
  "register_heap_timer mem interval due call data name t =
     (let t1 = (if s_tmr_heap t = None then t\<lparr>s_tmr_heap := init_heap (mem 0)\<rparr> else t) in
      if s_tmr_heap t1 = None then Inr (-1, t1)
      else bind_res (find_by_name_heap_timer_katcp name t1) (\<lambda>found.
      if found \<noteq> None then Inr (1, t1)
      else case create_ts_katcp (mem 1) call data t1 of
        (None, t2) \<Rightarrow> Inr (-1, t2)
      | (Some a, t2) \<Rightarrow>
          if name \<noteq> None \<and> \<not> mem 2 then bind_res (destroy_ts_katcp a t2) (\<lambda>t3. Inr (-1, t3))
          else
            bind_res (ts_at a t2) (\<lambda>x.
            let t3 = ts_put a (x\<lparr>t_name := name, t_interval := interval, t_when := due, t_armed := 1\<rparr>) t2 in
            bind_res (add_to_heap (cmp_heap_timers_katcp (ts_store t3)) [(mem 3, mem 4)] [a] (s_tmr_heap t3)) (\<lambda>(r, ho).
            let t4 = t3\<lparr>s_tmr_heap := ho\<rparr> in
            if r \<noteq> 0 then bind_res (destroy_ts_katcp a t4) (\<lambda>t5. Inr (-1, t5))
            else Inr (0, t4)))))"

definition register_heap_timer_at_tv_katcp ::
  "(nat \<Rightarrow> bool) \<Rightarrow> timeval option \<Rightarrow> nat \<Rightarrow> nat \<Rightarrow> string option \<Rightarrow> 'u tstate option \<Rightarrow> (int \<times> 'u tstate option) res" where
  "register_heap_timer_at_tv_katcp mem tv call data name d =
     on_shared d (-1) (\<lambda>t. case tv of
       None \<Rightarrow> Inr (-1, t)
     | Some v \<Rightarrow> register_heap_timer mem no_time v call data name t)"

text \<open>\<open>now\<close> is what \<open>gettimeofday\<close> gives.\<close>

definition register_heap_timer_in_tv_katcp ::
  "(nat \<Rightarrow> bool) \<Rightarrow> timeval \<Rightarrow> timeval option \<Rightarrow> nat \<Rightarrow> nat \<Rightarrow> string option \<Rightarrow> 'u tstate option \<Rightarrow> (int \<times> 'u tstate option) res" where
  "register_heap_timer_in_tv_katcp mem now tv call data name d =
     on_shared d (-1) (\<lambda>t. case tv of
       None \<Rightarrow> Inr (-1, t)
     | Some v \<Rightarrow> register_heap_timer mem no_time (add_time_katcp now v) call data name t)"

definition register_heap_timer_every_tv_katcp ::
  "(nat \<Rightarrow> bool) \<Rightarrow> timeval \<Rightarrow> timeval option \<Rightarrow> nat \<Rightarrow> nat \<Rightarrow> string option \<Rightarrow> 'u tstate option \<Rightarrow> (int \<times> 'u tstate option) res" where
  "register_heap_timer_every_tv_katcp mem now tv call data name d =
     on_shared d (-1) (\<lambda>t. case tv of
       None \<Rightarrow> Inr (-1, t)
     | Some v \<Rightarrow> register_heap_timer mem v (add_time_katcp now v) call data name t)"

definition register_heap_timer_every_ms_katcp ::
  "(nat \<Rightarrow> bool) \<Rightarrow> timeval \<Rightarrow> u32 \<Rightarrow> nat \<Rightarrow> nat \<Rightarrow> string option \<Rightarrow> 'u tstate option \<Rightarrow> (int \<times> 'u tstate option) res" where
  "register_heap_timer_every_ms_katcp mem now milli call data name d =
     register_heap_timer_every_tv_katcp mem now
       (Some \<lparr>tv_sec = int (unat (milli div 1000)), tv_usec = int (unat ((milli mod 1000) * 1000))\<rparr>) call data name d"

text \<open>The functions of the older interface.\<close>

definition register_every_ms_katcp ::
  "(nat \<Rightarrow> bool) \<Rightarrow> timeval \<Rightarrow> u32 \<Rightarrow> nat \<Rightarrow> nat \<Rightarrow> 'u tstate option \<Rightarrow> (int \<times> 'u tstate option) res" where
  "register_every_ms_katcp mem now milli call data d = register_heap_timer_every_ms_katcp mem now milli call data None d"

definition register_every_tv_katcp ::
  "(nat \<Rightarrow> bool) \<Rightarrow> timeval \<Rightarrow> timeval option \<Rightarrow> nat \<Rightarrow> nat \<Rightarrow> 'u tstate option \<Rightarrow> (int \<times> 'u tstate option) res" where
  "register_every_tv_katcp mem now tv call data d = register_heap_timer_every_tv_katcp mem now tv call data None d"

definition register_at_tv_katcp ::
  "(nat \<Rightarrow> bool) \<Rightarrow> timeval option \<Rightarrow> nat \<Rightarrow> nat \<Rightarrow> 'u tstate option \<Rightarrow> (int \<times> 'u tstate option) res" where
  "register_at_tv_katcp mem tv call data d = register_heap_timer_at_tv_katcp mem tv call data None d"

definition register_in_tv_katcp ::
  "(nat \<Rightarrow> bool) \<Rightarrow> timeval \<Rightarrow> timeval option \<Rightarrow> nat \<Rightarrow> nat \<Rightarrow> 'u tstate option \<Rightarrow> (int \<times> 'u tstate option) res" where
  "register_in_tv_katcp mem now tv call data d = register_heap_timer_in_tv_katcp mem now tv call data None d"

section \<open>Disarming, adjusting, renaming\<close>

definition disarm :: "(nat \<times> nat) option \<Rightarrow> 'u tstate \<Rightarrow> (int \<times> 'u tstate) res" where
  "disarm found t =
     (case found of
        None \<Rightarrow> Inr (-1, t)
      | Some (a, _) \<Rightarrow> bind_res (ts_at a t) (\<lambda>x. Inr (0, ts_put a (x\<lparr>t_armed := 0\<rparr>) t)))"

definition disarm_by_ref_heap_timer :: "nat \<Rightarrow> 'u tstate option \<Rightarrow> (int \<times> 'u tstate option) res" where
  "disarm_by_ref_heap_timer data d =
     on_shared d (-1) (\<lambda>t. bind_res (find_by_data_ref_heap_timer_katcp data t) (\<lambda>found. disarm found t))"

definition disarm_by_name_heap_timer :: "string option \<Rightarrow> 'u tstate option \<Rightarrow> (int \<times> 'u tstate option) res" where
  "disarm_by_name_heap_timer name d =
     on_shared d (-1) (\<lambda>t. bind_res (find_by_name_heap_timer_katcp name t) (\<lambda>found. disarm found t))"

definition adjust_to :: "timeval \<Rightarrow> timeval \<Rightarrow> (nat \<times> nat) option \<Rightarrow> 'u tstate \<Rightarrow> (int \<times> 'u tstate) res" where
  "adjust_to now adjust found t =
     (case found of
        None \<Rightarrow> Inr (-1, t)
      | Some (a, index) \<Rightarrow>
          bind_res (ts_at a t) (\<lambda>x.
          let t1 = ts_put a (x\<lparr>t_interval := adjust, t_when := add_time_katcp now adjust\<rparr>) t in
          bind_res (update_node_on_heap (cmp_heap_timers_katcp (ts_store t1)) (int index) a (s_tmr_heap t1)) (\<lambda>(_, ho).
          Inr (0, t1\<lparr>s_tmr_heap := ho\<rparr>))))"

definition adjust_interval_heap_timer_katcp ::
  "timeval \<Rightarrow> timeval \<Rightarrow> string option \<Rightarrow> 'u tstate option \<Rightarrow> (int \<times> 'u tstate option) res" where
  "adjust_interval_heap_timer_katcp now adjust name d =
     (if name = None then Inr (-1, d)
      else on_shared d (-1) (\<lambda>t.
        if s_tmr_heap t = None then Inr (-1, t)
        else bind_res (find_by_name_heap_timer_katcp name t) (\<lambda>found. adjust_to now adjust found t)))"

text \<open>The address 0 is the null pointer.\<close>

definition adjust_interval_anonymous_heap_timer_katcp ::
  "timeval \<Rightarrow> timeval \<Rightarrow> nat \<Rightarrow> 'u tstate option \<Rightarrow> (int \<times> 'u tstate option) res" where
  "adjust_interval_anonymous_heap_timer_katcp now adjust data d =
     (if data = 0 then Inr (-1, d)
      else on_shared d (-1) (\<lambda>t.
        if s_tmr_heap t = None then Inr (-1, t)
        else bind_res (find_by_data_ref_heap_timer_katcp data t) (\<lambda>found. adjust_to now adjust found t)))"

definition rename_heap_timer_katcp ::
  "bool \<Rightarrow> string option \<Rightarrow> string option \<Rightarrow> 'u tstate option \<Rightarrow> (int \<times> 'u tstate option) res" where
  "rename_heap_timer_katcp ok old_name new_name d =
     (if old_name = None \<or> new_name = None then Inr (-1, d)
      else on_shared d (-1) (\<lambda>t.
        if s_tmr_heap t = None then Inr (-1, t)
        else bind_res (find_by_name_heap_timer_katcp old_name t) (\<lambda>found.
          case found of
            None \<Rightarrow> Inr (-1, t)
          | Some (a, _) \<Rightarrow>
              bind_res (find_by_name_heap_timer_katcp new_name t) (\<lambda>other.
              if other \<noteq> None then Inr (-1, t)
              else if \<not> ok then Inr (-1, t)
              else bind_res (ts_at a t) (\<lambda>x. Inr (0, ts_put a (x\<lparr>t_name := new_name\<rparr>) t))))))"

section \<open>Running\<close>

definition count_timers_katcp :: "'u tstate \<Rightarrow> nat" where
  "count_timers_katcp t = get_size_of_heap (s_tmr_heap t)"

definition drop_top :: "nat \<Rightarrow> 'u tstate \<Rightarrow> 'u tstate res" where
  \<comment> \<open>the top is taken off the heap, and timer \<open>a\<close> is freed\<close>
  "drop_top a t =
     bind_res (remove_top_of_heap (cmp_heap_timers_katcp (ts_store t)) (s_tmr_heap t)) (\<lambda>(_, ho).
     destroy_ts_katcp a (t\<lparr>s_tmr_heap := ho\<rparr>))"

text \<open>The loop of \<open>load_heap_timers_katcp\<close> that drops disarmed timers, with a bound on its
  rounds; one more than there are timers in the heap suffice. It gives the timer it stops at,
  \<open>None\<close> when there is none left.\<close>

fun load_loop :: "nat \<Rightarrow> 'u tstate \<Rightarrow> (ts option \<times> 'u tstate) option res" where
  "load_loop 0 t = Inr None"
| "load_loop (Suc n) t =
     bind_res (get_top_of_heap (s_tmr_heap t)) (\<lambda>top.
     case top of
       None \<Rightarrow> Inr (Some (None, t))
     | Some a \<Rightarrow>
         bind_res (ts_at a t) (\<lambda>x.
         if t_armed x = 0 then bind_res (drop_top a t) (load_loop n)
         else Inr (Some (Some x, t))))"

text \<open>The result is the code, and the interval in seconds and nanoseconds if it was set.\<close>

definition load_heap_timers_katcp ::
  "timeval \<Rightarrow> 'u tstate option \<Rightarrow> ((int \<times> (int \<times> int) option) \<times> 'u tstate option) option res" where
  "load_heap_timers_katcp now d =
     (case d of
        None \<Rightarrow> Inr (Some ((-1, None), None))
      | Some t \<Rightarrow>
          if s_tmr_heap t = None then Inr (Some ((1, None), Some t))
          else bind_res (load_loop (get_size_of_heap (s_tmr_heap t) + 1) t) (\<lambda>r.
            case r of
              None \<Rightarrow> Inr None
            | Some (None, t1) \<Rightarrow> Inr (Some ((-1, Some (0, 0)), Some t1))
            | Some (Some x, t1) \<Rightarrow>
                (case sub_time_katcp (t_when x) now of (_, delta) \<Rightarrow>
                   Inr (Some ((0, Some (tv_sec delta, tv_usec delta * 1000)), Some t1)))))"

text \<open>A callback gets its datum and may do anything to the state, timers included; \<open>cb\<close>
  interprets the addresses of callbacks. \<open>now\<close> and \<open>later\<close> are the time before and after
  it.\<close>

definition replan :: "timeval \<Rightarrow> ts \<Rightarrow> ts res" where
  "replan later x =
     (let due = add_time_katcp (t_when x) (t_interval x) in
      if cmp_time_katcp due later \<le> 0 then
        let diff = snd (sub_time_katcp later due);
            td = tv_sec diff * 1000000 + tv_usec diff;
            ti = tv_sec (t_interval x) * 1000000 + tv_usec (t_interval x) in
        if ti = 0 then Inl Abort
        else Inr (x\<lparr>t_when := add_time_katcp later (t_interval x), t_misses := t_misses x + td div ti\<rparr>)
      else Inr (x\<lparr>t_when := due\<rparr>))"

definition run_due ::
  "(nat \<Rightarrow> nat \<Rightarrow> 'u tstate \<Rightarrow> (int \<times> 'u tstate) res) \<Rightarrow> timeval \<Rightarrow> timeval \<Rightarrow> nat \<Rightarrow> ts \<Rightarrow> 'u tstate \<Rightarrow> (int \<times> 'u tstate) res" where
  "run_due cb now later a x t =
     (let deadline = snd (sub_time_katcp now \<lparr>tv_sec = 0, tv_usec = KATCP_DEFAULT_DEADLINE\<rparr>);
          t1 = ts_put a (if cmp_time_katcp (t_when x) deadline \<le> 0 then x\<lparr>t_late := t_late x + 1\<rparr>
                         else x\<lparr>t_hits := t_hits x + 1\<rparr>) t in
      bind_res (cb (t_call x) (t_data x) t1) (\<lambda>(_, t2).
      bind_res (ts_at a t2) (\<lambda>y.
      if s_tmr_heap t2 = None then Inl UseAfterFree
      else if tv_sec (t_interval y) = 0 \<and> tv_usec (t_interval y) = 0 then
        bind_res (drop_top a (ts_put a (y\<lparr>t_armed := 0\<rparr>) t2)) (\<lambda>t3. Inr (0, t3))
      else
        bind_res (replan later y) (\<lambda>z.
        let t3 = ts_put a z t2 in
        bind_res (update_node_on_heap (cmp_heap_timers_katcp (ts_store t3)) 0 a (s_tmr_heap t3)) (\<lambda>(_, ho).
        Inr (0, t3\<lparr>s_tmr_heap := ho\<rparr>))))))"

definition run_heap_timers_katcp ::
  "(nat \<Rightarrow> nat \<Rightarrow> 'u tstate \<Rightarrow> (int \<times> 'u tstate) res) \<Rightarrow> timeval \<Rightarrow> timeval \<Rightarrow> 'u tstate option
   \<Rightarrow> (int \<times> 'u tstate option) res" where
  "run_heap_timers_katcp cb now later d =
     on_shared d (-1) (\<lambda>t.
       if s_tmr_heap t = None then Inr (1, t)
       else bind_res (get_top_of_heap (s_tmr_heap t)) (\<lambda>top.
       case top of
         None \<Rightarrow> Inr (-1, t)
       | Some a \<Rightarrow>
           bind_res (ts_at a t) (\<lambda>x.
           if t_armed x = 0 then bind_res (drop_top a t) (\<lambda>t1. Inr (1, t1))
           else if cmp_time_katcp (t_when x) now > 0 then Inr (1, t)
           else run_due cb now later a x t)))"

text \<open>Freeing everything.\<close>

fun empty_loop :: "'u tstate \<Rightarrow> nat \<Rightarrow> nat \<Rightarrow> 'u tstate res" where
  "empty_loop t i 0 = Inr t"
| "empty_loop t i (Suc n) =
     bind_res (get_data_ref_by_index_heap (s_tmr_heap t) (int i)) (\<lambda>ao.
     case ao of
       None \<Rightarrow> empty_loop t (Suc i) n
     | Some a \<Rightarrow> bind_res (destroy_ts_katcp a t) (\<lambda>t1. empty_loop t1 (Suc i) n))"

definition empty_heap_timers_katcp :: "'u tstate option \<Rightarrow> (int \<times> 'u tstate option) res" where
  "empty_heap_timers_katcp d =
     on_shared d (-1) (\<lambda>t.
       if s_tmr_heap t = None then Inr (0, t)
       else bind_res (empty_loop t 0 (get_size_of_heap (s_tmr_heap t))) (\<lambda>t1.
            bind_res (destroy_heap (s_tmr_heap t1)) (\<lambda>_. Inr (0, t1\<lparr>s_tmr_heap := None\<rparr>))))"

section \<open>The invariant\<close>

text \<open>Every timer is in the heap, once, and nothing else is.\<close>

definition heap_data :: "'u tstate \<Rightarrow> nat list" where
  "heap_data t = (case s_tmr_heap t of None \<Rightarrow> [] | Some h \<Rightarrow> hdata h)"

definition when_key :: "(nat \<Rightarrow> ts option) \<Rightarrow> nat \<Rightarrow> int \<times> int" where
  "when_key st a = (tv_sec (when_of st a), tv_usec (when_of st a))"

definition timers_ok :: "'u tstate \<Rightarrow> bool" where
  "timers_ok t \<longleftrightarrow>
     (\<forall>h. s_tmr_heap t = Some h \<longrightarrow> heap_ok (when_key (ts_store t)) h) \<and>
     distinct (heap_data t) \<and> set (heap_data t) = dom (ts_store t) \<and> (\<forall>a \<in> dom (ts_store t). a < ts_fresh t)"

lemma ts_put_simps [simp]:
  "ts_store (ts_put a x t) = (ts_store t)(a \<mapsto> x)" "s_tmr_heap (ts_put a x t) = s_tmr_heap t"
  "ts_fresh (ts_put a x t) = ts_fresh t" "ts_user (ts_put a x t) = ts_user t" "heap_data (ts_put a x t) = heap_data t"
  by (simp_all add: ts_put_def heap_data_def)

lemma cmp_heap_key: "cmp_heap_timers_katcp st = cmp_of (when_key st)"
  by (intro ext) (auto simp: cmp_heap_timers_katcp_def cmp_time_katcp_def when_key_def)

lemma timers_ok_heap: "timers_ok t \<Longrightarrow> s_tmr_heap t = Some h \<Longrightarrow> heap_ok (when_key (ts_store t)) h"
  by (simp add: timers_ok_def)

lemma heap_data_Some [simp]: "s_tmr_heap t = Some h \<Longrightarrow> heap_data t = hdata h"
  by (simp add: heap_data_def)

lemma timers_live: "timers_ok t \<Longrightarrow> a \<in> set (heap_data t) \<Longrightarrow> \<exists>x. ts_store t a = Some x"
  by (auto simp: timers_ok_def)

lemma heap_ok_key_cong:
  assumes "heap_ok k h" "\<And>a. a \<in> set (hdata h) \<Longrightarrow> k' a = k a"
  shows "heap_ok k' h"
proof -
  have "edge k' (hdata h) i = edge k (hdata h) i" if "0 < i" "i < h_size h" for i
    using assms(2) [of "hdata h ! i"] assms(2) [of "hdata h ! parent i"] parent_less [OF that(1)] that
    by (simp add: edge_def)
  then show ?thesis using assms(1) by (simp add: heap_ok_def heap_ordered_def)
qed

lemma when_key_put: "when_key (st(a \<mapsto> x)) b = (if b = a then (tv_sec (t_when x), tv_usec (t_when x)) else when_key st b)"
  by (simp add: when_key_def when_of_def)

text \<open>Changing a timer without its time.\<close>

lemma timers_ok_put:
  assumes "timers_ok t" "ts_store t a = Some x" "t_when y = t_when x"
  shows "timers_ok (ts_put a y t)"
proof -
  have "when_key ((ts_store t)(a \<mapsto> y)) = when_key (ts_store t)"
    using assms(2,3) by (intro ext) (simp add: when_key_put, simp add: when_key_def when_of_def)
  moreover have "dom ((ts_store t)(a \<mapsto> y)) = dom (ts_store t)" using assms(2) by auto
  ultimately show ?thesis using assms(1) by (simp add: timers_ok_def)
qed

section \<open>The operations keep the timers\<close>

text \<open>Planning a timer anew: its object changes where it is, then its node is updated.\<close>

lemma reput_ok:
  assumes ok: "timers_ok t" and h: "s_tmr_heap t = Some h" and j: "j < h_size h" "hdata h ! j = a"
  shows "\<exists>h'. update_node_on_heap (cmp_heap_timers_katcp (ts_store (ts_put a z t))) (int j) a (s_tmr_heap (ts_put a z t)) = Inr (0, Some h') \<and>
    timers_ok ((ts_put a z t)\<lparr>s_tmr_heap := Some h'\<rparr>)"
proof -
  have d: "distinct (hdata h)" "set (hdata h) = dom (ts_store t)" "\<forall>b \<in> dom (ts_store t). b < ts_fresh t"
    using ok h by (simp_all add: timers_ok_def)
  define st where "st = ts_store (ts_put a z t)"
  have "when_key st (hdata h ! i) = when_key (ts_store t) (hdata h ! i)" if "i < h_size h" "i \<noteq> j" for i
    using that j d(1) by (auto simp: st_def when_key_put nth_eq_iff_index_eq)
  from update_node_ok [OF timers_ok_heap [OF ok h] j(1) this, of a]
  obtain h' where h': "update_node_on_heap (cmp_heap_timers_katcp st) (int j) a (s_tmr_heap (ts_put a z t)) = Inr (0, Some h')"
      "heap_ok (when_key st) h'" "mset (hdata h') = mset ((hdata h)[j := a])"
    using h by (auto simp: cmp_heap_key)
  have m: "mset (hdata h') = mset (hdata h)" using h'(3) list_update_id [of "hdata h" j] j(2) by simp
  have a: "a \<in> dom (ts_store t)" using d(2) j by (metis length_hdata nth_mem)
  have "distinct (hdata h')" "set (hdata h') = set (hdata h)"
    using d(1) mset_eq_imp_distinct_iff [OF m] mset_eq_setD [OF m] by simp_all
  then have "timers_ok ((ts_put a z t)\<lparr>s_tmr_heap := Some h'\<rparr>)"
    using h'(2) d a unfolding st_def by (auto simp: timers_ok_def)
  with h'(1) show ?thesis unfolding st_def by blast
qed

text \<open>Dropping the top.\<close>

lemma drop_top_ok:
  assumes ok: "timers_ok t" and h: "s_tmr_heap t = Some h" "0 < h_size h" "hdata h ! 0 = a"
  shows "\<exists>h'. drop_top a t = Inr (t\<lparr>s_tmr_heap := Some h', ts_store := (ts_store t)(a := None)\<rparr>) \<and>
    timers_ok (t\<lparr>s_tmr_heap := Some h', ts_store := (ts_store t)(a := None)\<rparr>) \<and> h_size h' = h_size h - 1"
proof -
  have d: "distinct (hdata h)" "set (hdata h) = dom (ts_store t)" "\<forall>b \<in> dom (ts_store t). b < ts_fresh t"
    using ok h by (simp_all add: timers_ok_def)
  have a: "ts_store t a \<noteq> None" using d(2) h(2,3) nth_mem [of 0 "hdata h"] by auto
  obtain h' where h': "remove_top_of_heap (cmp_heap_timers_katcp (ts_store t)) (Some h) = Inr (Some a, Some h')"
      "heap_ok (when_key (ts_store t)) h'" "h_size h' = h_size h - 1" "mset (hdata h') = mset (hdata h) - {#a#}"
    using remove_top_ok [OF timers_ok_heap [OF ok h(1)] h(2)] h(3) by (auto simp: cmp_heap_key)
  obtain ys where ys: "hdata h = a # ys" using h(2,3) by (cases "hdata h") (auto simp flip: length_hdata)
  then have m: "mset (hdata h') = mset ys" using h'(4) by simp
  have e: "distinct (hdata h')" "set (hdata h') = dom (ts_store t) - {a}" "a \<notin> set (hdata h')"
    using d(1,2) ys mset_eq_imp_distinct_iff [OF m] mset_eq_setD [OF m] by auto
  have "heap_ok (when_key ((ts_store t)(a := None))) h'"
    using e(3) by (intro heap_ok_key_cong [OF h'(2)]) (auto simp: when_key_def when_of_def)
  then have "timers_ok (t\<lparr>s_tmr_heap := Some h', ts_store := (ts_store t)(a := None)\<rparr>)"
    using e(1,2) d(3) by (auto simp: timers_ok_def)
  moreover have "drop_top a t = Inr (t\<lparr>s_tmr_heap := Some h', ts_store := (ts_store t)(a := None)\<rparr>)"
    using h(1) h'(1) a by (auto simp: drop_top_def destroy_ts_katcp_def ts_at_def)
  ultimately show ?thesis using h'(3) by blast
qed

text \<open>Looking up, with a test that gives an answer for every timer.\<close>

definition found_ok :: "(ts \<Rightarrow> bool) \<Rightarrow> 'u tstate \<Rightarrow> nat \<Rightarrow> (nat \<times> nat) option \<Rightarrow> bool" where
  "found_ok q t i r \<longleftrightarrow>
     (case r of
        None \<Rightarrow> \<forall>a \<in> set (drop i (heap_data t)). \<forall>x. ts_store t a = Some x \<longrightarrow> \<not> q x
      | Some (a, j) \<Rightarrow> j < length (heap_data t) \<and> a = heap_data t ! j \<and> (\<exists>x. ts_store t a = Some x \<and> q x))"

lemma find_from_ok:
  assumes "timers_ok t" "s_tmr_heap t = Some h" "i + n = h_size h"
    "\<And>a x. ts_store t a = Some x \<Longrightarrow> p x = Inr (q x)"
  shows "\<exists>r. find_from p t i n = Inr r \<and> found_ok q t i r"
  using assms(3)
proof (induction n arbitrary: i)
  case 0
  then show ?case using assms(2) by (simp add: found_ok_def)
next
  case (Suc n)
  have i: "i < h_size h" using Suc.prems by simp
  have sh: "shaped h" using timers_ok_heap [OF assms(1,2)] by (simp add: heap_ok_def)
  let ?a = "hdata h ! i"
  obtain x where x: "ts_store t ?a = Some x"
    using timers_live [OF assms(1), of ?a] assms(2) i by auto
  have get: "get_data_ref_by_index_heap (s_tmr_heap t) (int i) = Inr (Some ?a)"
    using get_data_ok [OF sh, of "int i"] assms(2) i by simp
  have drop: "drop i (heap_data t) = ?a # drop (Suc i) (heap_data t)"
    using assms(2) i by (simp add: Cons_nth_drop_Suc)
  show ?case
  proof (cases "q x")
    case True
    then have "find_from p t i (Suc n) = Inr (Some (?a, i))"
      using get x assms(4) [OF x] by (simp add: ts_at_def)
    then show ?thesis using True x i assms(2) by (simp add: found_ok_def)
  next
    case False
    obtain r where r: "find_from p t (Suc i) n = Inr r" "found_ok q t (Suc i) r"
      using Suc.IH [of "Suc i"] Suc.prems by auto
    have "find_from p t i (Suc n) = Inr r"
      using get x assms(4) [OF x] False r(1) by (simp add: ts_at_def)
    moreover have "found_ok q t i r"
      using r(2) drop False x by (auto simp: found_ok_def split: option.splits)
    ultimately show ?thesis by blast
  qed
qed

text \<open>A name is found by any of its beginnings that is the name of a timer.\<close>

definition begins :: "string \<Rightarrow> ts \<Rightarrow> bool" where
  "begins s x \<longleftrightarrow> (\<exists>n. t_name x = Some n \<and> take (length n) s = n)"

lemma name_matches_begins: "t_name x = Some n \<Longrightarrow> name_matches s x = Inr (begins s x)"
  by (simp add: name_matches_def strncmp_def begins_def strcmp_eq_iff)

lemma find_by_name_ok:
  assumes "timers_ok t" "\<And>a x. ts_store t a = Some x \<Longrightarrow> t_name x \<noteq> None"
  shows "\<exists>r. find_by_name_heap_timer_katcp (Some s) t = Inr r \<and> found_ok (begins s) t 0 r"
proof (cases "s_tmr_heap t")
  case None
  then show ?thesis by (simp add: find_by_name_heap_timer_katcp_def found_ok_def heap_data_def)
next
  case (Some h)
  have "name_matches s x = Inr (begins s x)" if "ts_store t a = Some x" for a x
    using assms(2) [OF that] name_matches_begins by auto
  then show ?thesis
    using find_from_ok [OF assms(1) Some, of 0 "h_size h" "name_matches s" "begins s"] Some
    by (simp add: find_by_name_heap_timer_katcp_def get_size_of_heap_def)
qed

lemma find_by_data_ok:
  assumes "timers_ok t"
  shows "\<exists>r. find_by_data_ref_heap_timer_katcp d t = Inr r \<and> found_ok (\<lambda>x. t_data x = d) t 0 r"
proof (cases "s_tmr_heap t")
  case None
  then show ?thesis by (simp add: find_by_data_ref_heap_timer_katcp_def found_ok_def heap_data_def)
next
  case (Some h)
  then show ?thesis
    using find_from_ok [OF assms Some, of 0 "h_size h" "\<lambda>x. Inr (t_data x = d)" "\<lambda>x. t_data x = d"]
    by (simp add: find_by_data_ref_heap_timer_katcp_def get_size_of_heap_def)
qed

definition planned :: "timeval \<Rightarrow> timeval \<Rightarrow> nat \<Rightarrow> nat \<Rightarrow> string option \<Rightarrow> ts" where
  "planned interval due call data name =
     \<lparr>t_name = name, t_when = due, t_interval = interval, t_armed = 1, t_data = data, t_call = call,
      t_hits = 0, t_misses = 0, t_late = 0\<rparr>"

definition name_free :: "string option \<Rightarrow> 'u tstate \<Rightarrow> bool" where
  "name_free name t \<longleftrightarrow>
     (case name of
        None \<Rightarrow> True
      | Some s \<Rightarrow> \<forall>a x. ts_store t a = Some x \<longrightarrow> t_name x \<noteq> None \<and> \<not> begins s x)"

lemma find_free:
  assumes "timers_ok t" "name_free name t"
  shows "find_by_name_heap_timer_katcp name t = Inr None"
proof (cases name)
  case None
  then show ?thesis by (simp add: find_by_name_heap_timer_katcp_def)
next
  case (Some s)
  then obtain r where r: "find_by_name_heap_timer_katcp (Some s) t = Inr r" "found_ok (begins s) t 0 r"
    using find_by_name_ok [OF assms(1), of s] assms(2) by (auto simp: name_free_def)
  have "r = None"
    using r(2) assms(2) Some by (auto simp: found_ok_def name_free_def split: option.splits)
  then show ?thesis using r(1) Some by simp
qed

lemma register_ok:
  assumes ok: "timers_ok t" and mem: "\<forall>i. mem i" and free: "name_free name t"
  shows "\<exists>t'. register_heap_timer mem interval due call data name t = Inr (0, t') \<and> timers_ok t' \<and>
    ts_store t' = (ts_store t)(ts_fresh t \<mapsto> planned interval due call data name) \<and> ts_user t' = ts_user t \<and>
    ts_store t (ts_fresh t) = None"
proof -
  define t1 where "t1 = (if s_tmr_heap t = None then t\<lparr>s_tmr_heap := init_heap (mem 0)\<rparr> else t)"
  let ?a = "ts_fresh t" and ?x = "planned interval due call data name"
  obtain h where h: "s_tmr_heap t1 = Some h" "heap_ok (when_key (ts_store t)) h" "hdata h = heap_data t"
  proof (cases "s_tmr_heap t")
    case None
    then show thesis using that [of "\<lparr>h_size = 0, h_array = []\<rparr>"] mem
      by (simp add: t1_def init_heap_def heap_ok_def shaped_def hdata_def heap_ordered_def heap_data_def)
  next
    case (Some h)
    then show thesis using that [of h] timers_ok_heap [OF ok Some] by (simp add: t1_def)
  qed
  have t1: "ts_store t1 = ts_store t" "ts_fresh t1 = ?a" "ts_user t1 = ts_user t" by (simp_all add: t1_def)
  have d: "distinct (hdata h)" "set (hdata h) = dom (ts_store t)" "\<forall>b \<in> dom (ts_store t). b < ?a"
    using ok h(3) by (simp_all add: timers_ok_def)
  have new: "ts_store t ?a = None" using d(3) by (metis domIff less_irrefl)
  then have out: "?a \<notin> set (hdata h)" using d(2) by auto
  have ok1: "timers_ok t1" using h d t1 by (auto simp: timers_ok_def)
  have nf: "find_by_name_heap_timer_katcp name t1 = Inr None"
    using find_free [OF ok1] free t1 by (simp add: name_free_def split: option.splits)
  define st where "st = (ts_store t)(?a \<mapsto> ?x)"
  have "heap_ok (when_key st) h"
    using out by (intro heap_ok_key_cong [OF h(2)]) (auto simp: st_def when_key_put)
  from add_ok_one [OF this, of ?a] obtain h' where
    h': "add_to_heap (cmp_heap_timers_katcp st) [(True, True)] [?a] (Some h) = Inr (0, Some h')" "heap_ok (when_key st) h'"
      "mset (hdata h') = mset (?a # hdata h)"
    by (auto simp: cmp_heap_key heap_elems_def)
  let ?t' = "t1\<lparr>ts_store := st, ts_fresh := ?a + 1, s_tmr_heap := Some h'\<rparr>"
  have "register_heap_timer mem interval due call data name t = Inr (0, ?t')"
    unfolding register_heap_timer_def Let_def t1_def [symmetric]
    using h(1) nf mem h'(1) t1
    by (simp add: create_ts_katcp_def ts_at_def ts_put_def planned_def st_def)
  moreover have "\<forall>b \<in> dom (ts_store t). b < Suc ?a" using d(3) less_SucI by blast
  then have "timers_ok ?t'"
    using h'(2) d out mset_eq_imp_distinct_iff [OF h'(3)] mset_eq_setD [OF h'(3)]
    by (auto simp: timers_ok_def st_def)
  ultimately show ?thesis using new t1(3) by (auto simp: st_def)
qed

text \<open>Removing a disarmed timer and looking at the next one.\<close>

lemma top_ok:
  assumes "timers_ok t" "s_tmr_heap t = Some h"
  shows "get_top_of_heap (s_tmr_heap t) = Inr (if h_size h = 0 then None else Some (hdata h ! 0))"
  using get_top_ok [OF timers_ok_heap [OF assms]] assms(2) by simp

lemma top_first:
  assumes "timers_ok t" "s_tmr_heap t = Some h" "0 < h_size h"
  obtains x where "ts_store t (hdata h ! 0) = Some x"
    "\<And>b y. ts_store t b = Some y \<Longrightarrow> cmp_time_katcp (t_when x) (t_when y) \<le> 0"
proof -
  have mem: "hdata h ! 0 \<in> set (heap_data t)" using assms by simp
  obtain x where x: "ts_store t (hdata h ! 0) = Some x" using timers_live [OF assms(1) mem] by blast
  have "cmp_time_katcp (t_when x) (t_when y) \<le> 0" if y: "ts_store t b = Some y" for b y
  proof -
    have "b \<in> set (hdata h)" using assms(1,2) y by (auto simp: timers_ok_def)
    then obtain i where i: "i < h_size h" "b = hdata h ! i" by (auto simp: in_set_conv_nth)
    have "when_key (ts_store t) (hdata h ! 0) \<le> when_key (ts_store t) b"
      using heap_ordered_top [of "when_key (ts_store t)" "hdata h" i] timers_ok_heap [OF assms(1,2)] i
      by (simp add: heap_ok_def)
    then show ?thesis using x y by (auto simp: when_key_def when_of_def cmp_time_katcp_def)
  qed
  with x show thesis using that by blast
qed

definition armed_part :: "(nat \<Rightarrow> ts option) \<Rightarrow> (nat \<Rightarrow> ts option) \<Rightarrow> bool" where
  \<comment> \<open>the second store lacks some of the disarmed timers of the first\<close>
  "armed_part st st' \<longleftrightarrow> (\<forall>a. st' a = st a \<or> st' a = None \<and> (\<exists>x. st a = Some x \<and> t_armed x = 0))"

lemma load_loop_ok:
  assumes "timers_ok t" "s_tmr_heap t = Some h" "h_size h < n"
  shows "\<exists>r t'. load_loop n t = Inr (Some (r, t')) \<and> timers_ok t' \<and> ts_user t' = ts_user t \<and>
    armed_part (ts_store t) (ts_store t') \<and>
    (case r of
       None \<Rightarrow> dom (ts_store t') = {}
     | Some x \<Rightarrow> t_armed x \<noteq> 0 \<and> (\<exists>a. ts_store t' a = Some x) \<and>
         (\<forall>b y. ts_store t' b = Some y \<longrightarrow> cmp_time_katcp (t_when x) (t_when y) \<le> 0))"
  using assms
proof (induction n arbitrary: t h)
  case (Suc n)
  note top = top_ok [OF Suc.prems(1,2)]
  show ?case
  proof (cases "h_size h = 0")
    case True
    then have "dom (ts_store t) = {}" using Suc.prems(1,2) by (simp add: timers_ok_def hdata_def)
    then show ?thesis using top True Suc.prems(1) by (auto simp: armed_part_def)
  next
    case False
    then have pos: "0 < h_size h" by simp
    let ?a = "hdata h ! 0"
    obtain x where x: "ts_store t ?a = Some x"
      "\<And>b y. ts_store t b = Some y \<Longrightarrow> cmp_time_katcp (t_when x) (t_when y) \<le> 0"
      using top_first [OF Suc.prems(1,2) pos] by blast
    show ?thesis
    proof (cases "t_armed x = 0")
      case False
      then have "load_loop (Suc n) t = Inr (Some (Some x, t))" using top pos x(1) by (simp add: ts_at_def)
      then show ?thesis using False x Suc.prems(1) by (auto simp: armed_part_def)
    next
      case True
      obtain h' where h': "drop_top ?a t = Inr (t\<lparr>s_tmr_heap := Some h', ts_store := (ts_store t)(?a := None)\<rparr>)"
          "timers_ok (t\<lparr>s_tmr_heap := Some h', ts_store := (ts_store t)(?a := None)\<rparr>)" "h_size h' = h_size h - 1"
        using drop_top_ok [OF Suc.prems(1,2) pos refl] by blast
      let ?t = "t\<lparr>s_tmr_heap := Some h', ts_store := (ts_store t)(?a := None)\<rparr>"
      have step: "load_loop (Suc n) t = load_loop n ?t"
        using top pos x(1) True h'(1) by (simp add: ts_at_def)
      have part: "armed_part (ts_store t) st'" if "armed_part (ts_store ?t) st'" for st'
        using that x(1) True by (auto simp: armed_part_def split: if_splits)
      have "h_size h' < n" using h'(3) Suc.prems(3) pos by linarith
      from Suc.IH [OF h'(2) _ this] obtain r t' where i: "load_loop n ?t = Inr (Some (r, t'))" "timers_ok t'"
          "ts_user t' = ts_user ?t" "armed_part (ts_store ?t) (ts_store t')"
          "case r of
             None \<Rightarrow> dom (ts_store t') = {}
           | Some x \<Rightarrow> t_armed x \<noteq> 0 \<and> (\<exists>a. ts_store t' a = Some x) \<and>
               (\<forall>b y. ts_store t' b = Some y \<longrightarrow> cmp_time_katcp (t_when x) (t_when y) \<le> 0)"
        by (auto simp del: fun_upd_apply)
      show ?thesis unfolding step using i(1-3,5) part [OF i(4)] by auto
    qed
  qed
qed simp

text \<open>The four ways to register, and the refusal.\<close>

definition taken :: "string \<Rightarrow> 'u tstate \<Rightarrow> bool" where
  "taken s t \<longleftrightarrow> (\<forall>a x. ts_store t a = Some x \<longrightarrow> t_name x \<noteq> None) \<and> (\<exists>a x. ts_store t a = Some x \<and> begins s x)"

lemma heap_data_store: "timers_ok t \<Longrightarrow> ts_store t a = Some x \<Longrightarrow> a \<in> set (heap_data t)"
  by (auto simp: timers_ok_def)

lemma register_taken:
  assumes ok: "timers_ok t" and tk: "taken s t"
  shows "register_heap_timer mem interval due call data (Some s) t = Inr (1, t)"
proof -
  obtain a x where x: "ts_store t a = Some x" "begins s x" using tk by (auto simp: taken_def)
  have mem_a: "a \<in> set (heap_data t)" by (rule heap_data_store [OF ok x(1)])
  then obtain h where h: "s_tmr_heap t = Some h" by (cases "s_tmr_heap t") (auto simp: heap_data_def)
  obtain r where r: "find_by_name_heap_timer_katcp (Some s) t = Inr r" "found_ok (begins s) t 0 r"
    using find_by_name_ok [OF ok, of s] tk by (auto simp: taken_def)
  have "r \<noteq> None" using r(2) mem_a x by (cases r) (auto simp: found_ok_def)
  then show ?thesis using r(1) h by (simp add: register_heap_timer_def)
qed

definition plans :: "'u tstate \<Rightarrow> ts \<Rightarrow> (int \<times> 'u tstate option) res \<Rightarrow> bool" where
  \<comment> \<open>the call succeeds, adds this timer, keeps the order and changes nothing else\<close>
  "plans t x r \<longleftrightarrow> (\<exists>t'. r = Inr (0, Some t') \<and> timers_ok t' \<and> ts_store t (ts_fresh t) = None \<and>
     ts_store t' = (ts_store t)(ts_fresh t \<mapsto> x) \<and> ts_user t' = ts_user t)"

lemmas register_defs =
  register_heap_timer_at_tv_katcp_def register_heap_timer_in_tv_katcp_def
  register_heap_timer_every_tv_katcp_def register_heap_timer_every_ms_katcp_def on_shared_def

text \<open>C23. Registering a timer, when memory lasts and no timer has its name or a beginning of
  it: the call reports 0 and exactly one timer is added, armed, with its callback, datum and
  name, due at the time given, or at the present plus the delay; it is repeated when it is
  registered with an interval, and milliseconds become seconds and microseconds. The queue
  stays in order and nothing else changes. When the name is taken, the call reports 1 and
  changes nothing.\<close>

theorem register_plans:
  assumes "timers_ok t" "\<forall>i. mem i"
  shows "(name_free name t \<longrightarrow>
      plans t (planned no_time tv call data name) (register_heap_timer_at_tv_katcp mem (Some tv) call data name (Some t)) \<and>
      plans t (planned no_time (add_time_katcp now tv) call data name)
        (register_heap_timer_in_tv_katcp mem now (Some tv) call data name (Some t)) \<and>
      plans t (planned tv (add_time_katcp now tv) call data name)
        (register_heap_timer_every_tv_katcp mem now (Some tv) call data name (Some t)) \<and>
      plans t (planned (component_time_katcp ms) (add_time_katcp now (component_time_katcp ms)) call data name)
        (register_heap_timer_every_ms_katcp mem now ms call data name (Some t))) \<and>
    (\<forall>s. name = Some s \<and> taken s t \<longrightarrow>
      register_heap_timer_at_tv_katcp mem (Some tv) call data name (Some t) = Inr (1, Some t) \<and>
      register_heap_timer_in_tv_katcp mem now (Some tv) call data name (Some t) = Inr (1, Some t) \<and>
      register_heap_timer_every_tv_katcp mem now (Some tv) call data name (Some t) = Inr (1, Some t) \<and>
      register_heap_timer_every_ms_katcp mem now ms call data name (Some t) = Inr (1, Some t))"
proof -
  have "plans t (planned interval due call data name)
      (bind_res (register_heap_timer mem interval due call data name t) (\<lambda>(v, t1). Inr (v, Some t1)))"
    if "name_free name t" for interval due
    using register_ok [OF assms that, of interval due call data] by (auto simp: plans_def)
  then show ?thesis
    using register_taken [OF assms(1)] by (simp add: register_defs component_time_katcp_def)
qed

text \<open>A state with two timers: number 0 every 1.5 s and due at 10 s, number 1 once at 12 s.\<close>

definition sample_timers :: "int tstate" where
  "sample_timers =
     \<lparr>s_tmr_heap = Some \<lparr>h_size = 2, h_array = [Some \<lparr>n_index = 0, n_data = 0\<rparr>, Some \<lparr>n_index = 1, n_data = 1\<rparr>]\<rparr>,
      ts_store = [0 \<mapsto> planned \<lparr>tv_sec = 1, tv_usec = 500000\<rparr> \<lparr>tv_sec = 10, tv_usec = 0\<rparr> 7 70 (Some ''tick''),
                  1 \<mapsto> planned no_time \<lparr>tv_sec = 12, tv_usec = 0\<rparr> 8 80 (Some ''once'')],
      ts_fresh = 2, ts_user = 0\<rparr>"

lemma sample_timers_heap [simp]: "heap_data sample_timers = [0, 1]" "ts_fresh sample_timers = 2"
  by (simp_all add: heap_data_def sample_timers_def hdata_def upt_rec numeral_2_eq_2)

lemma sample_timers_store: "ts_store sample_timers a = Some x \<Longrightarrow>
   a = 0 \<and> x = planned \<lparr>tv_sec = 1, tv_usec = 500000\<rparr> \<lparr>tv_sec = 10, tv_usec = 0\<rparr> 7 70 (Some ''tick'') \<or>
   a = 1 \<and> x = planned no_time \<lparr>tv_sec = 12, tv_usec = 0\<rparr> 8 80 (Some ''once'')"
  by (auto simp: sample_timers_def split: if_splits)

lemma sample_timers_ok: "timers_ok sample_timers"
proof -
  have "shaped h" "hdata h = [0, 1]" if "s_tmr_heap sample_timers = Some h" for h
    using that by (auto simp: sample_timers_def shaped_def hdata_def upt_rec numeral_2_eq_2 less_Suc_eq)
  moreover have "heap_ordered (when_key (ts_store sample_timers)) [0, 1]"
    by (auto simp: heap_ordered_def edge_def parent_def when_key_def when_of_def sample_timers_def planned_def less_Suc_eq)
  moreover have "dom (ts_store sample_timers) = {0, 1}" by (auto simp: sample_timers_def)
  ultimately show ?thesis by (auto simp: timers_ok_def heap_ok_def)
qed

theorem register_plans_witness:
  "plans sample_timers (planned \<lparr>tv_sec = 2, tv_usec = 500000\<rparr> \<lparr>tv_sec = 11, tv_usec = 500000\<rparr> 5 50 (Some ''new''))
     (register_heap_timer_every_ms_katcp (\<lambda>_. True) \<lparr>tv_sec = 9, tv_usec = 0\<rparr> 2500 5 50 (Some ''new'') (Some sample_timers)) \<and>
   register_heap_timer_at_tv_katcp (\<lambda>_. True) (Some no_time) 5 50 (Some ''tick_tock'') (Some sample_timers) =
     Inr (1, Some sample_timers)"
proof -
  have ms: "component_time_katcp 2500 = \<lparr>tv_sec = 2, tv_usec = 500000\<rparr>" by (simp add: component_time_katcp_def)
  have "name_free (Some ''new'') sample_timers"
    by (auto simp: name_free_def begins_def planned_def dest!: sample_timers_store)
  moreover have "taken ''tick_tock'' sample_timers"
    unfolding taken_def
  proof (intro conjI exI)
    show "ts_store sample_timers 0 = Some (planned \<lparr>tv_sec = 1, tv_usec = 500000\<rparr> \<lparr>tv_sec = 10, tv_usec = 0\<rparr> 7 70 (Some ''tick''))"
      by (simp add: sample_timers_def)
  qed (auto simp: begins_def planned_def dest!: sample_timers_store)
  ultimately show ?thesis
    using register_plans [OF sample_timers_ok, of "\<lambda>_. True" "Some ''new''" no_time 5 50 "\<lparr>tv_sec = 9, tv_usec = 0\<rparr>" 2500]
      register_plans [OF sample_timers_ok, of "\<lambda>_. True" "Some ''tick_tock''" no_time 5 50 no_time 0]
    by (simp add: ms add_time_katcp_def)
qed

text \<open>Running.\<close>

definition regular :: "ts \<Rightarrow> bool" where
  "regular x \<longleftrightarrow> tv_norm (t_when x) \<and> tv_norm (t_interval x) \<and> 0 \<le> tv_sec (t_interval x)"

definition once :: "ts \<Rightarrow> bool" where
  "once x \<longleftrightarrow> tv_micros (t_interval x) = 0"

lemma once_eq: "regular x \<Longrightarrow> once x \<longleftrightarrow> tv_sec (t_interval x) = 0 \<and> tv_usec (t_interval x) = 0"
  by (auto simp: regular_def once_def tv_defs)

definition next_due :: "timeval \<Rightarrow> ts \<Rightarrow> int" where
  \<comment> \<open>in microseconds: one interval after it was due, or one interval from now when that is past\<close>
  "next_due later x =
     (let w = tv_micros (t_when x) + tv_micros (t_interval x) in
      if w \<le> tv_micros later then tv_micros later + tv_micros (t_interval x) else w)"

definition same_plan :: "ts \<Rightarrow> ts \<Rightarrow> bool" where
  \<comment> \<open>but for the time and the statistics\<close>
  "same_plan x z \<longleftrightarrow> t_name z = t_name x \<and> t_interval z = t_interval x \<and> t_armed z = t_armed x \<and>
     t_data z = t_data x \<and> t_call z = t_call x"

lemma replan_ok:
  assumes "regular x" "\<not> once x" "tv_norm later"
  shows "\<exists>z. replan later x = Inr z \<and> same_plan x z \<and> regular z \<and> tv_micros (t_when z) = next_due later x \<and>
    tv_micros later < tv_micros (t_when z)"
proof -
  have n: "tv_norm (t_when x)" "tv_norm (t_interval x)" using assms(1) by (simp_all add: regular_def)
  have pos: "0 < tv_micros (t_interval x)" using assms(1,2) by (auto simp: regular_def once_def tv_defs)
  then have ti: "tv_sec (t_interval x) * 1000000 + tv_usec (t_interval x) \<noteq> 0" by (simp add: tv_micros_def)
  have a: "tv_norm (add_time_katcp (t_when x) (t_interval x))" "tv_norm (add_time_katcp later (t_interval x))"
    using n assms(3) by (simp_all add: add_time_norm)
  show ?thesis
    using cmp_time_micros [OF a(1) assms(3)] pos ti a assms(1)
    by (auto simp: replan_def Let_def next_due_def same_plan_def regular_def sgn_if split: if_splits)
qed

text \<open>A callback that leaves the timers alone.\<close>

definition quiet :: "(nat \<Rightarrow> nat \<Rightarrow> int) \<Rightarrow> (nat \<Rightarrow> nat \<Rightarrow> 'u \<Rightarrow> 'u) \<Rightarrow> nat \<Rightarrow> nat \<Rightarrow> 'u tstate \<Rightarrow> (int \<times> 'u tstate) res" where
  "quiet ret step c d t = Inr (ret c d, t\<lparr>ts_user := step c d (ts_user t)\<rparr>)"

lemma timers_ok_user [simp]: "timers_ok (t\<lparr>ts_user := u\<rparr>) \<longleftrightarrow> timers_ok t"
  by (simp add: timers_ok_def heap_data_def)

definition fired :: "timeval \<Rightarrow> ts \<Rightarrow> ts option \<Rightarrow> bool" where
  \<comment> \<open>what becomes of a timer that has run\<close>
  "fired later x zo \<longleftrightarrow>
     (case zo of
        None \<Rightarrow> once x
      | Some z \<Rightarrow> \<not> once x \<and> same_plan x z \<and> regular z \<and> tv_micros (t_when z) = next_due later x)"

lemma run_due_ok:
  assumes ok: "timers_ok t" and h: "s_tmr_heap t = Some h" "0 < h_size h" "hdata h ! 0 = a"
    and x: "ts_store t a = Some x" "regular x" and later: "tv_norm later"
  shows "\<exists>t' zo. run_due (quiet ret step) now later a x t = Inr (0, t') \<and> timers_ok t' \<and>
    ts_user t' = step (t_call x) (t_data x) (ts_user t) \<and> ts_store t' = (ts_store t)(a := zo) \<and> fired later x zo"
proof -
  let ?u = "step (t_call x) (t_data x) (ts_user t)"
  define x1 where "x1 = (if cmp_time_katcp (t_when x) (snd (sub_time_katcp now \<lparr>tv_sec = 0, tv_usec = KATCP_DEFAULT_DEADLINE\<rparr>)) \<le> 0
     then x\<lparr>t_late := t_late x + 1\<rparr> else x\<lparr>t_hits := t_hits x + 1\<rparr>)"
  have x1: "t_when x1 = t_when x" "same_plan x x1" "regular x1" "once x1 = once x" "next_due later x1 = next_due later x"
    using x(2) by (simp_all add: x1_def same_plan_def regular_def once_def next_due_def Let_def)
  define t2 where "t2 = (ts_put a x1 t)\<lparr>ts_user := ?u\<rparr>"
  have ok2: "timers_ok t2" using timers_ok_put [OF ok x(1) x1(1)] by (simp add: t2_def)
  have t2: "ts_store t2 = (ts_store t)(a \<mapsto> x1)" "s_tmr_heap t2 = Some h" "ts_user t2 = ?u" by (simp_all add: t2_def h(1))
  have run: "run_due (quiet ret step) now later a x t =
      (if tv_sec (t_interval x1) = 0 \<and> tv_usec (t_interval x1) = 0 then
        bind_res (drop_top a (ts_put a (x1\<lparr>t_armed := 0\<rparr>) t2)) (\<lambda>t3. Inr (0, t3))
      else
        bind_res (replan later x1) (\<lambda>z.
        let t3 = ts_put a z t2 in
        bind_res (update_node_on_heap (cmp_heap_timers_katcp (ts_store t3)) 0 a (s_tmr_heap t3)) (\<lambda>(_, ho).
        Inr (0, t3\<lparr>s_tmr_heap := ho\<rparr>))))"
    unfolding run_due_def Let_def x1_def [symmetric] quiet_def
    by (simp add: ts_at_def t2 flip: t2_def)
  show ?thesis
  proof (cases "once x")
    case True
    let ?t = "ts_put a (x1\<lparr>t_armed := 0\<rparr>) t2"
    have "timers_ok ?t" by (rule timers_ok_put [OF ok2, of _ x1]) (simp_all add: t2)
    from drop_top_ok [OF this _ h(2,3)] obtain h' where
      d: "drop_top a ?t = Inr (?t\<lparr>s_tmr_heap := Some h', ts_store := (ts_store ?t)(a := None)\<rparr>)"
        "timers_ok (?t\<lparr>s_tmr_heap := Some h', ts_store := (ts_store ?t)(a := None)\<rparr>)"
      by (auto simp: t2 simp del: fun_upd_apply)
    have "run_due (quiet ret step) now later a x t = Inr (0, ?t\<lparr>s_tmr_heap := Some h', ts_store := (ts_store ?t)(a := None)\<rparr>)"
      using run once_eq [OF x1(3)] True x1(4) d(1) by simp
    then show ?thesis using d(2) True t2
      by (intro exI [of _ "?t\<lparr>s_tmr_heap := Some h', ts_store := (ts_store ?t)(a := None)\<rparr>"] exI [of _ None])
        (simp add: fired_def)
  next
    case False
    obtain z where z: "replan later x1 = Inr z" "same_plan x1 z" "regular z" "tv_micros (t_when z) = next_due later x"
      using replan_ok [OF x1(3) _ later] x1(4,5) False by auto
    obtain h' where u: "update_node_on_heap (cmp_heap_timers_katcp (ts_store (ts_put a z t2))) 0 a (s_tmr_heap (ts_put a z t2)) = Inr (0, Some h')"
        "timers_ok ((ts_put a z t2)\<lparr>s_tmr_heap := Some h'\<rparr>)"
      using reput_ok [OF ok2 t2(2) h(2,3), of z] by auto
    have "run_due (quiet ret step) now later a x t = Inr (0, (ts_put a z t2)\<lparr>s_tmr_heap := Some h'\<rparr>)"
      using run once_eq [OF x1(3)] False x1(4) z(1) u(1) by auto
    moreover have "fired later x (Some z)" using z x1(2) False by (simp add: fired_def same_plan_def)
    ultimately show ?thesis using u(2) t2 by (intro exI [of _ "(ts_put a z t2)\<lparr>s_tmr_heap := Some h'\<rparr>"] exI [of _ "Some z"]) simp
  qed
qed

text \<open>C21. A run of the timers looks at the earliest timer alone. A disarmed one is taken out and
  freed; one that is not due stays, and then no timer is due, and nothing changes; one that is
  due has its callback run, once, with its datum. A timer without an interval is then gone,
  and any other is due one interval after it was, or one interval from now when that is
  already past. No other timer changes, and the queue stays in order. (The callback leaves the
  timers alone.)\<close>

theorem run_fires_earliest:
  assumes "timers_ok t" "ts_store t b \<noteq> None" "tv_norm later" "\<forall>c y. ts_store t c = Some y \<longrightarrow> regular y"
  shows "\<exists>a x. ts_store t a = Some x \<and>
    (\<forall>c y. ts_store t c = Some y \<longrightarrow> cmp_time_katcp (t_when x) (t_when y) \<le> 0) \<and>
    (if t_armed x = 0 then
       \<exists>t'. run_heap_timers_katcp (quiet ret step) now later (Some t) = Inr (1, Some t') \<and> timers_ok t' \<and>
         ts_store t' = (ts_store t)(a := None) \<and> ts_user t' = ts_user t
     else if cmp_time_katcp (t_when x) now > 0 then
       run_heap_timers_katcp (quiet ret step) now later (Some t) = Inr (1, Some t)
     else
       \<exists>t' zo. run_heap_timers_katcp (quiet ret step) now later (Some t) = Inr (0, Some t') \<and> timers_ok t' \<and>
         ts_user t' = step (t_call x) (t_data x) (ts_user t) \<and> ts_store t' = (ts_store t)(a := zo) \<and> fired later x zo)"
proof -
  obtain x0 where "ts_store t b = Some x0" using assms(2) by auto
  from heap_data_store [OF assms(1) this] obtain h where h: "s_tmr_heap t = Some h" "0 < h_size h"
    by (cases "s_tmr_heap t") (auto simp: heap_data_def hdata_def)
  let ?a = "hdata h ! 0"
  obtain x where x: "ts_store t ?a = Some x" "\<And>c y. ts_store t c = Some y \<Longrightarrow> cmp_time_katcp (t_when x) (t_when y) \<le> 0"
    using top_first [OF assms(1) h] by blast
  have top: "get_top_of_heap (Some h) = Inr (Some ?a)" using top_ok [OF assms(1) h(1)] h by simp
  note run = run_heap_timers_katcp_def [of "quiet ret step" now later "Some t"] on_shared_def h(1) top ts_at_def x(1)
  have dis: "\<exists>t'. run_heap_timers_katcp (quiet ret step) now later (Some t) = Inr (1, Some t') \<and> timers_ok t' \<and>
      ts_store t' = (ts_store t)(?a := None) \<and> ts_user t' = ts_user t" if "t_armed x = 0"
    using drop_top_ok [OF assms(1) h refl] that by (auto simp: run simp del: fun_upd_apply)
  have due: "\<exists>t' zo. run_heap_timers_katcp (quiet ret step) now later (Some t) = Inr (0, Some t') \<and> timers_ok t' \<and>
      ts_user t' = step (t_call x) (t_data x) (ts_user t) \<and> ts_store t' = (ts_store t)(?a := zo) \<and> fired later x zo"
    if "t_armed x \<noteq> 0" "\<not> cmp_time_katcp (t_when x) now > 0"
    using run_due_ok [OF assms(1) h refl x(1) _ assms(3), of ret step now] assms(4) x(1) that
    by (auto simp: run simp del: fun_upd_apply)
  show ?thesis
    by (rule exI [of _ ?a], rule exI [of _ x]) (use x dis due in \<open>simp add: run\<close>)
qed

theorem run_fires_earliest_witness:
  "\<exists>t'. run_heap_timers_katcp (quiet (\<lambda>_ _. -1) (\<lambda>c d u. u + int d)) \<lparr>tv_sec = 10, tv_usec = 40\<rparr> \<lparr>tv_sec = 12, tv_usec = 0\<rparr>
       (Some sample_timers) = Inr (0, Some t') \<and> timers_ok t' \<and> ts_user t' = 70 \<and>
     (\<exists>z. ts_store t' 0 = Some z \<and> tv_micros (t_when z) = 13500000) \<and> ts_store t' 1 = ts_store sample_timers 1"
proof -
  let ?x = "planned \<lparr>tv_sec = 1, tv_usec = 500000\<rparr> \<lparr>tv_sec = 10, tv_usec = 0\<rparr> 7 70 (Some ''tick'')"
  have r: "\<forall>c y. ts_store sample_timers c = Some y \<longrightarrow> regular y"
    by (auto simp: regular_def planned_def tv_defs no_time_def dest!: sample_timers_store)
  have s0: "ts_store sample_timers 0 = Some ?x" by (simp add: sample_timers_def)
  have "ts_store sample_timers 0 \<noteq> None" "tv_norm \<lparr>tv_sec = 12, tv_usec = 0\<rparr>" by (simp_all add: s0 tv_defs)
  from run_fires_earliest [OF sample_timers_ok this r, where ret = "\<lambda>_ _. -1" and step = "\<lambda>c d u. u + int d"
      and now = "\<lparr>tv_sec = 10, tv_usec = 40\<rparr>"]
  obtain a x where a: "ts_store sample_timers a = Some x"
      "\<forall>c y. ts_store sample_timers c = Some y \<longrightarrow> cmp_time_katcp (t_when x) (t_when y) \<le> 0"
    and res: "if t_armed x = 0 then
       \<exists>t'. run_heap_timers_katcp (quiet (\<lambda>_ _. -1) (\<lambda>c d u. u + int d)) \<lparr>tv_sec = 10, tv_usec = 40\<rparr> \<lparr>tv_sec = 12, tv_usec = 0\<rparr>
         (Some sample_timers) = Inr (1, Some t') \<and> timers_ok t' \<and>
         ts_store t' = (ts_store sample_timers)(a := None) \<and> ts_user t' = ts_user sample_timers
     else if cmp_time_katcp (t_when x) \<lparr>tv_sec = 10, tv_usec = 40\<rparr> > 0 then
       run_heap_timers_katcp (quiet (\<lambda>_ _. -1) (\<lambda>c d u. u + int d)) \<lparr>tv_sec = 10, tv_usec = 40\<rparr> \<lparr>tv_sec = 12, tv_usec = 0\<rparr>
         (Some sample_timers) = Inr (1, Some sample_timers)
     else
       \<exists>t' zo. run_heap_timers_katcp (quiet (\<lambda>_ _. -1) (\<lambda>c d u. u + int d)) \<lparr>tv_sec = 10, tv_usec = 40\<rparr> \<lparr>tv_sec = 12, tv_usec = 0\<rparr>
         (Some sample_timers) = Inr (0, Some t') \<and> timers_ok t' \<and>
         ts_user t' = ts_user sample_timers + int (t_data x) \<and> ts_store t' = (ts_store sample_timers)(a := zo) \<and>
         fired \<lparr>tv_sec = 12, tv_usec = 0\<rparr> x zo"
    by (elim exE conjE) (rule that)
  have "cmp_time_katcp (t_when x) (t_when ?x) \<le> 0" using a(2) s0 by blast
  then have x: "a = 0" "x = ?x" using sample_timers_store [OF a(1)] by (auto simp: planned_def cmp_time_katcp_def)
  have "ts_user sample_timers = 0" by (simp add: sample_timers_def)
  then show ?thesis
    using res unfolding x
    by (auto simp: planned_def cmp_time_katcp_def fired_def once_def tv_defs next_due_def split: option.splits)
qed

text \<open>C22. Looking for the next timer always ends: the loop that drops disarmed timers from the
  front stops, at the latest when the heap is empty, and only disarmed timers are freed. When
  a timer is left, the call reports 0 and the time until the earliest of them, zero if that has
  passed; otherwise it reports -1.\<close>

theorem load_finds_next:
  assumes "timers_ok t" "s_tmr_heap t = Some h"
  shows "\<exists>t'. timers_ok t' \<and> armed_part (ts_store t) (ts_store t') \<and> ts_user t' = ts_user t \<and>
    (if dom (ts_store t') = {} then
       load_heap_timers_katcp now (Some t) = Inr (Some ((-1, Some (0, 0)), Some t'))
     else
       \<exists>a x. ts_store t' a = Some x \<and> t_armed x \<noteq> 0 \<and>
         (\<forall>b y. ts_store t' b = Some y \<longrightarrow> cmp_time_katcp (t_when x) (t_when y) \<le> 0) \<and>
         load_heap_timers_katcp now (Some t) =
           Inr (Some ((0, Some (tv_sec (snd (sub_time_katcp (t_when x) now)), tv_usec (snd (sub_time_katcp (t_when x) now)) * 1000)),
                      Some t')))"
proof -
  obtain r t' where l: "load_loop (h_size h + 1) t = Inr (Some (r, t'))" "timers_ok t'" "ts_user t' = ts_user t"
      "armed_part (ts_store t) (ts_store t')"
      "case r of
         None \<Rightarrow> dom (ts_store t') = {}
       | Some x \<Rightarrow> t_armed x \<noteq> 0 \<and> (\<exists>a. ts_store t' a = Some x) \<and>
           (\<forall>b y. ts_store t' b = Some y \<longrightarrow> cmp_time_katcp (t_when x) (t_when y) \<le> 0)"
    using load_loop_ok [OF assms, of "h_size h + 1"] by auto
  have load: "load_heap_timers_katcp now (Some t) =
      (case r of
         None \<Rightarrow> Inr (Some ((-1, Some (0, 0)), Some t'))
       | Some x \<Rightarrow> Inr (Some ((0, Some (tv_sec (snd (sub_time_katcp (t_when x) now)),
           tv_usec (snd (sub_time_katcp (t_when x) now)) * 1000)), Some t')))"
    using l(1) assms(2) by (simp add: load_heap_timers_katcp_def get_size_of_heap_def split_beta split: option.splits)
  show ?thesis
  proof (cases r)
    case None
    then show ?thesis using l(2-5) load by (intro exI [of _ t']) simp
  next
    case (Some x)
    then have "dom (ts_store t') \<noteq> {}" using l(5) by auto
    then show ?thesis using l(2-5) load Some by (intro exI [of _ t']) auto
  qed
qed

theorem load_finds_next_witness:
  "\<exists>t'. load_heap_timers_katcp \<lparr>tv_sec = 9, tv_usec = 999000\<rparr> (Some sample_timers) = Inr (Some ((0, Some (0, 1000000)), Some t'))"
proof -
  let ?x = "planned \<lparr>tv_sec = 1, tv_usec = 500000\<rparr> \<lparr>tv_sec = 10, tv_usec = 0\<rparr> 7 70 (Some ''tick'')"
  obtain h where h: "s_tmr_heap sample_timers = Some h" by (simp add: sample_timers_def)
  have s0: "ts_store sample_timers 0 = Some ?x" by (simp add: sample_timers_def)
  obtain t' where t': "armed_part (ts_store sample_timers) (ts_store t')"
    and res: "if dom (ts_store t') = {} then
       load_heap_timers_katcp \<lparr>tv_sec = 9, tv_usec = 999000\<rparr> (Some sample_timers) = Inr (Some ((-1, Some (0, 0)), Some t'))
     else
       \<exists>a x. ts_store t' a = Some x \<and> t_armed x \<noteq> 0 \<and>
         (\<forall>b y. ts_store t' b = Some y \<longrightarrow> cmp_time_katcp (t_when x) (t_when y) \<le> 0) \<and>
         load_heap_timers_katcp \<lparr>tv_sec = 9, tv_usec = 999000\<rparr> (Some sample_timers) =
           Inr (Some ((0, Some (tv_sec (snd (sub_time_katcp (t_when x) \<lparr>tv_sec = 9, tv_usec = 999000\<rparr>)),
             tv_usec (snd (sub_time_katcp (t_when x) \<lparr>tv_sec = 9, tv_usec = 999000\<rparr>)) * 1000)), Some t'))"
    using load_finds_next [OF sample_timers_ok h, of "\<lparr>tv_sec = 9, tv_usec = 999000\<rparr>"] by (elim exE conjE) (rule that)
  have all: "ts_store t' a = ts_store sample_timers a" for a
    using t' sample_timers_store by (auto simp: armed_part_def planned_def) (metis (no_types, lifting) ts.select_convs(4) zero_neq_one)
  have ne: "(dom (ts_store t') = {}) = False" using s0 all [of 0] by auto
  obtain a x where x: "ts_store t' a = Some x"
    "\<forall>b y. ts_store t' b = Some y \<longrightarrow> cmp_time_katcp (t_when x) (t_when y) \<le> 0"
    "load_heap_timers_katcp \<lparr>tv_sec = 9, tv_usec = 999000\<rparr> (Some sample_timers) =
       Inr (Some ((0, Some (tv_sec (snd (sub_time_katcp (t_when x) \<lparr>tv_sec = 9, tv_usec = 999000\<rparr>)),
         tv_usec (snd (sub_time_katcp (t_when x) \<lparr>tv_sec = 9, tv_usec = 999000\<rparr>)) * 1000)), Some t'))"
    using res [unfolded ne if_False] by (elim exE conjE) (rule that)
  have "cmp_time_katcp (t_when x) (t_when ?x) \<le> 0" using x(2) s0 all by metis
  then have "x = ?x" using sample_timers_store [OF x(1) [unfolded all]] by (auto simp: planned_def cmp_time_katcp_def)
  then show ?thesis using x(3) by (simp add: planned_def sub_time_katcp_def)
qed

text \<open>Adjusting and disarming, by name or by datum, once the timer is found.\<close>

lemma adjust_to_ok:
  assumes ok: "timers_ok t" and q: "found_ok q t 0 r"
  shows "\<exists>v t'. adjust_to now adjust r t = Inr (v, t') \<and> timers_ok t' \<and> ts_user t' = ts_user t \<and>
    (if \<forall>a x. ts_store t a = Some x \<longrightarrow> \<not> q x then v = -1 \<and> t' = t
     else v = 0 \<and> (\<exists>a x. ts_store t a = Some x \<and> q x \<and>
       ts_store t' = (ts_store t)(a \<mapsto> x\<lparr>t_interval := adjust, t_when := add_time_katcp now adjust\<rparr>)))"
proof (cases r)
  case None
  then have "\<forall>a x. ts_store t a = Some x \<longrightarrow> \<not> q x" using q heap_data_store [OF ok] by (auto simp: found_ok_def)
  then show ?thesis using ok None by (simp add: adjust_to_def)
next
  case (Some p)
  then obtain a j x where p: "p = (a, j)" "j < length (heap_data t)" "a = heap_data t ! j" "ts_store t a = Some x" "q x"
    using q by (cases p) (auto simp: found_ok_def)
  then obtain h where h: "s_tmr_heap t = Some h" "j < h_size h" "hdata h ! j = a"
    by (cases "s_tmr_heap t") (auto simp: heap_data_def)
  let ?z = "x\<lparr>t_interval := adjust, t_when := add_time_katcp now adjust\<rparr>"
  obtain h' where u: "update_node_on_heap (cmp_heap_timers_katcp (ts_store (ts_put a ?z t))) (int j) a (s_tmr_heap (ts_put a ?z t)) = Inr (0, Some h')"
      "timers_ok ((ts_put a ?z t)\<lparr>s_tmr_heap := Some h'\<rparr>)"
    using reput_ok [OF ok h, of ?z] by blast
  have "adjust_to now adjust r t = Inr (0, (ts_put a ?z t)\<lparr>s_tmr_heap := Some h'\<rparr>)"
    using u(1) p(4) unfolding Some p(1) adjust_to_def Let_def by (simp add: ts_at_def)
  moreover have "\<not> (\<forall>a x. ts_store t a = Some x \<longrightarrow> \<not> q x)" using p by blast
  ultimately show ?thesis using u(2) p(4,5) by (auto simp del: fun_upd_apply)
qed

lemma disarm_ok:
  assumes ok: "timers_ok t" and q: "found_ok q t 0 r"
  shows "\<exists>v t'. disarm r t = Inr (v, t') \<and> timers_ok t' \<and> ts_user t' = ts_user t \<and>
    (if \<forall>a x. ts_store t a = Some x \<longrightarrow> \<not> q x then v = -1 \<and> t' = t
     else v = 0 \<and> (\<exists>a x. ts_store t a = Some x \<and> q x \<and> ts_store t' = (ts_store t)(a \<mapsto> x\<lparr>t_armed := 0\<rparr>)))"
proof (cases r)
  case None
  then have "\<forall>a x. ts_store t a = Some x \<longrightarrow> \<not> q x" using q heap_data_store [OF ok] by (auto simp: found_ok_def)
  then show ?thesis using ok None by (simp add: disarm_def)
next
  case (Some p)
  then obtain a j x where p: "p = (a, j)" "ts_store t a = Some x" "q x" using q by (cases p) (auto simp: found_ok_def)
  have "timers_ok (ts_put a (x\<lparr>t_armed := 0\<rparr>) t)" by (rule timers_ok_put [OF ok p(2)]) simp
  then show ?thesis using p Some by (auto simp: disarm_def ts_at_def simp del: fun_upd_apply)
qed

text \<open>Freeing the timers of the positions from \<open>i\<close> on.\<close>

lemma empty_loop_ok:
  assumes "s_tmr_heap t = Some h" "shaped h" "i + n = h_size h" "distinct (drop i (hdata h))"
    "set (drop i (hdata h)) \<subseteq> dom (ts_store t)"
  shows "empty_loop t i n = Inr (t\<lparr>ts_store := ts_store t |` (- set (drop i (hdata h)))\<rparr>)"
  using assms
proof (induction n arbitrary: t i)
  case 0
  then show ?case by (simp add: restrict_map_def)
next
  case (Suc n)
  have i: "i < h_size h" using Suc.prems(3) by simp
  let ?a = "hdata h ! i"
  have drop: "drop i (hdata h) = ?a # drop (Suc i) (hdata h)" using i by (simp add: Cons_nth_drop_Suc)
  have get: "get_data_ref_by_index_heap (s_tmr_heap t) (int i) = Inr (Some ?a)"
    using get_data_ok [OF Suc.prems(2), of "int i"] Suc.prems(1) i by simp
  obtain x where x: "ts_store t ?a = Some x" using Suc.prems(5) drop by auto
  let ?t = "t\<lparr>ts_store := (ts_store t)(?a := None)\<rparr>"
  have "empty_loop ?t (Suc i) n = Inr (?t\<lparr>ts_store := ts_store ?t |` (- set (drop (Suc i) (hdata h)))\<rparr>)"
    using Suc.prems drop by (intro Suc.IH) auto
  moreover have "empty_loop t i (Suc n) = empty_loop ?t (Suc i) n"
    using get x by (simp add: destroy_ts_katcp_def ts_at_def)
  moreover have "ts_store ?t |` (- set (drop (Suc i) (hdata h))) = ts_store t |` (- set (drop i (hdata h)))"
    using drop by (auto simp: restrict_map_def fun_eq_iff)
  ultimately show ?case by simp
qed

lemma destroy_nodes_all: "\<forall>n \<in> set ns. n \<noteq> None \<Longrightarrow> destroy_nodes ns = length ns"
  by (induction ns) auto

lemma empty_ok:
  assumes ok: "timers_ok t"
  shows "\<exists>t'. empty_heap_timers_katcp (Some t) = Inr (0, Some t') \<and> timers_ok t' \<and> s_tmr_heap t' = None \<and>
    dom (ts_store t') = {} \<and> ts_user t' = ts_user t"
proof (cases "s_tmr_heap t")
  case None
  then have "dom (ts_store t) = {}" using ok unfolding timers_ok_def heap_data_def by auto
  then show ?thesis using ok None by (simp add: empty_heap_timers_katcp_def on_shared_def)
next
  case (Some h)
  have d: "distinct (hdata h)" "set (hdata h) = dom (ts_store t)" "shaped h"
    using ok Some timers_ok_heap [OF ok Some] by (simp_all add: timers_ok_def heap_ok_def)
  have "ts_store t |` (- set (hdata h)) = Map.empty" using d(2) by (auto simp: restrict_map_def fun_eq_iff)
  then have l: "empty_loop t 0 (h_size h) = Inr (t\<lparr>ts_store := Map.empty\<rparr>)"
    using empty_loop_ok [OF Some d(3), of 0 "h_size h"] d by simp
  have "h_size h \<le> length (h_array h)" using d(3) by (simp add: shaped_def)
  then have "empty_heap_timers_katcp (Some t) = Inr (0, Some (t\<lparr>ts_store := Map.empty, s_tmr_heap := None\<rparr>))"
    using l Some by (simp add: empty_heap_timers_katcp_def on_shared_def get_size_of_heap_def destroy_heap_def)
  then show ?thesis by (simp add: timers_ok_def heap_data_def)
qed

text \<open>Adjusting the interval of a timer, disarming one and emptying the queue keep the
  timers well formed. A timer is adjusted, when one with the datum exists, by replacing its
  interval and making it due one interval from now, its place in the queue following; a timer
  is disarmed by its mark alone; without such a timer the call reports -1 and changes nothing.
  Emptying frees every timer and the queue.\<close>

theorem timer_changes_keep_order:
  assumes "timers_ok t"
  shows "(d \<noteq> 0 \<and> s_tmr_heap t \<noteq> None \<longrightarrow>
      (\<exists>v t'. adjust_interval_anonymous_heap_timer_katcp now adjust d (Some t) = Inr (v, Some t') \<and> timers_ok t' \<and>
        (if \<forall>a x. ts_store t a = Some x \<longrightarrow> t_data x \<noteq> d then v = -1 \<and> t' = t
         else v = 0 \<and> (\<exists>a x. ts_store t a = Some x \<and> t_data x = d \<and>
           ts_store t' = (ts_store t)(a \<mapsto> x\<lparr>t_interval := adjust, t_when := add_time_katcp now adjust\<rparr>))))) \<and>
    (\<exists>v t'. disarm_by_ref_heap_timer d (Some t) = Inr (v, Some t') \<and> timers_ok t' \<and>
        (if \<forall>a x. ts_store t a = Some x \<longrightarrow> t_data x \<noteq> d then v = -1 \<and> t' = t
         else v = 0 \<and> (\<exists>a x. ts_store t a = Some x \<and> t_data x = d \<and>
           ts_store t' = (ts_store t)(a \<mapsto> x\<lparr>t_armed := 0\<rparr>)))) \<and>
    (\<exists>t'. empty_heap_timers_katcp (Some t) = Inr (0, Some t') \<and> timers_ok t' \<and> s_tmr_heap t' = None \<and> dom (ts_store t') = {})"
proof -
  obtain r where r: "find_by_data_ref_heap_timer_katcp d t = Inr r" "found_ok (\<lambda>x. t_data x = d) t 0 r"
    using find_by_data_ok [OF assms] by blast
  show ?thesis
    using adjust_to_ok [OF assms r(2), of now adjust] disarm_ok [OF assms r(2)] empty_ok [OF assms] r(1)
    by (auto simp: adjust_interval_anonymous_heap_timer_katcp_def disarm_by_ref_heap_timer_def on_shared_def
        simp del: fun_upd_apply dom_eq_empty_conv split del: if_split)
qed

theorem timer_changes_keep_order_witness:
  "\<exists>t'. adjust_interval_anonymous_heap_timer_katcp \<lparr>tv_sec = 11, tv_usec = 0\<rparr> \<lparr>tv_sec = 3, tv_usec = 0\<rparr> 70 (Some sample_timers) =
     Inr (0, Some t') \<and> timers_ok t'"
proof -
  have "ts_store sample_timers 0 \<noteq> None" "s_tmr_heap sample_timers \<noteq> None" "t_data (the (ts_store sample_timers 0)) = 70"
    by (simp_all add: sample_timers_def planned_def)
  then show ?thesis
    using timer_changes_keep_order [OF sample_timers_ok, of 70 "\<lparr>tv_sec = 11, tv_usec = 0\<rparr>" "\<lparr>tv_sec = 3, tv_usec = 0\<rparr>"]
    by (auto split: if_splits)
qed

text \<open>Where looking up goes wrong, and what a callback can do.\<close>

lemma unnamed_first:
  assumes ok: "timers_ok t" and h: "s_tmr_heap t = Some h" "0 < h_size h"
    and x: "ts_store t (hdata h ! 0) = Some x" "t_name x = None"
  shows "find_by_name_heap_timer_katcp (Some s) t = Inl NullDeref"
proof -
  obtain n where n: "h_size h = Suc n" using h(2) by (cases "h_size h") auto
  have sh: "shaped h" using timers_ok_heap [OF ok h(1)] by (simp add: heap_ok_def)
  have "get_data_ref_by_index_heap (s_tmr_heap t) (int 0) = Inr (Some (hdata h ! 0))"
    using get_data_ok [OF sh, of "int 0"] h by simp
  then show ?thesis
    using x h(1) n by (simp add: find_by_name_heap_timer_katcp_def get_size_of_heap_def ts_at_def name_matches_def)
qed

text \<open>The lookup by name takes the length of every name it meets, and timers may be
  registered without one: while such a timer is the earliest, registering a timer under any
  name, disarming, adjusting and looking up by name all follow a null pointer. And since only as
  many characters are compared as the name met has, a timer is found by every longer name that
  begins with its own: disarming \<open>s @ rest\<close> disarms a timer named \<open>s\<close>.\<close>

theorem name_lookup_oddities:
  assumes "timers_ok t" "s_tmr_heap t = Some h" "0 < h_size h" "ts_store t (hdata h ! 0) = Some x"
  shows "(t_name x = None \<longrightarrow>
      register_heap_timer_at_tv_katcp mem (Some tv) call data (Some s) (Some t) = Inl NullDeref \<and>
      disarm_by_name_heap_timer (Some s) (Some t) = Inl NullDeref \<and>
      adjust_interval_heap_timer_katcp now adjust (Some s) (Some t) = Inl NullDeref \<and>
      find_data_by_name_heap_timer_katcp (Some s) t = Inl NullDeref) \<and>
    (t_name x = Some s \<longrightarrow>
      disarm_by_name_heap_timer (Some (s @ rest)) (Some t) = Inr (0, Some (ts_put (hdata h ! 0) (x\<lparr>t_armed := 0\<rparr>) t)))"
proof (intro conjI impI)
  assume "t_name x = None"
  from unnamed_first [OF assms this, of s]
  show "register_heap_timer_at_tv_katcp mem (Some tv) call data (Some s) (Some t) = Inl NullDeref"
    "disarm_by_name_heap_timer (Some s) (Some t) = Inl NullDeref"
    "adjust_interval_heap_timer_katcp now adjust (Some s) (Some t) = Inl NullDeref"
    "find_data_by_name_heap_timer_katcp (Some s) t = Inl NullDeref"
    using assms(2)
    by (simp_all add: register_defs register_heap_timer_def disarm_by_name_heap_timer_def
        adjust_interval_heap_timer_katcp_def find_data_by_name_heap_timer_katcp_def)
next
  assume n: "t_name x = Some s"
  obtain m where m: "h_size h = Suc m" using assms(3) by (cases "h_size h") auto
  have sh: "shaped h" using timers_ok_heap [OF assms(1,2)] by (simp add: heap_ok_def)
  have "get_data_ref_by_index_heap (s_tmr_heap t) (int 0) = Inr (Some (hdata h ! 0))"
    using get_data_ok [OF sh, of "int 0"] assms(2,3) by simp
  then have "find_by_name_heap_timer_katcp (Some (s @ rest)) t = Inr (Some (hdata h ! 0, 0))"
    using name_matches_begins [OF n, of "s @ rest"] assms(2,4) m n
    by (simp add: find_by_name_heap_timer_katcp_def get_size_of_heap_def ts_at_def begins_def)
  then show "disarm_by_name_heap_timer (Some (s @ rest)) (Some t) = Inr (0, Some (ts_put (hdata h ! 0) (x\<lparr>t_armed := 0\<rparr>) t))"
    using assms(4) by (simp add: disarm_by_name_heap_timer_def disarm_def on_shared_def ts_at_def)
qed

theorem name_lookup_oddities_witness:
  "\<exists>t. disarm_by_name_heap_timer (Some ''ticket'') (Some sample_timers) = Inr (0, Some t) \<and> ts_store t 0 \<noteq> ts_store sample_timers 0"
proof -
  let ?x = "planned \<lparr>tv_sec = 1, tv_usec = 500000\<rparr> \<lparr>tv_sec = 10, tv_usec = 0\<rparr> 7 70 (Some ''tick'')"
  obtain h where h: "s_tmr_heap sample_timers = Some h" "0 < h_size h" by (simp add: sample_timers_def)
  have "hdata h = [0, 1]" using sample_timers_heap(1) heap_data_Some [OF h(1)] by metis
  then have a: "hdata h ! 0 = 0" by simp
  have "ts_store sample_timers 0 = Some ?x" by (simp add: sample_timers_def)
  then show ?thesis
    using name_lookup_oddities [OF sample_timers_ok h, of ?x "\<lambda>_. True" no_time 0 0 "''tick''" no_time no_time "''et''"] a
    by (simp add: planned_def)
qed

text \<open>When the callback of a timer without interval leaves another timer at the front of the
  queue (one it registered for an earlier time), the run takes that timer out of the queue and
  frees the one it ran: the earlier timer is lost, it exists but is in the queue no more, and
  the queue refers to a timer that was freed.\<close>

theorem callback_displaces_timer:
  assumes "timers_ok t" "s_tmr_heap t = Some h" "0 < h_size h" "hdata h ! 0 = a" "ts_store t a = Some x"
    and "t_armed x \<noteq> 0" "cmp_time_katcp (t_when x) now \<le> 0"
    and cb: "\<And>c d s. cb c d s = Inr (ret, t2)"
    and t2: "timers_ok t2" "s_tmr_heap t2 = Some h2" "0 < h_size h2" "hdata h2 ! 0 \<noteq> a" "ts_store t2 a = Some y" "once y" "regular y"
  shows "\<exists>t'. run_heap_timers_katcp cb now later (Some t) = Inr (0, Some t') \<and>
    a \<in> set (heap_data t') \<and> ts_store t' a = None \<and>
    hdata h2 ! 0 \<notin> set (heap_data t') \<and> ts_store t' (hdata h2 ! 0) = ts_store t2 (hdata h2 ! 0)"
proof -
  let ?b = "hdata h2 ! 0" and ?t = "ts_put a (y\<lparr>t_armed := 0\<rparr>) t2"
  have ok: "timers_ok ?t" by (rule timers_ok_put [OF t2(1,5)]) simp
  have d: "distinct (hdata h2)" "a \<in> set (hdata h2)" using t2(1,2,5) by (auto simp: timers_ok_def)
  obtain h' where h': "remove_top_of_heap (cmp_heap_timers_katcp (ts_store ?t)) (Some h2) = Inr (Some ?b, Some h')"
      "mset (hdata h') = mset (hdata h2) - {#?b#}"
    using remove_top_ok [OF timers_ok_heap [OF ok] t2(3)] t2(2) by (auto simp: cmp_heap_key)
  obtain ys where ys: "hdata h2 = ?b # ys" using t2(3) by (cases "hdata h2") (auto simp flip: length_hdata)
  then have m: "mset (hdata h') = mset ys" using h'(2) by (metis add_mset_remove_trivial mset.simps(2))
  have "?b \<notin> set ys" "a \<in> set ys" using d ys t2(4) by (metis distinct.simps(2), metis set_ConsD)
  then have s: "?b \<notin> set (hdata h')" "a \<in> set (hdata h')" using mset_eq_setD [OF m] by simp_all
  let ?t' = "?t\<lparr>s_tmr_heap := Some h', ts_store := (ts_store ?t)(a := None)\<rparr>"
  have "drop_top a ?t = Inr ?t'" using t2(2) h'(1) by (simp add: drop_top_def destroy_ts_katcp_def ts_at_def)
  then have "run_due cb now later a x t = Inr (0, ?t')"
    using once_eq [OF t2(7)] t2(2,5,6) cb by (simp add: run_due_def Let_def ts_at_def)
  moreover have "get_top_of_heap (Some h) = Inr (Some a)" using top_ok [OF assms(1,2)] assms(2-4) by simp
  ultimately have "run_heap_timers_katcp cb now later (Some t) = Inr (0, Some ?t')"
    using assms(2,5-7) by (simp add: run_heap_timers_katcp_def on_shared_def ts_at_def)
  then show ?thesis using s t2(4) by (intro exI [of _ ?t']) simp
qed

text \<open>One timer due at 10 s, and the same after its callback has registered one for 5 s.\<close>

definition one_shot :: ts where
  "one_shot = planned no_time \<lparr>tv_sec = 10, tv_usec = 0\<rparr> 7 70 None"

definition before_callback :: "int tstate" where
  "before_callback = \<lparr>s_tmr_heap = Some \<lparr>h_size = 1, h_array = [Some \<lparr>n_index = 0, n_data = 0\<rparr>]\<rparr>,
     ts_store = [0 \<mapsto> one_shot], ts_fresh = 1, ts_user = 0\<rparr>"

definition after_callback :: "int tstate" where
  "after_callback =
     \<lparr>s_tmr_heap = Some \<lparr>h_size = 2, h_array = [Some \<lparr>n_index = 0, n_data = 1\<rparr>, Some \<lparr>n_index = 1, n_data = 0\<rparr>]\<rparr>,
      ts_store = [0 \<mapsto> one_shot\<lparr>t_hits := 1\<rparr>, 1 \<mapsto> planned no_time \<lparr>tv_sec = 5, tv_usec = 0\<rparr> 7 71 None],
      ts_fresh = 2, ts_user = 0\<rparr>"

lemma callback_sample:
  "timers_ok before_callback" "timers_ok after_callback"
proof -
  have k: "when_key (ts_store after_callback) 1 \<le> when_key (ts_store after_callback) 0"
    by (simp add: when_key_def when_of_def after_callback_def one_shot_def planned_def)
  have "shaped h" "hdata h = [0]" if "s_tmr_heap before_callback = Some h" for h
    using that by (auto simp: before_callback_def shaped_def hdata_def)
  moreover have "heap_data before_callback = [0]" by (simp add: heap_data_def before_callback_def hdata_def)
  ultimately show "timers_ok before_callback"
    by (auto simp: timers_ok_def heap_ok_def ordered_small) (auto simp: before_callback_def split: if_splits)
  have "shaped h" "hdata h = [1, 0]" if "s_tmr_heap after_callback = Some h" for h
    using that by (auto simp: after_callback_def shaped_def hdata_def upt_rec numeral_2_eq_2 less_Suc_eq)
  moreover have "heap_data after_callback = [1, 0]"
    by (simp add: heap_data_def after_callback_def hdata_def upt_rec numeral_2_eq_2)
  moreover have "heap_ordered (when_key (ts_store after_callback)) [1, 0]"
    using k by (auto simp: heap_ordered_def edge_def parent_def less_Suc_eq)
  ultimately show "timers_ok after_callback"
    by (auto simp: timers_ok_def heap_ok_def) (auto simp: after_callback_def split: if_splits)
qed

theorem callback_displaces_timer_witness:
  "\<exists>t'. run_heap_timers_katcp (\<lambda>_ _ _. Inr (0, after_callback)) \<lparr>tv_sec = 10, tv_usec = 0\<rparr> no_time (Some before_callback) =
     Inr (0, Some t') \<and> 0 \<in> set (heap_data t') \<and> ts_store t' 0 = None \<and> 1 \<notin> set (heap_data t')"
proof -
  obtain h where h: "s_tmr_heap before_callback = Some h" "0 < h_size h" "hdata h ! 0 = 0"
    by (simp add: before_callback_def hdata_def)
  obtain h2 where h2: "s_tmr_heap after_callback = Some h2" "0 < h_size h2" "hdata h2 ! 0 = 1"
    by (simp add: after_callback_def hdata_def upt_rec)
  have x: "ts_store before_callback 0 = Some one_shot" "ts_store after_callback 0 = Some (one_shot\<lparr>t_hits := 1\<rparr>)"
    by (simp_all add: before_callback_def after_callback_def)
  have y: "t_armed one_shot \<noteq> 0" "cmp_time_katcp (t_when one_shot) \<lparr>tv_sec = 10, tv_usec = 0\<rparr> \<le> 0"
      "once (one_shot\<lparr>t_hits := 1\<rparr>)" "regular (one_shot\<lparr>t_hits := 1\<rparr>)" "hdata h2 ! 0 \<noteq> 0"
    by (simp_all add: one_shot_def planned_def cmp_time_katcp_def once_def regular_def tv_defs no_time_def h2(3))
  show ?thesis
    using callback_displaces_timer [OF callback_sample(1) h x(1) y(1,2) refl callback_sample(2) h2(1,2) y(5) x(2) y(3,4),
        where later = no_time] h2(3) by auto
qed

end
