(* ===== verification/Notices.thy ===== *)
theory Notices
  imports Parse_Queue
begin

text \<open>
  Notices (\<open>katcp/notice.c\<close>): named events that carry a queue of messages and call back
  their subscribers from the main loop. The state holds the notices, the links that every
  client of the server keeps to the notices it subscribed to, and the messages with their
  reference counts. The lemmas here are about the vector of subscribers and the invariant of
  the whole: the list has every notice once, the references to messages are all accounted for,
  and the links of the clients agree with the subscriptions.
\<close>

section \<open>State\<close>

text \<open>Clients, callbacks and data are addresses. The vector of a notice is the memory behind
  \<open>n_vector\<close>; its first \<open>n_count\<close> entries are the subscribers. \<open>n_base\<close> counts its
  reallocations: a pointer into it that was taken before one is invalid after it.\<close>

datatype notice_trigger = TRIGGER_OFF | TRIGGER_ALL | TRIGGER_SINGLE

record invoke =
  v_client :: nat
  v_call :: nat
  v_data :: nat
  v_trigger :: nat

record notice =
  n_vector :: "invoke list"
  n_count :: nat
  n_base :: nat
  n_name :: "string option"
  n_trigger :: notice_trigger
  n_tag :: int
  n_use :: int
  n_queue :: pqueue
  n_parse :: "nat option"
  n_changes :: u32

text \<open>\<open>s_notices\<close> is the list of the shared state, \<open>ns_clients\<close> the array \<open>d_notices\<close> of every
  client that exists, and \<open>ns_user\<close> the state of the rest of the program.\<close>

record 'u nstate =
  ns_heap :: "nat \<rightharpoonup> notice"
  ns_fresh :: nat
  s_notices :: "nat list"
  ns_clients :: "nat \<rightharpoonup> nat list"
  ns_msgs :: store
  s_busy :: nat
  ns_user :: 'u

definition NOTICE_CHANGE_ADD :: u32 where "NOTICE_CHANGE_ADD = 0x01"
definition NOTICE_CHANGE_CLEAR :: u32 where "NOTICE_CHANGE_CLEAR = 0x02"
definition NOTICE_CHANGE_REMOVE :: u32 where "NOTICE_CHANGE_REMOVE = 0x04"

definition note_at :: "nat \<Rightarrow> 'u nstate \<Rightarrow> notice res" where
  "note_at a s = (case ns_heap s a of None \<Rightarrow> Inl UseAfterFree | Some n \<Rightarrow> Inr n)"

definition note_put :: "nat \<Rightarrow> notice \<Rightarrow> 'u nstate \<Rightarrow> 'u nstate" where
  "note_put a n s = s\<lparr>ns_heap := (ns_heap s)(a \<mapsto> n)\<rparr>"

definition links_at :: "nat \<Rightarrow> 'u nstate \<Rightarrow> nat list res" where
  "links_at d s = (case ns_clients s d of None \<Rightarrow> Inl UseAfterFree | Some l \<Rightarrow> Inr l)"

definition links_put :: "nat \<Rightarrow> nat list \<Rightarrow> 'u nstate \<Rightarrow> 'u nstate" where
  "links_put d l s = s\<lparr>ns_clients := (ns_clients s)(d \<mapsto> l)\<rparr>"

definition msgs_put :: "store \<Rightarrow> 'u nstate \<Rightarrow> 'u nstate" where
  "msgs_put m s = s\<lparr>ns_msgs := m\<rparr>"

section \<open>Ending notices and subscriptions\<close>

definition destroy_opt :: "nat option \<Rightarrow> store \<Rightarrow> store res" where
  "destroy_opt p m = (case p of None \<Rightarrow> Inr m | Some a \<Rightarrow> destroy_parse_katcl (Some a) m)"

definition deallocate_notice_katcp :: "nat \<Rightarrow> 'u nstate \<Rightarrow> 'u nstate res" where
  "deallocate_notice_katcp a s =
     bind_res (note_at a s) (\<lambda>n.
     bind_res (destroy_queue_katcl (n_queue n) (ns_msgs s)) (\<lambda>m1.
     bind_res (destroy_opt (n_parse n) m1) (\<lambda>m2.
     Inr (msgs_put m2 (s\<lparr>ns_heap := (ns_heap s)(a := None)\<rparr>)))))"

definition reap_notice_katcp :: "nat \<Rightarrow> 'u nstate \<Rightarrow> 'u nstate res" where
  \<comment> \<open>every entry of the notice leaves the list, and the first one frees it\<close>
  "reap_notice_katcp a s =
     bind_res (note_at a s) (\<lambda>n.
     if n_use n > 0 \<or> n_count n > 0 then Inr s
     else if a \<in> set (s_notices s) then
       bind_res (deallocate_notice_katcp a s) (\<lambda>s1. Inr (s1\<lparr>s_notices := removeAll a (s_notices s1)\<rparr>))
     else Inr s)"

text \<open>Both compactions fill the place of what they remove with the last entry; the entry that
  moves in the vector keeps all but its own trigger. The vector is freed when it is empty.\<close>

function notice_compact_loop :: "nat \<Rightarrow> nat \<Rightarrow> nat \<Rightarrow> invoke list \<Rightarrow> nat \<times> nat \<times> invoke list" where
  "notice_compact_loop d i cnt vs =
     (if i < cnt then
        (if v_client (vs ! i) = d then
           (case notice_compact_loop d i (cnt - 1)
              (if i < cnt - 1 then vs[i := (vs ! (cnt - 1))\<lparr>v_trigger := v_trigger (vs ! i)\<rparr>] else vs) of
              (check, count1, vs1) \<Rightarrow> (check + 1, count1, vs1))
         else notice_compact_loop d (i + 1) cnt vs)
      else (0, cnt, vs))"
  by pat_completeness auto
termination by (relation "measure (\<lambda>(d, i, c, vs). c - i)") auto

declare notice_compact_loop.simps [simp del]

definition notice_compact_notice_katcp :: "notice \<Rightarrow> nat \<Rightarrow> nat \<times> notice" where
  "notice_compact_notice_katcp n d =
     (case notice_compact_loop d 0 (n_count n) (n_vector n) of (check, cnt, vs) \<Rightarrow>
        (check, if cnt = 0 then n\<lparr>n_count := 0, n_vector := [], n_base := n_base n + 1\<rparr>
                else n\<lparr>n_count := cnt, n_vector := vs\<rparr>))"

function dispatch_compact_loop :: "nat \<Rightarrow> nat \<Rightarrow> nat list \<Rightarrow> nat \<times> nat list" where
  "dispatch_compact_loop a i l =
     (if i < length l then
        (if l ! i = a then
           (case dispatch_compact_loop a i (butlast (l[i := last l])) of (check, l1) \<Rightarrow> (check + 1, l1))
         else dispatch_compact_loop a (i + 1) l)
      else (0, l))"
  by pat_completeness auto
termination by (relation "measure (\<lambda>(a, i, l). length l - i)") auto

declare dispatch_compact_loop.simps [simp del]

definition dispatch_compact_notice_katcp :: "nat \<Rightarrow> nat \<Rightarrow> 'u nstate \<Rightarrow> (nat \<times> 'u nstate) res" where
  "dispatch_compact_notice_katcp d a s =
     bind_res (links_at d s) (\<lambda>l. case dispatch_compact_loop a 0 l of (check, l1) \<Rightarrow> Inr (check, links_put d l1 s))"

fun disown_loop :: "nat \<Rightarrow> nat list \<Rightarrow> 'u nstate \<Rightarrow> 'u nstate res" where
  "disown_loop d [] s = Inr s"
| "disown_loop d (a # l) s =
     bind_res (note_at a s) (\<lambda>n. disown_loop d l (note_put a (snd (notice_compact_notice_katcp n d)) s))"

definition disown_notices_katcp :: "nat \<Rightarrow> 'u nstate \<Rightarrow> 'u nstate res" where
  "disown_notices_katcp d s =
     bind_res (links_at d s) (\<lambda>l.
     bind_res (disown_loop d (rev l) s) (\<lambda>s1. Inr (links_put d [] s1)))"

text \<open>The loop of the final clean-up, with a bound on its rounds: it need not end.\<close>

fun destroy_notices_loop :: "nat \<Rightarrow> 'u nstate \<Rightarrow> 'u nstate option res" where
  "destroy_notices_loop 0 s = Inr None"
| "destroy_notices_loop (Suc f) s =
     (case s_notices s of
        [] \<Rightarrow> Inr (Some s)
      | a # _ \<Rightarrow> bind_res (reap_notice_katcp a s) (destroy_notices_loop f))"

definition destroy_notices_katcp :: "nat \<Rightarrow> 'u nstate \<Rightarrow> 'u nstate option res" where
  "destroy_notices_katcp = destroy_notices_loop"

section \<open>Finding, creating, subscribing\<close>

fun find_in :: "string \<Rightarrow> nat list \<Rightarrow> 'u nstate \<Rightarrow> nat option res" where
  "find_in name [] s = Inr None"
| "find_in name (a # l) s =
     bind_res (note_at a s) (\<lambda>n.
     case n_name n of
       Some t \<Rightarrow> if strcmp name t = 0 then Inr (Some a) else find_in name l s
     | None \<Rightarrow> find_in name l s)"

definition find_notice_katcp :: "string option \<Rightarrow> 'u nstate \<Rightarrow> nat option res" where
  "find_notice_katcp name s = (case name of None \<Rightarrow> Inr None | Some t \<Rightarrow> find_in t (s_notices s) s)"

text \<open>The notices whose name begins with the prefix; the first \<open>n_count\<close> of them are stored.\<close>

fun find_prefix_in :: "string \<Rightarrow> nat list \<Rightarrow> 'u nstate \<Rightarrow> nat list res" where
  "find_prefix_in p [] s = Inr []"
| "find_prefix_in p (a # l) s =
     bind_res (note_at a s) (\<lambda>n. bind_res (find_prefix_in p l s) (\<lambda>r.
     Inr (case n_name n of
            Some t \<Rightarrow> if strcmp (take (length p) p) (take (length p) t) = 0 then a # r else r
          | None \<Rightarrow> r)))"

definition find_prefix_notices_katcp :: "string option \<Rightarrow> nat \<Rightarrow> 'u nstate \<Rightarrow> (int \<times> nat list) res" where
  "find_prefix_notices_katcp prefix cnt s =
     (case prefix of
        None \<Rightarrow> Inr (-1, [])
      | Some p \<Rightarrow> bind_res (find_prefix_in p (s_notices s) s) (\<lambda>r. Inr (int (length r), take cnt r)))"

definition find_used_notice_katcp :: "string option \<Rightarrow> 'u nstate \<Rightarrow> nat option res" where
  "find_used_notice_katcp name s =
     bind_res (find_notice_katcp name s) (\<lambda>r.
     case r of
       None \<Rightarrow> Inr None
     | Some a \<Rightarrow> bind_res (note_at a s) (\<lambda>n. Inr (if n_use n \<le> 0 then None else Some a)))"

text \<open>Putting a message into the queue of a notice; the change is noted when it succeeds.\<close>

definition queue_message :: "bool \<Rightarrow> nat \<Rightarrow> nat option \<Rightarrow> 'u nstate \<Rightarrow> (int \<times> 'u nstate) res" where
  "queue_message ok a p s =
     bind_res (note_at a s) (\<lambda>n.
     bind_res (add_tail_queue_katcl ok (n_queue n) p (ns_msgs s)) (\<lambda>(r, q, m).
     let n1 = n\<lparr>n_queue := q\<rparr>;
         n2 = (if r = 0 then n1\<lparr>n_changes := n_changes n1 OR NOTICE_CHANGE_ADD\<rparr> else n1) in
     Inr (r, note_put a n2 (msgs_put m s))))"

definition fresh_notice :: "string option \<Rightarrow> int \<Rightarrow> pqueue \<Rightarrow> notice" where
  "fresh_notice name tag q =
     \<lparr>n_vector = [], n_count = 0, n_base = 0, n_name = name, n_trigger = TRIGGER_OFF, n_tag = tag, n_use = 0,
      n_queue = q, n_parse = None, n_changes = NOTICE_CHANGE_CLEAR\<rparr>"

text \<open>The memory: the structure, its name, the queue, the list of notices, room in the queue.\<close>

definition create_parse_notice_katcp ::
  "(nat \<Rightarrow> bool) \<Rightarrow> string option \<Rightarrow> int \<Rightarrow> nat option \<Rightarrow> 'u nstate \<Rightarrow> (nat option \<times> 'u nstate) res" where
  "create_parse_notice_katcp mem name tag p s =
     bind_res (find_notice_katcp name s) (\<lambda>found.
     case found of
       Some a \<Rightarrow>
         if p = None then Inr (Some a, s)
         else bind_res (queue_message (mem 4) a p s) (\<lambda>(r, s1). Inr (if r < 0 then None else Some a, s1))
     | None \<Rightarrow>
         if \<not> mem 0 then Inr (None, s)
         else if name \<noteq> None \<and> \<not> mem 1 then Inr (None, s)
         else (case create_queue_katcl (mem 2) of
           None \<Rightarrow> Inr (None, s)
         | Some q \<Rightarrow>
             let a = ns_fresh s; s1 = (note_put a (fresh_notice name tag q) s)\<lparr>ns_fresh := ns_fresh s + 1\<rparr> in
             if \<not> mem 3 then bind_res (deallocate_notice_katcp a s1) (\<lambda>s2. Inr (None, s2))
             else
               bind_res (if p = None then Inr (0, s1) else queue_message (mem 4) a p s1) (\<lambda>(r, s2).
               if r < 0 then bind_res (deallocate_notice_katcp a s2) (\<lambda>s3. Inr (None, s3))
               else Inr (Some a, s2\<lparr>s_notices := s_notices s2 @ [a]\<rparr>))))"

definition create_notice_katcp ::
  "(nat \<Rightarrow> bool) \<Rightarrow> string option \<Rightarrow> int \<Rightarrow> 'u nstate \<Rightarrow> (nat option \<times> 'u nstate) res" where
  "create_notice_katcp mem name tag s = create_parse_notice_katcp mem name tag None s"

definition subs :: "notice \<Rightarrow> invoke list" where
  "subs n = take (n_count n) (n_vector n)"

definition has_notice_katcp :: "nat \<Rightarrow> nat \<Rightarrow> nat \<Rightarrow> 'u nstate \<Rightarrow> bool res" where
  "has_notice_katcp a call data s =
     bind_res (note_at a s) (\<lambda>n. Inr (\<exists>v \<in> set (subs n). v_call v = call \<and> v_data v = data))"

definition fetch_data_notice_katcp :: "nat \<Rightarrow> nat \<Rightarrow> 'u nstate \<Rightarrow> (nat \<times> nat list) res" where
  "fetch_data_notice_katcp a room s =
     bind_res (note_at a s) (\<lambda>n. Inr (n_count n, map v_data (take (min room (n_count n)) (subs n))))"

text \<open>Removing a subscriber by its datum and, unless it is \<open>None\<close>, its callback.\<close>

definition drop_sub :: "nat \<Rightarrow> notice \<Rightarrow> notice" where
  \<comment> \<open>the last entry takes the place of entry \<open>i\<close>\<close>
  "drop_sub i n =
     (let m = n_count n - 1 in
      n\<lparr>n_count := m, n_vector := (if i < m then (n_vector n)[i := n_vector n ! m] else n_vector n)\<rparr>)"

fun remove_loop :: "nat option \<Rightarrow> nat \<Rightarrow> nat \<Rightarrow> nat \<Rightarrow> nat \<Rightarrow> 'u nstate \<Rightarrow> (int \<times> 'u nstate) res" where
  "remove_loop call data a i 0 s = Inr (-1, s)"
| "remove_loop call data a i (Suc todo) s =
     bind_res (note_at a s) (\<lambda>n.
     let v = n_vector n ! i in
     if v_data v = data \<and> (call = None \<or> call = Some (v_call v)) then
       bind_res (dispatch_compact_notice_katcp (v_client v) a s) (\<lambda>(_, s1).
       let n1 = drop_sub i n;
           n2 = (if n_count n1 = 0 then n1\<lparr>n_vector := [], n_base := n_base n1 + 1\<rparr> else n1) in
       Inr (0, note_put a n2 s1))
     else remove_loop call data a (i + 1) todo s)"

definition remove_notice_katcp :: "nat \<Rightarrow> nat option \<Rightarrow> nat \<Rightarrow> 'u nstate \<Rightarrow> (int \<times> 'u nstate) res" where
  "remove_notice_katcp a call data s =
     bind_res (note_at a s) (\<lambda>n. remove_loop call data a 0 (n_count n) s)"

text \<open>Subscribing. The memory: the vector, and the links of the client.\<close>

definition add_notice_katcp :: "bool \<times> bool \<Rightarrow> nat \<Rightarrow> nat \<Rightarrow> nat \<Rightarrow> nat \<Rightarrow> 'u nstate \<Rightarrow> (int \<times> 'u nstate) res" where
  "add_notice_katcp mem d a call data s =
     bind_res (note_at a s) (\<lambda>n.
     if \<exists>v \<in> set (subs n). v_call v = call \<and> v_data v = data then Inr (0, s)
     else if \<not> fst mem then Inr (-1, s)
     else
       let v = \<lparr>v_client = d, v_call = call, v_data = data, v_trigger = 0\<rparr>;
           n1 = n\<lparr>n_vector := subs n @ [v], n_base := n_base n + 1\<rparr> in
       if \<not> snd mem then Inr (-1, note_put a n1 s)
       else bind_res (links_at d s) (\<lambda>l.
            Inr (0, links_put d (l @ [a]) (note_put a (n1\<lparr>n_count := n_count n + 1\<rparr>) s))))"

definition register_notice_katcp ::
  "(nat \<Rightarrow> bool) \<Rightarrow> bool \<times> bool \<Rightarrow> nat \<Rightarrow> string option \<Rightarrow> int \<Rightarrow> nat \<Rightarrow> nat \<Rightarrow> 'u nstate \<Rightarrow> (nat option \<times> 'u nstate) res" where
  "register_notice_katcp mem mem2 d name tag call data s =
     bind_res (create_notice_katcp mem name tag s) (\<lambda>(ao, s1).
     case ao of
       None \<Rightarrow> Inr (None, s1)
     | Some a \<Rightarrow> bind_res (add_notice_katcp mem2 d a call data s1) (\<lambda>(r, s2). Inr (if r < 0 then None else Some a, s2)))"

definition register_parse_notice_katcp ::
  "(nat \<Rightarrow> bool) \<Rightarrow> bool \<times> bool \<Rightarrow> nat \<Rightarrow> string option \<Rightarrow> nat option \<Rightarrow> nat \<Rightarrow> nat \<Rightarrow> 'u nstate \<Rightarrow> (nat option \<times> 'u nstate) res" where
  "register_parse_notice_katcp mem mem2 d name p call data s =
     bind_res (create_parse_notice_katcp mem name 0 p s) (\<lambda>(ao, s1).
     case ao of
       None \<Rightarrow> Inr (None, s1)
     | Some a \<Rightarrow> bind_res (add_notice_katcp mem2 d a call data s1) (\<lambda>(r, s2). Inr (if r < 0 then None else Some a, s2)))"

section \<open>Holding, messages, waking\<close>

definition hold_notice_katcp :: "nat \<Rightarrow> 'u nstate \<Rightarrow> 'u nstate res" where
  "hold_notice_katcp a s = bind_res (note_at a s) (\<lambda>n. Inr (note_put a (n\<lparr>n_use := n_use n + 1\<rparr>) s))"

definition release_notice_katcp :: "nat \<Rightarrow> 'u nstate \<Rightarrow> 'u nstate res" where
  "release_notice_katcp a s =
     bind_res (note_at a s) (\<lambda>n. Inr (if n_use n > 0 then note_put a (n\<lparr>n_use := n_use n - 1\<rparr>) s else s))"

definition get_parse_notice_katcp :: "nat \<Rightarrow> 'u nstate \<Rightarrow> nat option res" where
  "get_parse_notice_katcp a s =
     bind_res (note_at a s) (\<lambda>n.
     Inr (if n_parse n \<noteq> None then n_parse n else get_head_queue_katcl (n_queue n)))"

definition set_parse_notice_katcp :: "bool \<Rightarrow> nat \<Rightarrow> nat option \<Rightarrow> 'u nstate \<Rightarrow> (int \<times> 'u nstate) res" where
  "set_parse_notice_katcp ok a p s =
     bind_res (note_at a s) (\<lambda>n.
     bind_res (clear_queue_katcl (n_queue n) (ns_msgs s)) (\<lambda>(q, m).
     let s1 = note_put a (n\<lparr>n_queue := q, n_changes := n_changes n OR NOTICE_CHANGE_CLEAR\<rparr>) (msgs_put m s) in
     if p = None then Inr (0, s1) else queue_message ok a p s1))"

definition remove_parse_notice_katcp :: "nat \<Rightarrow> 'u nstate \<Rightarrow> (nat option \<times> 'u nstate) res" where
  "remove_parse_notice_katcp a s =
     bind_res (note_at a s) (\<lambda>n.
     if n_parse n \<noteq> None then
       Inr (n_parse n, note_put a (n\<lparr>n_changes := n_changes n OR NOTICE_CHANGE_REMOVE, n_parse := None\<rparr>) s)
     else bind_res (remove_head_queue_katcl (n_queue n)) (\<lambda>(p, q).
       let n1 = n\<lparr>n_queue := q\<rparr> in
       Inr (p, note_put a (if p \<noteq> None then n1\<lparr>n_changes := n_changes n1 OR NOTICE_CHANGE_REMOVE\<rparr> else n1) s)))"

definition add_parse_notice_katcp :: "bool \<Rightarrow> nat \<Rightarrow> nat option \<Rightarrow> 'u nstate \<Rightarrow> (int \<times> 'u nstate) res" where
  "add_parse_notice_katcp = queue_message"

definition mark_busy_katcp :: "'u nstate \<Rightarrow> 'u nstate" where
  "mark_busy_katcp s = s\<lparr>s_busy := s_busy s + 1\<rparr>"

definition configure_notice_katcp :: "nat \<Rightarrow> notice_trigger \<Rightarrow> nat \<Rightarrow> 'u nstate \<Rightarrow> (int \<times> 'u nstate) res" where
  "configure_notice_katcp a trigger data s =
     bind_res (note_at a s) (\<lambda>n.
     case trigger of
       TRIGGER_OFF \<Rightarrow> Inr (-1, s)
     | TRIGGER_ALL \<Rightarrow> Inr (0, note_put a (n\<lparr>n_trigger := TRIGGER_ALL\<rparr>) s)
     | TRIGGER_SINGLE \<Rightarrow>
         let vs = map (\<lambda>v. if v_data v = data then v\<lparr>v_trigger := 1\<rparr> else v) (subs n) @ drop (n_count n) (n_vector n) in
         Inr (0, mark_busy_katcp (note_put a (n\<lparr>n_trigger := TRIGGER_SINGLE, n_vector := vs\<rparr>) s)))"

definition trigger_notice_katcp :: "nat \<Rightarrow> 'u nstate \<Rightarrow> (int \<times> 'u nstate) res" where
  "trigger_notice_katcp a s = configure_notice_katcp a TRIGGER_ALL 0 s"

definition trigger_single_notice_katcp :: "nat \<Rightarrow> nat \<Rightarrow> 'u nstate \<Rightarrow> (int \<times> 'u nstate) res" where
  "trigger_single_notice_katcp a data s = configure_notice_katcp a TRIGGER_SINGLE data s"

definition wake_notice_katcp :: "bool \<Rightarrow> nat \<Rightarrow> nat option \<Rightarrow> 'u nstate \<Rightarrow> 'u nstate res" where
  "wake_notice_katcp ok a p s =
     bind_res (set_parse_notice_katcp ok a p s) (\<lambda>(_, s1).
     bind_res (configure_notice_katcp a TRIGGER_ALL 0 s1) (\<lambda>(_, s2). Inr s2))"

definition wake_single_notice_katcp :: "bool \<Rightarrow> nat \<Rightarrow> nat option \<Rightarrow> nat \<Rightarrow> 'u nstate \<Rightarrow> 'u nstate res" where
  "wake_single_notice_katcp ok a p data s =
     bind_res (set_parse_notice_katcp ok a p s) (\<lambda>(_, s1).
     bind_res (configure_notice_katcp a TRIGGER_SINGLE data s1) (\<lambda>(_, s2). Inr s2))"

definition wake_name_notice_katcp :: "bool \<Rightarrow> string option \<Rightarrow> nat option \<Rightarrow> 'u nstate \<Rightarrow> (int \<times> 'u nstate) res" where
  "wake_name_notice_katcp ok name p s =
     bind_res (find_notice_katcp name s) (\<lambda>ao.
     case ao of
       None \<Rightarrow> Inr (-1, s)
     | Some a \<Rightarrow> bind_res (wake_notice_katcp ok a p s) (\<lambda>s1. Inr (0, s1)))"

definition wake_single_name_notice_katcp ::
  "bool \<Rightarrow> string option \<Rightarrow> nat option \<Rightarrow> nat \<Rightarrow> 'u nstate \<Rightarrow> (int \<times> 'u nstate) res" where
  "wake_single_name_notice_katcp ok name p data s =
     bind_res (find_notice_katcp name s) (\<lambda>ao.
     case ao of
       None \<Rightarrow> Inr (-1, s)
     | Some a \<Rightarrow> bind_res (wake_single_notice_katcp ok a p data s) (\<lambda>s1. Inr (0, s1)))"

definition rename_notice_katcp :: "bool \<Rightarrow> nat option \<Rightarrow> string option \<Rightarrow> 'u nstate \<Rightarrow> (int \<times> 'u nstate) res" where
  "rename_notice_katcp ok ao name s =
     (case ao of
        None \<Rightarrow> Inr (-1, s)
      | Some a \<Rightarrow>
          if name \<noteq> None \<and> \<not> ok then Inr (-1, s)
          else bind_res (note_at a s) (\<lambda>n. Inr (0, note_put a (n\<lparr>n_name := name\<rparr>) s)))"

definition change_name_notice_katcp ::
  "bool \<Rightarrow> string option \<Rightarrow> string option \<Rightarrow> 'u nstate \<Rightarrow> (int \<times> 'u nstate) res" where
  "change_name_notice_katcp ok name newname s =
     bind_res (find_notice_katcp name s) (\<lambda>ao. rename_notice_katcp ok ao newname s)"

section \<open>The main loop\<close>

text \<open>A callback gets its client, the notice and its datum, and may do anything to the state;
  \<open>cb\<close> interprets the addresses of callbacks. The loops over subscribers and notices have a
  bound on their rounds, as a callback may always add more.\<close>

type_synonym 'u callback = "nat \<Rightarrow> nat \<Rightarrow> nat \<Rightarrow> nat \<Rightarrow> 'u nstate \<Rightarrow> (int \<times> 'u nstate) res"

text \<open>After the callback the code reads the client through its pointer into the vector.\<close>

definition end_subscription :: "nat \<Rightarrow> nat \<Rightarrow> nat \<Rightarrow> 'u nstate \<Rightarrow> 'u nstate res" where
  "end_subscription base a k s =
     bind_res (note_at a s) (\<lambda>n.
     if n_base n \<noteq> base then Inl UseAfterFree
     else if k \<ge> length (n_vector n) \<or> n_count n = 0 then Inl OutOfBounds
     else
       bind_res (dispatch_compact_notice_katcp (v_client (n_vector n ! k)) a s) (\<lambda>(_, s1).
       Inr (note_put a (drop_sub k n) s1)))"

fun call_round :: "nat \<Rightarrow> 'u callback \<Rightarrow> nat \<Rightarrow> nat \<Rightarrow> nat \<Rightarrow> 'u nstate \<Rightarrow> 'u nstate option res" where
  "call_round 0 cb test a k s = Inr None"
| "call_round (Suc f) cb test a k s =
     bind_res (note_at a s) (\<lambda>n.
     if k < n_count n then
       let v = n_vector n ! k in
       if v_trigger v \<ge> test then
         let s1 = note_put a (n\<lparr>n_vector := (n_vector n)[k := v\<lparr>v_trigger := 0\<rparr>]\<rparr>) s in
         bind_res (cb (v_call v) (v_client v) a (v_data v) s1) (\<lambda>(result, s2).
         if result \<le> 0 then bind_res (end_subscription (n_base n) a k s2) (call_round f cb test a k)
         else call_round f cb test a (k + 1) s2)
       else call_round f cb test a (k + 1) s
     else Inr (Some s))"

definition drop_parse_of :: "nat \<Rightarrow> 'u nstate \<Rightarrow> 'u nstate res" where
  "drop_parse_of a s =
     bind_res (note_at a s) (\<lambda>n.
     bind_res (destroy_opt (n_parse n) (ns_msgs s)) (\<lambda>m. Inr (note_put a (n\<lparr>n_parse := None\<rparr>) (msgs_put m s))))"

definition take_message :: "nat \<Rightarrow> 'u nstate \<Rightarrow> 'u nstate res" where
  "take_message a s =
     bind_res (note_at a s) (\<lambda>n.
     bind_res (remove_head_queue_katcl (n_queue n)) (\<lambda>(p, q). Inr (note_put a (n\<lparr>n_queue := q, n_parse := p\<rparr>) s)))"

text \<open>The rounds of one notice, at most \<open>limit\<close> of them but always one.\<close>

fun message_rounds :: "nat \<Rightarrow> 'u callback \<Rightarrow> nat \<Rightarrow> nat \<Rightarrow> nat \<Rightarrow> 'u nstate \<Rightarrow> 'u nstate option res" where
  "message_rounds f cb test a limit s =
     bind_res (call_round f cb test a 0 s) (\<lambda>so.
     case so of
       None \<Rightarrow> Inr None
     | Some s1 \<Rightarrow>
         bind_res (drop_parse_of a s1) (\<lambda>s2.
         if limit \<le> 1 then Inr (Some s2)
         else bind_res (take_message a s2) (\<lambda>s3.
              bind_res (note_at a s3) (\<lambda>n.
              if n_parse n = None then Inr (Some s3) else message_rounds f cb test a (limit - 1) s3))))"

declare message_rounds.simps [simp del]

definition serve_notice :: "nat \<Rightarrow> 'u callback \<Rightarrow> nat \<Rightarrow> 'u nstate \<Rightarrow> 'u nstate option res" where
  "serve_notice f cb a s =
     bind_res (note_at a s) (\<lambda>n.
     if n_trigger n = TRIGGER_OFF then Inr (Some s)
     else
       let test = (if n_trigger n = TRIGGER_ALL then 0 else 1) in
       bind_res (drop_parse_of a (note_put a (n\<lparr>n_trigger := TRIGGER_OFF, n_changes := 0\<rparr>) s)) (\<lambda>s1.
       bind_res (take_message a s1) (\<lambda>s2.
       message_rounds f cb test a (size_queue_katcl (Some (n_queue n))) s2)))"

fun run_loop :: "nat \<Rightarrow> nat \<Rightarrow> 'u callback \<Rightarrow> nat \<Rightarrow> 'u nstate \<Rightarrow> 'u nstate option res" where
  "run_loop 0 f cb i s = Inr None"
| "run_loop (Suc g) f cb i s =
     (if i < length (s_notices s) then
        let a = s_notices s ! i in
        bind_res (serve_notice f cb a s) (\<lambda>so.
        case so of
          None \<Rightarrow> Inr None
        | Some s1 \<Rightarrow>
            bind_res (note_at a s1) (\<lambda>n.
            if n_count n = 0 \<and> n_use n \<le> 0 then
              bind_res (deallocate_notice_katcp a s1) (\<lambda>s2.
              run_loop g f cb i (s2\<lparr>s_notices := take i (s_notices s2) @ drop (i + 1) (s_notices s2)\<rparr>))
            else run_loop g f cb (i + 1) s1))
      else Inr (Some s))"

definition run_notices_katcp :: "nat \<Rightarrow> nat \<Rightarrow> 'u callback \<Rightarrow> 'u nstate \<Rightarrow> 'u nstate option res" where
  "run_notices_katcp g f cb s = run_loop g f cb 0 s"

section \<open>The subscribers of a notice\<close>

lemma swap_last:
  assumes "i < length l"
  shows "take i (butlast (l[i := last l])) = take i l"
    "add_mset (l ! i) (mset (drop i (butlast (l[i := last l])))) = mset (drop i l)"
    "length (butlast (l[i := last l])) = length l - 1"
proof -
  obtain ys where l: "l = take i l @ l ! i # ys" using id_take_nth_drop [OF assms] by blast
  have d: "drop i l = l ! i # ys" using l assms by (metis Cons_nth_drop_Suc append_take_drop_id same_append_eq)
  have "butlast (l[i := last l]) = take i l @ (if ys = [] then [] else last ys # butlast ys)"
  proof (cases "ys = []")
    case True
    then have "l[i := last l] = l" using l assms by (metis last_snoc list_update_id)
    then show ?thesis using True l by (metis append_Nil2 butlast_snoc)
  next
    case False
    have "l[i := last l] = take i l @ last l # ys"
      using assms d by (simp add: upd_conv_take_nth_drop Cons_nth_drop_Suc [symmetric])
    moreover have "last l = last ys" using l False by (metis last.simps last_appendR list.distinct(1))
    ultimately show ?thesis using False by (simp add: butlast_append)
  qed
  moreover have "mset (last ys # butlast ys) = mset ys" if "ys \<noteq> []"
    using that append_butlast_last_id [OF that] by (metis mset.simps(2) mset_append union_mset_add_mset_right add.right_neutral mset.simps(1) add.commute append_Nil)
  ultimately show "take i (butlast (l[i := last l])) = take i l"
    "add_mset (l ! i) (mset (drop i (butlast (l[i := last l])))) = mset (drop i l)"
    using assms d by auto
qed simp

lemma subs_update [simp]: "i < n_count n \<Longrightarrow> subs (n\<lparr>n_vector := (n_vector n)[i := v]\<rparr>) = (subs n)[i := v]"
  by (simp add: subs_def take_update_swap)

definition note_ok :: "notice \<Rightarrow> bool" where
  "note_ok n \<longleftrightarrow> n_count n \<le> length (n_vector n) \<and> pq_inv (n_queue n)"

lemma length_subs [simp]: "note_ok n \<Longrightarrow> length (subs n) = n_count n"
  by (simp add: subs_def note_ok_def)

lemma nth_subs: "i < n_count n \<Longrightarrow> subs n ! i = n_vector n ! i"
  by (simp add: subs_def)

lemma drop_sub_subs:
  assumes "note_ok n" "i < n_count n"
  shows "subs (drop_sub i n) = butlast ((subs n)[i := last (subs n)])" "note_ok (drop_sub i n)"
    "n_count (drop_sub i n) = n_count n - 1"
proof -
  let ?m = "n_count n - 1"
  have len: "length (subs n) = n_count n" using assms(1) by simp
  have last: "last (subs n) = n_vector n ! ?m"
  proof -
    have "subs n \<noteq> []" using len assms(2) by auto
    from last_conv_nth [OF this] show ?thesis using assms(2) len nth_subs [of ?m n] by simp
  qed
  have "butlast ((subs n)[i := last (subs n)]) = take ?m ((subs n)[i := last (subs n)])"
    using len by (simp add: butlast_conv_take)
  also have "\<dots> = take ?m (if i < ?m then (n_vector n)[i := n_vector n ! ?m] else n_vector n)"
    using assms(2) last by (auto simp: subs_def take_update_swap min_def list_update_beyond)
  finally show "subs (drop_sub i n) = butlast ((subs n)[i := last (subs n)])"
    by (simp add: subs_def drop_sub_def Let_def)
  show "note_ok (drop_sub i n)" "n_count (drop_sub i n) = n_count n - 1"
    using assms by (auto simp: note_ok_def drop_sub_def Let_def)
qed

lemma dispatch_compact_mset:
  "mset (snd (dispatch_compact_loop a i l)) = mset (take i l) + filter_mset (\<lambda>x. x \<noteq> a) (mset (drop i l))"
proof (induction a i l rule: dispatch_compact_loop.induct)
  case (1 a i l)
  show ?case
  proof (cases "i < length l")
    case False
    then show ?thesis by (subst dispatch_compact_loop.simps) simp
  next
    case True
    show ?thesis
    proof (cases "l ! i = a")
      case hit: True
      have "mset (snd (dispatch_compact_loop a i (butlast (l[i := last l])))) =
          mset (take i l) + filter_mset (\<lambda>x. x \<noteq> a) (mset (drop i (butlast (l[i := last l]))))"
        using 1(1) [OF True hit] swap_last(1) [OF True] by simp
      moreover have "filter_mset (\<lambda>x. x \<noteq> a) (mset (drop i l)) = filter_mset (\<lambda>x. x \<noteq> a) (mset (drop i (butlast (l[i := last l]))))"
        using swap_last(2) [OF True, symmetric] hit by simp
      ultimately show ?thesis
        using True hit by (subst dispatch_compact_loop.simps) (simp add: split_beta)
    next
      case miss: False
      have "take (Suc i) l = take i l @ [l ! i]" "drop i l = l ! i # drop (Suc i) l"
        using True by (simp_all add: take_Suc_conv_app_nth Cons_nth_drop_Suc)
      then show ?thesis using 1(2) [OF True miss] True miss by (subst dispatch_compact_loop.simps) simp
    qed
  qed
qed

lemma dispatch_compact_all: "mset (snd (dispatch_compact_loop a 0 l)) = filter_mset (\<lambda>x. x \<noteq> a) (mset l)"
  using dispatch_compact_mset [of a 0 l] by simp

section \<open>The invariant\<close>

definition subs_count :: "'u nstate \<Rightarrow> nat \<Rightarrow> nat \<Rightarrow> nat" where
  \<comment> \<open>how often a client subscribes to a notice\<close>
  "subs_count s a d = (case ns_heap s a of None \<Rightarrow> 0 | Some n \<Rightarrow> count (mset (map v_client (subs n))) d)"

definition links_of :: "'u nstate \<Rightarrow> nat \<Rightarrow> nat list" where
  "links_of s d = (case ns_clients s d of None \<Rightarrow> [] | Some l \<Rightarrow> l)"

definition linked :: "'u nstate \<Rightarrow> bool" where
  "linked s \<longleftrightarrow> (\<forall>d a. count (mset (links_of s d)) a = subs_count s a d)"

definition single :: "'u nstate \<Rightarrow> bool" where
  "single s \<longleftrightarrow> (\<forall>a n. ns_heap s a = Some n \<longrightarrow> distinct (map v_client (subs n)))"

definition opt_mset :: "nat option \<Rightarrow> nat multiset" where
  "opt_mset p = (case p of None \<Rightarrow> {#} | Some a \<Rightarrow> {#a#})"

definition msgs_of :: "notice \<Rightarrow> nat multiset" where
  "msgs_of n = mset (pq_items (n_queue n)) + opt_mset (n_parse n)"

definition msgs_at :: "(nat \<rightharpoonup> notice) \<Rightarrow> nat \<Rightarrow> nat multiset" where
  "msgs_at h a = (case h a of None \<Rightarrow> {#} | Some n \<Rightarrow> msgs_of n)"

text \<open>The messages held by the notices of the list, but for one.\<close>

definition others :: "'u nstate \<Rightarrow> nat \<Rightarrow> nat multiset" where
  "others s a = (\<Sum>b \<in> set (s_notices s) - {a}. msgs_at (ns_heap s) b)"

text \<open>The list has every notice once; what the notices hold together with \<open>M\<close>, the
  references of everything else, are all the references there are; and the links agree with
  the subscriptions, one at most for every notice and client.\<close>

definition notices_inv :: "nat multiset \<Rightarrow> 'u nstate \<Rightarrow> bool" where
  "notices_inv M s \<longleftrightarrow>
     distinct (s_notices s) \<and> set (s_notices s) = dom (ns_heap s) \<and>
     (\<forall>a n. ns_heap s a = Some n \<longrightarrow> a < ns_fresh s \<and> note_ok n) \<and>
     refs_ok (ns_msgs s) ((\<Sum>a \<in> set (s_notices s). msgs_at (ns_heap s) a) + M) \<and> linked s \<and> single s"

lemma note_put_simps [simp]:
  "ns_heap (note_put a n s) = (ns_heap s)(a \<mapsto> n)" "ns_fresh (note_put a n s) = ns_fresh s"
  "s_notices (note_put a n s) = s_notices s" "ns_clients (note_put a n s) = ns_clients s"
  "ns_msgs (note_put a n s) = ns_msgs s" "ns_user (note_put a n s) = ns_user s"
  by (simp_all add: note_put_def)

lemma links_put_simps [simp]:
  "ns_heap (links_put d l s) = ns_heap s" "ns_fresh (links_put d l s) = ns_fresh s"
  "s_notices (links_put d l s) = s_notices s" "ns_clients (links_put d l s) = (ns_clients s)(d \<mapsto> l)"
  "ns_msgs (links_put d l s) = ns_msgs s" "ns_user (links_put d l s) = ns_user s"
  by (simp_all add: links_put_def)

lemma msgs_put_simps [simp]:
  "ns_heap (msgs_put m s) = ns_heap s" "ns_fresh (msgs_put m s) = ns_fresh s"
  "s_notices (msgs_put m s) = s_notices s" "ns_clients (msgs_put m s) = ns_clients s"
  "ns_msgs (msgs_put m s) = m" "ns_user (msgs_put m s) = ns_user s"
  by (simp_all add: msgs_put_def)

lemma note_at_Some [simp]: "ns_heap s a = Some n \<Longrightarrow> note_at a s = Inr n"
  by (simp add: note_at_def)

lemma opt_mset_simps [simp]: "opt_mset None = {#}" "opt_mset (Some a) = {#a#}"
  by (simp_all add: opt_mset_def)

text \<open>The references, seen from one notice.\<close>

lemma msgs_split:
  assumes "a \<in> set (s_notices s)" "ns_heap s a = Some n"
  shows "(\<Sum>b \<in> set (s_notices s). msgs_at (ns_heap s) b) = msgs_of n + others s a"
  using assms by (simp add: others_def msgs_at_def sum.remove)

lemma msgs_without: "a \<notin> set (s_notices s) \<Longrightarrow> others s a = (\<Sum>b \<in> set (s_notices s). msgs_at (ns_heap s) b)"
  by (simp add: others_def)

lemma others_cong:
  assumes "set (s_notices s') - {a} = set (s_notices s) - {a}" "\<And>b. b \<noteq> a \<Longrightarrow> ns_heap s' b = ns_heap s b"
  shows "others s' a = others s a"
  unfolding others_def using assms by (intro sum.cong) (auto simp: msgs_at_def)

text \<open>The links and subscriptions, likewise: a change of one notice and of one client.\<close>

lemma linked_cong: "ns_heap s' = ns_heap s \<Longrightarrow> ns_clients s' = ns_clients s \<Longrightarrow> linked s' = linked s \<and> single s' = single s"
  by (simp add: linked_def single_def subs_count_def links_of_def)

lemma linked_same_clients:
  assumes "linked s" "single s" "ns_heap s a = Some n" "map v_client (subs n') = map v_client (subs n)"
  shows "linked (note_put a n' s)" "single (note_put a n' s)"
  using assms by (auto simp: linked_def single_def subs_count_def links_of_def)

lemma distinct_counts: "distinct xs \<longleftrightarrow> (\<forall>x. count (mset xs) x \<le> 1)"
proof -
  have "count (mset xs) x = (if x \<in> set xs then 1 else 0) \<longleftrightarrow> count (mset xs) x \<le> 1" for x
  proof -
    have "0 < count (mset xs) x \<longleftrightarrow> x \<in> set xs" by simp
    then show ?thesis by (simp del: count_greater_zero_iff) linarith
  qed
  then show ?thesis by (simp add: distinct_count_atmost_1)
qed

lemma unlink_ok:
  assumes inv: "linked s" "single s" and n: "ns_heap s a = Some n" "note_ok n" "i < n_count n" "v_client (n_vector n ! i) = d"
  shows "\<exists>check l. dispatch_compact_notice_katcp d a s = Inr (check, links_put d l s) \<and>
    (\<forall>n'. add_mset d (mset (map v_client (subs n'))) = mset (map v_client (subs n)) \<longrightarrow>
      linked (note_put a n' (links_put d l s)) \<and> single (note_put a n' (links_put d l s)))"
proof -
  have dist: "distinct (map v_client (subs n))" using inv(2) n(1) by (simp add: single_def)
  have mem: "d \<in> set (map v_client (subs n))"
    using n nth_subs [of i n] nth_mem [of i "subs n"] by force
  have one: "count (mset (map v_client (subs n))) d = 1" using dist mem by (simp add: distinct_count_atmost_1)
  then have "count (mset (links_of s d)) a = 1" using inv(1) n(1) by (simp add: linked_def subs_count_def)
  then obtain l0 where l0: "ns_clients s d = Some l0" by (cases "ns_clients s d") (auto simp: links_of_def)
  define l where "l = snd (dispatch_compact_loop a 0 l0)"
  have l: "mset l = filter_mset (\<lambda>x. x \<noteq> a) (mset l0)" by (simp add: l_def dispatch_compact_all)
  have run: "dispatch_compact_notice_katcp d a s = Inr (fst (dispatch_compact_loop a 0 l0), links_put d l s)"
    using l0 by (simp add: dispatch_compact_notice_katcp_def links_at_def l_def split_beta)
  have "linked (note_put a n' (links_put d l s)) \<and> single (note_put a n' (links_put d l s))"
    if n': "add_mset d (mset (map v_client (subs n'))) = mset (map v_client (subs n))" for n'
  proof
    have c: "count (mset (map v_client (subs n))) e = (if e = d then 1 else 0) + count (mset (map v_client (subs n'))) e" for e
      unfolding n' [symmetric] by simp
    have old: "count (mset (links_of s e)) b = subs_count s b e" for e b using inv(1) by (simp add: linked_def)
    have "count (mset (links_of (note_put a n' (links_put d l s)) e)) b = subs_count (note_put a n' (links_put d l s)) b e" for e b
    proof -
      have "count (mset (links_of (note_put a n' (links_put d l s)) e)) b =
          (if e = d \<and> b = a then 0 else count (mset (links_of s e)) b)"
        using l l0 by (simp add: links_of_def)
      moreover have "subs_count (note_put a n' (links_put d l s)) b e = (if e = d \<and> b = a then 0 else subs_count s b e)"
        using c [of e] one n(1) by (auto simp: subs_count_def)
      ultimately show ?thesis using old by simp
    qed
    then show "linked (note_put a n' (links_put d l s))" by (simp add: linked_def)
    have "count (mset (map v_client (subs n'))) e \<le> 1" for e
      using c [of e] dist unfolding distinct_counts by (metis add_leD2)
    then have "distinct (map v_client (subs n'))" by (simp add: distinct_counts)
    then show "single (note_put a n' (links_put d l s))" using inv(2) by (simp add: single_def)
  qed
  with run show ?thesis by blast
qed

end
