(* ===== verification/Notice_Run.thy ===== *)
theory Notice_Run
  imports Notices
begin

text \<open>
  What a run of the notices (theory \<open>Notices\<close>) delivers, and to whom: one round for each
  message of a triggered notice, in which each subscriber is called once until it declines,
  by induction over the loops of \<open>run_notices_katcp\<close>.
\<close>

section \<open>What a run delivers\<close>

text \<open>A callback that leaves the notices alone: it may change the rest of the program, and its
  result depends on what it is called with and the message of the round.\<close>

type_synonym event = "nat \<times> nat \<times> nat \<times> nat \<times> nat option"

definition msg_of :: "nat \<Rightarrow> 'u nstate \<Rightarrow> nat option" where
  "msg_of a s = (case ns_heap s a of None \<Rightarrow> None | Some n \<Rightarrow> n_parse n)"

definition calm :: "(event \<Rightarrow> int) \<Rightarrow> (event \<Rightarrow> 'u \<Rightarrow> 'u) \<Rightarrow> 'u callback" where
  "calm ret step c d a x s =
     (let e = (c, d, a, x, msg_of a s) in Inr (ret e, s\<lparr>ns_user := step e (ns_user s)\<rparr>))"

definition event_of :: "nat \<Rightarrow> nat option \<Rightarrow> invoke \<Rightarrow> event" where
  "event_of a m v = (v_call v, v_client v, a, v_data v, m)"

definition called :: "nat \<Rightarrow> invoke \<Rightarrow> bool" where
  "called test v \<longleftrightarrow> test \<le> v_trigger v"

definition untriggered :: "invoke \<Rightarrow> invoke" where
  "untriggered v = v\<lparr>v_trigger := 0\<rparr>"

text \<open>The subscribers left by a round with message \<open>m\<close>: those that were not called, and those
  that asked for more.\<close>

definition after_round :: "(event \<Rightarrow> int) \<Rightarrow> nat \<Rightarrow> nat \<Rightarrow> nat option \<Rightarrow> invoke multiset \<Rightarrow> invoke multiset" where
  "after_round ret a test m V =
     image_mset untriggered (filter_mset (\<lambda>v. called test v \<and> 0 < ret (event_of a m v)) V) +
     filter_mset (\<lambda>v. \<not> called test v) V"

fun left_after :: "(event \<Rightarrow> int) \<Rightarrow> nat \<Rightarrow> nat \<Rightarrow> nat option list \<Rightarrow> invoke multiset \<Rightarrow> invoke multiset" where
  "left_after ret a test [] V = V"
| "left_after ret a test (m # ms) V = left_after ret a test ms (after_round ret a test m V)"

fun calls_of :: "(event \<Rightarrow> int) \<Rightarrow> nat \<Rightarrow> nat \<Rightarrow> nat option list \<Rightarrow> invoke multiset \<Rightarrow> invoke multiset list" where
  "calls_of ret a test [] V = []"
| "calls_of ret a test (m # ms) V =
     filter_mset (called test) V # calls_of ret a test ms (after_round ret a test m V)"

text \<open>What a run leaves of a notice, but for its subscribers.\<close>

definition same_note :: "notice \<Rightarrow> notice \<Rightarrow> bool" where
  "same_note n n' \<longleftrightarrow> n_name n' = n_name n \<and> n_tag n' = n_tag n \<and> n_use n' = n_use n \<and> n_trigger n' = n_trigger n \<and>
     n_queue n' = n_queue n \<and> n_parse n' = n_parse n \<and> n_changes n' = n_changes n"

definition same_rest :: "nat \<Rightarrow> 'u nstate \<Rightarrow> 'u nstate \<Rightarrow> bool" where
  "same_rest a s s' \<longleftrightarrow> (\<forall>b. b \<noteq> a \<longrightarrow> ns_heap s' b = ns_heap s b) \<and> s_notices s' = s_notices s \<and>
     ns_fresh s' = ns_fresh s"

lemma same_rest_trans: "same_rest a s s1 \<Longrightarrow> same_rest a s1 s2 \<Longrightarrow> same_rest a s s2"
  by (simp add: same_rest_def)

lemma same_note_trans: "same_note n n1 \<Longrightarrow> same_note n1 n2 \<Longrightarrow> same_note n n2"
  by (simp add: same_note_def)

text \<open>Ending a subscription in a state that is in order.\<close>

lemma end_subscription_ok:
  assumes "linked s" "single s" "ns_heap s a = Some n" "note_ok n" "k < n_count n"
  shows "\<exists>s'. end_subscription (n_base n) a k s = Inr s' \<and> ns_heap s' a = Some (drop_sub k n) \<and> linked s' \<and> single s' \<and>
    same_rest a s s' \<and> ns_msgs s' = ns_msgs s \<and> ns_user s' = ns_user s"
proof -
  let ?d = "v_client (n_vector n ! k)"
  have len: "k < length (subs n)" using assms(4,5) by simp
  have "mset (subs n) = add_mset (subs n ! k) (mset (subs (drop_sub k n)))"
    using swap_last(1,2) [OF len] drop_sub_subs(1) [OF assms(4,5)]
    by (metis append_take_drop_id mset_append union_mset_add_mset_right)
  then have m: "add_mset ?d (mset (map v_client (subs (drop_sub k n)))) = mset (map v_client (subs n))"
    using nth_subs [OF assms(5)] by simp
  obtain check l where l: "dispatch_compact_notice_katcp ?d a s = Inr (check, links_put ?d l s)"
      "linked (note_put a (drop_sub k n) (links_put ?d l s))" "single (note_put a (drop_sub k n) (links_put ?d l s))"
    using unlink_ok [OF assms refl] m by blast
  have "k < length (n_vector n)" "n_count n \<noteq> 0" using assms(4,5) by (auto simp: note_ok_def)
  then have "end_subscription (n_base n) a k s = Inr (note_put a (drop_sub k n) (links_put ?d l s))"
    using assms(3) l(1) by (simp add: end_subscription_def)
  then show ?thesis using l(2,3) by (simp add: same_rest_def)
qed

lemma drop_sub_same: "same_note n (drop_sub k n)" "n_base (drop_sub k n) = n_base n"
  by (simp_all add: same_note_def drop_sub_def Let_def)

definition run_events :: "(event \<Rightarrow> 'u \<Rightarrow> 'u) \<Rightarrow> event list \<Rightarrow> 'u \<Rightarrow> 'u" where
  "run_events step es u = fold step es u"

lemma run_events_simps [simp]:
  "run_events step [] u = u" "run_events step (e # es) u = run_events step es (step e u)"
  "run_events step (es @ fs) u = run_events step fs (run_events step es u)"
  by (simp_all add: run_events_def)

text \<open>One round over the subscribers from position \<open>k\<close> on.\<close>

lemma call_round_ok:
  assumes "linked s" "single s" "ns_heap s a = Some n" "note_ok n" "k \<le> n_count n" "n_count n - k < f"
  shows "\<exists>s' n' cs ws. call_round f (calm ret step) test a k s = Inr (Some s') \<and> ns_heap s' a = Some n' \<and>
    linked s' \<and> single s' \<and> note_ok n' \<and> same_note n n' \<and> same_rest a s s' \<and> ns_msgs s' = ns_msgs s \<and>
    subs n' = take k (subs n) @ ws \<and>
    mset cs = filter_mset (called test) (mset (drop k (subs n))) \<and>
    mset ws = after_round ret a test (n_parse n) (mset (drop k (subs n))) \<and>
    ns_user s' = run_events step (map (event_of a (n_parse n)) cs) (ns_user s)"
  using assms
proof (induction f arbitrary: s n k)
  case (Suc f)
  note n = Suc.prems(3,4)
  show ?case
  proof (cases "k < n_count n")
    case False
    then have "k = n_count n" using Suc.prems(5) by simp
    then have e: "drop k (subs n) = []" "take k (subs n) = subs n" using n(2) by simp_all
    show ?thesis
      using Suc.prems(1-4) False e
      by (intro exI [of _ s] exI [of _ n] exI [of _ "[]"]) (simp add: same_note_def same_rest_def after_round_def)
  next
    case True
    let ?v = "n_vector n ! k" and ?m = "n_parse n"
    have v: "subs n ! k = ?v" "k < length (subs n)" using nth_subs [OF True] n(2) True by simp_all
    have rest: "mset (drop k (subs n)) = add_mset ?v (mset (drop (Suc k) (subs n)))"
      using v by (metis Cons_nth_drop_Suc mset.simps(2))
    have lt: "Suc k \<le> n_count n" "n_count n - Suc k < f" using Suc.prems(6) True by linarith+
    have tk: "take (Suc k) (subs n) = take k (subs n) @ [?v]" using v by (simp add: take_Suc_conv_app_nth)
    show ?thesis
    proof (cases "called test ?v")
      case no: False
      have step: "call_round (Suc f) (calm ret step) test a k s = call_round f (calm ret step) test a (Suc k) s"
        using n(1) True no by (simp add: called_def Let_def)
      obtain s' n' cs ws where ih: "call_round f (calm ret step) test a (Suc k) s = Inr (Some s')" "ns_heap s' a = Some n'"
        "linked s'" "single s'" "note_ok n'" "same_note n n'" "same_rest a s s'" "ns_msgs s' = ns_msgs s"
        "subs n' = take (Suc k) (subs n) @ ws" "mset cs = filter_mset (called test) (mset (drop (Suc k) (subs n)))"
        "mset ws = after_round ret a test ?m (mset (drop (Suc k) (subs n)))"
        "ns_user s' = run_events step (map (event_of a ?m) cs) (ns_user s)"
        using Suc.IH [OF Suc.prems(1-4) lt] by blast
      show ?thesis
        unfolding step
        by (intro exI [of _ s'] exI [of _ n'] exI [of _ cs] exI [of _ "?v # ws"])
          (use ih tk rest no in \<open>simp add: after_round_def\<close>)
    next
      case yes: True
      let ?e = "event_of a ?m ?v" and ?n1 = "n\<lparr>n_vector := (n_vector n)[k := untriggered ?v]\<rparr>"
      let ?s1 = "note_put a ?n1 s"
      let ?s2 = "?s1\<lparr>ns_user := step ?e (ns_user s)\<rparr>"
      have n1: "subs ?n1 = (subs n)[k := untriggered ?v]" "note_ok ?n1" "same_note n ?n1" "n_parse ?n1 = ?m" "n_count ?n1 = n_count n"
        using True n(2) by (simp_all add: note_ok_def same_note_def)
      have cl: "map v_client (subs ?n1) = map v_client (subs n)"
        unfolding n1(1) map_update using v by (simp add: untriggered_def list_update_same_conv)
      have ls: "linked ?s2" "single ?s2"
        using linked_same_clients [OF Suc.prems(1,2) n(1) cl] linked_cong [of ?s2 ?s1] by simp_all
      have h2: "ns_heap ?s2 a = Some ?n1" by simp
      have calm: "calm ret step (v_call ?v) (v_client ?v) a (v_data ?v) ?s1 = Inr (ret ?e, ?s2)"
        using n1(4) by (simp add: calm_def msg_of_def event_of_def Let_def)
      have step: "call_round (Suc f) (calm ret step) test a k s =
          (if ret ?e \<le> 0 then bind_res (end_subscription (n_base n) a k ?s2) (call_round f (calm ret step) test a k)
           else call_round f (calm ret step) test a (Suc k) ?s2)"
        using n(1) True yes calm by (simp add: called_def Let_def untriggered_def)
      have r2: "same_rest a s ?s2" by (simp add: same_rest_def)
      show ?thesis
      proof (cases "ret ?e \<le> 0")
        case False
        have d: "drop (Suc k) (subs ?n1) = drop (Suc k) (subs n)" "take (Suc k) (subs ?n1) = take k (subs n) @ [untriggered ?v]"
          using v by (simp_all add: n1(1) take_Suc_conv_app_nth)
        obtain s' n' cs ws where ih: "call_round f (calm ret step) test a (Suc k) ?s2 = Inr (Some s')" "ns_heap s' a = Some n'"
          "linked s'" "single s'" "note_ok n'" "same_note ?n1 n'" "same_rest a ?s2 s'" "ns_msgs s' = ns_msgs ?s2"
          "subs n' = take (Suc k) (subs ?n1) @ ws" "mset cs = filter_mset (called test) (mset (drop (Suc k) (subs ?n1)))"
          "mset ws = after_round ret a test (n_parse ?n1) (mset (drop (Suc k) (subs ?n1)))"
          "ns_user s' = run_events step (map (event_of a (n_parse ?n1)) cs) (ns_user ?s2)"
          using Suc.IH [OF ls h2 n1(2) lt [folded n1(5)]] by blast
        show ?thesis
          by (intro exI [of _ s'] exI [of _ n'] exI [of _ "?v # cs"] exI [of _ "untriggered ?v # ws"])
            (use ih d rest yes False step n1(3,4) same_note_trans [OF n1(3) ih(6)] same_rest_trans [OF r2 ih(7)] in
              \<open>simp add: after_round_def not_le\<close>)
      next
        case drop: True
        obtain s3 where s3: "end_subscription (n_base ?n1) a k ?s2 = Inr s3" "ns_heap s3 a = Some (drop_sub k ?n1)"
          "linked s3" "single s3" "same_rest a ?s2 s3" "ns_msgs s3 = ns_msgs ?s2" "ns_user s3 = ns_user ?s2"
          using end_subscription_ok [OF ls h2 n1(2), of k] True n1(5) by auto
        let ?n3 = "drop_sub k ?n1"
        have n3: "subs ?n3 = butlast ((subs ?n1)[k := last (subs ?n1)])" "note_ok ?n3" "n_count ?n3 = n_count n - 1"
          using drop_sub_subs [OF n1(2), of k] True n1(5) by simp_all
        have k1: "k < length (subs ?n1)" using v n1(1) by simp
        have t3: "take k (subs ?n3) = take k (subs n)"
          using swap_last(1) [OF k1] by (simp add: n3(1)) (simp add: n1(1))
        have "drop (Suc k) (subs ?n1) = drop (Suc k) (subs n)" "subs ?n1 ! k = untriggered ?v" using v by (simp_all add: n1(1))
        then have "mset (drop k (subs ?n1)) = add_mset (untriggered ?v) (mset (drop (Suc k) (subs n)))"
          using k1 by (metis Cons_nth_drop_Suc mset.simps(2))
        then have d3: "mset (drop k (subs ?n3)) = mset (drop (Suc k) (subs n))"
          using swap_last(2) [OF k1] \<open>subs ?n1 ! k = untriggered ?v\<close> by (simp add: n3(1))
        have lt3: "k \<le> n_count ?n3" "n_count ?n3 - k < f" using Suc.prems(6) True n3(3) by linarith+
        have p3: "n_parse ?n3 = ?m" using drop_sub_same(1) [of ?n1 k] n1(4) by (simp add: same_note_def)
        obtain s' n' cs ws where ih: "call_round f (calm ret step) test a k s3 = Inr (Some s')" "ns_heap s' a = Some n'"
          "linked s'" "single s'" "note_ok n'" "same_note ?n3 n'" "same_rest a s3 s'" "ns_msgs s' = ns_msgs s3"
          "subs n' = take k (subs ?n3) @ ws" "mset cs = filter_mset (called test) (mset (drop k (subs ?n3)))"
          "mset ws = after_round ret a test (n_parse ?n3) (mset (drop k (subs ?n3)))"
          "ns_user s' = run_events step (map (event_of a (n_parse ?n3)) cs) (ns_user s3)"
          using Suc.IH [OF s3(3,4,2) n3(2) lt3] by blast
        have sn: "same_note n n'" using same_note_trans [OF same_note_trans [OF n1(3) drop_sub_same(1)] ih(6)] .
        have sr: "same_rest a s s'" using same_rest_trans [OF same_rest_trans [OF r2 s3(5)] ih(7)] .
        have "call_round (Suc f) (calm ret step) test a k s = Inr (Some s')"
          using step drop s3(1) ih(1) by simp
        then show ?thesis
          by (intro exI [of _ s'] exI [of _ n'] exI [of _ "?v # cs"] exI [of _ ws])
            (use ih t3 d3 p3 rest yes drop s3 sn sr in \<open>simp add: after_round_def\<close>)
      qed
    qed
  qed
qed simp

lemma after_round_size: "size (after_round ret a test m V) \<le> size V"
proof -
  have "size (filter_mset (\<lambda>v. called test v \<and> 0 < ret (event_of a m v)) V) \<le> size (filter_mset (called test) V)"
    by (intro size_mset_mono filter_mset_mono_strong) auto
  moreover have "size (filter_mset (called test) V) + size (filter_mset (\<lambda>v. \<not> called test v) V) = size V"
    by (metis multiset_partition size_union)
  ultimately show ?thesis by (simp add: after_round_def)
qed

lemma destroy_opt_ok:
  assumes "refs_ok m (opt_mset p + R)"
  shows "\<exists>m'. destroy_opt p m = Inr m' \<and> refs_ok m' R \<and> same_msgs m m' R"
proof (cases p)
  case None
  then show ?thesis using assms same_msgs_refl by (auto simp: destroy_opt_def)
next
  case (Some b)
  then show ?thesis
    using destroy_ok [of m b R] destroy_same [of m b R] assms by (auto simp: destroy_opt_def)
qed

definition same_header :: "notice \<Rightarrow> notice \<Rightarrow> bool" where
  "same_header n n' \<longleftrightarrow> n_name n' = n_name n \<and> n_tag n' = n_tag n \<and> n_use n' = n_use n \<and> n_trigger n' = n_trigger n"

text \<open>The events of the rounds with messages \<open>ms\<close>, when each calls the subscribers \<open>css ! i\<close>.\<close>

definition round_events :: "nat \<Rightarrow> nat option list \<Rightarrow> invoke list list \<Rightarrow> event list" where
  "round_events a ms css = concat (map2 (\<lambda>m cs. map (event_of a m) cs) ms css)"

lemma round_events_simps [simp]:
  "round_events a [] css = []"
  "round_events a (m # ms) (cs # css) = map (event_of a m) cs @ round_events a ms css"
  by (simp_all add: round_events_def)

lemma message_rounds_ok:
  assumes "linked s" "single s" "ns_heap s a = Some n" "note_ok n" "n_count n < f"
    "length (pq_items (n_queue n)) = limit - 1" "refs_ok (ns_msgs s) (msgs_of n + N)"
  shows "\<exists>s' n' css. message_rounds f (calm ret step) test a limit s = Inr (Some s') \<and> ns_heap s' a = Some n' \<and>
    linked s' \<and> single s' \<and> note_ok n' \<and> same_header n n' \<and> same_rest a s s' \<and>
    refs_ok (ns_msgs s') N \<and> same_msgs (ns_msgs s) (ns_msgs s') N \<and>
    pq_items (n_queue n') = [] \<and> n_parse n' = None \<and>
    map mset css = calls_of ret a test (n_parse n # map Some (pq_items (n_queue n))) (mset (subs n)) \<and>
    mset (subs n') = left_after ret a test (n_parse n # map Some (pq_items (n_queue n))) (mset (subs n)) \<and>
    ns_user s' = run_events step (round_events a (n_parse n # map Some (pq_items (n_queue n))) css) (ns_user s)"
  using assms
proof (induction limit arbitrary: s n rule: less_induct)
  case (less limit)
  let ?qs = "pq_items (n_queue n)" and ?m = "n_parse n"
  obtain s1 n1 cs ws where r: "call_round f (calm ret step) test a 0 s = Inr (Some s1)" "ns_heap s1 a = Some n1"
    "linked s1" "single s1" "note_ok n1" "same_note n n1" "same_rest a s s1" "ns_msgs s1 = ns_msgs s"
    "subs n1 = ws" "mset cs = filter_mset (called test) (mset (subs n))"
    "mset ws = after_round ret a test ?m (mset (subs n))"
    "ns_user s1 = run_events step (map (event_of a ?m) cs) (ns_user s)"
    using call_round_ok [OF less.prems(1-4), of 0 f ret step test] less.prems(5) by auto
  have p1: "n_parse n1 = ?m" "n_queue n1 = n_queue n" "same_header n n1" using r(6) by (simp_all add: same_note_def same_header_def)
  have refs1: "refs_ok (ns_msgs s1) (opt_mset (n_parse n1) + (mset ?qs + N))"
    using less.prems(7) r(8) p1 by (simp add: msgs_of_def ac_simps)
  obtain m2 where m2: "destroy_opt (n_parse n1) (ns_msgs s1) = Inr m2" "refs_ok m2 (mset ?qs + N)"
      "same_msgs (ns_msgs s1) m2 (mset ?qs + N)"
    using destroy_opt_ok [OF refs1] by blast
  let ?n2 = "n1\<lparr>n_parse := None\<rparr>"
  let ?s2 = "note_put a ?n2 (msgs_put m2 s1)"
  have d2: "drop_parse_of a s1 = Inr ?s2" using r(2) m2(1) by (simp add: drop_parse_of_def)
  have ls2: "linked ?s2" "single ?s2"
    using linked_same_clients [OF r(3,4,2), of ?n2] linked_cong [of ?s2 "note_put a ?n2 s1"] by (simp_all add: subs_def)
  have n2: "note_ok ?n2" "subs ?n2 = ws" "same_header n ?n2" "n_count ?n2 = n_count n1"
    using r(5,9) p1(3) by (simp_all add: note_ok_def subs_def same_header_def)
  have cnt: "n_count n1 \<le> n_count n"
  proof -
    have "n_count n1 = size (mset ws)" using length_subs [OF r(5)] r(9) by simp
    also have "\<dots> \<le> size (mset (subs n))" using after_round_size r(11) by metis
    finally show ?thesis using length_subs [OF less.prems(4)] by simp
  qed
  have rest2: "same_rest a s ?s2" using r(7) by (simp add: same_rest_def)
  show ?case
  proof (cases "limit \<le> 1")
    case True
    then have q: "?qs = []" using less.prems(6) by (metis diff_is_0_eq length_0_conv)
    have "message_rounds f (calm ret step) test a limit s = Inr (Some ?s2)"
      by (subst message_rounds.simps) (use r(1) d2 True in simp)
    then show ?thesis
      by (intro exI [of _ ?s2] exI [of _ ?n2] exI [of _ "[cs]"])
        (use r m2 ls2 n2 rest2 q p1 in \<open>simp add: same_msgs_def\<close>)
  next
    case False
    then have "length ?qs = Suc (limit - 1 - 1)" using less.prems(6) by linarith
    then obtain b qs where q: "?qs = b # qs" "length qs = limit - 1 - 1" by (metis length_Suc_conv)
    have pq: "pq_inv (n_queue n)" using less.prems(4) by (simp add: note_ok_def)
    obtain q' where q': "remove_head_queue_katcl (n_queue n) = Inr (Some b, q')" "pq_inv q'" "pq_items q' = qs"
      using remove_head_pq [OF pq] q(1) by (auto simp: list_deq_def)
    let ?n3 = "?n2\<lparr>n_queue := q', n_parse := Some b\<rparr>"
    let ?s3 = "note_put a ?n3 ?s2"
    have t3: "take_message a ?s2 = Inr ?s3" using q'(1) p1(2) by (simp add: take_message_def)
    have n3: "note_ok ?n3" "subs ?n3 = ws" "same_header n ?n3" "n_count ?n3 < f"
      using n2 q'(2) cnt less.prems(5) by (simp_all add: note_ok_def subs_def same_header_def)
    have ls3: "linked ?s3" "single ?s3"
      using linked_same_clients [OF ls2, of a ?n2 ?n3] by (simp_all add: subs_def)
    have refs3: "refs_ok (ns_msgs ?s3) (msgs_of ?n3 + N)"
      using m2(2) q(1) q'(3) by (simp add: msgs_of_def)
    have h3: "ns_heap ?s3 a = Some ?n3" by simp
    have lim: "limit - 1 < limit" using False by simp
    have e3: "n_parse ?n3 = Some b" "pq_items (n_queue ?n3) = qs" "subs ?n3 = ws" using q'(3) n3(2) by simp_all
    have len: "length (pq_items (n_queue ?n3)) = limit - 1 - 1" using q(2) unfolding e3 .
    obtain s' n' css where ih: "message_rounds f (calm ret step) test a (limit - 1) ?s3 = Inr (Some s')" "ns_heap s' a = Some n'"
      "linked s'" "single s'" "note_ok n'" "same_header ?n3 n'" "same_rest a ?s3 s'" "refs_ok (ns_msgs s') N"
      "same_msgs (ns_msgs ?s3) (ns_msgs s') N" "pq_items (n_queue n') = []" "n_parse n' = None"
      "map mset css = calls_of ret a test (Some b # map Some qs) (mset ws)"
      "mset (subs n') = left_after ret a test (Some b # map Some qs) (mset ws)"
      "ns_user s' = run_events step (round_events a (Some b # map Some qs) css) (ns_user ?s3)"
      using less.IH [OF lim ls3 h3 n3(1,4) len refs3] unfolding e3 by blast
    have "message_rounds f (calm ret step) test a limit s = Inr (Some s')"
      by (subst message_rounds.simps) (use r(1) d2 False t3 ih(1) in simp)
    moreover have "same_msgs (ns_msgs s) (ns_msgs s') N"
    proof (rule same_msgs_trans)
      show "same_msgs (ns_msgs s) m2 N" using same_msgs_mono [OF m2(3)] r(8) by simp
      show "same_msgs m2 (ns_msgs s') N" using ih(9) by simp
    qed
    moreover have "same_header n n'" using n3(3) ih(6) by (simp add: same_header_def)
    moreover have "same_rest a s s'" using rest2 ih(7) by (simp add: same_rest_def)
    ultimately show ?thesis
      by (intro exI [of _ s'] exI [of _ n'] exI [of _ "cs # css"]) (use r ih q in \<open>simp\<close>)
  qed
qed

text \<open>One notice.\<close>

definition messages :: "notice \<Rightarrow> nat option list" where
  \<comment> \<open>the messages of the rounds: there is one round without a message when none is queued\<close>
  "messages n = (if pq_items (n_queue n) = [] then [None] else map Some (pq_items (n_queue n)))"

definition test_of :: "notice \<Rightarrow> nat" where
  "test_of n = (if n_trigger n = TRIGGER_ALL then 0 else 1)"

definition note_calls :: "(event \<Rightarrow> int) \<Rightarrow> nat \<Rightarrow> notice \<Rightarrow> invoke multiset list" where
  "note_calls ret a n =
     (if n_trigger n = TRIGGER_OFF then [] else calls_of ret a (test_of n) (messages n) (mset (subs n)))"

definition note_left :: "(event \<Rightarrow> int) \<Rightarrow> nat \<Rightarrow> notice \<Rightarrow> invoke multiset" where
  "note_left ret a n =
     (if n_trigger n = TRIGGER_OFF then mset (subs n) else left_after ret a (test_of n) (messages n) (mset (subs n)))"

definition events_ok :: "(event \<Rightarrow> int) \<Rightarrow> nat \<Rightarrow> notice \<Rightarrow> event list \<Rightarrow> bool" where
  "events_ok ret a n es \<longleftrightarrow>
     (\<exists>css. map mset css = note_calls ret a n \<and> es = (if n_trigger n = TRIGGER_OFF then [] else round_events a (messages n) css))"

definition outcome :: "(event \<Rightarrow> int) \<Rightarrow> nat \<Rightarrow> notice \<Rightarrow> notice \<Rightarrow> bool" where
  "outcome ret a n n' \<longleftrightarrow>
     n_name n' = n_name n \<and> n_tag n' = n_tag n \<and> n_use n' = n_use n \<and> n_trigger n' = TRIGGER_OFF \<and>
     mset (subs n') = note_left ret a n \<and>
     (if n_trigger n = TRIGGER_OFF then n' = n else pq_items (n_queue n') = [] \<and> n_parse n' = None)"

lemma serve_notice_ok:
  assumes "linked s" "single s" "ns_heap s a = Some n" "note_ok n" "n_count n < f" "refs_ok (ns_msgs s) (msgs_of n + N)"
  shows "\<exists>s' n' es. serve_notice f (calm ret step) a s = Inr (Some s') \<and> ns_heap s' a = Some n' \<and> linked s' \<and> single s' \<and>
    note_ok n' \<and> same_rest a s s' \<and> refs_ok (ns_msgs s') (msgs_of n' + N) \<and> same_msgs (ns_msgs s) (ns_msgs s') N \<and>
    outcome ret a n n' \<and> events_ok ret a n es \<and> ns_user s' = run_events step es (ns_user s)"
proof (cases "n_trigger n = TRIGGER_OFF")
  case True
  have "same_msgs (ns_msgs s) (ns_msgs s) N" using same_msgs_mono [OF same_msgs_refl [OF assms(6)]] by simp
  then show ?thesis
    using True assms
    by (intro exI [of _ s] exI [of _ n] exI [of _ "[]"])
      (simp add: serve_notice_def same_rest_def outcome_def events_ok_def note_calls_def note_left_def)
next
  case False
  let ?n0 = "n\<lparr>n_trigger := TRIGGER_OFF, n_changes := 0\<rparr>" and ?q = "n_queue n"
  let ?s0 = "note_put a ?n0 s"
  have "refs_ok (ns_msgs s) (opt_mset (n_parse n) + (mset (pq_items ?q) + N))"
    using assms(6) by (simp add: msgs_of_def ac_simps)
  from destroy_opt_ok [OF this] obtain m1 where m1: "destroy_opt (n_parse n) (ns_msgs s) = Inr m1"
    "refs_ok m1 (mset (pq_items ?q) + N)" "same_msgs (ns_msgs s) m1 (mset (pq_items ?q) + N)" by blast
  let ?n1 = "?n0\<lparr>n_parse := None\<rparr>"
  let ?s1 = "note_put a ?n1 (msgs_put m1 ?s0)"
  have d1: "drop_parse_of a ?s0 = Inr ?s1" using m1(1) by (simp add: drop_parse_of_def)
  have pq: "pq_inv ?q" using assms(4) by (simp add: note_ok_def)
  define m where "m = fst (list_deq (pq_items ?q))"
  define qs where "qs = snd (list_deq (pq_items ?q))"
  obtain q' where q': "remove_head_queue_katcl ?q = Inr (m, q')" "pq_inv q'" "pq_items q' = qs"
    using remove_head_pq [OF pq] by (auto simp: m_def qs_def)
  let ?n2 = "?n1\<lparr>n_queue := q', n_parse := m\<rparr>"
  let ?s2 = "note_put a ?n2 ?s1"
  have t2: "take_message a ?s1 = Inr ?s2" using q'(1) by (simp add: take_message_def)
  have msgs: "messages n = m # map Some qs" by (simp add: messages_def m_def qs_def list_deq_def split: list.splits)
  have mm: "mset (pq_items ?q) = opt_mset m + mset qs" by (simp add: m_def qs_def list_deq_def split: list.splits)
  have len: "length qs = q_count ?q - 1"
    unfolding length_pq_items [symmetric] by (simp add: qs_def list_deq_def del: length_pq_items split: list.splits)
  have n2: "note_ok ?n2" "subs ?n2 = subs n" "n_count ?n2 < f" using assms(4,5) q'(2) by (simp_all add: note_ok_def subs_def)
  have ls2: "linked ?s2" "single ?s2"
    using linked_same_clients [OF assms(1-3), of ?n2] n2(2) linked_cong [of ?s2 "note_put a ?n2 s"] by simp_all
  have refs2: "refs_ok (ns_msgs ?s2) (msgs_of ?n2 + N)" using m1(2) mm q'(3) by (simp add: msgs_of_def ac_simps)
  have e2: "n_parse ?n2 = m" "pq_items (n_queue ?n2) = qs" using q'(3) by simp_all
  have h2: "ns_heap ?s2 a = Some ?n2" by simp
  have len2: "length (pq_items (n_queue ?n2)) = q_count ?q - 1" using len unfolding e2 .
  obtain s' n' css where r: "message_rounds f (calm ret step) (test_of n) a (q_count ?q) ?s2 = Inr (Some s')" "ns_heap s' a = Some n'"
    "linked s'" "single s'" "note_ok n'" "same_header ?n2 n'" "same_rest a ?s2 s'" "refs_ok (ns_msgs s') N"
    "same_msgs (ns_msgs ?s2) (ns_msgs s') N" "pq_items (n_queue n') = []" "n_parse n' = None"
    "map mset css = calls_of ret a (test_of n) (m # map Some qs) (mset (subs n))"
    "mset (subs n') = left_after ret a (test_of n) (m # map Some qs) (mset (subs n))"
    "ns_user s' = run_events step (round_events a (m # map Some qs) css) (ns_user ?s2)"
    using message_rounds_ok [OF ls2 h2 n2(1,3) len2 refs2] unfolding e2 n2(2) by blast
  have "serve_notice f (calm ret step) a s = Inr (Some s')"
    unfolding serve_notice_def note_at_Some [OF assms(3)]
    using False d1 t2 r(1) by (simp add: test_of_def size_queue_katcl_def Let_def)
  moreover have "same_msgs (ns_msgs s) (ns_msgs s') N"
    using same_msgs_trans [OF same_msgs_mono [OF m1(3)]] r(9) by simp
  moreover have "same_rest a s s'" using r(7) by (simp add: same_rest_def)
  moreover have "outcome ret a n n'"
    using r(6,10,11,13) False by (simp add: outcome_def same_header_def note_left_def msgs)
  moreover have "events_ok ret a n (round_events a (messages n) css)"
    unfolding events_ok_def note_calls_def msgs using False by (intro exI [of _ css]) (simp only: r(12) if_False simp_thms)
  ultimately show ?thesis
    using r msgs by (intro exI [of _ s'] exI [of _ n'] exI [of _ "round_events a (messages n) css"]) (simp add: msgs_of_def)
qed

text \<open>Freeing a notice without subscribers.\<close>

lemma deallocate_ok:
  assumes "ns_heap s a = Some n" "note_ok n" "refs_ok (ns_msgs s) (msgs_of n + N)"
  shows "\<exists>m. deallocate_notice_katcp a s = Inr (msgs_put m (s\<lparr>ns_heap := (ns_heap s)(a := None)\<rparr>)) \<and> refs_ok m N \<and>
    same_msgs (ns_msgs s) m N"
proof -
  have pq: "pq_inv (n_queue n)" using assms(2) by (simp add: note_ok_def)
  have "refs_ok (ns_msgs s) (mset (pq_items (n_queue n)) + (opt_mset (n_parse n) + N))"
    using assms(3) by (simp add: msgs_of_def ac_simps)
  from clear_queue_ok [OF pq this] obtain m1 where m1: "destroy_queue_katcl (n_queue n) (ns_msgs s) = Inr m1"
    "refs_ok m1 (opt_mset (n_parse n) + N)" "same_msgs (ns_msgs s) m1 (opt_mset (n_parse n) + N)" by blast
  obtain m2 where m2: "destroy_opt (n_parse n) m1 = Inr m2" "refs_ok m2 N" "same_msgs m1 m2 N"
    using destroy_opt_ok [OF m1(2)] by blast
  have "same_msgs (ns_msgs s) m2 N" using same_msgs_trans [OF same_msgs_mono [OF m1(3)] m2(3)] by simp
  then show ?thesis using assms(1) m1(1) m2 by (auto simp: deallocate_notice_katcp_def)
qed

text \<open>The invariant, seen from one notice.\<close>

lemma inv_split:
  assumes "notices_inv M s" "ns_heap s a = Some n"
  shows "refs_ok (ns_msgs s) (msgs_of n + (others s a + M))" "note_ok n" "linked s" "single s" "a \<in> set (s_notices s)"
proof -
  show a: "a \<in> set (s_notices s)" using assms by (auto simp: notices_inv_def)
  show "refs_ok (ns_msgs s) (msgs_of n + (others s a + M))"
    using assms msgs_split [OF a assms(2)] by (simp add: notices_inv_def ac_simps)
qed (use assms in \<open>auto simp: notices_inv_def\<close>)

lemma inv_join:
  assumes "notices_inv M s" "ns_heap s a \<noteq> None" "same_rest a s s'" "ns_heap s' a = Some n'" "note_ok n'"
    "refs_ok (ns_msgs s') (msgs_of n' + (others s a + M))" "linked s'" "single s'"
  shows "notices_inv M s'"
proof -
  have l: "s_notices s' = s_notices s" "ns_fresh s' = ns_fresh s" "\<And>b. b \<noteq> a \<Longrightarrow> ns_heap s' b = ns_heap s b"
    using assms(3) by (simp_all add: same_rest_def)
  have a: "a \<in> set (s_notices s')" using assms(1,2) l(1) by (auto simp: notices_inv_def)
  have o: "others s' a = others s a" by (rule others_cong) (use l in auto)
  have "dom (ns_heap s') = dom (ns_heap s)"
  proof (rule set_eqI)
    fix b show "b \<in> dom (ns_heap s') \<longleftrightarrow> b \<in> dom (ns_heap s)" using l(3) [of b] assms(2,4) unfolding domIff by (cases "b = a") simp_all
  qed
  moreover have "b < ns_fresh s' \<and> note_ok n" if "ns_heap s' b = Some n" for b n
    using that assms(1,2,4,5) l by (cases "b = a") (auto simp: notices_inv_def)
  moreover have "refs_ok (ns_msgs s') ((\<Sum>b \<in> set (s_notices s'). msgs_at (ns_heap s') b) + M)"
    using assms(6) msgs_split [OF a assms(4)] o by (simp add: ac_simps)
  ultimately show ?thesis using assms(1,7,8) l(1) by (simp add: notices_inv_def)
qed

lemma inv_remove:
  assumes "notices_inv M s" "ns_heap s a = Some n" "n_count n = 0" "refs_ok m (others s a + M)" "distinct l"
    "set l = set (s_notices s) - {a}"
  shows "notices_inv M ((msgs_put m (s\<lparr>ns_heap := (ns_heap s)(a := None)\<rparr>))\<lparr>s_notices := l\<rparr>)" (is "notices_inv M ?s")
proof -
  have o: "others ?s a = others s a" by (rule others_cong) (use assms(6) in auto)
  have "refs_ok (ns_msgs ?s) ((\<Sum>b \<in> set (s_notices ?s). msgs_at (ns_heap ?s) b) + M)"
    using assms(4) o msgs_without [of a ?s] assms(6) by simp
  moreover have "linked ?s"
    using assms(1-3) by (auto simp: notices_inv_def linked_def subs_count_def links_of_def subs_def split: option.splits)
  moreover have "single ?s" using assms(1) by (simp add: notices_inv_def single_def)
  ultimately show ?thesis using assms(1,5,6) by (auto simp: notices_inv_def split: if_splits)
qed

text \<open>The whole list.\<close>

definition stays :: "(event \<Rightarrow> int) \<Rightarrow> 'u nstate \<Rightarrow> nat \<Rightarrow> bool" where
  "stays ret s a \<longleftrightarrow> (\<forall>n. ns_heap s a = Some n \<longrightarrow> note_left ret a n \<noteq> {#} \<or> n_use n > 0)"

lemma left_after_size: "size (left_after ret a test ms V) \<le> size V"
  by (induction ms arbitrary: V) (auto intro: order_trans [OF _ after_round_size])

lemma note_left_size: "note_ok n \<Longrightarrow> size (note_left ret a n) \<le> n_count n"
  using left_after_size [of ret a "test_of n" "messages n" "mset (subs n)"] length_subs [of n]
  by (auto simp: note_left_def)

lemma in_parts:
  assumes "distinct l" "i < length l"
  shows "l ! i \<notin> set (drop (Suc i) l)" "l ! i \<notin> set (take i l)"
    "set (take i l @ drop (Suc i) l) = set l - {l ! i}" "distinct (take i l @ drop (Suc i) l)"
proof -
  have l: "l = take i l @ l ! i # drop (Suc i) l" using id_take_nth_drop [OF assms(2)] .
  then have d: "distinct (take i l @ l ! i # drop (Suc i) l)" using assms(1) by simp
  then show "l ! i \<notin> set (drop (Suc i) l)" "l ! i \<notin> set (take i l)" "distinct (take i l @ drop (Suc i) l)" by simp_all
  have "set l = set (take i l @ l ! i # drop (Suc i) l)" using l by simp
  then show "set (take i l @ drop (Suc i) l) = set l - {l ! i}" using d by auto
qed

text \<open>One turn of the loop.\<close>

lemma run_step_ok:
  assumes inv: "notices_inv M s" and i: "i < length (s_notices s)" "s_notices s ! i = a" and n: "ns_heap s a = Some n" "n_count n < f"
  shows "\<exists>s2 es. (\<forall>g. run_loop (Suc g) f (calm ret step) i s = run_loop g f (calm ret step) (if stays ret s a then Suc i else i) s2) \<and>
    notices_inv M s2 \<and> same_msgs (ns_msgs s) (ns_msgs s2) M \<and>
    s_notices s2 = (if stays ret s a then s_notices s else take i (s_notices s) @ drop (Suc i) (s_notices s)) \<and>
    (\<forall>b. b \<noteq> a \<longrightarrow> ns_heap s2 b = ns_heap s b) \<and> ns_user s2 = run_events step es (ns_user s) \<and> events_ok ret a n es \<and>
    (if stays ret s a then \<exists>n'. ns_heap s2 a = Some n' \<and> outcome ret a n n' \<and> n_count n' < f else ns_heap s2 a = None)"
proof -
  note sp = inv_split [OF inv n(1)]
  obtain s1 n1 es where v: "serve_notice f (calm ret step) a s = Inr (Some s1)" "ns_heap s1 a = Some n1" "linked s1" "single s1"
    "note_ok n1" "same_rest a s s1" "refs_ok (ns_msgs s1) (msgs_of n1 + (others s a + M))"
    "same_msgs (ns_msgs s) (ns_msgs s1) (others s a + M)" "outcome ret a n n1" "events_ok ret a n es"
    "ns_user s1 = run_events step es (ns_user s)"
    using serve_notice_ok [OF sp(3,4) n(1) sp(2) n(2) sp(1), of ret step] by blast
  have inv1: "notices_inv M s1" using inv_join [OF inv _ v(6,2,5,7,3,4)] n by simp
  have l1: "s_notices s1 = s_notices s" and h1: "\<forall>b. b \<noteq> a \<longrightarrow> ns_heap s1 b = ns_heap s b" using v(6) by (simp_all add: same_rest_def)
  have cnt: "n_count n1 = size (note_left ret a n)" using v(9) length_subs [OF v(5)] by (metis outcome_def size_mset)
  then have "n_count n1 < f" using note_left_size [OF sp(2), of ret a] n(2) by linarith
  moreover have use: "n_use n1 = n_use n" using v(9) by (simp add: outcome_def)
  have keep: "stays ret s a \<longleftrightarrow> \<not> (n_count n1 = 0 \<and> n_use n1 \<le> 0)" using n cnt use by (auto simp: stays_def)
  have mM: "same_msgs (ns_msgs s) (ns_msgs s1) M" using same_msgs_mono [OF v(8)] by simp
  show ?thesis
  proof (cases "stays ret s a")
    case True
    then show ?thesis
      using i v(1,2,9-11) keep inv1 mM l1 h1 \<open>n_count n1 < f\<close>
      by (intro exI [of _ s1] exI [of _ es]) (auto simp: Let_def)
  next
    case False
    have n0: "n_count n1 = 0" "n_use n1 \<le> 0" using keep False by auto
    have o: "others s1 a = others s a" by (rule others_cong) (use l1 h1 in auto)
    obtain m where m: "deallocate_notice_katcp a s1 = Inr (msgs_put m (s1\<lparr>ns_heap := (ns_heap s1)(a := None)\<rparr>))"
      "refs_ok m (others s a + M)" "same_msgs (ns_msgs s1) m (others s a + M)"
      using deallocate_ok [OF v(2,5,7)] by blast
    let ?l2 = "take i (s_notices s) @ drop (Suc i) (s_notices s)"
    let ?s2 = "(msgs_put m (s1\<lparr>ns_heap := (ns_heap s1)(a := None)\<rparr>))\<lparr>s_notices := ?l2\<rparr>"
    have dist: "distinct (s_notices s)" using inv by (simp add: notices_inv_def)
    have "notices_inv M ?s2"
      using inv_remove [OF inv1 v(2) n0(1)] m(2) o in_parts(3,4) [OF dist i(1)] l1 i(2) by metis
    moreover have "same_msgs (ns_msgs s) (ns_msgs ?s2) M"
      using same_msgs_trans [OF mM same_msgs_mono [OF m(3)]] by simp
    ultimately show ?thesis
      using False i v(1,2,10,11) n0 m(1) l1 h1 by (intro exI [of _ ?s2] exI [of _ es]) (auto simp: Let_def)
  qed
qed

definition all_served :: "(event \<Rightarrow> int) \<Rightarrow> 'u nstate \<Rightarrow> 'u nstate \<Rightarrow> (nat \<Rightarrow> event list) \<Rightarrow> nat set \<Rightarrow> bool" where
  \<comment> \<open>each notice of the set had these events; what stays of it is as it should be\<close>
  "all_served ret s s' ev A \<longleftrightarrow>
     (\<forall>a n. a \<in> A \<and> ns_heap s a = Some n \<longrightarrow> events_ok ret a n (ev a) \<and>
        (stays ret s a \<longrightarrow> (\<exists>n'. ns_heap s' a = Some n' \<and> outcome ret a n n')))"

lemma run_loop_ok:
  assumes "notices_inv M s" "i \<le> length (s_notices s)" "length (s_notices s) - i < g"
    "\<forall>a n. ns_heap s a = Some n \<longrightarrow> n_count n < f"
  shows "\<exists>s' ev. run_loop g f (calm ret step) i s = Inr (Some s') \<and> notices_inv M s' \<and>
    same_msgs (ns_msgs s) (ns_msgs s') M \<and>
    s_notices s' = take i (s_notices s) @ filter (stays ret s) (drop i (s_notices s)) \<and>
    ns_user s' = run_events step (concat (map ev (drop i (s_notices s)))) (ns_user s) \<and>
    all_served ret s s' ev (set (drop i (s_notices s))) \<and>
    (\<forall>a. a \<notin> set (drop i (s_notices s)) \<longrightarrow> ns_heap s' a = ns_heap s a)"
  using assms
proof (induction g arbitrary: i s)
  case (Suc g)
  let ?l = "s_notices s"
  show ?case
  proof (cases "i < length ?l")
    case False
    then have "i = length ?l" using Suc.prems(2) by simp
    moreover have "same_msgs (ns_msgs s) (ns_msgs s) M"
      using Suc.prems(1) same_msgs_mono [OF same_msgs_refl] by (fastforce simp: notices_inv_def)
    ultimately show ?thesis using Suc.prems(1) False by (intro exI [of _ s] exI) (simp add: all_served_def)
  next
    case True
    define a where "a = ?l ! i"
    have dist: "distinct ?l" and dom: "set ?l = dom (ns_heap s)" using Suc.prems(1) by (simp_all add: notices_inv_def)
    have "a \<in> dom (ns_heap s)" using True dom nth_mem unfolding a_def by blast
    then obtain n where n: "ns_heap s a = Some n" by auto
    have drop: "drop i ?l = a # drop (Suc i) ?l" using True by (simp add: Cons_nth_drop_Suc a_def)
    have a_rest: "a \<notin> set (drop (Suc i) ?l)" using in_parts(1) [OF dist True] by (simp add: a_def)
    define j where "j = (if stays ret s a then Suc i else i)"
    obtain s2 es where st: "\<And>g. run_loop (Suc g) f (calm ret step) i s = run_loop g f (calm ret step) j s2" "notices_inv M s2"
      "same_msgs (ns_msgs s) (ns_msgs s2) M"
      "s_notices s2 = (if stays ret s a then ?l else take i ?l @ drop (Suc i) ?l)"
      "\<And>b. b \<noteq> a \<Longrightarrow> ns_heap s2 b = ns_heap s b" "ns_user s2 = run_events step es (ns_user s)" "events_ok ret a n es"
      "if stays ret s a then \<exists>n'. ns_heap s2 a = Some n' \<and> outcome ret a n n' \<and> n_count n' < f else ns_heap s2 a = None"
      using run_step_ok [OF Suc.prems(1) True a_def [symmetric] n, of f ret step] Suc.prems(4) n unfolding j_def by blast
    have parts: "take j (s_notices s2) = take i ?l @ (if stays ret s a then [a] else [])" "drop j (s_notices s2) = drop (Suc i) ?l"
      using st(4) True by (simp_all add: j_def take_Suc_conv_app_nth a_def)
    have lens: "j \<le> length (s_notices s2)" "length (s_notices s2) - j < g" using st(4) True Suc.prems(3) by (auto simp: j_def)
    have cnts: "\<forall>b m. ns_heap s2 b = Some m \<longrightarrow> n_count m < f"
      using Suc.prems(4) st(5,8) by (metis option.distinct(1) option.inject)
    obtain s' ev where ih: "run_loop g f (calm ret step) j s2 = Inr (Some s')" "notices_inv M s'"
      "same_msgs (ns_msgs s2) (ns_msgs s') M" "s_notices s' = take j (s_notices s2) @ filter (stays ret s2) (drop (Suc i) ?l)"
      "ns_user s' = run_events step (concat (map ev (drop (Suc i) ?l))) (ns_user s2)"
      "all_served ret s2 s' ev (set (drop (Suc i) ?l))" "\<forall>b. b \<notin> set (drop (Suc i) ?l) \<longrightarrow> ns_heap s' b = ns_heap s2 b"
      using Suc.IH [OF st(2) lens cnts] unfolding parts(2) by blast
    have same: "stays ret s2 b = stays ret s b" if "b \<noteq> a" for b using st(5) [OF that] by (simp add: stays_def)
    have f2: "filter (stays ret s2) (drop (Suc i) ?l) = filter (stays ret s) (drop (Suc i) ?l)"
      by (intro filter_cong refl same) (use a_rest in auto)
    have m2: "map (ev(a := es)) (drop (Suc i) ?l) = map ev (drop (Suc i) ?l)" using a_rest by auto
    have "ns_heap s' a = ns_heap s2 a" using ih(7) a_rest by blast
    then have "all_served ret s s' (ev(a := es)) (set (drop i ?l))"
      using ih(6) st(5,7,8) n same a_rest unfolding drop all_served_def by (auto split: if_splits)
    moreover have "\<forall>b. b \<notin> set (drop i ?l) \<longrightarrow> ns_heap s' b = ns_heap s b"
      using ih(7) st(5) unfolding drop by auto
    moreover have "run_loop (Suc g) f (calm ret step) i s = Inr (Some s')" using st(1) ih(1) by (simp only:)
    moreover have "ns_user s' = run_events step (concat (map (ev(a := es)) (drop i ?l))) (ns_user s)"
      using ih(5) st(6) m2 unfolding drop by (simp del: map_eq_conv fun_upd_apply) simp
    moreover have "s_notices s' = take i ?l @ filter (stays ret s) (drop i ?l)"
      using ih(4) f2 parts(1) unfolding drop by simp
    ultimately show ?thesis using ih(2) same_msgs_trans [OF st(3) ih(3)] by blast
  qed
qed simp

end
