(* ===== verification/Notice_Life.thy ===== *)
theory Notice_Life
  imports Notice_Run
begin

text \<open>
  The life of notices and subscriptions: subscribing, leaving, waking, the final clean-up, and
  the properties of the component. Subscriptions and links agree while a client subscribes to
  a notice once; the properties also say what happens when it does so twice, and when the
  server shuts down while a notice is in use.
\<close>

section \<open>Subscribing and leaving\<close>

lemma untriggered_client [simp]: "v_client (untriggered v) = v_client v"
  by (simp add: untriggered_def)

lemma notice_compact_loop_ok:
  assumes "i \<le> cnt" "cnt \<le> length vs" "notice_compact_loop d i cnt vs = (check, cnt1, vs1)"
  shows "cnt1 \<le> length vs1 \<and> mset (map untriggered (take cnt1 vs1)) =
    mset (take i (map untriggered (take cnt vs))) +
    filter_mset (\<lambda>v. v_client v \<noteq> d) (mset (drop i (map untriggered (take cnt vs))))"
  using assms
proof (induction d i cnt vs arbitrary: check rule: notice_compact_loop.induct)
  case (1 d i cnt vs)
  let ?l = "map untriggered (take cnt vs)"
  show ?case
  proof (cases "i < cnt")
    case False
    then have "i = cnt" using 1(3) by simp
    then show ?thesis using 1(4,5) by (subst (asm) notice_compact_loop.simps) auto
  next
    case True
    have i: "i < length ?l" "?l ! i = untriggered (vs ! i)" using True 1(4) by simp_all
    have d: "drop i ?l = untriggered (vs ! i) # drop (Suc i) ?l" using i by (metis Cons_nth_drop_Suc)
    show ?thesis
    proof (cases "v_client (vs ! i) = d")
      case hit: True
      let ?vs = "if i < cnt - 1 then vs[i := (vs ! (cnt - 1))\<lparr>v_trigger := v_trigger (vs ! i)\<rparr>] else vs"
      obtain c where r: "notice_compact_loop d i (cnt - 1) ?vs = (c, cnt1, vs1)"
        using 1(5) True hit by (subst (asm) notice_compact_loop.simps) (auto split: prod.splits)
      have ne: "?l \<noteq> []" using i by auto
      have last: "last ?l = untriggered (vs ! (cnt - 1))" using True 1(4) ne by (simp add: last_conv_nth min_def)
      have l': "map untriggered (take (cnt - 1) ?vs) = butlast (?l[i := last ?l])"
        using True 1(4) unfolding last
        by (intro nth_equalityI) (auto simp: nth_butlast nth_list_update untriggered_def)
      have "i \<le> cnt - 1" "cnt - 1 \<le> length ?vs" using True 1(4) by auto
      note ih = 1(1) [OF True hit this r, unfolded l']
      have "filter_mset (\<lambda>v. v_client v \<noteq> d) (mset (drop i ?l)) =
          filter_mset (\<lambda>v. v_client v \<noteq> d) (mset (drop i (butlast (?l[i := last ?l]))))"
        unfolding swap_last(2) [OF i(1), symmetric] using hit i(2) by simp
      then show ?thesis using ih unfolding swap_last(1) [OF i(1)] by (simp only:)
    next
      case miss: False
      have "notice_compact_loop d (i + 1) cnt vs = (check, cnt1, vs1)"
        using 1(5) True miss by (subst (asm) notice_compact_loop.simps) simp
      moreover have "take (Suc i) ?l = take i ?l @ [untriggered (vs ! i)]" using i by (simp add: take_Suc_conv_app_nth)
      ultimately show ?thesis using 1(2) [OF True miss _ 1(4)] True miss d by simp
    qed
  qed
qed

lemma notice_compact_ok:
  assumes "note_ok n"
  shows "note_ok (snd (notice_compact_notice_katcp n d))"
    "mset (map untriggered (subs (snd (notice_compact_notice_katcp n d)))) =
       filter_mset (\<lambda>v. v_client v \<noteq> d) (mset (map untriggered (subs n)))"
    "n_queue (snd (notice_compact_notice_katcp n d)) = n_queue n" "n_parse (snd (notice_compact_notice_katcp n d)) = n_parse n"
proof -
  obtain check cnt1 vs1 where r: "notice_compact_loop d 0 (n_count n) (n_vector n) = (check, cnt1, vs1)"
    by (metis prod_cases3)
  have "cnt1 \<le> length vs1 \<and> mset (map untriggered (take cnt1 vs1)) = filter_mset (\<lambda>v. v_client v \<noteq> d) (mset (map untriggered (subs n)))"
    using notice_compact_loop_ok [OF _ _ r] assms by (simp add: note_ok_def subs_def)
  moreover have "snd (notice_compact_notice_katcp n d) =
      (if cnt1 = 0 then n\<lparr>n_count := 0, n_vector := [], n_base := n_base n + 1\<rparr> else n\<lparr>n_count := cnt1, n_vector := vs1\<rparr>)"
    using r by (simp add: notice_compact_notice_katcp_def)
  ultimately show "note_ok (snd (notice_compact_notice_katcp n d))"
    "mset (map untriggered (subs (snd (notice_compact_notice_katcp n d)))) =
       filter_mset (\<lambda>v. v_client v \<noteq> d) (mset (map untriggered (subs n)))"
    "n_queue (snd (notice_compact_notice_katcp n d)) = n_queue n" "n_parse (snd (notice_compact_notice_katcp n d)) = n_parse n"
    using assms by (cases "cnt1 = 0"; simp add: subs_def note_ok_def del: filter_mset_eq_mempty_iff)+
qed

lemma compact_clients:
  assumes "note_ok n"
  shows "mset (map v_client (subs (snd (notice_compact_notice_katcp n d)))) = filter_mset (\<lambda>e. e \<noteq> d) (mset (map v_client (subs n)))"
proof -
  have m: "mset (map v_client (subs k)) = image_mset v_client (mset (map untriggered (subs k)))" for k
    by (simp add: image_mset.compositionality comp_def)
  show ?thesis unfolding m notice_compact_ok(2) [OF assms] by (simp add: filter_mset_image_mset)
qed

lemma disown_loop_ok:
  assumes "distinct l" "\<forall>a \<in> set l. ns_heap s a \<noteq> None"
  shows "disown_loop d l s =
    Inr (s\<lparr>ns_heap := \<lambda>b. if b \<in> set l then map_option (\<lambda>n. snd (notice_compact_notice_katcp n d)) (ns_heap s b) else ns_heap s b\<rparr>)"
  using assms
proof (induction l arbitrary: s)
  case (Cons a l)
  obtain n where n: "ns_heap s a = Some n" using Cons.prems(2) by auto
  let ?s = "note_put a (snd (notice_compact_notice_katcp n d)) s"
  have "disown_loop d l ?s = Inr (?s\<lparr>ns_heap :=
      \<lambda>b. if b \<in> set l then map_option (\<lambda>n. snd (notice_compact_notice_katcp n d)) (ns_heap ?s b) else ns_heap ?s b\<rparr>)"
    using Cons.prems by (intro Cons.IH) auto
  moreover have "(\<lambda>b. if b \<in> set l then map_option (\<lambda>n. snd (notice_compact_notice_katcp n d)) (ns_heap ?s b) else ns_heap ?s b) =
      (\<lambda>b. if b \<in> set (a # l) then map_option (\<lambda>n. snd (notice_compact_notice_katcp n d)) (ns_heap s b) else ns_heap s b)"
    using Cons.prems(1) n by auto
  ultimately show ?case using n by (simp add: note_put_def)
qed simp

lemma single_links:
  assumes "notices_inv M s" "ns_clients s d = Some l"
  shows "distinct l" "\<And>a. a \<in> set l \<longleftrightarrow> (\<exists>n. ns_heap s a = Some n \<and> d \<in> v_client ` set (subs n))"
proof -
  have "linked s" using assms(1) by (simp add: notices_inv_def)
  then have "count (mset (links_of s d)) a = subs_count s a d" for a by (simp add: linked_def)
  then have c: "count (mset l) a = subs_count s a d" for a using assms(2) by (simp add: links_of_def)
  have "count (mset l) a \<le> 1" for a
    using assms(1) unfolding c by (auto simp: notices_inv_def single_def subs_count_def distinct_counts split: option.splits)
  then show "distinct l" by (simp add: distinct_counts)
  have "a \<in> set l \<longleftrightarrow> 0 < subs_count s a d" for a unfolding c [symmetric] by simp
  then show "\<And>a. a \<in> set l \<longleftrightarrow> (\<exists>n. ns_heap s a = Some n \<and> d \<in> v_client ` set (subs n))"
    by (auto simp: subs_count_def split: option.splits)
qed

lemma inv_change:
  assumes "notices_inv M s" "s_notices s' = s_notices s" "ns_fresh s' = ns_fresh s" "ns_msgs s' = ns_msgs s"
    "\<And>b. rel_option (\<lambda>n n'. note_ok n' \<and> msgs_of n' = msgs_of n) (ns_heap s b) (ns_heap s' b)" "linked s'" "single s'"
  shows "notices_inv M s'"
proof -
  have "msgs_at (ns_heap s') b = msgs_at (ns_heap s) b" for b
    using assms(5) [of b] by (auto simp: msgs_at_def elim: option.rel_cases)
  moreover have "dom (ns_heap s') = dom (ns_heap s)"
  proof (rule set_eqI)
    fix b show "b \<in> dom (ns_heap s') \<longleftrightarrow> b \<in> dom (ns_heap s)" unfolding domIff using assms(5) [of b] by (auto elim: option.rel_cases)
  qed
  moreover have "b < ns_fresh s' \<and> note_ok n'" if "ns_heap s' b = Some n'" for b n'
    using assms(1,3) assms(5) [of b] that by (auto simp: notices_inv_def option_rel_Some2)
  ultimately show ?thesis using assms(1,2,4,6,7) unfolding notices_inv_def by (elim conjE) simp
qed

lemma disown_ok:
  assumes inv: "notices_inv M s" and l: "ns_clients s d = Some l"
  shows "\<exists>s'. disown_notices_katcp d s = Inr s' \<and> notices_inv M s' \<and> ns_user s' = ns_user s \<and>
    (\<forall>a n'. ns_heap s' a = Some n' \<longrightarrow> d \<notin> v_client ` set (subs n'))"
proof -
  let ?c = "\<lambda>n. snd (notice_compact_notice_katcp n d)"
  let ?h = "\<lambda>b. if b \<in> set l then map_option ?c (ns_heap s b) else ns_heap s b"
  let ?s = "links_put d [] (s\<lparr>ns_heap := ?h\<rparr>)"
  note sl = single_links [OF inv l]
  have "disown_loop d (rev l) s = Inr (s\<lparr>ns_heap := ?h\<rparr>)"
    using disown_loop_ok [of "rev l" s d] sl by fastforce
  then have run: "disown_notices_katcp d s = Inr ?s" using l by (simp add: disown_notices_katcp_def links_at_def)
  have h: "ns_heap ?s b = (if b \<in> set l then map_option ?c (ns_heap s b) else ns_heap s b)" for b by simp
  have ok: "note_ok n" if "ns_heap s b = Some n" for b n using inv that by (simp add: notices_inv_def)
  have cnt: "subs_count ?s b e = (if e = d then 0 else subs_count s b e)" for b e
  proof (cases "ns_heap s b")
    case None
    then show ?thesis by (simp add: subs_count_def)
  next
    case (Some n)
    then show ?thesis
      using sl(2) [of b] compact_clients [OF ok [OF Some], of d]
      by (cases "b \<in> set l") (auto simp: subs_count_def count_eq_zero_iff)
  qed
  have links: "links_of ?s e = (if e = d then [] else links_of s e)" for e by (simp add: links_of_def)
  have old: "count (mset (links_of s e)) b = subs_count s b e" for e b using inv by (simp add: notices_inv_def linked_def)
  have linked: "linked ?s" unfolding linked_def links cnt using old by simp
  have "single ?s"
  proof (unfold single_def, intro allI impI)
    fix b n' assume b: "ns_heap ?s b = Some n'"
    have "count (mset (map v_client (subs n'))) e \<le> 1" for e
    proof -
      have "count (mset (map v_client (subs n'))) e = subs_count ?s b e" using b by (simp add: subs_count_def)
      also have "\<dots> \<le> subs_count s b e" unfolding cnt by simp
      also have "\<dots> \<le> 1"
        using inv by (auto simp: subs_count_def notices_inv_def single_def distinct_counts split: option.splits)
      finally show ?thesis .
    qed
    then show "distinct (map v_client (subs n'))" by (simp add: distinct_counts)
  qed
  moreover have "rel_option (\<lambda>n n'. note_ok n' \<and> msgs_of n' = msgs_of n) (ns_heap s b) (ns_heap ?s b)" for b
    using ok notice_compact_ok(1,3,4) [OF ok] by (cases "ns_heap s b") (auto simp: msgs_of_def)
  ultimately have "notices_inv M ?s" using inv_change [OF inv, of ?s] linked by simp
  moreover have "d \<notin> v_client ` set (subs n')" if "ns_heap ?s a = Some n'" for a n'
  proof -
    have "count (mset (map v_client (subs n'))) d = 0" using cnt [of a d] that by (simp add: subs_count_def)
    then show ?thesis by (simp add: count_eq_zero_iff)
  qed
  ultimately show ?thesis using run by auto
qed

lemma add_notice_ok:
  assumes inv: "notices_inv M s" and n: "ns_heap s a = Some n" and l: "ns_clients s d = Some l"
    and new: "d \<notin> v_client ` set (subs n)" "\<not> (\<exists>v \<in> set (subs n). v_call v = call \<and> v_data v = data)"
  shows "\<exists>s' n'. add_notice_katcp (True, True) d a call data s = Inr (0, s') \<and> notices_inv M s' \<and> ns_user s' = ns_user s \<and>
    ns_heap s' = (ns_heap s)(a \<mapsto> n') \<and> same_note n n' \<and>
    subs n' = subs n @ [\<lparr>v_client = d, v_call = call, v_data = data, v_trigger = 0\<rparr>]"
proof -
  let ?v = "\<lparr>v_client = d, v_call = call, v_data = data, v_trigger = 0\<rparr>"
  define n1 where "n1 = n\<lparr>n_vector := subs n @ [?v], n_base := n_base n + 1, n_count := n_count n + 1\<rparr>"
  let ?s = "links_put d (l @ [a]) (note_put a n1 s)"
  note sp = inv_split [OF inv n]
  have sub: "subs n1 = subs n @ [?v]" using sp(2) by (simp add: subs_def note_ok_def n1_def)
  have ok: "note_ok n1" "same_note n n1" "msgs_of n1 = msgs_of n"
    using sp(2) length_subs [OF sp(2)] by (auto simp: note_ok_def same_note_def msgs_of_def n1_def)
  have run: "add_notice_katcp (True, True) d a call data s = Inr (0, ?s)"
    using n l new(2) by (auto simp: add_notice_katcp_def links_at_def Let_def n1_def)
  have cnt: "subs_count ?s b e = subs_count s b e + (if b = a \<and> e = d then 1 else 0)" for b e
    using n by (auto simp: subs_count_def sub)
  have links: "count (mset (links_of ?s e)) b = count (mset (links_of s e)) b + (if b = a \<and> e = d then 1 else 0)" for b e
    using l by (auto simp: links_of_def)
  have "linked ?s" using sp(3) unfolding linked_def links cnt by simp
  moreover have "single ?s" using sp(4) n new(1) by (auto simp: single_def sub)
  moreover have "rel_option (\<lambda>n n'. note_ok n' \<and> msgs_of n' = msgs_of n) (ns_heap s b) (ns_heap ?s b)" for b
    using inv n ok(1,3) by (cases "ns_heap s b") (auto simp: notices_inv_def)
  ultimately have "notices_inv M ?s" using inv_change [OF inv, of ?s] by simp
  then show ?thesis using run sub ok(2) by (intro exI [of _ ?s] exI [of _ n1]) simp
qed

lemma set_parse_ok:
  assumes inv: "notices_inv (add_mset p M) s" and n: "ns_heap s a = Some n"
    and p: "st_heap (ns_msgs s) p = Some x" "p_state x = PARSE_DONE"
  shows "\<exists>s' n'. set_parse_notice_katcp True a (Some p) s = Inr (0, s') \<and> notices_inv (add_mset p M) s' \<and>
    ns_user s' = ns_user s \<and> ns_heap s' = (ns_heap s)(a \<mapsto> n') \<and> s_notices s' = s_notices s \<and>
    pq_items (n_queue n') = [p] \<and> subs n' = subs n \<and> n_count n' = n_count n \<and> n_trigger n' = n_trigger n \<and> n_use n' = n_use n \<and>
    n_parse n' = n_parse n"
proof -
  let ?N = "opt_mset (n_parse n) + (others s a + add_mset p M)"
  note sp = inv_split [OF inv n]
  have pq: "pq_inv (n_queue n)" using sp(2) by (simp add: note_ok_def)
  have "refs_ok (ns_msgs s) (mset (pq_items (n_queue n)) + ?N)" using sp(1) by (simp add: msgs_of_def ac_simps)
  from clear_queue_ok [OF pq this] obtain q m where c: "clear_queue_katcl (n_queue n) (ns_msgs s) = Inr (q, m)" "pq_inv q"
    "pq_items q = []" "refs_ok m ?N" "same_msgs (ns_msgs s) m ?N" by blast
  have pN: "p \<in># ?N" by simp
  obtain y where y: "st_heap m p = Some y" "p_state y = PARSE_DONE"
    using c(5) pN p by (fastforce simp: same_msgs_def)
  obtain q' m' where t: "add_tail_queue_katcl True q (Some p) m = Inr (0, q', m')" "pq_inv q'" "pq_items q' = pq_items q @ [p]"
    "refs_ok m' (add_mset p ?N)" "same_msgs m m' ?N"
    using add_tail_ok [OF c(2,4) pN y] by blast
  let ?n1 = "n\<lparr>n_queue := q, n_changes := n_changes n OR NOTICE_CHANGE_CLEAR\<rparr>"
  let ?n2 = "?n1\<lparr>n_queue := q', n_changes := n_changes ?n1 OR NOTICE_CHANGE_ADD\<rparr>"
  let ?s1 = "note_put a ?n1 (msgs_put m s)"
  let ?s2 = "note_put a ?n2 (msgs_put m' ?s1)"
  have run: "set_parse_notice_katcp True a (Some p) s = Inr (0, ?s2)"
    using n c(1) t(1) by (simp add: set_parse_notice_katcp_def queue_message_def Let_def)
  have s2: "subs ?n2 = subs n" by (simp add: subs_def)
  have ls: "linked ?s2" "single ?s2"
    using linked_same_clients [OF sp(3,4) n, of ?n2] s2 linked_cong [of ?s2 "note_put a ?n2 s"] by simp_all
  have "msgs_of ?n2 + (others s a + add_mset p M) = add_mset p ?N" using t(3) c(3) by (simp add: msgs_of_def)
  then have "refs_ok (ns_msgs ?s2) (msgs_of ?n2 + (others s a + add_mset p M))" using t(4) by simp
  moreover have "same_rest a s ?s2" by (simp add: same_rest_def)
  moreover have "note_ok ?n2" using sp(2) t(2) by (simp add: note_ok_def)
  moreover have "ns_heap s a \<noteq> None" "ns_heap ?s2 a = Some ?n2" using n by simp_all
  ultimately have "notices_inv (add_mset p M) ?s2" using inv_join [OF inv] ls by blast
  then show ?thesis
    using run s2 t(3) c(3) by (intro exI [of _ ?s2] exI [of _ ?n2]) simp
qed

section \<open>Properties\<close>

text \<open>C17. A run of the notices, with callbacks that leave the notices alone, always ends. Every
  notice that was triggered goes through one round for each of its messages (one without a
  message when there is none); in a round every subscriber that is woken and has not declined
  before is called exactly once with that message. A subscriber whose callback returns 0 or
  less is then gone, the others stay. The messages are released, the notices without
  subscribers and holders are freed, and notices that were not triggered do not change.\<close>

theorem run_notices_delivers:
  assumes "notices_inv M s" "\<forall>a n. ns_heap s a = Some n \<longrightarrow> n_count n < f" "length (s_notices s) < g"
  shows "\<exists>s' ev. run_notices_katcp g f (calm ret step) s = Inr (Some s') \<and> notices_inv M s' \<and>
    same_msgs (ns_msgs s) (ns_msgs s') M \<and> s_notices s' = filter (stays ret s) (s_notices s) \<and>
    all_served ret s s' ev (set (s_notices s)) \<and>
    ns_user s' = run_events step (concat (map ev (s_notices s))) (ns_user s)"
  using run_loop_ok [OF assms(1) _ _ assms(2), of 0 g ret step] assms(3) unfolding run_notices_katcp_def by auto

definition sample_subs :: "invoke list" where
  "sample_subs = [\<lparr>v_client = 5, v_call = 1, v_data = 0, v_trigger = 0\<rparr>, \<lparr>v_client = 6, v_call = 2, v_data = 0, v_trigger = 0\<rparr>]"

definition sample_notice :: "notice_trigger \<Rightarrow> notice" where
  "sample_notice t = (fresh_notice (Some ''sensor'') 0 pq_empty)\<lparr>n_vector := sample_subs, n_count := 2, n_trigger := t\<rparr>"

definition sample_notices :: "notice_trigger \<Rightarrow> nat nstate" where
  "sample_notices t = \<lparr>ns_heap = [0 \<mapsto> sample_notice t], ns_fresh = 1, s_notices = [0], ns_clients = [5 \<mapsto> [0], 6 \<mapsto> [0], 7 \<mapsto> []],
     ns_msgs = sample_store, s_busy = 0, ns_user = 0\<rparr>"

lemma sample_notice_simps:
  "subs (sample_notice t) = sample_subs" "n_count (sample_notice t) = 2" "n_trigger (sample_notice t) = t"
  "n_use (sample_notice t) = 0" "n_parse (sample_notice t) = None" "n_queue (sample_notice t) = pq_empty"
  "ns_heap (sample_notices t) a = (if a = 0 then Some (sample_notice t) else None)" "s_notices (sample_notices t) = [0]"
  "ns_user (sample_notices t) = 0" "ns_msgs (sample_notices t) = sample_store"
  by (simp_all add: sample_notice_def sample_subs_def fresh_notice_def subs_def sample_notices_def)

lemma sample_notices_inv: "notices_inv {#0, 0, 1#} (sample_notices t)"
proof -
  have "note_ok (sample_notice t)" using pq_empty(1) by (simp add: note_ok_def sample_notice_def sample_subs_def fresh_notice_def)
  moreover have "linked (sample_notices t)"
  proof -
    have "links_of (sample_notices t) d = (if d = 5 \<or> d = 6 then [0] else [])" for d
      by (auto simp: links_of_def sample_notices_def)
    moreover have "subs_count (sample_notices t) a d = (if a = 0 \<and> (d = 5 \<or> d = 6) then 1 else 0)" for a d
      by (simp add: subs_count_def sample_notice_simps) (simp add: sample_subs_def)
    ultimately show ?thesis by (simp add: linked_def)
  qed
  moreover have "single (sample_notices t)" by (auto simp: single_def sample_notice_simps) (simp add: sample_subs_def)
  moreover have "msgs_at (ns_heap (sample_notices t)) 0 = {#}"
    using pq_empty(2) by (simp add: msgs_at_def msgs_of_def sample_notice_simps)
  moreover have "ns_fresh (sample_notices t) = 1" by (simp add: sample_notices_def)
  ultimately show ?thesis
    using sample_store by (auto simp: notices_inv_def sample_notice_simps split: if_splits)
qed

theorem run_notices_delivers_witness:
  "\<exists>s'. run_notices_katcp 2 3 (calm (\<lambda>(c, d, a, x, m). if d = 5 then 1 else 0) (\<lambda>_ u. u + 1)) (sample_notices TRIGGER_ALL) =
      Inr (Some s') \<and> s_notices s' = [0] \<and>
      (\<exists>n'. ns_heap s' 0 = Some n' \<and> mset (subs n') = {#hd sample_subs#} \<and> n_trigger n' = TRIGGER_OFF)"
proof -
  let ?ret = "\<lambda>(c, d, a, x, m). if d = 5 then 1 else 0 :: int" and ?s = "sample_notices TRIGGER_ALL"
  let ?n = "sample_notice TRIGGER_ALL"
  have left: "note_left ?ret 0 ?n = {#hd sample_subs#}"
    using pq_empty(2)
    by (simp add: note_left_def sample_notice_simps messages_def test_of_def after_round_def called_def event_of_def)
      (simp add: sample_subs_def untriggered_def)
  have stays: "stays ?ret ?s 0" using left by (simp add: stays_def sample_notice_simps)
  have "\<forall>a n. ns_heap ?s a = Some n \<longrightarrow> n_count n < 3" "length (s_notices ?s) < 2"
    by (auto simp: sample_notice_simps split: if_splits)
  from run_notices_delivers [OF sample_notices_inv this, of ?ret "\<lambda>_ u. u + 1"]
  obtain s' ev where r: "run_notices_katcp 2 3 (calm ?ret (\<lambda>_ u. u + 1)) ?s = Inr (Some s')"
    "s_notices s' = filter (stays ?ret ?s) (s_notices ?s)" "all_served ?ret ?s s' ev (set (s_notices ?s))" by blast
  have "ns_heap ?s 0 = Some ?n" "0 \<in> set (s_notices ?s)" by (simp_all add: sample_notice_simps)
  then obtain n' where "ns_heap s' 0 = Some n'" "outcome ?ret 0 ?n n'"
    using r(3) stays unfolding all_served_def by blast
  then show ?thesis using r(1,2) stays left by (auto simp: outcome_def sample_notice_simps)
qed

text \<open>C18. Waking a notice with a message reaches everybody: after \<open>wake_notice_katcp\<close> the next
  run of the notices calls each subscriber of the notice exactly once, with that message and
  nothing else, whatever messages were queued before. The other notices of the server make the
  calls they would have made without it, each by its own trigger, and one that is not triggered
  calls nobody; the calls come in the order of the list of notices. Those subscribers of the
  notice who return more than 0 remain subscribed, and all references to messages that it took
  are given back. The allocation for the queue is granted, and the callbacks are \<open>calm\<close>: they
  return a code and change their own state, and call no function of the notices.\<close>

theorem wake_reaches_everyone:
  assumes inv: "notices_inv (add_mset p M) s" and n: "ns_heap s a = Some n"
    and p: "st_heap (ns_msgs s) p = Some x" "p_state x = PARSE_DONE"
    and fuel: "\<forall>b k. ns_heap s b = Some k \<longrightarrow> n_count k < f" "length (s_notices s) < g"
  shows "\<exists>s1 s2 vs ev. wake_notice_katcp True a (Some p) s = Inr s1 \<and>
    run_notices_katcp g f (calm ret step) s1 = Inr (Some s2) \<and> notices_inv (add_mset p M) s2 \<and>
    mset vs = mset (subs n) \<and> ev a = map (event_of a (Some p)) vs \<and>
    (\<forall>b k. b \<noteq> a \<longrightarrow> ns_heap s b = Some k \<longrightarrow> events_ok ret b k (ev b) \<and> (n_trigger k = TRIGGER_OFF \<longrightarrow> ev b = [])) \<and>
    ns_user s2 = run_events step (concat (map ev (s_notices s))) (ns_user s) \<and>
    (case ns_heap s2 a of
       None \<Rightarrow> n_use n \<le> 0 \<and> (\<forall>v \<in> set (subs n). ret (event_of a (Some p) v) \<le> 0)
     | Some n' \<Rightarrow> mset (subs n') = image_mset untriggered (filter_mset (\<lambda>v. 0 < ret (event_of a (Some p) v)) (mset (subs n))))"
proof -
  obtain s0 n0 where s0: "set_parse_notice_katcp True a (Some p) s = Inr (0, s0)" "notices_inv (add_mset p M) s0"
    "ns_user s0 = ns_user s" "ns_heap s0 = (ns_heap s)(a \<mapsto> n0)" "s_notices s0 = s_notices s" "pq_items (n_queue n0) = [p]"
    "subs n0 = subs n" "n_count n0 = n_count n" "n_use n0 = n_use n"
    using set_parse_ok [OF inv n p] by blast
  let ?n1 = "n0\<lparr>n_trigger := TRIGGER_ALL\<rparr>"
  define s1 where "s1 = note_put a ?n1 s0"
  have h0: "ns_heap s0 a = Some n0" by (simp add: s0(4))
  note sp = inv_split [OF s0(2) h0]
  have wake: "wake_notice_katcp True a (Some p) s = Inr s1"
    using s0(1) h0 by (simp add: wake_notice_katcp_def configure_notice_katcp_def s1_def)
  have n1: "subs ?n1 = subs n" "note_ok ?n1" "msgs_of ?n1 = msgs_of n0" using s0(7) sp(2) by (simp_all add: subs_def note_ok_def msgs_of_def)
  have inv1: "notices_inv (add_mset p M) s1"
  proof -
    have "linked s1" "single s1" using linked_same_clients [OF sp(3,4) h0, of ?n1] n1(1) s0(7) by (simp_all add: s1_def)
    moreover have "ns_heap s0 a \<noteq> None" "same_rest a s0 s1" "ns_heap s1 a = Some ?n1"
      using h0 by (simp_all add: s1_def same_rest_def)
    moreover have "refs_ok (ns_msgs s1) (msgs_of ?n1 + (others s0 a + add_mset p M))"
      using sp(1) unfolding n1(3) by (simp add: s1_def)
    ultimately show ?thesis using inv_join [OF s0(2)] n1(2) by blast
  qed
  have f1: "\<forall>b k. ns_heap s1 b = Some k \<longrightarrow> n_count k < f"
    using fuel(1) n s0(4,8) by (auto simp: s1_def)
  have l1: "s_notices s1 = s_notices s" by (simp add: s1_def s0(5))
  obtain s2 ev where r: "run_loop g f (calm ret step) 0 s1 = Inr (Some s2)" "notices_inv (add_mset p M) s2"
    "s_notices s2 = filter (stays ret s1) (s_notices s)" "all_served ret s1 s2 ev (set (s_notices s))"
    "ns_user s2 = run_events step (concat (map ev (s_notices s))) (ns_user s1)"
    using run_loop_ok [OF inv1 _ _ f1, of 0 g ret step] fuel(2) l1 by auto
  have dom: "set (s_notices s) = dom (ns_heap s)" using inv by (simp_all add: notices_inv_def)
  have a: "a \<in> set (s_notices s)" using dom n by auto
  have h1: "ns_heap s1 a = Some ?n1" by (simp add: s1_def)
  have msgs: "messages ?n1 = [Some p]" "test_of ?n1 = 0" by (simp_all add: messages_def s0(6) test_of_def)
  have left: "note_left ret a ?n1 = image_mset untriggered (filter_mset (\<lambda>v. 0 < ret (event_of a (Some p) v)) (mset (subs n)))"
    by (simp add: note_left_def msgs n1(1) after_round_def called_def)
  have "events_ok ret a ?n1 (ev a)" using r(4) a h1 unfolding all_served_def by blast
  moreover have "called 0 = (\<lambda>_. True)" by (simp add: called_def fun_eq_iff)
  ultimately obtain vs where vs: "mset vs = mset (subs n)" "ev a = map (event_of a (Some p)) vs"
    by (auto simp: events_ok_def note_calls_def msgs n1(1))
  have others: "events_ok ret b k (ev b) \<and> (n_trigger k = TRIGGER_OFF \<longrightarrow> ev b = [])"
    if "b \<noteq> a" "ns_heap s b = Some k" for b k
  proof -
    have "ns_heap s1 b = Some k" "b \<in> set (s_notices s)" using that dom by (auto simp: s1_def s0(4))
    then have "events_ok ret b k (ev b)" using r(4) unfolding all_served_def by blast
    then show ?thesis by (auto simp: events_ok_def)
  qed
  have user: "ns_user s2 = run_events step (concat (map ev (s_notices s))) (ns_user s)"
    using r(5) by (simp add: s1_def s0(3))
  have end_a: "case ns_heap s2 a of
       None \<Rightarrow> n_use n \<le> 0 \<and> (\<forall>v \<in> set (subs n). ret (event_of a (Some p) v) \<le> 0)
     | Some n' \<Rightarrow> mset (subs n') = image_mset untriggered (filter_mset (\<lambda>v. 0 < ret (event_of a (Some p) v)) (mset (subs n)))"
  proof (cases "stays ret s1 a")
    case True
    then obtain n' where "ns_heap s2 a = Some n'" "outcome ret a ?n1 n'" using r(4) a h1 unfolding all_served_def by blast
    then show ?thesis using left by (simp add: outcome_def)
  next
    case False
    then have "ns_heap s2 a = None" using r(2,3) by (auto simp: notices_inv_def)
    moreover have "n_use n \<le> 0" "note_left ret a ?n1 = {#}" using False h1 s0(9) by (auto simp: stays_def)
    ultimately show ?thesis using left by (auto simp: not_less)
  qed
  show ?thesis
    using wake r(1,2) vs user others end_a unfolding run_notices_katcp_def by blast
qed

lemma run_events_count: "run_events (\<lambda>_. Suc) es u = u + length es"
  by (induction es arbitrary: u) simp_all

theorem wake_reaches_everyone_witness:
  "\<exists>s1 s2 n'. wake_notice_katcp True 0 (Some 1) (sample_notices TRIGGER_OFF) = Inr s1 \<and>
     run_notices_katcp 2 3 (calm (\<lambda>e. 1) (\<lambda>e u. u + 1)) s1 = Inr (Some s2) \<and> ns_user s2 = 2 \<and>
     ns_heap s2 0 = Some n' \<and> mset (subs n') = mset sample_subs"
proof -
  let ?s = "sample_notices TRIGGER_OFF" and ?n = "sample_notice TRIGGER_OFF"
  have inv: "notices_inv (add_mset 1 {#0, 0#}) ?s" using sample_notices_inv by (simp add: add_mset_commute)
  have n: "ns_heap ?s 0 = Some ?n" by (simp add: sample_notice_simps)
  have p: "st_heap (ns_msgs ?s) 1 = Some (request_msg\<lparr>p_refs := 1\<rparr>)" "p_state (request_msg\<lparr>p_refs := 1\<rparr>) = PARSE_DONE"
    using request_msg(5) by (simp_all add: sample_notice_simps sample_store_def)
  have rest: "\<forall>b k. ns_heap ?s b = Some k \<longrightarrow> n_count k < 3"
    "length (s_notices ?s) < 2"
    by (auto simp: sample_notice_simps split: if_splits)
  obtain s1 s2 vs ev where r: "wake_notice_katcp True 0 (Some 1) ?s = Inr s1"
    "run_notices_katcp 2 3 (calm (\<lambda>e. 1) (\<lambda>e u. u + 1)) s1 = Inr (Some s2)" "mset vs = mset (subs ?n)"
    "ev 0 = map (event_of 0 (Some 1)) vs"
    "ns_user s2 = run_events (\<lambda>e u. u + 1) (concat (map ev (s_notices ?s))) (ns_user ?s)"
    "case ns_heap s2 0 of
       None \<Rightarrow> n_use ?n \<le> 0 \<and> (\<forall>v \<in> set (subs ?n). (1 :: int) \<le> 0)
     | Some n' \<Rightarrow> mset (subs n') = image_mset untriggered (filter_mset (\<lambda>v. (0 :: int) < 1) (mset (subs ?n)))"
    using wake_reaches_everyone [OF inv n p rest, of "\<lambda>e. 1" "\<lambda>e u. u + 1"] by blast
  have sub: "subs ?n = sample_subs" "set sample_subs \<noteq> {}" "image_mset untriggered (mset sample_subs) = mset sample_subs"
    by (simp_all add: sample_notice_simps) (simp_all add: sample_subs_def untriggered_def)
  have "length vs = 2" using arg_cong [OF r(3), of size] by (simp add: sub(1)) (simp add: sample_subs_def)
  then have u: "ns_user s2 = 2" using r(4,5) by (simp add: run_events_count sample_notice_simps)
  obtain n' where "ns_heap s2 0 = Some n'" "mset (subs n') = mset sample_subs"
    using r(6) sub by (cases "ns_heap s2 0") (auto simp: sub(1))
  then show ?thesis using r(1,2) u by blast
qed

text \<open>C20. Subscriptions and the links of the clients stay in step. A client that subscribes to a
  notice it does not subscribe to yet is added behind the other subscribers and linked to it;
  when a client leaves, it is removed from every notice. Both keep the invariant, by which the
  links of a client name exactly the notices it subscribes to.\<close>

theorem subscriptions_stay_linked:
  assumes "notices_inv M s" "ns_heap s a = Some n" "ns_clients s d = Some l"
  shows "(d \<notin> v_client ` set (subs n) \<and> \<not> (\<exists>v \<in> set (subs n). v_call v = call \<and> v_data v = data) \<longrightarrow>
      (\<exists>s' n'. add_notice_katcp (True, True) d a call data s = Inr (0, s') \<and> notices_inv M s' \<and>
        ns_heap s' = (ns_heap s)(a \<mapsto> n') \<and> same_note n n' \<and>
        subs n' = subs n @ [\<lparr>v_client = d, v_call = call, v_data = data, v_trigger = 0\<rparr>])) \<and>
    (\<exists>s'. disown_notices_katcp d s = Inr s' \<and> notices_inv M s' \<and>
      (\<forall>b n'. ns_heap s' b = Some n' \<longrightarrow> d \<notin> v_client ` set (subs n')))"
  using add_notice_ok [OF assms] disown_ok [OF assms(1,3)] by meson

theorem subscriptions_stay_linked_witness:
  "(\<exists>s'. add_notice_katcp (True, True) 7 0 3 9 (sample_notices TRIGGER_OFF) = Inr (0, s') \<and> notices_inv {#0, 0, 1#} s') \<and>
   (\<exists>s'. disown_notices_katcp 7 (sample_notices TRIGGER_OFF) = Inr s')"
proof -
  have "ns_heap (sample_notices TRIGGER_OFF) 0 = Some (sample_notice TRIGGER_OFF)"
    "ns_clients (sample_notices TRIGGER_OFF) 7 = Some []"
    by (simp add: sample_notice_simps, simp add: sample_notices_def)
  from subscriptions_stay_linked [OF sample_notices_inv this, of 3 9] show ?thesis
    by (auto simp: sample_notice_simps sample_subs_def)
qed

text \<open>C25. Three ways in which subscriptions go wrong. A second client that subscribes with the
  same callback and datum is told that it has succeeded but is not subscribed. When a client
  subscribes twice and the first callback declines, all its links to the notice are removed:
  leaving then does not end the other subscription, and when the client is gone, the next
  round follows its address. And when an entry is removed because its client leaves, the last
  entry takes its place with the trigger of the entry removed.\<close>

theorem subscription_oddities:
  assumes "ns_heap s a = Some n" "n_count n = 2" "n_vector n = [v, w]"
  shows "(v_call v = call \<and> v_data v = data \<longrightarrow> add_notice_katcp mem d a call data s = Inr (0, s)) \<and>
    (v_client v = d \<and> v_client w = d \<and> ns_clients s d = Some [a, a] \<longrightarrow>
      (\<exists>s1 s2 n'. end_subscription (n_base n) a 0 s = Inr s1 \<and> disown_notices_katcp d s1 = Inr s2 \<and>
        ns_heap s2 a = Some n' \<and> subs n' = [w] \<and>
        call_round (Suc f) (calm (\<lambda>_. 0) step) 0 a 0 (s2\<lparr>ns_clients := (ns_clients s2)(d := None)\<rparr>) = Inl UseAfterFree)) \<and>
    (v_client v = d \<and> v_client w \<noteq> d \<longrightarrow>
      subs (snd (notice_compact_notice_katcp n d)) = [w\<lparr>v_trigger := v_trigger v\<rparr>])"
proof (intro conjI impI)
  have sub: "subs n = [v, w]" using assms(2,3) by (simp add: subs_def)
  show "add_notice_katcp mem d a call data s = Inr (0, s)" if "v_call v = call \<and> v_data v = data"
    using assms(1) that sub by (simp add: add_notice_katcp_def)
  show "subs (snd (notice_compact_notice_katcp n d)) = [w\<lparr>v_trigger := v_trigger v\<rparr>]" if "v_client v = d \<and> v_client w \<noteq> d"
    using that assms(2,3)
    by (simp add: notice_compact_notice_katcp_def notice_compact_loop.simps subs_def numeral_2_eq_2)
  assume d: "v_client v = d \<and> v_client w = d \<and> ns_clients s d = Some [a, a]"
  let ?n = "drop_sub 0 n"
  have n': "n_vector ?n = [w, w]" "n_count ?n = 1" "n_base ?n = n_base n" "n_queue ?n = n_queue n" "n_parse ?n = n_parse n"
    using assms(2,3) by (simp_all add: drop_sub_def Let_def numeral_2_eq_2)
  let ?s1 = "note_put a ?n (links_put d [] s)"
  have e: "end_subscription (n_base n) a 0 s = Inr ?s1"
    using assms d
    by (simp add: end_subscription_def dispatch_compact_notice_katcp_def links_at_def dispatch_compact_loop.simps)
  let ?s2 = "links_put d [] ?s1"
  have dis: "disown_notices_katcp d ?s1 = Inr ?s2" by (simp add: disown_notices_katcp_def links_at_def)
  let ?s3 = "?s2\<lparr>ns_clients := (ns_clients ?s2)(d := None)\<rparr>"
  have "call_round (Suc f) (calm (\<lambda>_. 0) step) 0 a 0 ?s3 = Inl UseAfterFree"
    using n' d
    by (simp add: calm_def msg_of_def Let_def end_subscription_def dispatch_compact_notice_katcp_def links_at_def)
  then show "\<exists>s1 s2 n'. end_subscription (n_base n) a 0 s = Inr s1 \<and> disown_notices_katcp d s1 = Inr s2 \<and>
        ns_heap s2 a = Some n' \<and> subs n' = [w] \<and>
        call_round (Suc f) (calm (\<lambda>_. 0) step) 0 a 0 (s2\<lparr>ns_clients := (ns_clients s2)(d := None)\<rparr>) = Inl UseAfterFree"
    using e dis n' by (intro exI [of _ ?s1] exI [of _ ?s2] exI [of _ ?n]) (simp add: subs_def)
qed

theorem subscription_oddities_witness:
  "add_notice_katcp (True, True) 7 0 1 0 (sample_notices TRIGGER_OFF) = Inr (0, sample_notices TRIGGER_OFF)"
  using subscription_oddities [of "sample_notices TRIGGER_OFF" 0 "sample_notice TRIGGER_OFF" "hd sample_subs" "last sample_subs"
      1 0 "(True, True)" 7]
  by (simp add: sample_notice_simps) (simp add: sample_notice_def sample_subs_def)

text \<open>The final clean-up.\<close>

lemma listed_live: "notices_inv M s \<Longrightarrow> a \<in> set (s_notices s) \<Longrightarrow> \<exists>n. ns_heap s a = Some n"
  unfolding notices_inv_def by auto

definition in_use :: "notice \<Rightarrow> bool" where
  "in_use n \<longleftrightarrow> n_use n > 0 \<or> n_count n > 0"

lemma reap_used: "ns_heap s a = Some n \<Longrightarrow> in_use n \<Longrightarrow> reap_notice_katcp a s = Inr s"
  by (simp add: reap_notice_katcp_def in_use_def)

lemma reap_ok:
  assumes inv: "notices_inv M s" and n: "ns_heap s a = Some n" "\<not> in_use n"
  shows "\<exists>s'. reap_notice_katcp a s = Inr s' \<and> notices_inv M s' \<and> ns_heap s' = (ns_heap s)(a := None) \<and>
    s_notices s' = removeAll a (s_notices s)"
proof -
  note sp = inv_split [OF inv n(1)]
  obtain m where m: "deallocate_notice_katcp a s = Inr (msgs_put m (s\<lparr>ns_heap := (ns_heap s)(a := None)\<rparr>))"
    "refs_ok m (others s a + M)"
    using deallocate_ok [OF n(1) sp(2,1)] by blast
  let ?s = "(msgs_put m (s\<lparr>ns_heap := (ns_heap s)(a := None)\<rparr>))\<lparr>s_notices := removeAll a (s_notices s)\<rparr>"
  have "distinct (removeAll a (s_notices s))" "set (removeAll a (s_notices s)) = set (s_notices s) - {a}"
    using inv by (simp_all add: notices_inv_def distinct_removeAll)
  then have "notices_inv M ?s" using inv_remove [OF inv n(1) _ m(2)] n(2) by (simp add: in_use_def)
  moreover have "reap_notice_katcp a s = Inr ?s" using n m(1) sp(5) by (simp add: reap_notice_katcp_def in_use_def)
  ultimately show ?thesis by (intro exI [of _ ?s]) simp
qed

lemma destroy_hangs:
  assumes "notices_inv M s" "ns_heap s b = Some k" "in_use k"
  shows "destroy_notices_katcp f s = Inr None"
  using assms unfolding destroy_notices_katcp_def
proof (induction f arbitrary: s)
  case (Suc f)
  have "b \<in> set (s_notices s)" using inv_split(5) [OF Suc.prems(1,2)] .
  then obtain a l where l: "s_notices s = a # l" by (cases "s_notices s") auto
  then obtain n where n: "ns_heap s a = Some n" using listed_live [OF Suc.prems(1), of a] by auto
  show ?case
  proof (cases "in_use n")
    case True
    then show ?thesis using Suc.IH [OF Suc.prems] l reap_used [OF n True] by simp
  next
    case False
    obtain s' where s': "reap_notice_katcp a s = Inr s'" "notices_inv M s'" "ns_heap s' = (ns_heap s)(a := None)"
      using reap_ok [OF Suc.prems(1) n False] by blast
    have "b \<noteq> a" using n Suc.prems(2,3) False by auto
    then have "ns_heap s' b = Some k" using s'(3) Suc.prems(2) by simp
    from Suc.IH [OF s'(2) this Suc.prems(3)] show ?thesis using l s'(1) by simp
  qed
qed simp

lemma destroy_ends:
  assumes "notices_inv M s" "\<forall>b k. ns_heap s b = Some k \<longrightarrow> \<not> in_use k" "length (s_notices s) < f"
  shows "\<exists>s'. destroy_notices_katcp f s = Inr (Some s') \<and> notices_inv M s' \<and> s_notices s' = []"
  using assms unfolding destroy_notices_katcp_def
proof (induction f arbitrary: s)
  case (Suc f)
  show ?case
  proof (cases "s_notices s")
    case (Cons a l)
    then obtain n where n: "ns_heap s a = Some n" using listed_live [OF Suc.prems(1), of a] by auto
    have nu: "\<not> in_use n" using Suc.prems(2) n by blast
    obtain s' where s': "reap_notice_katcp a s = Inr s'" "notices_inv M s'" "ns_heap s' = (ns_heap s)(a := None)"
      "s_notices s' = removeAll a (s_notices s)"
      using reap_ok [OF Suc.prems(1) n nu] by blast
    have "a \<notin> set l" using Suc.prems(1) Cons by (simp add: notices_inv_def)
    then have "s_notices s' = l" using s'(4) Cons by (simp add: removeAll_id)
    then have "length (s_notices s') < f" using Suc.prems(3) Cons by simp
    moreover have "\<forall>b k. ns_heap s' b = Some k \<longrightarrow> \<not> in_use k" using Suc.prems(2) s'(3) by (auto split: if_splits)
    ultimately show ?thesis using Suc.IH [OF s'(2)] Cons s'(1) by simp
  qed (use Suc.prems(1) in simp)
qed simp

text \<open>C19. The clean-up of the notices at shutdown ends exactly when no notice is in use: then
  one round for each notice suffices, every notice is freed and every message they held is
  released. While some notice has a subscriber or a holder, the loop asks for it to be freed
  for ever, as the request is refused.\<close>

theorem destroy_notices_ends_iff_unused:
  assumes "notices_inv M s"
  shows "if \<exists>a n. ns_heap s a = Some n \<and> in_use n then \<forall>f. destroy_notices_katcp f s = Inr None
     else \<exists>s'. destroy_notices_katcp (length (s_notices s) + 1) s = Inr (Some s') \<and> s_notices s' = [] \<and>
       ns_heap s' = Map.empty \<and> refs_ok (ns_msgs s') M"
proof (cases "\<exists>a n. ns_heap s a = Some n \<and> in_use n")
  case True
  then show ?thesis using destroy_hangs [OF assms] by auto
next
  case False
  obtain s' where s': "destroy_notices_katcp (length (s_notices s) + 1) s = Inr (Some s')" "notices_inv M s'" "s_notices s' = []"
    using destroy_ends [OF assms, of "length (s_notices s) + 1"] False by auto
  have "dom (ns_heap s') = {}" using s'(2,3) unfolding notices_inv_def by auto
  moreover have "refs_ok (ns_msgs s') M" using s'(2,3) by (simp add: notices_inv_def)
  ultimately show ?thesis using s'(1,3) False by auto
qed

theorem destroy_notices_ends_iff_unused_witness:
  "destroy_notices_katcp 1000 (sample_notices TRIGGER_OFF) = Inr None"
proof -
  have "ns_heap (sample_notices TRIGGER_OFF) 0 = Some (sample_notice TRIGGER_OFF)" "in_use (sample_notice TRIGGER_OFF)"
    by (simp_all add: sample_notice_simps in_use_def)
  then show ?thesis using destroy_notices_ends_iff_unused [OF sample_notices_inv, of TRIGGER_OFF] by (auto split: if_splits)
qed

end
