(* ===== verification/Trap_Map.thy ===== *)
theory Trap_Map
  imports Notice_Life
begin

text \<open>
  The maps of traps (\<open>katcp/map.c\<close>): sorted arrays of names, each with a notice that is woken
  when its name is removed. The lemmas show that the binary search stays inside the array and
  finds what is there, that additions and removals keep the array in order, and what they do
  to the notices.
\<close>

section \<open>State\<close>

text \<open>\<open>m_traps\<close> is the memory behind the array, an entry a pointer; \<open>m_live\<close> tells whether the
  pointer to the array is still valid.\<close>

record trap =
  t_name :: string
  t_notice :: "nat option"

record tmap =
  m_traps :: "trap option list"
  m_size :: nat
  m_live :: bool

definition trap_at :: "nat \<Rightarrow> tmap \<Rightarrow> trap res" where
  "trap_at i km =
     (if \<not> m_live km then Inl UseAfterFree
      else if i \<ge> length (m_traps km) then Inl OutOfBounds
      else case m_traps km ! i of None \<Rightarrow> Inl NullDeref | Some kt \<Rightarrow> Inr kt)"

definition create_map_katcp :: "bool \<Rightarrow> tmap option" where
  "create_map_katcp ok = (if ok then Some \<lparr>m_traps = [], m_size = 0, m_live = True\<rparr> else None)"

definition create_trap_katcp :: "bool \<times> bool \<Rightarrow> string \<Rightarrow> trap option" where
  "create_trap_katcp mem name = (if fst mem \<and> snd mem then Some \<lparr>t_name = name, t_notice = None\<rparr> else None)"

section \<open>Operations\<close>

definition destroy_trap_katcp :: "bool \<Rightarrow> trap option \<Rightarrow> nat option \<Rightarrow> 'u nstate \<Rightarrow> 'u nstate res" where
  "destroy_trap_katcp ok kt p s =
     (case kt of
        None \<Rightarrow> Inr s
      | Some t \<Rightarrow>
          (case t_notice t of
             None \<Rightarrow> Inr s
           | Some a \<Rightarrow>
               bind_res (if p \<noteq> None then add_parse_notice_katcp ok a p s else Inr (0, s)) (\<lambda>(_, s1).
               bind_res (trigger_notice_katcp a s1) (\<lambda>(_, s2).
               release_notice_katcp a s2))))"

text \<open>The binary search between \<open>b\<close> and \<open>t\<close>: whether the name is there, and its place.\<close>

function locate_loop :: "string \<Rightarrow> tmap \<Rightarrow> nat \<Rightarrow> nat \<Rightarrow> (bool \<times> nat) res" where
  "locate_loop name km b t =
     (if b < t then
        let m = (b + t) div 2 in
        (case trap_at m km of
           Inl e \<Rightarrow> Inl e
         | Inr kt \<Rightarrow>
             let result = strcmp name (t_name kt) in
             if result = 0 then Inr (True, m)
             else if result > 0 then locate_loop name km (m + 1) t
             else locate_loop name km b m)
      else Inr (False, b))"
  by pat_completeness auto
termination by (relation "measure (\<lambda>(name, km, b, t). t - b)") auto

declare locate_loop.simps [simp del]

definition locate_map_katcp :: "tmap \<Rightarrow> string \<Rightarrow> bool \<Rightarrow> int res" where
  "locate_map_katcp km name wanted =
     bind_res (locate_loop name km 0 (m_size km)) (\<lambda>(hit, i). Inr (if hit = wanted then int i else -1))"

definition find_map_katcp :: "tmap \<Rightarrow> string \<Rightarrow> trap option res" where
  "find_map_katcp km name =
     bind_res (locate_map_katcp km name True) (\<lambda>i.
     if i < 0 then Inr None else bind_res (trap_at (nat i) km) (\<lambda>kt. Inr (Some kt)))"

function shift_down :: "nat \<Rightarrow> nat \<Rightarrow> 'a list \<Rightarrow> 'a list" where
  "shift_down i m ts = (if i < m then shift_down (i + 1) m (ts[i := ts ! (i + 1)]) else ts)"
  by pat_completeness auto
termination by (relation "measure (\<lambda>(i, m, ts). m - i)") auto

declare shift_down.simps [simp del]

definition remove_map_katcp ::
  "bool \<Rightarrow> tmap \<Rightarrow> string \<Rightarrow> nat option \<Rightarrow> 'u nstate \<Rightarrow> (int \<times> tmap \<times> 'u nstate) res" where
  "remove_map_katcp ok km name p s =
     bind_res (locate_map_katcp km name True) (\<lambda>i.
     if i < 0 then Inr (-1, km, s)
     else
       bind_res (destroy_trap_katcp ok (m_traps km ! nat i) p s) (\<lambda>s1.
       let m = m_size km - 1 in
       Inr (0, km\<lparr>m_traps := (shift_down (nat i) m (m_traps km))[m := None], m_size := m\<rparr>, s1)))"

fun shift_up :: "nat \<Rightarrow> nat \<Rightarrow> 'a list \<Rightarrow> 'a list" where
  "shift_up index 0 ts = ts"
| "shift_up index (Suc j) ts = (if Suc j > index then shift_up index j (ts[Suc j := ts ! j]) else ts)"

text \<open>The memory: the array, the trap and its name. When the array has moved and there is no
  memory for the trap, the map keeps the pointer to the old array.\<close>

definition add_map_katcp ::
  "bool \<times> bool \<times> bool \<Rightarrow> bool \<Rightarrow> tmap \<Rightarrow> string \<Rightarrow> nat option \<Rightarrow> 'u nstate \<Rightarrow> (int \<times> tmap \<times> 'u nstate) res" where
  "add_map_katcp mem moved km name n s =
     bind_res (locate_map_katcp km name False) (\<lambda>index.
     if index < 0 then Inr (1, km, s)
     else if \<not> fst mem then Inr (-1, km, s)
     else
       let tmp = take (m_size km + 1) (m_traps km) @ replicate (m_size km + 1 - length (m_traps km)) None in
       case create_trap_katcp (snd mem) name of
         None \<Rightarrow>
           Inr (-1, if m_traps km = [] then km else if moved then km\<lparr>m_live := False\<rparr> else km\<lparr>m_traps := tmp\<rparr>, s)
       | Some kt \<Rightarrow>
           bind_res (case n of None \<Rightarrow> Inr s | Some a \<Rightarrow> hold_notice_katcp a s) (\<lambda>s1.
           Inr (0, km\<lparr>m_live := True,
                      m_traps := (shift_up (nat index) (m_size km) tmp)[nat index := Some (kt\<lparr>t_notice := n\<rparr>)],
                      m_size := m_size km + 1\<rparr>, s1)))"

fun destroy_traps :: "bool \<Rightarrow> trap option list \<Rightarrow> nat option \<Rightarrow> 'u nstate \<Rightarrow> 'u nstate res" where
  "destroy_traps ok [] p s = Inr s"
| "destroy_traps ok (t # ts) p s = bind_res (destroy_trap_katcp ok t p s) (destroy_traps ok ts p)"

definition destroy_map_katcp :: "bool \<Rightarrow> tmap option \<Rightarrow> nat option \<Rightarrow> 'u nstate \<Rightarrow> (int \<times> 'u nstate) res" where
  "destroy_map_katcp ok km p s =
     (case km of
        None \<Rightarrow> Inr (-1, s)
      | Some m \<Rightarrow>
          if \<not> m_live m \<and> m_size m > 0 then Inl UseAfterFree
          else bind_res (destroy_traps ok (take (m_size m) (m_traps m)) p s) (\<lambda>s1. Inr (0, s1)))"

section \<open>The array holds a sorted list\<close>

definition holds :: "tmap \<Rightarrow> trap list \<Rightarrow> bool" where
  "holds km ts \<longleftrightarrow> m_live km \<and> m_size km = length ts \<and> (\<exists>rest. m_traps km = map Some ts @ rest) \<and>
     sorted_wrt (<) (map t_name ts)"

lemma holds_at: "holds km ts \<Longrightarrow> i < length ts \<Longrightarrow> trap_at i km = Inr (ts ! i)"
  by (auto simp: holds_def trap_at_def nth_append)

text \<open>What is before the place is smaller, what is behind it is greater.\<close>

definition place :: "string \<Rightarrow> trap list \<Rightarrow> nat \<Rightarrow> bool" where
  "place name ts i \<longleftrightarrow> i \<le> length ts \<and> (\<forall>x \<in> set (take i ts). t_name x < name) \<and> (\<forall>x \<in> set (drop i ts). name < t_name x)"

lemma locate_loop_ok:
  assumes "holds km ts" "b \<le> t" "t \<le> length ts" "\<forall>j < b. t_name (ts ! j) < name"
    "\<forall>j. t \<le> j \<and> j < length ts \<longrightarrow> name < t_name (ts ! j)"
  shows "(\<exists>i < length ts. t_name (ts ! i) = name \<and> locate_loop name km b t = Inr (True, i)) \<or>
    (\<exists>i. place name ts i \<and> locate_loop name km b t = Inr (False, i))"
  using assms(2-5,1)
proof (induction name km b t rule: locate_loop.induct)
  case (1 name km b t)
  show ?case
  proof (cases "b < t")
    case False
    then have "b = t" using "1.prems"(1) by simp
    then have "place name ts b" using "1.prems" by (auto simp: place_def in_set_conv_nth)
    with False show ?thesis by (auto simp: locate_loop.simps [of name km b t])
  next
    case True
    define m where "m = (b + t) div 2"
    have m: "b \<le> m" "m < t" "m < length ts" using True "1.prems"(2) by (simp_all add: m_def)
    have at: "trap_at m km = Inr (ts ! m)" using holds_at [OF "1.prems"(5) m(3)] .
    have sorted: "sorted_wrt (<) (map t_name ts)" using "1.prems"(5) by (simp add: holds_def)
    have less: "t_name (ts ! i) < t_name (ts ! j)" if "i < j" "j < length ts" for i j
      using sorted that by (auto simp: sorted_wrt_iff_nth_less)
    consider "t_name (ts ! m) = name" | "t_name (ts ! m) < name" | "name < t_name (ts ! m)" by fastforce
    then show ?thesis
    proof cases
      case 1
      then have "locate_loop name km b t = Inr (True, m)"
        using True at by (simp add: locate_loop.simps [of name km b t] m_def [symmetric] Let_def strcmp_order)
      with 1 m(3) show ?thesis by blast
    next
      case 2
      then have step: "locate_loop name km b t = locate_loop name km (m + 1) t"
        using True at by (auto simp: locate_loop.simps [of name km b t] m_def [symmetric] Let_def strcmp_order)
      have "\<forall>j < m + 1. t_name (ts ! j) < name" using 2 less [of _ m] m(3) by (metis less_trans less_Suc_eq Suc_eq_plus1)
      then show ?thesis unfolding step
        using "1.IH"(1) [OF True m_def at refl] 2 m "1.prems" by (auto simp: strcmp_order)
    next
      case 3
      then have step: "locate_loop name km b t = locate_loop name km b m"
        using True at by (auto simp: locate_loop.simps [of name km b t] m_def [symmetric] Let_def strcmp_order)
      have "\<forall>j. m \<le> j \<and> j < length ts \<longrightarrow> name < t_name (ts ! j)" using 3 less [of m] by (metis less_trans le_neq_implies_less)
      then show ?thesis unfolding step
        using "1.IH"(2) [OF True m_def at refl] 3 m "1.prems" by (auto simp: strcmp_order)
    qed
  qed
qed

lemma length_shift_down [simp]: "length (shift_down i m ts) = length ts"
proof (induction i m ts rule: shift_down.induct)
  case (1 i m ts)
  then show ?case by (subst shift_down.simps) simp
qed

lemma nth_shift_down:
  "m < length ts \<Longrightarrow> j < length ts \<Longrightarrow> shift_down i m ts ! j = (if i \<le> j \<and> j < m then ts ! (j + 1) else ts ! j)"
proof (induction i m ts rule: shift_down.induct)
  case (1 i m ts)
  show ?case
  proof (cases "i < m")
    case True
    then have "shift_down i m ts ! j = shift_down (i + 1) m (ts[i := ts ! (i + 1)]) ! j"
      by (subst shift_down.simps) simp
    also have "\<dots> = (if i \<le> j \<and> j < m then ts ! (j + 1) else ts ! j)"
      using "1.IH" [OF True] "1.prems" True by (auto simp: nth_list_update)
    finally show ?thesis .
  next
    case False
    then have "shift_down i m ts = ts" by (subst shift_down.simps) simp
    moreover have "\<not> (i \<le> j \<and> j < m)" using False by linarith
    ultimately show ?thesis by (simp only: if_False)
  qed
qed

lemma shift_down_list:
  assumes "i < length xs"
  shows "(shift_down i (length xs - 1) (xs @ rest))[length xs - 1 := y] = (take i xs @ drop (i + 1) xs) @ y # rest"
  using assms by (intro nth_equalityI) (auto simp: nth_shift_down nth_list_update nth_append nth_Cons' min_def)

lemma length_shift_up [simp]: "length (shift_up index n ts) = length ts"
  by (induction index n ts rule: shift_up.induct) simp_all

lemma nth_shift_up:
  "n < length ts \<Longrightarrow> j < length ts \<Longrightarrow> shift_up index n ts ! j = (if index < j \<and> j \<le> n then ts ! (j - 1) else ts ! j)"
  by (induction index n ts rule: shift_up.induct) (auto simp: nth_list_update less_Suc_eq)

lemma shift_up_list:
  assumes "i \<le> length xs"
  shows "(shift_up i (length xs) (xs @ y # rest))[i := z] = take i xs @ z # drop i xs @ rest"
  using assms by (intro nth_equalityI) (auto simp: nth_shift_up nth_list_update nth_append nth_Cons' min_def)

section \<open>What the operations do\<close>

definition names :: "trap list \<Rightarrow> string set" where
  "names ts = t_name ` set ts"

lemma locate_map_ok:
  assumes "holds km ts"
  shows "if name \<in> names ts
    then \<exists>i < length ts. t_name (ts ! i) = name \<and> locate_map_katcp km name True = Inr (int i) \<and>
      locate_map_katcp km name False = Inr (-1)
    else \<exists>i. place name ts i \<and> locate_map_katcp km name True = Inr (-1) \<and> locate_map_katcp km name False = Inr (int i)"
proof -
  have absent: "name \<notin> names ts" if "place name ts i" for i
  proof -
    have "set ts = set (take i ts) \<union> set (drop i ts)" by (metis append_take_drop_id set_append)
    with that show ?thesis by (force simp: place_def names_def)
  qed
  have "m_size km = length ts" using assms by (simp add: holds_def)
  moreover have "(\<exists>i < length ts. t_name (ts ! i) = name \<and> locate_loop name km 0 (length ts) = Inr (True, i)) \<or>
      (\<exists>i. place name ts i \<and> locate_loop name km 0 (length ts) = Inr (False, i))"
    by (rule locate_loop_ok [OF assms]) auto
  ultimately show ?thesis using absent by (auto simp: locate_map_katcp_def names_def)
qed

lemma find_map_ok:
  assumes "holds km ts"
  shows "find_map_katcp km name = Inr (map_of (map (\<lambda>t. (t_name t, t)) ts) name)"
proof (cases "name \<in> names ts")
  case False
  then have "map_of (map (\<lambda>t. (t_name t, t)) ts) name = None" by (auto simp: names_def map_of_eq_None_iff)
  with False locate_map_ok [OF assms, of name] show ?thesis by (auto simp: find_map_katcp_def)
next
  case True
  then obtain i where i: "i < length ts" "t_name (ts ! i) = name" "locate_map_katcp km name True = Inr (int i)"
    using locate_map_ok [OF assms, of name] by auto
  have "distinct (map t_name ts)" using assms by (simp add: holds_def strict_sorted_iff)
  then have "map_of (map (\<lambda>t. (t_name t, t)) ts) name = Some (ts ! i)"
    using i(1,2) by (intro map_of_is_SomeI) (force simp: comp_def)+
  with i holds_at [OF assms i(1)] show ?thesis by (simp add: find_map_katcp_def)
qed

lemma sorted_parts:
  assumes "sorted_wrt (<) (map f ts)" "i \<le> j"
  shows "sorted_wrt (<) (map f (take i ts))" "sorted_wrt (<) (map f (drop j ts))"
    "\<And>x y. x \<in> set (take i ts) \<Longrightarrow> y \<in> set (drop j ts) \<Longrightarrow> f x < f y"
proof -
  have "sorted_wrt (<) (map f (take n ts) @ map f (drop n ts))" for n
    using assms(1) by (simp flip: map_append)
  then have s: "sorted_wrt (<) (map f (take n ts)) \<and> sorted_wrt (<) (map f (drop n ts)) \<and>
      (\<forall>x \<in> set (take n ts). \<forall>y \<in> set (drop n ts). f x < f y)" for n
    by (simp add: sorted_wrt_append)
  show "sorted_wrt (<) (map f (take i ts))" "sorted_wrt (<) (map f (drop j ts))" using s by blast+
  show "f x < f y" if "x \<in> set (take i ts)" "y \<in> set (drop j ts)" for x y
    using s [of j] that set_take_subset_set_take [OF assms(2), of ts] by blast
qed

lemma holds_insert:
  assumes "holds km ts" "place name ts i"
  shows "sorted_wrt (<) (map t_name (take i ts @ \<lparr>t_name = name, t_notice = n\<rparr> # drop i ts))"
proof -
  have "sorted_wrt (<) (map t_name ts)" using assms(1) by (simp add: holds_def)
  from sorted_parts [OF this order_refl] show ?thesis
    using assms(2) by (auto simp: sorted_wrt_append place_def)
qed

lemma add_map_new:
  assumes "holds km ts" "name \<notin> names ts" "case n of None \<Rightarrow> s1 = s | Some a \<Rightarrow> hold_notice_katcp a s = Inr s1"
  shows "\<exists>km1 i. add_map_katcp (True, True, True) moved km name n s = Inr (0, km1, s1) \<and>
    holds km1 (take i ts @ \<lparr>t_name = name, t_notice = n\<rparr> # drop i ts)"
proof -
  obtain i where i: "place name ts i" "locate_map_katcp km name False = Inr (int i)"
    using locate_map_ok [OF assms(1), of name] assms(2) by auto
  obtain rest where km: "m_size km = length ts" "m_traps km = map Some ts @ rest" "m_live km"
    using assms(1) by (auto simp: holds_def)
  have le: "i \<le> length (map Some ts)" using i(1) by (simp add: place_def)
  define tmp where "tmp = take (m_size km + 1) (m_traps km) @ replicate (m_size km + 1 - length (m_traps km)) None"
  have "\<exists>y. tmp = map Some ts @ [y]"
    by (cases rest) (simp_all add: tmp_def km)
  then obtain y where y: "tmp = map Some ts @ [y]" by blast
  define km1 where "km1 = km\<lparr>m_live := True,
    m_traps := (shift_up i (m_size km) tmp)[i := Some \<lparr>t_name = name, t_notice = n\<rparr>], m_size := m_size km + 1\<rparr>"
  have "m_traps km1 = map Some (take i ts @ \<lparr>t_name = name, t_notice = n\<rparr> # drop i ts)"
    using shift_up_list [OF le, of y "[]" "Some \<lparr>t_name = name, t_notice = n\<rparr>"]
    by (simp add: km1_def y km(1) take_map drop_map)
  then have "holds km1 (take i ts @ \<lparr>t_name = name, t_notice = n\<rparr> # drop i ts)"
    using holds_insert [OF assms(1) i(1), of n] le by (simp add: holds_def km1_def km(1))
  moreover have "add_map_katcp (True, True, True) moved km name n s = Inr (0, km1, s1)"
    using i(2) assms(3)
    by (auto simp: add_map_katcp_def create_trap_katcp_def Let_def tmp_def km1_def split: option.splits)
  ultimately show ?thesis by blast
qed

lemma add_map_old:
  assumes "holds km ts" "name \<in> names ts"
  shows "add_map_katcp mem moved km name n s = Inr (1, km, s)"
  using locate_map_ok [OF assms(1), of name] assms(2) by (auto simp: add_map_katcp_def)

lemma remove_map_old:
  assumes "holds km ts" "i < length ts" "t_name (ts ! i) = name" "destroy_trap_katcp ok (Some (ts ! i)) p s = Inr s1"
  shows "\<exists>km1. remove_map_katcp ok km name p s = Inr (0, km1, s1) \<and> holds km1 (take i ts @ drop (i + 1) ts)"
proof -
  have sorted: "sorted_wrt (<) (map t_name ts)" using assms(1) by (simp add: holds_def)
  obtain j where j: "j < length ts" "t_name (ts ! j) = name" "locate_map_katcp km name True = Inr (int j)"
    using locate_map_ok [OF assms(1), of name] assms(2,3) by (force simp: names_def)
  have "distinct (map t_name ts)" using sorted by (simp add: strict_sorted_iff)
  then have eq: "j = i" using j(1,2) assms(2,3) by (auto simp: distinct_conv_nth)
  obtain rest where km: "m_size km = length ts" "m_traps km = map Some ts @ rest" "m_live km"
    using assms(1) by (auto simp: holds_def)
  let ?xs = "map Some ts"
  have "(shift_down i (length ts - 1) (m_traps km))[length ts - 1 := None] = (take i ?xs @ drop (i + 1) ?xs) @ None # rest"
    using shift_down_list [of i ?xs rest None] assms(2) km(2) by simp
  then have "holds (km\<lparr>m_traps := (shift_down i (m_size km - 1) (m_traps km))[m_size km - 1 := None], m_size := m_size km - 1\<rparr>)
      (take i ts @ drop (i + 1) ts)"
    using km assms(2) sorted_parts [OF sorted, of i "Suc i"]
    by (auto simp: holds_def take_map drop_map sorted_wrt_append)
  moreover have "m_traps km ! i = Some (ts ! i)" using km(2) assms(2) by (simp add: nth_append)
  ultimately show ?thesis using j(3) eq assms(4) by (auto simp: remove_map_katcp_def Let_def)
qed

lemma remove_map_new:
  assumes "holds km ts" "name \<notin> names ts"
  shows "remove_map_katcp ok km name p s = Inr (-1, km, s)"
  using locate_map_ok [OF assms(1), of name] assms(2) by (auto simp: remove_map_katcp_def)

section \<open>The map as a dictionary of names\<close>

text \<open>For names without a notice the state of the notices is not used.\<close>

definition trap_put :: "'u nstate \<Rightarrow> bool \<Rightarrow> string \<Rightarrow> unit \<Rightarrow> tmap \<Rightarrow> (bool \<times> tmap) res" where
  "trap_put s moved name u km =
     bind_res (add_map_katcp (True, True, True) moved km name None s) (\<lambda>(r, km1, s1). Inr (r = 0, km1))"

definition trap_rem :: "'u nstate \<Rightarrow> string \<Rightarrow> tmap \<Rightarrow> (bool \<times> tmap) res" where
  "trap_rem s name km = bind_res (remove_map_katcp True km name None s) (\<lambda>(r, km1, s1). Inr (r = 0, km1))"

definition trap_look :: "string \<Rightarrow> tmap \<Rightarrow> unit option" where
  "trap_look name km = (case find_map_katcp km name of Inr (Some kt) \<Rightarrow> Some () | _ \<Rightarrow> None)"

definition live_traps :: "tmap \<Rightarrow> trap list" where
  "live_traps km = map the (take (m_size km) (m_traps km))"

definition trap_set :: "tmap \<Rightarrow> string \<rightharpoonup> unit" where
  "trap_set km = (\<lambda>name. if name \<in> names (live_traps km) then Some () else None)"

definition quiet :: "trap list \<Rightarrow> bool" where
  "quiet ts \<longleftrightarrow> (\<forall>t \<in> set ts. t_notice t = None)"

definition map_valid :: "tmap \<Rightarrow> bool" where
  "map_valid km \<longleftrightarrow> holds km (live_traps km) \<and> quiet (live_traps km)"

lemma live_holds: "holds km ts \<Longrightarrow> live_traps km = ts"
  by (auto simp: holds_def live_traps_def)

lemma names_split: "names (take i ts @ kt # drop i ts) = insert (t_name kt) (names ts)"
proof -
  have "set ts = set (take i ts) \<union> set (drop i ts)" by (metis append_take_drop_id set_append)
  then show ?thesis by (auto simp: names_def)
qed

lemma names_drop:
  assumes "holds km ts" "i < length ts"
  shows "names (take i ts @ drop (i + 1) ts) = names ts - {t_name (ts ! i)}"
proof -
  have "distinct (map t_name (take i ts @ ts ! i # drop (Suc i) ts))"
    using assms by (simp add: holds_def strict_sorted_iff Cons_nth_drop_Suc)
  moreover have "set ts = set (take i ts @ ts ! i # drop (Suc i) ts)"
    using assms(2) by (simp add: id_take_nth_drop [symmetric])
  ultimately show ?thesis by (auto simp: names_def) (metis imageI)+
qed

lemma map_of_names: "map_of (map (\<lambda>t. (t_name t, t)) ts) name = None \<longleftrightarrow> name \<notin> names ts"
  by (simp add: map_of_eq_None_iff names_def image_image)

lemma trap_set_names: "holds km ts \<Longrightarrow> trap_set km = (\<lambda>name. if name \<in> names ts then Some () else None)"
  by (simp add: trap_set_def live_holds)

interpretation tmd: dictionary "\<lparr>m_traps = [], m_size = 0, m_live = True\<rparr>" "trap_put s moved" "trap_rem s" trap_look trap_set map_valid
  for s :: "'u nstate" and moved
proof unfold_locales
  show "map_valid \<lparr>m_traps = [], m_size = 0, m_live = True\<rparr>" by (simp add: map_valid_def live_traps_def holds_def quiet_def)
  show "trap_set \<lparr>m_traps = [], m_size = 0, m_live = True\<rparr> = Map.empty" by (simp add: trap_set_def live_traps_def names_def)
next
  fix km :: tmap and name and u :: unit
  assume v: "map_valid km"
  then obtain ts where ts: "holds km ts" "quiet ts" by (auto simp: map_valid_def)
  have set_in: "trap_set km name \<noteq> None \<longleftrightarrow> name \<in> names ts" using trap_set_names [OF ts(1)] by simp
  have valid: "map_valid k" if "holds k us" "quiet us" for k us using that live_holds by (auto simp: map_valid_def)
  show "trap_look name km = trap_set km name"
    using find_map_ok [OF ts(1), of name] trap_set_names [OF ts(1)] map_of_names [of ts name]
    by (cases "map_of (map (\<lambda>t. (t_name t, t)) ts) name") (simp_all add: trap_look_def)
  show "trap_set km name \<noteq> None \<Longrightarrow> trap_put s moved name u km = Inr (False, km)"
    using add_map_old [OF ts(1), of name "(True, True, True)" moved None s] set_in by (simp add: trap_put_def)
  show "trap_set km name = None \<Longrightarrow> trap_rem s name km = Inr (False, km)"
    using remove_map_new [OF ts(1), of name True None s] set_in by (simp add: trap_rem_def)
  show "\<exists>k1. trap_put s moved name u km = Inr (True, k1) \<and> map_valid k1 \<and> trap_set k1 = (trap_set km)(name \<mapsto> u)"
    if "trap_set km name = None"
  proof -
    have "name \<notin> names ts" using that set_in by simp
    from add_map_new [OF ts(1) this, of s s None moved] obtain k1 i where
      k: "add_map_katcp (True, True, True) moved km name None s = Inr (0, k1, s)"
      "holds k1 (take i ts @ \<lparr>t_name = name, t_notice = None\<rparr> # drop i ts)" by auto
    have "quiet (take i ts @ \<lparr>t_name = name, t_notice = None\<rparr> # drop i ts)"
      using ts(2) by (auto simp: quiet_def dest: in_set_takeD in_set_dropD)
    then show ?thesis
      using k valid trap_set_names [OF k(2)] trap_set_names [OF ts(1)]
      by (auto simp: trap_put_def names_split)
  qed
  show "\<exists>k1. trap_rem s name km = Inr (True, k1) \<and> map_valid k1 \<and> trap_set k1 = (trap_set km)(name := None)"
    if "trap_set km name \<noteq> None"
  proof -
    have "name \<in> names ts" using that set_in by blast
    then obtain i where i: "i < length ts" "t_name (ts ! i) = name" by (auto simp: names_def in_set_conv_nth)
    have "destroy_trap_katcp True (Some (ts ! i)) None s = Inr s"
      using ts(2) i(1) by (simp add: destroy_trap_katcp_def quiet_def)
    from remove_map_old [OF ts(1) i this] obtain k1 where
      k: "remove_map_katcp True km name None s = Inr (0, k1, s)" "holds k1 (take i ts @ drop (i + 1) ts)" by blast
    have "quiet (take i ts @ drop (i + 1) ts)"
      using ts(2) by (auto simp: quiet_def dest: in_set_takeD in_set_dropD)
    then show ?thesis
      using k valid trap_set_names [OF k(2)] trap_set_names [OF ts(1)] names_drop [OF ts(1) i(1)] i(2)
      by (auto simp: trap_rem_def)
  qed
qed

section \<open>The notices of the traps\<close>

lemma queue_message_ok:
  assumes inv: "notices_inv (add_mset p M) s" and n: "ns_heap s a = Some n"
    and p: "st_heap (ns_msgs s) p = Some x" "p_state x = PARSE_DONE"
  shows "\<exists>s' n'. queue_message True a (Some p) s = Inr (0, s') \<and> notices_inv (add_mset p M) s' \<and>
    ns_heap s' = (ns_heap s)(a \<mapsto> n') \<and> s_notices s' = s_notices s \<and>
    pq_items (n_queue n') = pq_items (n_queue n) @ [p] \<and> subs n' = subs n \<and> n_use n' = n_use n"
proof -
  let ?N = "msgs_of n + (others s a + add_mset p M)"
  note sp = inv_split [OF inv n]
  have pq: "pq_inv (n_queue n)" using sp(2) by (simp add: note_ok_def)
  have pN: "p \<in># ?N" by simp
  obtain q' m' where t: "add_tail_queue_katcl True (n_queue n) (Some p) (ns_msgs s) = Inr (0, q', m')" "pq_inv q'"
    "pq_items q' = pq_items (n_queue n) @ [p]" "refs_ok m' (add_mset p ?N)"
    using add_tail_ok [OF pq sp(1) pN p] by blast
  let ?n2 = "n\<lparr>n_queue := q', n_changes := n_changes n OR NOTICE_CHANGE_ADD\<rparr>"
  let ?s2 = "note_put a ?n2 (msgs_put m' s)"
  have run: "queue_message True a (Some p) s = Inr (0, ?s2)"
    using n t(1) by (simp add: queue_message_def Let_def)
  have s2: "subs ?n2 = subs n" by (simp add: subs_def)
  have ls: "linked ?s2" "single ?s2"
    using linked_same_clients [OF sp(3,4) n, of ?n2] s2 linked_cong [of ?s2 "note_put a ?n2 s"] by simp_all
  have "msgs_of ?n2 + (others s a + add_mset p M) = add_mset p ?N" using t(3) by (simp add: msgs_of_def)
  then have "refs_ok (ns_msgs ?s2) (msgs_of ?n2 + (others s a + add_mset p M))" using t(4) by simp
  moreover have "same_rest a s ?s2" by (simp add: same_rest_def)
  moreover have "note_ok ?n2" using sp(2) t(2) by (simp add: note_ok_def)
  moreover have "ns_heap s a \<noteq> None" "ns_heap ?s2 a = Some ?n2" using n by simp_all
  ultimately have "notices_inv (add_mset p M) ?s2" using inv_join [OF inv] ls by blast
  then show ?thesis
    using run s2 t(3) by (intro exI [of _ ?s2] exI [of _ ?n2]) simp
qed

lemma inv_mark:
  assumes "notices_inv M s" "ns_heap s a = Some n" "subs n' = subs n" "note_ok n'" "msgs_of n' = msgs_of n"
  shows "notices_inv M (note_put a n' s)"
proof -
  note sp = inv_split [OF assms(1,2)]
  have "linked (note_put a n' s)" "single (note_put a n' s)"
    using linked_same_clients [OF sp(3,4) assms(2), of n'] assms(3) by simp_all
  moreover have "rel_option (\<lambda>n n'. note_ok n' \<and> msgs_of n' = msgs_of n) (ns_heap s b) (ns_heap (note_put a n' s) b)" for b
    using assms by (cases "ns_heap s b") (auto simp: notices_inv_def)
  ultimately show ?thesis by (intro inv_change [OF assms(1)]) simp_all
qed

section \<open>Properties\<close>

text \<open>C29. Whatever names are added, removed and looked up in a map of traps, it answers each
  call as a set of names does: the binary search finds exactly the names that are there and
  stays inside the array, and the array stays in order.\<close>

theorem map_answers_as_set:
  "\<exists>rs km. run_dict (trap_put s moved) (trap_rem s) trap_look \<lparr>m_traps = [], m_size = 0, m_live = True\<rparr> ops = Inr (rs, km) \<and>
     run_dict map_put map_rem map_look Map.empty ops = Inr (rs, trap_set km) \<and> holds km (live_traps km)"
  using tmd.run_from_empty [of s moved ops] by (auto simp: map_valid_def)

text \<open>C28. A trap that is added for a notice holds the notice and is found under its name; when
  it is removed with a message the notice gets the message behind those it has, is triggered
  for all its subscribers and is no longer held, the name is gone and the other names stay.\<close>

theorem trap_holds_and_wakes:
  assumes map: "holds km ts" "name \<notin> names ts"
    and inv: "notices_inv (add_mset p M) s" and n: "ns_heap s a = Some n" "n_use n \<ge> 0"
    and p: "st_heap (ns_msgs s) p = Some x" "p_state x = PARSE_DONE"
  shows "\<exists>km1 s1 km2 s2 n1 n2.
    add_map_katcp (True, True, True) moved km name (Some a) s = Inr (0, km1, s1) \<and>
    find_map_katcp km1 name = Inr (Some \<lparr>t_name = name, t_notice = Some a\<rparr>) \<and>
    notices_inv (add_mset p M) s1 \<and> ns_heap s1 = (ns_heap s)(a \<mapsto> n1) \<and> n1 = n\<lparr>n_use := n_use n + 1\<rparr> \<and>
    remove_map_katcp True km1 name (Some p) s1 = Inr (0, km2, s2) \<and> holds km2 ts \<and>
    find_map_katcp km2 name = Inr None \<and> notices_inv (add_mset p M) s2 \<and> ns_heap s2 = (ns_heap s)(a \<mapsto> n2) \<and>
    pq_items (n_queue n2) = pq_items (n_queue n) @ [p] \<and> subs n2 = subs n \<and> n_trigger n2 = TRIGGER_ALL \<and> n_use n2 = n_use n"
proof -
  let ?n1 = "n\<lparr>n_use := n_use n + 1\<rparr>" and ?t = "\<lparr>t_name = name, t_notice = Some a\<rparr>"
  define s1 where "s1 = note_put a ?n1 s"
  have hold: "hold_notice_katcp a s = Inr s1" using n(1) by (simp add: hold_notice_katcp_def s1_def)
  have n1: "subs ?n1 = subs n" "msgs_of ?n1 = msgs_of n" by (simp_all add: subs_def msgs_of_def)
  have ok1: "note_ok ?n1" using inv_split(2) [OF inv n(1)] by (simp add: note_ok_def)
  have inv1: "notices_inv (add_mset p M) s1" using inv_mark [OF inv n(1) n1(1) ok1 n1(2)] by (simp add: s1_def)
  obtain km1 i where km1: "add_map_katcp (True, True, True) moved km name (Some a) s = Inr (0, km1, s1)"
    "holds km1 (take i ts @ ?t # drop i ts)"
    using add_map_new [OF map, of s1 s "Some a" moved] hold by auto
  let ?us = "take i ts @ ?t # drop i ts" and ?i = "length (take i ts)"
  have pos: "?i < length ?us" "?us ! ?i = ?t" "take ?i ?us @ drop (?i + 1) ?us = ts"
    by (cases "i \<le> length ts"; simp add: nth_append min_def)+
  have "distinct (map t_name ?us)" using km1(2) by (simp add: holds_def strict_sorted_iff)
  then have found: "map_of (map (\<lambda>t. (t_name t, t)) ?us) name = Some ?t"
    by (intro map_of_is_SomeI) (auto simp: comp_def)
  have "ns_heap s1 a = Some ?n1" "st_heap (ns_msgs s1) p = Some x" using p(1) by (simp_all add: s1_def)
  from queue_message_ok [OF inv1 this p(2)] obtain s2 n2 where q: "queue_message True a (Some p) s1 = Inr (0, s2)"
    "notices_inv (add_mset p M) s2" "ns_heap s2 = (ns_heap s1)(a \<mapsto> n2)"
    "pq_items (n_queue n2) = pq_items (n_queue n) @ [p]" "subs n2 = subs n" "n_use n2 = n_use n + 1"
    by (auto simp: n1)
  let ?n3 = "n2\<lparr>n_trigger := TRIGGER_ALL, n_use := n_use n\<rparr>"
  define s3 where "s3 = note_put a ?n3 s2"
  have n2: "ns_heap s2 a = Some n2" using q(3) by simp
  have inv3: "notices_inv (add_mset p M) s3" unfolding s3_def
    using inv_split(2) [OF q(2) n2] by (intro inv_mark [OF q(2) n2]) (simp_all add: subs_def note_ok_def msgs_of_def)
  have "destroy_trap_katcp True (Some (?us ! ?i)) (Some p) s1 = Inr s3"
    unfolding pos(2) using q(1,6) n2 n(2)
    by (simp add: destroy_trap_katcp_def add_parse_notice_katcp_def trigger_notice_katcp_def configure_notice_katcp_def
        release_notice_katcp_def note_at_def s3_def) (simp add: note_put_def)
  then obtain km2 where km2: "remove_map_katcp True km1 name (Some p) s1 = Inr (0, km2, s3)" "holds km2 ts"
    using remove_map_old [OF km1(2) pos(1), of name True "Some p" s1 s3] pos by auto
  have "find_map_katcp km2 name = Inr None"
    using find_map_ok [OF km2(2), of name] map_of_names [of ts name] map(2) by simp
  moreover have "find_map_katcp km1 name = Inr (Some ?t)" using find_map_ok [OF km1(2), of name] found by simp
  moreover have "ns_heap s3 = (ns_heap s)(a \<mapsto> ?n3)" using q(3) by (simp add: s3_def s1_def)
  moreover have "ns_heap s1 = (ns_heap s)(a \<mapsto> ?n1)" by (simp add: s1_def)
  moreover have "subs ?n3 = subs n" using q(5) by (simp add: subs_def)
  ultimately show ?thesis using km1(1) km2 inv1 inv3 q(4)
    by (intro exI [of _ km1] exI [of _ s1] exI [of _ km2] exI [of _ s3] exI [of _ ?n1] exI [of _ ?n3]) simp
qed

theorem trap_holds_and_wakes_witness:
  "\<exists>km1 s1 km2 s2. add_map_katcp (True, True, True) True \<lparr>m_traps = [], m_size = 0, m_live = True\<rparr> ''reply'' (Some 0)
       (sample_notices TRIGGER_OFF) = Inr (0, km1, s1) \<and>
     remove_map_katcp True km1 ''reply'' (Some 1) s1 = Inr (0, km2, s2) \<and>
     (\<exists>n2. ns_heap s2 0 = Some n2 \<and> n_trigger n2 = TRIGGER_ALL \<and> n_use n2 = 0)"
proof -
  let ?s = "sample_notices TRIGGER_OFF" and ?km = "\<lparr>m_traps = [], m_size = 0, m_live = True\<rparr>"
  have inv: "notices_inv (add_mset 1 {#0, 0#}) ?s" using sample_notices_inv by (simp add: add_mset_commute)
  have n: "ns_heap ?s 0 = Some (sample_notice TRIGGER_OFF)" "n_use (sample_notice TRIGGER_OFF) \<ge> 0"
    by (simp_all add: sample_notice_simps)
  have p: "st_heap (ns_msgs ?s) 1 = Some (request_msg\<lparr>p_refs := 1\<rparr>)" "p_state (request_msg\<lparr>p_refs := 1\<rparr>) = PARSE_DONE"
    using request_msg(5) by (simp_all add: sample_notice_simps sample_store_def)
  have "holds ?km []" "''reply'' \<notin> names []" by (simp_all add: holds_def names_def)
  from trap_holds_and_wakes [OF this inv n p, of True] show ?thesis by (fastforce simp: sample_notice_simps)
qed

text \<open>When the array has moved to make room and there is then no memory for the trap, the
  addition fails and the map keeps the address of the array that is gone: the next use of the
  map reads freed memory.\<close>

theorem failed_addition_loses_map:
  assumes "holds km ts" "ts \<noteq> []" "name \<notin> names ts" "\<not> (fst mem \<and> snd mem)"
  shows "\<exists>km1. add_map_katcp (True, mem) True km name n s = Inr (-1, km1, s) \<and>
    (\<forall>k. find_map_katcp km1 k = Inl UseAfterFree) \<and> destroy_map_katcp ok (Some km1) p s = Inl UseAfterFree"
proof -
  obtain i where "locate_map_katcp km name False = Inr (int i)"
    using locate_map_ok [OF assms(1), of name] assms(3) by auto
  moreover have "m_traps km \<noteq> []" "0 < m_size km" using assms(1,2) by (auto simp: holds_def)
  ultimately show ?thesis using assms(4)
    by (auto simp: add_map_katcp_def create_trap_katcp_def Let_def find_map_katcp_def locate_map_katcp_def
        locate_loop.simps [of _ _ 0] trap_at_def destroy_map_katcp_def)
qed

theorem failed_addition_loses_map_witness:
  "\<exists>km1. add_map_katcp (True, True, False) True \<lparr>m_traps = [Some \<lparr>t_name = ''a'', t_notice = None\<rparr>], m_size = 1, m_live = True\<rparr>
       ''b'' None (sample_notices TRIGGER_OFF) = Inr (-1, km1, sample_notices TRIGGER_OFF) \<and>
     find_map_katcp km1 ''a'' = Inl UseAfterFree"
proof -
  let ?ts = "[\<lparr>t_name = ''a'', t_notice = None\<rparr>]"
  have "holds \<lparr>m_traps = map Some ?ts, m_size = 1, m_live = True\<rparr> ?ts" by (simp add: holds_def)
  moreover have "?ts \<noteq> []" "''b'' \<notin> names ?ts" "\<not> (fst (True, False) \<and> snd (True, False))" by (simp_all add: names_def)
  ultimately show ?thesis
    using failed_addition_loses_map [of _ ?ts "''b''" "(True, False)" None "sample_notices TRIGGER_OFF"] by fastforce
qed

end
