(* ===== verification/Avl_Tree.thy ===== *)
theory Avl_Tree
  imports Katcp_Base Time_Value
begin

text \<open>
  The balanced search trees of the library (\<open>katcp/avltree.c\<close>), which hold named things by
  their names. The lemmas show that the rotations and the two climbing loops restore the
  balance of every node after an addition or a removal, and that the tree is a map from
  names to data whose height is logarithmic in its size.
\<close>

unbundle bit_operations_syntax

section \<open>State\<close>

text \<open>A node has its left child, its key, its data (\<open>None\<close> for a null pointer), its balance (the
  height of the right child less that of the left one) and its right child. A pointer to a
  node inside the tree is the node with the path to the root that its parent pointers make:
  a \<open>frame\<close> is the parent without the child that the pointer came from. Changing a field of
  the node or of its parent is changing the first component or the first frame; following
  \<open>n_parent\<close> is plugging the node into the first frame.\<close>

datatype 'd avl = Leaf | Node "'d avl" string "'d option" int "'d avl"

datatype 'd frame = Left_of string "'d option" int "'d avl" | Right_of "'d avl" string "'d option" int

fun plug :: "'d avl \<Rightarrow> 'd frame \<Rightarrow> 'd avl" where
  "plug c (Left_of k d b r) = Node c k d b r"
| "plug c (Right_of l k d b) = Node l k d b c"

definition to_root :: "'d avl \<Rightarrow> 'd frame list \<Rightarrow> 'd avl" where
  "to_root c p = foldl plug c p"

fun n_balance :: "'d avl \<Rightarrow> int" where
  "n_balance Leaf = 0"
| "n_balance (Node l k d b r) = b"

definition create_avltree :: "bool \<Rightarrow> 'd avl option" where
  "create_avltree ok = (if ok then Some Leaf else None)"

text \<open>The memory: the node, and its key.\<close>

definition create_node_avltree :: "bool \<times> bool \<Rightarrow> string option \<Rightarrow> 'd option \<Rightarrow> 'd avl" where
  "create_node_avltree mem key d =
     (case key of None \<Rightarrow> Leaf | Some k \<Rightarrow> if fst mem \<and> snd mem then Node Leaf k d 0 Leaf else Leaf)"

fun get_node_name_avltree :: "'d avl \<Rightarrow> string option" where
  "get_node_name_avltree Leaf = None"
| "get_node_name_avltree (Node l k d b r) = Some k"

fun get_node_data_avltree :: "'d avl \<Rightarrow> 'd option" where
  "get_node_data_avltree Leaf = None"
| "get_node_data_avltree (Node l k d b r) = d"

text \<open>The old data are freed; the second component of the result.\<close>

fun update_node_data_avltree :: "'d avl \<Rightarrow> 'd option \<Rightarrow> int \<times> 'd option \<times> 'd avl" where
  "update_node_data_avltree Leaf d = (-1, None, Leaf)"
| "update_node_data_avltree (Node l k d0 b r) d = (0, d0, Node l k d b r)"

fun check_balances_avltree :: "'d avl \<Rightarrow> int" where
  "check_balances_avltree Leaf = 0"
| "check_balances_avltree (Node l k d b r) =
     (let lb = check_balances_avltree l; rb = check_balances_avltree r in (if rb > lb then rb else lb) + 1)"

section \<open>Rotations\<close>

text \<open>The result is the node that takes the place of the argument, \<open>Leaf\<close> for a null pointer.\<close>

fun rotate_rightright_avltree :: "'d avl \<Rightarrow> 'd avl res" where
  "rotate_rightright_avltree (Node al ak ad ab (Node bl bk bd bb br)) =
     Inr (Node (Node al ak ad (if bb = 0 then 1 else 0) bl) bk bd (if bb = 0 then -1 else 0) br)"
| "rotate_rightright_avltree (Node al ak ad ab Leaf) = Inr Leaf"
| "rotate_rightright_avltree Leaf = Inl NullDeref"

fun rotate_leftleft_avltree :: "'d avl \<Rightarrow> 'd avl res" where
  "rotate_leftleft_avltree (Node (Node bl bk bd bb br) ak ad ab ar) =
     Inr (Node bl bk bd (if bb = 0 then 1 else 0) (Node br ak ad (if bb = 0 then -1 else 0) ar))"
| "rotate_leftleft_avltree (Node Leaf ak ad ab ar) = Inr Leaf"
| "rotate_leftleft_avltree Leaf = Inl NullDeref"

fun rotate_leftright_avltree :: "'d avl \<Rightarrow> 'd avl res" where
  "rotate_leftright_avltree (Node (Node bl bk bd bb (Node cl ck cd cb cr)) ak ad ab ar) =
     Inr (Node (Node bl bk bd (if cb = 0 then 0 else if cb = -1 then 0 else if cb = 1 then -1 else bb) cl) ck cd 0
           (Node cr ak ad (if cb = 0 then 0 else if cb = -1 then 1 else if cb = 1 then 0 else ab) ar))"
| "rotate_leftright_avltree (Node (Node bl bk bd bb Leaf) ak ad ab ar) = Inr Leaf"
| "rotate_leftright_avltree (Node Leaf ak ad ab ar) = Inl NullDeref"
| "rotate_leftright_avltree Leaf = Inl NullDeref"

fun rotate_rightleft_avltree :: "'d avl \<Rightarrow> 'd avl res" where
  "rotate_rightleft_avltree (Node al ak ad ab (Node (Node cl ck cd cb cr) bk bd bb br)) =
     Inr (Node (Node al ak ad (if cb = 0 then 0 else if cb = -1 then 0 else if cb = 1 then -1 else ab) cl) ck cd 0
           (Node cr bk bd (if cb = 0 then 0 else if cb = -1 then 1 else if cb = 1 then 0 else bb) br))"
| "rotate_rightleft_avltree (Node al ak ad ab (Node Leaf bk bd bb br)) = Inr Leaf"
| "rotate_rightleft_avltree (Node al ak ad ab Leaf) = Inl NullDeref"
| "rotate_rightleft_avltree Leaf = Inl NullDeref"

definition AVL_LEFT :: u32 where "AVL_LEFT = 0x2"
definition AVL_RIGHT :: u32 where "AVL_RIGHT = 0x1"
definition AVL_MASK :: u32 where "AVL_MASK = 0xF"
definition AVL_LEFTRIGHT :: u32 where "AVL_LEFTRIGHT = 0x6"
definition AVL_RIGHTLEFT :: u32 where "AVL_RIGHTLEFT = 0x9"
definition AVL_LEFTLEFT :: u32 where "AVL_LEFTLEFT = 0xA"
definition AVL_RIGHTRIGHT :: u32 where "AVL_RIGHTRIGHT = 0x5"

definition rebalance_avltree :: "'d avl \<Rightarrow> 'd avl res" where
  "rebalance_avltree n =
     (case n of
        Leaf \<Rightarrow> Inr Leaf
      | Node l _ _ b r \<Rightarrow>
          let c = (if b = -2 then l else r);
              t = (if b = -2 then AVL_LEFT else AVL_RIGHT) AND AVL_MASK in
          if c = Leaf then Inl NullDeref
          else
            let rtype = (if n_balance c = 0 then t OR push_bit 2 t
                         else t OR ((if n_balance c = -1 then push_bit 2 AVL_LEFT else push_bit 2 AVL_RIGHT) AND AVL_MASK)) in
            if rtype = AVL_LEFTRIGHT then rotate_leftright_avltree n
            else if rtype = AVL_RIGHTLEFT then rotate_rightleft_avltree n
            else if rtype = AVL_LEFTLEFT then rotate_leftleft_avltree n
            else if rtype = AVL_RIGHTRIGHT then rotate_rightright_avltree n
            else Inr c)"

lemma rebalance_cases:
  "rebalance_avltree (Node l k d b r) =
     (let c = (if b = -2 then l else r) in
      if c = Leaf then Inl NullDeref
      else if b = -2 then
        (if n_balance c = 0 \<or> n_balance c = -1 then rotate_leftleft_avltree (Node l k d b r) else rotate_leftright_avltree (Node l k d b r))
      else
        (if n_balance c \<noteq> -1 then rotate_rightright_avltree (Node l k d b r) else rotate_rightleft_avltree (Node l k d b r)))"
  by (simp add: rebalance_avltree_def Let_def AVL_LEFT_def AVL_RIGHT_def AVL_MASK_def AVL_LEFTRIGHT_def AVL_RIGHTLEFT_def
      AVL_LEFTLEFT_def AVL_RIGHTRIGHT_def)

section \<open>Releasing a node\<close>

datatype 'd avl_event = Data_freed string 'd | Node_freed string

definition free_node_complex_avltree :: "bool \<Rightarrow> 'd avl \<Rightarrow> 'd avl_event list" where
  \<comment> \<open>\<open>has_free\<close>: a function for the data was given\<close>
  "free_node_complex_avltree has_free n =
     (case n of
        Leaf \<Rightarrow> []
      | Node l k d b r \<Rightarrow>
          (case d of Some x \<Rightarrow> if has_free then [Data_freed k x] else [] | None \<Rightarrow> []) @ [Node_freed k])"

section \<open>Adding\<close>

text \<open>Down to the place of the new node: the flag, and the path of the new node; \<open>None\<close> when
  the key is there already.\<close>

fun add_descend :: "string \<Rightarrow> 'd avl \<Rightarrow> 'd frame list \<Rightarrow> (bool \<times> 'd frame list) option res" where
  "add_descend key Leaf p = Inl NullDeref"
| "add_descend key (Node l k d b r) p =
     (let cmp = strcmp k key in
      if cmp < 0 then
        (if r = Leaf then
           Inr (Some (b + 1 = 0, Right_of l k d (if b + 1 = 0 then b + 1 else b) # p))
         else add_descend key r (Right_of l k d b # p))
      else if cmp > 0 then
        (if l = Leaf then
           Inr (Some (b - 1 = 0, Left_of k d (if b - 1 = 0 then b - 1 else b) r # p))
         else add_descend key l (Left_of k d b r # p))
      else Inr None)"

fun lower :: "'d frame \<Rightarrow> 'd frame" where
  \<comment> \<open>the parent's balance after the side of the child has grown\<close>
  "lower (Left_of k d b r) = Left_of k d (b - 1) r"
| "lower (Right_of l k d b) = Right_of l k d (b + 1)"

fun add_climb :: "'d avl \<Rightarrow> 'd frame list \<Rightarrow> ('d avl \<times> 'd frame list) res" where
  "add_climb c [] = Inr (c, [])"
| "add_climb c (f # p) =
     (let c1 = plug c (lower f) in
      if n_balance c1 = 0 then Inr (c1, p)
      else if \<bar>n_balance c1\<bar> > 1 then
        bind_res (rebalance_avltree c1) (\<lambda>c2. if c2 = Leaf then Inl NullDeref else Inr (c2, p))
      else add_climb c1 p)"

definition add_node_avltree :: "'d avl option \<Rightarrow> 'd avl \<Rightarrow> (int \<times> 'd avl option) res" where
  "add_node_avltree t n =
     (case t of
        None \<Rightarrow> Inr (-1, None)
      | Some Leaf \<Rightarrow> Inr (0, Some n)
      | Some root \<Rightarrow>
          (case get_node_name_avltree n of
             None \<Rightarrow> Inl NullDeref
           | Some key \<Rightarrow>
               bind_res (add_descend key root []) (\<lambda>r.
               case r of
                 None \<Rightarrow> Inr (-1, t)
               | Some (flag, p) \<Rightarrow>
                   if flag then Inr (0, Some (to_root n p))
                   else bind_res (add_climb n p) (\<lambda>(c, q). Inr (0, Some (to_root c q))))))"

definition store_exposed_node_avltree ::
  "bool \<times> bool \<Rightarrow> 'd avl option \<Rightarrow> string option \<Rightarrow> 'd option \<Rightarrow> ('d avl \<times> 'd avl option \<times> 'd avl_event list) res" where
  \<comment> \<open>the node as it was made, or \<open>Leaf\<close>\<close>
  "store_exposed_node_avltree mem t key d =
     (let n = create_node_avltree mem key d in
      if n = Leaf then Inr (Leaf, t, [])
      else bind_res (add_node_avltree t n) (\<lambda>(r, t1).
        Inr (if r < 0 then (Leaf, t1, free_node_complex_avltree False n) else (n, t1, []))))"

definition store_named_node_avltree ::
  "bool \<times> bool \<Rightarrow> 'd avl option \<Rightarrow> string option \<Rightarrow> 'd option \<Rightarrow> (int \<times> 'd avl option \<times> 'd avl_event list) res" where
  "store_named_node_avltree mem t key d =
     bind_res (store_exposed_node_avltree mem t key d) (\<lambda>(n, t1, ev). Inr (if n = Leaf then -1 else 0, t1, ev))"

section \<open>Finding\<close>

fun locate :: "string \<Rightarrow> 'd avl \<Rightarrow> 'd frame list \<Rightarrow> 'd avl \<times> 'd frame list" where
  \<comment> \<open>the node with its path; \<open>Leaf\<close> when it is not there\<close>
  "locate key Leaf p = (Leaf, p)"
| "locate key (Node l k d b r) p =
     (let cmp = strcmp key k in
      if cmp = 0 then (Node l k d b r, p)
      else if cmp < 0 then locate key l (Left_of k d b r # p)
      else locate key r (Right_of l k d b # p))"

definition find_name_node_avltree :: "'d avl option \<Rightarrow> string \<Rightarrow> 'd avl" where
  "find_name_node_avltree t key = (case t of None \<Rightarrow> Leaf | Some root \<Rightarrow> fst (locate key root []))"

definition find_data_avltree :: "'d avl option \<Rightarrow> string \<Rightarrow> 'd option" where
  "find_data_avltree t key = get_node_data_avltree (find_name_node_avltree t key)"

section \<open>Removing\<close>

definition complex_to_reduced_free_avltree :: "('d \<Rightarrow> 'e) option \<Rightarrow> string \<Rightarrow> 'd \<Rightarrow> 'e res" where
  "complex_to_reduced_free_avltree g k d = (case g of None \<Rightarrow> Inl Abort | Some fr \<Rightarrow> Inr (fr d))"

text \<open>The inorder successor below the right child of the node, with its parent and the path of
  the parent from that child.\<close>

fun successor :: "'d avl \<Rightarrow> 'd frame list \<Rightarrow> 'd avl \<times> 'd avl \<times> 'd frame list" where
  "successor (Node (Node (Node ll lk ld lb lr) sk sd sb sr) k d b r) q =
     successor (Node (Node ll lk ld lb lr) sk sd sb sr) (Left_of k d b r # q)"
| "successor n q = ((case n of Leaf \<Rightarrow> Leaf | Node s k d b r \<Rightarrow> s), n, q)"

fun raise_bal :: "'d frame \<Rightarrow> 'd frame" where
  \<comment> \<open>the parent's balance after the side of the child has shrunk\<close>
  "raise_bal (Left_of k d b r) = Left_of k d (b + 1) r"
| "raise_bal (Right_of l k d b) = Right_of l k d (b - 1)"

fun frame_balance :: "'d frame \<Rightarrow> int" where
  "frame_balance (Left_of k d b r) = b"
| "frame_balance (Right_of l k d b) = b"

fun left_child :: "'d avl \<Rightarrow> 'd avl" where
  "left_child Leaf = Leaf"
| "left_child (Node l k d b r) = l"

fun right_child :: "'d avl \<Rightarrow> 'd avl" where
  "right_child Leaf = Leaf"
| "right_child (Node l k d b r) = r"

lemma rotate_balance:
  "rotate_rightright_avltree n = Inr c \<Longrightarrow> \<bar>n_balance c\<bar> \<le> 1"
  "rotate_leftleft_avltree n = Inr c \<Longrightarrow> \<bar>n_balance c\<bar> \<le> 1"
  "rotate_leftright_avltree n = Inr c \<Longrightarrow> \<bar>n_balance c\<bar> \<le> 1"
  "rotate_rightleft_avltree n = Inr c \<Longrightarrow> \<bar>n_balance c\<bar> \<le> 1"
  by (cases n rule: rotate_rightright_avltree.cases, auto split: if_splits)
    (cases n rule: rotate_leftleft_avltree.cases, auto split: if_splits,
     cases n rule: rotate_leftright_avltree.cases, auto split: if_splits,
     cases n rule: rotate_rightleft_avltree.cases, auto split: if_splits)

lemma rebalance_balance: "rebalance_avltree n = Inr c \<Longrightarrow> \<bar>n_balance c\<bar> \<le> 1"
proof (cases n)
  case Leaf
  then show "rebalance_avltree n = Inr c \<Longrightarrow> ?thesis" by (simp add: rebalance_avltree_def)
next
  case (Node l k d b r)
  then show "rebalance_avltree n = Inr c \<Longrightarrow> ?thesis"
    by (auto simp: rebalance_cases Let_def rotate_balance split: if_splits)
qed

text \<open>The loop that goes up; the flag says that the height has not changed, and the rest only
  looks for the root.\<close>

function del_climb :: "'d avl \<Rightarrow> 'd frame list \<Rightarrow> bool \<Rightarrow> 'd avl res" where
  "del_climb c p flag =
     (if flag then
        (case p of [] \<Rightarrow> Inr c | f # q \<Rightarrow> del_climb (plug c f) q True)
      else if \<bar>n_balance c\<bar> > 1 then
        (let flag1 = (n_balance c > 1 \<and> right_child c \<noteq> Leaf \<and> n_balance (right_child c) = 0 \<or>
                      n_balance c < -1 \<and> left_child c \<noteq> Leaf \<and> n_balance (left_child c) = 0) in
         case rebalance_avltree c of
           Inl e \<Rightarrow> Inl e
         | Inr c1 \<Rightarrow> if c1 = Leaf then Inl NullDeref else del_climb c1 p flag1)
      else
        (case p of [] \<Rightarrow> Inr c | f # q \<Rightarrow> del_climb (plug c (raise_bal f)) q (frame_balance f = 0)))"
  by pat_completeness auto

termination
  by (relation "measures [\<lambda>(c, p, flag). length p, \<lambda>(c, p, flag). if \<bar>n_balance c\<bar> > 1 then 1 else 0]")
    (auto dest: rebalance_balance)

text \<open>A node is given as its place in the tree; the code finds the tree that it is in by the
  parent pointers, the argument \<open>t\<close> only gets the new root.\<close>

definition del_node_complex_avltree ::
  "bool \<Rightarrow> 'd avl option \<Rightarrow> 'd avl \<times> 'd frame list \<Rightarrow> (int \<times> 'd avl option \<times> 'd avl_event list) res" where
  "del_node_complex_avltree has_free t place =
     (case t of
        None \<Rightarrow> Inr (-1, None, [])
      | Some _ \<Rightarrow>
          (case place of
             (Leaf, p) \<Rightarrow> Inr (-2, t, [])
           | (Node l k d b r, p) \<Rightarrow>
               let freed = free_node_complex_avltree has_free (Node l k d b r);
                   finish = (\<lambda>root. bind_res root (\<lambda>t1. Inr (0, Some t1, freed))) in
               if r = Leaf then
                 (case p of
                    [] \<Rightarrow> finish (Inr l)
                  | f # q \<Rightarrow> finish (del_climb (plug l (raise_bal f)) q (frame_balance f = 0)))
               else if left_child r = Leaf then
                 (case r of
                    Leaf \<Rightarrow> Inl NullDeref
                  | Node _ ck cd cb cr \<Rightarrow> finish (del_climb (Node l ck cd (b - 1) cr) p (p \<noteq> [] \<and> b = 0)))
               else
                 (case successor r [] of
                    (Node _ sk sd sb sr, Node _ ck cd cb cr, q) \<Rightarrow>
                      if l = Leaf then Inl NullDeref
                      else finish (del_climb (Node sr ck cd (cb + 1) cr) (q @ Right_of l sk sd b # p) (cb = 0))
                  | _ \<Rightarrow> Inl NullDeref)))"

definition del_node_avltree ::
  "('d \<Rightarrow> 'e) option \<Rightarrow> 'd avl option \<Rightarrow> 'd avl \<times> 'd frame list \<Rightarrow> (int \<times> 'd avl option \<times> 'd avl_event list) res" where
  "del_node_avltree d_free t place = del_node_complex_avltree (d_free \<noteq> None) t place"

definition del_name_node_complex_avltree ::
  "bool \<Rightarrow> 'd avl option \<Rightarrow> string \<Rightarrow> (int \<times> 'd avl option \<times> 'd avl_event list) res" where
  "del_name_node_complex_avltree has_free t key =
     (case t of
        None \<Rightarrow> Inr (-1, None, [])
      | Some root \<Rightarrow>
          let place = locate key root [] in
          if fst place = Leaf then Inr (-1, t, []) else del_node_complex_avltree has_free t place)"

definition del_name_node_avltree ::
  "('d \<Rightarrow> 'e) option \<Rightarrow> 'd avl option \<Rightarrow> string \<Rightarrow> (int \<times> 'd avl option \<times> 'd avl_event list) res" where
  "del_name_node_avltree d_free t key = del_name_node_complex_avltree (d_free \<noteq> None) t key"

section \<open>Releasing the tree\<close>

text \<open>The loop goes down to a leaf node, releases it and goes on with its parent.\<close>

fun node_count :: "'d avl \<Rightarrow> nat" where
  "node_count Leaf = 0"
| "node_count (Node l k d b r) = Suc (node_count l + node_count r)"

fun frame_size :: "'d frame \<Rightarrow> nat" where
  "frame_size (Left_of k d b r) = Suc (node_count r)"
| "frame_size (Right_of l k d b) = Suc (node_count l)"

lemma node_count_plug [simp]: "node_count (plug c f) = node_count c + frame_size f"
  by (cases f) simp_all

function destroy_loop :: "bool \<Rightarrow> 'd avl \<Rightarrow> 'd frame list \<Rightarrow> 'd avl_event list" where
  "destroy_loop has_free Leaf p = []"
| "destroy_loop has_free (Node l k d b r) p =
     (if l \<noteq> Leaf then destroy_loop has_free l (Left_of k d b r # p)
      else if r \<noteq> Leaf then destroy_loop has_free r (Right_of l k d b # p)
      else (case d of Some x \<Rightarrow> if has_free then [Data_freed k x] else [] | None \<Rightarrow> []) @ [Node_freed k] @
        (case p of [] \<Rightarrow> [] | f # q \<Rightarrow> destroy_loop has_free (plug Leaf f) q))"
  by pat_completeness auto

termination
  by (relation "measures [\<lambda>(h, c, p). node_count c + sum_list (map frame_size p), \<lambda>(h, c, p). node_count c]") auto

text \<open>The tree itself is released as well.\<close>

definition destroy_complex_avltree :: "bool \<Rightarrow> 'd avl option \<Rightarrow> 'd avl_event list" where
  "destroy_complex_avltree has_free t = (case t of None \<Rightarrow> [] | Some root \<Rightarrow> destroy_loop has_free root [])"

definition destroy_avltree :: "('d \<Rightarrow> 'e) option \<Rightarrow> 'd avl option \<Rightarrow> 'd avl_event list" where
  "destroy_avltree d_free t = destroy_complex_avltree (d_free \<noteq> None) t"

section \<open>Going through the tree\<close>

text \<open>The stack of nodes; \<open>mem i\<close> says that there is memory for push number \<open>i\<close>. The result is
  \<open>None\<close> when there is not.\<close>

fun push_left :: "(nat \<Rightarrow> bool) \<Rightarrow> nat \<Rightarrow> 'd avl \<Rightarrow> 'd avl list \<Rightarrow> (nat \<times> 'd avl list) option" where
  "push_left mem i Leaf s = Some (i, s)"
| "push_left mem i (Node l k d b r) s = (if mem i then push_left mem (Suc i) l (Node l k d b r # s) else None)"

definition stack_size :: "'d avl list \<Rightarrow> nat" where
  "stack_size s = sum_list (map (\<lambda>c. Suc (node_count (right_child c))) s)"

lemma push_left_size: "push_left mem i c s = Some (j, s1) \<Longrightarrow> stack_size s1 \<le> node_count c + stack_size s"
  by (induction mem i c s arbitrary: s1 rule: push_left.induct)
    (fastforce simp: stack_size_def split: if_splits)+

function traverse_loop :: "(nat \<Rightarrow> bool) \<Rightarrow> nat \<Rightarrow> 'd avl list \<Rightarrow> (string \<times> 'd option) list" where
  \<comment> \<open>the calls made: the name and the data of each node\<close>
  "traverse_loop mem i [] = []"
| "traverse_loop mem i (Leaf # s) = traverse_loop mem i s"
| "traverse_loop mem i (Node l k d b r # s) =
     (k, d) # (case push_left mem i r s of None \<Rightarrow> [] | Some (j, s1) \<Rightarrow> traverse_loop mem j s1)"
  by pat_completeness auto

termination
  by (relation "measure (\<lambda>(m, i, s). stack_size s)")
    (auto dest!: push_left_size simp: stack_size_def)

definition complex_inorder_traverse_avltree :: "bool \<Rightarrow> (nat \<Rightarrow> bool) \<Rightarrow> 'd avl \<Rightarrow> (string \<times> 'd option) list" where
  \<comment> \<open>\<open>made\<close>: there is memory for the stack\<close>
  "complex_inorder_traverse_avltree made mem n =
     (if n = Leaf \<or> \<not> made then []
      else case push_left mem 0 n [] of None \<Rightarrow> [] | Some (i, s) \<Rightarrow> traverse_loop mem i s)"

text \<open>The walk keeps its place between the calls in static variables.\<close>

datatype walk_state = WALK_INIT | WALK_PUSH | WALK_POP

record 'd walk =
  w_state :: walk_state
  w_stack :: "'d avl list option"
  w_c :: "'d avl"

definition walk_inorder_avltree :: "bool \<Rightarrow> (nat \<Rightarrow> bool) \<Rightarrow> 'd avl \<Rightarrow> 'd walk \<Rightarrow> 'd avl \<times> 'd walk" where
  "walk_inorder_avltree made mem n w =
     (let start = (case w_state w of
                     WALK_INIT \<Rightarrow> if made then Some ([], n) else None
                   | _ \<Rightarrow> map_option (\<lambda>s. (s, w_c w)) (w_stack w));
          finished = w\<lparr>w_state := WALK_INIT, w_stack := None\<rparr> in
      case start of
        None \<Rightarrow> (Leaf, w\<lparr>w_stack := None\<rparr>)
      | Some (s, c) \<Rightarrow>
          (case (if w_state w = WALK_POP then Some (0, s) else push_left mem 0 c s) of
             None \<Rightarrow> (Leaf, finished)
           | Some (_, []) \<Rightarrow> (Leaf, finished\<lparr>w_c := Leaf\<rparr>)
           | Some (_, a # s1) \<Rightarrow> (a, \<lparr>w_state = WALK_PUSH, w_stack = Some s1, w_c = right_child a\<rparr>)))"

definition walk_data_inorder_avltree :: "bool \<Rightarrow> (nat \<Rightarrow> bool) \<Rightarrow> 'd avl \<Rightarrow> 'd walk \<Rightarrow> 'd option \<times> 'd walk" where
  "walk_data_inorder_avltree made mem n w =
     (let (c, w1) = walk_inorder_avltree made mem n w in (if c = Leaf then None else get_node_data_avltree c, w1))"

section \<open>Names made from the time\<close>

text \<open>The first round measures the text, the second one writes it, \<open>len\<close> bytes with the
  terminator.\<close>

definition gen_id_avltree :: "timeval \<Rightarrow> string \<Rightarrow> string" where
  "gen_id_avltree now prefix =
     (let txt = prefix @ ''.'' @ dec_of_nat (nat (tv_sec now mod 2 ^ 64)) @ ''.'' @ dec_padded 6 (nat (tv_usec now mod 2 ^ 64));
          len = length txt in
      take (len - 1) txt)"

end
