(* ===== verification/Avl_Balance.thy ===== *)
theory Avl_Balance
  imports Avl_Tree
begin

text \<open>
  The balance of the trees of \<open>katcp/avltree.c\<close>: what a well-formed tree and a well-formed
  path to the root are, and that the rotations and the climbing loops of an addition and of
  a removal end in a well-formed tree with the expected entries.
\<close>

section \<open>Well-formed trees and paths\<close>

abbreviation ht :: "'d avl \<Rightarrow> int" where "ht \<equiv> check_balances_avltree"

fun avl_ok :: "'d avl \<Rightarrow> bool" where
  "avl_ok Leaf = True"
| "avl_ok (Node l k d b r) = (avl_ok l \<and> avl_ok r \<and> b = ht r - ht l \<and> \<bar>b\<bar> \<le> 1)"

fun entries :: "'d avl \<Rightarrow> (string \<times> 'd option) list" where
  "entries Leaf = []"
| "entries (Node l k d b r) = entries l @ (k, d) # entries r"

text \<open>A path fits a child of height \<open>h\<close>.\<close>

fun path_ok :: "int \<Rightarrow> 'd frame list \<Rightarrow> bool" where
  "path_ok h [] = True"
| "path_ok h (Left_of k d b r # p) = (avl_ok r \<and> b = ht r - h \<and> \<bar>b\<bar> \<le> 1 \<and> path_ok (max h (ht r) + 1) p)"
| "path_ok h (Right_of l k d b # p) = (avl_ok l \<and> b = h - ht l \<and> \<bar>b\<bar> \<le> 1 \<and> path_ok (max (ht l) h + 1) p)"

fun before :: "'d frame list \<Rightarrow> (string \<times> 'd option) list" where
  "before [] = []"
| "before (Left_of k d b r # p) = before p"
| "before (Right_of l k d b # p) = before p @ entries l @ [(k, d)]"

fun after :: "'d frame list \<Rightarrow> (string \<times> 'd option) list" where
  "after [] = []"
| "after (Left_of k d b r # p) = (k, d) # entries r @ after p"
| "after (Right_of l k d b # p) = after p"

lemma ht_Node [simp]: "ht (Node l k d b r) = max (ht l) (ht r) + 1"
  by (simp add: Let_def max_def)

declare check_balances_avltree.simps(2) [simp del]

lemma ht_nonneg: "0 \<le> ht c"
  by (induction c) auto

lemma ht_0_iff [simp]: "ht c = 0 \<longleftrightarrow> c = Leaf"
proof (cases c)
  case (Node l k d b r)
  then show ?thesis using ht_nonneg [of l] ht_nonneg [of r] by simp
qed simp

lemma to_root_simps [simp]:
  "to_root c [] = c"
  "to_root c (f # p) = to_root (plug c f) p"
  by (simp_all add: to_root_def)

lemma to_root_append: "to_root c (p @ q) = to_root (to_root c p) q"
  by (simp add: to_root_def)

lemma to_root_ok: "avl_ok (to_root c p) \<longleftrightarrow> avl_ok c \<and> path_ok (ht c) p"
proof (induction p arbitrary: c)
  case (Cons f p)
  then show ?case by (cases f) (auto simp: max.commute)
qed simp

lemma entries_to_root: "entries (to_root c p) = before p @ entries c @ after p"
proof (induction p arbitrary: c)
  case (Cons f p)
  then show ?case by (cases f) simp_all
qed simp

section \<open>Rebalancing\<close>

text \<open>A node whose left (right) side is two higher gets a node in its place that is balanced;
  only if the higher child was even the height stays as it was.\<close>

lemma rebalance_left:
  assumes "avl_ok l" "avl_ok r" "ht l = ht r + 2"
  shows "\<exists>c. rebalance_avltree (Node l k d (-2) r) = Inr c \<and> c \<noteq> Leaf \<and> avl_ok c \<and>
    entries c = entries l @ (k, d) # entries r \<and> ht c = (if n_balance l = 0 then ht l + 1 else ht l)"
proof (cases l)
  case Leaf
  then show ?thesis using assms ht_nonneg [of r] by simp
next
  case (Node bl bk bd bb br)
  show ?thesis
  proof (cases "bb = 1")
    case False
    then show ?thesis using assms Node by (auto simp: rebalance_cases Let_def)
  next
    case True
    then have "br \<noteq> Leaf" using assms Node ht_nonneg [of bl] by auto
    then obtain cl ck cd cb cr where br: "br = Node cl ck cd cb cr" by (cases br) auto
    have "cb = -1 \<or> cb = 0 \<or> cb = 1" using assms Node br by auto
    then show ?thesis using assms Node True br by (auto simp: rebalance_cases Let_def)
  qed
qed

lemma rebalance_right:
  assumes "avl_ok l" "avl_ok r" "ht r = ht l + 2"
  shows "\<exists>c. rebalance_avltree (Node l k d 2 r) = Inr c \<and> c \<noteq> Leaf \<and> avl_ok c \<and>
    entries c = entries l @ (k, d) # entries r \<and> ht c = (if n_balance r = 0 then ht r + 1 else ht r)"
proof (cases r)
  case Leaf
  then show ?thesis using assms ht_nonneg [of l] by simp
next
  case (Node bl bk bd bb br)
  show ?thesis
  proof (cases "bb = -1")
    case False
    then show ?thesis using assms Node by (auto simp: rebalance_cases Let_def)
  next
    case True
    then have "bl \<noteq> Leaf" using assms Node ht_nonneg [of br] by auto
    then obtain cl ck cd cb cr where bl: "bl = Node cl ck cd cb cr" by (cases bl) auto
    have "cb = -1 \<or> cb = 0 \<or> cb = 1" using assms Node bl by auto
    then show ?thesis using assms Node True bl by (auto simp: rebalance_cases Let_def)
  qed
qed

section \<open>The climb of an addition\<close>

lemma plug_Leaf [simp]: "plug c f \<noteq> Leaf"
  by (cases f) simp_all

text \<open>The height of the subtree \<open>c\<close> was \<open>h\<close> and is now one more.\<close>

lemma add_climb_ok:
  assumes "avl_ok c" "ht c = h + 1" "path_ok h p" "n_balance c \<noteq> 0 \<or> h = 0"
  shows "\<exists>c1 q. add_climb c p = Inr (c1, q) \<and> avl_ok (to_root c1 q) \<and>
    entries (to_root c1 q) = before p @ entries c @ after p"
  using assms
proof (induction p arbitrary: c h)
  case Nil
  then show ?case by simp
next
  case (Cons f p)
  show ?case
  proof (cases f)
    case (Left_of k d b r)
    have p: "avl_ok r" "b = ht r - h" "\<bar>b\<bar> \<le> 1" "path_ok (max h (ht r) + 1) p"
      using Cons.prems(3) unfolding Left_of path_ok.simps by blast+
    consider "b = 1" | "b = 0" | "b = -1" using p(3) by linarith
    then show ?thesis
    proof cases
      case 1
      then have "ht (Node c k d 0 r) = max h (ht r) + 1" using p(2) Cons.prems(2) by simp
      then have "path_ok (ht (Node c k d 0 r)) p" using p(4) by simp
      then show ?thesis using 1 p Cons.prems Left_of by (simp add: to_root_ok entries_to_root)
    next
      case 2
      then have "\<exists>c1 q. add_climb (Node c k d (-1) r) p = Inr (c1, q) \<and> avl_ok (to_root c1 q) \<and>
          entries (to_root c1 q) = before p @ entries (Node c k d (-1) r) @ after p"
        using p Cons.prems by (intro Cons.IH [of _ "h + 1"]) auto
      then show ?thesis using 2 Left_of by simp
    next
      case 3
      then have "c \<noteq> Leaf" "ht c = ht r + 2" "n_balance c \<noteq> 0"
        using p Cons.prems ht_nonneg [of r] by auto
      with rebalance_left [of c r k d] obtain c2 where
        "rebalance_avltree (Node c k d (-2) r) = Inr c2" "c2 \<noteq> Leaf" "avl_ok c2"
        "entries c2 = entries c @ (k, d) # entries r" "ht c2 = ht c"
        using p Cons.prems by auto
      moreover have "path_ok (ht c) p" using 3 p Cons.prems(2) by (simp add: max_def split: if_splits)
      ultimately show ?thesis using 3 Left_of by (simp add: to_root_ok entries_to_root)
    qed
  next
    case (Right_of l k d b)
    have p: "avl_ok l" "b = h - ht l" "\<bar>b\<bar> \<le> 1" "path_ok (max (ht l) h + 1) p"
      using Cons.prems(3) unfolding Right_of path_ok.simps by blast+
    consider "b = -1" | "b = 0" | "b = 1" using p(3) by linarith
    then show ?thesis
    proof cases
      case 1
      then have "ht (Node l k d 0 c) = max (ht l) h + 1" using p(2) Cons.prems(2) by simp
      then have "path_ok (ht (Node l k d 0 c)) p" using p(4) by simp
      then show ?thesis using 1 p Cons.prems Right_of by (simp add: to_root_ok entries_to_root)
    next
      case 2
      then have "\<exists>c1 q. add_climb (Node l k d 1 c) p = Inr (c1, q) \<and> avl_ok (to_root c1 q) \<and>
          entries (to_root c1 q) = before p @ entries (Node l k d 1 c) @ after p"
        using p Cons.prems by (intro Cons.IH [of _ "h + 1"]) auto
      then show ?thesis using 2 Right_of by simp
    next
      case 3
      then have "c \<noteq> Leaf" "ht c = ht l + 2" "n_balance c \<noteq> 0"
        using p Cons.prems ht_nonneg [of l] by auto
      with rebalance_right [of l c k d] obtain c2 where
        "rebalance_avltree (Node l k d 2 c) = Inr c2" "c2 \<noteq> Leaf" "avl_ok c2"
        "entries c2 = entries l @ (k, d) # entries c" "ht c2 = ht c"
        using p Cons.prems by auto
      moreover have "path_ok (ht c) p" using 3 p Cons.prems(2) by (simp add: max_def split: if_splits)
      ultimately show ?thesis using 3 Right_of by (simp add: to_root_ok entries_to_root)
    qed
  qed
qed

section \<open>The climb of a removal\<close>

declare del_climb.simps [simp del]

lemma del_climb_flag [simp]: "del_climb c p True = Inr (to_root c p)"
proof (induction p arbitrary: c)
  case Nil
  then show ?case by (simp add: del_climb.simps)
next
  case (Cons f p)
  then show ?case by (subst del_climb.simps) simp
qed

text \<open>The climb ends well from \<open>c\<close>.\<close>

definition ends_well :: "'d avl \<Rightarrow> 'd frame list \<Rightarrow> bool \<Rightarrow> bool" where
  "ends_well c p flag \<longleftrightarrow>
     (\<exists>t. del_climb c p flag = Inr t \<and> avl_ok t \<and> entries t = before p @ entries c @ after p)"

lemma ends_well_flag: "avl_ok c \<Longrightarrow> path_ok (ht c) p \<Longrightarrow> ends_well c p True"
  by (simp add: ends_well_def to_root_ok entries_to_root)

text \<open>A node that is out of balance is rotated; then its height is as before, or one less.\<close>

lemma ends_well_rebalance:
  assumes next_ok: "\<And>c. avl_ok c \<Longrightarrow> path_ok (ht c + 1) p \<Longrightarrow> ends_well c p False"
    and "avl_ok l" "avl_ok r" "b = ht r - ht l" "\<bar>b\<bar> = 2" "path_ok (ht (Node l k d b r)) p"
  shows "ends_well (Node l k d b r) p False"
proof -
  define flag1 where "flag1 = (b > 1 \<and> r \<noteq> Leaf \<and> n_balance r = 0 \<or> b < -1 \<and> l \<noteq> Leaf \<and> n_balance l = 0)"
  have "\<exists>c. rebalance_avltree (Node l k d b r) = Inr c \<and> c \<noteq> Leaf \<and> avl_ok c \<and>
      entries c = entries l @ (k, d) # entries r \<and> ht c = (if flag1 then ht (Node l k d b r) else ht (Node l k d b r) - 1)"
  proof (cases "b = 2")
    case True
    then have "ht r = ht l + 2" using assms(4) by simp
    moreover from this have "r \<noteq> Leaf" using ht_nonneg [of l] by auto
    ultimately show ?thesis
      using True rebalance_right [OF assms(2,3), of k d] unfolding flag1_def by auto
  next
    case False
    then have b: "b = -2" using assms(5) by linarith
    then have "ht l = ht r + 2" using assms(4) by simp
    moreover from this have "l \<noteq> Leaf" using ht_nonneg [of r] by auto
    ultimately show ?thesis
      using b rebalance_left [OF assms(2,3), of k d] unfolding flag1_def by auto
  qed
  then obtain c where c: "rebalance_avltree (Node l k d b r) = Inr c" "c \<noteq> Leaf" "avl_ok c"
    "entries c = entries l @ (k, d) # entries r" "ht c = (if flag1 then ht (Node l k d b r) else ht (Node l k d b r) - 1)"
    by blast
  have step: "del_climb (Node l k d b r) p False = del_climb c p flag1"
    by (subst del_climb.simps) (use c(1,2) assms(5) in \<open>simp add: flag1_def\<close>)
  have "ends_well c p flag1"
  proof (cases flag1)
    case True
    then show ?thesis using c(3,5) assms(6) ends_well_flag [of c p] by simp
  next
    case False
    then show ?thesis using next_ok [of c] c(3,5) assms(6) by simp
  qed
  then show ?thesis using c(4) by (simp add: ends_well_def step)
qed

text \<open>The height of the subtree was one more.\<close>

lemma ends_well_shrunk:
  assumes "avl_ok c" "path_ok (ht c + 1) p"
  shows "ends_well c p False"
  using assms
proof (induction p arbitrary: c)
  case Nil
  then have "\<bar>n_balance c\<bar> \<le> 1" by (cases c) simp_all
  with Nil show ?case by (simp add: ends_well_def del_climb.simps)
next
  case (Cons f p)
  have "\<bar>n_balance c\<bar> \<le> 1" using Cons.prems(1) by (cases c) simp_all
  then have step: "del_climb c (f # p) False = del_climb (plug c (raise_bal f)) p (frame_balance f = 0)"
    by (subst del_climb.simps) simp
  have "ends_well (plug c (raise_bal f)) p (frame_balance f = 0)"
  proof (cases f)
    case (Left_of k d b r)
    have p: "avl_ok r" "b = ht r - (ht c + 1)" "\<bar>b\<bar> \<le> 1" "path_ok (max (ht c + 1) (ht r) + 1) p"
      using Cons.prems(2) unfolding Left_of path_ok.simps by blast+
    consider "b = 0" | "b = -1" | "b = 1" using p(3) by linarith
    then show ?thesis
    proof cases
      case 1
      then show ?thesis using p Left_of Cons.prems(1)
        by (auto intro!: ends_well_flag simp: max_def split: if_splits)
    next
      case 2
      then show ?thesis using p Left_of Cons.prems(1) by (auto intro!: Cons.IH simp: max_def split: if_splits)
    next
      case 3
      then show ?thesis using p Left_of Cons.prems(1) Cons.IH
        by (auto intro!: ends_well_rebalance simp: max_def split: if_splits)
    qed
  next
    case (Right_of l k d b)
    have p: "avl_ok l" "b = (ht c + 1) - ht l" "\<bar>b\<bar> \<le> 1" "path_ok (max (ht l) (ht c + 1) + 1) p"
      using Cons.prems(2) unfolding Right_of path_ok.simps by blast+
    consider "b = 0" | "b = 1" | "b = -1" using p(3) by linarith
    then show ?thesis
    proof cases
      case 1
      then show ?thesis using p Right_of Cons.prems(1)
        by (auto intro!: ends_well_flag simp: max_def split: if_splits)
    next
      case 2
      then show ?thesis using p Right_of Cons.prems(1) by (auto intro!: Cons.IH simp: max_def split: if_splits)
    next
      case 3
      then show ?thesis using p Right_of Cons.prems(1) Cons.IH
        by (auto intro!: ends_well_rebalance simp: max_def split: if_splits)
    qed
  qed
  with step show ?case by (cases f) (simp_all add: ends_well_def)
qed

end
