(* ===== verification/Avl_Map.thy ===== *)
theory Avl_Map
  imports Avl_Balance Interfaces "HOL-Library.Sublist"
begin

text \<open>
  The trees of \<open>katcp/avltree.c\<close> as tables: additions, removals and searches by name act on
  the entries as on a map, whatever their order, and keep the tree in order and balanced.
\<close>

section \<open>The table\<close>

definition in_order :: "'d avl \<Rightarrow> bool" where
  "in_order t \<longleftrightarrow> sorted_wrt (<) (map fst (entries t))"

definition table :: "'d avl \<Rightarrow> string \<rightharpoonup> 'd option" where
  "table t = map_of (entries t)"

text \<open>The key belongs to the place with this path.\<close>

definition fits :: "string \<Rightarrow> 'd frame list \<Rightarrow> bool" where
  "fits key p \<longleftrightarrow> (\<forall>x \<in> fst ` set (before p). x < key) \<and> (\<forall>x \<in> fst ` set (after p). key < x)"

lemma fits_simps [simp]:
  "fits key []"
  "fits key (Left_of k d b r # p) \<longleftrightarrow> fits key p \<and> key < k \<and> (\<forall>x \<in> fst ` set (entries r). key < x)"
  "fits key (Right_of l k d b # p) \<longleftrightarrow> fits key p \<and> k < key \<and> (\<forall>x \<in> fst ` set (entries l). x < key)"
  by (auto simp: fits_def)

lemma in_order_Node:
  "in_order (Node l k d b r) \<longleftrightarrow> in_order l \<and> in_order r \<and>
     (\<forall>x \<in> fst ` set (entries l). x < k) \<and> (\<forall>x \<in> fst ` set (entries r). k < x)"
  by (fastforce simp: in_order_def sorted_wrt_append)

lemma table_fits:
  assumes "fits key p"
  shows "map_of (before p @ es @ after p) key = map_of es key"
proof -
  have "key \<notin> fst ` set (before p)" "key \<notin> fst ` set (after p)" using assms by (auto simp: fits_def)
  then show ?thesis by (simp add: map_add_def map_of_eq_None_iff [symmetric] split: option.splits)
qed

section \<open>Searching\<close>

lemma locate_to_root: "locate key t p = (c, q) \<Longrightarrow> to_root c q = to_root t p"
  by (induction key t p rule: locate.induct) (auto simp: Let_def split: if_splits)

lemma locate_found: "locate key t p = (Node l k d b r, q) \<Longrightarrow> k = key"
  by (induction key t p rule: locate.induct) (auto simp: Let_def strcmp_order split: if_splits)

lemma locate_fits: "in_order t \<Longrightarrow> fits key p \<Longrightarrow> locate key t p = (c, q) \<Longrightarrow> fits key q"
proof (induction key t p rule: locate.induct)
  case (2 key l k d b r p)
  have io: "in_order l" "in_order r" "\<forall>x \<in> fst ` set (entries l). x < k" "\<forall>x \<in> fst ` set (entries r). k < x"
    using "2.prems"(1) by (simp_all add: in_order_Node)
  consider "key = k" | "key < k" | "k < key" by fastforce
  then show ?case
  proof cases
    case 1
    then show ?thesis using "2.prems" by (simp add: Let_def strcmp_order)
  next
    case 2
    then have f: "fits key (Left_of k d b r # p)" using io(4) "2.prems"(2) by fastforce
    have "locate key l (Left_of k d b r # p) = (c, q)" "strcmp key k \<noteq> 0" "strcmp key k < 0"
      using 2 "2.prems"(3) by (auto simp: Let_def strcmp_order split: if_splits)
    then show ?thesis using "2.IH"(1) [OF refl _ _ io(1) f] by simp
  next
    case 3
    then have f: "fits key (Right_of l k d b # p)" using io(3) "2.prems"(2) by fastforce
    have "locate key r (Right_of l k d b # p) = (c, q)" "strcmp key k \<noteq> 0" "\<not> strcmp key k < 0"
      using 3 "2.prems"(3) by (auto simp: Let_def strcmp_order split: if_splits)
    then show ?thesis using "2.IH"(2) [OF refl _ _ io(2) f] by simp
  qed
qed simp

lemma locate_table:
  assumes "in_order t" "locate key t [] = (c, q)"
  shows "table t key = (case c of Leaf \<Rightarrow> None | Node l k d b r \<Rightarrow> Some d)"
proof -
  have "fits key q" using locate_fits [OF assms(1) _ assms(2)] by simp
  moreover have "entries t = before q @ entries c @ after q"
    using locate_to_root [OF assms(2)] entries_to_root [of c q] by simp
  moreover have "map_of (entries c) key = (case c of Leaf \<Rightarrow> None | Node l k d b r \<Rightarrow> Some d)"
  proof (cases c)
    case (Node l k d b r)
    then have "k = key" using locate_found assms(2) by blast
    moreover have "key \<notin> fst ` set (entries l)"
    proof -
      have "in_order (to_root c q)" using assms locate_to_root by fastforce
      then have "in_order c" by (simp add: in_order_def entries_to_root sorted_wrt_append)
      with Node \<open>k = key\<close> show ?thesis by (auto simp: in_order_Node)
    qed
    ultimately show ?thesis using Node by (simp add: map_add_def map_of_eq_None_iff [symmetric])
  qed simp
  ultimately show ?thesis using table_fits [of key q "entries c"] by (simp add: table_def)
qed

lemma find_name_node_ok:
  "in_order t \<Longrightarrow> find_name_node_avltree (Some t) key =
     (case table t key of None \<Rightarrow> Leaf | Some d \<Rightarrow> find_name_node_avltree (Some t) key)"
  using locate_table [of t key] by (cases "locate key t []") (auto simp: find_name_node_avltree_def split: avl.splits)

section \<open>Adding\<close>

lemma add_descend_ok:
  assumes "in_order c" "avl_ok c" "c \<noteq> Leaf" "path_ok (ht c) p" "fits key p"
  shows "if key \<in> fst ` set (entries c) then add_descend key c p = Inr None
    else \<exists>flag q. add_descend key c p = Inr (Some (flag, q)) \<and> fits key q \<and>
      before q @ after q = before p @ entries c @ after p \<and> path_ok (if flag then 1 else 0) q"
  using assms
proof (induction c arbitrary: p)
  case (Node l k d b r)
  have io: "in_order l" "in_order r" "\<And>x. x \<in> fst ` set (entries l) \<Longrightarrow> x < k" "\<And>x. x \<in> fst ` set (entries r) \<Longrightarrow> k < x"
    using Node.prems(1) by (auto simp: in_order_Node)
  have ok: "avl_ok l" "avl_ok r" "b = ht r - ht l" "\<bar>b\<bar> \<le> 1" using Node.prems(2) unfolding avl_ok.simps by blast+
  consider "k = key" | "k < key" | "key < k" by fastforce
  then show ?case
  proof cases
    case 1
    then show ?thesis by (simp add: Let_def strcmp_order)
  next
    case 2
    then have nl: "key \<notin> fst ` set (entries l)" using io(3) by fastforce
    have f: "fits key (Right_of l k d b # p)" using 2 io(3) Node.prems(5) by fastforce
    show ?thesis
    proof (cases "r = Leaf")
      case True
      then have "ht l = 0 \<or> ht l = 1" using ok ht_nonneg [of l] by (auto simp del: ht_0_iff)
      then show ?thesis using True 2 nl f ok Node.prems by (elim disjE) (auto simp: Let_def strcmp_order)
    next
      case False
      have "path_ok (ht r) (Right_of l k d b # p)" using ok Node.prems(4) by simp
      from Node.IH(2) [OF io(2) ok(2) False this f] show ?thesis
        using 2 nl False by (auto simp: Let_def strcmp_order split: if_splits)
    qed
  next
    case 3
    then have nr: "key \<notin> fst ` set (entries r)" using io(4) by fastforce
    have f: "fits key (Left_of k d b r # p)" using 3 io(4) Node.prems(5) by fastforce
    show ?thesis
    proof (cases "l = Leaf")
      case True
      then have "ht r = 0 \<or> ht r = 1" using ok ht_nonneg [of r] by (auto simp del: ht_0_iff)
      then show ?thesis using True 3 nr f ok Node.prems by (elim disjE) (auto simp: Let_def strcmp_order)
    next
      case False
      have "path_ok (ht l) (Left_of k d b r # p)" using ok Node.prems(4) by simp
      from Node.IH(1) [OF io(1) ok(1) False this f] show ?thesis
        using 3 nr False by (auto simp: Let_def strcmp_order split: if_splits)
    qed
  qed
qed simp

text \<open>A new key with its data enters the table; a key that is there is refused.\<close>

lemma map_of_insert:
  "key \<notin> fst ` set xs \<Longrightarrow> map_of (xs @ (key, d) # ys) = (map_of (xs @ ys))(key \<mapsto> d)"
  by (rule ext) (auto simp: map_add_def map_of_eq_None_iff [symmetric] split: option.splits)

lemma sorted_insert_key:
  "sorted_wrt (<) (map fst (before q @ after q)) \<Longrightarrow> fits key q \<Longrightarrow> sorted_wrt (<) (map fst (before q @ (key, d) # after q))"
  by (auto simp: sorted_wrt_append fits_def)

lemma add_node_ok:
  assumes "avl_ok t" "in_order t"
  shows "if table t key = None
    then \<exists>t1. add_node_avltree (Some t) (Node Leaf key d 0 Leaf) = Inr (0, Some t1) \<and> avl_ok t1 \<and> in_order t1 \<and>
      table t1 = (table t)(key \<mapsto> d)
    else add_node_avltree (Some t) (Node Leaf key d 0 Leaf) = Inr (-1, Some t)"
proof (cases t)
  case Leaf
  then show ?thesis by (simp add: add_node_avltree_def table_def in_order_def)
next
  case (Node l k x b r)
  let ?n = "Node Leaf key d 0 Leaf"
  have add: "add_node_avltree (Some t) ?n = bind_res (add_descend key t []) (\<lambda>r. case r of
      None \<Rightarrow> Inr (-1, Some t)
    | Some (flag, p) \<Rightarrow> if flag then Inr (0, Some (to_root ?n p))
        else bind_res (add_climb ?n p) (\<lambda>(c, q). Inr (0, Some (to_root c q))))"
    unfolding add_node_avltree_def Node by (simp del: add_descend.simps)
  have ne: "t \<noteq> Leaf" using Node by simp
  have desc: "if key \<in> fst ` set (entries t) then add_descend key t [] = Inr None
    else \<exists>flag q. add_descend key t [] = Inr (Some (flag, q)) \<and> fits key q \<and>
      before q @ after q = entries t \<and> path_ok (if flag then 1 else 0) q"
    using add_descend_ok [OF assms(2,1) ne, of "[]" key] by (simp cong: if_cong)
  show ?thesis
  proof (cases "key \<in> fst ` set (entries t)")
    case True
    then show ?thesis using desc add by (simp add: table_def map_of_eq_None_iff)
  next
    case False
    then obtain flag q where q: "add_descend key t [] = Inr (Some (flag, q))" "fits key q"
      "before q @ after q = entries t" "path_ok (if flag then 1 else 0) q"
      using desc by auto
    have fin: "in_order t1 \<and> table t1 = (table t)(key \<mapsto> d)" if e: "entries t1 = before q @ (key, d) # after q" for t1
    proof -
      have "key \<notin> fst ` set (before q)" using q(2) by (auto simp: fits_def)
      then show ?thesis
        using assms(2) sorted_insert_key [OF _ q(2), of d] q(3) map_of_insert [of key "before q" d "after q"] e
        unfolding in_order_def table_def by simp
    qed
    have "\<exists>t1. add_node_avltree (Some t) ?n = Inr (0, Some t1) \<and> avl_ok t1 \<and> entries t1 = before q @ (key, d) # after q"
    proof (cases flag)
      case True
      then show ?thesis using add q by (simp add: to_root_ok entries_to_root)
    next
      case False
      with q(4) add_climb_ok [of ?n 0 q] show ?thesis using add q(1) by auto
    qed
    with fin False show ?thesis by (auto simp: table_def map_of_eq_None_iff)
  qed
qed

section \<open>Removing\<close>

lemma successor_place:
  "left_child n \<noteq> Leaf \<Longrightarrow> \<exists>sk sd sb sr ck cd cb cr q1. successor n q =
     (Node Leaf sk sd sb sr, Node (Node Leaf sk sd sb sr) ck cd cb cr, q1 @ q) \<and>
     to_root (Node (Node Leaf sk sd sb sr) ck cd cb cr) q1 = n \<and> before q1 = []"
proof (induction n q rule: successor.induct)
  case (1 ll lk ld lb lr sk sd sb sr k d b r q)
  then obtain sk1 sd1 sb1 sr1 ck cd cb cr q1 where
    "successor (Node (Node ll lk ld lb lr) sk sd sb sr) (Left_of k d b r # q) =
       (Node Leaf sk1 sd1 sb1 sr1, Node (Node Leaf sk1 sd1 sb1 sr1) ck cd cb cr, q1 @ Left_of k d b r # q)"
    "to_root (Node (Node Leaf sk1 sd1 sb1 sr1) ck cd cb cr) q1 = Node (Node ll lk ld lb lr) sk sd sb sr" "before q1 = []"
    by auto
  moreover have "before (q1 @ [Left_of k d b r]) = before q1" for q1 :: "'a frame list"
    by (induction q1 rule: before.induct) simp_all
  ultimately show ?case
    by (intro exI [of _ sk1] exI [of _ sd1] exI [of _ sb1] exI [of _ sr1] exI [of _ ck] exI [of _ cd] exI [of _ cb]
        exI [of _ cr] exI [of _ "q1 @ [Left_of k d b r]"]) (simp add: to_root_append)
qed (auto intro!: exI [of _ "[]"])

lemma before_append: "before (p @ q) = before q @ before p"
  by (induction p rule: before.induct) simp_all

lemma after_append: "after (p @ q) = after p @ after q"
  by (induction p rule: after.induct) simp_all

text \<open>The place is left without its entry; the node is released once, with its data.\<close>

lemma del_node_ok:
  assumes "avl_ok (to_root (Node l k d b r) p)"
  shows "\<exists>t1. del_node_complex_avltree h (Some root) (Node l k d b r, p) =
      Inr (0, Some t1, free_node_complex_avltree h (Node l k d b r)) \<and>
    avl_ok t1 \<and> entries t1 = before p @ entries l @ entries r @ after p"
proof -
  have ok: "avl_ok l" "avl_ok r" "b = ht r - ht l" "\<bar>b\<bar> \<le> 1" and p: "path_ok (ht (Node l k d b r)) p"
    using assms unfolding to_root_ok avl_ok.simps by blast+
  have fin: ?thesis
    if c: "ends_well c q flag" "before q @ entries c @ after q = before p @ entries l @ entries r @ after p"
      and del: "del_node_complex_avltree h (Some root) (Node l k d b r, p) =
        bind_res (del_climb c q flag) (\<lambda>t1. Inr (0, Some t1, free_node_complex_avltree h (Node l k d b r)))" for c q flag
    using c del by (auto simp: ends_well_def)
  show ?thesis
  proof (cases r)
    case Leaf
    have "path_ok (ht l + 1) p" using p Leaf by (simp add: max_absorb1 ht_nonneg)
    then have "ends_well l p False" by (rule ends_well_shrunk [OF ok(1)])
    moreover have "\<bar>n_balance l\<bar> \<le> 1" using ok(1) by (cases l) simp_all
    moreover from this have "del_node_complex_avltree h (Some root) (Node l k d b r, p) =
        bind_res (del_climb l p False) (\<lambda>t1. Inr (0, Some t1, free_node_complex_avltree h (Node l k d b r)))"
      by (cases p; subst del_climb.simps) (simp_all add: del_node_complex_avltree_def Leaf Let_def)
    ultimately show ?thesis by (intro fin) (simp_all add: Leaf)
  next
    case (Node cl ck cd cb cr)
    show ?thesis
    proof (cases "cl = Leaf")
      case True
      let ?c = "Node l ck cd (b - 1) cr"
      have r: "ht r = ht cr + 1" "avl_ok cr" using Node True ok(2) by (simp_all add: max_absorb2 ht_nonneg)
      have del: "del_node_complex_avltree h (Some root) (Node l k d b r, p) = bind_res (del_climb ?c p (p \<noteq> [] \<and> b = 0))
          (\<lambda>t1. Inr (0, Some t1, free_node_complex_avltree h (Node l k d b r)))"
        using Node True by (simp add: del_node_complex_avltree_def Let_def)
      have "ends_well ?c p (p \<noteq> [] \<and> b = 0)"
      proof -
        consider "b = 0" "p = []" | "b = 0" "p \<noteq> []" | "b = 1" | "b = -1" using ok(4) by linarith
        then show ?thesis
        proof cases
          case 1
          then show ?thesis using ok r by (auto intro!: ends_well_shrunk)
        next
          case 2
          then show ?thesis using ok r p by (auto intro!: ends_well_flag simp: max_def split: if_splits)
        next
          case 3
          then show ?thesis using ok r p by (auto intro!: ends_well_shrunk simp: max_def split: if_splits)
        next
          case 4
          then have flag: "(p \<noteq> [] \<and> b = 0) = False" by simp
          show ?thesis unfolding flag using 4 ok r p
            by (intro ends_well_rebalance [OF ends_well_shrunk]) (auto simp: max_def split: if_splits)
        qed
      qed
      then show ?thesis by (rule fin [OF _ _ del]) (simp add: Node True)
    next
      case False
      then obtain sk sd sb sr ck1 cd1 cb1 cr1 q where s:
        "successor r [] = (Node Leaf sk sd sb sr, Node (Node Leaf sk sd sb sr) ck1 cd1 cb1 cr1, q)"
        "to_root (Node (Node Leaf sk sd sb sr) ck1 cd1 cb1 cr1) q = r" "before q = []"
        using successor_place [of r "[]"] Node by fastforce
      let ?p = "q @ Right_of l sk sd b # p" and ?c = "Node sr ck1 cd1 (cb1 + 1) cr1"
      have "ht cl > 0" using False ht_nonneg [of cl] by (simp add: order_less_le)
      then have "ht r \<ge> 2" using Node by simp
      then have l: "l \<noteq> Leaf" using ok(3,4) by (auto simp: max_def)
      have del: "del_node_complex_avltree h (Some root) (Node l k d b r, p) = bind_res (del_climb ?c ?p (cb1 = 0))
          (\<lambda>t1. Inr (0, Some t1, free_node_complex_avltree h (Node l k d b r)))"
        using Node False s(1) l by (simp add: del_node_complex_avltree_def Let_def)
      have "avl_ok (to_root (Node (Node Leaf sk sd sb sr) ck1 cd1 cb1 cr1) ?p)"
        using assms ok unfolding to_root_append s(2) to_root_simps plug.simps by (simp add: to_root_ok)
      then have c: "avl_ok sr" "avl_ok cr1" "cb1 = ht cr1 - (ht sr + 1)" "\<bar>cb1\<bar> \<le> 1"
        "path_ok (max (ht sr + 1) (ht cr1) + 1) ?p"
        unfolding to_root_ok avl_ok.simps ht_Node check_balances_avltree.simps(1) max_absorb2 [OF ht_nonneg] diff_0_right
        by blast+
      have "ends_well ?c ?p (cb1 = 0)"
      proof -
        consider "cb1 = 0" | "cb1 = -1" | "cb1 = 1" using c(4) by linarith
        then show ?thesis
        proof cases
          case 1
          then show ?thesis using c by (auto intro!: ends_well_flag simp: max_def split: if_splits)
        next
          case 2
          then show ?thesis using c by (auto intro!: ends_well_shrunk simp: max_def split: if_splits)
        next
          case 3
          then have flag: "(cb1 = 0) = False" by simp
          show ?thesis unfolding flag using 3 c
            by (intro ends_well_rebalance [OF ends_well_shrunk]) (auto simp: max_def split: if_splits)
        qed
      qed
      moreover have "entries r = (sk, sd) # entries sr @ (ck1, cd1) # entries cr1 @ after q"
        using arg_cong [OF s(2), of entries] s(3) by (simp add: entries_to_root)
      ultimately show ?thesis by (intro fin [OF _ _ del]) (simp_all add: before_append after_append s(3))
    qed
  qed
qed

section \<open>The table as a dictionary\<close>

definition avl_valid :: "'d avl \<Rightarrow> bool" where
  "avl_valid t \<longleftrightarrow> avl_ok t \<and> in_order t"

definition avl_put :: "string \<Rightarrow> 'd option \<Rightarrow> 'd avl \<Rightarrow> (bool \<times> 'd avl) res" where
  "avl_put key d t = bind_res (store_named_node_avltree (True, True) (Some t) (Some key) d) (\<lambda>(r, t1, ev).
     case t1 of None \<Rightarrow> Inl NullDeref | Some root \<Rightarrow> Inr (r = 0, root))"

definition avl_rem :: "bool \<Rightarrow> string \<Rightarrow> 'd avl \<Rightarrow> (bool \<times> 'd avl) res" where
  "avl_rem has_free key t = bind_res (del_name_node_complex_avltree has_free (Some t) key) (\<lambda>(r, t1, ev).
     case t1 of None \<Rightarrow> Inl NullDeref | Some root \<Rightarrow> Inr (r = 0, root))"

definition avl_look :: "string \<Rightarrow> 'd avl \<Rightarrow> 'd option option" where
  "avl_look key t =
     (case find_name_node_avltree (Some t) key of Leaf \<Rightarrow> None | n \<Rightarrow> Some (get_node_data_avltree n))"

lemma avl_look_table: "in_order t \<Longrightarrow> avl_look key t = table t key"
  using locate_table [of t key]
  by (cases "locate key t []") (auto simp: avl_look_def find_name_node_avltree_def split: avl.splits)

lemma table_remove:
  assumes "in_order t" "entries t = xs @ (key, d) # ys"
  shows "map_of (xs @ ys) = (table t)(key := None)"
proof -
  have "key \<notin> fst ` set xs" "key \<notin> fst ` set ys"
    using assms by (auto simp: in_order_def sorted_wrt_append)
  then show ?thesis unfolding table_def assms(2)
    by (intro ext) (auto simp: map_add_def map_of_eq_None_iff [symmetric] split: option.splits)
qed

lemma del_name_node_ok:
  assumes "avl_valid t"
  shows "case table t key of
      None \<Rightarrow> del_name_node_complex_avltree h (Some t) key = Inr (-1, Some t, [])
    | Some d \<Rightarrow> \<exists>t1. del_name_node_complex_avltree h (Some t) key =
          Inr (0, Some t1, (case d of Some x \<Rightarrow> if h then [Data_freed key x] else [] | None \<Rightarrow> []) @ [Node_freed key]) \<and>
        avl_valid t1 \<and> table t1 = (table t)(key := None)"
proof -
  have v: "avl_ok t" "in_order t" using assms by (simp_all add: avl_valid_def)
  obtain c q where c: "locate key t [] = (c, q)" by fastforce
  show ?thesis
  proof (cases c)
    case Leaf
    then show ?thesis using locate_table [OF v(2) c] c by (simp add: del_name_node_complex_avltree_def)
  next
    case (Node l k d b r)
    then have k: "k = key" using c locate_found by blast
    have root: "to_root (Node l k d b r) q = t" using locate_to_root [OF c] Node by simp
    then have e: "entries t = (before q @ entries l) @ (key, d) # entries r @ after q"
      using entries_to_root [of "Node l k d b r" q] k by simp
    obtain t1 where t1: "del_node_complex_avltree h (Some t) (Node l k d b r, q) =
        Inr (0, Some t1, free_node_complex_avltree h (Node l k d b r))" "avl_ok t1"
        "entries t1 = before q @ entries l @ entries r @ after q"
      using del_node_ok [of l k d b r q h t] v(1) root by auto
    have "in_order t1" using v(2) e t1(3) by (auto simp: in_order_def sorted_wrt_append)
    moreover have "table t1 = (table t)(key := None)"
      using table_remove [OF v(2) e] t1(3) by (simp add: table_def)
    ultimately show ?thesis using locate_table [OF v(2) c] Node c t1 k
      by (auto simp: del_name_node_complex_avltree_def Let_def avl_valid_def free_node_complex_avltree_def)
  qed
qed

lemma avl_put_ok:
  assumes "avl_valid t"
  shows "if table t key = None then \<exists>t1. avl_put key d t = Inr (True, t1) \<and> avl_valid t1 \<and> table t1 = (table t)(key \<mapsto> d)
    else avl_put key d t = Inr (False, t)"
  using add_node_ok [of t key d] assms
  by (auto simp: avl_put_def store_named_node_avltree_def store_exposed_node_avltree_def create_node_avltree_def
      Let_def avl_valid_def split: if_splits)

interpretation avd: dictionary Leaf avl_put "avl_rem h" avl_look table avl_valid
proof unfold_locales
  fix t :: "'d avl" and key and d :: "'d option"
  assume v: "avl_valid t"
  show "avl_look key t = table t key" using v by (simp add: avl_look_table avl_valid_def)
  note put = avl_put_ok [OF v, of key d] and rem = del_name_node_ok [OF v, of h key]
  show "table t key = None \<Longrightarrow> \<exists>t1. avl_put key d t = Inr (True, t1) \<and> avl_valid t1 \<and> table t1 = (table t)(key \<mapsto> d)"
    using put by simp
  show "table t key \<noteq> None \<Longrightarrow> avl_put key d t = Inr (False, t)"
    using put by simp
  show "table t key \<noteq> None \<Longrightarrow> \<exists>t1. avl_rem h key t = Inr (True, t1) \<and> avl_valid t1 \<and> table t1 = (table t)(key := None)"
    using rem by (auto simp: avl_rem_def)
  show "table t key = None \<Longrightarrow> avl_rem h key t = Inr (False, t)"
    using rem by (simp add: avl_rem_def)
qed (simp_all add: avl_valid_def in_order_def table_def)

text \<open>The number of nodes that a search looks at.\<close>

lemma locate_steps: "int (length (snd (locate key t p))) \<le> ht t + int (length p)"
proof (induction key t p rule: locate.induct)
  case (2 key l k d b r p)
  show ?case using 2 by (auto simp: Let_def max_def ht_nonneg)
qed simp

lemma avl_height: "avl_ok t \<Longrightarrow> 2 ^ (nat (ht t) div 2) \<le> node_count t + 1"
proof (induction t)
  case (Node l k d b r)
  let ?h = "nat (ht (Node l k d b r))"
  have ok: "avl_ok l" "avl_ok r" "\<bar>ht r - ht l\<bar> \<le> 1" using Node.prems by auto
  show ?case
  proof (cases "?h < 2")
    case False
    then obtain n where n: "?h = Suc (Suc n)" by (metis add_2_eq_Suc le_iff_add not_less)
    then have "n \<le> nat (ht l)" "n \<le> nat (ht r)" using ok(3) by (auto simp: max_def split: if_splits)
    then have "(2::nat) ^ (n div 2) \<le> 2 ^ (nat (ht l) div 2)" "(2::nat) ^ (n div 2) \<le> 2 ^ (nat (ht r) div 2)"
      by (simp_all only: power_increasing div_le_mono one_le_numeral)
    then have "2 ^ (n div 2) \<le> node_count l + 1" "2 ^ (n div 2) \<le> node_count r + 1"
      using Node.IH(1) [OF ok(1)] Node.IH(2) [OF ok(2)] by linarith+
    then show ?thesis unfolding n by simp
  qed auto
qed simp

section \<open>Going through the entries\<close>

fun stack_entries :: "'d avl list \<Rightarrow> (string \<times> 'd option) list" where
  "stack_entries [] = []"
| "stack_entries (Leaf # s) = stack_entries s"
| "stack_entries (Node l k d b r # s) = (k, d) # entries r @ stack_entries s"

lemma push_left_entries:
  "push_left mem i c s = Some (j, s1) \<Longrightarrow> stack_entries s1 = entries c @ stack_entries s"
  by (induction mem i c s rule: push_left.induct) (auto split: if_splits)

lemma push_left_all: "\<exists>j s1. push_left (\<lambda>_. True) i c s = Some (j, s1)"
  by (induction "\<lambda>_::nat. True" i c s rule: push_left.induct) auto

lemma push_left_nonleaf:
  "push_left mem i c s = Some (j, s1) \<Longrightarrow> Leaf \<notin> set s \<Longrightarrow> Leaf \<notin> set s1"
  by (induction mem i c s rule: push_left.induct) (auto split: if_splits)

lemma traverse_prefix: "prefix (traverse_loop mem i s) (stack_entries s)"
proof (induction mem i s rule: traverse_loop.induct)
  case (3 mem i l k d b r s)
  show ?case
  proof (cases "push_left mem i r s")
    case (Some js)
    obtain j s1 where js: "js = (j, s1)" by fastforce
    have "stack_entries s1 = entries r @ stack_entries s" using push_left_entries Some js by blast
    then show ?thesis using "3" [OF Some [unfolded js] refl] Some js by simp
  qed simp
qed simp_all

lemma traverse_all: "traverse_loop (\<lambda>_. True) i s = stack_entries s"
proof (induction "\<lambda>_::nat. True" i s rule: traverse_loop.induct)
  case (3 i l k d b r s)
  obtain j s1 where "push_left (\<lambda>_. True) i r s = Some (j, s1)" using push_left_all by blast
  with 3 push_left_entries [OF this] show ?case by simp
qed simp_all

text \<open>A series of calls of the walk; the tree given may be another one each time.\<close>

fun walk_calls :: "'d avl list \<Rightarrow> 'd walk \<Rightarrow> 'd avl list \<times> 'd walk" where
  "walk_calls [] w = ([], w)"
| "walk_calls (n # ns) w =
     (case walk_inorder_avltree True (\<lambda>_. True) n w of (c, w1) \<Rightarrow> case walk_calls ns w1 of (cs, w2) \<Rightarrow> (c # cs, w2))"

fun node_entry :: "'d avl \<Rightarrow> (string \<times> 'd option) option" where
  "node_entry Leaf = None"
| "node_entry (Node l k d b r) = Some (k, d)"

lemma walk_rest:
  assumes "w_state w = WALK_PUSH" "w_stack w = Some s" "Leaf \<notin> set s"
    "length ns = Suc (length (entries (w_c w) @ stack_entries s))"
  shows "map node_entry (fst (walk_calls ns w)) = map Some (entries (w_c w) @ stack_entries s) @ [None] \<and>
    w_state (snd (walk_calls ns w)) = WALK_INIT"
  using assms
proof (induction ns arbitrary: w s)
  case (Cons n ns)
  obtain j s1 where s1: "push_left (\<lambda>_. True) 0 (w_c w) s = Some (j, s1)" using push_left_all by blast
  have e: "stack_entries s1 = entries (w_c w) @ stack_entries s" using push_left_entries [OF s1] .
  show ?case
  proof (cases s1)
    case Nil
    then have "ns = []" using e Cons.prems(4) by simp
    then show ?thesis using Nil e s1 Cons.prems by (simp add: walk_inorder_avltree_def Let_def)
  next
    case (Cons a s2)
    obtain l k d b r where a: "a = Node l k d b r"
      using push_left_nonleaf [OF s1 Cons.prems(3)] Cons by (cases a) auto
    define w1 where "w1 = \<lparr>w_state = WALK_PUSH, w_stack = Some s2, w_c = r\<rparr>"
    have "walk_inorder_avltree True (\<lambda>_. True) n w = (a, w1)"
      using Cons s1 Cons.prems a by (simp add: walk_inorder_avltree_def Let_def w1_def)
    moreover have "map node_entry (fst (walk_calls ns w1)) = map Some (entries (w_c w1) @ stack_entries s2) @ [None] \<and>
        w_state (snd (walk_calls ns w1)) = WALK_INIT"
      using Cons.prems(4) push_left_nonleaf [OF s1 Cons.prems(3)] arg_cong [OF e, of length] Cons a
      by (intro Cons.IH) (auto simp: w1_def)
    ultimately show ?thesis using arg_cong [OF e, of "map Some"] Cons a by (auto simp: w1_def split: prod.splits)
  qed
qed simp

section \<open>Releasing the tree\<close>

fun release_order :: "bool \<Rightarrow> 'd avl \<Rightarrow> 'd avl_event list" where
  "release_order h Leaf = []"
| "release_order h (Node l k d b r) = release_order h l @ release_order h r @
     (case d of Some x \<Rightarrow> if h then [Data_freed k x] else [] | None \<Rightarrow> []) @ [Node_freed k]"

lemma destroy_loop_order:
  "c \<noteq> Leaf \<Longrightarrow> destroy_loop h c p =
     release_order h c @ (case p of [] \<Rightarrow> [] | f # q \<Rightarrow> destroy_loop h (plug Leaf f) q)"
proof (induction c arbitrary: p)
  case (Node l k d b r)
  have last: "destroy_loop h (Node Leaf k d b Leaf) p =
      (case d of Some x \<Rightarrow> if h then [Data_freed k x] else [] | None \<Rightarrow> []) @ [Node_freed k] @
      (case p of [] \<Rightarrow> [] | f # q \<Rightarrow> destroy_loop h (plug Leaf f) q)" by simp
  have right: "destroy_loop h (Node Leaf k d b r) p = release_order h r @ destroy_loop h (Node Leaf k d b Leaf) p"
    using Node.IH(2) [of "Right_of Leaf k d b # p"] by (cases "r = Leaf") (simp_all del: append_assoc)
  show ?case
  proof (cases "l = Leaf")
    case True
    then show ?thesis using right last by simp
  next
    case False
    have "destroy_loop h (Node l k d b r) p = release_order h l @ destroy_loop h (Node Leaf k d b r) p"
      using False Node.IH(1) [OF False, of "Left_of k d b r # p"] by simp
    then show ?thesis using right last by simp
  qed
qed simp

fun released :: "'d avl_event list \<Rightarrow> string list" where
  "released [] = []"
| "released (Node_freed k # es) = k # released es"
| "released (Data_freed k x # es) = released es"

fun data_released :: "'d avl_event list \<Rightarrow> (string \<times> 'd) list" where
  "data_released [] = []"
| "data_released (Node_freed k # es) = data_released es"
| "data_released (Data_freed k x # es) = (k, x) # data_released es"

lemma released_append: "released (xs @ ys) = released xs @ released ys"
  by (induction xs rule: released.induct) simp_all

lemma data_released_append: "data_released (xs @ ys) = data_released xs @ data_released ys"
  by (induction xs rule: data_released.induct) simp_all

definition with_data :: "(string \<times> 'd option) list \<Rightarrow> (string \<times> 'd) list" where
  "with_data es = map (\<lambda>(k, d). (k, the d)) (filter (\<lambda>(k, d). d \<noteq> None) es)"

lemma release_order_all:
  "mset (released (release_order h t)) = mset (map fst (entries t)) \<and>
   mset (data_released (release_order h t)) = (if h then mset (with_data (entries t)) else {#})"
  by (induction t)
    (auto simp: released_append data_released_append with_data_def split: option.splits)

section \<open>Properties\<close>

text \<open>C26. Whatever is stored, removed and looked up under whatever names, the tree answers
  each call as a map from names to data does (a name that is there is refused, a name that is
  not cannot be removed), follows no null pointer on the way, and holds in the end what the
  map holds.\<close>

theorem avl_answers_as_map:
  "\<exists>rs t. run_dict avl_put (avl_rem h) avl_look Leaf ops = Inr (rs, t) \<and>
     run_dict map_put map_rem map_look Map.empty ops = Inr (rs, table t)"
  using avd.run_from_empty [of h ops] by blast

text \<open>C27. After any sequence of operations the balance of every node is the difference of the
  heights of its children and at most one, the names are in order from left to right, and a
  search looks at no more than about twice the logarithm of the number of nodes.\<close>

theorem avl_stays_balanced:
  "\<exists>rs t. run_dict avl_put (avl_rem h) avl_look Leaf ops = Inr (rs, t) \<and> avl_ok t \<and> in_order t \<and>
     2 ^ (length (snd (locate key t [])) div 2) \<le> node_count t + 1"
proof -
  obtain rs t where t: "run_dict avl_put (avl_rem h) avl_look Leaf ops = Inr (rs, t)" "avl_ok t" "in_order t"
    using avd.run_from_empty [of h ops] by (auto simp: avl_valid_def)
  have "length (snd (locate key t [])) \<le> nat (ht t)" using locate_steps [of key t "[]"] by simp
  then have "(2::nat) ^ (length (snd (locate key t [])) div 2) \<le> 2 ^ (nat (ht t) div 2)"
    by (simp only: power_increasing div_le_mono one_le_numeral)
  then show ?thesis using t avl_height [OF t(2)] by (meson order_trans)
qed

text \<open>Removing a name releases the node with that name once, after its data when a
  function for them is given, and nothing else; the other entries stay. A name that is not
  there is refused and nothing is released.\<close>

theorem removal_releases_its_node:
  assumes "avl_ok t" "in_order t"
  shows "case table t key of
      None \<Rightarrow> del_name_node_complex_avltree h (Some t) key = Inr (-1, Some t, [])
    | Some d \<Rightarrow> \<exists>t1. del_name_node_complex_avltree h (Some t) key =
          Inr (0, Some t1, (case d of Some x \<Rightarrow> if h then [Data_freed key x] else [] | None \<Rightarrow> []) @ [Node_freed key]) \<and>
        avl_ok t1 \<and> in_order t1 \<and> table t1 = (table t)(key := None)"
  using del_name_node_ok [of t h key] assms by (auto simp: avl_valid_def split: option.splits)

theorem removal_releases_its_node_witness:
  "let t = Node (Node Leaf ''a'' None 0 Leaf) ''b'' (Some (7::nat)) 0 (Node Leaf ''c'' None 0 Leaf) in
   del_name_node_complex_avltree True (Some t) ''d'' = Inr (-1, Some t, []) \<and>
   (\<exists>t1. del_name_node_complex_avltree True (Some t) ''b'' = Inr (0, Some t1, [Data_freed ''b'' 7, Node_freed ''b'']) \<and>
     avl_ok t1 \<and> in_order t1 \<and> table t1 = (table t)(''b'' := None))"
proof -
  let ?t = "Node (Node Leaf ''a'' None 0 Leaf) ''b'' (Some (7::nat)) 0 (Node Leaf ''c'' None 0 Leaf)"
  have "avl_ok ?t" "in_order ?t" by (simp_all add: in_order_def less_char_def)
  moreover have "table ?t ''d'' = None" "table ?t ''b'' = Some (Some 7)" by (simp_all add: table_def)
  ultimately show ?thesis
    using removal_releases_its_node [of ?t True "''d''"] removal_releases_its_node [of ?t True "''b''"]
    by simp
qed

text \<open>Going through a tree calls the function given for the entries from left to right,
  for all of them unless there is no memory for the stack, and then for the first ones; after
  any sequence of operations these are the entries of the map in the order of their names.\<close>

theorem traverse_in_order:
  fixes n :: "'d avl" and ops :: "(string, 'd option) dict_op list"
  shows "prefix (complex_inorder_traverse_avltree made mem n) (entries n) \<and>
   complex_inorder_traverse_avltree True (\<lambda>_. True) n = entries n \<and>
   (\<exists>rs t. run_dict avl_put (avl_rem h) avl_look Leaf ops = Inr (rs, t) \<and>
     run_dict map_put map_rem map_look Map.empty ops =
       Inr (rs, map_of (complex_inorder_traverse_avltree True (\<lambda>_. True) t)) \<and>
     sorted_wrt (<) (map fst (complex_inorder_traverse_avltree True (\<lambda>_. True) t)))"
proof -
  have all: "complex_inorder_traverse_avltree True (\<lambda>_. True) t = entries t" for t :: "'d avl"
  proof (cases "t = Leaf")
    case False
    obtain j s1 where "push_left (\<lambda>_. True) 0 t [] = Some (j, s1)" using push_left_all by blast
    with False push_left_entries [OF this] show ?thesis
      by (simp add: complex_inorder_traverse_avltree_def traverse_all)
  qed (simp add: complex_inorder_traverse_avltree_def)
  moreover have "prefix (complex_inorder_traverse_avltree made mem n) (entries n)"
  proof (cases "n = Leaf \<or> \<not> made \<or> push_left mem 0 n [] = None")
    case False
    then obtain j s1 where "push_left mem 0 n [] = Some (j, s1)" by fastforce
    with False push_left_entries [OF this] traverse_prefix [of mem j s1] show ?thesis
      by (simp add: complex_inorder_traverse_avltree_def)
  qed (auto simp: complex_inorder_traverse_avltree_def)
  moreover obtain rs t where "run_dict avl_put (avl_rem h) avl_look Leaf ops = Inr (rs, t)" "avl_valid t"
    "run_dict map_put map_rem map_look Map.empty ops = Inr (rs, table t)"
    using avd.run_from_empty [of h ops] by blast
  ultimately show ?thesis by (auto simp: avl_valid_def in_order_def table_def)
qed

text \<open>Called again and again, the walk gives the nodes from left to right, then a null
  pointer, and is ready for the next walk; which tree it is given after the first call makes
  no difference, since it keeps its place in variables of its own: of two walks at the same
  time one goes through the tree of the other.\<close>

theorem walk_gives_the_first_tree:
  "map node_entry (fst (walk_calls (n # map other [0..<length (entries n)])
       \<lparr>w_state = WALK_INIT, w_stack = None, w_c = Leaf\<rparr>)) = map Some (entries n) @ [None] \<and>
   w_state (snd (walk_calls (n # map other [0..<length (entries n)])
       \<lparr>w_state = WALK_INIT, w_stack = None, w_c = Leaf\<rparr>)) = WALK_INIT"
proof -
  let ?w = "\<lparr>w_state = WALK_INIT, w_stack = None, w_c = Leaf\<rparr>" and ?ns = "map other [0..<length (entries n)]"
  have "walk_inorder_avltree True (\<lambda>_. True) n ?w =
      walk_inorder_avltree True (\<lambda>_. True) n \<lparr>w_state = WALK_PUSH, w_stack = Some [], w_c = n\<rparr>"
    using push_left_all [of 0 n "[]"] by (auto simp: walk_inorder_avltree_def Let_def split: list.splits)
  then have "walk_calls (n # ?ns) ?w = walk_calls (n # ?ns) \<lparr>w_state = WALK_PUSH, w_stack = Some [], w_c = n\<rparr>"
    by (simp only: walk_calls.simps)
  then show ?thesis
    using walk_rest [of "\<lparr>w_state = WALK_PUSH, w_stack = Some [], w_c = n\<rparr>" "[]" "n # ?ns"] by simp
qed

text \<open>Releasing a tree ends, releases each node once, children before their parents, and
  gives the data of each node that has some once to the function for them.\<close>

theorem destroy_releases_each_once:
  "destroy_complex_avltree h (Some t) = release_order h t \<and>
   mset (released (destroy_complex_avltree h (Some t))) = mset (map fst (entries t)) \<and>
   mset (data_released (destroy_complex_avltree h (Some t))) = (if h then mset (with_data (entries t)) else {#})"
proof -
  have "destroy_complex_avltree h (Some t) = release_order h t"
    using destroy_loop_order [of t h "[]"] by (cases "t = Leaf") (simp_all add: destroy_complex_avltree_def)
  then show ?thesis using release_order_all [of h t] by simp
qed

text \<open>Two calls in the same ten microseconds give the same name: the last digit is cut off.\<close>

lemma gen_id_cut:
  "gen_id_avltree \<lparr>tv_sec = 5, tv_usec = 120\<rparr> ''x'' = ''x.5.00012'' \<and>
   gen_id_avltree \<lparr>tv_sec = 5, tv_usec = 127\<rparr> ''x'' = ''x.5.00012''"
  by code_simp

end
