(* ===== verification/Kurl.thy ===== *)
theory Kurl
  imports Parse_Build
begin

text \<open>
  The addresses of servers and programs (\<open>katcp/kurl.c\<close>), such as \<open>katcp://host:7147/path\<close> and
  \<open>exec:///bin/ls#name\<close>: \<open>struct katcp_url\<close>, the machine that reads one from a string, the
  functions that write one, and the test whether a name belongs to one.

  Allocations are decided by \<open>mem\<close>. Only some of them are checked by the code; writing through
  the null pointer of another is the fault \<open>NullDeref\<close>. A null pointer printed with \<open>%s\<close> shows
  as \<open>(null)\<close>.
\<close>

section \<open>The structure\<close>

text \<open>\<open>u_path\<close> is the array of paths, empty for a null pointer; \<open>u_pcount\<close> is its length. The
  use count \<open>u_use\<close> is never raised in the library.\<close>

record kurl =
  u_use :: int
  u_str :: "string option"
  u_scheme :: "string option"
  u_host :: "string option"
  u_port :: int
  u_path :: "string option list"
  u_cmd :: "string option"

definition allocate_kurl_katcp :: "bool \<Rightarrow> kurl option" where
  "allocate_kurl_katcp ok =
     (if ok then Some \<lparr>u_use = 0, u_str = None, u_scheme = None, u_host = None, u_port = 0, u_path = [], u_cmd = None\<rparr>
      else None)"

text \<open>What is left of the address: \<open>None\<close> when it has been freed.\<close>

definition destroy_kurl_katcp :: "kurl option \<Rightarrow> kurl option" where
  "destroy_kurl_katcp ku =
     (case ku of None \<Rightarrow> None
      | Some k \<Rightarrow> if u_use k > 1 then Some (k\<lparr>u_use := u_use k - 1\<rparr>) else None)"

section \<open>Writing\<close>

definition shown_string :: "string option \<Rightarrow> string" where
  "shown_string t = (case t of None \<Rightarrow> ''(null)'' | Some s \<Rightarrow> s)"

definition deref_string :: "string option \<Rightarrow> string res" where
  "deref_string t = (case t of None \<Rightarrow> Inl NullDeref | Some s \<Rightarrow> Inr s)"

text \<open>The loop that looks for a path; \<open>found\<close> is zero unless it is found.\<close>

fun path_loop :: "string \<Rightarrow> nat \<Rightarrow> string option list \<Rightarrow> nat res" where
  "path_loop path i [] = Inr 0"
| "path_loop path i (p # ps) =
     bind_res (deref_string p) (\<lambda>t. if strcmp t path = 0 then Inr i else path_loop path (i + 1) ps)"

definition copy_kurl_string_katcp :: "(nat \<Rightarrow> bool) \<Rightarrow> kurl \<Rightarrow> string option \<Rightarrow> string option res" where
  "copy_kurl_string_katcp mem ku path =
     bind_res
       (case u_cmd ku of
          Some cmd \<Rightarrow>
            bind_res (deref_string (u_scheme ku)) (\<lambda>scheme.
            Inr (if mem 0 then Some (scheme @ ''://'' @ cmd) else None))
        | None \<Rightarrow>
            Inr (if mem 0
                 then Some (shown_string (u_scheme ku) @ ''://'' @ shown_string (u_host ku) @ '':'' @
                            dec_of_int (u_port ku) @ ''/'')
                 else None))
       (\<lambda>str.
       case str of
         None \<Rightarrow> Inr None
       | Some t \<Rightarrow>
         (case path of
            None \<Rightarrow> Inr (Some t)
          | Some p \<Rightarrow>
            bind_res (path_loop p 0 (u_path ku)) (\<lambda>found.
            if found = 0 then Inr None
            else if \<not> mem 1 then Inl NullDeref
            else Inr (Some (t @ shown_string (u_path ku ! found))))))"

definition kurl_string_with_path_id :: "bool \<Rightarrow> kurl \<Rightarrow> nat \<Rightarrow> string option res" where
  "kurl_string_with_path_id ok ku n =
     (if length (u_path ku) \<le> n then Inl OutOfBounds
      else Inr (if ok then Some (shown_string (u_scheme ku) @ ''://'' @ shown_string (u_host ku) @ '':'' @
                                 dec_of_int (u_port ku) @ ''/'' @ shown_string (u_path ku ! n))
                else None))"

definition create_kurl_katcp :: "(nat \<Rightarrow> bool) \<Rightarrow> string \<Rightarrow> string \<Rightarrow> int \<Rightarrow> string option \<Rightarrow> kurl option res" where
  "create_kurl_katcp mem scheme host port path =
     (case allocate_kurl_katcp (mem 0) of
        None \<Rightarrow> Inr None
      | Some k \<Rightarrow>
        if \<not> mem 1 \<or> \<not> mem 2 then Inr None
        else
          let k1 = k\<lparr>u_scheme := Some scheme, u_host := Some host, u_port := port\<rparr> in
          bind_res (copy_kurl_string_katcp (\<lambda>i. mem (i + 3)) k1 None) (\<lambda>str.
          let k2 = k1\<lparr>u_str := str\<rparr> in
          case path of
            None \<Rightarrow> Inr (Some k2)
          | Some p \<Rightarrow>
            if \<not> mem 5 then Inr None
            else Inr (Some (k2\<lparr>u_path := [if mem 6 then Some p else None]\<rparr>))))"

definition create_exec_kurl_katcp :: "(nat \<Rightarrow> bool) \<Rightarrow> string \<Rightarrow> kurl option res" where
  "create_exec_kurl_katcp mem cmd =
     (case allocate_kurl_katcp (mem 0) of
        None \<Rightarrow> Inr None
      | Some k \<Rightarrow>
        if \<not> mem 1 \<or> \<not> mem 2 then Inr None
        else
          let k1 = k\<lparr>u_scheme := Some ''exec'', u_cmd := Some cmd\<rparr> in
          bind_res (copy_kurl_string_katcp (\<lambda>i. mem (i + 3)) k1 None) (\<lambda>str.
          Inr (case str of None \<Rightarrow> None | Some t \<Rightarrow> Some (k1\<lparr>u_str := Some t\<rparr>))))"

definition add_kurl_path_copy_string_katcp ::
  "(nat \<Rightarrow> bool) \<Rightarrow> kurl \<Rightarrow> string \<Rightarrow> (string option \<times> kurl) res" where
  "add_kurl_path_copy_string_katcp mem ku npath =
     (if \<not> mem 0 then Inl NullDeref
      else
        let k1 = ku\<lparr>u_path := u_path ku @ [if mem 1 then Some npath else None]\<rparr> in
        bind_res (kurl_string_with_path_id (mem 2) k1 (length (u_path ku))) (\<lambda>t. Inr (t, k1)))"

section \<open>Reading\<close>

text \<open>\<open>strcasecmp\<close> and \<open>atoi\<close> of the C library.\<close>

definition c_tolower :: "char \<Rightarrow> char" where
  "c_tolower c =
     (if 65 \<le> (of_char c :: nat) \<and> (of_char c :: nat) \<le> 90 then char_of ((of_char c :: nat) + 32) else c)"

definition strcasecmp :: "string \<Rightarrow> string \<Rightarrow> int" where
  "strcasecmp a b = strcmp (map c_tolower a) (map c_tolower b)"

definition atoi :: "string \<Rightarrow> int" where
  "atoi t = sint (of_int (fst (strtol 10 t)) :: 32 word)"

datatype url_state = S_SCHEME | S_HOST | S_PORT | S_PATH | S_END | S_CMD | S_HASH

record url_run =
  r_state :: url_state
  r_i :: nat
  r_j :: nat
  r_spos :: nat
  r_url :: kurl

text \<open>The character at a position, where the terminator is at the end, and the piece from
  \<open>spos\<close> up to the current position, copied into a block that may not have been allocated.\<close>

definition url_char :: "string \<Rightarrow> nat \<Rightarrow> char res" where
  "url_char url i = (if i < length url then Inr (url ! i) else if i = length url then Inr nul else Inl OutOfBounds)"

definition piece :: "bool \<Rightarrow> string \<Rightarrow> nat \<Rightarrow> nat \<Rightarrow> string res" where
  "piece ok url spos i = (if \<not> ok then Inl NullDeref else Inr (take (i - spos) (drop spos url)))"

definition ends_line :: "char \<Rightarrow> bool" where
  "ends_line c \<longleftrightarrow> c = CHR 0x0D \<or> c = CHR 0x0A \<or> c = nul"

text \<open>One round of the loop; \<open>None\<close> when the address is given up. \<open>mem\<close> decides the two
  allocations that a round can make.\<close>

definition url_path_end :: "(nat \<Rightarrow> bool) \<Rightarrow> string \<Rightarrow> url_run \<Rightarrow> url_run res" where
  "url_path_end mem url r =
     (if \<not> mem 0 then Inl NullDeref
      else bind_res (piece (mem 1) url (r_spos r) (r_i r)) (\<lambda>t.
        Inr (r\<lparr>r_url := (r_url r)\<lparr>u_path := u_path (r_url r) @ [Some t]\<rparr>, r_state := S_END\<rparr>)))"

definition url_step :: "(nat \<Rightarrow> bool) \<Rightarrow> string \<Rightarrow> url_run \<Rightarrow> url_run option res" where
  "url_step mem url r =
     bind_res (url_char url (r_i r)) (\<lambda>c.
     bind_res
       (case r_state r of
          S_SCHEME \<Rightarrow>
            if c = nul then Inr None
            else if c = CHR '':'' then
              bind_res (piece (mem 0) url (r_spos r) (r_i r)) (\<lambda>t.
              let r1 = r\<lparr>r_url := (r_url r)\<lparr>u_scheme := Some t\<rparr>, r_spos := r_i r + 1\<rparr> in
              Inr (if strcasecmp t ''katcp'' = 0 then Some (r1\<lparr>r_state := S_HOST\<rparr>)
                   else if strcasecmp t ''exec'' = 0 then Some (r1\<lparr>r_state := S_CMD\<rparr>)
                   else if strcasecmp t ''xport'' = 0 then Some (r1\<lparr>r_state := S_HOST\<rparr>)
                   else None))
            else Inr (Some r)
        | S_CMD \<Rightarrow>
            if c = CHR ''/'' then
              Inr (Some (r\<lparr>r_j := r_j r + 1, r_spos := (if r_j r + 1 < 3 then r_i r + 1 else r_spos r)\<rparr>))
            else if c = CHR ''#'' \<or> ends_line c then
              bind_res (piece (mem 0) url (r_spos r) (r_i r)) (\<lambda>t.
              Inr (Some (r\<lparr>r_url := (r_url r)\<lparr>u_cmd := Some t\<rparr>,
                           r_state := (if r_i r + 1 < length url then S_HASH else S_END), r_spos := r_i r + 1\<rparr>)))
            else Inr (Some r)
        | S_HASH \<Rightarrow>
            if ends_line c then bind_res (url_path_end mem url r) (\<lambda>r1. Inr (Some r1)) else Inr (Some r)
        | S_HOST \<Rightarrow>
            if c = nul then Inr None
            else if c = CHR ''/'' then Inr (Some (r\<lparr>r_spos := r_i r + 1\<rparr>))
            else if c = CHR '':'' then
              bind_res (piece (mem 0) url (r_spos r) (r_i r)) (\<lambda>t.
              Inr (Some (r\<lparr>r_url := (r_url r)\<lparr>u_host := Some t\<rparr>, r_state := S_PORT, r_spos := r_i r + 1\<rparr>)))
            else Inr (Some r)
        | S_PORT \<Rightarrow>
            if c = CHR '':'' then Inr (Some (r\<lparr>r_spos := r_i r + 1\<rparr>))
            else if c = CHR ''/'' \<or> ends_line c then
              bind_res (piece (mem 0) url (r_spos r) (r_i r)) (\<lambda>t.
              Inr (Some (r\<lparr>r_url := (r_url r)\<lparr>u_port := atoi t\<rparr>,
                           r_state := (if c = CHR ''/'' then S_PATH else S_END), r_spos := r_i r + 1\<rparr>)))
            else Inr (Some r)
        | S_PATH \<Rightarrow>
            if ends_line c then bind_res (url_path_end mem url r) (\<lambda>r1. Inr (Some r1)) else Inr (Some r)
        | S_END \<Rightarrow> Inr (Some r))
       (\<lambda>x. Inr (map_option (\<lambda>r1. r1\<lparr>r_i := r_i r + 1\<rparr>) x)))"

lemma url_step_moves: "url_step mem url r = Inr (Some r') \<Longrightarrow> r_i r' = r_i r + 1 \<and> r_i r \<le> length url"
  by (auto simp: url_step_def url_char_def bind_res_Inr_iff split: if_splits)

function url_loop :: "(nat \<Rightarrow> bool) \<Rightarrow> string \<Rightarrow> url_run \<Rightarrow> url_run option res" where
  "url_loop mem url r =
     (if r_state r = S_END then Inr (Some r)
      else case url_step (\<lambda>k. mem (2 * r_i r + k)) url r of
             Inl f \<Rightarrow> Inl f
           | Inr None \<Rightarrow> Inr None
           | Inr (Some r1) \<Rightarrow> url_loop mem url r1)"
  by pat_completeness auto
termination
  by (relation "measure (\<lambda>(mem, url, r). length url + 1 - r_i r)") (auto dest!: url_step_moves)

declare url_loop.simps [simp del]

definition create_kurl_from_string_katcp :: "(nat \<Rightarrow> bool) \<Rightarrow> string option \<Rightarrow> kurl option res" where
  "create_kurl_from_string_katcp mem url =
     (case url of
        None \<Rightarrow> Inr None
      | Some t \<Rightarrow>
        (case allocate_kurl_katcp (mem 0) of
           None \<Rightarrow> Inr None
         | Some k \<Rightarrow>
           if \<not> mem 1 then Inr None
           else bind_res (url_loop (\<lambda>i. mem (i + 2)) t
                  \<lparr>r_state = S_SCHEME, r_i = 0, r_j = 0, r_spos = 0, r_url = k\<lparr>u_str := Some t\<rparr>\<rparr>)
                  (\<lambda>r. Inr (map_option r_url r))))"

section \<open>Matching\<close>

fun prefix_match_kurl_katcp :: "string \<Rightarrow> string \<Rightarrow> nat \<Rightarrow> int" where
  "prefix_match_kurl_katcp target [] i = int i"
| "prefix_match_kurl_katcp [] (p # ps) i = -1"
| "prefix_match_kurl_katcp (t # ts) (p # ps) i = (if p \<noteq> t then -1 else prefix_match_kurl_katcp ts ps (i + 1))"

definition KURL_BUFFER :: nat where "KURL_BUFFER = 8"

definition containing_kurl_katcp :: "kurl \<Rightarrow> string option \<Rightarrow> int" where
  "containing_kurl_katcp ku string =
     (case string of
        None \<Rightarrow> 0
      | Some t \<Rightarrow>
        (case u_host ku of
           Some host \<Rightarrow>
             if strncmp 8 t ''katcp://'' \<noteq> 0 then 0
             else
               let len = prefix_match_kurl_katcp (drop 8 t) host 0; offset = 8 + nat len in
               if len < 0 then 0
               else if \<not> (offset < length t \<and> t ! offset = CHR '':'') then 0
               else
                 let len1 = prefix_match_kurl_katcp (drop (offset + 1) t) (take (KURL_BUFFER - 1) (dec_of_int (u_port ku))) 0 in
                 if len1 < 0 then 0 else int (offset + 1) + len1
         | None \<Rightarrow>
           (case u_cmd ku of
              Some cmd \<Rightarrow>
                if strncmp 7 t ''exec://'' \<noteq> 0 then 0
                else
                  let len = prefix_match_kurl_katcp (drop 7 t) cmd 0 in
                  if len < 0 then 0 else 7 + len
            | None \<Rightarrow> 0)))"

section \<open>The reader stays inside its string\<close>

text \<open>In every state but the last one, the terminator ends the machine or gives up.\<close>

definition run_ok :: "string \<Rightarrow> url_run \<Rightarrow> bool" where
  "run_ok url r \<longleftrightarrow> r_state r = S_END \<or> r_i r \<le> length url"

lemma url_step_safe:
  assumes "nul \<notin> set url" "\<forall>i. mem i" "r_i r \<le> length url" "r_state r \<noteq> S_END"
  shows "case url_step mem url r of Inl f \<Rightarrow> False | Inr None \<Rightarrow> True | Inr (Some r') \<Rightarrow> run_ok url r'"
proof (cases "r_i r = length url")
  case True
  then show ?thesis using assms
    by (cases "r_state r") (simp_all add: url_step_def url_char_def piece_def url_path_end_def ends_line_def run_ok_def)
next
  case False
  then have "r_i r < length url" using assms(3) by simp
  then show ?thesis using assms
    by (cases "r_state r")
       (auto simp: url_step_def url_char_def piece_def url_path_end_def ends_line_def run_ok_def Let_def split: if_splits)
qed

lemma url_loop_safe:
  assumes "nul \<notin> set url" "\<forall>i. mem i" "run_ok url r"
  shows "case url_loop mem url r of Inl f \<Rightarrow> False | Inr None \<Rightarrow> True | Inr (Some r') \<Rightarrow> r_state r' = S_END"
  using assms
proof (induction mem url r rule: url_loop.induct)
  case (1 mem url r)
  show ?case
  proof (cases "r_state r = S_END")
    case True
    then show ?thesis by (simp add: url_loop.simps)
  next
    case False
    then have i: "r_i r \<le> length url" using 1(4) by (simp add: run_ok_def)
    let ?m = "\<lambda>k. mem (2 * r_i r + k)"
    have "\<forall>k. ?m k" using 1(3) by simp
    note s = url_step_safe [OF 1(2) this i False]
    show ?thesis
    proof (cases "url_step ?m url r")
      case (Inl f)
      then show ?thesis using s by simp
    next
      case (Inr x)
      show ?thesis
      proof (cases x)
        case None
        then show ?thesis using Inr False by (subst url_loop.simps) simp
      next
        case (Some r1)
        then have "run_ok url r1" using s Inr by simp
        then show ?thesis using 1(1) [OF False Inr Some 1(2,3)] False Inr Some by (subst url_loop.simps) simp
      qed
    qed
  qed
qed

section \<open>Reading back what was written\<close>

text \<open>Characters that leave a state as it is.\<close>

definition plain :: "url_state \<Rightarrow> char \<Rightarrow> bool" where
  "plain st c \<longleftrightarrow>
     (case st of
        S_SCHEME \<Rightarrow> c \<noteq> nul \<and> c \<noteq> CHR '':''
      | S_CMD \<Rightarrow> c \<noteq> CHR ''/'' \<and> c \<noteq> CHR ''#'' \<and> \<not> ends_line c
      | S_HASH \<Rightarrow> \<not> ends_line c
      | S_HOST \<Rightarrow> c \<noteq> nul \<and> c \<noteq> CHR ''/'' \<and> c \<noteq> CHR '':''
      | S_PORT \<Rightarrow> c \<noteq> CHR '':'' \<and> c \<noteq> CHR ''/'' \<and> \<not> ends_line c
      | S_PATH \<Rightarrow> \<not> ends_line c
      | S_END \<Rightarrow> False)"

lemma url_step_plain:
  assumes "r_i r < length url" "plain (r_state r) (url ! r_i r)"
  shows "url_step mem url r = Inr (Some (r\<lparr>r_i := r_i r + 1\<rparr>))"
  using assms by (cases "r_state r") (auto simp: url_step_def url_char_def plain_def)

lemma url_loop_step:
  assumes "url_step (\<lambda>k. mem (2 * r_i r + k)) url r = Inr (Some r1)" "r_state r \<noteq> S_END"
  shows "url_loop mem url r = url_loop mem url r1"
  using assms by (subst url_loop.simps) simp

lemma url_skip:
  assumes "url = pre @ xs @ post" "r_i r = length pre" "\<forall>c \<in> set xs. plain (r_state r) c"
  shows "url_loop mem url r = url_loop mem url (r\<lparr>r_i := length pre + length xs\<rparr>)"
  using assms
proof (induction xs arbitrary: pre r)
  case Nil
  then have "r\<lparr>r_i := length pre\<rparr> = r" by simp
  then show ?case by simp
next
  case (Cons x xs)
  let ?r = "r\<lparr>r_i := r_i r + 1\<rparr>"
  have "plain (r_state r) (url ! r_i r)" using Cons.prems by (simp add: nth_append)
  then have "url_loop mem url r = url_loop mem url ?r"
    using Cons.prems by (intro url_loop_step url_step_plain) (auto simp: plain_def)
  also have "\<dots> = url_loop mem url (?r\<lparr>r_i := length (pre @ [x]) + length xs\<rparr>)"
    by (rule Cons.IH) (use Cons.prems in simp_all)
  finally show ?case by simp
qed

text \<open>Behind the second slash, a command may hold more of them.\<close>

lemma url_skip_command:
  assumes "url = pre @ xs @ post" "r_i r = length pre" "r_state r = S_CMD" "2 \<le> r_j r"
    "\<forall>c \<in> set xs. c \<noteq> CHR ''#'' \<and> \<not> ends_line c"
  shows "\<exists>j. url_loop mem url r = url_loop mem url (r\<lparr>r_i := length pre + length xs, r_j := j\<rparr>)"
  using assms
proof (induction xs arbitrary: pre r)
  case Nil
  then have "r\<lparr>r_i := length pre, r_j := r_j r\<rparr> = r" by simp
  then show ?case by (metis add.right_neutral list.size(3))
next
  case (Cons x xs)
  let ?r = "r\<lparr>r_i := r_i r + 1, r_j := (if x = CHR ''/'' then r_j r + 1 else r_j r)\<rparr>"
  have "url ! r_i r = x" "r_i r < length url" using Cons.prems by (simp_all add: nth_append)
  then have "url_step (\<lambda>k. mem (2 * r_i r + k)) url r = Inr (Some ?r)"
    using Cons.prems by (simp add: url_step_def url_char_def)
  then have "url_loop mem url r = url_loop mem url ?r" using Cons.prems by (intro url_loop_step) simp_all
  moreover have "\<exists>j. url_loop mem url ?r = url_loop mem url (?r\<lparr>r_i := length (pre @ [x]) + length xs, r_j := j\<rparr>)"
    by (rule Cons.IH) (use Cons.prems in simp_all)
  then obtain j where "url_loop mem url ?r = url_loop mem url (?r\<lparr>r_i := length (pre @ [x]) + length xs, r_j := j\<rparr>)" ..
  ultimately show ?case by (intro exI [of _ j]) simp
qed

lemma url_char_app: "url = pre @ c # post \<Longrightarrow> i = length pre \<Longrightarrow> url_char url i = Inr c"
  by (simp add: url_char_def)

lemma piece_app: "url = pre @ xs @ post \<Longrightarrow> spos = length pre \<Longrightarrow> i = length pre + length xs \<Longrightarrow> piece True url spos i = Inr xs"
  by (simp add: piece_def)

lemma decimal_plain: "\<forall>c \<in> set (dec_of_nat n). plain S_PORT c"
proof
  fix c assume "c \<in> set (dec_of_nat n)"
  then have "is_digit 10 c" using dec_of_nat_digits by blast
  from digit10_range [OF this] show "plain S_PORT c" by (auto simp: plain_def ends_line_def)
qed

lemma atoi_decimal:
  assumes "n < 2 ^ 31"
  shows "atoi (dec_of_nat n) = int n"
proof -
  have "fst (strtol 10 (dec_of_nat n)) = int n"
    using scan_decimal [of "dec_of_nat n" "[]"] dec_of_nat_digits [of n] assms by (simp add: strtol_def)
  then have "atoi (dec_of_nat n) = signed_take_bit 31 (int n)"
    using sint_sbintrunc' [of "int n", where 'a = 32] by (simp add: atoi_def)
  also have "\<dots> = int n" using assms by (intro signed_take_bit_int_eq_self) simp_all
  finally show ?thesis .
qed

definition server_scheme :: "string \<Rightarrow> bool" where
  "server_scheme s \<longleftrightarrow> strcasecmp s ''katcp'' = 0 \<or> strcasecmp s ''xport'' = 0"

lemma server_scheme_chars:
  assumes "server_scheme s"
  shows "\<forall>c \<in> set s. plain S_SCHEME c" "strcasecmp s ''exec'' \<noteq> 0"
proof -
  have m: "map c_tolower s = ''katcp'' \<or> map c_tolower s = ''xport''"
    using assms by (simp add: server_scheme_def strcasecmp_def strcmp_eq_iff c_tolower_def)
  then have "set (map c_tolower s) \<subseteq> set ''katcpxor''" by (elim disjE) simp_all
  then have "c_tolower c \<in> set ''katcpxor''" if "c \<in> set s" for c using that by auto
  moreover have "c_tolower nul = nul" "c_tolower (CHR '':'') = CHR '':''" by (simp_all add: c_tolower_def)
  ultimately show "\<forall>c \<in> set s. plain S_SCHEME c" unfolding plain_def by force
  show "strcasecmp s ''exec'' \<noteq> 0" using m by (auto simp: strcasecmp_def strcmp_eq_iff c_tolower_def)
qed


lemma url_at:
  assumes "url_char url (r_i r) = Inr c" "r_state r \<noteq> S_END"
    "\<And>m. (\<forall>k. m k) \<Longrightarrow> url_step m url r = Inr (Some r1)" "\<forall>i. mem i"
  shows "url_loop mem url r = url_loop mem url r1"
  by (rule url_loop_step) (use assms in simp_all)

text \<open>The last part of an address runs up to the end of the string.\<close>

lemma url_path_rest:
  assumes "url = pre @ path" "r_i r = length pre" "r_spos r = length pre" "r_state r \<in> {S_PATH, S_HASH}"
    "\<forall>c \<in> set path. \<not> ends_line c" "\<forall>i. mem i"
  shows "\<exists>r'. url_loop mem url r = Inr (Some r') \<and>
    r_url r' = (r_url r)\<lparr>u_path := u_path (r_url r) @ [Some path]\<rparr>"
proof -
  let ?r = "r\<lparr>r_i := length pre + length path\<rparr>"
  let ?u = "(r_url r)\<lparr>u_path := u_path (r_url r) @ [Some path]\<rparr>"
  let ?r' = "?r\<lparr>r_url := ?u, r_state := S_END, r_i := length url + 1\<rparr>"
  have 1: "url_loop mem url r = url_loop mem url ?r"
    using assms(1,2,4,5) by (intro url_skip [where post = "[]"]) (auto simp: plain_def)
  have "url_step (\<lambda>k. mem (2 * r_i ?r + k)) url ?r = Inr (Some ?r')"
    using assms by (cases "r_state r") (simp_all add: url_step_def url_char_def url_path_end_def piece_def ends_line_def)
  then have "url_loop mem url ?r = url_loop mem url ?r'" by (rule url_loop_step) (use assms(4) in auto)
  also have "\<dots> = Inr (Some ?r')" by (subst url_loop.simps) simp
  finally show ?thesis using 1 by (intro exI [of _ ?r']) simp
qed

definition server_url :: "string \<Rightarrow> string \<Rightarrow> nat \<Rightarrow> string" where
  "server_url scheme host port = scheme @ ''://'' @ host @ '':'' @ dec_of_nat port @ ''/''"

lemma read_server_url:
  assumes "server_scheme scheme" "\<forall>c \<in> set host. c \<notin> {nul, CHR ''/'', CHR '':''}" "port < 2 ^ 31"
    "\<forall>c \<in> set path. \<not> ends_line c" "\<forall>i. mem i"
  shows "create_kurl_from_string_katcp mem (Some (server_url scheme host port @ path)) =
    Inr (Some \<lparr>u_use = 0, u_str = Some (server_url scheme host port @ path), u_scheme = Some scheme,
               u_host = Some host, u_port = int port, u_path = [Some path], u_cmd = None\<rparr>)"
proof -
  let ?m = "\<lambda>i. mem (i + 2)" and ?port = "dec_of_nat port" and ?a = "length scheme"
  define url where "url = server_url scheme host port @ path"
  define k where "k = \<lparr>u_use = 0, u_str = Some url, u_scheme = None, u_host = None, u_port = 0, u_path = [], u_cmd = None\<rparr>"
  let ?pre2 = "scheme @ ''://''" let ?pre4 = "?pre2 @ host @ '':''" let ?pre6 = "?pre4 @ ?port @ ''/''"
  have u: "url = scheme @ CHR '':'' # ''//'' @ host @ CHR '':'' # ?port @ CHR ''/'' # path"
    "url = ?pre2 @ host @ CHR '':'' # ?port @ CHR ''/'' # path" "url = ?pre4 @ ?port @ CHR ''/'' # path" "url = ?pre6 @ path"
    by (simp_all add: url_def server_url_def)
  have c: "url_char url ?a = Inr (CHR '':'')" "url_char url (?a + 1) = Inr (CHR ''/'')" "url_char url (?a + 2) = Inr (CHR ''/'')"
    "url_char url (length ?pre2 + length host) = Inr (CHR '':'')" "url_char url (length ?pre4 + length ?port) = Inr (CHR ''/'')"
    by (simp_all add: u(1) url_char_def nth_append)
  have p: "piece True url 0 ?a = Inr scheme" "piece True url (length ?pre2) (length ?pre2 + length host) = Inr host"
    "piece True url (length ?pre4) (length ?pre4 + length ?port) = Inr ?port"
    using piece_app [of url "[]" scheme] piece_app [OF u(2)] piece_app [OF u(3)] u(1) by simp_all
  have m: "?m i" for i using assms(5) by simp
  note sc = server_scheme_chars [OF assms(1)]
  define r0 where "r0 = \<lparr>r_state = S_SCHEME, r_i = 0, r_j = 0, r_spos = 0, r_url = k\<rparr>"
  define r1 where "r1 = r0\<lparr>r_i := ?a\<rparr>"
  define x1 where "x1 = r1\<lparr>r_state := S_HOST, r_i := ?a + 1, r_spos := ?a + 1, r_url := k\<lparr>u_scheme := Some scheme\<rparr>\<rparr>"
  define x2 where "x2 = x1\<lparr>r_i := ?a + 2, r_spos := ?a + 2\<rparr>"
  define r2 where "r2 = x1\<lparr>r_i := length ?pre2, r_spos := length ?pre2\<rparr>"
  define r3 where "r3 = r2\<lparr>r_i := length ?pre2 + length host\<rparr>"
  define r4 where "r4 = r3\<lparr>r_state := S_PORT, r_i := length ?pre4, r_spos := length ?pre4,
    r_url := k\<lparr>u_scheme := Some scheme, u_host := Some host\<rparr>\<rparr>"
  define r5 where "r5 = r4\<lparr>r_i := length ?pre4 + length ?port\<rparr>"
  define r6 where "r6 = r5\<lparr>r_state := S_PATH, r_i := length ?pre6, r_spos := length ?pre6,
    r_url := k\<lparr>u_scheme := Some scheme, u_host := Some host, u_port := int port\<rparr>\<rparr>"
  have "url_loop ?m url r0 = url_loop ?m url (r0\<lparr>r_i := length ([] :: string) + ?a\<rparr>)"
    by (rule url_skip [where pre = "[]" and xs = scheme]) (use sc(1) u(1) in \<open>simp_all add: r0_def\<close>)
  also have "\<dots> = url_loop ?m url r1" by (simp add: r1_def)
  also have "\<dots> = url_loop ?m url x1"
    by (rule url_loop_step)
      (use m c(1) p(1) assms(1) sc(2) in \<open>auto simp: url_step_def r1_def r0_def x1_def server_scheme_def Let_def\<close>)
  also have "\<dots> = url_loop ?m url x2"
    by (rule url_loop_step) (use c(2) in \<open>simp_all add: url_step_def x1_def x2_def\<close>)
  also have "\<dots> = url_loop ?m url r2"
    by (rule url_loop_step) (use c(3) in \<open>simp_all add: url_step_def x1_def x2_def r2_def\<close>)
  also have "\<dots> = url_loop ?m url (r2\<lparr>r_i := length ?pre2 + length host\<rparr>)"
    by (rule url_skip [OF u(2)]) (use assms(2) in \<open>simp_all add: x1_def r2_def plain_def\<close>)
  also have "\<dots> = url_loop ?m url r3" by (simp only: r3_def)
  also have "\<dots> = url_loop ?m url r4"
    by (rule url_loop_step)
      (use m c(4) p(2) in \<open>simp_all add: url_step_def r1_def r0_def x1_def r2_def r3_def r4_def\<close>)
  also have "\<dots> = url_loop ?m url (r4\<lparr>r_i := length ?pre4 + length ?port\<rparr>)"
    by (rule url_skip [OF u(3)]) (use decimal_plain in \<open>simp_all add: r4_def\<close>)
  also have "\<dots> = url_loop ?m url r5" by (simp only: r5_def)
  also have "\<dots> = url_loop ?m url r6"
    by (rule url_loop_step)
      (use m c(5) p(3) atoi_decimal [OF assms(3)] in \<open>simp_all add: url_step_def r4_def r5_def r6_def ends_line_def\<close>)
  finally have s: "url_loop ?m url r0 = url_loop ?m url r6" .
  obtain r' where r': "url_loop ?m url r6 = Inr (Some r')" "r_url r' = (r_url r6)\<lparr>u_path := u_path (r_url r6) @ [Some path]\<rparr>"
    using url_path_rest [OF u(4), of r6 ?m] assms(4) m by (auto simp: r6_def)
  have "create_kurl_from_string_katcp mem (Some url) = Inr (map_option r_url (Some r'))"
    using assms(5) s r'(1)
    by (simp add: create_kurl_from_string_katcp_def allocate_kurl_katcp_def r0_def k_def)
  then show ?thesis unfolding url_def [symmetric] using r'(2) by (simp add: r6_def k_def)
qed

text \<open>The address of a program, with or without a name behind it.\<close>

lemma read_exec_url:
  assumes "\<forall>c \<in> set cmd. c \<noteq> CHR ''#'' \<and> \<not> ends_line c" "\<forall>c \<in> set path. \<not> ends_line c" "\<forall>i. mem i"
    "rest = (if path = [] then [] else CHR ''#'' # path)"
  shows "create_kurl_from_string_katcp mem (Some (''exec://'' @ cmd @ rest)) =
    Inr (Some \<lparr>u_use = 0, u_str = Some (''exec://'' @ cmd @ rest), u_scheme = Some ''exec'', u_host = None,
               u_port = 0, u_path = (if path = [] then [] else [Some path]), u_cmd = Some cmd\<rparr>)"
proof -
  let ?m = "\<lambda>i. mem (i + 2)" and ?pre = "''exec://''" and ?n = "7 + length cmd"
  define url where "url = ''exec://'' @ cmd @ rest"
  define k where "k = \<lparr>u_use = 0, u_str = Some url, u_scheme = None, u_host = None, u_port = 0, u_path = [], u_cmd = None\<rparr>"
  have m: "?m i" for i using assms(3) by simp
  have u: "url = [] @ ''exec'' @ ''://'' @ cmd @ rest" "url = ?pre @ cmd @ rest" by (simp_all add: url_def)
  have c: "url_char url 4 = Inr (CHR '':'')" "url_char url 5 = Inr (CHR ''/'')" "url_char url 6 = Inr (CHR ''/'')"
    by (simp_all add: u(1) url_char_def nth_append eval_nat_numeral)
  have p: "piece True url 0 4 = Inr ''exec''" "piece True url 7 ?n = Inr cmd"
    using piece_app [OF u(1), of 0 4] piece_app [OF u(2), of 7 ?n] by simp_all
  have last: "url_char url ?n = Inr (if path = [] then nul else CHR ''#'')"
    using assms(4) by (simp add: u(2) url_char_def nth_append)
  have more: "(?n + 1 < length url) = (path \<noteq> [])" using assms(4) by (simp add: u(2))
  define r0 where "r0 = \<lparr>r_state = S_SCHEME, r_i = 0, r_j = 0, r_spos = 0, r_url = k\<rparr>"
  define x1 where "x1 = r0\<lparr>r_state := S_CMD, r_i := 5, r_spos := 5, r_url := k\<lparr>u_scheme := Some ''exec''\<rparr>\<rparr>"
  define x2 where "x2 = x1\<lparr>r_i := 6, r_spos := 6, r_j := 1\<rparr>"
  define r2 where "r2 = x1\<lparr>r_i := 7, r_spos := 7, r_j := 2\<rparr>"
  have "url_loop ?m url r0 = url_loop ?m url (r0\<lparr>r_i := length ([] :: string) + length ''exec''\<rparr>)"
    by (rule url_skip [OF u(1)]) (simp_all add: r0_def plain_def)
  also have "\<dots> = url_loop ?m url (r0\<lparr>r_i := 4\<rparr>)" by (simp add: eval_nat_numeral)
  also have "\<dots> = url_loop ?m url x1"
    by (rule url_loop_step)
      (use assms(3) c(1) p(1) in \<open>simp_all add: url_step_def r0_def x1_def strcasecmp_def c_tolower_def Let_def\<close>)
  also have "\<dots> = url_loop ?m url x2"
    by (rule url_loop_step) (use c(2) in \<open>simp_all add: url_step_def x1_def x2_def r0_def\<close>)
  also have "\<dots> = url_loop ?m url r2"
    by (rule url_loop_step) (use c(3) in \<open>simp_all add: url_step_def x1_def x2_def r2_def\<close>)
  finally have s: "url_loop ?m url r0 = url_loop ?m url r2" .
  have n: "length ?pre + length cmd = ?n" by simp
  have at: "r_i r2 = length ?pre" "r_state r2 = S_CMD" "2 \<le> r_j r2" by (simp_all add: r2_def x1_def)
  obtain j where j: "url_loop ?m url r2 = url_loop ?m url (r2\<lparr>r_i := ?n, r_j := j\<rparr>)"
    using url_skip_command [OF u(2) at assms(1), of ?m] unfolding n by blast
  let ?r3 = "r2\<lparr>r_i := ?n, r_j := j\<rparr>"
  let ?r4 = "?r3\<lparr>r_url := k\<lparr>u_scheme := Some ''exec'', u_cmd := Some cmd\<rparr>,
    r_state := (if path = [] then S_END else S_HASH), r_spos := ?n + 1, r_i := ?n + 1\<rparr>"
  have e: "url_loop ?m url ?r3 = url_loop ?m url ?r4"
    by (rule url_loop_step)
      (use assms(3) last p(2) more in \<open>auto simp: url_step_def r2_def x1_def ends_line_def\<close>)
  obtain r' where r': "url_loop ?m url ?r4 = Inr (Some r')"
      "r_url r' = k\<lparr>u_scheme := Some ''exec'', u_cmd := Some cmd, u_path := (if path = [] then [] else [Some path])\<rparr>"
  proof (cases "path = []")
    case True
    then show thesis using that [of ?r4] by (simp add: url_loop.simps k_def)
  next
    case False
    then have "url = (?pre @ cmd @ ''#'') @ path" using u(2) assms(4) by simp
    from url_path_rest [OF this, of ?r4 ?m] assms(2) m False that show thesis by (auto simp: k_def)
  qed
  have "create_kurl_from_string_katcp mem (Some url) = Inr (map_option r_url (Some r'))"
    using assms(3) s j e r'(1)
    by (simp add: create_kurl_from_string_katcp_def allocate_kurl_katcp_def r0_def k_def)
  then show ?thesis unfolding url_def [symmetric] using r'(2) by (simp add: k_def)
qed

section \<open>Properties\<close>

lemma prefix_match_app: "prefix_match_kurl_katcp (p @ t) p i = int (i + length p)"
  by (induction p arbitrary: i) simp_all

lemma prefix_match_len: "prefix_match_kurl_katcp t p i = (if take (length p) t = p then int (i + length p) else -1)"
  by (induction t p i rule: prefix_match_kurl_katcp.induct) auto

text \<open>C38. An address that the library writes is read back as it was. The address of a server has
  a scheme, in either case of letters, a host without slash and colon, and a port; it is printed
  with a slash behind it, and reading it, with any path appended, gives the same scheme, host and
  port and that path. The address of a program gives the same command again. With its memory
  granted, the reader never takes a byte behind the end of the string it was given.\<close>

theorem address_roundtrip:
  assumes "\<forall>i. mem i" "server_scheme scheme" "\<forall>c \<in> set host. c \<notin> {nul, CHR ''/'', CHR '':''}" "port < 2 ^ 31"
    "\<forall>c \<in> set path. \<not> ends_line c" "\<forall>c \<in> set cmd. c \<noteq> CHR ''#'' \<and> \<not> ends_line c" "nul \<notin> set any"
  shows "\<exists>ku t. create_kurl_katcp mem scheme host (int port) None = Inr (Some ku) \<and> u_str ku = Some t \<and>
      create_kurl_from_string_katcp mem (Some (t @ path)) = Inr (Some (ku\<lparr>u_str := Some (t @ path), u_path := [Some path]\<rparr>)) \<and>
    (\<exists>ex. create_exec_kurl_katcp mem cmd = Inr (Some ex) \<and>
      create_kurl_from_string_katcp mem (u_str ex) = Inr (Some ex)) \<and>
    (\<exists>x. create_kurl_from_string_katcp mem (Some any) = Inr x)"
proof -
  let ?ku = "\<lparr>u_use = 0, u_str = Some (server_url scheme host port), u_scheme = Some scheme, u_host = Some host,
    u_port = int port, u_path = [], u_cmd = None\<rparr>"
  let ?ex = "\<lparr>u_use = 0, u_str = Some (''exec://'' @ cmd), u_scheme = Some ''exec'', u_host = None, u_port = 0,
    u_path = [], u_cmd = Some cmd\<rparr>"
  have 1: "create_kurl_katcp mem scheme host (int port) None = Inr (Some ?ku)"
    using assms(1) by (simp add: create_kurl_katcp_def allocate_kurl_katcp_def copy_kurl_string_katcp_def Let_def
        shown_string_def server_url_def dec_of_int_def)
  have 2: "create_exec_kurl_katcp mem cmd = Inr (Some ?ex)"
    using assms(1) by (simp add: create_exec_kurl_katcp_def allocate_kurl_katcp_def copy_kurl_string_katcp_def Let_def
        deref_string_def)
  have 3: "create_kurl_from_string_katcp mem (u_str ?ex) = Inr (Some ?ex)"
    using read_exec_url [of cmd "[]" mem] assms(1,6) by simp
  let ?r = "\<lparr>r_state = S_SCHEME, r_i = 0, r_j = 0, r_spos = 0,
    r_url = \<lparr>u_use = 0, u_str = Some any, u_scheme = None, u_host = None, u_port = 0, u_path = [], u_cmd = None\<rparr>\<rparr>"
  have "case url_loop (\<lambda>i. mem (i + 2)) any ?r of Inl f \<Rightarrow> False | Inr None \<Rightarrow> True | Inr (Some r') \<Rightarrow> r_state r' = S_END"
    by (rule url_loop_safe [OF assms(7)]) (use assms(1) in \<open>simp_all add: run_ok_def\<close>)
  then have 4: "\<exists>x. create_kurl_from_string_katcp mem (Some any) = Inr x"
    using assms(1) by (cases "url_loop (\<lambda>i. mem (i + 2)) any ?r")
      (simp_all add: create_kurl_from_string_katcp_def allocate_kurl_katcp_def)
  show ?thesis
    by (rule exI [of _ ?ku], rule exI [of _ "server_url scheme host port"])
      (use 1 2 3 4 read_server_url [OF assms(2-5,1)] in auto)
qed

theorem address_roundtrip_witness:
  "\<exists>ku ex. create_kurl_katcp (\<lambda>_. True) ''katcp'' ''host'' (int 7147) None = Inr (Some ku) \<and>
    create_kurl_from_string_katcp (\<lambda>_. True) (Some (the (u_str ku) @ ''a'')) =
      Inr (Some (ku\<lparr>u_str := Some (the (u_str ku) @ ''a''), u_path := [Some ''a'']\<rparr>)) \<and>
    create_exec_kurl_katcp (\<lambda>_. True) ''/bin/ls'' = Inr (Some ex) \<and>
    create_kurl_from_string_katcp (\<lambda>_. True) (u_str ex) = Inr (Some ex)"
proof -
  have "server_scheme ''katcp''" by (simp add: server_scheme_def strcasecmp_def)
  then show ?thesis
    using address_roundtrip [of "\<lambda>_. True" "''katcp''" "''host''" 7147 "''a''" "''/bin/ls''" "[]"]
    by (fastforce simp: ends_line_def)
qed

text \<open>Where matching and copying of addresses go wrong. A name below an address of a server
  is recognised as such. But the port is compared as a prefix, so a server on port 71 also
  claims the names of the one on port 714; the scheme compared with is always \<open>katcp\<close>, so an
  \<open>xport\<close> address does not contain its own string; and the first path of an address is never
  found, as its position is taken for a failure.\<close>

theorem address_oddities:
  assumes "u_host ku = Some host" "u_port ku = int port" "port < 10 ^ 6" "u_cmd ku = None" "u_scheme ku = Some scheme"
  shows "containing_kurl_katcp ku (Some (''katcp://'' @ host @ '':'' @ dec_of_nat port @ rest)) =
      int (9 + length host + length (dec_of_nat port)) \<and>
    (d < 10 \<and> 0 < port \<longrightarrow> 0 < containing_kurl_katcp ku (Some (server_url ''katcp'' host (10 * port + d)))) \<and>
    containing_kurl_katcp ku (Some (''xport://'' @ rest)) = 0 \<and>
    (u_path ku = [Some path] \<longrightarrow> copy_kurl_string_katcp mem ku (Some path) = Inr None)"
proof -
  have len: "length (dec_of_nat port) \<le> 6" using length_dec_of_nat [of port 6] assms(3) by simp
  have dec: "take 7 (dec_of_int (int port)) = dec_of_nat port" using len by (simp add: dec_of_int_def)
  have hit: "containing_kurl_katcp ku (Some (''katcp://'' @ host @ '':'' @ dec_of_nat port @ r)) =
      int (9 + length host + length (dec_of_nat port))" for r
  proof -
    have 1: "prefix_match_kurl_katcp (host @ CHR '':'' # dec_of_nat port @ r) host 0 = int (length host)"
      using prefix_match_app [of host "CHR '':'' # dec_of_nat port @ r" 0] by simp
    have 2: "prefix_match_kurl_katcp (dec_of_nat port @ r) (dec_of_nat port) 0 = int (length (dec_of_nat port))"
      using prefix_match_app [of "dec_of_nat port" r 0] by simp
    have 3: "drop (9 + length host) (''katcp://'' @ host @ CHR '':'' # x) = x" for x by (simp add: eval_nat_numeral)
    show ?thesis
      using assms(1,2) 1 2 3 dec
      by (simp add: containing_kurl_katcp_def strncmp_def strcmp_eq_iff KURL_BUFFER_def nth_append Let_def)
  qed
  have "dec_of_nat (10 * port + d) = dec_of_nat port @ [digit_char d]" if "d < 10" "0 < port"
    using that by (subst dec_of_nat.simps) simp
  then have "server_url ''katcp'' host (10 * port + d) = ''katcp://'' @ host @ '':'' @ dec_of_nat port @ digit_char d # ''/''"
    if "d < 10" "0 < port" using that by (simp add: server_url_def)
  then have "d < 10 \<and> 0 < port \<longrightarrow> 0 < containing_kurl_katcp ku (Some (server_url ''katcp'' host (10 * port + d)))"
    using hit by simp
  moreover have "containing_kurl_katcp ku (Some (''xport://'' @ rest)) = 0"
    using assms(1) by (simp add: containing_kurl_katcp_def strncmp_def strcmp_eq_iff)
  moreover have "u_path ku = [Some path] \<longrightarrow> copy_kurl_string_katcp mem ku (Some path) = Inr None"
    using assms(4) by (simp add: copy_kurl_string_katcp_def deref_string_def)
  ultimately show ?thesis using hit by blast
qed

theorem address_oddities_witness:
  "\<exists>ku. create_kurl_katcp (\<lambda>_. True) ''katcp'' ''h'' (int 71) (Some ''x'') = Inr (Some ku) \<and>
    0 < containing_kurl_katcp ku (Some (server_url ''katcp'' ''h'' (10 * 71 + 4))) \<and>
    copy_kurl_string_katcp (\<lambda>_. True) ku (Some ''x'') = Inr None"
proof -
  let ?ku = "\<lparr>u_use = 0, u_str = Some (server_url ''katcp'' ''h'' 71), u_scheme = Some ''katcp'', u_host = Some ''h'',
    u_port = int 71, u_path = [Some ''x''], u_cmd = None\<rparr>"
  have "create_kurl_katcp (\<lambda>_. True) ''katcp'' ''h'' (int 71) (Some ''x'') = Inr (Some ?ku)"
    by (simp add: create_kurl_katcp_def allocate_kurl_katcp_def copy_kurl_string_katcp_def Let_def
        shown_string_def server_url_def dec_of_int_def)
  then show ?thesis
    using address_oddities [of ?ku "''h''" 71 "''katcp''" "[]" 4 "''x''" "\<lambda>_. True"] by simp
qed

end
