(* ===== verification/Log_Msg.thy ===== *)
theory Log_Msg
  imports Line_Flush
begin

text \<open>
  Log messages (\<open>katcp/log.c\<close>): the names of the levels, the inform \<open>#log\<close> that a server
  sends to its clients, and the reply to the request that a line has ready. A log message is
  built apart from the message that is staged on the line, and queued when it is complete.
\<close>

unbundle bit_operations_syntax

section \<open>Levels\<close>

definition KATCP_LEVEL_TRACE :: int where "KATCP_LEVEL_TRACE = 0"
definition KATCP_LEVEL_OFF :: int where "KATCP_LEVEL_OFF = 6"
definition KATCP_MAX_LEVELS :: nat where "KATCP_MAX_LEVELS = 7"

definition log_levels_vector :: "string list" where
  "log_levels_vector = [''trace'', ''debug'', ''info'', ''warn'', ''error'', ''fatal'', ''off'']"

definition log_levels_upper_vector :: "string list" where
  "log_levels_upper_vector = [''TRACE'', ''DEBUG'', ''INFO'', ''WARN'', ''ERROR'', ''FATAL'', ''OFF'']"

text \<open>The loop over a table, from entry \<open>code\<close> on.\<close>

fun level_loop :: "string \<Rightarrow> nat \<Rightarrow> string list \<Rightarrow> int option" where
  "level_loop name code [] = None"
| "level_loop name code (l # ls) =
     (if strncmp 4 name l = 0 then Some (int code) else level_loop name (code + 1) ls)"

definition log_to_code_katcl :: "string option \<Rightarrow> int" where
  "log_to_code_katcl name =
     (case name of
        None \<Rightarrow> -1
      | Some n \<Rightarrow>
        (case level_loop n 0 log_levels_vector of
           Some code \<Rightarrow> code
         | None \<Rightarrow>
           (case level_loop n 0 log_levels_upper_vector of
              Some code \<Rightarrow> code
            | None \<Rightarrow> if strncmp 4 n ''all'' = 0 then KATCP_LEVEL_TRACE else -1)))"

definition log_to_string_katcl :: "int \<Rightarrow> string option" where
  "log_to_string_katcl code =
     (if code < 0 \<or> code \<ge> int KATCP_MAX_LEVELS then None else Some (log_levels_vector ! nat code))"

section \<open>Building and queuing\<close>

fun vector_loop :: "int list \<Rightarrow> int \<Rightarrow> int" where
  "vector_loop [] acc = acc"
| "vector_loop (r # rs) acc = (if r < 0 then -1 else vector_loop rs (acc + r))"

definition vector_sum :: "int list \<Rightarrow> int" where
  "vector_sum result = vector_loop result 0"

definition KATCP_LOG_INFORM :: string where "KATCP_LOG_INFORM = ''#log''"

text \<open>All five additions are tried, whatever becomes of the ones before. \<open>t\<close> is the text
  that the format and its arguments give; \<open>mem 1\<close> to \<open>mem 18\<close> are for the additions.\<close>

definition vlog_parse_katcl ::
  "(nat \<Rightarrow> bool) \<Rightarrow> bool \<Rightarrow> timeval option \<Rightarrow> int \<Rightarrow> string option \<Rightarrow> string option \<Rightarrow> parse \<Rightarrow> (int \<times> parse) res" where
  "vlog_parse_katcl mem major5 clock level name t px =
     (if level \<ge> KATCP_LEVEL_OFF \<or> level < 0 then Inr (-1, px)
      else case log_to_string_katcl level of
        None \<Rightarrow> Inl Abort
      | Some logstring \<Rightarrow>
        let subsystem = (case name of Some n \<Rightarrow> n | None \<Rightarrow> ''unknown'') in
        bind_res (add_string_parse_katcl (mem 1, mem 2) KATCP_FLAG_FIRST (Some KATCP_LOG_INFORM) px) (\<lambda>(r0, p0).
        bind_res (add_string_parse_katcl (mem 3, mem 4) 0 (Some logstring) p0) (\<lambda>(r1, p1).
        bind_res (add_timestamp_parse_katcl major5 (mem 5, mem 6) clock 0 None p1) (\<lambda>(r2, p2).
        bind_res (add_string_parse_katcl (mem 7, mem 8) 0 (Some subsystem) p2) (\<lambda>(r3, p3).
        bind_res (add_vargs_parse_katcl (mem 9) (\<lambda>i. mem (10 + i)) KATCP_FLAG_LAST t p3) (\<lambda>(r4, p4).
        Inr (vector_sum [r0, r1, r2, r3, r4], p4)))))))"

definition vlog_message_katcl ::
  "(nat \<Rightarrow> bool) \<Rightarrow> bool \<Rightarrow> timeval option \<Rightarrow> line \<Rightarrow> int \<Rightarrow> string option \<Rightarrow> string option \<Rightarrow> store
   \<Rightarrow> (int \<times> line \<times> store) res" where
  "vlog_message_katcl mem major5 clock cl level name t s =
     bind_res (create_referenced_parse_katcl (mem 0) s) (\<lambda>(px, s1).
     case px of
       None \<Rightarrow> Inr (-1, cl, s1)
     | Some a \<Rightarrow>
       bind_res (on_parse a (vlog_parse_katcl mem major5 clock level name t) s1) (\<lambda>(result, s2).
       if result < 0 then bind_res (destroy_parse_katcl (Some a) s2) (\<lambda>s3. Inr (-1, cl, s3))
       else bind_res (append_parse_katcl (mem 19) cl a s2) (\<lambda>(r, cl1, s3).
         if r < 0 then bind_res (destroy_parse_katcl (Some a) s3) (\<lambda>s4. Inr (-1, cl1, s4))
         else bind_res (destroy_parse_katcl (Some a) s3) (\<lambda>s4. Inr (result, cl1, s4)))))"

definition log_message_katcl ::
  "(nat \<Rightarrow> bool) \<Rightarrow> bool \<Rightarrow> timeval option \<Rightarrow> line option \<Rightarrow> int \<Rightarrow> string option \<Rightarrow> string option \<Rightarrow> store
   \<Rightarrow> (int \<times> line option \<times> store) res" where
  "log_message_katcl mem major5 clock cl level name t s =
     (case cl of
        None \<Rightarrow> Inr (-1, None, s)
      | Some l \<Rightarrow>
        bind_res (vlog_message_katcl mem major5 clock l level name t s) (\<lambda>(result, l1, s1).
        Inr (result, Some l1, s1)))"

text \<open>\<open>while((result = write_katcl(cl)) == 0);\<close> with a bound on the calls; \<open>ios k\<close> is the
  kernel during call \<open>k\<close> and \<open>r\<close> the bound on the rounds of each. The bytes sent are
  collected.\<close>

fun sync_loop ::
  "(nat \<Rightarrow> nat \<Rightarrow> nat \<Rightarrow> send_result) \<Rightarrow> nat \<Rightarrow> nat \<Rightarrow> string \<Rightarrow> line \<Rightarrow> store
   \<Rightarrow> (int \<times> string \<times> line \<times> store) option res" where
  "sync_loop ios r 0 sent l s = Inr None"
| "sync_loop ios r (Suc n) sent l s =
     bind_res (write_katcl (ios n) r l s) (\<lambda>o'.
     case o' of
       None \<Rightarrow> Inr None
     | Some (v, w) \<Rightarrow>
         if v = 0 then sync_loop ios r n (sent @ w_sent w) (w_line w) (w_store w)
         else Inr (Some (v, sent @ w_sent w, w_line w, w_store w)))"

definition sync_message_katcl ::
  "(nat \<Rightarrow> nat \<Rightarrow> nat \<Rightarrow> send_result) \<Rightarrow> nat \<Rightarrow> nat \<Rightarrow> (nat \<Rightarrow> bool) \<Rightarrow> bool \<Rightarrow> timeval option \<Rightarrow> line option
   \<Rightarrow> int \<Rightarrow> string option \<Rightarrow> string option \<Rightarrow> store \<Rightarrow> (int \<times> string \<times> line option \<times> store) option res" where
  "sync_message_katcl ios r n mem major5 clock cl level name t s =
     (case cl of
        None \<Rightarrow> Inr (Some (-1, [], None, s))
      | Some l \<Rightarrow>
        bind_res (vlog_message_katcl mem major5 clock l level name t s) (\<lambda>(result, l1, s1).
        if result < 0 then Inr (Some (-1, [], Some l1, s1))
        else bind_res (sync_loop ios r n [] l1 s1) (\<lambda>o'.
          case o' of
            None \<Rightarrow> Inr None
          | Some (v, sent, l2, s2) \<Rightarrow> Inr (Some (if v < 0 then -1 else 0, sent, Some l2, s2)))))"

section \<open>The reply to the request that is ready\<close>

definition KATCP_RESULT_OK :: int where "KATCP_RESULT_OK = 0"

definition vextra_response_katcl ::
  "(nat \<Rightarrow> bool) \<Rightarrow> line \<Rightarrow> int \<Rightarrow> string option option \<Rightarrow> store \<Rightarrow> (int \<times> line \<times> store) res" where
  \<comment> \<open>the format is \<open>None\<close> when it is a null pointer; an empty name has no room for the type\<close>
  "vextra_response_katcl mem cl code fmt s =
     (if code > KATCP_RESULT_OK then Inr (-1, cl, s)
      else bind_res (arg_copy_string_katcl (mem 0) cl 0 s) (\<lambda>name.
      case name of
        None \<Rightarrow> Inr (-1, cl, s)
      | Some n \<Rightarrow>
        if n = [] then Inl OutOfBounds
        else bind_res (code_to_name_katcm code) (\<lambda>status.
        case status of
          None \<Rightarrow> Inr (-1, cl, s)
        | Some st \<Rightarrow>
          bind_res (append_string_katcl (\<lambda>i. mem (1 + i)) cl KATCP_FLAG_FIRST (Some (KATCP_REPLY # tl n)) s)
          (\<lambda>(r0, cl1, s1).
          case fmt of
            None \<Rightarrow>
              bind_res (append_string_katcl (\<lambda>i. mem (5 + i)) cl1 KATCP_FLAG_LAST (Some st) s1) (\<lambda>(r1, cl2, s2).
              Inr (vector_sum [r0, r1], cl2, s2))
          | Some t \<Rightarrow>
              bind_res (append_string_katcl (\<lambda>i. mem (5 + i)) cl1 0 (Some st) s1) (\<lambda>(r1, cl2, s2).
              bind_res (append_vargs_katcl (\<lambda>i. mem (9 + i)) cl2 KATCP_FLAG_LAST t s2) (\<lambda>(r2, cl3, s3).
              Inr (vector_sum [r0, r1, r2], cl3, s3)))))))"

definition extra_response_katcl ::
  "(nat \<Rightarrow> bool) \<Rightarrow> line \<Rightarrow> int \<Rightarrow> string option option \<Rightarrow> store \<Rightarrow> (int \<times> line \<times> store) res" where
  "extra_response_katcl mem cl code fmt s = vextra_response_katcl mem cl code fmt s"


section \<open>The names of the levels\<close>

lemma log_to_string_range: "0 \<le> (code :: int) \<Longrightarrow> code < 7 \<Longrightarrow> code \<in> {0, 1, 2, 3, 4, 5, 6}"
  by auto

lemma level_loop_range:
  "level_loop n k ls = Some c \<Longrightarrow> int k \<le> c \<and> c < int k + int (length ls)"
  by (induction ls arbitrary: k) (force split: if_splits)+

section \<open>An addition that fails\<close>

lemma before_add_state: "before_add_parse_katcl ok fl p = Inr (r, q) \<Longrightarrow> p_state q = PARSE_FAKE"
  by (auto simp: before_add_parse_katcl_def check_array_parse_katcl_def on_current_def bind_res_Inr_iff
      split: if_splits option.splits)

lemma request_space_state: "request_space_parse_katcl ok n p = (b, q) \<Longrightarrow> p_state q = p_state p"
  by (auto simp: request_space_parse_katcl_def Let_def split: if_splits)

lemma blit_state: "blit i t p = Inr q \<Longrightarrow> p_state q = p_state p"
  by (auto simp: blit_def split: if_splits)

lemma after_add_positive: "after_add_parse_katcl n e fl p = Inr (v, q) \<Longrightarrow> 0 \<le> v"
  by (auto simp: after_add_parse_katcl_def bind_res_Inr_iff split: if_splits)

lemmas add_state = before_add_state request_space_state blit_state

lemma add_unsafe_fails:
  "add_unsafe_parse_katcl m fl t p = Inr (v, q) \<Longrightarrow> v < 0 \<Longrightarrow> p_state q = PARSE_FAKE"
  by (auto simp: add_unsafe_parse_katcl_def bind_res_Inr_iff split: if_splits prod.splits
      dest!: add_state dest: after_add_positive)

lemma add_buffer_fails:
  "add_buffer_parse_katcl m fl b n p = Inr (v, q) \<Longrightarrow> v < 0 \<Longrightarrow> p_state q = PARSE_FAKE"
  by (auto simp: add_buffer_parse_katcl_def bind_res_Inr_iff split: if_splits prod.splits
      dest!: add_state dest: after_add_positive)

lemma add_string_fails:
  "add_string_parse_katcl m fl b p = Inr (v, q) \<Longrightarrow> v < 0 \<Longrightarrow> p_state q = PARSE_FAKE"
  by (auto simp: add_string_parse_katcl_def split: option.splits dest: add_buffer_fails)

lemma add_timestamp_fails:
  "add_timestamp_parse_katcl major5 m clock fl tv p = Inr (v, q) \<Longrightarrow> v < 0 \<Longrightarrow> p_state p = PARSE_FAKE \<Longrightarrow>
   p_state q = PARSE_FAKE"
  by (auto simp: add_timestamp_parse_katcl_def split: option.splits dest: add_unsafe_fails)

lemma add_rounds_fails:
  "add_vargs_rounds mem fl t n got p = Inr (v, q) \<Longrightarrow> v < 0 \<Longrightarrow> p_state p = PARSE_FAKE \<Longrightarrow>
   p_state q = PARSE_FAKE"
proof (induction n arbitrary: got p)
  case (Suc n)
  obtain b p1 where r: "request_space_parse_katcl (mem n) got p = (b, p1)" by fastforce
  then have st: "p_state p1 = PARSE_FAKE" using Suc.prems(3) request_space_state by simp
  show ?case
    using Suc.prems(1,2) Suc.IH r st
    by (auto simp: Let_def bind_res_Inr_iff split: if_splits option.splits dest: blit_state after_add_positive)
qed simp

lemma add_vargs_fails:
  "add_vargs_parse_katcl ok mem fl t p = Inr (v, q) \<Longrightarrow> v < 0 \<Longrightarrow> p_state q = PARSE_FAKE"
  by (auto simp: add_vargs_parse_katcl_def bind_res_Inr_iff simp del: add_vargs_rounds.simps split: if_splits
      dest: before_add_state add_rounds_fails)


section \<open>A log message, with and without memory\<close>

definition being_logged :: "bool \<Rightarrow> nat list \<Rightarrow> string list \<Rightarrow> parse \<Rightarrow> bool" where
  "being_logged ok es ts p \<longleftrightarrow> can_add_more p \<and> p_refs p = 1 \<and> (ok \<longrightarrow> parse_args p = ts \<and> parse_escapes p = es)"

definition logged :: "bool \<Rightarrow> nat list \<Rightarrow> string list \<Rightarrow> parse \<Rightarrow> bool" where
  "logged ok es ts p \<longleftrightarrow> parse_inv p \<and> p_refs p = 1 \<and>
     (ok \<longrightarrow> p_state p = PARSE_DONE \<and> parse_args p = ts \<and> parse_escapes p = es)"

lemma log_step:
  assumes "being_logged ok es ts p" "\<not> has_flag fl KATCP_FLAG_FIRST" "\<not> has_flag fl KATCP_FLAG_LAST"
    "add_ok m fl t e p r" "\<And>v q. r = Inr (v, q) \<Longrightarrow> v < 0 \<Longrightarrow> p_state q = PARSE_FAKE"
  shows "\<exists>v q. r = Inr (v, q) \<and> being_logged (ok \<and> 0 \<le> v) (es @ [e]) (ts @ [t]) q \<and> (m \<longrightarrow> 0 \<le> v)"
proof -
  obtain v q where q: "r = Inr (v, q)" "v = int (length t) + 1 \<and> added fl t e p q \<or> \<not> m \<and> v = -1 \<and> untouched p q"
    using assms(4) by (auto simp: add_ok_def split: sum.splits)
  from q(2) have "being_logged (ok \<and> 0 \<le> v) (es @ [e]) (ts @ [t]) q"
  proof (elim disjE conjE)
    assume "v = int (length t) + 1" "added fl t e p q"
    then show ?thesis using assms(1-3) added_more [of fl t e p q] by (simp add: being_logged_def added_def)
  next
    assume "v = -1" "untouched p q"
    then show ?thesis using assms(1) assms(5) [OF q(1)]
      by (simp add: being_logged_def untouched_def can_add_more_def)
  qed
  with q show ?thesis by auto
qed

lemma log_last:
  assumes "being_logged ok es ts p" "add_ok m KATCP_FLAG_LAST t e p r"
  shows "\<exists>v q. r = Inr (v, q) \<and> logged (ok \<and> 0 \<le> v) (es @ [e]) (ts @ [t]) q \<and> (m \<longrightarrow> 0 \<le> v)"
proof -
  obtain v q where q: "r = Inr (v, q)"
      "v = int (length t) + 1 \<and> added KATCP_FLAG_LAST t e p q \<or> \<not> m \<and> v = -1 \<and> untouched p q"
    using assms(2) by (auto simp: add_ok_def split: sum.splits)
  then have "logged (ok \<and> 0 \<le> v) (es @ [e]) (ts @ [t]) q"
    using assms(1) by (auto simp: being_logged_def logged_def added_def untouched_def flag_defs)
  with q show ?thesis by auto
qed

lemma vector_loop_fails: "0 \<le> acc \<Longrightarrow> vector_loop rs acc = -1 \<or> 0 \<le> vector_loop rs acc \<and> (\<forall>r \<in> set rs. 0 \<le> r)"
proof (induction rs arbitrary: acc)
  case (Cons r rs)
  then show ?case using Cons.IH [of "acc + r"] by auto
qed simp

lemma vector_loop_sums: "\<forall>r \<in> set rs. 0 \<le> r \<Longrightarrow> vector_loop rs acc = acc + sum_list rs"
  by (induction rs arbitrary: acc) simp_all

lemma vector_sum_ok: "0 \<le> vector_sum rs \<longleftrightarrow> (\<forall>r \<in> set rs. 0 \<le> r)"
  "vector_sum rs < 0 \<Longrightarrow> vector_sum rs = -1"
  using vector_loop_fails [of 0 rs] vector_loop_sums [of rs 0]
  by (auto simp: vector_sum_def sum_list_nonneg)

definition log_args :: "bool \<Rightarrow> timeval \<Rightarrow> int \<Rightarrow> string option \<Rightarrow> string \<Rightarrow> string list" where
  "log_args major5 tv level name t =
     [KATCP_LOG_INFORM, log_levels_vector ! nat level, take 15 (timestamp_text major5 tv),
      (case name of Some n \<Rightarrow> n | None \<Rightarrow> ''unknown''), t]"

definition log_marks :: "nat list" where "log_marks = [1, 1, 0, 1, 1]"

lemma second_addition_aborts:
  "p_got p = 0 \<Longrightarrow> add_string_parse_katcl m 0 (Some b) p = Inl Abort"
  by (simp add: add_string_parse_katcl_def add_buffer_parse_katcl_def before_add_parse_katcl_def)

lemma log_first:
  assumes "blank p"
  shows "(\<exists>q. add_string_parse_katcl m KATCP_FLAG_FIRST (Some b) p = Inr (int (length b) + 1, q) \<and>
      being_logged True [1] [b] q) \<or>
    \<not> (fst m \<and> snd m) \<and> (\<exists>q. add_string_parse_katcl m KATCP_FLAG_FIRST (Some b) p = Inr (-1, q) \<and> p_got q = 0)"
proof -
  have c: "can_add KATCP_FLAG_FIRST p" "p_got p = 0" "p_refs p = 1"
    using assms by (simp_all add: blank_def can_add_def flag_defs)
  have e: "parse_args p = []" "parse_escapes p = []" using c(2) by (simp_all add: parse_args_def parse_escapes_def)
  show ?thesis
    using add_string_ok [OF c(1), of m "Some b"] c(2,3) e
    by (auto simp: add_ok_def added_def untouched_def being_logged_def can_add_more_def flag_defs split: sum.splits)
qed

lemma vlog_parse_ok:
  assumes "blank p" "0 \<le> level" "level < KATCP_LEVEL_OFF"
    "r = vlog_parse_katcl mem major5 clock level name (Some t) p"
  shows "(\<exists>v q. r = Inr (v, q) \<and> (v = -1 \<or> 0 \<le> v) \<and>
      logged (0 \<le> v) log_marks (log_args major5 (the clock) level name t) q \<and>
      (0 \<le> v \<longrightarrow> clock \<noteq> None) \<and> ((\<forall>i. mem i) \<and> clock \<noteq> None \<longrightarrow> 0 \<le> v)) \<or>
    r = Inl Abort \<and> \<not> (mem 1 \<and> mem 2)"
proof -
  define ls where "ls = log_levels_vector ! nat level"
  define sub where "sub = (case name of Some n \<Rightarrow> n | None \<Rightarrow> ''unknown'')"
  have str: "log_to_string_katcl level = Some ls"
    using assms(2,3) by (simp add: log_to_string_katcl_def ls_def KATCP_LEVEL_OFF_def KATCP_MAX_LEVELS_def)
  define tail where "tail p0 = bind_res (add_string_parse_katcl (mem 3, mem 4) 0 (Some ls) p0) (\<lambda>(r1, p1).
        bind_res (add_timestamp_parse_katcl major5 (mem 5, mem 6) clock 0 None p1) (\<lambda>(r2, p2).
        bind_res (add_string_parse_katcl (mem 7, mem 8) 0 (Some sub) p2) (\<lambda>(r3, p3).
        bind_res (add_vargs_parse_katcl (mem 9) (\<lambda>i. mem (10 + i)) KATCP_FLAG_LAST (Some t) p3) (\<lambda>(r4, p4).
        Inr ([r1, r2, r3, r4], p4 :: parse)))))" for p0
  have r: "r = bind_res (add_string_parse_katcl (mem 1, mem 2) KATCP_FLAG_FIRST (Some KATCP_LOG_INFORM) p)
      (\<lambda>(r0, p0). bind_res (tail p0) (\<lambda>(rs, p4). Inr (vector_sum (r0 # rs), p4)))"
    using assms(2,3) str
    by (simp add: assms(4) vlog_parse_katcl_def tail_def sub_def bind_res_def split: sum.splits)
  from log_first [OF assms(1), of "(mem 1, mem 2)" KATCP_LOG_INFORM] show ?thesis
  proof (elim disjE exE conjE)
    fix p0 assume "\<not> (fst (mem 1, mem 2) \<and> snd (mem 1, mem 2))" "p_got p0 = 0"
      "add_string_parse_katcl (mem 1, mem 2) KATCP_FLAG_FIRST (Some KATCP_LOG_INFORM) p = Inr (-1, p0)"
    then show ?thesis by (simp add: r tail_def second_addition_aborts)
  next
    fix p0 assume p0: "add_string_parse_katcl (mem 1, mem 2) KATCP_FLAG_FIRST (Some KATCP_LOG_INFORM) p =
        Inr (int (length KATCP_LOG_INFORM) + 1, p0)" "being_logged True [1] [KATCP_LOG_INFORM] p0"
    note more = can_add_more [of _ 0]
    have c0: "can_add 0 p0" using p0(2) by (simp add: being_logged_def can_add_more)
    obtain r1 p1 where p1: "add_string_parse_katcl (mem 3, mem 4) 0 (Some ls) p0 = Inr (r1, p1)"
        "being_logged (0 \<le> r1) [1, 1] [KATCP_LOG_INFORM, ls] p1" "mem 3 \<and> mem 4 \<longrightarrow> 0 \<le> r1"
      using log_step [OF p0(2) _ _ add_string_ok [OF c0, of "(mem 3, mem 4)" "Some ls"]] add_string_fails by force
    have c1: "can_add 0 p1" using p1(2) by (simp add: being_logged_def can_add_more)
    obtain r2 p2 where p2: "add_timestamp_parse_katcl major5 (mem 5, mem 6) clock 0 None p1 = Inr (r2, p2)"
        "being_logged (0 \<le> r1 \<and> 0 \<le> r2) [1, 1, 0] [KATCP_LOG_INFORM, ls, take 15 (timestamp_text major5 (the clock))] p2"
        "0 \<le> r2 \<longrightarrow> clock \<noteq> None" "mem 5 \<and> mem 6 \<and> clock \<noteq> None \<longrightarrow> 0 \<le> r2"
    proof (cases clock)
      case None
      then have "add_timestamp_parse_katcl major5 (mem 5, mem 6) clock 0 None p1 = Inr (-1, p1)"
        by (simp add: add_timestamp_parse_katcl_def)
      with None p1(2) that show thesis by (simp add: being_logged_def)
    next
      case (Some tv)
      have "p_state p1 = PARSE_FAKE" using p1(2) by (simp add: being_logged_def can_add_more_def)
      moreover have "add_timestamp_parse_katcl major5 (mem 5, mem 6) clock 0 None p1 =
          add_timestamp_parse_katcl major5 (mem 5, mem 6) clock 0 (Some tv) p1"
        using Some by (simp add: add_timestamp_parse_katcl_def)
      ultimately show thesis
        using log_step [OF p1(2) _ _ add_timestamp_ok [OF c1, of "(mem 5, mem 6)" major5 tv clock]]
          add_timestamp_fails [of major5 "(mem 5, mem 6)" clock 0 "Some tv" p1] that Some by force
    qed
    have c2: "can_add 0 p2" using p2(2) by (simp add: being_logged_def can_add_more)
    obtain r3 p3 where p3: "add_string_parse_katcl (mem 7, mem 8) 0 (Some sub) p2 = Inr (r3, p3)"
        "being_logged ((0 \<le> r1 \<and> 0 \<le> r2) \<and> 0 \<le> r3) [1, 1, 0, 1]
          [KATCP_LOG_INFORM, ls, take 15 (timestamp_text major5 (the clock)), sub] p3" "mem 7 \<and> mem 8 \<longrightarrow> 0 \<le> r3"
      using log_step [OF p2(2) _ _ add_string_ok [OF c2, of "(mem 7, mem 8)" "Some sub"]] add_string_fails by force
    have c3: "can_add KATCP_FLAG_LAST p3" using p3(2) by (simp add: being_logged_def can_add_more flag_defs)
    obtain r4 p4 where p4: "add_vargs_parse_katcl (mem 9) (\<lambda>i. mem (10 + i)) KATCP_FLAG_LAST (Some t) p3 = Inr (r4, p4)"
        "logged (((0 \<le> r1 \<and> 0 \<le> r2) \<and> 0 \<le> r3) \<and> 0 \<le> r4) log_marks (log_args major5 (the clock) level name t) p4"
        "(\<forall>i. mem i) \<longrightarrow> 0 \<le> r4"
      using log_last [OF p3(2) add_vargs_ok [OF c3, of "mem 9" "\<lambda>i. mem (10 + i)" t]]
      by (force simp: log_marks_def log_args_def ls_def sub_def)
    let ?rs = "[int (length KATCP_LOG_INFORM) + 1, r1, r2, r3, r4]"
    let ?v = "vector_sum ?rs"
    have all: "0 \<le> ?v \<longleftrightarrow> 0 \<le> r1 \<and> 0 \<le> r2 \<and> 0 \<le> r3 \<and> 0 \<le> r4" by (simp add: vector_sum_ok(1))
    have neg: "?v = -1 \<or> 0 \<le> ?v" using vector_sum_ok(2) [of ?rs] by linarith
    have "r = Inr (?v, p4)"
      by (simp add: r p0(1) tail_def p1(1) p2(1) p3(1) p4(1) del: One_nat_def)
    moreover have "logged (0 \<le> ?v) log_marks (log_args major5 (the clock) level name t) p4"
      using p4(2) by (simp only: all conj_assoc)
    moreover have "0 \<le> ?v \<longrightarrow> clock \<noteq> None" using p2(3) by (simp only: all) blast
    moreover have "(\<forall>i. mem i) \<and> clock \<noteq> None \<longrightarrow> 0 \<le> ?v"
      using p1(3) p2(4) p3(3) p4(3) by (simp only: all) blast
    ultimately show ?thesis using neg by blast
  qed
qed


section \<open>Queuing a message that was built apart\<close>

text \<open>What becomes of a line when only its queue changes: the messages being read, ready and
  staged stay, and so do those of the rest of the program.\<close>

definition only_queued :: "nat multiset \<Rightarrow> line \<Rightarrow> store \<Rightarrow> line \<Rightarrow> store \<Rightarrow> bool" where
  "only_queued F l s l' s' \<longleftrightarrow>
     line_ok s' l' F \<and> out_ok False l' s' \<and> (\<forall>b \<in># line_refs l + F. st_heap s' b = st_heap s b) \<and>
     l_next l' = l_next l \<and> l_ready l' = l_ready l \<and> l_stage l' = l_stage l"

lemma only_queued_views:
  assumes "only_queued F l s l' s'"
  shows "stage_is s' l' es ts = stage_is s l es ts" "next_view s' l' t u = next_view s l t u"
    "ready_view s' l' = ready_view s l"
proof -
  have k: "st_heap s' b = st_heap s b" if "b \<in># line_refs l + F" for b
    using assms that by (simp add: only_queued_def)
  have h: "l_next l = Some b \<Longrightarrow> st_heap s' b = st_heap s b" "l_ready l = Some b \<Longrightarrow> st_heap s' b = st_heap s b"
    "l_stage l = Some b \<Longrightarrow> st_heap s' b = st_heap s b" for b
    by (rule k, simp add: line_refs_def)+
  have f: "l_next l' = l_next l" "l_ready l' = l_ready l" "l_stage l' = l_stage l"
    using assms by (simp_all add: only_queued_def)
  show "stage_is s' l' es ts = stage_is s l es ts"
    using f(3) h(3) by (cases "l_stage l") (simp_all add: stage_is_def)
  show "next_view s' l' t u = next_view s l t u"
    using f(1) h(1) by (cases "l_next l") (simp_all add: next_view_def)
  show "ready_view s' l' = ready_view s l"
    using f(2) h(2) by (cases "l_ready l") (simp_all add: ready_view_def)
qed

lemma kept_exactly:
  assumes "refs_ok s M" "refs_ok s' N" "same_msgs s s' M" "\<And>b. b \<in># M \<Longrightarrow> count N b = count M b" "b \<in># M"
  shows "st_heap s' b = st_heap s b"
proof -
  obtain p where "st_heap s b = Some p" "p_refs p = int (count M b)"
    using refs_ok_live [OF assms(1,5)] by auto
  then show ?thesis using same_msgs_keep [OF assms(3,5) _ assms(2), of p] assms(4) [OF assms(5)] by simp
qed

lemma add_tail_any:
  assumes "pq_inv q" "refs_ok s M" "a \<in># M" "st_heap s a = Some p" "p_state p = PARSE_DONE"
  shows "(\<exists>q' s'. add_tail_queue_katcl ok q (Some a) s = Inr (0, q', s') \<and> pq_inv q' \<and>
      pq_items q' = pq_items q @ [a] \<and> refs_ok s' (add_mset a M) \<and> same_msgs s s' M) \<or>
    \<not> ok \<and> add_tail_queue_katcl ok q (Some a) s = Inr (-1, q, s)"
proof (cases "ok \<or> q_count q < q_size q")
  case True
  obtain q1 where q1: "make_room ok q = Inr (True, q1)" "pq_inv (put_tail (Some a) q1)"
      "pq_items (put_tail (Some a) q1) = pq_items q @ [a]"
    using tail_refines [OF assms(1) True, of a] by auto
  let ?s = "st_put a (p\<lparr>p_refs := p_refs p + 1\<rparr>) s"
  have c: "copy_parse_katcl (Some a) s = Inr (Some a, ?s)" "refs_ok ?s (add_mset a M)"
    using copy_ok [OF assms(2,3)] assms(4,5) by auto
  have "same_msgs s ?s M"
    using same_msgs_refl [OF assms(2)] assms(4) unfolding same_msgs_def st_put_def by auto
  then show ?thesis using q1 c by (auto simp: add_tail_queue_katcl_def)
next
  case False
  then show ?thesis using make_room_fails [OF assms(1) False] by (simp add: add_tail_queue_katcl_def)
qed

lemma discard_built:
  assumes ok: "line_ok s l F" and out: "out_ok False l s"
    and built: "refs_ok s2 (add_mset a (line_refs l + F))" "same_msgs s s2 (line_refs l + F)"
  shows "\<exists>s4. destroy_parse_katcl (Some a) s2 = Inr s4 \<and> only_queued F l s l s4 \<and> line_wire l s4 = line_wire l s"
proof -
  let ?M = "line_refs l + F"
  obtain s4 where d: "destroy_parse_katcl (Some a) s2 = Inr s4" "refs_ok s4 ?M" "same_msgs s2 s4 ?M"
    using destroy_ok [OF built(1)] destroy_same [OF built(1)] by blast
  have refs: "refs_ok s ?M" "pq_inv (l_queue l)" using ok by (simp_all add: line_ok_def)
  have sub: "opt_refs (l_next l) \<subseteq># ?M" "set (pq_items (l_queue l)) \<subseteq> set_mset ?M" by (auto simp: line_refs_def)
  have same: "same_msgs s s4 ?M" using built(2) d(3) by (rule same_msgs_trans)
  have "line_ok s4 l F"
    by (rule line_ok_change [OF ok d(2) same sub(1)]) (use refs(2) next_not_other [OF ok] in auto)
  moreover have "out_ok False l s4 \<and> line_wire l s4 = line_wire l s"
    by (rule output_same [OF out same sub(2)]) (simp_all add: same_output_def)
  moreover have "st_heap s4 b = st_heap s b" if mem: "b \<in># ?M" for b
    using mem by (intro kept_exactly [OF refs(1) d(2) same]) auto
  ultimately show ?thesis using d(1) by (auto simp: only_queued_def)
qed

lemma queue_built:
  assumes ok: "line_ok s l F" and out: "out_ok False l s"
    and built: "refs_ok s2 (add_mset a (line_refs l + F))" "same_msgs s s2 (line_refs l + F)" "a \<notin># line_refs l + F"
    and q: "st_heap s2 a = Some q" "sendable q"
  shows "\<exists>r l' s3 s4. append_parse_katcl mem l a s2 = Inr (r, l', s3) \<and> destroy_parse_katcl (Some a) s3 = Inr s4 \<and>
    only_queued F l s l' s4 \<and>
    (r = 0 \<and> line_wire l' s4 = line_wire l s @ msg_wire q \<or> \<not> mem \<and> r = -1 \<and> line_wire l' s4 = line_wire l s)"
proof -
  let ?M = "line_refs l + F"
  have refs: "refs_ok s ?M" "pq_inv (l_queue l)" using ok by (simp_all add: line_ok_def)
  have done_q: "p_state q = PARSE_DONE" using q(2) by (simp add: sendable_def)
  have sub: "opt_refs (l_next l) \<subseteq># ?M" "set (pq_items (l_queue l)) \<subseteq> set_mset ?M" by (auto simp: line_refs_def)
  have next_a: "b \<noteq> a" "b \<notin># other_refs l + F" if "l_next l = Some b" for b
    using that built(3) next_not_other [OF ok that] by (auto simp: line_refs_def)
  have head: "append_parse_katcl mem l a s2 =
      bind_res (add_tail_queue_katcl mem (l_queue l) (Some a) s2) (\<lambda>(r, q, s1). Inr (r, l\<lparr>l_queue := q\<rparr>, s1))"
    using q(1) done_q by (simp add: append_parse_katcl_def deref_def)
  have "a \<in># add_mset a ?M" by simp
  from add_tail_any [OF refs(2) built(1) this q(1) done_q, of mem] show ?thesis
  proof (elim disjE exE conjE)
    fix k s3 assume k: "add_tail_queue_katcl mem (l_queue l) (Some a) s2 = Inr (0, k, s3)" "pq_inv k"
      "pq_items k = pq_items (l_queue l) @ [a]" "refs_ok s3 (add_mset a (add_mset a ?M))" "same_msgs s2 s3 (add_mset a ?M)"
    obtain s4 where d: "destroy_parse_katcl (Some a) s3 = Inr s4" "refs_ok s4 (add_mset a ?M)" "same_msgs s3 s4 (add_mset a ?M)"
      using destroy_ok [OF k(4)] destroy_same [OF k(4)] by blast
    let ?l = "l\<lparr>l_queue := k\<rparr>"
    have same24: "same_msgs s2 s4 (add_mset a ?M)" using k(5) d(3) by (rule same_msgs_trans)
    have same: "same_msgs s s4 ?M" using built(2) same_msgs_addD [OF same24] by (rule same_msgs_trans)
    have "line_refs ?l = add_mset a (line_refs l)" using k(3) by (simp add: line_refs_def)
    then have r4: "refs_ok s4 (line_refs ?l + F)" using d(2) by simp
    obtain q' where q': "st_heap s4 a = Some q'" "mv q' = mv q"
      by (rule sendable_msgs [OF same24 _ q(1)]) auto
    have "line_ok s4 ?l F"
      by (rule line_ok_change [OF ok r4 same sub(1)]) (use k(2,3) next_a in \<open>auto simp: other_refs_def\<close>)
    moreover have "out_ok False ?l s4 \<and> line_wire ?l s4 = line_wire l s @ msg_wire q'"
      using k(3) sendable_mv [OF q'(2)] q(2)
      by (intro output_snoc [OF out same sub(2) _ _ q'(1)]) (simp_all add: same_output_def)
    moreover have "st_heap s4 b = st_heap s b" if mem: "b \<in># ?M" for b
      using built(3) mem by (intro kept_exactly [OF refs(1) d(2) same]) auto
    moreover have "msg_wire q' = msg_wire q" using q'(2) by (simp add: mv_eq msg_wire_def)
    ultimately show ?thesis using head k(1) d(1) by (auto simp: only_queued_def)
  next
    assume f: "\<not> mem" "add_tail_queue_katcl mem (l_queue l) (Some a) s2 = Inr (-1, l_queue l, s2)"
    obtain s4 where "destroy_parse_katcl (Some a) s2 = Inr s4" "only_queued F l s l s4" "line_wire l s4 = line_wire l s"
      using discard_built [OF ok out built(1,2)] by blast
    then show ?thesis using head f by auto
  qed
qed


definition log_level_ok :: "int \<Rightarrow> bool" where
  "log_level_ok level \<longleftrightarrow> 0 \<le> level \<and> level < KATCP_LEVEL_OFF"

lemma built_alone:
  assumes "refs_ok s M"
  shows "\<exists>s1. create_referenced_parse_katcl True s = Inr (Some (st_fresh s), s1) \<and>
    refs_ok s1 (add_mset (st_fresh s) M) \<and> st_fresh s \<notin># M \<and> same_msgs s s1 M \<and>
    st_heap s1 (st_fresh s) = Some (fresh_parse\<lparr>p_refs := 1\<rparr>)"
proof -
  note c = create_referenced_ok [OF assms, of True]
  define s1 where "s1 = (st_put (st_fresh s) (fresh_parse\<lparr>p_refs := 1\<rparr>) s)\<lparr>st_fresh := st_fresh s + 1\<rparr>"
  have "same_msgs s s1 M"
    using same_msgs_put [OF assms, of M "st_fresh s" "fresh_parse\<lparr>p_refs := 1\<rparr>"] c by (simp add: s1_def same_msgs_def)
  moreover have "st_heap s1 (st_fresh s) = Some (fresh_parse\<lparr>p_refs := 1\<rparr>)" by (simp add: s1_def st_put_def)
  ultimately show ?thesis using c by (simp add: s1_def)
qed

text \<open>The outcome of a call: a fault, or a result with the line that is left.\<close>

definition log_outcome ::
  "nat multiset \<Rightarrow> line \<Rightarrow> store \<Rightarrow> bool \<Rightarrow> string \<Rightarrow> (int \<times> line \<times> store) res \<Rightarrow> bool" where
  "log_outcome F l s may_abort text_out r \<longleftrightarrow>
     (case r of
        Inl f \<Rightarrow> f = Abort \<and> may_abort
      | Inr (v, l', s') \<Rightarrow> only_queued F l s l' s' \<and>
          (0 \<le> v \<and> line_wire l' s' = line_wire l s @ text_out \<or> v = -1 \<and> line_wire l' s' = line_wire l s))"

lemma vlog_message_ok:
  assumes ok: "line_ok s l F" and out: "out_ok False l s"
    and tx: "tx = text_of log_marks (log_args major5 (the clock) level name t)"
  shows "log_outcome F l s (mem 0 \<and> \<not> (mem 1 \<and> mem 2) \<and> log_level_ok level) tx
      (vlog_message_katcl mem major5 clock l level name (Some t) s) \<and>
    (\<forall>v l' s'. vlog_message_katcl mem major5 clock l level name (Some t) s = Inr (v, l', s') \<longrightarrow>
       (0 \<le> v \<longrightarrow> log_level_ok level \<and> clock \<noteq> None) \<and>
       (log_level_ok level \<and> clock \<noteq> None \<and> (\<forall>i. mem i) \<longrightarrow> 0 \<le> v))"
proof -
  let ?M = "line_refs l + F"
  have refs: "refs_ok s ?M" using ok by (simp add: line_ok_def)
  have self: "only_queued F l s l s" using ok out by (simp add: only_queued_def)
  show ?thesis
  proof (cases "mem 0")
    case False
    then show ?thesis
      using create_referenced_ok [OF refs, of False] self by (auto simp: vlog_message_katcl_def log_outcome_def)
  next
    case True
    let ?a = "st_fresh s" and ?p = "fresh_parse\<lparr>p_refs := 1\<rparr>"
    obtain s1 where c: "create_referenced_parse_katcl True s = Inr (Some ?a, s1)" "refs_ok s1 (add_mset ?a ?M)"
        "?a \<notin># ?M" "same_msgs s s1 ?M" "st_heap s1 ?a = Some ?p"
      using built_alone [OF refs] by blast
    let ?f = "vlog_parse_katcl mem major5 clock level name (Some t)"
    have give_up: "\<exists>s4. destroy_parse_katcl (Some ?a) s2 = Inr s4 \<and> only_queued F l s l s4 \<and> line_wire l s4 = line_wire l s"
      if "refs_ok s2 (add_mset ?a ?M)" "same_msgs s1 s2 ?M" for s2
      using discard_built [OF ok out that(1) same_msgs_trans [OF c(4) that(2)]] .
    show ?thesis
    proof (cases "log_level_ok level")
      case False
      then have "?f ?p = Inr (-1, ?p)" by (auto simp: vlog_parse_katcl_def log_level_ok_def)
      moreover have "parse_inv ?p" using blank_fresh by (simp add: blank_def)
      ultimately obtain s2 where s2: "on_parse ?a ?f s1 = Inr (-1, s2)" "refs_ok s2 (add_mset ?a ?M)" "same_msgs s1 s2 ?M"
        using on_parse_ok [OF c(2,3,5), of ?f "-1" ?p] by auto
      obtain s4 where "destroy_parse_katcl (Some ?a) s2 = Inr s4" "only_queued F l s l s4" "line_wire l s4 = line_wire l s"
        using give_up [OF s2(2,3)] by blast
      then show ?thesis using True False c(1) s2(1) by (simp add: vlog_message_katcl_def log_outcome_def)
    next
      case lev: True
      then have lv: "0 \<le> level" "level < KATCP_LEVEL_OFF" by (simp_all add: log_level_ok_def)
      from vlog_parse_ok [OF blank_fresh lv refl, of mem major5 clock name t]
      consider v q where "?f ?p = Inr (v, q)" "v = -1 \<or> 0 \<le> v"
          "logged (0 \<le> v) log_marks (log_args major5 (the clock) level name t) q" "0 \<le> v \<longrightarrow> clock \<noteq> None"
          "(\<forall>i. mem i) \<and> clock \<noteq> None \<longrightarrow> 0 \<le> v"
        | "?f ?p = Inl Abort" "\<not> (mem 1 \<and> mem 2)"
        by blast
      then show ?thesis
      proof cases
        case 2
        have "vlog_message_katcl mem major5 clock l level name (Some t) s = Inl Abort"
          using True c(1,5) 2(1) by (simp add: vlog_message_katcl_def on_parse_def deref_def)
        then show ?thesis using True lev 2(2) by (simp add: log_outcome_def)
      next
        case (1 v q)
        have "parse_inv q" "p_refs q = p_refs ?p" using 1(3) by (simp_all add: logged_def)
        then obtain s2 where s2: "on_parse ?a ?f s1 = Inr (v, s2)" "refs_ok s2 (add_mset ?a ?M)" "same_msgs s1 s2 ?M"
            "st_heap s2 ?a = Some q"
          using on_parse_ok [OF c(2,3,5), of ?f v q] 1(1) by blast
        show ?thesis
        proof (cases "0 \<le> v")
          case False
          obtain s4 where "destroy_parse_katcl (Some ?a) s2 = Inr s4" "only_queued F l s l s4" "line_wire l s4 = line_wire l s"
            using give_up [OF s2(2,3)] by blast
          then show ?thesis using True False c(1) s2(1) 1(5)
            by (auto simp: vlog_message_katcl_def log_outcome_def)
        next
          case pos: True
          have q: "p_state q = PARSE_DONE" "parse_args q = log_args major5 (the clock) level name t"
              "parse_escapes q = log_marks" using 1(3) pos by (simp_all add: logged_def)
          have send: "sendable q" using q(1,2) by (simp add: sendable_def log_args_def KATCP_LOG_INFORM_def)
          have w: "msg_wire q = tx" using q(2,3) by (simp add: msg_wire_text tx)
          obtain r l' s3 s4 where b: "append_parse_katcl (mem 19) l ?a s2 = Inr (r, l', s3)"
              "destroy_parse_katcl (Some ?a) s3 = Inr s4" "only_queued F l s l' s4"
              "r = 0 \<and> line_wire l' s4 = line_wire l s @ tx \<or> \<not> mem 19 \<and> r = -1 \<and> line_wire l' s4 = line_wire l s"
            using queue_built [OF ok out s2(2) same_msgs_trans [OF c(4) s2(3)] c(3) s2(4) send, of "mem 19"] w by auto
          have v: "vlog_message_katcl mem major5 clock l level name (Some t) s = Inr (if r < 0 then -1 else v, l', s4)"
            using True c(1) s2(1) pos b(1,2) by (simp add: vlog_message_katcl_def)
          show ?thesis using b(3,4) pos lev 1(4) by (auto simp: v log_outcome_def)
        qed
      qed
    qed
  qed
qed


section \<open>Replies\<close>

lemma append_string_ok:
  assumes "line_ok s l F" "out_ok False l s" "stage_is s l es ts" "has_flag fl KATCP_FLAG_FIRST = (ts = [])"
    "\<forall>i. mem i" "hd (ts @ [b]) \<noteq> []"
  shows "\<exists>l' s'. append_string_katcl mem l fl (Some b) s = Inr (int (length b) + 1, l', s') \<and>
    append_result F fl l s (es @ [1]) (ts @ [b]) l' s'"
proof -
  have m: "mem i" for i using assms(5) by simp
  have "add_ok True fl b 1 p (add_string_parse_katcl (mem 2, mem 3) fl (Some b) p)" if "can_add fl p" for p
    using add_string_ok [OF that, of "(True, True)" "Some b"] m by simp
  from append_by_ok [OF assms(1-4) m m this assms(6)] show ?thesis by (simp add: append_string_katcl_def)
qed

lemma append_vargs_ok:
  assumes "line_ok s l F" "out_ok False l s" "stage_is s l es ts" "has_flag fl KATCP_FLAG_FIRST = (ts = [])"
    "\<forall>i. mem i" "hd (ts @ [b]) \<noteq> []"
  shows "\<exists>l' s'. append_vargs_katcl mem l fl (Some b) s = Inr (int (length b) + 1, l', s') \<and>
    append_result F fl l s (es @ [1]) (ts @ [b]) l' s'"
proof -
  have m: "mem i" for i using assms(5) by simp
  have "add_ok True fl b 1 p (add_vargs_parse_katcl (mem 2) (\<lambda>i. mem (i + 3)) fl (Some b) p)" if "can_add fl p" for p
    using add_vargs_ok [OF that, of "mem 2" "\<lambda>i. mem (i + 3)" b] m by simp
  from append_by_ok [OF assms(1-4) m m this assms(6)] show ?thesis by (simp add: append_vargs_katcl_def)
qed

lemma append_result_trans:
  assumes "append_result F fl l s es ts l1 s1" "\<not> has_flag fl KATCP_FLAG_LAST" "append_result F fl' l1 s1 es' ts' l' s'"
  shows "append_result F fl' l s es' ts' l' s'"
  using assms input_same [of l1 l] by (auto simp: append_result_def intro: same_msgs_trans)

lemma append_resultD:
  assumes "append_result F fl l s es ts l1 s1" "\<not> has_flag fl KATCP_FLAG_LAST"
  shows "line_ok s1 l1 F" "out_ok False l1 s1" "stage_is s1 l1 es ts"
  using assms by (simp_all add: append_result_def)

text \<open>The arguments of the reply to a request with this name.\<close>

definition reply_list :: "string \<Rightarrow> int \<Rightarrow> string option \<Rightarrow> string list" where
  "reply_list n code extra =
     [KATCP_REPLY # tl (cstr n), the (misc_result_table ! nat (- code))] @ (case extra of None \<Rightarrow> [] | Some t \<Rightarrow> [t])"

lemma result_names:
  assumes "code \<in> {0, -1, -2, -3}"
  shows "code_to_name_katcm code = Inr (Some (the (misc_result_table ! nat (- code))))"
  using assms by (auto simp: code_to_name_katcm_def misc_result_table_def)

lemma ready_string:
  assumes "line_ok s l F" "ready_view s l = Some (args, tag)"
  shows "arg_string_katcl l i s = Inr (if i < length args \<and> args ! i \<noteq> [] then Some (cstr (args ! i)) else None)"
    "arg_copy_string_katcl True l i s = arg_string_katcl l i s"
proof -
  obtain a p where a: "l_ready l = Some a" "st_heap s a = Some p" "parse_args p = args"
    using assms(2) by (auto simp: ready_view_def split: option.splits)
  have "a \<in># line_refs l + F" using a(1) by (simp add: line_refs_def)
  then have "parse_inv p" using assms(1) refs_ok_live a(2) by (force simp: line_ok_def)
  then have g: "get_string_parse_katcl p i = Inr (if i < length args \<and> args ! i \<noteq> [] then Some (cstr (args ! i)) else None)"
    using get_string_spec [of p i] a(3) by (auto simp del: parse_args_nth)
  then show "arg_string_katcl l i s = Inr (if i < length args \<and> args ! i \<noteq> [] then Some (cstr (args ! i)) else None)"
    using a(1,2) by (simp add: arg_string_katcl_def with_ready_def deref_def)
  show "arg_copy_string_katcl True l i s = arg_string_katcl l i s"
    using a(1,2) g by (simp add: arg_string_katcl_def arg_copy_string_katcl_def with_ready_def deref_def copy_string_parse_katcl_def
        split: option.splits)
qed

lemma response_ok:
  assumes ok: "line_ok s l F" and out: "out_ok False l s" and st: "l_stage l = None"
    and ready: "ready_view s l = Some (n # args, tag)" "cstr n \<noteq> []"
    and code: "code \<in> {0, -1, -2, -3}" and mem: "\<forall>i. mem i"
  shows "\<exists>v l' s'. extra_response_katcl mem l code (map_option Some extra) s = Inr (v, l', s') \<and> 0 < v \<and>
    append_result F KATCP_FLAG_LAST l s (replicate (length (reply_list n code extra)) 1) (reply_list n code extra) l' s'"
proof -
  let ?n = "KATCP_REPLY # tl (cstr n)" and ?c = "the (misc_result_table ! nat (- code))"
  have m: "mem i" for i using mem by simp
  have ne: "n \<noteq> []" using ready(2) by (auto simp: cstr_def)
  have name: "arg_copy_string_katcl True l 0 s = Inr (Some (cstr n))"
    using ready_string [OF ok ready(1), of 0] ne by simp
  have s0: "stage_is s l [] []" using st by (simp add: stage_is_def)
  have fl: "has_flag KATCP_FLAG_FIRST KATCP_FLAG_FIRST" "\<not> has_flag KATCP_FLAG_FIRST KATCP_FLAG_LAST"
    "\<not> has_flag KATCP_FLAG_LAST KATCP_FLAG_FIRST" "has_flag KATCP_FLAG_LAST KATCP_FLAG_LAST"
    by (simp_all add: flag_defs)
  obtain l1 s1 where 1: "append_string_katcl (\<lambda>i. mem (1 + i)) l KATCP_FLAG_FIRST (Some ?n) s = Inr (int (length ?n) + 1, l1, s1)"
      "append_result F KATCP_FLAG_FIRST l s [1] [?n] l1 s1"
    using append_string_ok [OF ok out s0, of KATCP_FLAG_FIRST "\<lambda>i. mem (1 + i)" ?n] fl(1) m by auto
  note d1 = append_resultD [OF 1(2) fl(2)]
  have range: "\<not> code > KATCP_RESULT_OK" using code by (auto simp: KATCP_RESULT_OK_def)
  show ?thesis
  proof (cases extra)
    case None
    obtain l2 s2 where 2: "append_string_katcl (\<lambda>i. mem (5 + i)) l1 KATCP_FLAG_LAST (Some ?c) s1 = Inr (int (length ?c) + 1, l2, s2)"
        "append_result F KATCP_FLAG_LAST l1 s1 [1, 1] [?n, ?c] l2 s2"
      using append_string_ok [OF d1, of KATCP_FLAG_LAST "\<lambda>i. mem (5 + i)" ?c] fl(3) m by auto
    have "extra_response_katcl mem l code (map_option Some extra) s =
        Inr (vector_sum [int (length ?n) + 1, int (length ?c) + 1], l2, s2)"
      using range m name ready(2) None result_names [OF code] 1(1) 2(1)
      by (simp add: extra_response_katcl_def vextra_response_katcl_def)
    moreover have "0 < vector_sum [int (length ?n) + 1, int (length ?c) + 1]" by (simp add: vector_sum_def)
    ultimately show ?thesis
      using append_result_trans [OF 1(2) fl(2) 2(2)] None by (auto simp: reply_list_def)
  next
    case (Some t)
    obtain l2 s2 where 2: "append_string_katcl (\<lambda>i. mem (5 + i)) l1 0 (Some ?c) s1 = Inr (int (length ?c) + 1, l2, s2)"
        "append_result F 0 l1 s1 [1, 1] [?n, ?c] l2 s2"
      using append_string_ok [OF d1, of 0 "\<lambda>i. mem (5 + i)" ?c] m by auto
    note d2 = append_resultD [OF 2(2) flag_zero]
    obtain l3 s3 where 3: "append_vargs_katcl (\<lambda>i. mem (9 + i)) l2 KATCP_FLAG_LAST (Some t) s2 = Inr (int (length t) + 1, l3, s3)"
        "append_result F KATCP_FLAG_LAST l2 s2 [1, 1, 1] [?n, ?c, t] l3 s3"
      using append_vargs_ok [OF d2, of KATCP_FLAG_LAST "\<lambda>i. mem (9 + i)" t] fl(3) m by auto
    have "extra_response_katcl mem l code (map_option Some extra) s =
        Inr (vector_sum [int (length ?n) + 1, int (length ?c) + 1, int (length t) + 1], l3, s3)"
      using range m name ready(2) Some result_names [OF code] 1(1) 2(1) 3(1)
      by (simp add: extra_response_katcl_def vextra_response_katcl_def)
    moreover have "0 < vector_sum [int (length ?n) + 1, int (length ?c) + 1, int (length t) + 1]" by (simp add: vector_sum_def)
    ultimately show ?thesis
      using append_result_trans [OF 1(2) fl(2) append_result_trans [OF 2(2) flag_zero 3(2)]] Some
      by (auto simp: reply_list_def numeral_3_eq_3)
  qed
qed


section \<open>Properties\<close>

lemma length_levels: "length log_levels_vector = 7" "length log_levels_upper_vector = 7"
  by (simp_all add: log_levels_vector_def log_levels_upper_vector_def)

lemma level_names:
  assumes "0 \<le> code" "code < int KATCP_MAX_LEVELS"
  shows "log_to_code_katcl (log_to_string_katcl code) = code \<and>
    log_to_code_katcl (Some (log_levels_upper_vector ! nat code)) = code"
proof -
  have "code \<in> {0, 1, 2, 3, 4, 5, 6}" using assms by (auto simp: KATCP_MAX_LEVELS_def)
  then show ?thesis by (elim insertE emptyE) (simp_all, code_simp+)
qed

text \<open>What a name is compared with: four characters of the name of the level, in lower or in upper
  case, or the alias.\<close>

definition names_level :: "string \<Rightarrow> nat \<Rightarrow> bool" where
  "names_level n k \<longleftrightarrow> take 4 n = take 4 (log_levels_vector ! k) \<or> take 4 n = take 4 (log_levels_upper_vector ! k) \<or>
     k = 0 \<and> take 4 n = ''all''"

lemma names_level_at:
  "map (names_level n) [0..<KATCP_MAX_LEVELS] =
    [take 4 n \<in> {''trac'', ''TRAC'', ''all''}, take 4 n \<in> {''debu'', ''DEBU''}, take 4 n \<in> {''info'', ''INFO''},
     take 4 n \<in> {''warn'', ''WARN''}, take 4 n \<in> {''erro'', ''ERRO''}, take 4 n \<in> {''fata'', ''FATA''},
     take 4 n \<in> {''off'', ''OFF''}]"
  by (simp add: KATCP_MAX_LEVELS_def upt_rec names_level_def log_levels_vector_def log_levels_upper_vector_def
      numeral_eq_Suc)

lemma level_cases:
  "log_to_code_katcl (Some n) =
    (if take 4 n \<in> {''trac'', ''TRAC'', ''all''} then 0 else if take 4 n \<in> {''debu'', ''DEBU''} then 1
     else if take 4 n \<in> {''info'', ''INFO''} then 2 else if take 4 n \<in> {''warn'', ''WARN''} then 3
     else if take 4 n \<in> {''erro'', ''ERRO''} then 4 else if take 4 n \<in> {''fata'', ''FATA''} then 5
     else if take 4 n \<in> {''off'', ''OFF''} then 6 else -1)"
proof -
  have t: "take 4 ''trace'' = ''trac''" "take 4 ''debug'' = ''debu''" "take 4 ''info'' = ''info''" "take 4 ''warn'' = ''warn''"
    "take 4 ''error'' = ''erro''" "take 4 ''fatal'' = ''fata''" "take 4 ''off'' = ''off''" "take 4 ''all'' = ''all''"
    "take 4 ''TRACE'' = ''TRAC''" "take 4 ''DEBUG'' = ''DEBU''" "take 4 ''INFO'' = ''INFO''" "take 4 ''WARN'' = ''WARN''"
    "take 4 ''ERROR'' = ''ERRO''" "take 4 ''FATAL'' = ''FATA''" "take 4 ''OFF'' = ''OFF''"
    by (simp_all add: numeral_eq_Suc)
  show ?thesis
    unfolding log_to_code_katcl_def log_levels_vector_def log_levels_upper_vector_def option.case
      level_loop.simps strncmp_def strcmp_eq_iff t KATCP_LEVEL_TRACE_def
    by (cases "take 4 n \<in> {''trac'', ''debu'', ''info'', ''warn'', ''erro'', ''fata'', ''off'', ''TRAC'', ''DEBU'', ''INFO'',
        ''WARN'', ''ERRO'', ''FATA'', ''OFF'', ''all''}")
      (elim insertE emptyE, simp_all)
qed

text \<open>C39. The names of the levels. A name is looked up by its first four characters: it is a level
  exactly when these are the first four of the name of that level in lower or in upper case, or are
  \<open>all\<close>, which is another name for \<open>trace\<close>; for any other name, and without one, the answer is -1.
  No name fits two levels, a level is found again under its own name in either case, and what the
  lookup answers is -1 or a code that the table has a name for. So \<open>warning\<close> and \<open>debugger\<close> are
  levels, and \<open>Warn\<close> is none.\<close>

theorem log_levels_typed:
  "log_to_code_katcl None = -1 \<and>
   log_to_code_katcl (Some n) = (case find (names_level n) [0..<KATCP_MAX_LEVELS] of Some k \<Rightarrow> int k | None \<Rightarrow> -1) \<and>
   length (filter (names_level n) [0..<KATCP_MAX_LEVELS]) \<le> 1 \<and>
   (log_to_code_katcl name = -1 \<or>
      0 \<le> log_to_code_katcl name \<and> log_to_string_katcl (log_to_code_katcl name) \<noteq> None) \<and>
   (log_to_string_katcl code = None \<or>
      log_to_code_katcl (log_to_string_katcl code) = code \<and>
      log_to_code_katcl (Some (log_levels_upper_vector ! nat code)) = code) \<and>
   log_to_code_katcl (Some ''warning'') = 3 \<and> log_to_code_katcl (Some ''debugger'') = 1 \<and>
   log_to_code_katcl (Some ''Warn'') = -1"
proof (intro conjI)
  show "log_to_code_katcl None = -1" by (simp add: log_to_code_katcl_def)
  note at = names_level_at [of n]
  have seven: "[0..<KATCP_MAX_LEVELS] = [0, 1, 2, 3, 4, 5, 6]" by (simp add: KATCP_MAX_LEVELS_def upt_rec)
  show "log_to_code_katcl (Some n) = (case find (names_level n) [0..<KATCP_MAX_LEVELS] of Some k \<Rightarrow> int k | None \<Rightarrow> -1)"
    using at unfolding level_cases seven by (simp del: insert_iff split del: if_split) (simp split: if_split)
  show "length (filter (names_level n) [0..<KATCP_MAX_LEVELS]) \<le> 1"
    using at unfolding seven by (auto split: if_splits)
  show "log_to_code_katcl name = -1 \<or>
      0 \<le> log_to_code_katcl name \<and> log_to_string_katcl (log_to_code_katcl name) \<noteq> None"
    using level_loop_range [of "the name" 0 log_levels_vector] level_loop_range [of "the name" 0 log_levels_upper_vector]
      length_levels
    by (cases name) (auto simp: log_to_code_katcl_def log_to_string_katcl_def KATCP_LEVEL_TRACE_def
        KATCP_MAX_LEVELS_def split: option.splits simp del: level_loop.simps)
  show "log_to_string_katcl code = None \<or>
      log_to_code_katcl (log_to_string_katcl code) = code \<and>
      log_to_code_katcl (Some (log_levels_upper_vector ! nat code)) = code"
    using level_names [of code] by (auto simp: log_to_string_katcl_def split: if_splits)
qed (code_simp+)

text \<open>C40. A log call sends its message whole or not at all. Whatever allocations fail, the line
  ends in a good state with the message being read, the message that is ready and the message
  that is half staged as they were, and it owes either exactly one more message, \<open>#log\<close> with
  the level, the time, the name of the subsystem and the text, or nothing more; the result
  tells which. The level must be one below \<open>off\<close> and the clock must work. Only when the
  message is allocated but its first argument is not does the call end the program: the
  second argument is then added all the same, and the consistency check aborts.\<close>

theorem log_all_or_nothing:
  assumes "line_ok s l F" "out_ok False l s"
  shows "case vlog_message_katcl mem maj clock l level name (Some t) s of
      Inl f \<Rightarrow> f = Abort \<and> mem 0 \<and> \<not> (mem 1 \<and> mem 2)
    | Inr (v, l', s') \<Rightarrow> line_ok s' l' F \<and> out_ok False l' s' \<and> stage_is s' l' es ts = stage_is s l es ts \<and>
        next_view s' l' k u = next_view s l k u \<and> ready_view s' l' = ready_view s l \<and>
        line_wire l' s' = line_wire l s @
          (if 0 \<le> v then text_of log_marks (log_args maj (the clock) level name t) else []) \<and>
        (v = -1 \<or> 0 \<le> v) \<and> (0 \<le> v \<longrightarrow> log_level_ok level \<and> clock \<noteq> None) \<and>
        (log_level_ok level \<and> clock \<noteq> None \<and> (\<forall>i. mem i) \<longrightarrow> 0 \<le> v)"
proof -
  note m = vlog_message_ok [OF assms refl, of mem level maj clock name t]
  show ?thesis
  proof (cases "vlog_message_katcl mem maj clock l level name (Some t) s")
    case (Inl f)
    then show ?thesis using m by (simp add: log_outcome_def)
  next
    case (Inr x)
    obtain v l' s' where x: "x = (v, l', s')" by (cases x) auto
    have q: "only_queued F l s l' s'" using m Inr x by (simp add: log_outcome_def)
    note same = only_queued_views [OF q]
    have oks: "line_ok s' l' F" "out_ok False l' s'" using q by (simp_all add: only_queued_def)
    have w: "0 \<le> v \<and> line_wire l' s' = line_wire l s @ text_of log_marks (log_args maj (the clock) level name t) \<or>
        v = -1 \<and> line_wire l' s' = line_wire l s"
      using m [THEN conjunct1] unfolding log_outcome_def Inr x sum.case prod.case by (rule conjunct2)
    have e: "vlog_message_katcl mem maj clock l level name (Some t) s = Inr (v, l', s')" by (simp only: Inr x)
    note c = m [THEN conjunct2, THEN spec, THEN spec, THEN spec, THEN mp, OF e]
    have "line_wire l' s' = line_wire l s @
        (if 0 \<le> v then text_of log_marks (log_args maj (the clock) level name t) else [])" "v = -1 \<or> 0 \<le> v"
      using w by auto
    then show ?thesis unfolding Inr x sum.case prod.case using oks same c [THEN conjunct1] c [THEN conjunct2] by (intro conjI)
  qed
qed

definition sample_time :: timeval where "sample_time = \<lparr>tv_sec = 12, tv_usec = 345678\<rparr>"

lemma sample_log_text:
  "text_of log_marks (log_args True sample_time 2 (Some ''core'') ''up'') = ''#log info 12.345 core up'' @ [CHR 0x0A]"
proof -
  have d: "digit_char 1 = CHR ''1''" "digit_char 2 = CHR ''2''" "digit_char 3 = CHR ''3''"
    "digit_char 4 = CHR ''4''" "digit_char 5 = CHR ''5''"
    by code_simp+
  show ?thesis
    by (simp add: text_of_def log_marks_def log_args_def KATCP_LOG_INFORM_def log_levels_vector_def timestamp_text_def
        sample_time_def dec_padded_def dec_of_nat.simps arg_wire_def escape_char_def backslash_def d [simplified])
qed

theorem log_all_or_nothing_witness:
  "\<exists>l s v l' s'. create_katcl (\<lambda>_. True) 3 empty_store = Inr (Some l, s) \<and>
    vlog_message_katcl (\<lambda>_. True) True (Some sample_time) l 2 (Some ''core'') (Some ''up'') s = Inr (v, l', s') \<and>
    line_wire l' s' = ''#log info 12.345 core up'' @ [CHR 0x0A]"
proof -
  obtain s where c: "create_katcl (\<lambda>_. True) 3 empty_store = Inr (Some (fresh_line 3 0), s)"
    "line_ok s (fresh_line 3 0) {#}"
    using create_line_ok [OF empty_store_ok, of 3] by (auto simp: empty_store_def)
  let ?r = "vlog_message_katcl (\<lambda>_. True) True (Some sample_time) (fresh_line 3 0) 2 (Some ''core'') (Some ''up'') s"
  have lev: "log_level_ok 2" by (simp add: log_level_ok_def KATCP_LEVEL_OFF_def)
  note p = log_all_or_nothing [OF c(2) fresh_output(1), where mem = "\<lambda>_. True" and maj = True
      and clock = "Some sample_time" and level = 2 and name = "Some ''core''" and t = "''up''"]
  obtain v l' s' where r: "?r = Inr (v, l', s')" using p by (cases ?r) auto
  then have "0 \<le> v" using p lev by simp
  then have "line_wire l' s' = ''#log info 12.345 core up'' @ [CHR 0x0A]"
    using p r fresh_output(2) sample_log_text by (simp only: sum.case prod.case if_True append_Nil option.sel)
  then show ?thesis using c(1) r by blast
qed

text \<open>A log message that is sent at once: with a kernel that takes bytes, the call returns 0
  and everything that the line owed, and the log message behind it, has been sent.\<close>

theorem sync_message_sends:
  assumes "line_ok s l F" "out_ok False l s" "log_level_ok level" "clock \<noteq> None" "\<forall>i. mem i"
    "kernel_ok (ios n)" "\<forall>k n' e. ios n k n' \<noteq> Send_error e"
  shows "\<exists>r. \<exists>l' s'. sync_message_katcl ios r (Suc n) mem major5 clock (Some l) level name (Some t) s =
      Inr (Some (0, line_wire l s @ text_of log_marks (log_args major5 (the clock) level name t), Some l', s')) \<and>
    flushing_katcl l' = 0 \<and> line_ok s' l' F"
proof -
  note m = vlog_message_ok [OF assms(1,2) refl, of mem level major5 clock name t]
  then obtain v l1 s1 where v: "vlog_message_katcl mem major5 clock l level name (Some t) s = Inr (v, l1, s1)"
      "0 \<le> v" "only_queued F l s l1 s1"
      "line_wire l1 s1 = line_wire l s @ text_of log_marks (log_args major5 (the clock) level name t)"
    using assms(3-5) by (fastforce simp: log_outcome_def split: sum.splits)
  have l1: "line_ok s1 l1 F" "out_ok False l1 s1" using v(3) by (simp_all add: only_queued_def)
  let ?r = "Suc (rounds (write_start l1 s1))"
  obtain x w where x: "write_katcl (ios n) ?r l1 s1 = Inr (Some (x, w))" "bytes_out F l1 s1 x w"
      "x \<noteq> 1 \<longrightarrow> (\<exists>k n' e. ios n k n' = Send_error e)"
    using write_loop_ok [OF assms(6) _ winv_start(1) [OF l1], of ?r] run_result_out [OF l1] assms(7)
    unfolding write_katcl_def by blast
  then have "x = 1" using assms(7) by blast
  then show ?thesis
    using v x by (intro exI [of _ ?r]) (auto simp: sync_message_katcl_def bytes_out_def)
qed

text \<open>A request is answered. For the request that the line has ready, the call queues
  exactly one reply: the name of the request with its type changed, the name of the result
  code and the extra text if there is one. Nothing stays staged, and the message being read
  and the request itself are as they were.\<close>

theorem request_answered:
  assumes "line_ok s l F" "out_ok False l s" "l_stage l = None"
    "ready_view s l = Some (n # args, tag)" "cstr n \<noteq> []" "code \<in> {0, -1, -2, -3}" "\<forall>i. mem i"
  shows "\<exists>v l' s'. extra_response_katcl mem l code (map_option Some extra) s = Inr (v, l', s') \<and> 0 < v \<and>
    line_ok s' l' F \<and> out_ok False l' s' \<and> stage_is s' l' [] [] \<and> same_msgs s s' (input_refs l + F) \<and>
    l_next l' = l_next l \<and> l_ready l' = l_ready l \<and>
    line_wire l' s' = line_wire l s @
      text_of (replicate (length (reply_list n code extra)) 1) (reply_list n code extra)"
  using response_ok [OF assms] by (fastforce simp: append_result_def flag_defs)

end
