(* ===== verification/Commands.thy ===== *)
theory Commands
  imports Log_Msg
begin

text \<open>
  The commands of a server (\<open>katcp/dispatch.c\<close>): a singly linked list, here a list, that the
  registration functions change and the dispatcher searches. An ordinary command is put at the
  front, a wildcard at the end, so that a later registration shadows an earlier one and a
  wildcard never shadows a command with a name.
\<close>

unbundle bit_operations_syntax

section \<open>The list\<close>

definition KATCP_CMD_HIDDEN :: u32 where "KATCP_CMD_HIDDEN = 0x1"
definition KATCP_CMD_WILDCARD :: u32 where "KATCP_CMD_WILDCARD = 0x2"

text \<open>\<open>c_call\<close> is the address of the callback.\<close>

record cmd =
  c_name :: "string option"
  c_help :: "string option"
  c_flags :: u32
  c_mode :: nat
  c_call :: "nat option"

definition wild :: "cmd \<Rightarrow> bool" where
  "wild c \<longleftrightarrow> c_flags c AND KATCP_CMD_WILDCARD \<noteq> 0"

definition in_mode :: "nat \<Rightarrow> cmd \<Rightarrow> bool" where
  "in_mode mode c \<longleftrightarrow> c_mode c = 0 \<or> c_mode c = mode"

text \<open>\<open>strcmp\<close> through pointers.\<close>

definition strcmp_ptr :: "string option \<Rightarrow> string option \<Rightarrow> int res" where
  "strcmp_ptr a b =
     (case a of None \<Rightarrow> Inl NullDeref
      | Some x \<Rightarrow> (case b of None \<Rightarrow> Inl NullDeref | Some y \<Rightarrow> Inr (strcmp x y)))"

text \<open>The loops of \<open>deregister_command_katcp\<close> and \<open>update_command_katcp\<close>: \<open>None\<close> when there is
  no such command.\<close>

fun remove_loop :: "string \<Rightarrow> cmd list \<Rightarrow> cmd list option" where
  "remove_loop ptr [] = None"
| "remove_loop ptr (c # cs) =
     (if c_name c \<noteq> None \<and> strcmp (the (c_name c)) ptr = 0 then Some cs
      else map_option ((#) c) (remove_loop ptr cs))"

fun update_loop :: "string \<Rightarrow> u32 \<Rightarrow> cmd list \<Rightarrow> cmd list option" where
  "update_loop ptr flags [] = None"
| "update_loop ptr flags (c # cs) =
     (if c_name c \<noteq> None \<and> strcmp (the (c_name c)) ptr = 0
      then Some (c\<lparr>c_flags := (c_flags c AND NOT KATCP_CMD_HIDDEN) OR (flags AND KATCP_CMD_HIDDEN)\<rparr> # cs)
      else map_option ((#) c) (update_loop ptr flags cs))"

text \<open>The name of the command for a name given without its type.\<close>

definition typed :: "string \<Rightarrow> bool" where
  "typed match \<longleftrightarrow> hd match = KATCP_REQUEST \<or> hd match = KATCP_REPLY \<or> hd match = KATCP_INFORM"

text \<open>The end of \<open>register_flag_mode_katcp\<close>.\<close>

definition link_command :: "cmd \<Rightarrow> cmd list \<Rightarrow> cmd list" where
  "link_command c cs = (if wild c \<and> cs \<noteq> [] then cs @ [c] else c # cs)"

text \<open>The new command, or \<open>None\<close> when it cannot be made. A name without its type is written
  into a block of \<open>strlen(match + 2)\<close> bytes, which is too short for it. \<open>mem\<close> is for the
  command, its name and its help.\<close>

definition new_command ::
  "(nat \<Rightarrow> bool) \<Rightarrow> string option \<Rightarrow> string \<Rightarrow> nat option \<Rightarrow> u32 \<Rightarrow> nat \<Rightarrow> cmd option res" where
  "new_command mem match help call flags mode =
     (if \<not> mem 0 then Inr None
      else
        bind_res
          (case match of
             None \<Rightarrow> Inr (True, None, flags OR KATCP_CMD_WILDCARD)
           | Some m \<Rightarrow>
               if m = [] then Inr (False, None, flags)
               else if typed m then Inr (mem 1, Some m, flags)
               else if mem 1 then Inl OutOfBounds else Inr (False, None, flags))
          (\<lambda>(named, name, fl).
          if \<not> named then Inr None
          else if \<not> mem 2 then Inr None
          else Inr (Some \<lparr>c_name = name, c_help = Some help, c_flags = fl, c_mode = mode, c_call = call\<rparr>)))"

text \<open>The search of \<open>lookup_katcp\<close>: the name is compared only when the command is no
  wildcard.\<close>

fun search_loop :: "nat \<Rightarrow> string option \<Rightarrow> cmd list \<Rightarrow> cmd option res" where
  "search_loop mode str [] = Inr None"
| "search_loop mode str (c # cs) =
     (if \<not> in_mode mode c then search_loop mode str cs
      else if wild c then Inr (Some c)
      else bind_res (strcmp_ptr (c_name c) str) (\<lambda>r.
           if r = 0 then Inr (Some c) else search_loop mode str cs))"

section \<open>Order\<close>

text \<open>No ordinary command stands behind a wildcard, and only wildcards are without a name.\<close>

fun commands_ok :: "cmd list \<Rightarrow> bool" where
  "commands_ok [] = True"
| "commands_ok (c # cs) =
     (commands_ok cs \<and> (c_name c = None \<longrightarrow> wild c) \<and> (wild c \<longrightarrow> (\<forall>d \<in> set cs. wild d)))"

lemma commands_ok_snoc:
  "commands_ok (cs @ [c]) \<longleftrightarrow> commands_ok cs \<and> wild c \<or>
     commands_ok cs \<and> (\<forall>d \<in> set cs. \<not> wild d) \<and> c_name c \<noteq> None"
  by (induction cs) auto

lemma link_ok [katcp_inv]:
  assumes "commands_ok cs" "c_name c = None \<longrightarrow> wild c"
  shows "commands_ok (link_command c cs)"
  using assms by (auto simp: link_command_def commands_ok_snoc)

lemma remove_ok [katcp_inv]: "commands_ok cs \<Longrightarrow> remove_loop ptr cs = Some cs' \<Longrightarrow> commands_ok cs' \<and> set cs' \<subseteq> set cs"
proof (induction cs arbitrary: cs')
  case (Cons c cs)
  then show ?case by (auto split: if_splits) blast+
qed simp

lemma update_keeps_wild [simp]:
  "wild (c\<lparr>c_flags := (c_flags c AND NOT KATCP_CMD_HIDDEN) OR (fl AND KATCP_CMD_HIDDEN)\<rparr>) = wild c"
proof -
  have "((c_flags c AND NOT KATCP_CMD_HIDDEN) OR (fl AND KATCP_CMD_HIDDEN)) AND KATCP_CMD_WILDCARD =
      c_flags c AND KATCP_CMD_WILDCARD"
    by (rule bit_word_eqI) (auto simp: bit_simps KATCP_CMD_HIDDEN_def KATCP_CMD_WILDCARD_def)
  then show ?thesis by (simp add: wild_def)
qed

lemma update_ok [katcp_inv]:
  "commands_ok cs \<Longrightarrow> update_loop ptr fl cs = Some cs' \<Longrightarrow>
   commands_ok cs' \<and> map wild cs' = map wild cs \<and> map c_name cs' = map c_name cs"
proof (induction cs arbitrary: cs')
  case (Cons c cs)
  have "(\<forall>d \<in> set ds. wild d) = (\<forall>d \<in> set cs. wild d)" if "map wild ds = map wild cs" for ds
  proof -
    have "(\<forall>b \<in> set (map wild ds). b) = (\<forall>b \<in> set (map wild cs). b)" by (simp only: that)
    then show ?thesis by simp
  qed
  note same = this
  show ?case
  proof (cases "c_name c \<noteq> None \<and> strcmp (the (c_name c)) ptr = 0")
    case True
    then show ?thesis using Cons.prems by auto
  next
    case False
    then obtain ds where ds: "update_loop ptr fl cs = Some ds" "cs' = c # ds" using Cons.prems(2) by auto
    then have "commands_ok ds \<and> map wild ds = map wild cs \<and> map c_name ds = map c_name cs"
      using Cons.IH Cons.prems(1) by simp
    then show ?thesis using ds(2) Cons.prems(1) same [of ds] by simp
  qed
qed simp

lemma search_finds:
  assumes "commands_ok cs"
  shows "search_loop mode (Some str) cs =
    Inr (case List.find (\<lambda>c. in_mode mode c \<and> \<not> wild c \<and> c_name c = Some str) cs of
           Some c \<Rightarrow> Some c
         | None \<Rightarrow> List.find (\<lambda>c. in_mode mode c \<and> wild c) cs)"
  using assms
proof (induction cs)
  case (Cons c cs)
  have none: "List.find (\<lambda>c. in_mode mode c \<and> \<not> wild c \<and> c_name c = Some str) cs = None" if "wild c"
    using Cons.prems that by (auto simp: find_None_iff)
  show ?case using Cons none by (auto simp: strcmp_ptr_def strcmp_eq_iff split: option.splits)
qed simp

end
