(* ===== verification/Line_Frame.thy ===== *)
theory Line_Frame
  imports Commands
begin

text \<open>
  Several connections over one store of messages: which messages an operation on one line can
  change at all, and why the other lines do not notice. A server has one line for every
  client, and works on one of them at a time.
\<close>

section \<open>What an operation touches\<close>

text \<open>Of the messages that are allocated at the start only those in the set can differ.\<close>

definition touches :: "nat set \<Rightarrow> store \<Rightarrow> store \<Rightarrow> bool" where
  "touches A s s' \<longleftrightarrow> st_fresh s \<le> st_fresh s' \<and>
     (\<forall>c. c \<notin> A \<longrightarrow> c < st_fresh s \<longrightarrow> st_heap s' c = st_heap s c)"

lemma touches_refl [simp]: "touches A s s"
  by (simp add: touches_def)

lemma touches_mono: "touches A s s' \<Longrightarrow> A \<subseteq> B \<union> {c. st_fresh s \<le> c} \<Longrightarrow> touches B s s'"
  by (fastforce simp: touches_def)

lemma touches_trans: "touches A s s1 \<Longrightarrow> touches A s1 s2 \<Longrightarrow> touches A s s2"
  by (simp add: touches_def)

lemma touches_then:
  assumes "touches A s s1" "touches B s1 s2" "B \<subseteq> A \<union> {c. st_fresh s \<le> c}"
  shows "touches A s s2"
  using assms unfolding touches_def by (metis (mono_tags, lifting) Un_iff mem_Collect_eq not_le order_trans subset_iff order_less_le_trans)

lemma touches_put [simp]: "touches A s (st_put a p s) \<longleftrightarrow> a \<in> A \<or> st_fresh s \<le> a \<or> st_heap s a = Some p"
  by (auto simp: touches_def st_put_def)

lemma destroy_touches: "destroy_parse_katcl (Some a) s = Inr s' \<Longrightarrow> touches {a} s s'"
  by (auto simp: destroy_parse_katcl_def sane_parse_katcl_def deref_def touches_def st_put_def st_free_def Let_def
      split: option.splits if_splits)

lemma drop_touches: "drop_parse x s = Inr s' \<Longrightarrow> touches (set_option x) s s'"
  using destroy_touches by (auto simp: drop_parse_def split: option.splits)

lemma create_touches:
  "create_referenced_parse_katcl ok s = Inr (x, s') \<Longrightarrow> touches {} s s' \<and> set_option x \<subseteq> {c. st_fresh s \<le> c}"
  by (auto simp: create_referenced_parse_katcl_def create_parse_katcl_def deref_def touches_def st_put_def
      split: if_splits)

lemma on_parse_touches: "on_parse a f s = Inr (v, s') \<Longrightarrow> touches {a} s s'"
  by (auto simp: on_parse_def bind_res_Inr_iff)

lemma add_tail_touches: "add_tail_queue_katcl ok q (Some a) s = Inr (r, q', s') \<Longrightarrow> touches {a} s s'"
  by (auto simp: add_tail_queue_katcl_def copy_parse_katcl_def sane_parse_katcl_def deref_def bind_res_Inr_iff
      split: if_splits option.splits)

lemma append_parse_touches: "append_parse_katcl ok l a s = Inr (r, l', s') \<Longrightarrow>
    touches {a} s s' \<and> l_stage l' = l_stage l \<and> l_next l' = l_next l \<and> l_ready l' = l_ready l"
  by (auto simp: append_parse_katcl_def bind_res_Inr_iff split: if_splits dest: add_tail_touches)

section \<open>The writing half\<close>

text \<open>The stage is the old one or a new message.\<close>

definition stage_from :: "line \<Rightarrow> store \<Rightarrow> nat set" where
  "stage_from l s = set_option (l_stage l) \<union> {c. st_fresh s \<le> c}"

lemma before_append_touches:
  assumes "before_append_katcl ok l fl s = Inr (x, l', s')"
  shows "touches {} s s' \<and> set_option x \<subseteq> stage_from l s \<and> set_option (l_stage l') \<subseteq> stage_from l s \<and>
    l_next l' = l_next l \<and> l_ready l' = l_ready l"
  using assms
  by (auto simp: before_append_katcl_def bind_res_Inr_iff stage_from_def split: if_splits dest!: create_touches)

lemma after_append_touches:
  assumes "after_append_katcl ok l fl r s = Inr (v, l', s')"
  shows "touches (set_option (l_stage l)) s s' \<and> set_option (l_stage l') \<subseteq> set_option (l_stage l) \<and>
    l_next l' = l_next l \<and> l_ready l' = l_ready l"
proof (cases "r < 0 \<or> \<not> has_flag fl KATCP_FLAG_LAST \<or> l_stage l = None")
  case True
  then show ?thesis
    using assms by (auto simp: after_append_katcl_def bind_res_Inr_iff split: if_splits dest!: drop_touches)
next
  case False
  then obtain a q s1 k where a: "l_stage l = Some a" "add_tail_queue_katcl ok (l_queue l) (Some a) s = Inr (q, k, s1)"
      "destroy_parse_katcl (Some a) s1 = Inr s'" "l' = l\<lparr>l_queue := k, l_stage := None\<rparr>"
    using assms by (auto simp: after_append_katcl_def bind_res_Inr_iff)
  then show ?thesis using touches_trans [OF add_tail_touches [OF a(2)] destroy_touches [OF a(3)]] by simp
qed

lemma append_by_touches:
  assumes "append_by mem l fl add s = Inr (v, l', s')"
  shows "touches (set_option (l_stage l)) s s' \<and> set_option (l_stage l') \<subseteq> stage_from l s \<and>
    l_next l' = l_next l \<and> l_ready l' = l_ready l"
proof -
  obtain x l1 s1 where b: "before_append_katcl (mem 0) l fl s = Inr (x, l1, s1)"
      "(case x of None \<Rightarrow> Inr (-1, l1, s1)
        | Some a \<Rightarrow> bind_res (on_parse a add s1) (\<lambda>(result, s2). after_append_katcl (mem 1) l1 fl result s2)) = Inr (v, l', s')"
    using assms by (auto simp: append_by_def bind_res_Inr_iff)
  note t1 = before_append_touches [OF b(1)]
  show ?thesis
  proof (cases x)
    case None
    then show ?thesis using b(2) t1 touches_mono [of "{}" s s1 "set_option (l_stage l)"] by auto
  next
    case (Some a)
    then obtain r s2 where p: "on_parse a add s1 = Inr (r, s2)" "after_append_katcl (mem 1) l1 fl r s2 = Inr (v, l', s')"
      using b(2) by (auto simp: bind_res_Inr_iff)
    note t2 = on_parse_touches [OF p(1)] and t3 = after_append_touches [OF p(2)]
    have "touches (set_option (l_stage l)) s s1" using t1 touches_mono by blast
    then have "touches (set_option (l_stage l)) s s2"
      using t1 t2 Some by (auto simp: stage_from_def intro: touches_then)
    then have "touches (set_option (l_stage l)) s s'"
      using t1 t3 by (auto simp: stage_from_def intro: touches_then)
    then show ?thesis using t1 t3 by auto
  qed
qed

lemma vlog_message_touches:
  assumes "vlog_message_katcl mem major5 clock l level name t s = Inr (v, l', s')"
  shows "touches {} s s' \<and> l_stage l' = l_stage l \<and> l_next l' = l_next l \<and> l_ready l' = l_ready l"
proof -
  obtain x s1 where c: "create_referenced_parse_katcl (mem 0) s = Inr (x, s1)"
    using assms by (auto simp: vlog_message_katcl_def bind_res_Inr_iff)
  note t1 = create_touches [OF c]
  show ?thesis
  proof (cases x)
    case None
    then show ?thesis using assms c t1 by (simp add: vlog_message_katcl_def)
  next
    case (Some a)
    then have a: "{a} \<subseteq> {} \<union> {c. st_fresh s \<le> c}" using t1 by simp
    have go: "touches {} s s3" if "touches {} s s2" "touches {a} s2 s3" for s2 s3
      using touches_then [OF that a] .
    have "\<exists>r s2. on_parse a (vlog_parse_katcl mem major5 clock level name t) s1 = Inr (r, s2)"
      using assms c Some by (auto simp: vlog_message_katcl_def bind_res_Inr_iff)
    then obtain r s2 where p: "on_parse a (vlog_parse_katcl mem major5 clock level name t) s1 = Inr (r, s2)" by blast
    have t2: "touches {} s s2" using go t1 on_parse_touches [OF p] by blast
    show ?thesis
    proof (cases "r < 0")
      case True
      then obtain s3 where "destroy_parse_katcl (Some a) s2 = Inr s3" "s' = s3" "l' = l"
        using assms c Some p by (auto simp: vlog_message_katcl_def bind_res_Inr_iff)
      then show ?thesis using go t2 destroy_touches by blast
    next
      case False
      then obtain q l1 s3 where q: "append_parse_katcl (mem 19) l a s2 = Inr (q, l1, s3)"
          "destroy_parse_katcl (Some a) s3 = Inr s'" "l' = l1"
        using assms c Some p by (auto simp: vlog_message_katcl_def bind_res_Inr_iff split: if_splits)
      have "touches {} s s3" using go t2 append_parse_touches [OF q(1)] by blast
      then show ?thesis using go q(2,3) append_parse_touches [OF q(1)] destroy_touches by blast
    qed
  qed
qed

section \<open>The reading half\<close>

lemma have_touches:
  assumes "have_katcl mem okn oks l s = Inr (v, l', s')"
  shows "touches (set_option (l_ready l) \<union> set_option (l_next l)) s s' \<and> l_stage l' = l_stage l"
proof -
  let ?A = "set_option (l_ready l) \<union> set_option (l_next l)"
  obtain l1 s1 where c: "(if ready_katcl l \<noteq> None then clear_katcl l s else Inr (l, s)) = Inr (l1, s1)"
      "parse_katcl mem okn oks l1 s1 = Inr (v, l', s')"
    using assms by (auto simp: have_katcl_def bind_res_Inr_iff)
  have l1: "l1 = l\<lparr>l_ready := None\<rparr>" "touches ?A s s1"
  proof -
    have "l1 = l\<lparr>l_ready := None\<rparr> \<and> touches ?A s s1"
    proof (cases "l_ready l")
      case None
      then have "l\<lparr>l_ready := None\<rparr> = l" by (cases l) simp
      then show ?thesis using c(1) None by (simp add: ready_katcl_def)
    next
      case (Some a)
      then show ?thesis using c(1) touches_mono [OF destroy_touches]
        by (fastforce simp: ready_katcl_def clear_katcl_def bind_res_Inr_iff)
    qed
    then show "l1 = l\<lparr>l_ready := None\<rparr>" "touches ?A s s1" by simp_all
  qed
  obtain a where a: "l_next l = Some a" using c(2) l1(1) by (auto simp: parse_katcl_def split: option.splits)
  obtain err s2 where p: "on_parse a (parse_loop mem) s1 = Inr (err, s2)"
      "(if err \<noteq> 0 then Inr (-1, l1\<lparr>l_error := err\<rparr>, s2)
        else bind_res (deref a s2) (\<lambda>p.
          if p_state p \<noteq> PARSE_DONE then Inr (0, l1, s2)
          else parse_done okn oks l1 a s2)) = Inr (v, l', s')"
    using c(2) l1(1) a by (auto simp: parse_katcl_def bind_res_Inr_iff)
  have t2: "touches ?A s s2" using touches_then [OF l1(2) on_parse_touches [OF p(1)]] a by auto
  show ?thesis
  proof (cases "parse_done okn oks l1 a s2 = Inr (v, l', s')")
    case False
    then show ?thesis using p(2) t2 l1(1) by (auto simp: bind_res_Inr_iff split: if_splits)
  next
    case True
    then obtain x s3 where x: "create_referenced_parse_katcl okn s2 = Inr (x, s3)"
      by (auto simp: parse_done_def bind_res_Inr_iff)
    have t3: "touches ?A s s3" using touches_then [OF t2] create_touches [OF x] by blast
    show ?thesis
    proof (cases x)
      case None
      then show ?thesis using True x t3 l1(1) by (auto simp: parse_done_def)
    next
      case (Some b)
      then have b: "st_fresh s \<le> b" using create_touches [OF x] t2 by (simp add: touches_def)
      obtain p s5 where d: "st_heap s3 a = Some p" "l' = l1\<lparr>l_next := Some b, l_ready := Some a\<rparr>" "s' = s5"
          "(if p_used p < p_have p
            then bind_res (on_parse b (stash_remainder_parse_katcl oks (parse_unread p)) s3) (\<lambda>(_, s4).
                 Inr (st_put a (p\<lparr>p_have := p_used p\<rparr>) s4))
            else Inr s3) = Inr s5"
        using True x Some l1(1) by (auto simp: parse_done_def bind_res_Inr_iff drop_parse_def deref_def split: option.splits)
      have "touches ?A s s5"
      proof (cases "p_used p < p_have p")
        case False
        then show ?thesis using d(4) t3 by simp
      next
        case True
        then obtain u s4 where s4: "on_parse b (stash_remainder_parse_katcl oks (parse_unread p)) s3 = Inr (u, s4)"
            "s5 = st_put a (p\<lparr>p_have := p_used p\<rparr>) s4"
          using d(4) by (auto simp: bind_res_Inr_iff)
        have "touches ?A s s4" using touches_then [OF t3 on_parse_touches [OF s4(1)]] b by auto
        moreover have "touches {a} s4 s5" by (simp add: s4(2))
        ultimately show ?thesis using a by (auto intro: touches_then)
      qed
      then show ?thesis using d(2,3) l1(1) by simp
    qed
  qed
qed


section \<open>The other lines\<close>

lemma held_alone:
  assumes "refs_ok s (add_mset c M)" "st_heap s c = Some p" "p_refs p = 1"
  shows "c \<notin># M"
  using refs_ok_live [OF assms(1), of c] assms(2,3) by (auto simp: not_in_iff)

text \<open>The addresses of a line that an operation on it can touch.\<close>

definition own_set :: "line \<Rightarrow> nat set" where
  "own_set l = set_option (l_next l) \<union> set_option (l_ready l) \<union> set_option (l_stage l)"

lemma own_line_refs: "own_set l \<subseteq> set_mset (line_refs l)"
  by (auto simp: own_set_def line_refs_def opt_refs_def split: option.splits)

text \<open>A line sees no change: what it reads, has ready, has staged and owes is the same.\<close>

definition same_line :: "store \<Rightarrow> store \<Rightarrow> line \<Rightarrow> bool" where
  "same_line s s' l \<longleftrightarrow> (\<forall>t u. next_view s' l t u = next_view s l t u) \<and> ready_view s' l = ready_view s l \<and>
     (\<forall>es ts. stage_is s l es ts \<longrightarrow> stage_is s' l es ts) \<and>
     (out_ok False l s \<longrightarrow> out_ok False l s' \<and> line_wire l s' = line_wire l s)"

lemma other_line:
  assumes la: "line_ok s la (line_refs lb + G)" and lb: "line_ok s lb (line_refs la + G)"
    and la': "line_ok s' la' (line_refs lb + G)" and t: "touches (own_set la) s s'"
    and same: "same_msgs s s' (line_refs lb + G)"
  shows "line_ok s' lb (line_refs la' + G) \<and> same_line s s' lb"
proof -
  have refs: "refs_ok s (line_refs lb + (line_refs la + G))" using lb by (simp add: line_ok_def)
  have alone: "st_heap s' c = st_heap s c" if c: "c \<in># line_refs lb" "st_heap s c = Some p" "p_refs p = 1" for c p
  proof -
    obtain M where M: "line_refs lb = add_mset c M" using c(1) by (metis mset_add)
    then have "c \<notin># line_refs la" using held_alone [of s c "M + (line_refs la + G)" p] refs c by simp
    then have "c \<notin> own_set la" using own_line_refs by blast
    moreover have "c < st_fresh s" using refs_ok_live [OF refs, of c] c(1) by auto
    ultimately show ?thesis using t by (simp add: touches_def)
  qed
  obtain b p where b: "l_next lb = Some b" "st_heap s b = Some p" "p_refs p = 1" "p_state p \<noteq> PARSE_FAKE" "pq_inv (l_queue lb)"
    using line_okE [OF lb] by metis
  have nb: "st_heap s' b = Some p" using alone [of b p] b by (simp add: line_refs_def)
  have "refs_ok s' (line_refs lb + (line_refs la' + G))"
    using la' by (simp add: line_ok_def ac_simps)
  then have ok: "line_ok s' lb (line_refs la' + G)" using b nb by (simp add: line_ok_def)
  have view: "next_view s' lb t u = next_view s lb t u" for t u using b nb by (simp add: next_view_def)
  have ready: "ready_view s' lb = ready_view s lb"
  proof (cases "l_ready lb")
    case (Some c)
    then have "c \<in># line_refs lb + G" by (simp add: line_refs_def)
    then obtain q n where "st_heap s c = Some q" "st_heap s' c = Some (q\<lparr>p_refs := n\<rparr>)"
      using same unfolding same_msgs_def by blast
    then show ?thesis using Some by (simp add: ready_view_def)
  qed (simp add: ready_view_def)
  have stage: "stage_is s' lb es ts" if st: "stage_is s lb es ts" for es ts
  proof (cases "l_stage lb")
    case (Some c)
    then have "c \<in># line_refs lb" by (simp add: line_refs_def)
    then show ?thesis using st Some alone [of c] by (auto simp: stage_is_def)
  qed (use st in \<open>simp add: stage_is_def\<close>)
  have out: "out_ok False lb s' \<and> line_wire lb s' = line_wire lb s" if o: "out_ok False lb s"
    by (rule output_same [OF o same]) (auto simp: line_refs_def same_output_def)
  show ?thesis using ok view ready stage out by (simp add: same_line_def)
qed

section \<open>The lines of a server\<close>

definition all_refs :: "line list \<Rightarrow> nat multiset" where
  "all_refs ls = sum_list (map line_refs ls)"

definition rest_refs :: "nat \<Rightarrow> line list \<Rightarrow> nat multiset" where
  "rest_refs i ls = all_refs (take i ls) + all_refs (drop (Suc i) ls)"

lemma all_refs_append [simp]: "all_refs (xs @ ys) = all_refs xs + all_refs ys"
  by (simp add: all_refs_def)

lemma all_refs_Cons [simp]: "all_refs (x # xs) = line_refs x + all_refs xs" "all_refs [] = {#}"
  by (simp_all add: all_refs_def)

lemma all_refs_split: "i < length ls \<Longrightarrow> all_refs ls = line_refs (ls ! i) + rest_refs i ls"
  unfolding rest_refs_def
  by (subst id_take_nth_drop [of i ls], assumption) (simp only: all_refs_append all_refs_Cons ac_simps)

lemma rest_refs_update [simp]: "rest_refs i (ls[i := l]) = rest_refs i ls"
  by (simp add: rest_refs_def)

lemma rest_refs_split:
  assumes "i < length ls" "j < length ls" "i \<noteq> j"
  shows "\<exists>G. rest_refs i ls = line_refs (ls ! j) + G \<and> rest_refs j ls = line_refs (ls ! i) + G \<and>
    rest_refs j (ls[i := l]) = line_refs l + G"
proof -
  have member: "\<exists>H. all_refs xs = line_refs x + H" if "x \<in> set xs" for x xs
    using that
  proof (induction xs)
    case (Cons a xs)
    show ?case
    proof (cases "x = a")
      case False
      then obtain H where "all_refs xs = line_refs x + H" using Cons by auto
      then have "all_refs (a # xs) = line_refs x + (line_refs a + H)" by (simp add: ac_simps)
      then show ?thesis by blast
    qed auto
  qed simp
  have "ls ! j \<in> set (take i ls @ drop (Suc i) ls)"
  proof (cases "j < i")
    case True
    then show ?thesis using assms by (auto simp: in_set_conv_nth)
  next
    case False
    then have "drop (Suc i) ls ! (j - Suc i) = ls ! j" "j - Suc i < length (drop (Suc i) ls)" using assms by auto
    then show ?thesis by (metis Un_iff nth_mem set_append)
  qed
  then obtain G where G: "rest_refs i ls = line_refs (ls ! j) + G"
    using member [of "ls ! j" "take i ls @ drop (Suc i) ls"] by (auto simp: rest_refs_def)
  have "line_refs (ls ! j) + rest_refs j ls = line_refs (ls ! j) + (line_refs (ls ! i) + G)"
    using all_refs_split [OF assms(1)] all_refs_split [OF assms(2)] G by (simp add: ac_simps)
  then have 1: "rest_refs j ls = line_refs (ls ! i) + G" by simp
  let ?ls = "ls[i := l]"
  have "line_refs (ls ! j) + rest_refs j ?ls = line_refs (ls ! j) + (line_refs l + G)"
    using all_refs_split [of i ?ls] all_refs_split [of j ?ls] G assms by (simp add: ac_simps)
  then have "rest_refs j ?ls = line_refs l + G" by simp
  with G 1 show ?thesis by blast
qed

text \<open>All lines are in order, each with the references of the others and of the rest of the
  program as its surroundings.\<close>

definition lines_ok :: "store \<Rightarrow> line list \<Rightarrow> nat multiset \<Rightarrow> bool" where
  "lines_ok s ls F \<longleftrightarrow>
     (\<forall>i < length ls. line_ok s (ls ! i) (rest_refs i ls + F) \<and> out_ok False (ls ! i) s)"

lemma lines_step:
  assumes ok: "lines_ok s ls F" and i: "i < length ls"
    and l': "line_ok s' l' (rest_refs i ls + F)" "out_ok False l' s'"
    and t: "touches (own_set (ls ! i)) s s'" and same: "same_msgs s s' (rest_refs i ls + F)"
  shows "lines_ok s' (ls[i := l']) F \<and> (\<forall>j < length ls. j \<noteq> i \<longrightarrow> same_line s s' (ls ! j))"
proof -
  have each: "line_ok s' (ls ! j) (rest_refs j (ls[i := l']) + F) \<and> same_line s s' (ls ! j)"
    if j: "j < length ls" "j \<noteq> i" for j
  proof -
    obtain G where G: "rest_refs i ls = line_refs (ls ! j) + G" "rest_refs j ls = line_refs (ls ! i) + G"
        "rest_refs j (ls[i := l']) = line_refs l' + G"
      using rest_refs_split [of i ls j l'] i j by blast
    have "line_ok s (ls ! i) (line_refs (ls ! j) + (G + F))" "line_ok s (ls ! j) (line_refs (ls ! i) + (G + F))"
      using ok i j(1) G unfolding lines_ok_def by (metis add.assoc)+
    moreover have "line_ok s' l' (line_refs (ls ! j) + (G + F))" "same_msgs s s' (line_refs (ls ! j) + (G + F))"
      using l'(1) same G by (simp_all add: ac_simps)
    ultimately have "line_ok s' (ls ! j) (line_refs l' + (G + F)) \<and> same_line s s' (ls ! j)"
      using t by (intro other_line)
    then show ?thesis by (simp only: G(3) add.assoc)
  qed
  have "line_ok s' (ls[i := l'] ! j) (rest_refs j (ls[i := l']) + F) \<and> out_ok False (ls[i := l'] ! j) s'"
    if j: "j < length ls" for j
  proof (cases "j = i")
    case True
    then show ?thesis using l' i by simp
  next
    case False
    then show ?thesis using each [OF j False] ok j by (simp add: same_line_def lines_ok_def)
  qed
  then show ?thesis using each by (simp add: lines_ok_def)
qed

lemma lines_ok_nth: "lines_ok s ls F \<Longrightarrow> i < length ls \<Longrightarrow> line_ok s (ls ! i) (rest_refs i ls + F) \<and> out_ok False (ls ! i) s"
  by (simp add: lines_ok_def)

lemma same_line_refl [simp]: "same_line s s l"
  by (simp add: same_line_def)

lemma same_line_trans: "same_line s s1 l \<Longrightarrow> same_line s1 s2 l \<Longrightarrow> same_line s s2 l"
  by (simp add: same_line_def)

end
