(* ===== verification/Dispatch.thy ===== *)
theory Dispatch
  imports Line_Frame
begin

text \<open>
  The dispatcher (\<open>katcp/dispatch.c\<close>): clients (\<open>struct katcp_dispatch\<close>), each with its line,
  that share the list of commands, the mode and the default log level (\<open>struct katcp_shared\<close>).
  A complete message is looked up among the commands and given to the callback, whose result
  decides on the reply. Log messages go to every client that asked for their level.

  A client is its index in \<open>ds_all\<close>; \<open>s_clients\<close> are the clients in use and \<open>s_template\<close> the
  one that does no output. \<open>s_vector\<close> holds the names of the modes. The model is that of a
  server without the groups of the newer interface (\<open>katcp/dpx-core.c\<close>): \<open>this_flat_katcp\<close>
  returns a null pointer and there are no groups. Callbacks, the clock and the allocator are
  parameters; a step number \<open>ds_tick\<close> lets them answer differently each time. \<open>'u\<close> is the
  rest of the program.
\<close>

unbundle bit_operations_syntax

section \<open>State\<close>

record client =
  d_level :: nat
  d_run :: int
  d_exit :: int
  d_pause :: int
  d_line :: line
  d_current :: "nat option"
  d_count :: nat

record 'u disp =
  ds_all :: "client list"
  ds_store :: store
  s_clients :: "nat list"
  s_count :: nat
  s_template :: nat
  s_commands :: "cmd list"
  s_mode :: nat
  s_vector :: "string option list"
  s_default :: nat
  s_prehook :: "nat option"
  s_posthook :: "nat option"
  ds_tick :: nat
  ds_user :: 'u

text \<open>\<open>e_call f d n\<close> is a call of the callback at address \<open>f\<close> for client \<open>d\<close> with \<open>n\<close>
  arguments, \<open>e_pointer\<close> what the format \<open>%p\<close> prints for a client.\<close>

record 'u env =
  e_mem :: "nat \<Rightarrow> nat \<Rightarrow> bool"
  e_now :: "nat \<Rightarrow> timeval option"
  e_major5 :: bool
  e_pointer :: "nat \<Rightarrow> string"
  e_call :: "nat \<Rightarrow> nat \<Rightarrow> nat \<Rightarrow> 'u disp \<Rightarrow> (int \<times> 'u disp) res"

definition client_at :: "nat \<Rightarrow> 'u disp \<Rightarrow> client res" where
  "client_at d st = (if d < length (ds_all st) then Inr (ds_all st ! d) else Inl UseAfterFree)"

definition put_client :: "nat \<Rightarrow> client \<Rightarrow> 'u disp \<Rightarrow> 'u disp" where
  "put_client d c st = st\<lparr>ds_all := (ds_all st)[d := c]\<rparr>"

text \<open>An operation on the line of a client, with the allocations of this step.\<close>

definition on_line ::
  "'u env \<Rightarrow> nat \<Rightarrow> ((nat \<Rightarrow> bool) \<Rightarrow> line \<Rightarrow> store \<Rightarrow> ('a \<times> line \<times> store) res) \<Rightarrow> 'u disp \<Rightarrow> ('a \<times> 'u disp) res" where
  "on_line e d f st =
     bind_res (client_at d st) (\<lambda>c.
     bind_res (f (e_mem e (ds_tick st)) (d_line c) (ds_store st)) (\<lambda>(v, l, s).
     Inr (v, (put_client d (c\<lparr>d_line := l\<rparr>) st)\<lparr>ds_store := s, ds_tick := ds_tick st + 1\<rparr>)))"

section \<open>Arguments and answers\<close>

definition arg_string_katcp :: "nat \<Rightarrow> nat \<Rightarrow> 'u disp \<Rightarrow> string option res" where
  "arg_string_katcp d index st = bind_res (client_at d st) (\<lambda>c. arg_string_katcl (d_line c) index (ds_store st))"

definition arg_count_katcp :: "nat \<Rightarrow> 'u disp \<Rightarrow> nat res" where
  "arg_count_katcp d st = bind_res (client_at d st) (\<lambda>c. arg_count_katcl (d_line c) (ds_store st))"

definition append_string_katcp :: "'u env \<Rightarrow> nat \<Rightarrow> flags \<Rightarrow> string option \<Rightarrow> 'u disp \<Rightarrow> (int \<times> 'u disp) res" where
  "append_string_katcp e d fl t st = on_line e d (\<lambda>mem l s. append_string_katcl mem l fl t s) st"

definition append_unsigned_long_katcp :: "'u env \<Rightarrow> nat \<Rightarrow> flags \<Rightarrow> u64 \<Rightarrow> 'u disp \<Rightarrow> (int \<times> 'u disp) res" where
  "append_unsigned_long_katcp e d fl v st = on_line e d (\<lambda>mem l s. append_unsigned_long_katcl mem l fl v s) st"

definition append_vargs_katcp :: "'u env \<Rightarrow> nat \<Rightarrow> flags \<Rightarrow> string option \<Rightarrow> 'u disp \<Rightarrow> (int \<times> 'u disp) res" where
  "append_vargs_katcp e d fl t st = on_line e d (\<lambda>mem l s. append_vargs_katcl mem l fl t s) st"

text \<open>The name of the message that is ready, with its type changed, starts an answer.\<close>

definition prepend_generic_katcp :: "'u env \<Rightarrow> nat \<Rightarrow> bool \<Rightarrow> 'u disp \<Rightarrow> (int \<times> 'u disp) res" where
  "prepend_generic_katcp e d reply st =
     bind_res (arg_string_katcp d 0 st) (\<lambda>message.
     case message of
       None \<Rightarrow> Inr (-1, st)
     | Some m \<Rightarrow>
       if \<not> e_mem e (ds_tick st) 20 then Inr (-1, st)
       else if m = [] then Inl OutOfBounds
       else append_string_katcp e d (KATCP_FLAG_FIRST OR KATCP_FLAG_STRING)
              (Some ((if reply then KATCP_REPLY else KATCP_INFORM) # tl m)) st)"

definition prepend_reply_katcp :: "'u env \<Rightarrow> nat \<Rightarrow> 'u disp \<Rightarrow> (int \<times> 'u disp) res" where
  "prepend_reply_katcp e d st = prepend_generic_katcp e d True st"

definition prepend_inform_katcp :: "'u env \<Rightarrow> nat \<Rightarrow> 'u disp \<Rightarrow> (int \<times> 'u disp) res" where
  "prepend_inform_katcp e d st = prepend_generic_katcp e d False st"

definition KATCP_RESULT_PAUSE :: int where "KATCP_RESULT_PAUSE = 3"
definition KATCP_RESULT_YIELD :: int where "KATCP_RESULT_YIELD = 2"
definition KATCP_RESULT_OWN :: int where "KATCP_RESULT_OWN = 1"
definition KATCP_RESULT_FAIL :: int where "KATCP_RESULT_FAIL = -1"
definition KATCP_RESULT_INVALID :: int where "KATCP_RESULT_INVALID = -2"

definition extra_response_katcp ::
  "'u env \<Rightarrow> nat \<Rightarrow> int \<Rightarrow> string option option \<Rightarrow> 'u disp \<Rightarrow> (int \<times> 'u disp) res" where
  "extra_response_katcp e d code fmt st =
     (if code > KATCP_RESULT_OK then Inr (code, st)
      else
        bind_res (code_to_name_katcm code) (\<lambda>name.
        let result = (case name of Some n \<Rightarrow> n | None \<Rightarrow> ''invalid'') in
        bind_res (prepend_reply_katcp e d st) (\<lambda>(r, st1).
        if r < 0 then Inr (KATCP_RESULT_FAIL, st1)
        else case fmt of
          Some t \<Rightarrow>
            bind_res (append_string_katcp e d KATCP_FLAG_STRING (Some result) st1) (\<lambda>(_, st2).
            bind_res (append_vargs_katcp e d KATCP_FLAG_LAST t st2) (\<lambda>(_, st3).
            Inr (KATCP_RESULT_OWN, st3)))
        | None \<Rightarrow>
            bind_res (append_string_katcp e d (KATCP_FLAG_STRING OR KATCP_FLAG_LAST) (Some result) st1) (\<lambda>(_, st2).
            Inr (KATCP_RESULT_OWN, st2)))))"

definition basic_inform_katcp :: "'u env \<Rightarrow> nat \<Rightarrow> string \<Rightarrow> string option \<Rightarrow> 'u disp \<Rightarrow> (int \<times> 'u disp) res" where
  "basic_inform_katcp e d name arg st =
     (case arg of
        Some a \<Rightarrow>
          bind_res (append_string_katcp e d (KATCP_FLAG_STRING OR KATCP_FLAG_FIRST) (Some name) st) (\<lambda>(_, st1).
          bind_res (append_string_katcp e d (KATCP_FLAG_STRING OR KATCP_FLAG_LAST) (Some a) st1) (\<lambda>(_, st2).
          Inr (0, st2)))
      | None \<Rightarrow>
          bind_res (append_string_katcp e d (KATCP_FLAG_STRING OR (KATCP_FLAG_FIRST OR KATCP_FLAG_LAST)) (Some name) st)
            (\<lambda>(_, st1). Inr (0, st1)))"

fun broadcast_loop :: "'u env \<Rightarrow> string \<Rightarrow> string option \<Rightarrow> nat list \<Rightarrow> int \<Rightarrow> 'u disp \<Rightarrow> (int \<times> 'u disp) res" where
  "broadcast_loop e name arg [] acc st = Inr (acc, st)"
| "broadcast_loop e name arg (i # is) acc st =
     bind_res (basic_inform_katcp e i name arg st) (\<lambda>(result, st1).
     if result < 0 then Inr (-1, st1) else broadcast_loop e name arg is (acc + result) st1)"

definition broadcast_inform_katcp :: "'u env \<Rightarrow> string \<Rightarrow> string option \<Rightarrow> 'u disp \<Rightarrow> (int \<times> 'u disp) res" where
  "broadcast_inform_katcp e name arg st = broadcast_loop e name arg (s_clients st) 0 st"

section \<open>Logging\<close>

definition KATCP_MASK_LEVELS :: u32 where "KATCP_MASK_LEVELS = 0xff"
definition KATCP_LEVEL_LOCAL :: u32 where "KATCP_LEVEL_LOCAL = 0x200"
definition KATCP_CODEBASE_NAME :: string where "KATCP_CODEBASE_NAME = ''Ckatcp''"

definition check_log_message_katcp ::
  "'u env \<Rightarrow> nat \<Rightarrow> int \<Rightarrow> nat \<Rightarrow> string \<Rightarrow> string option \<Rightarrow> 'u disp \<Rightarrow> (int \<times> 'u disp) res" where
  \<comment> \<open>the limit is the level of the client\<close>
  "check_log_message_katcp e d acc level name t st =
     bind_res (client_at d st) (\<lambda>c.
     if level < d_level c then Inr (0, st)
     else bind_res (on_line e d (\<lambda>mem l s.
              vlog_message_katcl mem (e_major5 e) (e_now e (ds_tick st)) l (int level) (Some name) t s) st)
            (\<lambda>(result, st1).
            Inr (if acc < 0 then acc else if result < 0 then result else acc + result, st1)))"

fun log_loop ::
  "'u env \<Rightarrow> nat \<Rightarrow> string \<Rightarrow> string option \<Rightarrow> nat list \<Rightarrow> int \<Rightarrow> 'u disp \<Rightarrow> (int \<times> 'u disp) res" where
  "log_loop e level name t [] acc st = Inr (acc, st)"
| "log_loop e level name t (i # is) acc st =
     bind_res (check_log_message_katcp e i acc level name t st) (\<lambda>(acc1, st1).
     log_loop e level name t is acc1 st1)"

text \<open>The message that is built for the groups of the newer interface and, as there are none,
  released again: \<open>log_parse_katcp\<close> counts no line, and the sum is multiplied by it.\<close>

definition log_groups :: "'u env \<Rightarrow> nat \<Rightarrow> string \<Rightarrow> string option \<Rightarrow> 'u disp \<Rightarrow> (int option \<times> 'u disp) res" where
  "log_groups e level name t st =
     bind_res (create_referenced_parse_katcl (e_mem e (ds_tick st) 0) (ds_store st)) (\<lambda>(px, s1).
     case px of
       None \<Rightarrow> Inr (None, st\<lparr>ds_store := s1\<rparr>)
     | Some a \<Rightarrow>
       bind_res (on_parse a (vlog_parse_katcl (e_mem e (ds_tick st)) (e_major5 e) (e_now e (ds_tick st))
                  (int level) (Some name) t) s1) (\<lambda>(result, s2).
       bind_res (destroy_parse_katcl (Some a) s2) (\<lambda>s3.
       Inr (Some (if result > 0 then 0 else result), st\<lparr>ds_store := s3, ds_tick := ds_tick st + 1\<rparr>))))"

definition mode_name :: "'u disp \<Rightarrow> string res" where
  "mode_name st =
     (if s_mode st < length (s_vector st)
      then Inr (case s_vector st ! s_mode st of Some n \<Rightarrow> n | None \<Rightarrow> KATCP_CODEBASE_NAME) else Inl OutOfBounds)"

text \<open>Who gets a message: all clients, or the client itself.\<close>

definition log_targets :: "nat \<Rightarrow> bool \<Rightarrow> 'u disp \<Rightarrow> nat list" where
  "log_targets d local st =
     (if s_count st > 0 then (if s_template st \<noteq> d \<and> local then [d] else s_clients st) else [d])"

definition log_message_katcp ::
  "'u env \<Rightarrow> nat \<Rightarrow> u32 \<Rightarrow> string option \<Rightarrow> string option \<Rightarrow> 'u disp \<Rightarrow> (int \<times> 'u disp) res" where
  "log_message_katcp e d priority name t st =
     (let level = unat (priority AND KATCP_MASK_LEVELS) in
      bind_res (client_at d st) (\<lambda>_.
      bind_res (case name of Some n \<Rightarrow> Inr n | None \<Rightarrow> mode_name st) (\<lambda>prefix.
      bind_res (log_groups e level prefix t st) (\<lambda>(acc, st1).
      case acc of
        None \<Rightarrow> Inr (-1, st1)
      | Some v \<Rightarrow>
          log_loop e level prefix t (log_targets d (priority AND KATCP_LEVEL_LOCAL \<noteq> 0) st1) v st1))))"


text \<open>Relaying a log message that somebody else built. In the loop the result of each append
  goes into a variable that is not used again.\<close>

fun relay_loop :: "'u env \<Rightarrow> int \<Rightarrow> nat \<Rightarrow> nat list \<Rightarrow> 'u disp \<Rightarrow> 'u disp res" where
  "relay_loop e code p [] st = Inr st"
| "relay_loop e code p (i # is) st =
     bind_res (client_at i st) (\<lambda>c.
     if code \<ge> int (d_level c)
     then bind_res (on_line e i (\<lambda>mem l s. append_parse_katcl (mem 0) l p s) st) (\<lambda>(_, st1). relay_loop e code p is st1)
     else relay_loop e code p is st)"

definition log_relay_katcp :: "'u env \<Rightarrow> nat \<Rightarrow> nat \<Rightarrow> 'u disp \<Rightarrow> (int \<times> 'u disp) res" where
  "log_relay_katcp e d p st =
     bind_res (client_at d st) (\<lambda>c.
     bind_res (deref p (ds_store st)) (\<lambda>px.
     bind_res (get_string_parse_katcl px 1) (\<lambda>priority.
     let code = (case priority of None \<Rightarrow> -1 | Some _ \<Rightarrow> log_to_code_katcl priority);
         local = (s_template st \<noteq> d \<and> (of_int code :: u32) AND KATCP_LEVEL_LOCAL \<noteq> 0) in
     if code < 0 then Inr (-1, st)
     else if s_count st > 0 \<and> \<not> local then
       bind_res (relay_loop e code p (s_clients st) st) (\<lambda>st1. Inr (0, st1))
     else if code \<ge> int (d_level c) then on_line e d (\<lambda>mem l s. append_parse_katcl (mem 0) l p s) st
     else Inr (0, st))))"

section \<open>Commands\<close>

text \<open>The name that \<open>deregister\<close> and \<open>update\<close> look for: \<open>None\<close> when there is no memory for
  it.\<close>

definition full_name :: "bool \<Rightarrow> string \<Rightarrow> string option" where
  "full_name ok match = (if typed match then Some match else if ok then Some (KATCP_REQUEST # match) else None)"

definition log_only :: "'u env \<Rightarrow> nat \<Rightarrow> int \<Rightarrow> string \<Rightarrow> int \<Rightarrow> 'u disp \<Rightarrow> (int \<times> 'u disp) res" where
  \<comment> \<open>log and return a value\<close>
  "log_only e d level t v st =
     bind_res (log_message_katcp e d (of_int level) None (Some t) st) (\<lambda>(_, st1). Inr (v, st1))"

definition deregister_command_katcp :: "'u env \<Rightarrow> nat \<Rightarrow> string option \<Rightarrow> 'u disp \<Rightarrow> (int \<times> 'u disp) res" where
  "deregister_command_katcp e d match st =
     (case match of
        None \<Rightarrow> Inr (-1, st)
      | Some m \<Rightarrow>
        if m = [] then log_only e d 3 ''refusing to deregister empty command'' (-1) st
        else case full_name (e_mem e (ds_tick st) 0) m of
          None \<Rightarrow> log_only e d 5 (''unable to allocate '' @ dec_of_nat (length m + 2) @ '' bytes'') (-1) st
        | Some ptr \<Rightarrow>
          (case remove_loop ptr (s_commands st) of
             Some cs \<Rightarrow> Inr (0, st\<lparr>s_commands := cs\<rparr>)
           | None \<Rightarrow> log_only e d 2 (''no match found for '' @ ptr) (-1) st))"

definition update_command_katcp :: "'u env \<Rightarrow> nat \<Rightarrow> string option \<Rightarrow> u32 \<Rightarrow> 'u disp \<Rightarrow> (int \<times> 'u disp) res" where
  "update_command_katcp e d match fl st =
     (case match of
        None \<Rightarrow> Inr (-1, st)
      | Some m \<Rightarrow>
        if m = [] then log_only e d 3 ''refusing to work on empty command'' (-1) st
        else case full_name (e_mem e (ds_tick st) 0) m of
          None \<Rightarrow> log_only e d 5 (''unable to allocate '' @ dec_of_nat (length m + 2) @ '' bytes'') (-1) st
        | Some ptr \<Rightarrow>
          (case update_loop ptr fl (s_commands st) of
             Some cs \<Rightarrow> Inr (0, st\<lparr>s_commands := cs\<rparr>)
           | None \<Rightarrow> log_only e d 2 (''no match found for '' @ ptr) (-1) st))"

text \<open>A mode that is out of range, or negative and so a large unsigned number, is refused.\<close>

definition register_flag_mode_katcp ::
  "'u env \<Rightarrow> nat \<Rightarrow> string option \<Rightarrow> string \<Rightarrow> nat option \<Rightarrow> u32 \<Rightarrow> int \<Rightarrow> 'u disp \<Rightarrow> (int \<times> 'u disp) res" where
  "register_flag_mode_katcp e d match help call fl mode st =
     (if mode < 0 \<or> nat mode \<ge> length (s_vector st)
      then log_only e d 1 (''mode number '' @ dec_of_int mode @ '' is not within range'') (-1) st
      else
        bind_res (new_command (e_mem e (ds_tick st)) match help call fl (nat mode)) (\<lambda>c.
        case c of
          None \<Rightarrow> Inr (-1, st)
        | Some c' \<Rightarrow> Inr (0, st\<lparr>s_commands := link_command c' (s_commands st)\<rparr>)))"

definition register_mode_katcp ::
  "'u env \<Rightarrow> nat \<Rightarrow> string option \<Rightarrow> string \<Rightarrow> nat option \<Rightarrow> int \<Rightarrow> 'u disp \<Rightarrow> (int \<times> 'u disp) res" where
  "register_mode_katcp e d match help call mode st = register_flag_mode_katcp e d match help call 0 mode st"

definition register_katcp ::
  "'u env \<Rightarrow> nat \<Rightarrow> string option \<Rightarrow> string \<Rightarrow> nat option \<Rightarrow> 'u disp \<Rightarrow> (int \<times> 'u disp) res" where
  "register_katcp e d match help call st = register_flag_mode_katcp e d match help call 0 0 st"

definition continue_katcp :: "nat \<Rightarrow> nat option \<Rightarrow> 'u disp \<Rightarrow> (int \<times> 'u disp) res" where
  "continue_katcp d call st = bind_res (client_at d st) (\<lambda>c. Inr (0, put_client d (c\<lparr>d_current := call\<rparr>) st))"

definition hook_commands_katcp :: "'u env \<Rightarrow> nat \<Rightarrow> nat \<Rightarrow> nat option \<Rightarrow> 'u disp \<Rightarrow> (int \<times> 'u disp) res" where
  "hook_commands_katcp e d type hook st =
     (if type = 0 then Inr (0, st\<lparr>s_prehook := hook\<rparr>)
      else if type = 1 then Inr (0, st\<lparr>s_posthook := hook\<rparr>)
      else log_only e d 4 (''unknown hook of type '' @ dec_of_nat type) (-1) st)"

section \<open>Dispatching\<close>

definition LOOKUP_BUFFER :: nat where "LOOKUP_BUFFER = 128"

text \<open>The request is logged as far as it fits the buffer.\<close>

definition log_request :: "'u env \<Rightarrow> nat \<Rightarrow> 'u disp \<Rightarrow> 'u disp res" where
  "log_request e d st =
     bind_res (client_at d st) (\<lambda>c.
     case ready_katcl (d_line c) of
       None \<Rightarrow> Inr st
     | Some a \<Rightarrow>
       bind_res (deref a (ds_store st)) (\<lambda>p.
       bind_res (buffer_from_parse_katcl p (Some (replicate LOOKUP_BUFFER nul))) (\<lambda>(r, b).
       if r > 0 then
         bind_res (log_message_katcp e d 1 None (Some (''client message <'' @ cstr (the b) @ ''>'')) st)
           (\<lambda>(_, st1). Inr st1)
       else Inr st)))"

definition call_hook :: "'u env \<Rightarrow> nat option \<Rightarrow> nat \<Rightarrow> nat \<Rightarrow> 'u disp \<Rightarrow> 'u disp res" where
  "call_hook e hook d argc st =
     (case hook of None \<Rightarrow> Inr st | Some h \<Rightarrow> bind_res (e_call e h d argc st) (\<lambda>(_, st1). Inr st1))"

definition set_current :: "nat \<Rightarrow> nat option \<Rightarrow> 'u disp \<Rightarrow> 'u disp res" where
  "set_current d f st = bind_res (client_at d st) (\<lambda>c. Inr (put_client d (c\<lparr>d_current := f\<rparr>) st))"

definition lookup_katcp :: "'u env \<Rightarrow> nat \<Rightarrow> 'u disp \<Rightarrow> (int \<times> 'u disp) res" where
  "lookup_katcp e d st =
     bind_res (client_at d st) (\<lambda>c.
     if d_current c \<noteq> None then Inr (1, st)
     else if d_pause c \<noteq> 0 then Inr (0, st)
     else
       bind_res (on_line e d (\<lambda>mem l s. have_katcl (\<lambda>i. mem (i + 2)) (mem 0) (mem 1) l s) st) (\<lambda>(r, st1).
       if r < 0 then Inr (-1, st1)
       else if r = 0 then Inr (0, st1)
       else
         bind_res (arg_string_katcp d 0 st1) (\<lambda>str.
         bind_res (log_request e d st1) (\<lambda>st2.
         bind_res (search_loop (s_mode st2) str (s_commands st2)) (\<lambda>found.
         case found of
           None \<Rightarrow> Inr (1, st2)
         | Some cmd \<Rightarrow>
             bind_res (set_current d (c_call cmd) st2) (\<lambda>st3.
             bind_res (arg_count_katcp d st3) (\<lambda>n.
             bind_res (call_hook e (s_prehook st3) d n st3) (\<lambda>st4. Inr (1, st4)))))))))"

text \<open>A callback is left as the current one only when it yields. An unknown request is
  answered, an unknown reply is logged, an unknown inform ignored; \<open>str\<close> is read without a
  look whether it is a null pointer.\<close>

definition after_call :: "'u env \<Rightarrow> nat \<Rightarrow> nat \<Rightarrow> string option \<Rightarrow> int \<Rightarrow> 'u disp \<Rightarrow> 'u disp res" where
  "after_call e d n str r st =
     bind_res (if r \<le> 0 then bind_res (extra_response_katcp e d r None st) (\<lambda>(_, st1). Inr st1) else Inr st) (\<lambda>st1.
     bind_res (if r \<noteq> KATCP_RESULT_YIELD
               then bind_res (call_hook e (s_posthook st1) d n st1) (\<lambda>st2. set_current d None st2)
               else Inr st1) (\<lambda>st2.
     if r = KATCP_RESULT_PAUSE then
       bind_res (client_at d st2) (\<lambda>c.
       bind_res (if d_count c = 0
                 then bind_res (log_message_katcp e d 1 None
                        (Some (''request '' @ (case str of Some t \<Rightarrow> t | None \<Rightarrow> ''(null)'') @
                               '' is pausing task '' @ e_pointer e d @ '' without having notices pending'')) st2) (\<lambda>(_, st3). Inr st3)
                 else Inr st2) (\<lambda>st3.
       bind_res (client_at d st3) (\<lambda>c'. Inr (put_client d (c'\<lparr>d_pause := 1\<rparr>) st3))))
     else Inr st2))"

definition unknown_message :: "'u env \<Rightarrow> nat \<Rightarrow> string option \<Rightarrow> 'u disp \<Rightarrow> 'u disp res" where
  "unknown_message e d str st =
     (case str of
        None \<Rightarrow> Inl NullDeref
      | Some t \<Rightarrow>
        if t = [] then Inr st
        else if hd t = KATCP_REQUEST then
          (if tl t \<noteq> [] then
             bind_res (extra_response_katcp e d KATCP_RESULT_INVALID (Some (Some ''unknown command'')) st) (\<lambda>(_, st1). Inr st1)
           else Inr st)
        else if hd t = KATCP_REPLY then
          (if tl t \<noteq> [] then
             bind_res (log_message_katcp e d 4 None (Some (''unexpected reply '' @ tl t)) st) (\<lambda>(_, st1). Inr st1)
           else Inr st)
        else Inr st)"

definition call_katcp :: "'u env \<Rightarrow> nat \<Rightarrow> 'u disp \<Rightarrow> (int \<times> 'u disp) res" where
  "call_katcp e d st =
     bind_res (client_at d st) (\<lambda>c.
     bind_res (arg_string_katcp d 0 st) (\<lambda>str.
     bind_res (arg_count_katcp d st) (\<lambda>n.
     case d_current c of
       Some f \<Rightarrow>
         bind_res (e_call e f d n st) (\<lambda>(r, st1).
         bind_res (after_call e d n str r st1) (\<lambda>st2. Inr (r, st2)))
     | None \<Rightarrow> bind_res (unknown_message e d str st) (\<lambda>st1. Inr (KATCP_RESULT_FAIL, st1)))))"

text \<open>The loop of \<open>dispatch_katcp\<close>, with a bound on its rounds: a callback that always yields
  keeps it going for ever.\<close>

fun dispatch_loop :: "'u env \<Rightarrow> nat \<Rightarrow> nat \<Rightarrow> 'u disp \<Rightarrow> (int \<times> 'u disp) option res" where
  "dispatch_loop e 0 d st = Inr None"
| "dispatch_loop e (Suc n) d st =
     bind_res (lookup_katcp e d st) (\<lambda>(r, st1).
     if r \<le> 0 then Inr (Some (r, st1))
     else bind_res (call_katcp e d st1) (\<lambda>(_, st2). dispatch_loop e n d st2))"

definition dispatch_katcp :: "'u env \<Rightarrow> nat \<Rightarrow> nat \<Rightarrow> 'u disp \<Rightarrow> (int \<times> 'u disp) option res" where
  "dispatch_katcp e n d st =
     bind_res (client_at d st) (\<lambda>c. if d_pause c > 0 then Inr (Some (0, st)) else dispatch_loop e n d st)"

section \<open>The end of a client\<close>

definition KATCP_EXIT_NOTYET :: int where "KATCP_EXIT_NOTYET = 0"
definition KATCP_EXIT_HALT :: int where "KATCP_EXIT_HALT = 2"
definition KATCP_EXIT_RESTART :: int where "KATCP_EXIT_RESTART = 3"
definition KATCP_EXIT_ABORT :: int where "KATCP_EXIT_ABORT = 10"

definition resume_katcp :: "client \<Rightarrow> client" where
  "resume_katcp d = d\<lparr>d_pause := 0\<rparr>"

definition exited_katcp :: "client option \<Rightarrow> int" where
  "exited_katcp d =
     (case d of None \<Rightarrow> KATCP_EXIT_ABORT
      | Some c \<Rightarrow> if d_run c > 0 then KATCP_EXIT_NOTYET else d_exit c)"

definition exiting_katcp :: "client option \<Rightarrow> int \<times> client option" where
  "exiting_katcp d =
     (case d of None \<Rightarrow> (0, None)
      | Some c \<Rightarrow> if d_run c = -1 then (1, Some (c\<lparr>d_run := 0\<rparr>)) else (0, Some c))"

definition terminate_katcp :: "client option \<Rightarrow> int \<Rightarrow> int \<times> client option" where
  "terminate_katcp d code =
     (case d of
        None \<Rightarrow> (-1, None)
      | Some c \<Rightarrow>
        let c1 = c\<lparr>d_run := -1, d_exit := (if code < 0 then KATCP_EXIT_ABORT else code)\<rparr> in
        (if d_exit c1 = KATCP_EXIT_ABORT then -1 else 0, Some c1))"

definition halt_cmd_katcp :: "nat \<Rightarrow> nat \<Rightarrow> 'u disp \<Rightarrow> (int \<times> 'u disp) res" where
  "halt_cmd_katcp d argc st =
     bind_res (client_at d st) (\<lambda>c.
     Inr (KATCP_RESULT_OK, put_client d (the (snd (terminate_katcp (Some c) KATCP_EXIT_HALT))) st))"

definition restart_cmd_katcp :: "nat \<Rightarrow> nat \<Rightarrow> 'u disp \<Rightarrow> (int \<times> 'u disp) res" where
  "restart_cmd_katcp d argc st =
     bind_res (client_at d st) (\<lambda>c.
     Inr (KATCP_RESULT_OK, put_client d (the (snd (terminate_katcp (Some c) KATCP_EXIT_RESTART))) st))"

definition watchdog_cmd_katcp :: "nat \<Rightarrow> nat \<Rightarrow> 'u disp \<Rightarrow> (int \<times> 'u disp) res" where
  "watchdog_cmd_katcp d argc st = Inr (KATCP_RESULT_OK, st)"

section \<open>Commands about commands and levels\<close>

text \<open>The loop of \<open>help_cmd_katcp\<close>; it counts the informs.\<close>

definition help_shows :: "nat \<Rightarrow> string option \<Rightarrow> cmd \<Rightarrow> bool" where
  "help_shows mode match c \<longleftrightarrow> in_mode mode c \<and>
     (case c_name c of
        None \<Rightarrow> False
      | Some n \<Rightarrow> (case match of Some m \<Rightarrow> strcmp (tl n) m = 0 | None \<Rightarrow> c_flags c AND KATCP_CMD_HIDDEN = 0))"

fun help_loop :: "'u env \<Rightarrow> nat \<Rightarrow> string option \<Rightarrow> cmd list \<Rightarrow> nat \<Rightarrow> 'u disp \<Rightarrow> (nat \<times> 'u disp) res" where
  "help_loop e d match [] shown_so_far st = Inr (shown_so_far, st)"
| "help_loop e d match (c # cs) shown_so_far st =
     (if help_shows (s_mode st) match c then
        bind_res (prepend_inform_katcp e d st) (\<lambda>(_, st1).
        bind_res (append_string_katcp e d KATCP_FLAG_STRING (Some (tl (the (c_name c)))) st1) (\<lambda>(_, st2).
        bind_res (append_string_katcp e d (KATCP_FLAG_STRING OR KATCP_FLAG_LAST) (c_help c) st2) (\<lambda>(_, st3).
        help_loop e d match cs (shown_so_far + 1) st3)))
      else help_loop e d match cs shown_so_far st)"

definition help_cmd_katcp :: "'u env \<Rightarrow> nat \<Rightarrow> nat \<Rightarrow> 'u disp \<Rightarrow> (int \<times> 'u disp) res" where
  "help_cmd_katcp e d argc st =
     bind_res (if argc \<le> 1 then Inr None else arg_string_katcp d 1 st) (\<lambda>match.
     bind_res (log_message_katcp e d 0 None
       (Some (''printing available commands for mode '' @ dec_of_nat (s_mode st))) st) (\<lambda>(_, st1).
     bind_res (help_loop e d match (s_commands st1) 0 st1) (\<lambda>(shown_so_far, st2).
     if shown_so_far > 0 then
       bind_res (prepend_reply_katcp e d st2) (\<lambda>(_, st3).
       bind_res (append_string_katcp e d KATCP_FLAG_STRING (Some ''ok'') st3) (\<lambda>(_, st4).
       bind_res (append_unsigned_long_katcp e d (0x20 OR KATCP_FLAG_LAST) (of_nat shown_so_far) st4) (\<lambda>(_, st5).
       Inr (KATCP_RESULT_OWN, st5))))
     else
       bind_res (extra_response_katcp e d KATCP_RESULT_INVALID (Some (Some ''request'')) st2) (\<lambda>(_, st3).
       Inr (KATCP_RESULT_OWN, st3)))))"

definition name_log_level_katcp :: "client \<Rightarrow> string option \<Rightarrow> int \<times> client" where
  "name_log_level_katcp d name =
     (case name of
        None \<Rightarrow> (int (d_level d), d)
      | Some _ \<Rightarrow>
        let level = log_to_code_katcl name in
        if level < 0 then (-1, d) else (level, d\<lparr>d_level := nat level\<rparr>))"

definition log_level_katcp :: "client \<Rightarrow> nat \<Rightarrow> int \<times> client" where
  "log_level_katcp d level = (if level \<ge> KATCP_MAX_LEVELS then (-1, d) else (int level, d\<lparr>d_level := level\<rparr>))"

fun levels_loop :: "nat list \<Rightarrow> nat \<Rightarrow> 'u disp \<Rightarrow> 'u disp res" where
  "levels_loop [] code st = Inr st"
| "levels_loop (i # is) code st =
     bind_res (client_at i st) (\<lambda>c. levels_loop is code (put_client i (c\<lparr>d_level := code\<rparr>) st))"

definition set_levels :: "nat \<Rightarrow> nat \<Rightarrow> nat \<Rightarrow> 'u disp \<Rightarrow> 'u disp res" where
  "set_levels d global code st =
     (if global = 0 then bind_res (client_at d st) (\<lambda>c. Inr (put_client d (c\<lparr>d_level := code\<rparr>) st))
      else if global = 1 then Inr (st\<lparr>s_default := code\<rparr>)
      else if global = 2 then
        bind_res (levels_loop (s_clients st) code st) (\<lambda>st1. Inr (st1\<lparr>s_default := code\<rparr>))
      else Inr st)"

definition log_level_generic_katcp :: "'u env \<Rightarrow> nat \<Rightarrow> nat \<Rightarrow> nat \<Rightarrow> 'u disp \<Rightarrow> (int \<times> 'u disp) res" where
  "log_level_generic_katcp e d argc global st =
     bind_res
       (if argc > 1 then
          bind_res (arg_string_katcp d 1 st) (\<lambda>requested.
          case requested of
            None \<Rightarrow> Inr (-1, None, st)
          | Some t \<Rightarrow>
            let code = (if strcmp t ''all'' = 0 then KATCP_LEVEL_TRACE else log_to_code_katcl (Some t)) in
            bind_res (if code \<ge> 0 then set_levels d global (nat code) st else Inr st) (\<lambda>st1.
            Inr (code, Some t, st1)))
        else bind_res (client_at d st) (\<lambda>c. Inr (int (d_level c), None, st)))
       (\<lambda>(code, requested, st1).
       case (if code \<ge> 0 then log_to_string_katcl code else None) of
         Some got \<Rightarrow>
           bind_res (prepend_reply_katcp e d st1) (\<lambda>(_, st2).
           bind_res (append_string_katcp e d KATCP_FLAG_STRING (Some ''ok'') st2) (\<lambda>(_, st3).
           bind_res (append_string_katcp e d (KATCP_FLAG_STRING OR KATCP_FLAG_LAST) (Some got) st3) (\<lambda>(_, st4).
           Inr (KATCP_RESULT_OWN, st4))))
       | None \<Rightarrow>
           bind_res (case requested of
                       Some t \<Rightarrow> bind_res (log_message_katcp e d 3 None (Some (''unknown log level '' @ t)) st1)
                                   (\<lambda>(_, st2). Inr st2)
                     | None \<Rightarrow> Inr st1) (\<lambda>st2.
           bind_res (extra_response_katcp e d KATCP_RESULT_INVALID (Some (Some ''level'')) st2) (\<lambda>(_, st3).
           Inr (KATCP_RESULT_OWN, st3))))"

text \<open>With \<open>KATCP_STRICT_CONFORMANCE\<close>, the default, the level is set for all clients.\<close>

definition log_level_cmd_katcp :: "'u env \<Rightarrow> nat \<Rightarrow> nat \<Rightarrow> 'u disp \<Rightarrow> (int \<times> 'u disp) res" where
  "log_level_cmd_katcp e d argc st = log_level_generic_katcp e d argc 2 st"

definition log_default_cmd_katcp :: "'u env \<Rightarrow> nat \<Rightarrow> nat \<Rightarrow> 'u disp \<Rightarrow> (int \<times> 'u disp) res" where
  "log_default_cmd_katcp e d argc st = log_level_generic_katcp e d argc 1 st"

definition log_local_cmd_katcp :: "'u env \<Rightarrow> nat \<Rightarrow> nat \<Rightarrow> 'u disp \<Rightarrow> (int \<times> 'u disp) res" where
  "log_local_cmd_katcp e d argc st = log_level_generic_katcp e d argc 0 st"

definition log_record_cmd_katcp :: "'u env \<Rightarrow> nat \<Rightarrow> nat \<Rightarrow> 'u disp \<Rightarrow> (int \<times> 'u disp) res" where
  "log_record_cmd_katcp e d argc st =
     (if argc > 1 then
        bind_res (arg_string_katcp d (if argc > 2 then 2 else 1) st) (\<lambda>message.
        bind_res (if argc > 2 then arg_string_katcp d 1 st else Inr None) (\<lambda>level.
        let given = log_to_code_katcl level; code = (if level = None \<or> given < 0 then 2 else given) in
        case message of
          None \<Rightarrow> log_only e d 5 ''unable to acquire message'' KATCP_RESULT_FAIL st
        | Some t \<Rightarrow> log_only e d code t KATCP_RESULT_OK st))
      else log_only e d 4 ''require a message to log'' KATCP_RESULT_FAIL st)"

end
