(* ===== verification/Dispatch_Run.thy ===== *)
theory Dispatch_Run
  imports Dispatch
begin

text \<open>
  What the dispatcher sends. The output of a server is tracked as the messages that each client
  is owed; log messages, which may go to anybody at any time, are told apart from the rest.
  Every operation is shown to keep all lines in order and to add exactly its messages to the
  output of the client it works for.
\<close>

unbundle bit_operations_syntax

section \<open>Output\<close>

definition line_at :: "nat \<Rightarrow> 'u disp \<Rightarrow> line" where
  "line_at j st = d_line (ds_all st ! j)"

definition wire_at :: "nat \<Rightarrow> 'u disp \<Rightarrow> string" where
  "wire_at j st = line_wire (line_at j st) (ds_store st)"

text \<open>A message to be sent: its arguments with their marks.\<close>

type_synonym out_msg = "nat list \<times> string list"

definition wires :: "out_msg list \<Rightarrow> string" where
  "wires ms = concat (map (\<lambda>(es, ts). text_of es ts) ms)"

lemma wires_simps [simp]: "wires [] = []" "wires ((es, ts) # ms) = text_of es ts @ wires ms"
  "wires (ms @ ns) = wires ms @ wires ns"
  by (simp_all add: wires_def)

definition no_log :: "out_msg \<Rightarrow> bool" where
  "no_log m \<longleftrightarrow> hd (snd m) \<noteq> KATCP_LOG_INFORM"

definition n_clients :: "'u disp \<Rightarrow> nat" where
  "n_clients st = length (ds_all st)"

definition disp_ok :: "nat multiset \<Rightarrow> 'u disp \<Rightarrow> bool" where
  "disp_ok F st \<longleftrightarrow> lines_ok (ds_store st) (map d_line (ds_all st)) F \<and>
     (\<forall>i \<in> set (s_clients st). i < n_clients st) \<and> s_mode st < length (s_vector st) \<and> commands_ok (s_commands st)"

text \<open>Nothing but lines, store and step number differs.\<close>

definition same_server :: "'u disp \<Rightarrow> 'u disp \<Rightarrow> bool" where
  "same_server st st' \<longleftrightarrow>
     map (\<lambda>c. c\<lparr>d_line := undefined\<rparr>) (ds_all st') = map (\<lambda>c. c\<lparr>d_line := undefined\<rparr>) (ds_all st) \<and>
     st'\<lparr>ds_all := [], ds_store := empty_store, ds_tick := 0\<rparr> = st\<lparr>ds_all := [], ds_store := empty_store, ds_tick := 0\<rparr>"

lemma same_server_length: "same_server st st' \<Longrightarrow> n_clients st' = n_clients st"
  unfolding same_server_def n_clients_def by (metis length_map)

lemma same_server_client:
  assumes "same_server st st'" "j < n_clients st"
  shows "(ds_all st' ! j)\<lparr>d_line := x\<rparr> = (ds_all st ! j)\<lparr>d_line := x\<rparr>"
proof -
  have "length (ds_all st') = length (ds_all st)" using same_server_length [OF assms(1)] by (simp add: n_clients_def)
  then have "(ds_all st' ! j)\<lparr>d_line := undefined\<rparr> = (ds_all st ! j)\<lparr>d_line := undefined\<rparr>"
    using assms unfolding same_server_def n_clients_def by (metis nth_map)
  then have "(ds_all st' ! j)\<lparr>d_line := undefined, d_line := x\<rparr> = (ds_all st ! j)\<lparr>d_line := undefined, d_line := x\<rparr>"
    by simp
  then show ?thesis by simp
qed

lemma same_server_fields:
  assumes "same_server st st'"
  shows "s_clients st' = s_clients st" "s_count st' = s_count st" "s_template st' = s_template st"
    "s_commands st' = s_commands st" "s_mode st' = s_mode st" "s_vector st' = s_vector st"
    "s_default st' = s_default st" "s_prehook st' = s_prehook st" "s_posthook st' = s_posthook st"
    "ds_user st' = ds_user st"
proof -
  note e = assms [unfolded same_server_def, THEN conjunct2]
  show "s_clients st' = s_clients st" using arg_cong [OF e, of s_clients] by simp
  show "s_count st' = s_count st" using arg_cong [OF e, of s_count] by simp
  show "s_template st' = s_template st" using arg_cong [OF e, of s_template] by simp
  show "s_commands st' = s_commands st" using arg_cong [OF e, of s_commands] by simp
  show "s_mode st' = s_mode st" using arg_cong [OF e, of s_mode] by simp
  show "s_vector st' = s_vector st" using arg_cong [OF e, of s_vector] by simp
  show "s_default st' = s_default st" using arg_cong [OF e, of s_default] by simp
  show "s_prehook st' = s_prehook st" using arg_cong [OF e, of s_prehook] by simp
  show "s_posthook st' = s_posthook st" using arg_cong [OF e, of s_posthook] by simp
  show "ds_user st' = ds_user st" using arg_cong [OF e, of ds_user] by simp
qed

lemma same_server_refl [simp]: "same_server st st"
  by (simp add: same_server_def)

lemma same_server_trans: "same_server st st1 \<Longrightarrow> same_server st1 st2 \<Longrightarrow> same_server st st2"
  by (simp add: same_server_def)

lemma same_server_current:
  assumes "same_server st st'" "j < n_clients st"
  shows "d_current (ds_all st' ! j) = d_current (ds_all st ! j)" "d_pause (ds_all st' ! j) = d_pause (ds_all st ! j)"
    "d_level (ds_all st' ! j) = d_level (ds_all st ! j)" "d_count (ds_all st' ! j) = d_count (ds_all st ! j)"
proof -
  note e = same_server_client [OF assms, of undefined]
  show "d_current (ds_all st' ! j) = d_current (ds_all st ! j)" using arg_cong [OF e, of d_current] by simp
  show "d_pause (ds_all st' ! j) = d_pause (ds_all st ! j)" using arg_cong [OF e, of d_pause] by simp
  show "d_level (ds_all st' ! j) = d_level (ds_all st ! j)" using arg_cong [OF e, of d_level] by simp
  show "d_count (ds_all st' ! j) = d_count (ds_all st ! j)" using arg_cong [OF e, of d_count] by simp
qed

text \<open>The effect of an operation for client \<open>d\<close>: \<open>out\<close> are the messages other than log messages
  that it sends to \<open>d\<close>; to the other clients it sends log messages alone. What the lines have
  read, and what the other clients have staged, stays.\<close>

definition sends :: "nat \<Rightarrow> nat \<Rightarrow> out_msg list \<Rightarrow> 'u disp \<Rightarrow> 'u disp \<Rightarrow> bool" where
  "sends d j out st st' \<longleftrightarrow>
     (\<exists>ms. wire_at j st' = wire_at j st @ wires ms \<and> filter no_log ms = (if j = d then out else [])) \<and>
     (\<forall>t u. next_view (ds_store st') (line_at j st') t u = next_view (ds_store st) (line_at j st) t u) \<and>
     ready_view (ds_store st') (line_at j st') = ready_view (ds_store st) (line_at j st) \<and>
     (j \<noteq> d \<longrightarrow> (\<forall>es ts. stage_is (ds_store st) (line_at j st) es ts \<longrightarrow> stage_is (ds_store st') (line_at j st') es ts))"

text \<open>Messages that somebody outside the lines holds are the same before and after.\<close>

definition held_same :: "nat multiset \<Rightarrow> 'u disp \<Rightarrow> 'u disp \<Rightarrow> bool" where
  "held_same F st st' \<longleftrightarrow> (0 < n_clients st \<longrightarrow> same_msgs (ds_store st) (ds_store st') F)"

definition emits :: "nat multiset \<Rightarrow> nat \<Rightarrow> out_msg list \<Rightarrow> 'u disp \<Rightarrow> 'u disp \<Rightarrow> bool" where
  "emits F d out st st' \<longleftrightarrow> disp_ok F st' \<and> same_server st st' \<and> (\<forall>j < n_clients st. sends d j out st st') \<and>
     held_same F st st'"

lemma disp_refs:
  assumes "disp_ok F st" "0 < n_clients st"
  shows "\<exists>M. refs_ok (ds_store st) (M + F)"
proof -
  have "0 < length (map d_line (ds_all st))" using assms(2) by (simp add: n_clients_def)
  then have "line_ok (ds_store st) (map d_line (ds_all st) ! 0) (rest_refs 0 (map d_line (ds_all st)) + F)"
    using assms(1) by (simp add: disp_ok_def lines_ok_def)
  then show ?thesis by (auto simp: line_ok_def add.assoc [symmetric])
qed

lemma held_same_refl:
  assumes "disp_ok F st"
  shows "held_same F st st"
  unfolding held_same_def
proof
  assume "0 < n_clients st"
  then obtain M where "refs_ok (ds_store st) (M + F)" using disp_refs [OF assms] by blast
  then show "same_msgs (ds_store st) (ds_store st) F" using same_msgs_refl by (force simp: same_msgs_def)
qed

lemma held_same_trans:
  "held_same F st st1 \<Longrightarrow> held_same F st1 st2 \<Longrightarrow> n_clients st1 = n_clients st \<Longrightarrow> held_same F st st2"
  unfolding held_same_def by (metis same_msgs_trans)

lemma sends_refl: "sends d j [] st st"
proof -
  have "wire_at j st = wire_at j st @ wires []" by simp
  then show ?thesis unfolding sends_def by (metis filter.simps(1))
qed

lemma emits_refl: "disp_ok F st \<Longrightarrow> emits F d [] st st"
  by (simp add: emits_def sends_refl held_same_refl)

lemma sends_trans:
  assumes "sends d j out st st1" "sends d j out' st1 st2"
  shows "sends d j (out @ out') st st2"
proof -
  obtain ms where "wire_at j st1 = wire_at j st @ wires ms" "filter no_log ms = (if j = d then out else [])"
    using assms(1) unfolding sends_def by blast
  moreover obtain ns where "wire_at j st2 = wire_at j st1 @ wires ns" "filter no_log ns = (if j = d then out' else [])"
    using assms(2) unfolding sends_def by blast
  ultimately have "wire_at j st2 = wire_at j st @ wires (ms @ ns) \<and>
      filter no_log (ms @ ns) = (if j = d then out @ out' else [])" by auto
  then have "\<exists>ms. wire_at j st2 = wire_at j st @ wires ms \<and> filter no_log ms = (if j = d then out @ out' else [])" by blast
  then show ?thesis using assms by (simp add: sends_def)
qed

lemma emits_trans:
  assumes "emits F d out st st1" "emits F d out' st1 st2"
  shows "emits F d (out @ out') st st2"
  using assms same_server_length [of st st1] same_server_trans sends_trans held_same_trans unfolding emits_def by metis

lemma emits_n [simp]: "emits F d out st st' \<Longrightarrow> n_clients st' = n_clients st"
  by (simp add: emits_def same_server_length)

lemma emits_ok: "emits F d out st st' \<Longrightarrow> disp_ok F st'"
  by (simp add: emits_def)

section \<open>An operation on one line\<close>

definition put_line :: "nat \<Rightarrow> line \<Rightarrow> store \<Rightarrow> nat \<Rightarrow> 'u disp \<Rightarrow> 'u disp" where
  "put_line d l s k st = (put_client d ((ds_all st ! d)\<lparr>d_line := l\<rparr>) st)\<lparr>ds_store := s, ds_tick := k\<rparr>"

lemma put_line_at [simp]:
  "d < n_clients st \<Longrightarrow> line_at j (put_line d l s k st) = (if j = d then l else line_at j st)"
  "ds_store (put_line d l s k st) = s" "n_clients (put_line d l s k st) = n_clients st"
  "ds_tick (put_line d l s k st) = k"
  by (auto simp: line_at_def put_line_def put_client_def n_clients_def)

lemma put_line_server: "d < n_clients st \<Longrightarrow> same_server st (put_line d l s k st)"
  by (auto simp: same_server_def put_line_def put_client_def n_clients_def map_update list_update_same_conv)

lemma on_line_result:
  assumes "d < n_clients st" "f (e_mem e (ds_tick st)) (line_at d st) (ds_store st) = Inr (v, l, s)"
  shows "on_line e d f st = Inr (v, put_line d l s (ds_tick st + 1) st)"
  using assms by (simp add: on_line_def client_at_def n_clients_def line_at_def put_line_def)

lemma client_at_ok: "d < n_clients st \<Longrightarrow> client_at d st = Inr (ds_all st ! d)"
  by (simp add: client_at_def n_clients_def)

definition rest_of :: "nat multiset \<Rightarrow> nat \<Rightarrow> 'u disp \<Rightarrow> nat multiset" where
  "rest_of F d st = rest_refs d (map d_line (ds_all st)) + F"

lemma disp_line:
  assumes "disp_ok F st" "d < n_clients st"
  shows "line_ok (ds_store st) (line_at d st) (rest_of F d st)" "out_ok False (line_at d st) (ds_store st)"
  using assms lines_ok_nth [of "ds_store st" "map d_line (ds_all st)" F d]
  by (simp_all add: disp_ok_def n_clients_def line_at_def rest_of_def)

lemma put_line_emits:
  assumes ok: "disp_ok F st" and d: "d < n_clients st"
    and l: "line_ok s l (rest_of F d st)" "out_ok False l s"
    and t: "touches (own_set (line_at d st)) (ds_store st) s" "same_msgs (ds_store st) s (rest_of F d st)"
    and views: "\<And>t u. next_view s l t u = next_view (ds_store st) (line_at d st) t u"
      "ready_view s l = ready_view (ds_store st) (line_at d st)"
    and w: "line_wire l s = wire_at d st @ wires ms" "filter no_log ms = out"
  shows "emits F d out st (put_line d l s k st)"
proof -
  let ?st = "put_line d l s k st" and ?ls = "map d_line (ds_all st)"
  have d': "d < length ?ls" using d by (simp add: n_clients_def)
  have at: "?ls ! j = line_at j st" if "j < n_clients st" for j using that by (simp add: line_at_def n_clients_def)
  from lines_step [of "ds_store st" ?ls F d s l] ok d' at [OF d] l t
  have step: "lines_ok s (?ls[d := l]) F" "\<And>j. j < length ?ls \<Longrightarrow> j \<noteq> d \<Longrightarrow> same_line (ds_store st) s (?ls ! j)"
    by (simp_all add: disp_ok_def rest_of_def)
  have "map d_line (ds_all ?st) = ?ls[d := l]" by (simp add: put_line_def put_client_def map_update)
  then have "disp_ok F ?st"
    using ok step(1) same_server_fields [OF put_line_server [OF d, of l s k]] by (simp add: disp_ok_def)
  moreover have "sends d j out st ?st" if j: "j < n_clients st" for j
  proof (cases "j = d")
    case True
    then show ?thesis using views w d by (auto simp: sends_def wire_at_def)
  next
    case False
    have "same_line (ds_store st) s (line_at j st)" using step(2) [of j] False j at by (simp add: n_clients_def)
    moreover have "out_ok False (line_at j st) (ds_store st)" using disp_line [OF ok j] by simp
    ultimately have "wire_at j ?st = wire_at j st @ wires []" "\<And>t u. next_view s (line_at j st) t u = next_view (ds_store st) (line_at j st) t u"
      "ready_view s (line_at j st) = ready_view (ds_store st) (line_at j st)"
      "\<And>es ts. stage_is (ds_store st) (line_at j st) es ts \<Longrightarrow> stage_is s (line_at j st) es ts"
      using False d by (simp_all add: same_line_def wire_at_def)
    then show ?thesis using False d unfolding sends_def by (simp add: exI [of _ "[]"])
  qed
  moreover have "held_same F st ?st" using t(2) d by (simp add: rest_of_def same_msgs_def held_same_def)
  ultimately show ?thesis using put_line_server [OF d] by (simp add: emits_def)
qed


section \<open>Appending to an answer\<close>

lemma refs_view [simp]: "tok_of (p\<lparr>p_refs := n\<rparr>) = tok_of p" "parse_unread (p\<lparr>p_refs := n\<rparr>) = parse_unread p"
  by (simp_all add: tok_of_def parse_unread_def)

lemma input_views:
  assumes "same_msgs s s' (input_refs l + G)" "l_next l' = l_next l" "l_ready l' = l_ready l"
  shows "next_view s' l' t u = next_view s l t u" "ready_view s' l' = ready_view s l"
proof -
  have k: "\<exists>p n. st_heap s a = Some p \<and> st_heap s' a = Some (p\<lparr>p_refs := n\<rparr>)"
    if "l_next l = Some a \<or> l_ready l = Some a" for a
  proof -
    have "a \<in># input_refs l + G" using that by (auto simp: input_refs_def)
    then show ?thesis using assms(1) unfolding same_msgs_def by blast
  qed
  show "next_view s' l' t u = next_view s l t u"
  proof (cases "l_next l")
    case (Some a)
    then obtain p n where "st_heap s a = Some p" "st_heap s' a = Some (p\<lparr>p_refs := n\<rparr>)" using k by blast
    then show ?thesis using Some assms(2) by (simp add: next_view_def)
  qed (use assms(2) in \<open>simp add: next_view_def\<close>)
  show "ready_view s' l' = ready_view s l"
  proof (cases "l_ready l")
    case (Some a)
    then obtain p n where "st_heap s a = Some p" "st_heap s' a = Some (p\<lparr>p_refs := n\<rparr>)" using k by blast
    then show ?thesis using Some assms(3) by (simp add: ready_view_def)
  qed (use assms(3) in \<open>simp add: ready_view_def\<close>)
qed

definition stage_at :: "nat \<Rightarrow> 'u disp \<Rightarrow> nat list \<Rightarrow> string list \<Rightarrow> bool" where
  "stage_at d st es ts \<longleftrightarrow> stage_is (ds_store st) (line_at d st) es ts"

text \<open>An addition to the message that client \<open>d\<close> has staged; with the last one it is sent.\<close>

definition adds :: "nat multiset \<Rightarrow> nat \<Rightarrow> flags \<Rightarrow> nat list \<Rightarrow> string list \<Rightarrow> 'u disp \<Rightarrow> 'u disp \<Rightarrow> bool" where
  "adds F d fl es ts st st' \<longleftrightarrow>
     emits F d (if has_flag fl KATCP_FLAG_LAST then [(es, ts)] else []) st st' \<and>
     (if has_flag fl KATCP_FLAG_LAST then stage_at d st' [] [] else stage_at d st' es ts)"

lemma append_result_adds:
  assumes ok: "disp_ok F st" and d: "d < n_clients st"
    and r: "append_result (rest_of F d st) fl (line_at d st) (ds_store st) es ts l' s'"
    and t: "touches (set_option (l_stage (line_at d st))) (ds_store st) s'"
    and named: "hd ts \<noteq> KATCP_LOG_INFORM"
  shows "adds F d fl es ts st (put_line d l' s' k st)"
proof -
  let ?last = "has_flag fl KATCP_FLAG_LAST"
  let ?ms = "if ?last then [(es, ts)] else []"
  have a: "line_ok s' l' (rest_of F d st)" "out_ok False l' s'"
    "same_msgs (ds_store st) s' (input_refs (line_at d st) + rest_of F d st)"
    "l_next l' = l_next (line_at d st)" "l_ready l' = l_ready (line_at d st)"
    "line_wire l' s' = wire_at d st @ wires ?ms" "filter no_log ?ms = ?ms"
    using r named by (auto simp: append_result_def wire_at_def no_log_def)
  have "emits F d ?ms st (put_line d l' s' k st)"
  proof (rule put_line_emits [OF ok d a(1,2) _ _ _ _ a(6,7)])
    show "touches (own_set (line_at d st)) (ds_store st) s'" using t by (rule touches_mono) (auto simp: own_set_def)
    show "same_msgs (ds_store st) s' (rest_of F d st)" using a(3) by (rule same_msgs_unionD)
    show "next_view s' l' t u = next_view (ds_store st) (line_at d st) t u" for t u by (rule input_views(1) [OF a(3-5)])
    show "ready_view s' l' = ready_view (ds_store st) (line_at d st)" by (rule input_views(2) [OF a(3-5)])
  qed
  moreover have "if ?last then stage_at d (put_line d l' s' k st) [] [] else stage_at d (put_line d l' s' k st) es ts"
    using r d by (simp add: append_result_def stage_at_def)
  ultimately show ?thesis by (simp add: adds_def)
qed

definition env_ok :: "'u env \<Rightarrow> bool" where
  "env_ok e \<longleftrightarrow> (\<forall>k i. e_mem e k i)"

lemma append_string_adds:
  assumes "disp_ok F st" "d < n_clients st" "stage_at d st es ts" "has_flag fl KATCP_FLAG_FIRST = (ts = [])"
    "env_ok e" "hd (ts @ [b]) \<notin> {[], KATCP_LOG_INFORM}"
  shows "\<exists>v st'. append_string_katcp e d fl (Some b) st = Inr (v, st') \<and> 0 \<le> v \<and> adds F d fl (es @ [1]) (ts @ [b]) st st'"
proof -
  have mem: "\<forall>i. e_mem e (ds_tick st) i" using assms(5) by (simp add: env_ok_def)
  have ne: "hd (ts @ [b]) \<noteq> []" using assms(6) by simp
  obtain l' s' where a: "append_string_katcl (e_mem e (ds_tick st)) (line_at d st) fl (Some b) (ds_store st) = Inr (int (length b) + 1, l', s')"
      "append_result (rest_of F d st) fl (line_at d st) (ds_store st) (es @ [1]) (ts @ [b]) l' s'"
    using append_string_ok [OF disp_line [OF assms(1,2)] assms(3) [unfolded stage_at_def] assms(4) mem ne] by blast
  have "touches (set_option (l_stage (line_at d st))) (ds_store st) s'"
    using a(1) by (auto simp: append_string_katcl_def dest: append_by_touches)
  then have "adds F d fl (es @ [1]) (ts @ [b]) st (put_line d l' s' (ds_tick st + 1) st)"
    using append_result_adds [OF assms(1,2) a(2)] assms(6) by auto
  moreover have "append_string_katcp e d fl (Some b) st = Inr (int (length b) + 1, put_line d l' s' (ds_tick st + 1) st)"
    unfolding append_string_katcp_def using on_line_result [OF assms(2)] a(1) by fast
  moreover have "0 \<le> int (length b) + 1" by linarith
  ultimately show ?thesis by blast
qed

lemma append_vargs_adds:
  assumes "disp_ok F st" "d < n_clients st" "stage_at d st es ts" "has_flag fl KATCP_FLAG_FIRST = (ts = [])"
    "env_ok e" "hd (ts @ [b]) \<notin> {[], KATCP_LOG_INFORM}"
  shows "\<exists>v st'. append_vargs_katcp e d fl (Some b) st = Inr (v, st') \<and> 0 \<le> v \<and> adds F d fl (es @ [1]) (ts @ [b]) st st'"
proof -
  have mem: "\<forall>i. e_mem e (ds_tick st) i" using assms(5) by (simp add: env_ok_def)
  have ne: "hd (ts @ [b]) \<noteq> []" using assms(6) by simp
  obtain l' s' where a: "append_vargs_katcl (e_mem e (ds_tick st)) (line_at d st) fl (Some b) (ds_store st) = Inr (int (length b) + 1, l', s')"
      "append_result (rest_of F d st) fl (line_at d st) (ds_store st) (es @ [1]) (ts @ [b]) l' s'"
    using append_vargs_ok [OF disp_line [OF assms(1,2)] assms(3) [unfolded stage_at_def] assms(4) mem ne] by blast
  have "touches (set_option (l_stage (line_at d st))) (ds_store st) s'"
    using a(1) by (auto simp: append_vargs_katcl_def dest: append_by_touches)
  then have "adds F d fl (es @ [1]) (ts @ [b]) st (put_line d l' s' (ds_tick st + 1) st)"
    using append_result_adds [OF assms(1,2) a(2)] assms(6) by auto
  moreover have "append_vargs_katcp e d fl (Some b) st = Inr (int (length b) + 1, put_line d l' s' (ds_tick st + 1) st)"
    unfolding append_vargs_katcp_def using on_line_result [OF assms(2)] a(1) by fast
  moreover have "0 \<le> int (length b) + 1" by linarith
  ultimately show ?thesis by blast
qed

lemma adds_then:
  assumes "adds F d fl es ts st st1" "\<not> has_flag fl KATCP_FLAG_LAST" "adds F d fl' es' ts' st1 st2"
  shows "adds F d fl' es' ts' st st2"
  using assms emits_trans [of F d "[]" st st1] by (auto simp: adds_def)

lemma addsD:
  assumes "adds F d fl es ts st st1"
  shows "disp_ok F st1" "n_clients st1 = n_clients st"
    "\<not> has_flag fl KATCP_FLAG_LAST \<Longrightarrow> stage_at d st1 es ts"
  using assms by (auto simp: adds_def emits_def same_server_length)

section \<open>Logging\<close>

text \<open>A log call leaves the staged message of every client alone.\<close>

definition logs :: "nat multiset \<Rightarrow> nat \<Rightarrow> 'u disp \<Rightarrow> 'u disp \<Rightarrow> bool" where
  "logs F d st st' \<longleftrightarrow> emits F d [] st st' \<and> (\<forall>es ts. stage_at d st es ts \<longrightarrow> stage_at d st' es ts)"

lemma logs_refl: "disp_ok F st \<Longrightarrow> logs F d st st"
  by (simp add: logs_def emits_refl)

lemma logs_trans: "logs F d st st1 \<Longrightarrow> logs F d st1 st2 \<Longrightarrow> logs F d st st2"
  using emits_trans [of F d "[]" st st1 "[]" st2] by (simp add: logs_def)

text \<open>It does not matter for which client a log call is made.\<close>

lemma logs_other:
  assumes "logs F i st st'" "i < n_clients st" "d < n_clients st"
  shows "logs F d st st'"
proof -
  have "sends d j [] st st'" if "j < n_clients st" for j
  proof -
    have "sends i j [] st st'" using assms(1) that by (simp add: logs_def emits_def)
    moreover have "j = i \<longrightarrow> (\<forall>es ts. stage_is (ds_store st) (line_at j st) es ts \<longrightarrow> stage_is (ds_store st') (line_at j st') es ts)"
      using assms(1) by (simp add: logs_def stage_at_def)
    ultimately show ?thesis unfolding sends_def by (cases "j = i") simp_all
  qed
  moreover have "stage_at d st' es ts" if "stage_at d st es ts" for es ts
  proof (cases "d = i")
    case True
    then show ?thesis using assms(1) that by (simp add: logs_def)
  next
    case False
    have "sends i d [] st st'" using assms(1,3) by (simp add: logs_def emits_def)
    then show ?thesis using False that by (simp add: sends_def stage_at_def)
  qed
  ultimately show ?thesis using assms(1) by (simp add: logs_def emits_def)
qed


lemma queued_logs:
  assumes ok: "disp_ok F st" and d: "d < n_clients st"
    and q: "only_queued (rest_of F d st) (line_at d st) (ds_store st) l' s'" and t: "touches {} (ds_store st) s'"
    and w: "line_wire l' s' = wire_at d st @ wires ms" "filter no_log ms = []"
  shows "logs F d st (put_line d l' s' k st)"
proof -
  let ?s = "ds_store st" and ?l = "line_at d st"
  have q': "line_ok s' l' (rest_of F d st)" "out_ok False l' s'"
    "\<And>b. b \<in># line_refs ?l + rest_of F d st \<Longrightarrow> st_heap s' b = st_heap ?s b"
    using q by (simp_all add: only_queued_def)
  have refs: "refs_ok ?s (line_refs ?l + rest_of F d st)" using disp_line [OF ok d] by (simp add: line_ok_def)
  have same: "same_msgs ?s s' (rest_of F d st)"
    using same_msgs_refl [OF refs] q'(3) unfolding same_msgs_def by simp
  have "touches (own_set ?l) ?s s'" using t by (rule touches_mono) simp
  then have "emits F d [] st (put_line d l' s' k st)"
    using put_line_emits [OF ok d q'(1,2) _ same only_queued_views(2,3) [OF q] w] by simp
  moreover have "stage_at d st es ts \<longrightarrow> stage_at d (put_line d l' s' k st) es ts" for es ts
    using only_queued_views(1) [OF q] d by (simp add: stage_at_def)
  ultimately show ?thesis by (simp add: logs_def)
qed

lemma check_log_ok:
  assumes "disp_ok F st" "d < n_clients st" "env_ok e"
  shows "\<exists>v st'. check_log_message_katcp e d acc level name (Some t) st = Inr (v, st') \<and> logs F d st st'"
proof (cases "level < d_level (ds_all st ! d)")
  case True
  then show ?thesis using assms by (simp add: check_log_message_katcp_def client_at_ok logs_refl)
next
  case False
  let ?mem = "e_mem e (ds_tick st)" and ?now = "e_now e (ds_tick st)"
  let ?r = "vlog_message_katcl ?mem (e_major5 e) ?now (line_at d st) (int level) (Some name) (Some t) (ds_store st)"
  have mem: "?mem i" for i using assms(3) by (simp add: env_ok_def)
  note m = vlog_message_ok [OF disp_line [OF assms(1,2)] refl, of ?mem "int level" "e_major5 e" ?now "Some name" t]
  obtain v l' s' where r: "?r = Inr (v, l', s')"
    using m [THEN conjunct1] mem by (cases ?r) (auto simp: log_outcome_def)
  let ?ms = "if 0 \<le> v then [(log_marks, log_args (e_major5 e) (the ?now) (int level) (Some name) t)] else []"
  have q: "only_queued (rest_of F d st) (line_at d st) (ds_store st) l' s'"
      "line_wire l' s' = wire_at d st @ wires ?ms"
    using m [THEN conjunct1] unfolding log_outcome_def r sum.case prod.case by (auto simp: wire_at_def)
  have "filter no_log ?ms = []" by (simp add: no_log_def log_args_def)
  then have "logs F d st (put_line d l' s' (ds_tick st + 1) st)"
    using queued_logs [OF assms(1,2) q(1) _ q(2)] vlog_message_touches [OF r] by blast
  moreover have "on_line e d (\<lambda>mem l s. vlog_message_katcl mem (e_major5 e) ?now l (int level) (Some name) (Some t) s) st =
      Inr (v, put_line d l' s' (ds_tick st + 1) st)"
    using on_line_result [OF assms(2)] r by fast
  ultimately show ?thesis using False assms(2) by (simp add: check_log_message_katcp_def client_at_ok)
qed

lemma log_loop_ok:
  assumes "disp_ok F st" "d < n_clients st" "\<forall>i \<in> set is. i < n_clients st" "env_ok e"
  shows "\<exists>v st'. log_loop e level name (Some t) is acc st = Inr (v, st') \<and> logs F d st st'"
  using assms
proof (induction "is" arbitrary: st acc)
  case Nil
  then show ?case by (simp add: logs_refl)
next
  case (Cons i "is")
  obtain v st1 where c: "check_log_message_katcp e i acc level name (Some t) st = Inr (v, st1)" "logs F i st st1"
    using check_log_ok [OF Cons.prems(1) _ Cons.prems(4), of i acc level name t] Cons.prems(3) by auto
  have d: "logs F d st st1" using logs_other [OF c(2) _ Cons.prems(2)] Cons.prems(3) by simp
  have e1: "emits F d [] st st1" using d by (simp add: logs_def)
  obtain w st' where "log_loop e level name (Some t) is v st1 = Inr (w, st')" "logs F d st1 st'"
    using Cons.IH [OF emits_ok [OF e1], of v] Cons.prems(2,3,4) emits_n [OF e1] by auto
  then show ?case using c(1) logs_trans [OF d] by auto
qed

lemma log_groups_ok:
  assumes "disp_ok F st" "d < n_clients st" "env_ok e"
  shows "\<exists>v st'. log_groups e level name (Some t) st = Inr (Some v, st') \<and> logs F d st st'"
proof -
  let ?s = "ds_store st" and ?l = "line_at d st" and ?a = "st_fresh (ds_store st)"
  let ?M = "line_refs ?l + rest_of F d st" and ?p = "fresh_parse\<lparr>p_refs := 1\<rparr>"
  let ?mem = "e_mem e (ds_tick st)" and ?now = "e_now e (ds_tick st)"
  let ?f = "vlog_parse_katcl ?mem (e_major5 e) ?now (int level) (Some name) (Some t)"
  note l = disp_line [OF assms(1,2)]
  have mem: "?mem i" for i using assms(3) by (simp add: env_ok_def)
  have refs: "refs_ok ?s ?M" using l by (simp add: line_ok_def)
  obtain s1 where c: "create_referenced_parse_katcl True ?s = Inr (Some ?a, s1)" "refs_ok s1 (add_mset ?a ?M)"
      "?a \<notin># ?M" "same_msgs ?s s1 ?M" "st_heap s1 ?a = Some ?p"
    using built_alone [OF refs] by blast
  obtain v q where q: "?f ?p = Inr (v, q)" "parse_inv q" "p_refs q = 1"
  proof (cases "log_level_ok (int level)")
    case True
    then show thesis
      using vlog_parse_ok [OF blank_fresh _ _ refl, of "int level" ?mem "e_major5 e" ?now "Some name" t] mem that
      by (auto simp: logged_def log_level_ok_def)
  next
    case False
    then show thesis using that [of "-1" ?p] blank_fresh by (auto simp: vlog_parse_katcl_def log_level_ok_def blank_def)
  qed
  obtain s2 where s2: "on_parse ?a ?f s1 = Inr (v, s2)" "refs_ok s2 (add_mset ?a ?M)" "same_msgs s1 s2 ?M"
    using on_parse_ok [OF c(2,3,5), of ?f v q] q by auto
  obtain s3 where s3: "destroy_parse_katcl (Some ?a) s2 = Inr s3" "only_queued (rest_of F d st) ?l ?s ?l s3"
      "line_wire ?l s3 = line_wire ?l ?s"
    using discard_built [OF l s2(2) same_msgs_trans [OF c(4) s2(3)]] by blast
  have "touches {?a} ?s s3"
    using touches_trans touches_mono [OF create_touches [OF c(1), THEN conjunct1], of "{?a}"] on_parse_touches [OF s2(1)]
      destroy_touches [OF s3(1)] by blast
  then have "touches {} ?s s3" by (rule touches_mono) auto
  then have "logs F d st (put_line d ?l s3 (ds_tick st + 1) st)"
    using queued_logs [OF assms(1,2) s3(2), of "[]"] s3(3) by (simp add: wire_at_def)
  moreover have "st\<lparr>ds_store := s3, ds_tick := ds_tick st + 1\<rparr> = put_line d ?l s3 (ds_tick st + 1) st"
    using assms(2) by (simp add: put_line_def put_client_def line_at_def n_clients_def)
  ultimately show ?thesis using c(1) s2(1) s3(1) mem by (simp add: log_groups_def)
qed

lemma log_message_ok:
  assumes "disp_ok F st" "d < n_clients st" "env_ok e"
  shows "\<exists>v st'. log_message_katcp e d priority name (Some t) st = Inr (v, st') \<and> logs F d st st'"
proof -
  let ?level = "unat (priority AND KATCP_MASK_LEVELS)"
  obtain prefix where p: "(case name of Some n \<Rightarrow> Inr n | None \<Rightarrow> mode_name st) = Inr prefix"
    using assms(1) by (cases name) (auto simp: mode_name_def disp_ok_def)
  obtain v st1 where g: "log_groups e ?level prefix (Some t) st = Inr (Some v, st1)" "logs F d st st1"
    using log_groups_ok [OF assms] by blast
  have e1: "emits F d [] st st1" using g(2) by (simp add: logs_def)
  let ?is = "log_targets d (priority AND KATCP_LEVEL_LOCAL \<noteq> 0) st1"
  have "\<forall>i \<in> set ?is. i < n_clients st1"
    using emits_ok [OF e1] assms(2) emits_n [OF e1] by (auto simp: log_targets_def disp_ok_def)
  moreover have "d < n_clients st1" using assms(2) emits_n [OF e1] by simp
  ultimately obtain w st' where "log_loop e ?level prefix (Some t) ?is v st1 = Inr (w, st')" "logs F d st1 st'"
    using log_loop_ok [OF emits_ok [OF e1] _ _ assms(3)] by blast
  then show ?thesis
    using g assms(2) p logs_trans [OF g(2)] by (auto simp: log_message_katcp_def client_at_ok Let_def)
qed


section \<open>Answers\<close>

definition reply_msg :: "string \<Rightarrow> int \<Rightarrow> string option \<Rightarrow> out_msg" where
  "reply_msg n code extra = (replicate (length (reply_list n code extra)) 1, reply_list n code extra)"

lemma arg_string_ready:
  assumes "disp_ok F st" "d < n_clients st" "ready_view (ds_store st) (line_at d st) = Some (args, tag)"
  shows "arg_string_katcp d i st = Inr (if i < length args \<and> args ! i \<noteq> [] then Some (cstr (args ! i)) else None)"
  using ready_string(1) [OF disp_line(1) [OF assms(1,2)] assms(3), of i] assms(2)
  by (simp add: arg_string_katcp_def client_at_ok line_at_def)

lemma arg_count_ready:
  assumes "d < n_clients st" "ready_view (ds_store st) (line_at d st) = Some (args, tag)"
  shows "arg_count_katcp d st = Inr (length args)"
  using assms
  by (auto simp: arg_count_katcp_def client_at_ok line_at_def arg_count_katcl_def with_ready_def ready_view_def
      deref_def get_count_parse_katcl_def split: option.splits)

lemma prepend_ok:
  assumes "disp_ok F st" "d < n_clients st" "env_ok e" "stage_at d st [] []"
    "ready_view (ds_store st) (line_at d st) = Some (n # args, tag)" "cstr n \<noteq> []"
    "c = (if reply then KATCP_REPLY else KATCP_INFORM) # tl (cstr n)" "c \<noteq> KATCP_LOG_INFORM"
  shows "\<exists>v st'. prepend_generic_katcp e d reply st = Inr (v, st') \<and> 0 \<le> v \<and>
    adds F d (KATCP_FLAG_FIRST OR KATCP_FLAG_STRING) [1] [c] st st'"
proof -
  have ne: "n \<noteq> []" using assms(6) by (auto simp: cstr_def)
  have "c \<noteq> []" using assms(7) by (cases reply) auto
  then obtain v st' where "append_string_katcp e d (KATCP_FLAG_FIRST OR KATCP_FLAG_STRING) (Some c) st = Inr (v, st')"
      "0 \<le> v" "adds F d (KATCP_FLAG_FIRST OR KATCP_FLAG_STRING) [1] [c] st st'"
    using append_string_adds [OF assms(1,2,4) _ assms(3), of "KATCP_FLAG_FIRST OR KATCP_FLAG_STRING" c] assms(8) by auto
  then show ?thesis
    using arg_string_ready [OF assms(1,2,5), of 0] ne assms(3,6,7) by (simp add: prepend_generic_katcp_def env_ok_def)
qed

lemma reply_not_log: "KATCP_REPLY # t \<noteq> KATCP_LOG_INFORM"
  by (simp add: KATCP_REPLY_def KATCP_LOG_INFORM_def)

text \<open>A complete answer.\<close>

definition answers :: "nat multiset \<Rightarrow> nat \<Rightarrow> out_msg list \<Rightarrow> 'u disp \<Rightarrow> 'u disp \<Rightarrow> bool" where
  "answers F d out st st' \<longleftrightarrow> emits F d out st st' \<and> stage_at d st' [] []"

lemma adds_answers: "adds F d fl es ts st st' \<Longrightarrow> has_flag fl KATCP_FLAG_LAST \<Longrightarrow> answers F d [(es, ts)] st st'"
  by (simp add: adds_def answers_def)

lemma answers_trans: "answers F d o1 st st1 \<Longrightarrow> answers F d o2 st1 st2 \<Longrightarrow> answers F d (o1 @ o2) st st2"
  using emits_trans by (auto simp: answers_def)

lemma answersD:
  assumes "answers F d out st st'"
  shows "disp_ok F st'" "n_clients st' = n_clients st" "stage_at d st' [] []"
  using assms by (auto simp: answers_def emits_def same_server_length)

lemma logs_answers: "logs F d st st' \<Longrightarrow> stage_at d st [] [] \<Longrightarrow> answers F d [] st st'"
  by (simp add: logs_def answers_def)

lemma answers_views:
  assumes "answers F d out st st'" "d < n_clients st"
  shows "ready_view (ds_store st') (line_at d st') = ready_view (ds_store st) (line_at d st)"
    "next_view (ds_store st') (line_at d st') t u = next_view (ds_store st) (line_at d st) t u"
    "same_server st st'"
proof -
  have s: "sends d d out st st'" using assms by (simp add: answers_def emits_def)
  show "ready_view (ds_store st') (line_at d st') = ready_view (ds_store st) (line_at d st)"
    using s unfolding sends_def by blast
  show "next_view (ds_store st') (line_at d st') t u = next_view (ds_store st) (line_at d st) t u"
    using s unfolding sends_def by blast
  show "same_server st st'" using assms(1) by (simp add: answers_def emits_def)
qed

lemma extra_response_ok:
  assumes ok: "disp_ok F st" "d < n_clients st" "env_ok e" "stage_at d st [] []"
    "ready_view (ds_store st) (line_at d st) = Some (n # args, tag)" "cstr n \<noteq> []" and code: "code \<in> {0, -1, -2, -3}"
  shows "\<exists>st'. extra_response_katcp e d code (map_option Some extra) st = Inr (KATCP_RESULT_OWN, st') \<and>
    answers F d [reply_msg n code extra] st st'"
proof -
  let ?n = "KATCP_REPLY # tl (cstr n)" and ?c = "the (misc_result_table ! nat (- code))"
  have named: "hd ([?n] @ ts) \<notin> {[], KATCP_LOG_INFORM}" for ts
    by (simp only: append_Cons list.sel insert_iff empty_iff reply_not_log list.distinct simp_thms)
  obtain v st1 where 1: "prepend_reply_katcp e d st = Inr (v, st1)" "0 \<le> v"
      "adds F d (KATCP_FLAG_FIRST OR KATCP_FLAG_STRING) [1] [?n] st st1"
  proof -
    have "?n = (if True then KATCP_REPLY else KATCP_INFORM) # tl (cstr n)" by simp
    then show thesis using prepend_ok [OF ok _ reply_not_log] that unfolding prepend_reply_katcp_def by blast
  qed
  note d1 = addsD [OF 1(3)]
  have n1: "d < n_clients st1" and s1: "stage_at d st1 [1] [?n]" using d1 ok(2) by simp_all
  have range: "\<not> code > KATCP_RESULT_OK" using code by (auto simp: KATCP_RESULT_OK_def)
  show ?thesis
  proof (cases extra)
    case None
    obtain w st2 where 2: "append_string_katcp e d (KATCP_FLAG_STRING OR KATCP_FLAG_LAST) (Some ?c) st1 = Inr (w, st2)"
        "adds F d (KATCP_FLAG_STRING OR KATCP_FLAG_LAST) [1, 1] [?n, ?c] st1 st2"
      using append_string_adds [OF d1(1) n1 s1 _ ok(3), of "KATCP_FLAG_STRING OR KATCP_FLAG_LAST" ?c] named [of "[?c]"]
      by (auto simp: flag_defs)
    have "adds F d (KATCP_FLAG_STRING OR KATCP_FLAG_LAST) [1, 1] [?n, ?c] st st2"
      using adds_then [OF 1(3) _ 2(2)] by simp
    then have "answers F d [([1, 1], [?n, ?c])] st st2" by (rule adds_answers) (simp add: flag_defs)
    moreover have "extra_response_katcp e d code (map_option Some extra) st = Inr (KATCP_RESULT_OWN, st2)"
      using range result_names [OF code] 1(1,2) 2(1) None by (simp add: extra_response_katcp_def)
    ultimately show ?thesis using None by (simp add: reply_msg_def reply_list_def)
  next
    case (Some t)
    obtain w st2 where 2: "append_string_katcp e d KATCP_FLAG_STRING (Some ?c) st1 = Inr (w, st2)"
        "adds F d KATCP_FLAG_STRING [1, 1] [?n, ?c] st1 st2"
      using append_string_adds [OF d1(1) n1 s1 _ ok(3), of KATCP_FLAG_STRING ?c] named [of "[?c]"]
      by (auto simp: flag_defs)
    note d2 = addsD [OF 2(2)]
    have n2: "d < n_clients st2" and s2: "stage_at d st2 [1, 1] [?n, ?c]" using d2 n1 by (simp_all add: flag_defs)
    obtain x st3 where 3: "append_vargs_katcp e d KATCP_FLAG_LAST (Some t) st2 = Inr (x, st3)"
        "adds F d KATCP_FLAG_LAST [1, 1, 1] [?n, ?c, t] st2 st3"
      using append_vargs_adds [OF d2(1) n2 s2 _ ok(3), of KATCP_FLAG_LAST t] named [of "[?c, t]"]
      by (auto simp: flag_defs)
    have "adds F d KATCP_FLAG_LAST [1, 1, 1] [?n, ?c, t] st st3"
      using adds_then [OF 1(3) _ adds_then [OF 2(2) _ 3(2)]] by (simp add: flag_defs)
    then have "answers F d [([1, 1, 1], [?n, ?c, t])] st st3" by (rule adds_answers) (simp add: flag_defs)
    moreover have "extra_response_katcp e d code (map_option Some extra) st = Inr (KATCP_RESULT_OWN, st3)"
      using range result_names [OF code] 1(1,2) 2(1) 3(1) Some by (simp add: extra_response_katcp_def)
    ultimately show ?thesis using Some by (simp add: reply_msg_def reply_list_def numeral_3_eq_3)
  qed
qed


section \<open>Serving a client\<close>

text \<open>The weaker relation that a whole run satisfies: what client \<open>d\<close> has read changes, and so
  may the levels, the state of the clients and the rest of the program; the commands stay.\<close>

definition same_config :: "'u disp \<Rightarrow> 'u disp \<Rightarrow> bool" where
  "same_config st st' \<longleftrightarrow> s_commands st' = s_commands st \<and> s_mode st' = s_mode st \<and>
     s_prehook st' = s_prehook st \<and> s_posthook st' = s_posthook st \<and> n_clients st' = n_clients st"

definition serves_line :: "nat \<Rightarrow> nat \<Rightarrow> out_msg list \<Rightarrow> 'u disp \<Rightarrow> 'u disp \<Rightarrow> bool" where
  "serves_line d j out st st' \<longleftrightarrow>
     (\<exists>ms. wire_at j st' = wire_at j st @ wires ms \<and> filter no_log ms = (if j = d then out else [])) \<and>
     (j \<noteq> d \<longrightarrow>
       (\<forall>t u. next_view (ds_store st') (line_at j st') t u = next_view (ds_store st) (line_at j st) t u) \<and>
       ready_view (ds_store st') (line_at j st') = ready_view (ds_store st) (line_at j st) \<and>
       (\<forall>es ts. stage_at j st es ts \<longrightarrow> stage_at j st' es ts))"

definition serves :: "nat multiset \<Rightarrow> nat \<Rightarrow> out_msg list \<Rightarrow> 'u disp \<Rightarrow> 'u disp \<Rightarrow> bool" where
  "serves F d out st st' \<longleftrightarrow> disp_ok F st' \<and> same_config st st' \<and> (\<forall>j < n_clients st. serves_line d j out st st')"

lemma serves_line_trans:
  assumes "serves_line d j out st st1" "serves_line d j out' st1 st2"
  shows "serves_line d j (out @ out') st st2"
proof -
  obtain ms where "wire_at j st1 = wire_at j st @ wires ms" "filter no_log ms = (if j = d then out else [])"
    using assms(1) unfolding serves_line_def by blast
  moreover obtain ns where "wire_at j st2 = wire_at j st1 @ wires ns" "filter no_log ns = (if j = d then out' else [])"
    using assms(2) unfolding serves_line_def by blast
  ultimately have "wire_at j st2 = wire_at j st @ wires (ms @ ns) \<and>
      filter no_log (ms @ ns) = (if j = d then out @ out' else [])" by auto
  then have "\<exists>ms. wire_at j st2 = wire_at j st @ wires ms \<and> filter no_log ms = (if j = d then out @ out' else [])" by blast
  then show ?thesis using assms by (simp add: serves_line_def)
qed

lemma serves_trans: "serves F d out st st1 \<Longrightarrow> serves F d out' st1 st2 \<Longrightarrow> serves F d (out @ out') st st2"
  using serves_line_trans unfolding serves_def same_config_def by metis

lemma sends_serves: "sends d j out st st' \<Longrightarrow> serves_line d j out st st'"
  by (simp add: sends_def serves_line_def stage_at_def)

lemma emits_serves: "emits F d out st st' \<Longrightarrow> serves F d out st st'"
  by (simp add: emits_def serves_def sends_serves same_config_def same_server_fields same_server_length)

lemma serves_refl: "disp_ok F st \<Longrightarrow> serves F d [] st st"
  using emits_serves emits_refl by blast

text \<open>What a callback may do for its client: send messages, and leave the client ready to be
  answered.\<close>

definition handles :: "nat multiset \<Rightarrow> nat \<Rightarrow> out_msg list \<Rightarrow> 'u disp \<Rightarrow> 'u disp \<Rightarrow> bool" where
  "handles F d out st st' \<longleftrightarrow> serves F d out st st' \<and> stage_at d st' [] [] \<and>
     ready_view (ds_store st') (line_at d st') = ready_view (ds_store st) (line_at d st) \<and>
     (\<forall>t u. next_view (ds_store st') (line_at d st') t u = next_view (ds_store st) (line_at d st) t u) \<and>
     d_pause (ds_all st' ! d) = d_pause (ds_all st ! d)"

lemma handles_trans: "handles F d out st st1 \<Longrightarrow> handles F d out' st1 st2 \<Longrightarrow> handles F d (out @ out') st st2"
  using serves_trans by (auto simp: handles_def)

lemma answers_handles: "answers F d out st st' \<Longrightarrow> d < n_clients st \<Longrightarrow> handles F d out st st'"
  using answers_views [of F d out st st'] same_server_current [of st st' d]
  by (simp add: handles_def answers_def emits_serves)

lemma handlesD:
  assumes "handles F d out st st'"
  shows "disp_ok F st'" "n_clients st' = n_clients st" "stage_at d st' [] []"
    "ready_view (ds_store st') (line_at d st') = ready_view (ds_store st) (line_at d st)"
    "s_commands st' = s_commands st" "s_mode st' = s_mode st"
    "s_prehook st' = s_prehook st" "s_posthook st' = s_posthook st" "d_pause (ds_all st' ! d) = d_pause (ds_all st ! d)"
  using assms by (auto simp: handles_def serves_def same_config_def)

text \<open>Changing a client outside of its line, and the shared state outside of the commands.\<close>

lemma put_client_at:
  assumes "d < n_clients st" "d_line c = line_at d st"
  shows "line_at j (put_client d c st) = line_at j st" "wire_at j (put_client d c st) = wire_at j st"
    "n_clients (put_client d c st) = n_clients st" "ds_store (put_client d c st) = ds_store st"
    "map d_line (ds_all (put_client d c st)) = map d_line (ds_all st)"
proof -
  show l: "line_at i (put_client d c st) = line_at i st" for i
    using assms by (cases "i = d") (simp_all add: line_at_def put_client_def n_clients_def)
  show "wire_at j (put_client d c st) = wire_at j st" by (simp add: wire_at_def l) (simp add: put_client_def)
  show "n_clients (put_client d c st) = n_clients st" "ds_store (put_client d c st) = ds_store st"
    by (simp_all add: n_clients_def put_client_def)
  have "d < length (map d_line (ds_all st))" using assms(1) by (simp add: n_clients_def)
  then show "map d_line (ds_all (put_client d c st)) = map d_line (ds_all st)"
    using assms by (simp add: put_client_def map_update line_at_def n_clients_def list_update_same_conv)
qed

definition same_lines :: "'u disp \<Rightarrow> 'u disp \<Rightarrow> bool" where
  "same_lines st st' \<longleftrightarrow> map d_line (ds_all st') = map d_line (ds_all st) \<and> ds_store st' = ds_store st \<and>
     s_commands st' = s_commands st \<and> s_mode st' = s_mode st \<and> s_prehook st' = s_prehook st \<and>
     s_posthook st' = s_posthook st \<and> s_clients st' = s_clients st \<and> s_vector st' = s_vector st"

lemma same_lines_at:
  assumes "same_lines st st'"
  shows "n_clients st' = n_clients st" "j < n_clients st \<Longrightarrow> line_at j st' = line_at j st"
proof -
  have m: "map d_line (ds_all st') = map d_line (ds_all st)" using assms by (simp add: same_lines_def)
  then have l: "length (ds_all st') = length (ds_all st)" by (metis length_map)
  then show "n_clients st' = n_clients st" by (simp add: n_clients_def)
  show "j < n_clients st \<Longrightarrow> line_at j st' = line_at j st"
    using m l unfolding line_at_def n_clients_def by (metis nth_map)
qed

lemma same_lines_handles:
  assumes "disp_ok F st" "d < n_clients st" "stage_at d st [] []" "same_lines st st'"
    "d_pause (ds_all st' ! d) = d_pause (ds_all st ! d)"
  shows "handles F d [] st st'"
proof -
  note l = same_lines_at [OF assms(4)]
  have s: "ds_store st' = ds_store st" using assms(4) by (simp add: same_lines_def)
  have "disp_ok F st'" using assms(1,4) l(1) by (simp add: disp_ok_def same_lines_def)
  moreover have "serves_line d j [] st st'" if "j < n_clients st" for j
  proof -
    have "wire_at j st' = wire_at j st @ wires []" using l(2) [OF that] s by (simp add: wire_at_def)
    then show ?thesis using l(2) [OF that] s unfolding serves_line_def stage_at_def by (metis filter.simps(1))
  qed
  ultimately show ?thesis
    using assms l s by (auto simp: handles_def serves_def same_config_def same_lines_def stage_at_def)
qed

lemma same_lines_put:
  assumes "d < n_clients st" "d_line c = line_at d st"
  shows "same_lines st (put_client d c st)"
  using put_client_at [OF assms] by (simp add: same_lines_def put_client_def)

end
