(* ===== verification/Dispatch_Life.thy ===== *)
theory Dispatch_Life
  imports Dispatch_Run
begin

text \<open>
  The loop of the dispatcher: every request that a client has sent is taken from its line,
  given to its callback and answered by exactly one reply, in order. What a callback has to
  promise is the locale \<open>request_handlers\<close>; the commands that come with the library keep
  the promise.
\<close>

unbundle bit_operations_syntax

section \<open>Taking a message from the line\<close>

lemma parse_done_frame:
  assumes "parse_done okn oks l a s = Inr (v, l', s')"
  shows "l' = l\<lparr>l_ready := l_ready l', l_next := l_next l', l_error := l_error l'\<rparr>"
  using assms by (auto simp: parse_done_def bind_res_Inr_iff split: option.splits if_splits)

lemma have_frame:
  assumes "have_katcl mem okn oks l s = Inr (v, l', s')"
  shows "l' = l\<lparr>l_ready := l_ready l', l_next := l_next l', l_error := l_error l'\<rparr>"
proof -
  obtain l1 s1 where c: "(if ready_katcl l \<noteq> None then clear_katcl l s else Inr (l, s)) = Inr (l1, s1)"
      "parse_katcl mem okn oks l1 s1 = Inr (v, l', s')"
    using assms by (auto simp: have_katcl_def bind_res_Inr_iff)
  have 1: "l1 = l\<lparr>l_ready := l_ready l1\<rparr>"
    using c(1) by (auto simp: clear_katcl_def bind_res_Inr_iff split: if_splits)
  have 2: "l' = l1\<lparr>l_ready := l_ready l', l_next := l_next l', l_error := l_error l'\<rparr>"
    using c(2) parse_done_frame
    by (auto simp: parse_katcl_def bind_res_Inr_iff split: option.splits if_splits)
  have "l1\<lparr>l_ready := a, l_next := b, l_error := c\<rparr> = l\<lparr>l_ready := a, l_next := b, l_error := c\<rparr>" for a b c
    by (subst 1) simp
  then show ?thesis using 2 by simp
qed

lemma have_on_line:
  assumes ok: "disp_ok F st" and d: "d < n_clients st" and e: "env_ok e"
    and u: "next_view (ds_store st) (line_at d st) t u"
  defines "r \<equiv> on_line e d (\<lambda>mem l s. have_katcl (\<lambda>i. mem (i + 2)) (mem 0) (mem 1) l s) st"
  shows "\<exists>v st1. r = Inr (v, st1) \<and> serves F d [] st st1 \<and> same_server st st1 \<and>
    (stage_at d st [] [] \<longrightarrow> stage_at d st1 [] []) \<and>
    (case tok_run u t of
       None \<Rightarrow> v = -1
     | Some (t', rest) \<Rightarrow>
         if t_state t' = PARSE_DONE
         then v = 1 \<and> ready_view (ds_store st1) (line_at d st1) = Some (t_args t', t_tag t') \<and>
              next_view (ds_store st1) (line_at d st1) tok_init rest
         else v = 0 \<and> next_view (ds_store st1) (line_at d st1) t' rest)"
proof -
  let ?l = "line_at d st" and ?s = "ds_store st"
  have mem: "e_mem e (ds_tick st) i" for i using e by (simp add: env_ok_def)
  note l = disp_line [OF ok d]
  have p: "parse_result (?l\<lparr>l_ready := None\<rparr>) (rest_of F d st) ?s (tok_run u t)
      (have_katcl (\<lambda>i. e_mem e (ds_tick st) (i + 2)) (e_mem e (ds_tick st) 0) (e_mem e (ds_tick st) 1) ?l ?s)"
    using have_ok [OF l(1) u, of "\<lambda>i. e_mem e (ds_tick st) (i + 2)"] mem by simp
  then obtain v l' s' where h: "have_katcl (\<lambda>i. e_mem e (ds_tick st) (i + 2)) (e_mem e (ds_tick st) 0) (e_mem e (ds_tick st) 1) ?l ?s =
      Inr (v, l', s')"
    by (auto simp: parse_result_def split: sum.splits)
  note fr = have_frame [OF h]
  have pr: "line_ok s' l' (rest_of F d st)" "same_msgs ?s s' (kept_refs ?l + rest_of F d st)"
    using p h by (auto simp: parse_result_def kept_refs_def)
  have out: "out_ok False l' s' \<and> line_wire l' s' = line_wire ?l ?s"
    by (rule output_same [OF l(2) pr(2)], auto simp: kept_refs_def) (subst fr, simp add: same_output_def, subst fr, simp)
  let ?st = "put_line d l' s' (ds_tick st + 1) st" and ?ls = "map d_line (ds_all st)"
  have d': "d < length ?ls" "?ls ! d = ?l" using d by (simp_all add: n_clients_def line_at_def)
  have t: "touches (own_set ?l) ?s s'"
    using have_touches [OF h, THEN conjunct1] by (rule touches_mono) (auto simp: own_set_def)
  from lines_step [of ?s ?ls F d s' l'] ok d' pr t out
  have step: "lines_ok s' (?ls[d := l']) F" "\<And>j. j < length ?ls \<Longrightarrow> j \<noteq> d \<Longrightarrow> same_line ?s s' (?ls ! j)"
    by (simp_all add: disp_ok_def rest_of_def same_msgs_unionD)
  have "map d_line (ds_all ?st) = ?ls[d := l']" by (simp add: put_line_def put_client_def map_update)
  then have ok': "disp_ok F ?st"
    using ok step(1) same_server_fields [OF put_line_server [OF d, of l' s' "ds_tick st + 1"]] by (simp add: disp_ok_def)
  have "serves_line d j [] st ?st" if j: "j < n_clients st" for j
  proof (cases "j = d")
    case True
    have "wire_at d ?st = wire_at d st @ wires []" using out d by (simp add: wire_at_def)
    then show ?thesis using True unfolding serves_line_def by (metis filter.simps(1))
  next
    case False
    have "same_line ?s s' (line_at j st)" using step(2) [of j] False j by (simp add: n_clients_def line_at_def)
    moreover have "out_ok False (line_at j st) ?s" using disp_line [OF ok j] by simp
    ultimately have v: "wire_at j ?st = wire_at j st @ wires []"
      "\<And>t u. next_view s' (line_at j st) t u = next_view ?s (line_at j st) t u"
      "ready_view s' (line_at j st) = ready_view ?s (line_at j st)"
      "\<And>es ts. stage_is ?s (line_at j st) es ts \<Longrightarrow> stage_is s' (line_at j st) es ts"
      using False d by (simp_all add: same_line_def wire_at_def)
    have "\<exists>ms. wire_at j ?st = wire_at j st @ wires ms \<and> filter no_log ms = []" using v(1) by (metis filter.simps(1))
    then show ?thesis using v(2-4) False d by (simp add: serves_line_def stage_at_def)
  qed
  then have serves: "serves F d [] st ?st"
    using ok' same_server_fields [OF put_line_server [OF d, of l' s' "ds_tick st + 1"]]
    by (simp add: serves_def same_config_def d)
  have stage: "stage_at d ?st [] []" if "stage_at d st [] []"
  proof -
    have "l_stage ?l = None" using that by (auto simp: stage_at_def stage_is_def split: option.splits)
    then have "l_stage l' = None" using fr by (metis line.select_convs(4) line.surjective line.update_convs(2,3,10))
    then show ?thesis using d by (simp add: stage_at_def stage_is_def)
  qed
  have v: "case tok_run u t of
       None \<Rightarrow> v = -1
     | Some (t', rest) \<Rightarrow>
         if t_state t' = PARSE_DONE
         then v = 1 \<and> ready_view s' l' = Some (t_args t', t_tag t') \<and> next_view s' l' tok_init rest
         else v = 0 \<and> next_view s' l' t' rest"
    using p h by (auto simp: parse_result_def split: option.splits if_splits)
  have at: "ds_store ?st = s'" "line_at d ?st = l'" using d by simp_all
  have "r = Inr (v, ?st)" unfolding r_def using on_line_result [OF d] h by fast
  moreover note serves put_line_server [OF d, of l' s' "ds_tick st + 1"]
  moreover have "stage_at d st [] [] \<longrightarrow> stage_at d ?st [] []" using stage by blast
  moreover have "case tok_run u t of
       None \<Rightarrow> v = -1
     | Some (t', rest) \<Rightarrow>
         if t_state t' = PARSE_DONE
         then v = 1 \<and> ready_view (ds_store ?st) (line_at d ?st) = Some (t_args t', t_tag t') \<and>
              next_view (ds_store ?st) (line_at d ?st) tok_init rest
         else v = 0 \<and> next_view (ds_store ?st) (line_at d ?st) t' rest"
    unfolding at by (rule v)
  ultimately show ?thesis by blast
qed

section \<open>Names of messages\<close>

text \<open>Every message that the tokenizer completes has a name that begins with its type.\<close>

definition named :: "string list \<Rightarrow> bool" where
  "named args \<longleftrightarrow> args \<noteq> [] \<and> hd args \<noteq> [] \<and> is_type (hd (hd args))"

definition tok_named :: "tok \<Rightarrow> bool" where
  "tok_named t \<longleftrightarrow>
     (case t_state t of
        PARSE_FRESH \<Rightarrow> t_args t = []
      | PARSE_COMMAND \<Rightarrow> t_args t = [] \<and> t_cur t \<noteq> [] \<and> is_type (hd (t_cur t))
      | _ \<Rightarrow> named (t_args t))"

lemma tok_named_init [simp]: "tok_named tok_init"
  by (simp add: tok_named_def tok_init_def)

lemma tok_step_named: "tok_step c t = Some t' \<Longrightarrow> tok_named t \<Longrightarrow> tok_named t'"
  by (cases "t_state t")
     (auto simp: tok_step.simps tok_named_def named_def tok_end_def tok_put_def split: if_splits option.splits)

lemma tok_run_named: "tok_run u t = Some (t', rest) \<Longrightarrow> tok_named t \<Longrightarrow> tok_named t'"
  by (induction u arbitrary: t) (auto split: if_splits option.splits dest: tok_step_named)

lemma named_cstr:
  assumes "named args"
  obtains n rest where "args = n # rest" "n \<noteq> []" "cstr n \<noteq> []" "is_type (hd (cstr n))"
proof -
  obtain n rest where n: "args = n # rest" "n \<noteq> []" "is_type (hd n)"
    using assms by (cases args) (auto simp: named_def)
  then have "hd n \<noteq> nul" by (auto simp: is_type_def)
  then have "cstr n \<noteq> [] \<and> hd (cstr n) = hd n" using n(2) by (cases n) (auto simp: cstr_def)
  then show thesis using that [of n rest] n by simp
qed

section \<open>Looking up a request\<close>

lemma log_request_ok:
  assumes "disp_ok F st" "d < n_clients st" "env_ok e"
  shows "\<exists>st'. log_request e d st = Inr st' \<and> logs F d st st'"
proof (cases "l_ready (line_at d st)")
  case None
  then show ?thesis
    using assms by (simp add: log_request_def client_at_ok ready_katcl_def line_at_def logs_refl)
next
  case (Some a)
  have "a \<in># line_refs (line_at d st) + rest_of F d st" using Some by (simp add: line_refs_def)
  then obtain p where p: "st_heap (ds_store st) a = Some p" "parse_inv p"
    using disp_line(1) [OF assms(1,2)] refs_ok_live by (force simp: line_ok_def)
  let ?b = "replicate LOOKUP_BUFFER nul"
  obtain v b where b: "buffer_from_parse_katcl p (Some ?b) = Inr (v, Some b)"
  proof (cases "p_state p = PARSE_FAKE \<or> p_state p = PARSE_DONE")
    case True
    then show thesis using buffer_from_parse_shown [OF p(2), of ?b] that by (auto simp: LOOKUP_BUFFER_def)
  next
    case False
    then show thesis using that by (simp add: buffer_from_parse_katcl_def)
  qed
  let ?r = "log_message_katcp e d 1 None (Some (''client message <'' @ cstr b @ ''>'')) st"
  obtain w st' where "?r = Inr (w, st')" "logs F d st st'" using log_message_ok [OF assms] by blast
  then show ?thesis
    using assms(1,2) Some p(1) b logs_refl
    by (auto simp: log_request_def client_at_ok ready_katcl_def line_at_def deref_def)
qed

lemma logs_server:
  assumes "logs F d st st'" "d < n_clients st"
  shows "disp_ok F st'" "same_server st st'" "stage_at d st es ts \<Longrightarrow> stage_at d st' es ts" "serves F d [] st st'"
    "ready_view (ds_store st') (line_at d st') = ready_view (ds_store st) (line_at d st)"
    "next_view (ds_store st') (line_at d st') t u = next_view (ds_store st) (line_at d st) t u"
proof -
  have e: "emits F d [] st st'" using assms(1) by (simp add: logs_def)
  have s: "sends d d [] st st'" using e assms(2) by (simp add: emits_def)
  show "disp_ok F st'" "same_server st st'" using e by (simp_all add: emits_def)
  show "stage_at d st es ts \<Longrightarrow> stage_at d st' es ts" using assms(1) by (simp add: logs_def)
  show "serves F d [] st st'" by (rule emits_serves [OF e])
  show "ready_view (ds_store st') (line_at d st') = ready_view (ds_store st) (line_at d st)"
    using s unfolding sends_def by blast
  show "next_view (ds_store st') (line_at d st') t u = next_view (ds_store st) (line_at d st) t u"
    using s unfolding sends_def by blast
qed

text \<open>A client between two requests, on a server without hooks.\<close>

definition idle :: "nat multiset \<Rightarrow> nat \<Rightarrow> 'u disp \<Rightarrow> bool" where
  "idle F d st \<longleftrightarrow> disp_ok F st \<and> d < n_clients st \<and> stage_at d st [] [] \<and> d_current (ds_all st ! d) = None \<and>
     d_pause (ds_all st ! d) = 0 \<and> s_prehook st = None \<and> s_posthook st = None"

text \<open>The callback that the commands have for a name.\<close>

definition command_for :: "nat \<Rightarrow> string \<Rightarrow> cmd list \<Rightarrow> nat option" where
  "command_for mode name cs =
     (case List.find (\<lambda>c. in_mode mode c \<and> \<not> wild c \<and> c_name c = Some name) cs of
        Some c \<Rightarrow> c_call c
      | None \<Rightarrow> (case List.find (\<lambda>c. in_mode mode c \<and> wild c) cs of Some c \<Rightarrow> c_call c | None \<Rightarrow> None))"

lemma set_current_ok:
  assumes "disp_ok F st" "d < n_clients st" "stage_at d st [] []"
  shows "\<exists>st'. set_current d f st = Inr st' \<and> handles F d [] st st' \<and> d_current (ds_all st' ! d) = f"
proof -
  let ?c = "(ds_all st ! d)\<lparr>d_current := f\<rparr>"
  have "same_lines st (put_client d ?c st)" by (rule same_lines_put [OF assms(2)]) (simp add: line_at_def)
  then have "handles F d [] st (put_client d ?c st)"
    using same_lines_handles [OF assms] assms(2) by (simp add: put_client_def n_clients_def)
  then show ?thesis using assms(2) by (simp add: set_current_def client_at_ok put_client_def n_clients_def)
qed

lemma handles_next:
  "handles F d out st st' \<Longrightarrow>
    next_view (ds_store st') (line_at d st') t u = next_view (ds_store st) (line_at d st) t u"
  by (simp add: handles_def)

lemma logs_handles:
  assumes "logs F d st st'" "d < n_clients st" "stage_at d st [] []"
  shows "handles F d [] st st'"
  using logs_answers [OF assms(1,3)] assms(2) by (rule answers_handles)

lemma lookup_ok:
  assumes i: "idle F d st" and e: "env_ok e"
    and u: "next_view (ds_store st) (line_at d st) t u" "tok_named t"
  shows "\<exists>v st'. lookup_katcp e d st = Inr (v, st') \<and> serves F d [] st st' \<and> stage_at d st' [] [] \<and>
    d_pause (ds_all st' ! d) = 0 \<and>
    (case tok_run u t of
       None \<Rightarrow> v = -1 \<and> d_current (ds_all st' ! d) = None
     | Some (t', rest) \<Rightarrow>
         if t_state t' = PARSE_DONE
         then v = 1 \<and> ready_view (ds_store st') (line_at d st') = Some (t_args t', t_tag t') \<and>
              next_view (ds_store st') (line_at d st') tok_init rest \<and>
              d_current (ds_all st' ! d) = command_for (s_mode st) (cstr (hd (t_args t'))) (s_commands st)
         else v = 0 \<and> next_view (ds_store st') (line_at d st') t' rest \<and> d_current (ds_all st' ! d) = None)"
proof -
  have st: "disp_ok F st" "d < n_clients st" "stage_at d st [] []" "d_current (ds_all st ! d) = None"
    "d_pause (ds_all st ! d) = 0" "s_prehook st = None"
    using i by (simp_all add: idle_def)
  define r where "r = on_line e d (\<lambda>mem l s. have_katcl (\<lambda>i. mem (i + 2)) (mem 0) (mem 1) l s) st"
  obtain v st1 where h: "r = Inr (v, st1)" "serves F d [] st st1" "same_server st st1" "stage_at d st1 [] []"
    "case tok_run u t of
       None \<Rightarrow> v = -1
     | Some (t', rest) \<Rightarrow>
         if t_state t' = PARSE_DONE
         then v = 1 \<and> ready_view (ds_store st1) (line_at d st1) = Some (t_args t', t_tag t') \<and>
              next_view (ds_store st1) (line_at d st1) tok_init rest
         else v = 0 \<and> next_view (ds_store st1) (line_at d st1) t' rest"
    using have_on_line [OF st(1,2) e u(1)] st(3) unfolding r_def by blast
  have n1: "d < n_clients st1" using same_server_length [OF h(3)] st(2) by simp
  have ok1: "disp_ok F st1" using h(2) by (simp add: serves_def)
  note c1 = same_server_current [OF h(3) st(2)]
  have l0: "lookup_katcp e d st = Inr (v, st1)" if "v \<le> 0" "v = -1 \<or> v = 0"
    using st(2,4,5) that h(1) [unfolded r_def] by (auto simp: lookup_katcp_def client_at_ok)
  show ?thesis
  proof (cases "tok_run u t")
    case None
    then show ?thesis using l0 h c1 st by auto
  next
    case (Some x)
    obtain t' rest where x: "x = (t', rest)" by (cases x)
    show ?thesis
    proof (cases "t_state t' = PARSE_DONE")
      case False
      then show ?thesis using l0 h c1 st Some x by auto
    next
      case True
      then have v: "v = 1" "ready_view (ds_store st1) (line_at d st1) = Some (t_args t', t_tag t')"
          "next_view (ds_store st1) (line_at d st1) tok_init rest"
        using h(5) Some x by auto
      have "named (t_args t')"
        using tok_run_named [OF Some [unfolded x] u(2)] True by (simp add: tok_named_def)
      then obtain n args where n: "t_args t' = n # args" "n \<noteq> []" by (rule named_cstr)
      have str: "arg_string_katcp d 0 st1 = Inr (Some (cstr n))"
        using arg_string_ready [OF ok1 n1 v(2), of 0] n by simp
      obtain st2 where g: "log_request e d st1 = Inr st2" "logs F d st1 st2"
        using log_request_ok [OF ok1 n1 e] by blast
      have h2: "handles F d [] st1 st2" by (rule logs_handles [OF g(2) n1 h(4)])
      note s2 = logs_server(2) [OF g(2) n1]
      have cur2: "d_current (ds_all st2 ! d) = None" using same_server_current(1) [OF s2 n1] c1(1) st(4) by simp
      have ok2: "disp_ok F st2" "d < n_clients st2" "stage_at d st2 [] []" using handlesD(1-3) [OF h2] n1 by simp_all
      let ?cs = "s_commands st" and ?m = "s_mode st"
      have f2: "s_commands st2 = ?cs" "s_mode st2 = ?m" "s_prehook st2 = None"
        using same_server_fields [OF same_server_trans [OF h(3) s2]] st(6) by simp_all
      have cok: "commands_ok ?cs" using st(1) by (simp add: disp_ok_def)
      note found = search_finds [OF cok, of ?m "cstr n"]
      obtain fd where fd: "search_loop ?m (Some (cstr n)) ?cs = Inr fd"
          "command_for ?m (cstr n) ?cs = (case fd of None \<Rightarrow> None | Some c \<Rightarrow> c_call c)"
        unfolding found command_for_def by (auto split: option.splits)
      obtain st3 where w: "lookup_katcp e d st = Inr (1, st3)" "handles F d [] st1 st3"
          "d_current (ds_all st3 ! d) = command_for ?m (cstr n) ?cs"
      proof (cases fd)
        case None
        have "lookup_katcp e d st = Inr (1, st2)"
          using st(2,4,5) h(1) [unfolded r_def] v(1) str g(1) f2 fd(1) None
          by (simp add: lookup_katcp_def client_at_ok)
        then show thesis using that h2 cur2 fd(2) None by simp
      next
        case (Some c)
        obtain st3 where c3: "set_current d (c_call c) st2 = Inr st3" "handles F d [] st2 st3"
            "d_current (ds_all st3 ! d) = c_call c"
          using set_current_ok [OF ok2] by blast
        have "handles F d [] st1 st3" using handles_trans [OF h2 c3(2)] by simp
        moreover have r3: "ready_view (ds_store st3) (line_at d st3) = Some (n # args, t_tag t')" "d < n_clients st3"
            "s_prehook st3 = None"
          using handlesD(2,4,7) [OF c3(2)] handlesD(2,4) [OF h2] v(2) n(1) n1 f2(3) by simp_all
        moreover have "lookup_katcp e d st = Inr (1, st3)"
          using st(2,4,5) h(1) [unfolded r_def] v(1) str g(1) f2 fd(1) Some c3(1) arg_count_ready [OF r3(2,1)] r3(3)
          by (simp add: lookup_katcp_def client_at_ok call_hook_def)
        ultimately show thesis using that c3(3) fd(2) Some by simp
      qed
      have "serves F d [] st st3" using serves_trans [OF h(2), of "[]" st3] w(2) by (simp add: handles_def)
      moreover have "ready_view (ds_store st3) (line_at d st3) = Some (t_args t', t_tag t')"
        using handlesD(4) [OF w(2)] v(2) by simp
      moreover have "next_view (ds_store st3) (line_at d st3) tok_init rest" using handles_next [OF w(2)] v(3) by simp
      moreover have "d_pause (ds_all st3 ! d) = 0" using handlesD(9) [OF w(2)] c1(2) st(5) by simp
      ultimately show ?thesis using w(1,3) handlesD(3) [OF w(2)] Some x True n(1) by auto
    qed
  qed
qed

section \<open>The contract of the callbacks\<close>

definition is_reply :: "out_msg \<Rightarrow> bool" where
  "is_reply m \<longleftrightarrow> hd (hd (snd m)) = KATCP_REPLY"

definition reply_names :: "out_msg list \<Rightarrow> string list" where
  "reply_names ms = map (hd \<circ> snd) (filter is_reply ms)"

lemma reply_names_simps [simp]: "reply_names [] = []" "reply_names (ms @ ns) = reply_names ms @ reply_names ns"
  "reply_names (m # ms) = (if is_reply m then [hd (snd m)] else []) @ reply_names ms"
  by (simp_all add: reply_names_def)

text \<open>The replies that a client may expect for the messages that it sent: one for each request
  that has a name.\<close>

definition request_name :: "string list \<times> int \<Rightarrow> string option" where
  "request_name m =
     (let n = cstr (hd (fst m)) in if hd n = KATCP_REQUEST \<and> tl n \<noteq> [] then Some (tl n) else None)"

fun due :: "(string list \<times> int) list \<Rightarrow> string list" where
  "due [] = []"
| "due (m # ms) = (case request_name m of Some n \<Rightarrow> [KATCP_REPLY # n] | None \<Rightarrow> []) @ due ms"

text \<open>What a callback promises: it returns, it sends what it likes to its client and leaves
  everything else in order, and it has either sent exactly one reply to the request or none
  and returns a code for which the dispatcher sends it.\<close>

definition request_done :: "string \<Rightarrow> int \<Rightarrow> out_msg list \<Rightarrow> bool" where
  "request_done n r out \<longleftrightarrow>
     (if r = KATCP_RESULT_OWN then reply_names out = [KATCP_REPLY # tl n]
      else r \<in> {0, -1, -2, -3} \<and> reply_names out = [])"

text \<open>A request by the name of \<open>log\<close> is excluded: its informs could not be told from log
  messages.\<close>

definition callable :: "string \<Rightarrow> bool" where
  "callable n \<longleftrightarrow> n \<noteq> [] \<and> hd n = KATCP_REQUEST \<and> tl n \<noteq> [] \<and> tl n \<noteq> ''log''"

locale request_handlers =
  fixes F :: "nat multiset" and e :: "'u env" and calls :: "nat set"
  assumes memory: "env_ok e"
    and contract: "f \<in> calls \<Longrightarrow> disp_ok F st \<Longrightarrow> d < n_clients st \<Longrightarrow> stage_at d st [] [] \<Longrightarrow>
      ready_view (ds_store st) (line_at d st) = Some (n # args, tag) \<Longrightarrow> callable (cstr n) \<Longrightarrow>
      \<exists>r st' out. e_call e f d (length (n # args)) st = Inr (r, st') \<and> handles F d out st st' \<and>
        request_done (cstr n) r out"

text \<open>The commands: all are for requests, and their callbacks keep the promise.\<close>

definition request_command :: "nat set \<Rightarrow> cmd \<Rightarrow> bool" where
  "request_command calls c \<longleftrightarrow> \<not> wild c \<and>
     (case c_call c of Some f \<Rightarrow> f \<in> calls | None \<Rightarrow> False) \<and>
     (case c_name c of Some n \<Rightarrow> callable n | None \<Rightarrow> False)"

lemma command_for_request:
  assumes "\<forall>c \<in> set cs. request_command calls c" "command_for mode name cs = Some f"
  shows "f \<in> calls \<and> callable name"
proof -
  have "List.find (\<lambda>c. in_mode mode c \<and> wild c) cs = None"
    using assms(1) by (auto simp: find_None_iff request_command_def)
  then obtain c where "List.find (\<lambda>c. in_mode mode c \<and> \<not> wild c \<and> c_name c = Some name) cs = Some c" "c_call c = Some f"
    using assms(2) by (auto simp: command_for_def split: option.splits)
  then have "c \<in> set cs" "c_name c = Some name" "c_call c = Some f" by (auto simp: find_Some_iff)
  then show ?thesis using assms(1) by (fastforce simp: request_command_def)
qed

lemma reply_msg_name: "reply_names [reply_msg n code extra] = [KATCP_REPLY # tl (cstr n)]"
  by (auto simp: is_reply_def reply_msg_def reply_list_def split: option.splits)

context request_handlers
begin

lemma respond_ok:
  assumes "disp_ok F st" "d < n_clients st" "stage_at d st [] []"
    "ready_view (ds_store st) (line_at d st) = Some (n # args, tag)" "cstr n \<noteq> []" "code \<in> {0, -1, -2, -3}"
  shows "\<exists>st'. extra_response_katcp e d code (map_option Some extra) st = Inr (KATCP_RESULT_OWN, st') \<and>
    handles F d [reply_msg n code extra] st st' \<and> same_server st st'"
proof -
  obtain st' where r: "extra_response_katcp e d code (map_option Some extra) st = Inr (KATCP_RESULT_OWN, st')"
      "answers F d [reply_msg n code extra] st st'"
    using extra_response_ok [OF assms(1,2) memory assms(3-6)] by blast
  then show ?thesis using answers_handles [OF r(2) assms(2)] answers_views(3) [OF r(2) assms(2)] by blast
qed

lemma after_call_ok:
  assumes st: "disp_ok F st" "d < n_clients st" "stage_at d st [] []"
    "ready_view (ds_store st) (line_at d st) = Some (n # args, tag)" "cstr n \<noteq> []"
    and r: "request_done (cstr n) r out" "s_posthook st = None"
  shows "\<exists>st' out'. after_call e d k str r st = Inr st' \<and> handles F d out' st st' \<and>
    reply_names (out @ out') = [KATCP_REPLY # tl (cstr n)] \<and> d_current (ds_all st' ! d) = None"
proof -
  let ?f = "if r \<le> 0 then bind_res (extra_response_katcp e d r None st) (\<lambda>(_, st1). Inr st1) else Inr st"
  obtain st1 out1 where 1: "?f = Inr st1" "handles F d out1 st st1" "reply_names (out @ out1) = [KATCP_REPLY # tl (cstr n)]"
  proof (cases "r = KATCP_RESULT_OWN")
    case True
    have "handles F d [] st st" using same_lines_handles [OF st(1-3)] by (simp add: same_lines_def)
    then show thesis using that [of st "[]"] True r(1) by (simp add: request_done_def KATCP_RESULT_OWN_def)
  next
    case False
    then have c: "r \<in> {0, -1, -2, -3}" "reply_names out = []" using r(1) by (auto simp: request_done_def)
    then obtain st1 where x: "extra_response_katcp e d r None st = Inr (KATCP_RESULT_OWN, st1)"
        "handles F d [reply_msg n r None] st st1"
      using respond_ok [OF st c(1), of None] by auto
    have "r \<le> 0" using c(1) by auto
    then show thesis using that [OF _ x(2)] x(1) c(2) reply_msg_name [of n r None] by simp
  qed
  note h = handlesD [OF 1(2)]
  have n1: "d < n_clients st1" using h(2) st(2) by simp
  obtain st2 where 2: "set_current d None st1 = Inr st2" "handles F d [] st1 st2" "d_current (ds_all st2 ! d) = None"
    using set_current_ok [OF h(1) n1 h(3)] by blast
  have "r \<noteq> KATCP_RESULT_YIELD" "r \<noteq> KATCP_RESULT_PAUSE"
    using r(1) by (auto simp: request_done_def KATCP_RESULT_YIELD_def KATCP_RESULT_PAUSE_def KATCP_RESULT_OWN_def split: if_splits)
  then have "after_call e d k str r st = Inr st2"
    using 1(1) 2(1) h(8) r(2) by (simp add: after_call_def call_hook_def)
  then show ?thesis using handles_trans [OF 1(2) 2(2)] 1(3) 2(3) by auto
qed

lemma unknown_ok:
  assumes st: "disp_ok F st" "d < n_clients st" "stage_at d st [] []"
    "ready_view (ds_store st) (line_at d st) = Some (n # args, tag)" "cstr n \<noteq> []"
  shows "\<exists>st' out. unknown_message e d (Some (cstr n)) st = Inr st' \<and> handles F d out st st' \<and>
    reply_names out = due [(n # args, tag)] \<and> same_server st st'"
proof -
  have idle: "handles F d [] st st" using same_lines_handles [OF st(1-3)] by (simp add: same_lines_def)
  consider (request) "hd (cstr n) = KATCP_REQUEST" "tl (cstr n) \<noteq> []"
    | (reply) "hd (cstr n) = KATCP_REPLY" "tl (cstr n) \<noteq> []"
    | (other) "hd (cstr n) = KATCP_REQUEST \<or> hd (cstr n) = KATCP_REPLY \<Longrightarrow> tl (cstr n) = []"
    by blast
  then show ?thesis
  proof cases
    case request
    obtain st' where r: "extra_response_katcp e d KATCP_RESULT_INVALID (Some (Some ''unknown command'')) st = Inr (KATCP_RESULT_OWN, st')"
        "handles F d [reply_msg n KATCP_RESULT_INVALID (Some ''unknown command'')] st st'" "same_server st st'"
      using respond_ok [OF st, of KATCP_RESULT_INVALID "Some ''unknown command''"] by (auto simp: KATCP_RESULT_INVALID_def)
    have "unknown_message e d (Some (cstr n)) st = Inr st'" using r(1) request st(5) by (simp add: unknown_message_def)
    then show ?thesis using r(2,3) reply_msg_name request by (fastforce simp: request_name_def Let_def)
  next
    case reply
    obtain v st' where g: "log_message_katcp e d 4 None (Some (''unexpected reply '' @ tl (cstr n))) st = Inr (v, st')" "logs F d st st'"
      using log_message_ok [OF st(1,2) memory] by blast
    have "KATCP_REPLY \<noteq> KATCP_REQUEST" by (simp add: KATCP_REPLY_def KATCP_REQUEST_def)
    then have "unknown_message e d (Some (cstr n)) st = Inr st'" "due [(n # args, tag)] = []"
      using g(1) reply st(5) by (simp_all add: unknown_message_def request_name_def)
    then show ?thesis using logs_handles [OF g(2) st(2,3)] logs_server(2) [OF g(2) st(2)] by fastforce
  next
    case other
    then have "unknown_message e d (Some (cstr n)) st = Inr st" "due [(n # args, tag)] = []"
      using st(5) by (auto simp: unknown_message_def request_name_def Let_def)
    then show ?thesis using idle by fastforce
  qed
qed

end

context request_handlers
begin

lemma call_ok:
  assumes st: "disp_ok F st" "d < n_clients st" "stage_at d st [] []"
    "ready_view (ds_store st) (line_at d st) = Some (n # args, tag)" "n \<noteq> []" "cstr n \<noteq> []"
    and post: "s_posthook st = None"
    and cur: "\<And>f. d_current (ds_all st ! d) = Some f \<Longrightarrow>
      f \<in> calls \<and> callable (cstr n)"
  shows "\<exists>v st' out. call_katcp e d st = Inr (v, st') \<and> handles F d out st st' \<and>
    reply_names out = due [(n # args, tag)] \<and> d_current (ds_all st' ! d) = None"
proof -
  have str: "arg_string_katcp d 0 st = Inr (Some (cstr n))" using arg_string_ready [OF st(1,2,4), of 0] st(5) by simp
  have n: "arg_count_katcp d st = Inr (length (n # args))" by (rule arg_count_ready [OF st(2,4)])
  show ?thesis
  proof (cases "d_current (ds_all st ! d)")
    case None
    obtain st' out where u: "unknown_message e d (Some (cstr n)) st = Inr st'" "handles F d out st st'"
        "reply_names out = due [(n # args, tag)]" "same_server st st'"
      using unknown_ok [OF st(1-4,6)] by blast
    have "call_katcp e d st = Inr (KATCP_RESULT_FAIL, st')"
      using None str n st(2) u(1) by (simp add: call_katcp_def client_at_ok)
    then show ?thesis using u None same_server_current(1) [OF u(4) st(2)] by auto
  next
    case (Some f)
    note f = cur [OF Some]
    obtain r st1 out where c: "e_call e f d (length (n # args)) st = Inr (r, st1)" "handles F d out st st1"
        "request_done (cstr n) r out"
      using contract [of f st d n args tag] f st by blast
    note h = handlesD [OF c(2)]
    have n1: "d < n_clients st1" using h(2) st(2) by simp
    have rv: "ready_view (ds_store st1) (line_at d st1) = Some (n # args, tag)" using h(4) st(4) by simp
    have ph: "s_posthook st1 = None" using h(8) post by simp
    obtain st2 out' where a: "after_call e d (length (n # args)) (Some (cstr n)) r st1 = Inr st2"
        "handles F d out' st1 st2" "reply_names (out @ out') = [KATCP_REPLY # tl (cstr n)]"
        "d_current (ds_all st2 ! d) = None"
      using after_call_ok [OF h(1) n1 h(3) rv st(6) c(3) ph] by blast
    have "call_katcp e d st = Inr (r, st2)"
      using Some str n st(2) c(1) a(1) by (simp add: call_katcp_def client_at_ok)
    moreover have "due [(n # args, tag)] = [KATCP_REPLY # tl (cstr n)]" using f by (simp add: request_name_def callable_def)
    ultimately show ?thesis using handles_trans [OF c(2) a(2)] a(3,4) by auto
  qed
qed

text \<open>One round of the loop.\<close>

lemma idle_handles:
  assumes "idle F d st" "serves F d out st st'" "stage_at d st' [] []" "d_pause (ds_all st' ! d) = 0"
    "d_current (ds_all st' ! d) = None"
  shows "idle F d st'"
  using assms by (auto simp: idle_def serves_def same_config_def)

lemma loop_ok:
  assumes "idle F d st" "\<forall>c \<in> set (s_commands st). request_command calls c"
    "next_view (ds_store st) (line_at d st) t u" "tok_named t" "t_state t \<noteq> PARSE_DONE"
    "length (fst (feed t u)) < k"
  shows "\<exists>r st' out. dispatch_loop e k d st = Inr (Some (r, st')) \<and> serves F d out st st' \<and> idle F d st' \<and>
    reply_names out = due (fst (feed t u)) \<and>
    (case snd (feed t u) of
       None \<Rightarrow> r = -1
     | Some t' \<Rightarrow> r = 0 \<and> next_view (ds_store st') (line_at d st') t' [])"
  using assms
proof (induction k arbitrary: st t u)
  case (Suc k)
  note i = Suc.prems(1)
  have d: "d < n_clients st" using i by (simp add: idle_def)
  obtain v st1 where l: "lookup_katcp e d st = Inr (v, st1)" "serves F d [] st st1" "stage_at d st1 [] []"
      "d_pause (ds_all st1 ! d) = 0"
      "case tok_run u t of
         None \<Rightarrow> v = -1 \<and> d_current (ds_all st1 ! d) = None
       | Some (t', rest) \<Rightarrow>
           if t_state t' = PARSE_DONE
           then v = 1 \<and> ready_view (ds_store st1) (line_at d st1) = Some (t_args t', t_tag t') \<and>
                next_view (ds_store st1) (line_at d st1) tok_init rest \<and>
                d_current (ds_all st1 ! d) = command_for (s_mode st) (cstr (hd (t_args t'))) (s_commands st)
           else v = 0 \<and> next_view (ds_store st1) (line_at d st1) t' rest \<and> d_current (ds_all st1 ! d) = None"
    using lookup_ok [OF i memory Suc.prems(3,4)] by blast
  note feed = feed_run [OF Suc.prems(5), of u]
  show ?case
  proof (cases "tok_run u t")
    case None
    then have "idle F d st1" using l idle_handles [OF i l(2)] by simp
    then show ?thesis using l(1,2,5) None feed by (intro exI [of _ "-1"] exI [of _ st1] exI [of _ "[]"]) simp
  next
    case (Some x)
    obtain t' rest where x: "tok_run u t = Some (t', rest)" using Some by (cases x) simp
    show ?thesis
    proof (cases "t_state t' = PARSE_DONE")
      case False
      have rest: "rest = []" using tok_run_rest [OF x] False by blast
      have "idle F d st1" using l x False idle_handles [OF i l(2)] by simp
      then show ?thesis
        using l(1,2,5) x False feed rest by (intro exI [of _ 0] exI [of _ st1] exI [of _ "[]"]) simp
    next
      case True
      have "named (t_args t')"
        using tok_run_named [OF x Suc.prems(4)] True by (simp add: tok_named_def)
      then obtain n args where n: "t_args t' = n # args" "n \<noteq> []" "cstr n \<noteq> []" by (rule named_cstr)
      have v: "v = 1" "ready_view (ds_store st1) (line_at d st1) = Some (n # args, t_tag t')"
          "next_view (ds_store st1) (line_at d st1) tok_init rest"
          "d_current (ds_all st1 ! d) = command_for (s_mode st) (cstr n) (s_commands st)"
        using l(5) x True n(1) by auto
      have c1: "disp_ok F st1" "d < n_clients st1" "s_posthook st1 = None" "s_commands st1 = s_commands st"
        using l(2) i by (simp_all add: serves_def same_config_def idle_def)
      obtain w st2 out where c: "call_katcp e d st1 = Inr (w, st2)" "handles F d out st1 st2"
          "reply_names out = due [(n # args, t_tag t')]" "d_current (ds_all st2 ! d) = None"
        using call_ok [OF c1(1,2) l(3) v(2) n(2,3) c1(3)] command_for_request [OF Suc.prems(2)] v(4) by auto
      note h = handlesD [OF c(2)]
      have s2: "serves F d out st st2" using serves_trans [OF l(2), of out st2] c(2) by (simp add: handles_def)
      have i2: "idle F d st2" using idle_handles [OF i s2 h(3) _ c(4)] h(9) l(4) by simp
      have f: "feed t u = ((n # args, t_tag t') # fst (feed tok_init rest), snd (feed tok_init rest))"
        using feed x True n(1) by (simp add: case_prod_beta)
      obtain r st' out' where ih: "dispatch_loop e k d st2 = Inr (Some (r, st'))" "serves F d out' st2 st'" "idle F d st'"
          "reply_names out' = due (fst (feed tok_init rest))"
          "case snd (feed tok_init rest) of None \<Rightarrow> r = -1 | Some t' \<Rightarrow> r = 0 \<and> next_view (ds_store st') (line_at d st') t' []"
      proof -
        have "t_state tok_init \<noteq> PARSE_DONE" by (simp add: tok_init_def)
        moreover have "length (fst (feed tok_init rest)) < k" using Suc.prems(6) f by simp
        moreover have "\<forall>c \<in> set (s_commands st2). request_command calls c" using Suc.prems(2) h(5) c1(4) by simp
        moreover have "next_view (ds_store st2) (line_at d st2) tok_init rest" using handles_next [OF c(2)] v(3) by simp
        ultimately show thesis using Suc.IH [OF i2 _ _ tok_named_init] that by blast
      qed
      have "dispatch_loop e (Suc k) d st = Inr (Some (r, st'))" using l(1) v(1) c(1) ih(1) by simp
      moreover have "reply_names (out @ out') = due (fst (feed t u))" using c(3) ih(4) f by simp
      ultimately show ?thesis using serves_trans [OF s2 ih(2)] ih(3,5) f by auto
    qed
  qed
qed simp

end

end
