(* ===== verification/Server_Cmds.thy ===== *)
theory Server_Cmds
  imports Dispatch_Life
begin

text \<open>
  The commands that every server has (\<open>setup_katcp\<close> of \<open>katcp/dispatch.c\<close>) keep the contract
  of \<open>Dispatch_Life\<close>: a server with them answers each request that it is sent.
\<close>

unbundle bit_operations_syntax

section \<open>The commands of the library\<close>

text \<open>The table that \<open>setup_katcp\<close> registers, with the address of each callback.\<close>

definition library_commands :: "(string \<times> string \<times> nat) list" where
  "library_commands =
    [(''?halt'', ''shuts the system down (?halt)'', 0),
     (''?restart'', ''restarts the system (?restart)'', 1),
     (''?help'', ''displays this help (?help [command])'', 2),
     (''?log-level'', ''sets the minimum reported log priority (?log-level [priority])'', 3),
     (''?log-limit'', ''sets the minimum reported log priority for the current connection (?log-local [priority])'', 4),
     (''?log-default'', ''sets the minimum reported log priority for all new connections (?log-default [priority])'', 5),
     (''?log-record'', ''generate a log entry (?log-record [priority] message)'', 6),
     (''?watchdog'', ''pings the system (?watchdog)'', 7),
     (''?sensor-list'', ''lists available sensors (?sensor-list [sensor])'', 8),
     (''?sensor-sampling'', ''configure sensor (?sensor-sampling sensor [strategy [parameter]])'', 9),
     (''?sensor-value'', ''query a sensor (?sensor-value sensor)'', 10),
     (''?sensor-limit'', ''adjust sensor limits (?sensor-limit [sensor] [min|max] value)'', 11),
     (''?version-list'', ''list versions (?version-list)'', 12)]"

text \<open>The callbacks of \<open>dispatch.c\<close> are modelled; those of the sensors (\<open>nonsense.c\<close>) and of the
  versions (\<open>version.c\<close>), 8 to 12, work on state that is not in this model and are the parameter
  \<open>ext\<close>.\<close>

type_synonym 'u callbacks = "nat \<Rightarrow> nat \<Rightarrow> nat \<Rightarrow> 'u disp \<Rightarrow> (int \<times> 'u disp) res"

definition dispatch_calls :: "nat set" where "dispatch_calls = {..< 8}"
definition other_calls :: "nat set" where "other_calls = {8 ..< 13}"
definition library_calls :: "nat set" where "library_calls = {..< 13}"

definition library_call :: "'u callbacks \<Rightarrow> 'u env \<Rightarrow> 'u callbacks" where
  "library_call ext e f d argc st =
     (if f = 0 then halt_cmd_katcp d argc st
      else if f = 1 then restart_cmd_katcp d argc st
      else if f = 2 then help_cmd_katcp e d argc st
      else if f = 3 then log_level_cmd_katcp e d argc st
      else if f = 4 then log_local_cmd_katcp e d argc st
      else if f = 5 then log_default_cmd_katcp e d argc st
      else if f = 6 then log_record_cmd_katcp e d argc st
      else if f = 7 then watchdog_cmd_katcp d argc st
      else if f \<in> other_calls then ext f d argc st
      else Inl NullDeref)"

text \<open>The callbacks call no callbacks, so the environment they run in needs none; \<open>mem\<close> says which
  allocations are granted.\<close>

definition library_env ::
  "(nat \<Rightarrow> nat \<Rightarrow> bool) \<Rightarrow> (nat \<Rightarrow> timeval option) \<Rightarrow> bool \<Rightarrow> (nat \<Rightarrow> string) \<Rightarrow> 'u callbacks \<Rightarrow> 'u env" where
  "library_env mem now maj ptr ext =
     (let e = \<lparr>e_mem = mem, e_now = now, e_major5 = maj, e_pointer = ptr, e_call = \<lambda>_ _ _ _. Inl NullDeref\<rparr>
      in e\<lparr>e_call := library_call ext e\<rparr>)"

definition setup_commands :: "'u env \<Rightarrow> nat \<Rightarrow> 'u disp \<Rightarrow> 'u disp res" where
  "setup_commands e d st =
     foldl (\<lambda>r (name, help, f). bind_res r (\<lambda>st1.
              bind_res (register_katcp e d (Some name) help (Some f) st1) (\<lambda>(_, st2). Inr st2)))
       (Inr st) library_commands"

section \<open>Arguments\<close>

lemma append_by_adds:
  assumes ok: "disp_ok F st" "d < n_clients st" "stage_at d st es ts" "has_flag fl KATCP_FLAG_FIRST = (ts = [])"
    "env_ok e" "hd (ts @ [t]) \<notin> {[], KATCP_LOG_INFORM}"
    and add: "\<And>p. can_add fl p \<Longrightarrow> add_ok True fl t x p (add (True, True) p)"
  shows "\<exists>v st'. on_line e d (\<lambda>mem l s. append_by mem l fl (add (mem 2, mem 3)) s) st = Inr (v, st') \<and> 0 \<le> v \<and>
    adds F d fl (es @ [x]) (ts @ [t]) st st'"
proof -
  let ?mem = "e_mem e (ds_tick st)"
  have m: "?mem = (\<lambda>_. True)" using ok(5) by (auto simp: env_ok_def)
  have ne: "hd (ts @ [t]) \<noteq> []" using ok(6) by simp
  obtain l' s' where a: "append_by ?mem (line_at d st) fl (add (?mem 2, ?mem 3)) (ds_store st) = Inr (int (length t) + 1, l', s')"
      "append_result (rest_of F d st) fl (line_at d st) (ds_store st) (es @ [x]) (ts @ [t]) l' s'"
    using append_by_ok [OF disp_line [OF ok(1,2)] ok(3) [unfolded stage_at_def] ok(4) TrueI TrueI add ne] unfolding m by blast
  have "touches (set_option (l_stage (line_at d st))) (ds_store st) s'"
    using append_by_touches [OF a(1)] by blast
  then have "adds F d fl (es @ [x]) (ts @ [t]) st (put_line d l' s' (ds_tick st + 1) st)"
    using append_result_adds [OF ok(1,2) a(2)] ok(6) by auto
  moreover have "on_line e d (\<lambda>mem l s. append_by mem l fl (add (mem 2, mem 3)) s) st =
      Inr (int (length t) + 1, put_line d l' s' (ds_tick st + 1) st)"
    using on_line_result [OF ok(2)] a(1) by fast
  moreover have "0 \<le> int (length t) + 1" by linarith
  ultimately show ?thesis by blast
qed

lemma append_option_adds:
  assumes "disp_ok F st" "d < n_clients st" "stage_at d st es ts" "has_flag fl KATCP_FLAG_FIRST = (ts = [])"
    "env_ok e" "hd (ts @ [t]) \<notin> {[], KATCP_LOG_INFORM}" "t = (case so of None \<Rightarrow> [] | Some b \<Rightarrow> b)"
  shows "\<exists>v st'. append_string_katcp e d fl so st = Inr (v, st') \<and> 0 \<le> v \<and> adds F d fl (es @ [1]) (ts @ [t]) st st'"
  unfolding append_string_katcp_def append_string_katcl_def
  using append_by_adds [OF assms(1-6), of 1 "\<lambda>m. add_string_parse_katcl m fl so"] adds_of_values(1) assms(7) by simp

lemma append_number_adds:
  assumes "disp_ok F st" "d < n_clients st" "stage_at d st es ts" "has_flag fl KATCP_FLAG_FIRST = (ts = [])"
    "env_ok e" "hd (ts @ [t]) \<notin> {[], KATCP_LOG_INFORM}" "t = dec_of_nat (unat v)"
  shows "\<exists>w st'. append_unsigned_long_katcp e d fl v st = Inr (w, st') \<and> 0 \<le> w \<and> adds F d fl (es @ [0]) (ts @ [t]) st st'"
  unfolding append_unsigned_long_katcp_def append_unsigned_long_katcl_def
  using append_by_adds [OF assms(1-6), of 0 "\<lambda>m. add_unsigned_long_parse_katcl m fl v"] adds_of_values(2) assms(7) by simp

section \<open>The callbacks\<close>

lemma reply_start:
  assumes ok: "disp_ok F st" "d < n_clients st" "env_ok e" "stage_at d st [] []"
    "ready_view (ds_store st) (line_at d st) = Some (n # args, tag)" "cstr n \<noteq> []"
    and m: "m = KATCP_REPLY # tl (cstr n)"
  shows "\<exists>v st1 w st2. prepend_reply_katcp e d st = Inr (v, st1) \<and>
    append_string_katcp e d KATCP_FLAG_STRING (Some a) st1 = Inr (w, st2) \<and>
    adds F d KATCP_FLAG_STRING [1, 1] [m, a] st st2 \<and> d < n_clients st2 \<and> disp_ok F st2 \<and>
    stage_at d st2 [1, 1] [m, a] \<and> same_server st st2"
proof -
  have named: "m \<notin> {[], KATCP_LOG_INFORM}" using m by (simp add: reply_not_log)
  obtain v st1 where 1: "prepend_reply_katcp e d st = Inr (v, st1)"
      "adds F d (KATCP_FLAG_FIRST OR KATCP_FLAG_STRING) [1] [m] st st1"
  proof -
    have "m = (if True then KATCP_REPLY else KATCP_INFORM) # tl (cstr n)" using m by simp
    then show thesis using prepend_ok [OF ok, of m True] named that unfolding prepend_reply_katcp_def by blast
  qed
  note d1 = addsD [OF 1(2)]
  have n1: "d < n_clients st1" and s1: "stage_at d st1 [1] [m]" using d1 ok(2) by simp_all
  obtain w st2 where 2: "append_string_katcp e d KATCP_FLAG_STRING (Some a) st1 = Inr (w, st2)"
      "adds F d KATCP_FLAG_STRING [1, 1] [m, a] st1 st2"
    using append_string_adds [OF d1(1) n1 s1 _ ok(3), of KATCP_FLAG_STRING a] named by (auto simp: flag_defs)
  have a: "adds F d KATCP_FLAG_STRING [1, 1] [m, a] st st2" using adds_then [OF 1(2) _ 2(2)] by simp
  have "same_server st st2" using a by (simp add: adds_def emits_def)
  then show ?thesis using 1(1) 2(1) a addsD [OF a] ok(2) by (simp add: flag_defs)
qed

lemma inform_ok:
  assumes ok: "disp_ok F st" "d < n_clients st" "env_ok e" "stage_at d st [] []"
    "ready_view (ds_store st) (line_at d st) = Some (n # args, tag)" "cstr n \<noteq> []" "tl (cstr n) \<noteq> ''log''"
    and m: "m = KATCP_INFORM # tl (cstr n)" and b: "b = (case so of None \<Rightarrow> [] | Some b \<Rightarrow> b)"
  shows "\<exists>v st1 w st2 x st3. prepend_inform_katcp e d st = Inr (v, st1) \<and>
    append_string_katcp e d KATCP_FLAG_STRING (Some a) st1 = Inr (w, st2) \<and>
    append_string_katcp e d (KATCP_FLAG_STRING OR KATCP_FLAG_LAST) so st2 = Inr (x, st3) \<and>
    answers F d [([1, 1, 1], [m, a, b])] st st3"
proof -
  have named: "m \<notin> {[], KATCP_LOG_INFORM}" using m ok(7) by (simp add: KATCP_LOG_INFORM_def KATCP_INFORM_def)
  obtain v st1 where 1: "prepend_inform_katcp e d st = Inr (v, st1)"
      "adds F d (KATCP_FLAG_FIRST OR KATCP_FLAG_STRING) [1] [m] st st1"
  proof -
    have "m = (if False then KATCP_REPLY else KATCP_INFORM) # tl (cstr n)" using m by simp
    then show thesis using prepend_ok [OF ok(1-6), of m False] named that unfolding prepend_inform_katcp_def by blast
  qed
  note d1 = addsD [OF 1(2)]
  have n1: "d < n_clients st1" and s1: "stage_at d st1 [1] [m]" using d1 ok(2) by simp_all
  obtain w st2 where 2: "append_string_katcp e d KATCP_FLAG_STRING (Some a) st1 = Inr (w, st2)"
      "adds F d KATCP_FLAG_STRING [1, 1] [m, a] st1 st2"
    using append_string_adds [OF d1(1) n1 s1 _ ok(3), of KATCP_FLAG_STRING a] named by (auto simp: flag_defs)
  note d2 = addsD [OF 2(2)]
  have n2: "d < n_clients st2" and s2: "stage_at d st2 [1, 1] [m, a]" using d2 n1 by (simp_all add: flag_defs)
  obtain x st3 where 3: "append_string_katcp e d (KATCP_FLAG_STRING OR KATCP_FLAG_LAST) so st2 = Inr (x, st3)"
      "adds F d (KATCP_FLAG_STRING OR KATCP_FLAG_LAST) [1, 1, 1] [m, a, b] st2 st3"
    using append_option_adds [OF d2(1) n2 s2 _ ok(3) _ b, of "KATCP_FLAG_STRING OR KATCP_FLAG_LAST"] named
    by (auto simp: flag_defs)
  have "adds F d (KATCP_FLAG_STRING OR KATCP_FLAG_LAST) [1, 1, 1] [m, a, b] st st3"
    using adds_then [OF 1(2) _ adds_then [OF 2(2) _ 3(2)]] by (simp add: flag_defs)
  then have "answers F d [([1, 1, 1], [m, a, b])] st st3" by (rule adds_answers) (simp add: flag_defs)
  then show ?thesis using 1(1) 2(1) 3(1) by blast
qed

text \<open>The informs of \<open>?help\<close>.\<close>

definition help_inform :: "string \<Rightarrow> cmd \<Rightarrow> out_msg" where
  "help_inform n c =
     ([1, 1, 1], [KATCP_INFORM # tl (cstr n), tl (the (c_name c)), case c_help c of None \<Rightarrow> [] | Some h \<Rightarrow> h])"

lemma help_loop_ok:
  assumes "disp_ok F st" "d < n_clients st" "env_ok e" "stage_at d st [] []"
    "ready_view (ds_store st) (line_at d st) = Some (n # args, tag)" "cstr n \<noteq> []" "tl (cstr n) \<noteq> ''log''"
    "vis = filter (help_shows (s_mode st) match) cs"
  shows "\<exists>st'. help_loop e d match cs k st = Inr (k + length vis, st') \<and> answers F d (map (help_inform n) vis) st st'"
  using assms
proof (induction cs arbitrary: st k vis)
  case Nil
  then show ?case using emits_refl by (simp add: answers_def)
next
  case (Cons c cs)
  let ?rest = "filter (help_shows (s_mode st) match) cs"
  show ?case
  proof (cases "help_shows (s_mode st) match c")
    case False
    then show ?thesis using Cons.IH [OF Cons.prems(1-7) refl] Cons.prems(8) by simp
  next
    case True
    obtain v st1 w st2 x st3 where i: "prepend_inform_katcp e d st = Inr (v, st1)"
        "append_string_katcp e d KATCP_FLAG_STRING (Some (tl (the (c_name c)))) st1 = Inr (w, st2)"
        "append_string_katcp e d (KATCP_FLAG_STRING OR KATCP_FLAG_LAST) (c_help c) st2 = Inr (x, st3)"
        "answers F d [help_inform n c] st st3"
      using inform_ok [OF Cons.prems(1-7) refl refl, of "tl (the (c_name c))" "c_help c"] unfolding help_inform_def by blast
    note a = answersD [OF i(4)] answers_views [OF i(4) Cons.prems(2)]
    have f: "s_mode st3 = s_mode st" using same_server_fields [OF a(6)] by simp
    have n3: "d < n_clients st3" using a(2) Cons.prems(2) by simp
    have rv: "ready_view (ds_store st3) (line_at d st3) = Some (n # args, tag)" using a(4) Cons.prems(5) by simp
    obtain st' where r: "help_loop e d match cs (k + 1) st3 = Inr (k + 1 + length ?rest, st')"
        "answers F d (map (help_inform n) ?rest) st3 st'"
      using Cons.IH [OF a(1) n3 Cons.prems(3) a(3) rv Cons.prems(6,7) refl, of "k + 1"] unfolding f by blast
    have "answers F d (map (help_inform n) (c # ?rest)) st st'" using answers_trans [OF i(4) r(2)] by simp
    then show ?thesis using True i(1-3) r(1) Cons.prems(8) by simp
  qed
qed

definition ok_reply :: "string \<Rightarrow> string \<Rightarrow> nat \<Rightarrow> out_msg" where
  "ok_reply n t x = ([1, 1, x], [KATCP_REPLY # tl (cstr n), ''ok'', t])"

lemma ok_reply_names [simp]: "reply_names [ok_reply n t x] = [KATCP_REPLY # tl (cstr n)]"
  by (simp add: is_reply_def ok_reply_def)

lemma help_cmd_ok:
  assumes st: "disp_ok F st" "d < n_clients st" "env_ok e" "stage_at d st [] []"
    "ready_view (ds_store st) (line_at d st) = Some (n # args, tag)" "cstr n \<noteq> []" "tl (cstr n) \<noteq> ''log''"
    and sh: "vis = filter (help_shows (s_mode st) (if args \<noteq> [] \<and> hd args \<noteq> [] then Some (cstr (hd args)) else None)) (s_commands st)"
  shows "\<exists>st'. help_cmd_katcp e d (length (n # args)) st = Inr (KATCP_RESULT_OWN, st') \<and>
    answers F d (map (help_inform n) vis @
      [if vis \<noteq> [] then ok_reply n (dec_of_nat (length vis mod 2 ^ 64)) 0
       else reply_msg n KATCP_RESULT_INVALID (Some ''request'')]) st st'"
proof -
  let ?match = "if args \<noteq> [] \<and> hd args \<noteq> [] then Some (cstr (hd args)) else None"
  have match: "(if length (n # args) \<le> 1 then Inr None else arg_string_katcp d 1 st) = Inr ?match"
    using arg_string_ready [OF st(1,2,5), of 1] by (cases args) auto
  obtain v st1 where g: "log_message_katcp e d 0 None
      (Some (''printing available commands for mode '' @ dec_of_nat (s_mode st))) st = Inr (v, st1)" "logs F d st st1"
    using log_message_ok [OF st(1-3)] by blast
  note s = logs_server [OF g(2) st(2)]
  have n1: "d < n_clients st1" using same_server_length [OF s(2)] st(2) by simp
  have rv1: "ready_view (ds_store st1) (line_at d st1) = Some (n # args, tag)" using s(5) st(5) by simp
  have sh1: "vis = filter (help_shows (s_mode st1) ?match) (s_commands st1)"
    using sh same_server_fields [OF s(2)] by simp
  have a1: "answers F d [] st st1" by (rule logs_answers [OF g(2) st(4)])
  obtain st2 where l: "help_loop e d ?match (s_commands st1) 0 st1 = Inr (0 + length vis, st2)"
      "answers F d (map (help_inform n) vis) st1 st2"
    using help_loop_ok [OF s(1) n1 st(3) s(3) [OF st(4)] rv1 st(6,7) sh1] by blast
  note a2 = answersD [OF l(2)] answers_views [OF l(2) n1]
  have n2: "d < n_clients st2" using a2(2) n1 by simp
  have rv2: "ready_view (ds_store st2) (line_at d st2) = Some (n # args, tag)" using a2(4) rv1 by simp
  have a12: "answers F d (map (help_inform n) vis) st st2" using answers_trans [OF a1 l(2)] by simp
  show ?thesis
  proof (cases "vis = []")
    case True
    obtain st3 where r: "extra_response_katcp e d KATCP_RESULT_INVALID (Some (Some ''request'')) st2 = Inr (KATCP_RESULT_OWN, st3)"
        "answers F d [reply_msg n KATCP_RESULT_INVALID (Some ''request'')] st2 st3"
      using extra_response_ok [OF a2(1) n2 st(3) a2(3) rv2 st(6), of KATCP_RESULT_INVALID "Some ''request''"]
      by (auto simp: KATCP_RESULT_INVALID_def)
    then show ?thesis
      using match g(1) l(1) True answers_trans [OF a12 r(2)] by (simp add: help_cmd_katcp_def)
  next
    case False
    let ?k = "of_nat (length vis) :: u64" and ?m = "KATCP_REPLY # tl (cstr n)"
    have named: "?m \<notin> {[], KATCP_LOG_INFORM}" by (simp add: reply_not_log)
    obtain v st3 w st4 where b: "prepend_reply_katcp e d st2 = Inr (v, st3)"
        "append_string_katcp e d KATCP_FLAG_STRING (Some ''ok'') st3 = Inr (w, st4)"
        "adds F d KATCP_FLAG_STRING [1, 1] [?m, ''ok''] st2 st4" "d < n_clients st4" "disp_ok F st4"
        "stage_at d st4 [1, 1] [?m, ''ok'']"
      using reply_start [OF a2(1) n2 st(3) a2(3) rv2 st(6) refl, of "''ok''"] by blast
    obtain x st5 where c: "append_unsigned_long_katcp e d (0x20 OR KATCP_FLAG_LAST) ?k st4 = Inr (x, st5)"
        "adds F d (0x20 OR KATCP_FLAG_LAST) [1, 1, 0] [?m, ''ok'', dec_of_nat (unat ?k)] st4 st5"
      using append_number_adds [OF b(5,4,6) _ st(3) _ refl, of "0x20 OR KATCP_FLAG_LAST" ?k] named by (auto simp: flag_defs)
    have "adds F d (0x20 OR KATCP_FLAG_LAST) [1, 1, 0] [?m, ''ok'', dec_of_nat (unat ?k)] st2 st5"
      using adds_then [OF b(3) _ c(2)] by (simp add: flag_defs)
    then have "answers F d [([1, 1, 0], [?m, ''ok'', dec_of_nat (unat ?k)])] st2 st5"
      by (rule adds_answers) (simp add: flag_defs)
    then have "answers F d [ok_reply n (dec_of_nat (length vis mod 2 ^ 64)) 0] st2 st5"
      by (simp add: ok_reply_def unat_of_nat)
    moreover have "help_cmd_katcp e d (length (n # args)) st = Inr (KATCP_RESULT_OWN, st5)"
      using match g(1) l(1) False b(1,2) c(1) by (simp add: help_cmd_katcp_def)
    ultimately show ?thesis using answers_trans [OF a12] False by auto
  qed
qed

text \<open>Changes of levels and of the state of a client do not touch the lines.\<close>

definition quiet :: "'u disp \<Rightarrow> 'u disp \<Rightarrow> bool" where
  "quiet st st' \<longleftrightarrow> same_lines st st' \<and> (\<forall>j. d_pause (ds_all st' ! j) = d_pause (ds_all st ! j))"

lemma quiet_refl [simp]: "quiet st st"
  by (simp add: quiet_def same_lines_def)

lemma quiet_trans: "quiet st st1 \<Longrightarrow> quiet st1 st2 \<Longrightarrow> quiet st st2"
  by (auto simp: quiet_def same_lines_def)

lemma quiet_put:
  assumes "d < n_clients st" "d_line c = d_line (ds_all st ! d)" "d_pause c = d_pause (ds_all st ! d)"
  shows "quiet st (put_client d c st)"
proof -
  have "same_lines st (put_client d c st)"
    by (rule same_lines_put) (use assms in \<open>simp_all add: line_at_def\<close>)
  then show ?thesis using assms by (auto simp: quiet_def put_client_def n_clients_def nth_list_update)
qed

lemma quiet_n: "quiet st st' \<Longrightarrow> n_clients st' = n_clients st"
  by (simp add: quiet_def same_lines_at)

lemma quiet_handles:
  assumes "quiet st st'" "disp_ok F st" "d < n_clients st" "stage_at d st [] []"
  shows "handles F d [] st st'"
  using same_lines_handles [OF assms(2-4)] assms(1) by (simp add: quiet_def)

lemma levels_loop_ok:
  "\<forall>i \<in> set is. i < n_clients st \<Longrightarrow> \<exists>st'. levels_loop is code st = Inr st' \<and> quiet st st'"
proof (induction "is" arbitrary: st)
  case (Cons i "is")
  let ?st = "put_client i ((ds_all st ! i)\<lparr>d_level := code\<rparr>) st"
  have q: "quiet st ?st" using Cons.prems by (intro quiet_put) simp_all
  have "\<forall>j \<in> set is. j < n_clients ?st" using Cons.prems quiet_n [OF q] by simp
  from Cons.IH [OF this] Cons.prems show ?case by (auto simp: client_at_ok intro: quiet_trans [OF q])
qed simp

lemma set_levels_ok:
  assumes "disp_ok F st" "d < n_clients st"
  shows "\<exists>st'. set_levels d global code st = Inr st' \<and> quiet st st'"
proof -
  have q0: "quiet st (put_client d ((ds_all st ! d)\<lparr>d_level := code\<rparr>) st)"
    by (rule quiet_put [OF assms(2)]) simp_all
  have q1: "quiet s (s\<lparr>s_default := code\<rparr>)" for s :: "'a disp" by (simp add: quiet_def same_lines_def)
  obtain st1 where l: "levels_loop (s_clients st) code st = Inr st1" "quiet st st1"
    using levels_loop_ok [of "s_clients st" st code] assms(1) by (auto simp: disp_ok_def)
  show ?thesis
    using q0 q1 [of st] l quiet_trans [OF l(2) q1] assms(2) by (auto simp: set_levels_def client_at_ok)
qed

lemma log_level_ok_cmd:
  assumes st: "disp_ok F st" "d < n_clients st" "env_ok e" "stage_at d st [] []"
    "ready_view (ds_store st) (line_at d st) = Some (n # args, tag)" "cstr n \<noteq> []"
  shows "\<exists>st' m. log_level_generic_katcp e d (length (n # args)) global st = Inr (KATCP_RESULT_OWN, st') \<and>
    handles F d [m] st st' \<and> reply_names [m] = [KATCP_REPLY # tl (cstr n)]"
proof -
  let ?name = "KATCP_REPLY # tl (cstr n)"
  have arg: "arg_string_katcp d 1 st = Inr (if args \<noteq> [] \<and> hd args \<noteq> [] then Some (cstr (hd args)) else None)"
    using arg_string_ready [OF st(1,2,5), of 1] by (cases args) auto
  let ?first = "if length (n # args) > 1 then
          bind_res (arg_string_katcp d 1 st) (\<lambda>requested.
          case requested of
            None \<Rightarrow> Inr (-1, None, st)
          | Some t \<Rightarrow>
            let code = (if strcmp t ''all'' = 0 then KATCP_LEVEL_TRACE else log_to_code_katcl (Some t)) in
            bind_res (if code \<ge> 0 then set_levels d global (nat code) st else Inr st) (\<lambda>st1.
            Inr (code, Some t, st1)))
        else bind_res (client_at d st) (\<lambda>c. Inr (int (d_level c), None, st))"
  obtain code requested st1 where f: "?first = Inr (code, requested, st1)" "quiet st st1"
  proof (cases "args \<noteq> [] \<and> hd args \<noteq> []")
    case True
    let ?c = "if strcmp (cstr (hd args)) ''all'' = 0 then KATCP_LEVEL_TRACE else log_to_code_katcl (Some (cstr (hd args)))"
    obtain s1 where "set_levels d global (nat ?c) st = Inr s1" "quiet st s1" using set_levels_ok [OF st(1,2)] by blast
    then show thesis using that [of ?c "Some (cstr (hd args))" "if ?c \<ge> 0 then s1 else st"] True arg by (auto simp: Let_def)
  next
    case False
    show thesis
    proof (cases "args = []")
      case True
      then show thesis using that st(2) by (simp add: client_at_ok)
    qed (use that False arg in simp)
  qed
  have h1: "handles F d [] st st1" by (rule quiet_handles [OF f(2) st(1,2,4)])
  note d1 = handlesD [OF h1]
  have n1: "d < n_clients st1" using d1(2) st(2) by simp
  have rv1: "ready_view (ds_store st1) (line_at d st1) = Some (n # args, tag)" using d1(4) st(5) by simp
  show ?thesis
  proof (cases "if code \<ge> 0 then log_to_string_katcl code else None")
    case (Some got)
    obtain v st2 w st3 where b: "prepend_reply_katcp e d st1 = Inr (v, st2)"
        "append_string_katcp e d KATCP_FLAG_STRING (Some ''ok'') st2 = Inr (w, st3)"
        "adds F d KATCP_FLAG_STRING [1, 1] [?name, ''ok''] st1 st3" "d < n_clients st3" "disp_ok F st3"
        "stage_at d st3 [1, 1] [?name, ''ok'']"
      using reply_start [OF d1(1) n1 st(3) d1(3) rv1 st(6) refl, of "''ok''"] by blast
    have named: "?name \<notin> {[], KATCP_LOG_INFORM}" by (simp add: reply_not_log)
    obtain x st4 where c: "append_string_katcp e d (KATCP_FLAG_STRING OR KATCP_FLAG_LAST) (Some got) st3 = Inr (x, st4)"
        "adds F d (KATCP_FLAG_STRING OR KATCP_FLAG_LAST) [1, 1, 1] [?name, ''ok'', got] st3 st4"
      using append_string_adds [OF b(5,4,6) _ st(3), of "KATCP_FLAG_STRING OR KATCP_FLAG_LAST" got] named
      by (auto simp: flag_defs)
    have "adds F d (KATCP_FLAG_STRING OR KATCP_FLAG_LAST) [1, 1, 1] [?name, ''ok'', got] st1 st4"
      using adds_then [OF b(3) _ c(2)] by (simp add: flag_defs)
    then have "answers F d [ok_reply n got 1] st1 st4"
      unfolding ok_reply_def by (rule adds_answers) (simp add: flag_defs)
    then have "handles F d [ok_reply n got 1] st st4" using handles_trans [OF h1 answers_handles [OF _ n1]] by simp
    moreover have "log_level_generic_katcp e d (length (n # args)) global st = Inr (KATCP_RESULT_OWN, st4)"
      unfolding log_level_generic_katcp_def f(1) using Some b(1,2) c(1) by simp
    ultimately show ?thesis using ok_reply_names by blast
  next
    case None
    let ?log = "case requested of
        Some t \<Rightarrow> bind_res (log_message_katcp e d 3 None (Some (''unknown log level '' @ t)) st1) (\<lambda>(_, st2). Inr st2)
      | None \<Rightarrow> Inr st1"
    obtain st2 where g: "?log = Inr st2" "handles F d [] st1 st2"
    proof (cases requested)
      case None
      then show thesis using that quiet_handles [OF quiet_refl d1(1) n1 d1(3)] by simp
    next
      case (Some t)
      obtain v s2 where "log_message_katcp e d 3 None (Some (''unknown log level '' @ t)) st1 = Inr (v, s2)" "logs F d st1 s2"
        using log_message_ok [OF d1(1) n1 st(3)] by blast
      then show thesis using that [of s2] Some logs_handles [OF _ n1 d1(3)] by simp
    qed
    note d2 = handlesD [OF g(2)]
    have n2: "d < n_clients st2" using d2(2) n1 by simp
    have rv2: "ready_view (ds_store st2) (line_at d st2) = Some (n # args, tag)" using d2(4) rv1 by simp
    let ?m = "reply_msg n KATCP_RESULT_INVALID (Some ''level'')"
    obtain st3 where r: "extra_response_katcp e d KATCP_RESULT_INVALID (Some (Some ''level'')) st2 = Inr (KATCP_RESULT_OWN, st3)"
        "answers F d [?m] st2 st3"
      using extra_response_ok [OF d2(1) n2 st(3) d2(3) rv2 st(6), of KATCP_RESULT_INVALID "Some ''level''"]
      by (auto simp: KATCP_RESULT_INVALID_def)
    have "handles F d [?m] st st3" using handles_trans [OF handles_trans [OF h1 g(2)] answers_handles [OF r(2) n2]] by simp
    moreover have "log_level_generic_katcp e d (length (n # args)) global st = Inr (KATCP_RESULT_OWN, st3)"
      unfolding log_level_generic_katcp_def f(1) using None g(1) r(1) by simp
    ultimately show ?thesis using reply_msg_name by blast
  qed
qed

lemma log_record_ok:
  assumes st: "disp_ok F st" "d < n_clients st" "env_ok e" "stage_at d st [] []"
    "ready_view (ds_store st) (line_at d st) = Some (n # args, tag)"
  shows "\<exists>r st'. log_record_cmd_katcp e d (length (n # args)) st = Inr (r, st') \<and> handles F d [] st st' \<and> r \<in> {0, -1}"
proof -
  have log: "\<exists>st'. log_only e d level t v st = Inr (v, st') \<and> handles F d [] st st'" for level t v
    using log_message_ok [OF st(1-3), of "of_int level" None t] logs_handles [OF _ st(2,4)] by (fastforce simp: log_only_def)
  have arg: "\<exists>a. arg_string_katcp d i st = Inr a" for i using arg_string_ready [OF st(1,2,5), of i] by simp
  show ?thesis
  proof (cases "args = []")
    case True
    then show ?thesis using log [of 4 "''require a message to log''" KATCP_RESULT_FAIL]
      by (auto simp: log_record_cmd_katcp_def KATCP_RESULT_FAIL_def)
  next
    case False
    let ?n = "length (n # args)"
    obtain msg where m: "arg_string_katcp d (if ?n > 2 then 2 else 1) st = Inr msg" using arg by blast
    obtain lev where l: "(if ?n > 2 then arg_string_katcp d 1 st else Inr None) = Inr lev"
      using arg [of 1] by (cases "?n > 2") (auto simp del: One_nat_def)
    let ?code = "if lev = None \<or> log_to_code_katcl lev < 0 then 2 else log_to_code_katcl lev"
    have r: "log_record_cmd_katcp e d ?n st =
        (case msg of None \<Rightarrow> log_only e d 5 ''unable to acquire message'' KATCP_RESULT_FAIL st
         | Some t \<Rightarrow> log_only e d ?code t KATCP_RESULT_OK st)"
      unfolding log_record_cmd_katcp_def using False m l by (simp add: Let_def)
    show ?thesis
    proof (cases msg)
      case None
      then show ?thesis using r log [of 5 "''unable to acquire message''" KATCP_RESULT_FAIL] by (auto simp: KATCP_RESULT_FAIL_def)
    next
      case (Some t)
      then show ?thesis using r log [of ?code t KATCP_RESULT_OK] by (auto simp: KATCP_RESULT_OK_def)
    qed
  qed
qed

lemma terminate_quiet:
  "d < n_clients st \<Longrightarrow> quiet st (put_client d (the (snd (terminate_katcp (Some (ds_all st ! d)) code))) st)"
  by (rule quiet_put) (simp_all add: terminate_katcp_def Let_def)

section \<open>The contract\<close>

lemma handles_refl:
  "disp_ok F st \<Longrightarrow> d < n_clients st \<Longrightarrow> stage_at d st [] [] \<Longrightarrow> handles F d [] st st"
  by (rule quiet_handles [OF quiet_refl])

lemma help_names:
  "reply_names (map (help_inform n) cs) = []"
  by (induction cs) (simp_all add: is_reply_def help_inform_def KATCP_REPLY_def KATCP_INFORM_def)

lemma library_contract:
  assumes st: "disp_ok F st" "d < n_clients st" "env_ok e" "stage_at d st [] []"
    "ready_view (ds_store st) (line_at d st) = Some (n # args, tag)" "callable (cstr n)" and f: "f \<in> dispatch_calls"
  shows "\<exists>r st' out. library_call ext e f d (length (n # args)) st = Inr (r, st') \<and> handles F d out st st' \<and>
    request_done (cstr n) r out"
proof -
  have n: "cstr n \<noteq> []" "tl (cstr n) \<noteq> ''log''" using st(6) by (simp_all add: callable_def)
  note codes = request_done_def KATCP_RESULT_OK_def KATCP_RESULT_OWN_def
  have level: "\<exists>r st' out. log_level_generic_katcp e d (length (n # args)) global st = Inr (r, st') \<and> handles F d out st st' \<and>
      request_done (cstr n) r out" for global
  proof -
    obtain st' m where "log_level_generic_katcp e d (length (n # args)) global st = Inr (KATCP_RESULT_OWN, st')"
        "handles F d [m] st st'" "reply_names [m] = [KATCP_REPLY # tl (cstr n)]"
      using log_level_ok_cmd [OF st(1-5) n(1), of global] by blast
    then show ?thesis by (fastforce simp: request_done_def)
  qed
  consider "f = 0 \<or> f = 1" | "f = 2" | "f = 3 \<or> f = 4 \<or> f = 5" | "f = 6" | "f = 7" using f unfolding dispatch_calls_def by fastforce
  then show ?thesis
  proof cases
    case 1
    have "handles F d [] st (put_client d (the (snd (terminate_katcp (Some (ds_all st ! d)) code))) st)" for code
      by (rule quiet_handles [OF terminate_quiet [OF st(2)] st(1,2,4)])
    note q = this
    have "library_call ext e f d (length (n # args)) st =
        Inr (KATCP_RESULT_OK, put_client d (the (snd (terminate_katcp (Some (ds_all st ! d))
          (if f = 0 then KATCP_EXIT_HALT else KATCP_EXIT_RESTART)))) st)"
      using 1 unfolding library_call_def halt_cmd_katcp_def restart_cmd_katcp_def client_at_ok [OF st(2)] by fastforce
    moreover have "request_done (cstr n) KATCP_RESULT_OK []" by (simp add: codes)
    ultimately show ?thesis using q by blast
  next
    case 2
    let ?vis = "filter (help_shows (s_mode st) (if args \<noteq> [] \<and> hd args \<noteq> [] then Some (cstr (hd args)) else None)) (s_commands st)"
    let ?m = "if ?vis \<noteq> [] then ok_reply n (dec_of_nat (length ?vis mod 2 ^ 64)) 0
       else reply_msg n KATCP_RESULT_INVALID (Some ''request'')"
    obtain st' where h: "help_cmd_katcp e d (length (n # args)) st = Inr (KATCP_RESULT_OWN, st')"
        "answers F d (map (help_inform n) ?vis @ [?m]) st st'"
      using help_cmd_ok [OF st(1-5) n refl] by blast
    have "reply_names [?m] = [KATCP_REPLY # tl (cstr n)]"
      using ok_reply_names reply_msg_name by (cases "?vis = []") (simp_all only: if_True if_False simp_thms)
    then have "request_done (cstr n) KATCP_RESULT_OWN (map (help_inform n) ?vis @ [?m])"
      using help_names by (simp only: request_done_def reply_names_simps(2) append_Nil if_True simp_thms)
    moreover have "library_call ext e f d (length (n # args)) st = help_cmd_katcp e d (length (n # args)) st"
      using 2 by (simp add: library_call_def)
    ultimately show ?thesis using h(1) answers_handles [OF h(2) st(2)] by metis
  next
    case 3
    then show ?thesis using level
      by (auto simp: library_call_def log_level_cmd_katcp_def log_local_cmd_katcp_def log_default_cmd_katcp_def
          simp del: list.size)
  next
    case 4
    then show ?thesis using log_record_ok [OF st(1-5)] by (fastforce simp: library_call_def codes simp del: list.size)
  next
    case 5
    then show ?thesis using handles_refl [OF st(1,2,4)]
      by (auto simp: library_call_def watchdog_cmd_katcp_def codes)
  qed
qed

lemma library_env_sel [simp]:
  "e_mem (library_env mem now maj ptr ext) = mem"
  "env_ok (library_env mem now maj ptr ext) \<longleftrightarrow> (\<forall>k i. mem k i)"
  by (simp_all add: library_env_def Let_def env_ok_def)

lemma library_env_call:
  assumes "\<forall>k i. mem k i" "f \<in> dispatch_calls" "disp_ok F st" "d < n_clients st" "stage_at d st [] []"
    "ready_view (ds_store st) (line_at d st) = Some (n # args, tag)" "callable (cstr n)"
  shows "\<exists>r st' out. e_call (library_env mem now maj ptr ext) f d (length (n # args)) st = Inr (r, st') \<and>
    handles F d out st st' \<and> request_done (cstr n) r out"
proof -
  let ?e = "\<lparr>e_mem = mem, e_now = now, e_major5 = maj, e_pointer = ptr, e_call = \<lambda>_ _ _ _. Inl NullDeref\<rparr>"
  have "env_ok ?e" using assms(1) by (simp add: env_ok_def)
  from library_contract [OF assms(3,4) this assms(5-7,2), of ext] show ?thesis by (simp add: library_env_def Let_def)
qed

text \<open>The commands of \<open>dispatch.c\<close> keep the contract whatever the other callbacks do.\<close>

interpretation lib: request_handlers F "library_env (\<lambda>_ _. True) now maj ptr ext :: 'u env" dispatch_calls
  for F and now maj ptr ext
  by unfold_locales (use library_env_call [of "\<lambda>_ _. True"] in auto)




section \<open>A server with these commands\<close>

definition library_cmd :: "string \<times> string \<times> nat \<Rightarrow> cmd" where
  "library_cmd = (\<lambda>(name, help, f). \<lparr>c_name = Some name, c_help = Some help, c_flags = 0, c_mode = 0, c_call = Some f\<rparr>)"

lemma register_command_ok:
  assumes "s_vector st \<noteq> []" "env_ok e" "typed name" "name \<noteq> []"
  shows "register_katcp e d (Some name) help (Some f) st =
    Inr (0, st\<lparr>s_commands := library_cmd (name, help, f) # s_commands st\<rparr>)"
  using assms
  by (simp add: register_katcp_def register_flag_mode_katcp_def new_command_def env_ok_def library_cmd_def
      link_command_def wild_def)

lemma register_list_ok:
  assumes "s_vector st \<noteq> []" "env_ok e" "\<forall>(name, help, f) \<in> set cs. typed name \<and> name \<noteq> []"
  shows "foldl (\<lambda>r (name, help, f). bind_res r (\<lambda>st1.
      bind_res (register_katcp e d (Some name) help (Some f) st1) (\<lambda>(_, st2). Inr st2))) (Inr st) cs =
    Inr (st\<lparr>s_commands := rev (map library_cmd cs) @ s_commands st\<rparr>)"
  using assms
proof (induction cs arbitrary: st)
  case (Cons c cs)
  obtain name h f where c: "c = (name, h, f)" by (cases c)
  let ?st = "st\<lparr>s_commands := library_cmd c # s_commands st\<rparr>"
  have "typed name" "name \<noteq> []" using Cons.prems(3) c by auto
  from register_command_ok [OF Cons.prems(1,2) this] Cons.IH [of ?st] Cons.prems c show ?case by simp
qed simp

lemma library_typed: "\<forall>(name, help, f) \<in> set library_commands. typed name \<and> name \<noteq> []"
  by (simp add: library_commands_def typed_def KATCP_REQUEST_def)

lemma setup_ok:
  assumes "s_vector st \<noteq> []" "env_ok e"
  shows "setup_commands e d st = Inr (st\<lparr>s_commands := rev (map library_cmd library_commands) @ s_commands st\<rparr>)"
  unfolding setup_commands_def by (rule register_list_ok [OF assms library_typed])

lemma library_requests: "\<forall>c \<in> set (map library_cmd library_commands). request_command library_calls c"
  by (simp add: library_commands_def library_cmd_def request_command_def wild_def callable_def library_calls_def
      KATCP_REQUEST_def)

lemma library_commands_ok: "commands_ok cs \<Longrightarrow> commands_ok (rev (map library_cmd library_commands) @ cs)"
  by (simp add: library_commands_def library_cmd_def wild_def)

text \<open>A line that has received some bytes.\<close>

lemma line_with_input:
  "\<exists>s. line_ok s (fresh_line 3 0) {#} \<and> next_view s (fresh_line 3 0) tok_init u"
proof (induction u rule: rev_induct)
  case Nil
  show ?case using create_line_ok [OF empty_store_ok, of 3] by (auto simp: empty_store_def)
next
  case (snoc c u)
  then obtain s where s: "line_ok s (fresh_line 3 0) {#}" "next_view s (fresh_line 3 0) tok_init u" by blast
  let ?io = "\<lambda>n :: nat. if n = 0 then Rd_eof else Rd_data [c]"
  have io: "length d \<le> n" if "?io n = Rd_data d" for n d using that by (cases n) auto
  obtain n where "n > 0" "read_effect {#} (fresh_line 3 0) s tok_init u (?io n) (read_katcl True ?io (fresh_line 3 0) s)"
    using read_ok [OF s, of ?io] io by blast
  then show ?case by (auto simp: read_effect_def split: sum.splits)
qed

definition sample_env :: "'u env" where
  "sample_env = library_env (\<lambda>_ _. True) (\<lambda>_. None) True (\<lambda>_. []) (\<lambda>f d argc st. Inr (KATCP_RESULT_OK, st))"

lemma sample_env_ok [simp]: "env_ok sample_env"
  by (simp add: sample_env_def)

definition sample_server :: "store \<Rightarrow> unit disp" where
  "sample_server s =
     \<lparr>ds_all = [\<lparr>d_level = 2, d_run = 1, d_exit = KATCP_EXIT_ABORT, d_pause = 0, d_line = fresh_line 3 0,
                 d_current = None, d_count = 0\<rparr>],
      ds_store = s, s_clients = [0], s_count = 0, s_template = 0, s_commands = [], s_mode = 0,
      s_vector = [None], s_default = 2, s_prehook = None, s_posthook = None, ds_tick = 0, ds_user = ()\<rparr>"

lemma sample_idle:
  assumes "line_ok s (fresh_line 3 0) {#}" "next_view s (fresh_line 3 0) tok_init u"
    "setup_commands e 0 (sample_server s) = Inr st" "env_ok e"
  shows "idle {#} 0 st" "\<forall>c \<in> set (s_commands st). request_command library_calls c"
    "next_view (ds_store st) (line_at 0 st) tok_init u" "wire_at 0 st = []"
proof -
  have st: "st = (sample_server s)\<lparr>s_commands := rev (map library_cmd library_commands)\<rparr>"
    using setup_ok [of "sample_server s" e 0] assms(3,4) by (simp add: sample_server_def)
  have l: "line_at 0 st = fresh_line 3 0" "ds_store st = s" "n_clients st = 1"
    by (simp_all add: st sample_server_def line_at_def n_clients_def)
  have "lines_ok s [fresh_line 3 0] {#}"
    using assms(1) fresh_output(1) by (simp add: lines_ok_def line_ok_def rest_refs_def all_refs_def)
  then have "disp_ok {#} st"
    using library_commands_ok [of "[]"] by (simp add: disp_ok_def st sample_server_def n_clients_def)
  moreover have "stage_at 0 st [] []" using l fresh_output(3) by (simp add: stage_at_def stage_is_def)
  ultimately show "idle {#} 0 st"
    using l(3) by (simp add: idle_def st sample_server_def)
  show "\<forall>c \<in> set (s_commands st). request_command library_calls c"
    using library_requests by (simp add: st)
  show "next_view (ds_store st) (line_at 0 st) tok_init u" using assms(2) l by simp
  show "wire_at 0 st = []" using l fresh_output(2) by (simp add: wire_at_def)
qed

section \<open>Every request is answered\<close>






text \<open>C36. Registering and looking up. On a server in a good state, and when no allocation is
  refused, registering a name with its type makes its callback the one that is found for the name in
  every mode, whatever was registered before, and leaves what is found for other names alone;
  removing the name again restores every lookup as it was.\<close>

theorem register_then_deregister:
  assumes "disp_ok F st" "env_ok e" "typed name" "name \<noteq> []"
  shows "\<exists>st'. register_katcp e d (Some name) hlp (Some f) st = Inr (0, st') \<and> disp_ok F st' \<and>
    search_loop mode (Some name) (s_commands st') = Inr (Some (library_cmd (name, hlp, f))) \<and>
    (\<forall>other. other \<noteq> name \<longrightarrow>
      search_loop mode (Some other) (s_commands st') = search_loop mode (Some other) (s_commands st)) \<and>
    deregister_command_katcp e d (Some name) st' = Inr (0, st)"
proof -
  let ?c = "library_cmd (name, hlp, f)"
  let ?st = "st\<lparr>s_commands := ?c # s_commands st\<rparr>"
  have v: "s_vector st \<noteq> []" and ok: "commands_ok (s_commands st)" using assms(1) by (auto simp: disp_ok_def)
  note r = register_command_ok [OF v assms(2,3,4), of d hlp f]
  have c: "c_name ?c = Some name" "\<not> wild ?c" "in_mode m ?c" for m by (simp_all add: library_cmd_def wild_def in_mode_def)
  have "deregister_command_katcp e d (Some name) ?st = Inr (0, st)"
    using assms(2,3,4) c(1) by (simp add: deregister_command_katcp_def full_name_def strcmp_eq_iff)
  moreover have "disp_ok F ?st" using assms(1) ok c by (simp add: disp_ok_def n_clients_def)
  moreover have "search_loop mode (Some other) (?c # s_commands st) = search_loop mode (Some other) (s_commands st)"
    if "other \<noteq> name" for other
    using that c by (simp add: strcmp_ptr_def strcmp_eq_iff)
  moreover have "search_loop mode (Some name) (?c # s_commands st) = Inr (Some ?c)"
    using c by (simp add: strcmp_ptr_def strcmp_eq_iff)
  ultimately show ?thesis using r by (intro exI [of _ ?st]) simp
qed

theorem register_then_deregister_witness:
  "\<exists>s st st'. setup_commands (sample_env) 0 (sample_server s) = Inr st \<and>
    register_katcp (sample_env) 0 (Some ''?help'') ''mine'' (Some 9) st = Inr (0, st') \<and>
    search_loop 0 (Some ''?help'') (s_commands st') = Inr (Some (library_cmd (''?help'', ''mine'', 9))) \<and>
    deregister_command_katcp (sample_env) 0 (Some ''?help'') st' = Inr (0, st)"
proof -
  let ?e = "sample_env :: unit env"
  obtain s where s: "line_ok s (fresh_line 3 0) {#}" "next_view s (fresh_line 3 0) tok_init []"
    using line_with_input by blast
  obtain st where st: "setup_commands ?e 0 (sample_server s) = Inr st"
    using setup_ok [of "sample_server s" ?e 0] by (simp add: sample_server_def)
  have i: "disp_ok {#} st" using sample_idle(1) [OF s st sample_env_ok] by (simp_all add: idle_def)
  have "typed ''?help''" by (simp add: typed_def KATCP_REQUEST_def)
  from register_then_deregister [OF i sample_env_ok this, of 0 "''mine''" 9 0]
  show ?thesis using st by blast
qed

end
