(* ===== verification/Dispatch_Args.thy ===== *)
theory Dispatch_Args
  imports Server_Cmds
begin

text \<open>
  The functions through which a callback works on its client (\<open>katcp/dispatch.c\<close>): access to the
  arguments of the current message, and appending to the answer. Without the newer interface
  (\<open>this_flat_katcp\<close> gives a null pointer) each goes to the line of the client.
\<close>

unbundle bit_operations_syntax

section \<open>The current message\<close>

definition with_line :: "nat \<Rightarrow> (line \<Rightarrow> store \<Rightarrow> 'a res) \<Rightarrow> 'u disp \<Rightarrow> 'a res" where
  "with_line d f st = bind_res (client_at d st) (\<lambda>c. f (d_line c) (ds_store st))"

definition arg_tag_katcp :: "nat \<Rightarrow> 'u disp \<Rightarrow> int res" where
  "arg_tag_katcp d st = with_line d arg_tag_katcl st"

definition arg_request_katcp :: "nat \<Rightarrow> 'u disp \<Rightarrow> int res" where
  "arg_request_katcp d st = with_line d arg_request_katcl st"

definition arg_reply_katcp :: "nat \<Rightarrow> 'u disp \<Rightarrow> int res" where
  "arg_reply_katcp d st = with_line d arg_reply_katcl st"

definition arg_inform_katcp :: "nat \<Rightarrow> 'u disp \<Rightarrow> int res" where
  "arg_inform_katcp d st = with_line d arg_inform_katcl st"

definition arg_null_katcp :: "nat \<Rightarrow> nat \<Rightarrow> 'u disp \<Rightarrow> int res" where
  "arg_null_katcp d index st = with_line d (\<lambda>l. arg_null_katcl l index) st"

definition arg_copy_string_katcp :: "'u env \<Rightarrow> nat \<Rightarrow> nat \<Rightarrow> 'u disp \<Rightarrow> string option res" where
  "arg_copy_string_katcp e d index st = with_line d (\<lambda>l. arg_copy_string_katcl (e_mem e (ds_tick st) 0) l index) st"

definition arg_unsigned_long_katcp :: "nat \<Rightarrow> nat \<Rightarrow> 'u disp \<Rightarrow> u64 res" where
  "arg_unsigned_long_katcp d index st = with_line d (\<lambda>l. arg_unsigned_long_katcl l index) st"

definition arg_bb_katcp :: "nat \<Rightarrow> nat \<Rightarrow> byte_bit option \<Rightarrow> 'u disp \<Rightarrow> (int \<times> byte_bit option) res" where
  "arg_bb_katcp d index b st = with_line d (\<lambda>l. arg_bb_katcl l index b) st"

definition arg_buffer_katcp :: "nat \<Rightarrow> nat \<Rightarrow> nat \<Rightarrow> 'u disp \<Rightarrow> (nat \<times> string) res" where
  "arg_buffer_katcp d index sz st = with_line d (\<lambda>l. arg_buffer_katcl l index sz) st"

definition line_katcp :: "nat option \<Rightarrow> 'u disp \<Rightarrow> line option res" where
  "line_katcp d st = (case d of None \<Rightarrow> Inr None | Some i \<Rightarrow> with_line i (\<lambda>l _. Inr (Some l)) st)"

definition arg_parse_katcp :: "nat \<Rightarrow> 'u disp \<Rightarrow> nat option res" where
  "arg_parse_katcp d st =
     bind_res (line_katcp (Some d) st) (\<lambda>l. Inr (case l of None \<Rightarrow> None | Some l' \<Rightarrow> ready_katcl l'))"

section \<open>The answer\<close>

definition append_signed_long_katcp :: "'u env \<Rightarrow> nat \<Rightarrow> flags \<Rightarrow> u64 \<Rightarrow> 'u disp \<Rightarrow> (int \<times> 'u disp) res" where
  "append_signed_long_katcp e d fl v st = on_line e d (\<lambda>mem l s. append_signed_long_katcl mem l fl v s) st"

definition append_hex_long_katcp :: "'u env \<Rightarrow> nat \<Rightarrow> flags \<Rightarrow> u64 \<Rightarrow> 'u disp \<Rightarrow> (int \<times> 'u disp) res" where
  "append_hex_long_katcp e d fl v st = on_line e d (\<lambda>mem l s. append_hex_long_katcl mem l fl v s) st"

definition append_unsigned_llong_katcp :: "'u env \<Rightarrow> nat \<Rightarrow> flags \<Rightarrow> u64 \<Rightarrow> 'u disp \<Rightarrow> (int \<times> 'u disp) res" where
  "append_unsigned_llong_katcp e d fl v st = on_line e d (\<lambda>mem l s. append_unsigned_llong_katcl mem l fl v s) st"

definition append_signed_llong_katcp :: "'u env \<Rightarrow> nat \<Rightarrow> flags \<Rightarrow> u64 \<Rightarrow> 'u disp \<Rightarrow> (int \<times> 'u disp) res" where
  "append_signed_llong_katcp e d fl v st = on_line e d (\<lambda>mem l s. append_signed_llong_katcl mem l fl v s) st"

definition append_buffer_katcp ::
  "'u env \<Rightarrow> nat \<Rightarrow> flags \<Rightarrow> string option \<Rightarrow> nat \<Rightarrow> 'u disp \<Rightarrow> (int \<times> 'u disp) res" where
  "append_buffer_katcp e d fl buffer len st = on_line e d (\<lambda>mem l s. append_buffer_katcl mem l fl buffer len s) st"

definition append_timestamp_katcp ::
  "'u env \<Rightarrow> nat \<Rightarrow> flags \<Rightarrow> timeval option \<Rightarrow> 'u disp \<Rightarrow> (int \<times> 'u disp) res" where
  "append_timestamp_katcp e d fl tv st =
     on_line e d (\<lambda>mem l s. append_timestamp_katcl (e_major5 e) mem (e_now e (ds_tick st)) l fl tv s) st"

definition append_parameter_katcp ::
  "'u env \<Rightarrow> nat \<Rightarrow> flags \<Rightarrow> nat \<Rightarrow> nat \<Rightarrow> 'u disp \<Rightarrow> (int \<times> 'u disp) res" where
  "append_parameter_katcp e d fl p index st = on_line e d (\<lambda>mem l s. append_parameter_katcl mem l fl p index s) st"

definition append_trailing_katcp ::
  "'u env \<Rightarrow> nat \<Rightarrow> flags \<Rightarrow> nat \<Rightarrow> nat \<Rightarrow> 'u disp \<Rightarrow> (int \<times> 'u disp) res" where
  "append_trailing_katcp e d fl p start st = on_line e d (\<lambda>mem l s. append_trailing_katcl mem l fl p start s) st"

definition append_parse_katcp :: "'u env \<Rightarrow> nat \<Rightarrow> nat \<Rightarrow> 'u disp \<Rightarrow> (int \<times> 'u disp) res" where
  "append_parse_katcp e d p st = on_line e d (\<lambda>mem l s. append_parse_katcl (mem 0) l p s) st"

definition append_args_katcp :: "'u env \<Rightarrow> nat \<Rightarrow> flags \<Rightarrow> string option \<Rightarrow> 'u disp \<Rightarrow> (int \<times> 'u disp) res" where
  "append_args_katcp e d fl t st = on_line e d (\<lambda>mem l s. append_vargs_katcl mem l fl t s) st"

definition append_end_katcp :: "'u env \<Rightarrow> nat \<Rightarrow> 'u disp \<Rightarrow> (int \<times> 'u disp) res" where
  "append_end_katcp e d st = on_line e d append_end_katcl st"

definition vsend_katcp :: "'u env \<Rightarrow> nat \<Rightarrow> (flags \<times> send_value) list \<Rightarrow> 'u disp \<Rightarrow> (int \<times> 'u disp) res" where
  "vsend_katcp e d args st = on_line e d (\<lambda>mem l s. vsend_katcl mem l args s) st"

definition send_katcp :: "'u env \<Rightarrow> nat \<Rightarrow> (flags \<times> send_value) list \<Rightarrow> 'u disp \<Rightarrow> (int \<times> 'u disp) res" where
  "send_katcp e d args st = on_line e d (\<lambda>mem l s. vsend_katcl mem l args s) st"

section \<open>The connection\<close>

definition fileno_katcp :: "nat option \<Rightarrow> 'u disp \<Rightarrow> int res" where
  "fileno_katcp d st = (case d of None \<Rightarrow> Inr (-1) | Some i \<Rightarrow> with_line i (\<lambda>l _. Inr (fileno_katcl (Some l))) st)"

definition flushing_katcp :: "nat option \<Rightarrow> 'u disp \<Rightarrow> int res" where
  "flushing_katcp d st = (case d of None \<Rightarrow> Inr 0 | Some i \<Rightarrow> with_line i (\<lambda>l _. Inr (flushing_katcl l)) st)"

definition read_katcp :: "'u env \<Rightarrow> nat option \<Rightarrow> (nat \<Rightarrow> read_result) \<Rightarrow> 'u disp \<Rightarrow> (int \<times> 'u disp) res" where
  "read_katcp e d io st =
     (case d of None \<Rightarrow> Inr (-1, st) | Some i \<Rightarrow> on_line e i (\<lambda>mem l s. read_katcl (mem 0) io l s) st)"

definition error_katcp :: "nat option \<Rightarrow> 'u disp \<Rightarrow> (int \<times> 'u disp) res" where
  "error_katcp d st =
     (case d of
        None \<Rightarrow> Inr (EINVAL, st)
      | Some i \<Rightarrow>
          bind_res (client_at i st) (\<lambda>c.
          case error_katcl (Some (d_line c)) of (v, l) \<Rightarrow> Inr (v, put_client i (c\<lparr>d_line := the l\<rparr>) st)))"

definition write_katcp ::
  "(nat \<Rightarrow> nat \<Rightarrow> send_result) \<Rightarrow> nat \<Rightarrow> nat option \<Rightarrow> 'u disp \<Rightarrow> (int \<times> 'u disp) option res" where
  "write_katcp io n d st =
     (case d of
        None \<Rightarrow> Inr (Some (-1, st))
      | Some i \<Rightarrow>
          bind_res (client_at i st) (\<lambda>c.
          bind_res (write_katcl io n (d_line c) (ds_store st)) (\<lambda>r.
          Inr (case r of
                 None \<Rightarrow> None
               | Some (v, w) \<Rightarrow> Some (v, (put_client i (c\<lparr>d_line := w_line w\<rparr>) st)\<lparr>ds_store := w_store w\<rparr>)))))"

section \<open>Sending a whole message\<close>

lemma send_one_touches:
  assumes "send_one mem l fl v s = Inr (r, l', s')"
  shows "touches (set_option (l_stage l)) s s' \<and> set_option (l_stage l') \<subseteq> stage_from l s"
proof -
  have "(\<exists>fl' add. append_by mem l fl' add s = Inr (r, l', s')) \<or> l' = l \<and> s' = s"
    using assms
    by (auto simp: send_one_def Let_def append_string_katcl_def append_signed_long_katcl_def append_unsigned_long_katcl_def
        append_hex_long_katcl_def append_buffer_katcl_def split: if_splits send_value.splits)
  then show ?thesis using append_by_touches by (fastforce simp: stage_from_def)
qed

lemma vsend_loop_touches:
  "vsend_loop mem l check args s = Inr (r, l', s') \<Longrightarrow> touches (set_option (l_stage l)) s s'"
proof (induction args arbitrary: l s check)
  case (Cons x args)
  obtain fl v where x: "x = (fl, v)" by fastforce
  show ?case
  proof (cases "check AND fl \<noteq> check")
    case True
    then show ?thesis using Cons.prems x by simp
  next
    case False
    then obtain w l1 s1 where o: "send_one mem l fl v s = Inr (w, l1, s1)"
        "(if w \<le> 0 then Inr (-1, l1, s1) else if has_flag fl KATCP_FLAG_LAST then Inr (0, l1, s1)
          else vsend_loop mem l1 0 args s1) = Inr (r, l', s')"
      using Cons.prems x by (auto simp: bind_res_Inr_iff)
    note t = send_one_touches [OF o(1)]
    show ?thesis
    proof (cases "w \<le> 0 \<or> has_flag fl KATCP_FLAG_LAST")
      case True
      then show ?thesis using o(2) t by (auto split: if_splits)
    next
      case False
      then have "vsend_loop mem l1 0 args s1 = Inr (r, l', s')" using o(2) by simp
      then have "touches (set_option (l_stage l1)) s1 s'" by (rule Cons.IH)
      then show ?thesis using t by (auto simp: stage_from_def intro: touches_then)
    qed
  qed
qed simp

text \<open>The output grows by exactly the text of one message, on one client.\<close>

definition sends_exactly :: "nat multiset \<Rightarrow> nat \<Rightarrow> string \<Rightarrow> 'u disp \<Rightarrow> 'u disp \<Rightarrow> bool" where
  "sends_exactly F d text st st' \<longleftrightarrow>
     disp_ok F st' \<and> same_server st st' \<and> same_msgs (ds_store st) (ds_store st') F \<and>
     (\<forall>j < n_clients st.
        wire_at j st' = wire_at j st @ (if j = d then text else []) \<and>
        (\<forall>t u. next_view (ds_store st') (line_at j st') t u = next_view (ds_store st) (line_at j st) t u) \<and>
        ready_view (ds_store st') (line_at j st') = ready_view (ds_store st) (line_at j st) \<and>
        (if j = d then stage_at j st' [] [] else \<forall>es ts. stage_at j st es ts \<longrightarrow> stage_at j st' es ts))"

lemma put_line_exact:
  assumes ok: "disp_ok F st" and d: "d < n_clients st"
    and r: "append_result (rest_of F d st) fl (line_at d st) (ds_store st) es ts l s" "has_flag fl KATCP_FLAG_LAST"
    and t: "touches (set_option (l_stage (line_at d st))) (ds_store st) s"
  shows "sends_exactly F d (text_of es ts) st (put_line d l s k st)"
proof -
  let ?st = "put_line d l s k st" and ?ls = "map d_line (ds_all st)"
  have a: "line_ok s l (rest_of F d st)" "out_ok False l s"
    "same_msgs (ds_store st) s (input_refs (line_at d st) + rest_of F d st)"
    "l_next l = l_next (line_at d st)" "l_ready l = l_ready (line_at d st)"
    "line_wire l s = wire_at d st @ text_of es ts" "stage_is s l [] []"
    using r by (auto simp: append_result_def wire_at_def)
  have same: "same_msgs (ds_store st) s (rest_of F d st)" using a(3) by (rule same_msgs_unionD)
  have own: "touches (own_set (line_at d st)) (ds_store st) s" using t by (rule touches_mono) (auto simp: own_set_def)
  have d': "d < length ?ls" using d by (simp add: n_clients_def)
  have at: "?ls ! j = line_at j st" if "j < n_clients st" for j using that by (simp add: line_at_def n_clients_def)
  from lines_step [of "ds_store st" ?ls F d s l] ok d' at [OF d] a(1,2) own same
  have step: "lines_ok s (?ls[d := l]) F" "\<And>j. j < length ?ls \<Longrightarrow> j \<noteq> d \<Longrightarrow> same_line (ds_store st) s (?ls ! j)"
    by (simp_all add: disp_ok_def rest_of_def)
  have "map d_line (ds_all ?st) = ?ls[d := l]" by (simp add: put_line_def put_client_def map_update)
  then have "disp_ok F ?st"
    using ok step(1) same_server_fields [OF put_line_server [OF d, of l s k]] by (simp add: disp_ok_def)
  moreover have "same_msgs (ds_store st) (ds_store ?st) F"
    using same by (simp add: rest_of_def same_msgs_def)
  moreover have "wire_at j ?st = wire_at j st @ (if j = d then text_of es ts else []) \<and>
      (\<forall>t u. next_view (ds_store ?st) (line_at j ?st) t u = next_view (ds_store st) (line_at j st) t u) \<and>
      ready_view (ds_store ?st) (line_at j ?st) = ready_view (ds_store st) (line_at j st) \<and>
      (if j = d then stage_at j ?st [] [] else \<forall>es ts. stage_at j st es ts \<longrightarrow> stage_at j ?st es ts)"
    if j: "j < n_clients st" for j
  proof (cases "j = d")
    case True
    then show ?thesis using a(6,7) input_views [OF a(3-5)] d by (simp add: wire_at_def stage_at_def)
  next
    case False
    have "same_line (ds_store st) s (line_at j st)" using step(2) [of j] False j at by (simp add: n_clients_def)
    moreover have "out_ok False (line_at j st) (ds_store st)" using disp_line [OF ok j] by simp
    ultimately show ?thesis using False d by (simp add: same_line_def wire_at_def stage_at_def)
  qed
  ultimately show ?thesis using put_line_server [OF d] by (simp add: sends_exactly_def)
qed

text \<open>C37. A message sent with \<open>send_katcp\<close> reaches its client and nobody else. For a list of
  values of which the first starts and the last ends a message, on a client with nothing
  staged, when no allocation is refused, the call succeeds; the bytes that the client is owed grow
  by exactly the text of this message, all other clients are owed the bytes they were, with no log
  message and nothing else added, and what every client was reading and building stays as it was.\<close>

theorem send_reaches_its_client:
  assumes "disp_ok F st" "d < n_clients st" "stage_at d st [] []" "env_ok e" "proper_list True args"
    "snd (hd (list_args args)) \<noteq> []"
  shows "\<exists>st'. send_katcp e d args st = Inr (0, st') \<and>
    sends_exactly F d (text_of (map fst (list_args args)) (map snd (list_args args))) st st'"
proof -
  let ?mem = "e_mem e (ds_tick st)" and ?es = "map fst (list_args args)" and ?ts = "map snd (list_args args)"
  have ne: "args \<noteq> []" using assms(5) by (cases args) auto
  then have h: "hd ?ts = snd (hd (list_args args))" by (cases args) (simp_all add: list_args_def)
  have mem: "\<forall>i. ?mem i" using assms(4) by (simp add: env_ok_def)
  obtain l' s' where r: "vsend_loop ?mem (line_at d st) KATCP_FLAG_FIRST args (ds_store st) = Inr (0, l', s')"
      "append_result (rest_of F d st) KATCP_FLAG_LAST (line_at d st) (ds_store st) ([] @ ?es) ([] @ ?ts) l' s'"
    using vsend_loop_ok [OF disp_line [OF assms(1,2)] assms(3) [unfolded stage_at_def] _ mem, of args KATCP_FLAG_FIRST]
      assms(5,6) h by auto
  have "sends_exactly F d (text_of ?es ?ts) st (put_line d l' s' (ds_tick st + 1) st)"
    using put_line_exact [OF assms(1,2) r(2) _ vsend_loop_touches [OF r(1)]] by (simp add: flag_defs)
  moreover have "send_katcp e d args st = Inr (0, put_line d l' s' (ds_tick st + 1) st)"
    unfolding send_katcp_def vsend_katcl_def using on_line_result [OF assms(2)] r(1) by fast
  ultimately show ?thesis by blast
qed

theorem send_reaches_its_client_witness:
  "\<exists>s st'. line_ok s (fresh_line 3 0) {#} \<and>
    send_katcp sample_env 0 sample_list (sample_server s) = Inr (0, st') \<and>
    wire_at 0 st' = ''?set -5 a'' @ [backslash] @ ''_b'' @ [CHR 0x0A]"
proof -
  obtain s where s: "line_ok s (fresh_line 3 0) {#}" "next_view s (fresh_line 3 0) tok_init []"
    using line_with_input by blast
  have ok: "disp_ok {#} (sample_server s)"
    using s(1) fresh_output(1)
    by (simp add: disp_ok_def sample_server_def n_clients_def lines_ok_def line_ok_def rest_refs_def all_refs_def)
  have n: "0 < n_clients (sample_server s)" "stage_at 0 (sample_server s) [] []" "wire_at 0 (sample_server s) = []"
    using fresh_output(2,3) by (simp_all add: sample_server_def n_clients_def stage_at_def stage_is_def line_at_def wire_at_def)
  have t: "text_of (map fst (list_args sample_list)) (map snd (list_args sample_list)) =
      ''?set -5 a'' @ [backslash] @ ''_b'' @ [CHR 0x0A]"
    by (simp add: sample_list_args text_of_def) code_simp
  have "snd (hd (list_args sample_list)) \<noteq> []" by (simp add: sample_list_args)
  from send_reaches_its_client [OF ok n(1,2) sample_env_ok sample_list_proper this]
  obtain st' where "send_katcp sample_env 0 sample_list (sample_server s) = Inr (0, st')"
      "sends_exactly {#} 0 (''?set -5 a'' @ [backslash] @ ''_b'' @ [CHR 0x0A]) (sample_server s) st'"
    unfolding t by blast
  then show ?thesis using s(1) n by (intro exI conjI) (auto simp: sends_exactly_def)
qed

end
