(* ===== verification/Endpoint.thy ===== *)
theory Endpoint
  imports Gen_Queue Dispatch_Args
begin

text \<open>
  Endpoints (\<open>katcp/endpoint.c\<close>): queues through which the parts of a server send messages to
  each other. A message (\<open>struct katcp_message\<close>) holds a reference to its text, to its sender and
  to its destination; one that wants an acknowledgement is turned into a reply and sent back when
  nobody serves it. The main loop hands each message to the wake function of its endpoint, and
  collects an endpoint once it is released and nobody refers to it.

  Endpoints and messages live in two maps from addresses; \<open>s_endpoints\<close> is the linked list of all
  endpoints. A message is freed with the structure it is in, so that a use after that is the fault
  \<open>UseAfterFree\<close>. Wake and release functions are parameters.
\<close>

unbundle bit_operations_syntax

section \<open>State\<close>

definition ENDPOINT_PRECEDENCE_LOW :: nat where "ENDPOINT_PRECEDENCE_LOW = 0"
definition ENDPOINT_PRECEDENCE_HIGH :: nat where "ENDPOINT_PRECEDENCE_HIGH = 0"

definition KATCP_MESSAGE_WACK :: u32 where "KATCP_MESSAGE_WACK = 1"

definition ENDPOINT_STATE_GONE :: u32 where "ENDPOINT_STATE_GONE = 0"
definition ENDPOINT_STATE_UP :: u32 where "ENDPOINT_STATE_UP = 1"
definition ENDPOINT_STATE_RX :: u32 where "ENDPOINT_STATE_RX = 2"
definition ENDPOINT_STATE_TX :: u32 where "ENDPOINT_STATE_TX = 4"

record message =
  m_flags :: u32
  m_parse :: "nat option"
  m_from :: "nat option"
  m_to :: "nat option"

record endpoint =
  e_freeable :: bool
  e_state :: u32
  e_refcount :: nat
  e_queue :: "nat gueue option"
  e_precedence :: nat
  e_wake :: "nat option"
  e_release :: "nat option"
  e_data :: "nat option"
  e_fast_flush :: bool
  e_flush_runs :: u64
  e_flush_messages :: u64

record 'u ends =
  s_endpoints :: "nat list"
  s_epcount :: int
  s_wanted :: nat
  n_ends :: "nat \<rightharpoonup> endpoint"
  n_msgs :: "nat \<rightharpoonup> message"
  n_fresh :: nat
  n_user :: 'u

type_synonym 'u net = "'u ends disp"

text \<open>The functions that an endpoint is given: \<open>w_wake f d ep msg data\<close> and
  \<open>w_release f d data\<close>; \<open>w_pointer\<close> is what the format \<open>%p\<close> prints for an endpoint.\<close>

record 'u waking =
  w_env :: "'u ends env"
  w_wake :: "nat \<Rightarrow> nat \<Rightarrow> nat \<Rightarrow> nat \<Rightarrow> nat option \<Rightarrow> 'u net \<Rightarrow> (int \<times> 'u net) res"
  w_release :: "nat \<Rightarrow> nat \<Rightarrow> nat option \<Rightarrow> 'u net \<Rightarrow> 'u net res"
  w_pointer :: "nat \<Rightarrow> string"

definition endpoint_at :: "nat \<Rightarrow> 'u net \<Rightarrow> endpoint res" where
  "endpoint_at ep st = (case n_ends (ds_user st) ep of None \<Rightarrow> Inl UseAfterFree | Some x \<Rightarrow> Inr x)"

definition message_at :: "nat \<Rightarrow> 'u net \<Rightarrow> message res" where
  "message_at m st = (case n_msgs (ds_user st) m of None \<Rightarrow> Inl UseAfterFree | Some x \<Rightarrow> Inr x)"

definition set_endpoint :: "nat \<Rightarrow> endpoint option \<Rightarrow> 'u net \<Rightarrow> 'u net" where
  "set_endpoint ep x st = st\<lparr>ds_user := (ds_user st)\<lparr>n_ends := (n_ends (ds_user st))(ep := x)\<rparr>\<rparr>"

definition set_message :: "nat \<Rightarrow> message option \<Rightarrow> 'u net \<Rightarrow> 'u net" where
  "set_message m x st = st\<lparr>ds_user := (ds_user st)\<lparr>n_msgs := (n_msgs (ds_user st))(m := x)\<rparr>\<rparr>"

definition set_list :: "nat list \<Rightarrow> 'u net \<Rightarrow> 'u net" where
  "set_list xs st = st\<lparr>ds_user := (ds_user st)\<lparr>s_endpoints := xs\<rparr>\<rparr>"

definition on_endpoint :: "nat \<Rightarrow> (endpoint \<Rightarrow> endpoint) \<Rightarrow> 'u net \<Rightarrow> 'u net res" where
  "on_endpoint ep f st = bind_res (endpoint_at ep st) (\<lambda>x. Inr (set_endpoint ep (Some (f x)) st))"

definition tick :: "'u disp \<Rightarrow> 'u disp" where
  "tick st = st\<lparr>ds_tick := ds_tick st + 1\<rparr>"

definition mark_busy_katcp :: "'u net \<Rightarrow> 'u net" where
  "mark_busy_katcp st = st\<lparr>ds_user := (ds_user st)\<lparr>s_wanted := s_wanted (ds_user st) + 1\<rparr>\<rparr>"

section \<open>References to endpoints\<close>

definition reference_endpoint_katcp :: "nat \<Rightarrow> 'u net \<Rightarrow> 'u net res" where
  "reference_endpoint_katcp ep st = on_endpoint ep (\<lambda>x. x\<lparr>e_refcount := e_refcount x + 1\<rparr>) st"

definition forget_endpoint_katcp :: "nat \<Rightarrow> 'u net \<Rightarrow> 'u net res" where
  "forget_endpoint_katcp ep st =
     bind_res (endpoint_at ep st) (\<lambda>x.
     if e_refcount x > 0 then Inr (set_endpoint ep (Some (x\<lparr>e_refcount := e_refcount x - 1\<rparr>)) st)
     else Inl Abort)"

definition forget_if :: "nat option \<Rightarrow> 'u net \<Rightarrow> 'u net res" where
  "forget_if ep st = (case ep of None \<Rightarrow> Inr st | Some x \<Rightarrow> forget_endpoint_katcp x st)"

definition reference_if :: "nat option \<Rightarrow> 'u net \<Rightarrow> 'u net res" where
  "reference_if ep st = (case ep of None \<Rightarrow> Inr st | Some x \<Rightarrow> reference_endpoint_katcp x st)"

section \<open>Messages\<close>

definition destroy_message_katcp :: "nat \<Rightarrow> 'u net \<Rightarrow> 'u net res" where
  "destroy_message_katcp m st =
     bind_res (message_at m st) (\<lambda>x.
     bind_res (case m_parse x of
                 None \<Rightarrow> Inr st
               | Some p \<Rightarrow> bind_res (destroy_parse_katcl (Some p) (ds_store st)) (\<lambda>s. Inr (st\<lparr>ds_store := s\<rparr>)))
       (\<lambda>st1.
     bind_res (forget_if (m_from x) st1) (\<lambda>st2.
     bind_res (forget_if (m_to x) st2) (\<lambda>st3.
     Inr (set_message m None st3)))))"

definition create_message_katcp ::
  "'u waking \<Rightarrow> nat option \<Rightarrow> nat \<Rightarrow> nat option \<Rightarrow> bool \<Rightarrow> 'u net \<Rightarrow> (nat option \<times> 'u net) res" where
  "create_message_katcp w src dst px acknowledged st =
     (if \<not> e_mem (w_env w) (ds_tick st) 30 then Inr (None, tick st)
      else if acknowledged \<and> src = None then Inl Abort
      else
        let m = n_fresh (ds_user st);
            x = \<lparr>m_flags = (if acknowledged then KATCP_MESSAGE_WACK else 0), m_parse = None,
                 m_from = src, m_to = Some dst\<rparr>;
            st0 = tick st\<lparr>ds_user := (ds_user st)\<lparr>n_fresh := m + 1\<rparr>\<rparr> in
        bind_res (reference_if src st0) (\<lambda>st1.
        bind_res (reference_endpoint_katcp dst st1) (\<lambda>st2.
        bind_res (copy_parse_katcl px (ds_store st2)) (\<lambda>(r, s).
        let st3 = set_message m (Some (x\<lparr>m_parse := r\<rparr>)) (st2\<lparr>ds_store := s\<rparr>) in
        case r of
          None \<Rightarrow> bind_res (destroy_message_katcp m st3) (\<lambda>st4. Inr (None, st4))
        | Some _ \<Rightarrow> Inr (Some m, st3)))))"

definition queue_of :: "endpoint \<Rightarrow> nat gueue res" where
  "queue_of x = (case e_queue x of None \<Rightarrow> Inl NullDeref | Some g \<Rightarrow> Inr g)"

definition queue_message_katcp :: "'u waking \<Rightarrow> nat \<Rightarrow> nat \<Rightarrow> 'u net \<Rightarrow> (int \<times> 'u net) res" where
  "queue_message_katcp w d m st =
     bind_res (message_at m st) (\<lambda>mx.
     case m_to mx of
       None \<Rightarrow> Inl Abort
     | Some ep \<Rightarrow>
       bind_res (endpoint_at ep st) (\<lambda>x.
       if e_state x AND ENDPOINT_STATE_RX = 0 then
         log_only (w_env w) d 0 (''unable to send to endpoint '' @ w_pointer w ep @ '' in state 0x'' @
           hex_of_nat (unat (e_state x)) @ '' as it is not receiving'') (-1) st
       else
         bind_res (queue_of x) (\<lambda>g.
         bind_res (add_tail_gueue_katcl (e_mem (w_env w) (ds_tick st) 31) g (Some m)) (\<lambda>(r, g').
         let st1 = tick (set_endpoint ep (Some (x\<lparr>e_queue := Some g'\<rparr>)) st) in
         if r \<noteq> 0 then log_only (w_env w) d 4 ''unable to queue message'' (-1) st1
         else Inr (0, st1)))))"

definition is_request_message :: "nat option \<Rightarrow> 'u disp \<Rightarrow> bool res" where
  "is_request_message px st =
     bind_res (sane_parse_katcl px (ds_store st)) (\<lambda>(_, p). is_request_parse_katcl p)"

definition precedence_endpoint_katcp :: "nat option \<Rightarrow> nat \<Rightarrow> 'u net \<Rightarrow> 'u net res" where
  "precedence_endpoint_katcp ep precedence st =
     (case ep of
        None \<Rightarrow> Inl NullDeref
      | Some x \<Rightarrow> on_endpoint x (\<lambda>y. y\<lparr>e_precedence := precedence\<rparr>) st)"

definition send_message_endpoint_katcp ::
  "'u waking \<Rightarrow> nat \<Rightarrow> nat option \<Rightarrow> nat option \<Rightarrow> nat option \<Rightarrow> bool \<Rightarrow> 'u net \<Rightarrow> (int \<times> 'u net) res" where
  "send_message_endpoint_katcp w d src dst px acknowledged st =
     (case dst of
        None \<Rightarrow> Inl Abort
      | Some to \<Rightarrow>
        if src = Some to then Inl Abort
        else
          bind_res (case src of
                      None \<Rightarrow> Inr ()
                    | Some f \<Rightarrow> bind_res (endpoint_at f st) (\<lambda>x.
                        if e_state x AND ENDPOINT_STATE_TX = 0 then Inl Abort else Inr ())) (\<lambda>_.
          bind_res (create_message_katcp w src to px acknowledged st) (\<lambda>(msg, st1).
          case msg of
            None \<Rightarrow> Inr (-1, st1)
          | Some m \<Rightarrow>
            bind_res (queue_message_katcp w d m st1) (\<lambda>(r, st2).
            if r < 0 then bind_res (destroy_message_katcp m st2) (\<lambda>st3. Inr (-1, st3))
            else
              let st3 = mark_busy_katcp st2 in
              bind_res (sane_parse_katcl px (ds_store st3)) (\<lambda>(_, p).
              bind_res (is_reply_parse_katcl p) (\<lambda>reply.
              if reply
              then bind_res (precedence_endpoint_katcp src ENDPOINT_PRECEDENCE_LOW st3) (\<lambda>st4. Inr (0, st4))
              else Inr (0, st3)))))))"

definition parse_of_endpoint_katcp :: "nat option \<Rightarrow> 'u net \<Rightarrow> nat option res" where
  "parse_of_endpoint_katcp msg st =
     (case msg of None \<Rightarrow> Inl Abort | Some m \<Rightarrow> bind_res (message_at m st) (\<lambda>x. Inr (m_parse x)))"

definition source_endpoint_katcp :: "nat option \<Rightarrow> 'u net \<Rightarrow> nat option res" where
  "source_endpoint_katcp msg st =
     (case msg of None \<Rightarrow> Inr None | Some m \<Rightarrow> bind_res (message_at m st) (\<lambda>x. Inr (m_from x)))"

section \<open>Life of an endpoint\<close>

definition compute_precedence_endpoint :: "nat \<Rightarrow> 'u net \<Rightarrow> nat res" where
  "compute_precedence_endpoint m st =
     bind_res (message_at m st) (\<lambda>x.
     if m_parse x = None then Inr ENDPOINT_PRECEDENCE_HIGH
     else bind_res (is_request_message (m_parse x) st) (\<lambda>request.
          Inr (if request then ENDPOINT_PRECEDENCE_LOW else ENDPOINT_PRECEDENCE_HIGH)))"

text \<open>The next message to serve. The queue calls the metric on the messages from the head up to
  the first that is good enough; a message on which the metric faults ends the scan with that
  fault.\<close>

definition next_message :: "endpoint \<Rightarrow> 'u net \<Rightarrow> nat option res" where
  "next_message x st =
     bind_res (queue_of x) (\<lambda>g.
     bind_res (get_precedence_head_gueue_katcl
         (g\<lparr>g_precedence := Some (\<lambda>m. case compute_precedence_endpoint m st of
              Inl _ \<Rightarrow> e_precedence x | Inr v \<Rightarrow> v)\<rparr>) (e_precedence x)) (\<lambda>msg.
     case msg of
       None \<Rightarrow> Inr None
     | Some m \<Rightarrow> bind_res (compute_precedence_endpoint m st) (\<lambda>_. Inr (Some m))))"

text \<open>The metric of the queue reads messages, so it is put in place at each scan (above).
  The fields are set one by one: after a refused queue the later ones still hold \<open>raw\<close>, what
  was in the memory.\<close>

definition init_endpoint_katcp ::
  "'u waking \<Rightarrow> nat \<Rightarrow> nat \<Rightarrow> endpoint \<Rightarrow> nat option \<Rightarrow> nat option \<Rightarrow> nat option \<Rightarrow> bool \<Rightarrow> 'u net \<Rightarrow>
    (int \<times> 'u net) res" where
  "init_endpoint_katcp w d ep raw wake release data fast st =
     (let q = create_precedence_gueue_katcl (e_mem (w_env w) (ds_tick st) 32) False (Some (\<lambda>_. 0));
          x = raw\<lparr>e_freeable := False, e_state := ENDPOINT_STATE_GONE, e_refcount := 0, e_queue := q,
                e_precedence := ENDPOINT_PRECEDENCE_LOW\<rparr> in
      if q = None then
        log_only (w_env w) d 4 ''unable to initialise endpoint'' (-1) (tick (set_endpoint ep (Some x) st))
      else
        let y = x\<lparr>e_wake := wake, e_release := release, e_data := data, e_fast_flush := fast,
                e_flush_runs := 0, e_flush_messages := 0,
                e_state := ENDPOINT_STATE_UP OR (ENDPOINT_STATE_TX OR
                  (if wake = None then 0 else ENDPOINT_STATE_RX))\<rparr>;
            st1 = tick (set_endpoint ep (Some y) st) in
        Inr (0, set_list (ep # s_endpoints (ds_user st1)) st1))"

definition clear_endpoint_katcp :: "'u waking \<Rightarrow> nat \<Rightarrow> nat \<Rightarrow> 'u net \<Rightarrow> 'u net res" where
  "clear_endpoint_katcp w d ep st =
     bind_res (endpoint_at ep st) (\<lambda>x.
     if e_refcount x > 0 then Inl Abort
     else if size_gueue_katcl (e_queue x) > 0 then Inl Abort
     else
       let st1 = set_endpoint ep (Some (x\<lparr>e_queue := None, e_wake := None\<rparr>)) st in
       bind_res (case e_release x of
                   None \<Rightarrow> Inr st1
                 | Some f \<Rightarrow> bind_res (w_release w f d (e_data x) st1)
                     (\<lambda>st2. on_endpoint ep (\<lambda>y. y\<lparr>e_release := None\<rparr>) st2)) (\<lambda>st2.
       on_endpoint ep (\<lambda>y. y\<lparr>e_data := None\<rparr>) st2))"

definition free_endpoint_katcp :: "'u waking \<Rightarrow> nat \<Rightarrow> nat \<Rightarrow> 'u net \<Rightarrow> 'u net res" where
  "free_endpoint_katcp w d ep st =
     bind_res (clear_endpoint_katcp w d ep st) (\<lambda>st1.
     bind_res (endpoint_at ep st1) (\<lambda>x.
     if e_freeable x then Inr (set_endpoint ep None st1) else Inl Abort))"

definition create_endpoint_katcp ::
  "'u waking \<Rightarrow> nat \<Rightarrow> endpoint \<Rightarrow> nat option \<Rightarrow> nat option \<Rightarrow> nat option \<Rightarrow> bool \<Rightarrow> 'u net \<Rightarrow>
    (nat option \<times> 'u net) res" where
  "create_endpoint_katcp w d raw wake release data fast st =
     (if \<not> e_mem (w_env w) (ds_tick st) 33 then Inr (None, tick st)
      else
        let ep = n_fresh (ds_user st);
            st0 = st\<lparr>ds_user := (ds_user st)\<lparr>n_fresh := ep + 1\<rparr>\<rparr> in
        bind_res (init_endpoint_katcp w d ep raw wake release data fast st0) (\<lambda>(r, st1).
        if r < 0 then bind_res (free_endpoint_katcp w d ep st1) (\<lambda>st2. Inr (None, st2))
        else
          bind_res (on_endpoint ep (\<lambda>x. x\<lparr>e_freeable := True\<rparr>) st1) (\<lambda>st2.
          Inr (Some ep, st2\<lparr>ds_user := (ds_user st2)\<lparr>s_epcount := s_epcount (ds_user st2) + 1\<rparr>\<rparr>))))"

definition pending_endpoint_katcp :: "nat \<Rightarrow> 'u net \<Rightarrow> nat res" where
  "pending_endpoint_katcp ep st =
     bind_res (endpoint_at ep st) (\<lambda>x. if e_queue x = None then Inl Abort else Inr (size_gueue_katcl (e_queue x)))"

definition close_receiving_endpoint_katcp :: "nat \<Rightarrow> 'u net \<Rightarrow> 'u net res" where
  "close_receiving_endpoint_katcp ep st =
     bind_res (endpoint_at ep st) (\<lambda>x.
     if e_state x AND ENDPOINT_STATE_UP \<noteq> 0
     then Inr (set_endpoint ep (Some (x\<lparr>e_state := e_state x AND NOT ENDPOINT_STATE_RX\<rparr>)) st)
     else Inl Abort)"

definition close_sending_endpoint_katcp :: "nat \<Rightarrow> 'u net \<Rightarrow> 'u net res" where
  "close_sending_endpoint_katcp ep st =
     bind_res (endpoint_at ep st) (\<lambda>x.
     if e_state x AND ENDPOINT_STATE_UP \<noteq> 0
     then Inr (set_endpoint ep (Some (x\<lparr>e_state := e_state x AND NOT ENDPOINT_STATE_TX\<rparr>)) st)
     else Inl Abort)"

section \<open>Answering on behalf of a handler\<close>

text \<open>A message that wants an acknowledgement becomes its own reply and goes back to its sender.
  A reply for which there was no memory is sent as a message without text.\<close>

definition vturnaround_endpoint_katcp ::
  "'u waking \<Rightarrow> nat \<Rightarrow> nat \<Rightarrow> nat \<Rightarrow> int \<Rightarrow> string option \<Rightarrow> 'u net \<Rightarrow> (int \<times> 'u net) res" where
  "vturnaround_endpoint_katcp w d ep m code extra st =
     bind_res (message_at m st) (\<lambda>x.
     if m_to x \<noteq> Some ep then Inl Abort
     else if m_flags x AND KATCP_MESSAGE_WACK \<noteq> 0 then
       (case m_parse x of
          None \<Rightarrow> Inl Abort
        | Some p \<Rightarrow>
          if m_from x = None then Inl Abort
          else
            bind_res (turnaround_extra_parse_katcl (\<lambda>i. e_mem (w_env w) (ds_tick st) (i + 40)) p code extra (ds_store st))
              (\<lambda>(px, s).
            let st1 = set_message m (Some (x\<lparr>m_parse := px, m_to := m_from x, m_from := m_to x,
                        m_flags := m_flags x AND NOT KATCP_MESSAGE_WACK\<rparr>)) (tick st\<lparr>ds_store := s\<rparr>);
                result = (if px = None then -1 else 0) in
            bind_res (queue_message_katcp w d m st1) (\<lambda>(r, st2).
            if r < 0 then bind_res (destroy_message_katcp m st2) (\<lambda>st3. Inr (-1, st3))
            else Inr (result, st2))))
     else bind_res (destroy_message_katcp m st) (\<lambda>st1. Inr (0, st1)))"

definition turnaround_endpoint_katcp ::
  "'u waking \<Rightarrow> nat \<Rightarrow> nat \<Rightarrow> nat \<Rightarrow> int \<Rightarrow> string option \<Rightarrow> 'u net \<Rightarrow> (int \<times> 'u net) res" where
  "turnaround_endpoint_katcp w d ep m code extra st = vturnaround_endpoint_katcp w d ep m code extra st"

text \<open>Emptying the queue of an endpoint, with a bound on the rounds (\<open>None\<close> when it is used up).\<close>

fun flush_loop :: "nat \<Rightarrow> 'u waking \<Rightarrow> nat \<Rightarrow> nat \<Rightarrow> nat \<Rightarrow> 'u net \<Rightarrow> (nat \<times> 'u net) res option" where
  "flush_loop 0 w d ep num st = None"
| "flush_loop (Suc n) w d ep num st =
     (case bind_res (endpoint_at ep st) (\<lambda>x.
           bind_res (queue_of x) (\<lambda>g.
           bind_res (remove_head_gueue_katcl g) (\<lambda>(msg, g').
           let st1 = set_endpoint ep (Some (x\<lparr>e_queue := Some g'\<rparr>)) st in
           case msg of
             None \<Rightarrow> Inr (False, st1)
           | Some m \<Rightarrow>
             bind_res (message_at m st1) (\<lambda>mx.
             bind_res (is_request_message (m_parse mx) st1) (\<lambda>request.
             if request
             then bind_res (turnaround_endpoint_katcp w d ep m KATCP_RESULT_FAIL (Some ''handler detached'') st1)
                    (\<lambda>(_, st2). Inr (True, st2))
             else bind_res (destroy_message_katcp m st1) (\<lambda>st2. Inr (True, st2))))))) of
        Inl f \<Rightarrow> Some (Inl f)
      | Inr (True, st1) \<Rightarrow> flush_loop n w d ep (num + 1) st1
      | Inr (False, st1) \<Rightarrow> Some (Inr (num, st1)))"

definition flush_endpoint_katcp ::
  "nat \<Rightarrow> 'u waking \<Rightarrow> nat \<Rightarrow> nat \<Rightarrow> 'u net \<Rightarrow> (nat \<times> 'u net) res option" where
  "flush_endpoint_katcp n w d ep st = flush_loop n w d ep 0 st"

definition release_endpoint_katcp ::
  "nat \<Rightarrow> 'u waking \<Rightarrow> nat \<Rightarrow> nat \<Rightarrow> 'u net \<Rightarrow> (nat \<times> 'u net) res option" where
  "release_endpoint_katcp n w d ep st =
     (case bind_res (endpoint_at ep st) (\<lambda>x.
             if e_state x AND ENDPOINT_STATE_UP = 0 then Inl Abort
             else Inr (set_endpoint ep (Some (x\<lparr>e_wake := None, e_release := None, e_data := None\<rparr>)) st)) of
        Inl f \<Rightarrow> Some (Inl f)
      | Inr st1 \<Rightarrow>
        (case flush_endpoint_katcp n w d ep st1 of
           None \<Rightarrow> None
         | Some r \<Rightarrow> Some (bind_res r (\<lambda>(num, st2).
             bind_res (on_endpoint ep (\<lambda>x. x\<lparr>e_state := ENDPOINT_STATE_GONE\<rparr>) st2) (\<lambda>st3.
             Inr (num, st3\<lparr>ds_user := (ds_user st3)\<lparr>s_epcount := s_epcount (ds_user st3) - 1\<rparr>\<rparr>))))))"

section \<open>The main loop\<close>

fun load_loop_endpoints :: "nat list \<Rightarrow> 'u net \<Rightarrow> 'u net res" where
  "load_loop_endpoints [] st = Inr st"
| "load_loop_endpoints (ep # eps) st =
     bind_res (endpoint_at ep st) (\<lambda>x.
     bind_res (next_message x st) (\<lambda>msg.
     if msg \<noteq> None then Inr (mark_busy_katcp st) else load_loop_endpoints eps st))"

definition load_endpoints_katcp :: "'u net \<Rightarrow> 'u net res" where
  "load_endpoints_katcp st = load_loop_endpoints (s_endpoints (ds_user st)) st"

text \<open>Taking the message that has been served out of the queue: it must still be there.\<close>

definition take_message :: "nat \<Rightarrow> nat \<Rightarrow> 'u net \<Rightarrow> 'u net res" where
  "take_message ep m st =
     bind_res (endpoint_at ep st) (\<lambda>x.
     bind_res (queue_of x) (\<lambda>g.
     bind_res (remove_datum_gueue_katcl g m) (\<lambda>(r, g').
     if r = None then Inl Abort else Inr (set_endpoint ep (Some (x\<lparr>e_queue := Some g'\<rparr>)) st))))"

text \<open>One round of the inner loop: the flag says whether \<open>msg\<close> is still set at its end, the
  number counts the calls of the wake function.\<close>

definition serve_result :: "'u waking \<Rightarrow> nat \<Rightarrow> nat \<Rightarrow> nat \<Rightarrow> int \<Rightarrow> 'u net \<Rightarrow> (bool \<times> 'u net) res" where
  "serve_result w d ep m result st =
     (if result = KATCP_RESULT_OWN then
        bind_res (take_message ep m st) (\<lambda>st1.
        bind_res (destroy_message_katcp m st1) (\<lambda>st2.
        bind_res (precedence_endpoint_katcp (Some ep) ENDPOINT_PRECEDENCE_HIGH st2) (\<lambda>st3. Inr (True, st3))))
      else if result = KATCP_RESULT_PAUSE then
        bind_res (precedence_endpoint_katcp (Some ep) ENDPOINT_PRECEDENCE_HIGH st) (\<lambda>st1. Inr (False, st1))
      else if result = KATCP_RESULT_OK \<or> result = KATCP_RESULT_FAIL \<or> result = KATCP_RESULT_INVALID then
        bind_res (take_message ep m st) (\<lambda>st1.
        bind_res (message_at m st1) (\<lambda>mx.
        bind_res (is_request_message (m_parse mx) st1) (\<lambda>request.
        if request
        then bind_res (turnaround_endpoint_katcp w d ep m result None st1) (\<lambda>(_, st2). Inr (True, st2))
        else bind_res (destroy_message_katcp m st1) (\<lambda>st2. Inr (True, st2)))))
      else if result = KATCP_RESULT_YIELD then Inr (False, st)
      else Inl Abort)"

definition serve_round :: "'u waking \<Rightarrow> nat \<Rightarrow> nat \<Rightarrow> nat \<Rightarrow> 'u net \<Rightarrow> (bool \<times> nat \<times> 'u net) res" where
  "serve_round w d ep num st =
     bind_res (endpoint_at ep st) (\<lambda>x.
     bind_res (next_message x st) (\<lambda>msg.
     case msg of
       None \<Rightarrow> Inr (False, num, st)
     | Some m \<Rightarrow>
       bind_res (message_at m st) (\<lambda>mx.
       if m_to mx \<noteq> Some ep then Inl Abort
       else
         bind_res (case e_wake x of
                     None \<Rightarrow> Inr (KATCP_RESULT_FAIL, num, st)
                   | Some f \<Rightarrow> bind_res (w_wake w f d ep m (e_data x) st) (\<lambda>(r, st1). Inr (r, num + 1, st1)))
           (\<lambda>(result, c, st1).
         bind_res (serve_result w d ep m result st1) (\<lambda>(again, st2). Inr (again, c, st2))))))"

fun serve_loop :: "nat \<Rightarrow> 'u waking \<Rightarrow> nat \<Rightarrow> nat \<Rightarrow> nat \<Rightarrow> 'u net \<Rightarrow> (nat \<times> 'u net) res option" where
  "serve_loop 0 w d ep num st = None"
| "serve_loop (Suc n) w d ep num st =
     (case bind_res (serve_round w d ep num st) (\<lambda>(again, c, st1).
           bind_res (endpoint_at ep st1) (\<lambda>x. Inr (e_fast_flush x \<and> again, c, st1))) of
        Inl f \<Rightarrow> Some (Inl f)
      | Inr (True, c, st1) \<Rightarrow> serve_loop n w d ep c st1
      | Inr (False, c, st1) \<Rightarrow> Some (Inr (c, st1)))"

text \<open>After the inner loop: the statistics, and a mark when there is more to do.\<close>

definition after_serve :: "nat \<Rightarrow> nat \<Rightarrow> 'u net \<Rightarrow> 'u net res" where
  "after_serve ep num st =
     bind_res (if num = 0 then Inr st
               else on_endpoint ep (\<lambda>x. x\<lparr>e_flush_runs := e_flush_runs x + 1,
                      e_flush_messages := e_flush_messages x + of_nat num\<rparr>) st) (\<lambda>st1.
     bind_res (endpoint_at ep st1) (\<lambda>x.
     bind_res (next_message x st1) (\<lambda>msg.
     Inr (if msg \<noteq> None then mark_busy_katcp st1 else st1))))"

definition from_here :: "nat \<Rightarrow> nat list \<Rightarrow> nat list" where
  \<comment> \<open>the list from an element on\<close>
  "from_here ep xs = dropWhile (\<lambda>y. y \<noteq> ep) xs"

definition next_endpoint :: "nat \<Rightarrow> 'u net \<Rightarrow> nat option" where
  "next_endpoint ep st =
     (case tl (from_here ep (s_endpoints (ds_user st))) of [] \<Rightarrow> None | y # _ \<Rightarrow> Some y)"

text \<open>Taking \<open>ep\<close> out of the list: \<open>ex\<close> is the element that the loop visited before it, or null
  at the start of the list.\<close>

definition unlink_endpoint :: "nat option \<Rightarrow> nat \<Rightarrow> 'u net \<Rightarrow> 'u net" where
  "unlink_endpoint ex ep st =
     (let xs = s_endpoints (ds_user st); rest = tl (from_here ep xs) in
      set_list (case ex of None \<Rightarrow> rest | Some x \<Rightarrow> takeWhile (\<lambda>y. y \<noteq> x) xs @ x # rest) st)"

definition collect_endpoint :: "'u waking \<Rightarrow> nat \<Rightarrow> nat option \<Rightarrow> nat \<Rightarrow> 'u net \<Rightarrow> 'u net res" where
  "collect_endpoint w d ex ep st =
     (let st1 = unlink_endpoint ex ep st in
      bind_res (endpoint_at ep st1) (\<lambda>x.
      if e_freeable x then free_endpoint_katcp w d ep st1 else clear_endpoint_katcp w d ep st1))"

fun run_loop_endpoints ::
  "nat \<Rightarrow> 'u waking \<Rightarrow> nat \<Rightarrow> nat option \<Rightarrow> nat option \<Rightarrow> 'u net \<Rightarrow> 'u net res option" where
  "run_loop_endpoints 0 w d ex ep st = None"
| "run_loop_endpoints (Suc n) w d ex None st = Some (Inr st)"
| "run_loop_endpoints (Suc n) w d ex (Some ep) st =
     (case endpoint_at ep st of
        Inl f \<Rightarrow> Some (Inl f)
      | Inr x \<Rightarrow>
        (case (if e_state x AND ENDPOINT_STATE_UP \<noteq> 0
               then map_option (\<lambda>r. bind_res r (\<lambda>(c, st1). after_serve ep c st1)) (serve_loop n w d ep 0 st)
               else Some (Inr st)) of
           None \<Rightarrow> None
         | Some (Inl f) \<Rightarrow> Some (Inl f)
         | Some (Inr st1) \<Rightarrow>
           (case endpoint_at ep st1 of
              Inl f \<Rightarrow> Some (Inl f)
            | Inr y \<Rightarrow>
              if e_state y = ENDPOINT_STATE_GONE \<and> e_refcount y \<le> 0
              then (case collect_endpoint w d ex ep st1 of
                      Inl f \<Rightarrow> Some (Inl f)
                    | Inr st2 \<Rightarrow> run_loop_endpoints n w d ex (next_endpoint ep st1) st2)
              else run_loop_endpoints n w d (Some ep) (next_endpoint ep st1) st1)))"

definition run_endpoints_katcp :: "nat \<Rightarrow> 'u waking \<Rightarrow> nat \<Rightarrow> 'u net \<Rightarrow> 'u net res option" where
  "run_endpoints_katcp n w d st =
     run_loop_endpoints n w d None
       (case s_endpoints (ds_user st) of [] \<Rightarrow> None | ep # _ \<Rightarrow> Some ep) st"

definition release_endpoints_katcp :: "nat \<Rightarrow> 'u waking \<Rightarrow> nat \<Rightarrow> 'u net \<Rightarrow> 'u net res option" where
  "release_endpoints_katcp n w d st = run_endpoints_katcp n w d st"

fun log_all :: "'u env \<Rightarrow> nat \<Rightarrow> int \<Rightarrow> string list \<Rightarrow> 'u disp \<Rightarrow> 'u disp res" where
  "log_all e d level [] st = Inr st"
| "log_all e d level (t # ts) st =
     bind_res (log_message_katcp e d (of_int level) None (Some t) st) (\<lambda>(_, st1). log_all e d level ts st1)"

definition show_endpoint_katcp :: "'u waking \<Rightarrow> nat \<Rightarrow> string \<Rightarrow> int \<Rightarrow> nat \<Rightarrow> 'u net \<Rightarrow> 'u net res" where
  "show_endpoint_katcp w d prefix level ep st =
     bind_res (endpoint_at ep st) (\<lambda>x.
     let who = prefix @ '' endpoint '' @ w_pointer w ep in
     log_all (w_env w) d level
       [who @ '' current precedence '' @ dec_of_nat (e_precedence x),
        who @ '' size '' @ dec_of_nat (size_gueue_katcl (e_queue x)),
        who @ '' references '' @ dec_of_nat (e_refcount x),
        who @ '' state 0x'' @ hex_of_nat (unat (e_state x)),
        who @ '' flushes '' @ (if e_fast_flush x then ''quickly'' else ''slowly''),
        who @ '' ran '' @ dec_of_nat (unat (ucast (e_flush_runs x) :: u32)) @ '' times'',
        who @ '' drained '' @ dec_of_nat (unat (ucast (e_flush_messages x) :: u32)) @ '' messages''] st)"

end
