(* ===== verification/Endpoint_Life.thy ===== *)
theory Endpoint_Life
  imports Endpoint
begin

text \<open>
  What endpoints promise (\<open>katcp/endpoint.c\<close>): every message is in the queue of its destination
  or in the hands of the function that works on it, the reference counts of endpoints and texts are
  exact, a message that is sent arrives once and in order, and when an endpoint goes away the
  requests that wait in it are answered. The invariant is \<open>net_ok\<close>; each operation is shown to
  keep it and what it does to the inboxes.
\<close>

unbundle bit_operations_syntax

section \<open>References collected from a table\<close>

definition gather :: "('b \<Rightarrow> 'a multiset) \<Rightarrow> (nat \<rightharpoonup> 'b) \<Rightarrow> 'a multiset" where
  "gather f h = (\<Sum>m \<in> dom h. f (the (h m)))"

lemma gather_drop:
  assumes "finite (dom h)" "h m = Some x"
  shows "gather f h = f x + gather f (h(m := None))"
proof -
  have "gather f h = f (the (h m)) + (\<Sum>i \<in> dom h - {m}. f (the (h i)))"
    unfolding gather_def using assms by (intro sum.remove) auto
  moreover have "(\<Sum>i \<in> dom h - {m}. f (the (h i))) = gather f (h(m := None))"
    unfolding gather_def by (intro sum.cong) auto
  ultimately show ?thesis using assms by simp
qed

lemma gather_put:
  assumes "finite (dom h)"
  shows "gather f (h(m \<mapsto> x)) = f x + gather f (h(m := None))"
  using gather_drop [of "h(m \<mapsto> x)" m x f] assms by simp

lemma gather_new: "finite (dom h) \<Longrightarrow> h m = None \<Longrightarrow> gather f (h(m \<mapsto> x)) = f x + gather f h"
  by (simp add: gather_put fun_upd_idem)

lemma gather_same:
  assumes "finite (dom h)" "h m = Some x" "f y = f x"
  shows "gather f (h(m \<mapsto> y)) = gather f h"
  using assms by (simp add: gather_put gather_drop [OF assms(1,2)])

lemma gather_member: "finite (dom h) \<Longrightarrow> h m = Some x \<Longrightarrow> a \<in># f x \<Longrightarrow> a \<in># gather f h"
  by (simp add: gather_drop)

section \<open>A store that changes outside the lines\<close>

definition held_lines :: "'u disp \<Rightarrow> nat multiset" where
  "held_lines st = all_refs (map d_line (ds_all st))"

lemma disp_all_refs:
  assumes "disp_ok F st" "0 < n_clients st"
  shows "refs_ok (ds_store st) (held_lines st + F)"
proof -
  let ?ls = "map d_line (ds_all st)"
  have 0: "0 < length ?ls" using assms(2) by (simp add: n_clients_def)
  then have "line_ok (ds_store st) (?ls ! 0) (rest_refs 0 ?ls + F)" using assms(1) by (simp add: disp_ok_def lines_ok_def)
  then show ?thesis using all_refs_split [OF 0] by (simp add: line_ok_def held_lines_def add.assoc)
qed

lemma disp_change:
  assumes ok: "disp_ok F st" and n: "0 < n_clients st" and refs: "refs_ok s (held_lines st + F')"
    and same: "same_msgs (ds_store st) s (held_lines st)"
    and new: "\<And>a. a \<in># F' \<Longrightarrow> a \<in># F \<or> a \<notin># held_lines st"
  shows "disp_ok F' (st\<lparr>ds_store := s\<rparr>)"
proof -
  let ?ls = "map d_line (ds_all st)"
  have "line_ok s (?ls ! i) (rest_refs i ?ls + F') \<and> out_ok False (?ls ! i) s" if i: "i < length ?ls" for i
  proof -
    let ?l = "?ls ! i"
    have l: "line_ok (ds_store st) ?l (rest_refs i ?ls + F)" "out_ok False ?l (ds_store st)"
      using ok i by (simp_all add: disp_ok_def lines_ok_def)
    have split: "held_lines st = line_refs ?l + rest_refs i ?ls" unfolding held_lines_def by (rule all_refs_split [OF i])
    have refs': "refs_ok s (line_refs ?l + (rest_refs i ?ls + F'))" using refs split by (simp add: add.assoc)
    obtain b p where b: "l_next ?l = Some b" "st_heap (ds_store st) b = Some p" "p_refs p = 1"
        "p_state p \<noteq> PARSE_FAKE" "pq_inv (l_queue ?l)"
      using line_okE [OF l(1)] by metis
    have "b \<in># line_refs ?l" using b(1) by (simp add: line_refs_def)
    then obtain M where M: "line_refs ?l = add_mset b M" by (metis mset_add)
    have "refs_ok (ds_store st) (add_mset b (M + rest_refs i ?ls + F))"
      using l(1) M by (simp add: line_ok_def add.assoc)
    from held_alone [OF this b(2,3)] have once: "b \<notin># M + rest_refs i ?ls + F" .
    moreover have "b \<in># held_lines st" using split M by simp
    ultimately have "b \<notin># F'" using new [of b] by auto
    then have "count (held_lines st + F') b = 1" using once split M by (simp add: not_in_iff)
    moreover obtain n where "st_heap s b = Some (p\<lparr>p_refs := n\<rparr>)"
      using same \<open>b \<in># held_lines st\<close> b(2) by (fastforce simp: same_msgs_def)
    ultimately have "st_heap s b = Some (p\<lparr>p_refs := 1\<rparr>)"
      using refs_ok_live [OF refs, of b] \<open>b \<in># held_lines st\<close> by auto
    then have "line_ok s ?l (rest_refs i ?ls + F')" using refs' b by (simp add: line_ok_def)
    moreover have "set (pq_items (l_queue ?l)) \<subseteq> set_mset (held_lines st)" using split by (auto simp: line_refs_def)
    then have "out_ok False ?l s" using output_same [OF l(2) same, of ?l] by (auto simp: same_output_def)
    ultimately show ?thesis by blast
  qed
  then show ?thesis using ok by (simp add: disp_ok_def lines_ok_def n_clients_def)
qed

lemma disp_held:
  assumes "disp_ok F st" "0 < n_clients st" "p \<in># F"
  shows "\<exists>q. st_heap (ds_store st) p = Some q \<and> parse_inv q"
  using refs_ok_live [OF disp_all_refs [OF assms(1,2)], of p] assms(3) by auto

lemma copy_text:
  assumes "disp_ok F st" "0 < n_clients st" "p \<in># F" "st_heap (ds_store st) p = Some q" "p_state q = PARSE_DONE"
  shows "\<exists>s. copy_parse_katcl (Some p) (ds_store st) = Inr (Some p, s) \<and>
    disp_ok (add_mset p F) (st\<lparr>ds_store := s\<rparr>) \<and> same_msgs (ds_store st) s F \<and>
    st_heap s p = Some (q\<lparr>p_refs := p_refs q + 1\<rparr>)"
proof -
  let ?s = "st_put p (q\<lparr>p_refs := p_refs q + 1\<rparr>) (ds_store st)"
  have refs: "refs_ok (ds_store st) (held_lines st + F)" by (rule disp_all_refs [OF assms(1,2)])
  have c: "copy_parse_katcl (Some p) (ds_store st) = Inr (Some p, ?s)" "refs_ok ?s (held_lines st + add_mset p F)"
    using copy_ok [OF refs, of p] assms(3-5) by auto
  have same: "same_msgs (ds_store st) ?s (held_lines st + F)"
    unfolding same_msgs_def
  proof
    fix c assume "c \<in># held_lines st + F"
    then obtain r where r: "st_heap (ds_store st) c = Some r" using refs_ok_live [OF refs, of c] by auto
    then have "st_heap ?s c = Some (r\<lparr>p_refs := if c = p then p_refs q + 1 else p_refs r\<rparr>)"
      using assms(4) by (auto simp: st_put_def)
    with r show "\<exists>p n. st_heap (ds_store st) c = Some p \<and> st_heap ?s c = Some (p\<lparr>p_refs := n\<rparr>)" by blast
  qed
  have "disp_ok (add_mset p F) (st\<lparr>ds_store := ?s\<rparr>)"
    using same assms(3) by (intro disp_change [OF assms(1,2) c(2)]) (auto simp: same_msgs_def)
  moreover have "same_msgs (ds_store st) ?s F" using same by (auto simp: same_msgs_def)
  ultimately show ?thesis using c(1) by (simp add: st_put_def)
qed

lemma drop_text:
  assumes "disp_ok (add_mset p F) st" "0 < n_clients st"
  shows "\<exists>s. destroy_parse_katcl (Some p) (ds_store st) = Inr s \<and> disp_ok F (st\<lparr>ds_store := s\<rparr>) \<and>
    same_msgs (ds_store st) s F"
proof -
  have refs: "refs_ok (ds_store st) (add_mset p (held_lines st + F))"
    using disp_all_refs [OF assms] by simp
  obtain s where s: "destroy_parse_katcl (Some p) (ds_store st) = Inr s" "refs_ok s (held_lines st + F)"
    using destroy_ok [OF refs] by blast
  have same: "same_msgs (ds_store st) s (held_lines st + F)" by (rule destroy_same [OF refs s(1)])
  have "disp_ok F (st\<lparr>ds_store := s\<rparr>)"
    using same by (intro disp_change [OF assms s(2)]) (auto simp: same_msgs_def)
  then show ?thesis using s same by (auto simp: same_msgs_def)
qed

definition has_type :: "char \<Rightarrow> string list \<Rightarrow> bool" where
  "has_type c args \<longleftrightarrow> args \<noteq> [] \<and> hd args \<noteq> [] \<and> hd (hd args) = c"

lemma type_text:
  assumes "parse_inv q" "c \<noteq> nul"
  shows "is_type_parse_katcl q c = Inr (has_type c (parse_args q))"
proof (cases "parse_args q")
  case Nil
  then have "p_got q = 0" by (simp add: parse_args_def)
  then show ?thesis using Nil by (simp add: is_type_parse_katcl_def has_type_def)
next
  case (Cons a as)
  then have "0 < p_got q" by (metis length_parse_args length_greater_0_conv list.discI)
  then show ?thesis using is_type_spec [OF assms(1), of c] Cons assms(2)
    by (cases a) (auto simp: has_type_def simp del: parse_args_nth)
qed

lemma request_text:
  "parse_inv q \<Longrightarrow> is_request_parse_katcl q = Inr (has_type KATCP_REQUEST (parse_args q))"
  "parse_inv q \<Longrightarrow> is_reply_parse_katcl q = Inr (has_type KATCP_REPLY (parse_args q))"
  using type_text by (simp_all add: is_request_parse_katcl_def is_reply_parse_katcl_def KATCP_REQUEST_def KATCP_REPLY_def)

text \<open>The text of an answer on behalf of a handler.\<close>

definition reply_words :: "string list \<Rightarrow> string \<Rightarrow> string option \<Rightarrow> string list" where
  "reply_words args text extra =
     (KATCP_REPLY # tl (cstr (hd args))) # text #
     (case extra of None \<Rightarrow> [] | Some t \<Rightarrow> [t])"

lemma reply_words: "0 < p_got p \<Longrightarrow> reply_args p text extra = reply_words (parse_args p) text extra"
  by (cases "parse_args p") (auto simp: reply_args_def reply_words_def hd_conv_nth parse_args_def simp del: parse_args_nth)

lemma turn_text:
  assumes ok: "disp_ok (add_mset p F) st" and n: "0 < n_clients st"
    and q: "st_heap (ds_store st) p = Some q" "p_state q = PARSE_DONE" "has_type KATCP_REQUEST (parse_args q)"
    and code: "code_to_name_katcm code = Inr (Some text)" and mem: "\<forall>i. mem i"
  shows "\<exists>b s r. turnaround_extra_parse_katcl mem p code extra (ds_store st) = Inr (Some b, s) \<and>
    disp_ok (add_mset b F) (st\<lparr>ds_store := s\<rparr>) \<and> same_msgs (ds_store st) s F \<and>
    st_heap s b = Some r \<and> p_state r = PARSE_DONE \<and>
    parse_args r = reply_words (parse_args q) text extra \<and> p_tag r = -1"
proof -
  have refs: "refs_ok (ds_store st) (add_mset p (held_lines st + F))"
    using disp_all_refs [OF ok n] by simp
  obtain w ws where w: "parse_args q = (KATCP_REQUEST # w) # ws"
    using q(3) unfolding has_type_def by (metis list.exhaust_sel)
  have got: "0 < p_got q" using w by (metis length_parse_args length_greater_0_conv list.discI)
  have "parse_args q ! 0 = KATCP_REQUEST # w" using w by (simp del: parse_args_nth)
  from turnaround_shown [OF refs q(1,2) got this code mem, of extra]
  obtain b s r where t: "vturnaround_extra_parse_katcl mem p code extra (ds_store st) = Inr (Some b, s)"
      "refs_ok s (add_mset b (held_lines st + F))" "same_msgs (ds_store st) s (held_lines st + F)"
      "st_heap s b = Some r" "p_state r = PARSE_DONE" "parse_args r = reply_args q text extra" "p_tag r = -1"
      "b \<notin># held_lines st + F"
    by blast
  have "disp_ok (add_mset b F) (st\<lparr>ds_store := s\<rparr>)"
    using t(2,3,8) by (intro disp_change [OF ok n]) (auto simp: same_msgs_def)
  then show ?thesis using t reply_words [OF got] by (auto simp: turnaround_extra_parse_katcl_def same_msgs_def)
qed

section \<open>The invariant\<close>

definition items :: "endpoint \<Rightarrow> nat list" where
  "items x = (case e_queue x of None \<Rightarrow> [] | Some g \<Rightarrow> gueue_items g)"

definition waiting :: "'u ends \<Rightarrow> nat \<Rightarrow> nat list" where
  "waiting u ep = (case n_ends u ep of None \<Rightarrow> [] | Some x \<Rightarrow> items x)"

definition links_of :: "message \<Rightarrow> nat multiset" where
  "links_of x = opt_refs (m_from x) + opt_refs (m_to x)"

definition texts :: "'u ends \<Rightarrow> nat multiset" where
  "texts u = gather (\<lambda>x. opt_refs (m_parse x)) (n_msgs u)"

definition is_up :: "endpoint \<Rightarrow> bool" where
  "is_up x \<longleftrightarrow> e_state x AND ENDPOINT_STATE_UP \<noteq> 0"

definition receives :: "endpoint \<Rightarrow> bool" where
  "receives x \<longleftrightarrow> e_state x AND ENDPOINT_STATE_RX \<noteq> 0"

definition wants_reply :: "message \<Rightarrow> bool" where
  "wants_reply x \<longleftrightarrow> m_flags x AND KATCP_MESSAGE_WACK \<noteq> 0"

text \<open>An endpoint is up or gone, and one that is gone has an empty queue and nothing to release.\<close>

definition end_ok :: "endpoint \<Rightarrow> bool" where
  "end_ok x \<longleftrightarrow> e_freeable x \<and> e_precedence x = 0 \<and> (\<exists>g. e_queue x = Some g \<and> gueue_inv g) \<and>
     (is_up x \<or> e_state x = ENDPOINT_STATE_GONE \<and> items x = [] \<and> e_release x = None)"

definition msg_ok :: "message \<Rightarrow> bool" where
  "msg_ok x \<longleftrightarrow> m_to x \<noteq> None \<and> m_from x \<noteq> m_to x \<and> (wants_reply x \<longrightarrow> m_from x \<noteq> None)"

text \<open>\<open>X\<close> are the references to endpoints from elsewhere, \<open>L\<close> the messages that are in no queue
  because some function works on them.\<close>

definition counted :: "nat multiset \<Rightarrow> 'u ends \<Rightarrow> bool" where
  "counted X u \<longleftrightarrow>
     (\<forall>ep. count (gather links_of (n_msgs u) + X) ep = (case n_ends u ep of None \<Rightarrow> 0 | Some x \<Rightarrow> e_refcount x))"

definition placed :: "nat set \<Rightarrow> 'u ends \<Rightarrow> bool" where
  "placed L u \<longleftrightarrow> L \<subseteq> dom (n_msgs u) \<and> (\<forall>ep. distinct (waiting u ep)) \<and>
     (\<forall>ep m. m \<in> set (waiting u ep) \<longleftrightarrow> m \<notin> L \<and> (\<exists>x. n_msgs u m = Some x \<and> m_to x = Some ep))"

definition shaped :: "'u ends \<Rightarrow> bool" where
  "shaped u \<longleftrightarrow> dom (n_msgs u) \<subseteq> {..<n_fresh u} \<and> dom (n_ends u) \<subseteq> {..<n_fresh u} \<and>
     (\<forall>ep x. n_ends u ep = Some x \<longrightarrow> end_ok x) \<and> (\<forall>m x. n_msgs u m = Some x \<longrightarrow> msg_ok x) \<and>
     set (s_endpoints u) = dom (n_ends u) \<and> distinct (s_endpoints u)"

definition mail_ok :: "nat multiset \<Rightarrow> nat set \<Rightarrow> 'u ends \<Rightarrow> bool" where
  "mail_ok X L u \<longleftrightarrow> counted X u \<and> placed L u \<and> shaped u"

definition good_text :: "store \<Rightarrow> message \<Rightarrow> bool" where
  "good_text s x \<longleftrightarrow> (\<exists>p q. m_parse x = Some p \<and> st_heap s p = Some q \<and> p_state q = PARSE_DONE)"

definition net_ok :: "nat multiset \<Rightarrow> nat multiset \<Rightarrow> nat set \<Rightarrow> 'u net \<Rightarrow> bool" where
  "net_ok G X L st \<longleftrightarrow> disp_ok (texts (ds_user st) + G) st \<and> 0 < n_clients st \<and> mail_ok X L (ds_user st) \<and>
     (\<forall>m x. n_msgs (ds_user st) m = Some x \<longrightarrow> good_text (ds_store st) x)"

section \<open>Steps of the mail\<close>

definition put_end :: "nat \<Rightarrow> endpoint \<Rightarrow> 'u ends \<Rightarrow> 'u ends" where
  "put_end ep x u = u\<lparr>n_ends := (n_ends u)(ep \<mapsto> x)\<rparr>"

definition put_msg :: "nat \<Rightarrow> message option \<Rightarrow> 'u ends \<Rightarrow> 'u ends" where
  "put_msg m x u = u\<lparr>n_msgs := (n_msgs u)(m := x)\<rparr>"

lemma put_simps [simp]:
  "n_ends (put_end ep x u) = (n_ends u)(ep \<mapsto> x)" "n_msgs (put_end ep x u) = n_msgs u"
  "n_fresh (put_end ep x u) = n_fresh u" "s_endpoints (put_end ep x u) = s_endpoints u"
  "n_msgs (put_msg m y u) = (n_msgs u)(m := y)" "n_ends (put_msg m y u) = n_ends u"
  "n_fresh (put_msg m y u) = n_fresh u" "s_endpoints (put_msg m y u) = s_endpoints u"
  by (simp_all add: put_end_def put_msg_def)

lemma waiting_put [simp]:
  "waiting (put_end ep x u) e = (if e = ep then items x else waiting u e)"
  "waiting (put_msg m y u) e = waiting u e"
  by (simp_all add: waiting_def)

lemma mail_finite: "mail_ok X L u \<Longrightarrow> finite (dom (n_msgs u))"
  by (auto simp: mail_ok_def shaped_def intro: finite_subset)

lemma mail_count:
  "mail_ok X L u \<Longrightarrow> count (gather links_of (n_msgs u) + X) ep = (case n_ends u ep of None \<Rightarrow> 0 | Some x \<Rightarrow> e_refcount x)"
  by (simp add: mail_ok_def counted_def)

lemma mail_end: "mail_ok X L u \<Longrightarrow> n_ends u ep = Some x \<Longrightarrow> end_ok x"
  by (simp add: mail_ok_def shaped_def)

lemma mail_msg: "mail_ok X L u \<Longrightarrow> n_msgs u m = Some x \<Longrightarrow> msg_ok x"
  by (simp add: mail_ok_def shaped_def)

lemma mail_member: "mail_ok X L u \<Longrightarrow> m \<in> set (waiting u ep) \<Longrightarrow> m \<notin> L \<and> (\<exists>x. n_msgs u m = Some x \<and> m_to x = Some ep)"
  by (simp add: mail_ok_def placed_def)

text \<open>Whoever is referred to exists.\<close>

lemma mail_pos:
  assumes "mail_ok X L u" "ep \<in># gather links_of (n_msgs u) + X"
  shows "\<exists>e. n_ends u ep = Some e \<and> 0 < e_refcount e"
proof (cases "n_ends u ep")
  case None
  then have "count (gather links_of (n_msgs u) + X) ep = 0"
    by (simp only: mail_count [OF assms(1)] option.case)
  then have "ep \<notin># gather links_of (n_msgs u) + X" by (simp only: count_eq_zero_iff not_False_eq_True)
  then show ?thesis using assms(2) by blast
next
  case (Some e)
  then have "count (gather links_of (n_msgs u) + X) ep = e_refcount e"
    by (simp only: mail_count [OF assms(1)] option.case)
  then show ?thesis using assms(2) Some count_greater_zero_iff by metis
qed

lemma mail_live:
  assumes "mail_ok X L u" "n_msgs u m = Some x" "ep \<in># links_of x"
  shows "\<exists>e. n_ends u ep = Some e \<and> 0 < e_refcount e"
  using mail_pos [OF assms(1)] gather_member [where f = links_of, OF mail_finite [OF assms(1)] assms(2,3)] by simp

lemma mail_held: "mail_ok X L u \<Longrightarrow> ep \<in># X \<Longrightarrow> \<exists>e. n_ends u ep = Some e \<and> 0 < e_refcount e"
  by (erule mail_pos) simp

lemma waiting_put_same:
  "n_ends u ep = Some x \<Longrightarrow> items y = items x \<Longrightarrow> waiting (put_end ep y u) = waiting u"
  by (auto simp: waiting_def fun_eq_iff)

lemma mail_put_end:
  assumes "mail_ok X L u" "n_ends u ep = Some x" "end_ok y" "items y = items x" "e_refcount y = e_refcount x"
  shows "mail_ok X L (put_end ep y u)"
  using assms waiting_put_same [OF assms(2,4)] unfolding mail_ok_def counted_def placed_def shaped_def
  by (auto split: if_splits)

lemma mail_recount:
  assumes "mail_ok X L u" "n_ends u ep = Some x" "end_ok y" "items y = items x" "counted Y (put_end ep y u)"
  shows "mail_ok Y L (put_end ep y u)"
  using assms waiting_put_same [OF assms(2,4)] unfolding mail_ok_def placed_def shaped_def
  by (auto split: if_splits)

lemma end_ok_refs [simp]: "end_ok (x\<lparr>e_refcount := n\<rparr>) = end_ok x" "items (x\<lparr>e_refcount := n\<rparr>) = items x"
  by (simp_all add: end_ok_def items_def is_up_def)

lemma mail_ref:
  assumes "mail_ok X L u" "n_ends u ep = Some x"
  shows "mail_ok (add_mset ep X) L (put_end ep (x\<lparr>e_refcount := e_refcount x + 1\<rparr>) u)"
  using assms mail_end [OF assms] by (intro mail_recount [OF assms]) (simp_all add: mail_ok_def counted_def)

lemma mail_unref:
  assumes "mail_ok (add_mset ep X) L u"
  shows "\<exists>x. n_ends u ep = Some x \<and> 0 < e_refcount x \<and>
    mail_ok X L (put_end ep (x\<lparr>e_refcount := e_refcount x - 1\<rparr>) u)"
proof -
  obtain x where x: "n_ends u ep = Some x" "0 < e_refcount x" using mail_held [OF assms] by auto
  let ?y = "x\<lparr>e_refcount := e_refcount x - 1\<rparr>"
  have "counted X (put_end ep ?y u)"
    unfolding counted_def
  proof
    fix e
    have "count (gather links_of (n_msgs u) + add_mset ep X) e = (case n_ends u e of None \<Rightarrow> 0 | Some x \<Rightarrow> e_refcount x)"
      by (rule mail_count [OF assms])
    then show "count (gather links_of (n_msgs (put_end ep ?y u)) + X) e =
        (case n_ends (put_end ep ?y u) e of None \<Rightarrow> 0 | Some x \<Rightarrow> e_refcount x)"
      using x by (cases "e = ep") auto
  qed
  then show ?thesis using x mail_recount [where y = ?y and Y = X, OF assms x(1)] mail_end [OF assms x(1)] by auto
qed

lemma mail_new:
  assumes ok: "mail_ok (links_of x + X) L u" and m: "n_msgs u m = None" "m < n_fresh u" "msg_ok x"
  shows "mail_ok X (insert m L) (put_msg m (Some x) u)"
proof -
  note fin = mail_finite [OF ok]
  have "counted X (put_msg m (Some x) u)"
    using ok m by (simp add: mail_ok_def counted_def gather_new [OF fin] ac_simps)
  moreover have "placed (insert m L) (put_msg m (Some x) u)"
    using ok m unfolding mail_ok_def placed_def by auto
  moreover have "shaped (put_msg m (Some x) u)"
    using ok m unfolding mail_ok_def shaped_def by auto
  ultimately show ?thesis by (simp add: mail_ok_def)
qed

lemma mail_drop:
  assumes ok: "mail_ok X L u" and m: "n_msgs u m = Some x" "m \<in> L"
  shows "mail_ok (links_of x + X) (L - {m}) (put_msg m None u)"
proof -
  note fin = mail_finite [OF ok]
  have "counted (links_of x + X) (put_msg m None u)"
    using ok by (simp add: mail_ok_def counted_def gather_drop [OF fin m(1)] ac_simps)
  moreover have "placed (L - {m}) (put_msg m None u)"
    using ok m unfolding mail_ok_def placed_def by auto
  moreover have "shaped (put_msg m None u)"
    using ok m unfolding mail_ok_def shaped_def by auto
  ultimately show ?thesis by (simp add: mail_ok_def)
qed

lemma mail_change:
  assumes ok: "mail_ok X L u" and m: "n_msgs u m = Some x" "m \<in> L" and y: "msg_ok y" "links_of y = links_of x"
  shows "mail_ok X L (put_msg m (Some y) u)"
proof -
  have "m < n_fresh u" using ok m by (auto simp: mail_ok_def shaped_def)
  then have "mail_ok X (insert m (L - {m})) (put_msg m (Some y) (put_msg m None u))"
    using mail_drop [OF ok m] y by (intro mail_new) simp_all
  moreover have "put_msg m (Some y) (put_msg m None u) = put_msg m (Some y) u" by (simp add: put_msg_def)
  ultimately show ?thesis using m(2) by (simp add: insert_absorb)
qed

lemma mail_enqueue:
  assumes ok: "mail_ok X L u" and m: "n_msgs u m = Some x" "m \<in> L" "m_to x = Some ep"
    and e: "n_ends u ep = Some e" "items f = items e @ [m]" "end_ok f" "e_refcount f = e_refcount e"
  shows "mail_ok X (L - {m}) (put_end ep f u)"
proof -
  have "counted X (put_end ep f u)" using ok e unfolding mail_ok_def counted_def by auto
  moreover have "placed (L - {m}) (put_end ep f u)"
  proof -
    have p: "distinct (waiting u a)" "b \<in> set (waiting u a) \<longleftrightarrow> b \<notin> L \<and> (\<exists>x. n_msgs u b = Some x \<and> m_to x = Some a)" for a b
      using ok by (simp_all add: mail_ok_def placed_def)
    have w: "waiting u ep = items e" using e(1) by (simp add: waiting_def)
    have "distinct (items f)" using p(1) [of ep] p(2) [of m ep] w e(2) m(2) by simp
    moreover have "b \<in> set (items f) \<longleftrightarrow> b \<notin> L - {m} \<and> (\<exists>x. n_msgs u b = Some x \<and> m_to x = Some ep)" for b
      using p(2) [of b ep] w e(2) m by auto
    moreover have "b \<in> set (waiting u a) \<longleftrightarrow> b \<notin> L - {m} \<and> (\<exists>x. n_msgs u b = Some x \<and> m_to x = Some a)" if "a \<noteq> ep" for a b
      using p(2) [of b a] m that by auto
    moreover have "L \<subseteq> dom (n_msgs u)" using ok by (simp add: mail_ok_def placed_def)
    ultimately show ?thesis using p(1) by (auto simp: placed_def)
  qed
  moreover have "shaped (put_end ep f u)" using ok e unfolding mail_ok_def shaped_def by auto
  ultimately show ?thesis by (simp add: mail_ok_def)
qed

lemma mail_take:
  assumes ok: "mail_ok X L u"
    and e: "n_ends u ep = Some e" "m \<in> set (items e)" "items f = remove1 m (items e)" "end_ok f" "e_refcount f = e_refcount e"
  shows "mail_ok X (insert m L) (put_end ep f u)"
proof -
  have "counted X (put_end ep f u)" using ok e unfolding mail_ok_def counted_def by auto
  moreover have "placed (insert m L) (put_end ep f u)"
  proof -
    have p: "distinct (waiting u a)" "b \<in> set (waiting u a) \<longleftrightarrow> b \<notin> L \<and> (\<exists>x. n_msgs u b = Some x \<and> m_to x = Some a)" for a b
      using ok by (simp_all add: mail_ok_def placed_def)
    have w: "waiting u ep = items e" using e(1) by (simp add: waiting_def)
    have d: "distinct (items e)" using p(1) [of ep] w by simp
    then have "distinct (items f)" using e(3) by simp
    moreover have "b \<in> set (items f) \<longleftrightarrow> b \<notin> insert m L \<and> (\<exists>x. n_msgs u b = Some x \<and> m_to x = Some ep)" for b
      using p(2) [of b ep] w e(2,3) d by auto
    moreover have "b \<in> set (waiting u a) \<longleftrightarrow> b \<notin> insert m L \<and> (\<exists>x. n_msgs u b = Some x \<and> m_to x = Some a)" if "a \<noteq> ep" for a b
      using p(2) [of b a] p(2) [of m ep] w e(2) that by auto
    moreover have "insert m L \<subseteq> dom (n_msgs u)"
      using ok p(2) [of m ep] w e(2) by (auto simp: mail_ok_def placed_def)
    ultimately show ?thesis using p(1) by (auto simp: placed_def)
  qed
  moreover have "shaped (put_end ep f u)" using ok e unfolding mail_ok_def shaped_def by auto
  ultimately show ?thesis by (simp add: mail_ok_def)
qed

lemma mail_fresh:
  assumes "mail_ok X L u" "n_fresh u \<le> k"
  shows "mail_ok X L (u\<lparr>n_fresh := k\<rparr>)"
proof -
  have "waiting (u\<lparr>n_fresh := k\<rparr>) = waiting u" by (simp add: waiting_def fun_eq_iff)
  then show ?thesis using assms unfolding mail_ok_def counted_def placed_def shaped_def by auto
qed

section \<open>What the clients of endpoints see\<close>

text \<open>A message as its receiver sees it: the sender, the words with their tag, and whether the
  sender waits for an answer.\<close>

type_synonym letter = "nat option \<times> (string list \<times> int) \<times> bool"

definition words_at :: "store \<Rightarrow> nat option \<Rightarrow> string list \<times> int" where
  "words_at s p =
     (case p of
        None \<Rightarrow> ([], -1)
      | Some a \<Rightarrow> (case st_heap s a of None \<Rightarrow> ([], -1) | Some q \<Rightarrow> (parse_args q, p_tag q)))"

definition letter :: "store \<Rightarrow> message \<Rightarrow> letter" where
  "letter s x = (m_from x, words_at s (m_parse x), wants_reply x)"

definition inbox :: "'u net \<Rightarrow> nat \<Rightarrow> letter list" where
  "inbox st ep = map (\<lambda>m. letter (ds_store st) (the (n_msgs (ds_user st) m))) (waiting (ds_user st) ep)"

definition face :: "endpoint \<Rightarrow> endpoint" where
  "face x = x\<lparr>e_refcount := 0, e_queue := None\<rparr>"

lemma face_state: "face x = face y \<Longrightarrow> e_state x = e_state y"
  by (drule arg_cong [where f = e_state]) (simp add: face_def)

definition faces :: "'u net \<Rightarrow> nat \<Rightarrow> endpoint option" where
  "faces st ep = map_option face (n_ends (ds_user st) ep)"

text \<open>Nothing happens but to counts and queues, and to messages outside \<open>M\<close>.\<close>

definition calm :: "nat set \<Rightarrow> 'u net \<Rightarrow> 'u net \<Rightarrow> bool" where
  "calm M st st' \<longleftrightarrow> n_clients st' = n_clients st \<and> faces st' = faces st \<and>
     s_endpoints (ds_user st') = s_endpoints (ds_user st) \<and> s_epcount (ds_user st') = s_epcount (ds_user st) \<and>
     (\<forall>m x. m \<in> M \<longrightarrow> n_msgs (ds_user st) m = Some x \<longrightarrow>
        n_msgs (ds_user st') m = Some x \<and> letter (ds_store st') x = letter (ds_store st) x)"

lemma calm_refl [simp]: "calm M st st"
  by (simp add: calm_def)

lemma calm_trans: "calm M st st1 \<Longrightarrow> calm N st1 st2 \<Longrightarrow> M \<inter> N = K \<Longrightarrow> calm K st st2"
  by (auto simp: calm_def)

lemma calm_then: "calm UNIV st st1 \<Longrightarrow> calm M st1 st2 \<Longrightarrow> calm M st st2" "calm M st st1 \<Longrightarrow> calm UNIV st1 st2 \<Longrightarrow> calm M st st2"
  using calm_trans by fastforce+

lemma calm_mono: "calm M st st1 \<Longrightarrow> K \<subseteq> M \<Longrightarrow> calm K st st1"
  unfolding calm_def by blast

lemma letter_same:
  assumes "good_text s x" "same_msgs s s' K" "\<And>p. m_parse x = Some p \<Longrightarrow> p \<in># K"
  shows "good_text s' x" "letter s' x = letter s x"
proof -
  obtain p q where p: "m_parse x = Some p" "st_heap s p = Some q" "p_state q = PARSE_DONE"
    using assms(1) by (auto simp: good_text_def)
  then have "p \<in># K" using assms(3) by simp
  then obtain n where "st_heap s' p = Some (q\<lparr>p_refs := n\<rparr>)" using assms(2) p(2) by (fastforce simp: same_msgs_def)
  then show "good_text s' x" "letter s' x = letter s x"
    using p by (simp_all add: good_text_def letter_def words_at_def)
qed

lemma text_member: "mail_ok X L u \<Longrightarrow> n_msgs u m = Some x \<Longrightarrow> m_parse x = Some p \<Longrightarrow> p \<in># texts u"
  unfolding texts_def using gather_member [OF mail_finite, of X L u m x p "\<lambda>x. opt_refs (m_parse x)"] by simp

lemma net_mail: "net_ok G X L st \<Longrightarrow> mail_ok X L (ds_user st)"
  by (simp add: net_ok_def)

lemma net_disp: "net_ok G X L st \<Longrightarrow> disp_ok (texts (ds_user st) + G) st \<and> 0 < n_clients st"
  by (simp add: net_ok_def)

lemma net_text: "net_ok G X L st \<Longrightarrow> n_msgs (ds_user st) m = Some x \<Longrightarrow> good_text (ds_store st) x"
  by (simp add: net_ok_def)

lemma waiting_live:
  assumes "mail_ok X L u" "m \<in> set (waiting u ep)"
  shows "n_msgs u m = Some (the (n_msgs u m))"
  using mail_member [OF assms] by auto

lemma disp_ok_more [simp]: "disp_ok F (st\<lparr>ds_user := u\<rparr>) = disp_ok F st" "disp_ok F (tick st) = disp_ok F st"
  "n_clients (st\<lparr>ds_user := u\<rparr>) = n_clients st" "n_clients (tick st) = n_clients st"
  "disp_ok F (tick st\<lparr>ds_store := s\<rparr>) = disp_ok F (st\<lparr>ds_store := s\<rparr>)"
  "n_clients (st\<lparr>ds_store := s\<rparr>) = n_clients st" "ds_user (tick st) = ds_user st" "ds_store (tick st) = ds_store st"
  by (simp_all add: disp_ok_def n_clients_def tick_def)

lemma net_tick [simp]: "net_ok G X L (tick st) = net_ok G X L st" "inbox (tick st) = inbox st"
  "faces (tick st) = faces st"
  by (simp_all add: net_ok_def inbox_def faces_def fun_eq_iff)

lemma set_user: "set_endpoint ep (Some x) st = st\<lparr>ds_user := put_end ep x (ds_user st)\<rparr>"
  "set_message m y st = st\<lparr>ds_user := put_msg m y (ds_user st)\<rparr>"
  by (simp_all add: set_endpoint_def set_message_def put_end_def put_msg_def)

text \<open>A change of the store that leaves the texts in use alone.\<close>

lemma net_store:
  assumes ok: "net_ok G X L st" and u: "ds_user st' = ds_user st" "n_clients st' = n_clients st"
    and d: "disp_ok (texts (ds_user st) + G) st'" and same: "same_msgs (ds_store st) (ds_store st') (texts (ds_user st))"
  shows "net_ok G X L st' \<and> inbox st' = inbox st \<and> calm UNIV st st'"
proof -
  note mail = net_mail [OF ok]
  have each: "good_text (ds_store st') x" "letter (ds_store st') x = letter (ds_store st) x"
    if x: "n_msgs (ds_user st) m = Some x" for m x
    using letter_same [OF net_text [OF ok x] same] text_member [OF mail x] by auto
  have "inbox st' ep = inbox st ep" for ep
    unfolding inbox_def u(1) using each(2) waiting_live [OF mail] by (intro map_cong) auto
  then show ?thesis using ok u d each by (auto simp: net_ok_def calm_def faces_def fun_eq_iff)
qed

lemma net_log:
  assumes ok: "net_ok G X L st" and d: "d < n_clients st" and e: "env_ok e"
  shows "\<exists>st'. log_only e d level t v st = Inr (v, st') \<and> net_ok G X L st' \<and> ds_user st' = ds_user st \<and>
    inbox st' = inbox st \<and> calm UNIV st st'"
proof -
  obtain r st' where g: "log_message_katcp e d (of_int level) None (Some t) st = Inr (r, st')"
      "logs (texts (ds_user st) + G) d st st'"
    using log_message_ok [OF _ d e] net_disp [OF ok] by blast
  have em: "emits (texts (ds_user st) + G) d [] st st'" using g(2) by (simp add: logs_def)
  have u: "ds_user st' = ds_user st" "disp_ok (texts (ds_user st) + G) st'" "n_clients st' = n_clients st"
    using same_server_fields(10) [OF logs_server(2) [OF g(2) d]] logs_server(1) [OF g(2) d]
      same_server_length [OF logs_server(2) [OF g(2) d]] by simp_all
  have "held_same (texts (ds_user st) + G) st st'" using em by (simp only: emits_def)
  then have "same_msgs (ds_store st) (ds_store st') (texts (ds_user st))"
    using net_disp [OF ok] by (auto simp: held_same_def same_msgs_def)
  from net_store [OF ok u(1,3,2) this] show ?thesis using g(1) u(1) by (simp add: log_only_def)
qed

section \<open>References and messages\<close>

lemma net_put_end:
  assumes "net_ok G X L st" "mail_ok Y K (put_end ep y (ds_user st))"
  shows "net_ok G Y K (st\<lparr>ds_user := put_end ep y (ds_user st)\<rparr>)"
  using assms by (simp add: net_ok_def texts_def)

lemma calm_put_end:
  assumes "n_ends (ds_user st) ep = Some x" "face y = face x"
  shows "calm UNIV st (st\<lparr>ds_user := put_end ep y (ds_user st)\<rparr>)"
  using assms by (auto simp: calm_def faces_def fun_eq_iff put_end_def)

lemma inbox_put_end:
  assumes "n_ends (ds_user st) ep = Some x" "items y = items x"
  shows "inbox (st\<lparr>ds_user := put_end ep y (ds_user st)\<rparr>) = inbox st"
  using waiting_put_same [OF assms] by (simp add: inbox_def fun_eq_iff del: waiting_put)

lemma forget_ok:
  assumes "net_ok G (add_mset ep X) L st"
  shows "\<exists>st'. forget_endpoint_katcp ep st = Inr st' \<and> net_ok G X L st' \<and> calm UNIV st st' \<and> inbox st' = inbox st"
proof -
  obtain x where x: "n_ends (ds_user st) ep = Some x" "0 < e_refcount x"
      "mail_ok X L (put_end ep (x\<lparr>e_refcount := e_refcount x - 1\<rparr>) (ds_user st))"
    using mail_unref [OF net_mail [OF assms]] by blast
  let ?y = "x\<lparr>e_refcount := e_refcount x - 1\<rparr>"
  have "forget_endpoint_katcp ep st = Inr (st\<lparr>ds_user := put_end ep ?y (ds_user st)\<rparr>)"
    using x by (simp add: forget_endpoint_katcp_def endpoint_at_def set_user)
  moreover have "face ?y = face x" by (simp add: face_def)
  ultimately show ?thesis
    using net_put_end [OF assms x(3)] calm_put_end [OF x(1)] inbox_put_end [OF x(1)] by simp
qed

lemma forget_if_ok:
  assumes "net_ok G (opt_refs ep + X) L st"
  shows "\<exists>st'. forget_if ep st = Inr st' \<and> net_ok G X L st' \<and> calm UNIV st st' \<and> inbox st' = inbox st"
  using assms forget_ok by (cases ep) (auto simp: forget_if_def)

lemma reference_ok:
  assumes "net_ok G X L st" "n_ends (ds_user st) ep \<noteq> None"
  shows "\<exists>st'. reference_endpoint_katcp ep st = Inr st' \<and> net_ok G (add_mset ep X) L st' \<and>
    calm UNIV st st' \<and> inbox st' = inbox st \<and> n_msgs (ds_user st') = n_msgs (ds_user st) \<and>
    n_fresh (ds_user st') = n_fresh (ds_user st) \<and> ds_store st' = ds_store st \<and> ds_tick st' = ds_tick st"
proof -
  obtain x where x: "n_ends (ds_user st) ep = Some x" using assms(2) by auto
  let ?y = "x\<lparr>e_refcount := e_refcount x + 1\<rparr>"
  have "reference_endpoint_katcp ep st = Inr (st\<lparr>ds_user := put_end ep ?y (ds_user st)\<rparr>)"
    using x by (simp add: reference_endpoint_katcp_def on_endpoint_def endpoint_at_def set_user)
  moreover have "face ?y = face x" by (simp add: face_def)
  ultimately show ?thesis
    using net_put_end [OF assms(1) mail_ref [OF net_mail [OF assms(1)] x]] calm_put_end [OF x] inbox_put_end [OF x]
    by simp
qed

lemma forget_swap:
  "forget_if ep (set_message m v st) = bind_res (forget_if ep st) (\<lambda>t. Inr (set_message m v t))"
  by (auto simp: forget_if_def forget_endpoint_katcp_def endpoint_at_def set_message_def set_endpoint_def bind_res_def
      split: option.splits)

lemma destroy_message_alt:
  assumes "n_msgs (ds_user st) m = Some x" "m_parse x = Some p"
    "destroy_parse_katcl (Some p) (ds_store st) = Inr s"
  shows "destroy_message_katcp m st =
    bind_res (forget_if (m_from x) (set_message m None (st\<lparr>ds_store := s\<rparr>))) (forget_if (m_to x))"
  using assms by (cases "forget_if (m_from x) (st\<lparr>ds_store := s\<rparr>)")
    (simp_all add: destroy_message_katcp_def message_at_def forget_swap)

lemma net_texts:
  assumes "net_ok G X L st" "n_msgs (ds_user st) m = Some x"
  shows "\<exists>p q. m_parse x = Some p \<and> st_heap (ds_store st) p = Some q \<and> p_state q = PARSE_DONE \<and> parse_inv q \<and>
    texts (ds_user st) = add_mset p (texts (put_msg m None (ds_user st)))"
proof -
  obtain p q where p: "m_parse x = Some p" "st_heap (ds_store st) p = Some q" "p_state q = PARSE_DONE"
    using net_text [OF assms] by (auto simp: good_text_def)
  have "p \<in># texts (ds_user st) + G" using text_member [OF net_mail [OF assms(1)] assms(2) p(1)] by simp
  then have "parse_inv q" using disp_held [OF net_disp [OF assms(1), THEN conjunct1] net_disp [OF assms(1), THEN conjunct2]] p(2)
    by fastforce
  then show ?thesis using p gather_drop [OF mail_finite [OF net_mail [OF assms(1)]] assms(2), of "\<lambda>x. opt_refs (m_parse x)"]
    by (simp add: texts_def)
qed

lemma inbox_loose:
  assumes ok: "net_ok G X L st" and m: "m \<in> L" and u: "ds_user st' = put_msg m y (ds_user st)"
    and same: "\<And>k x. k \<noteq> m \<Longrightarrow> n_msgs (ds_user st) k = Some x \<Longrightarrow> letter (ds_store st') x = letter (ds_store st) x"
  shows "inbox st' = inbox st"
proof -
  note mail = net_mail [OF ok]
  have "k \<noteq> m \<and> n_msgs (ds_user st) k = Some (the (n_msgs (ds_user st) k))" if "k \<in> set (waiting (ds_user st) ep)" for k ep
    using mail_member [OF mail that] waiting_live [OF mail that] m by auto
  then show ?thesis using same unfolding inbox_def u by (auto simp: fun_eq_iff)
qed

lemma destroy_message_ok:
  assumes ok: "net_ok G X L st" and m: "n_msgs (ds_user st) m = Some x" "m \<in> L"
  shows "\<exists>st'. destroy_message_katcp m st = Inr st' \<and> net_ok G X (L - {m}) st' \<and> calm (- {m}) st st' \<and>
    inbox st' = inbox st"
proof -
  obtain p q where p: "m_parse x = Some p" "texts (ds_user st) = add_mset p (texts (put_msg m None (ds_user st)))"
    using net_texts [OF ok m(1)] by auto
  let ?u = "put_msg m None (ds_user st)"
  have d0: "disp_ok (add_mset p (texts ?u + G)) st" "0 < n_clients st" using net_disp [OF ok] p(2) by simp_all
  obtain s where s: "destroy_parse_katcl (Some p) (ds_store st) = Inr s"
      "disp_ok (texts ?u + G) (st\<lparr>ds_store := s\<rparr>)" "same_msgs (ds_store st) s (texts ?u + G)"
    using drop_text [OF d0] by blast
  define t where "t = set_message m None (st\<lparr>ds_store := s\<rparr>)"
  have t: "ds_user t = ?u" "ds_store t = s" by (simp_all add: t_def set_user)
  have mail: "mail_ok (links_of x + X) (L - {m}) ?u" by (rule mail_drop [OF net_mail [OF ok] m])
  have each: "good_text s y \<and> letter s y = letter (ds_store st) y" if y: "n_msgs (ds_user st) k = Some y" "k \<noteq> m" for k y
  proof -
    have "n_msgs ?u k = Some y" using y by simp
    then have "a \<in># texts ?u + G" if "m_parse y = Some a" for a using text_member [OF mail _ that] by simp
    then show ?thesis using letter_same [OF net_text [OF ok y(1)] s(3)] by blast
  qed
  have "disp_ok (texts ?u + G) t" using s(2) by (simp add: t_def set_user)
  then have ok_t: "net_ok G (opt_refs (m_from x) + (opt_refs (m_to x) + X)) (L - {m}) t"
    using mail each t net_disp [OF ok]
    by (auto simp: net_ok_def links_of_def add.assoc t_def set_user split: if_splits)
  have in_t: "inbox t = inbox st" using inbox_loose [OF ok m(2) t(1)] each t(2) by simp
  have q_t: "calm (- {m}) st t" using each t by (auto simp: calm_def faces_def fun_eq_iff t_def set_user put_msg_def)
  obtain t1 where t1: "forget_if (m_from x) t = Inr t1" "net_ok G (opt_refs (m_to x) + X) (L - {m}) t1"
      "calm UNIV t t1" "inbox t1 = inbox t"
    using forget_if_ok [OF ok_t] by blast
  obtain t2 where t2: "forget_if (m_to x) t1 = Inr t2" "net_ok G X (L - {m}) t2" "calm UNIV t1 t2" "inbox t2 = inbox t1"
    using forget_if_ok [OF t1(2)] by blast
  have "destroy_message_katcp m st = Inr t2"
    using destroy_message_alt [OF m(1) p(1) s(1)] t1(1) t2(1) by (simp add: t_def)
  moreover have "calm (- {m}) st t2"
    using calm_then(2) [OF calm_then(2) [OF q_t t1(3)] t2(3)] by simp
  ultimately show ?thesis using t2 t1(4) in_t by auto
qed

lemma net_fresh:
  assumes "net_ok G X L st" "n_fresh (ds_user st) \<le> k"
  defines "st' \<equiv> tick st\<lparr>ds_user := (ds_user st)\<lparr>n_fresh := k\<rparr>\<rparr>"
  shows "net_ok G X L st'" "calm UNIV st st'" "inbox st' = inbox st"
proof -
  let ?u = "(ds_user st)\<lparr>n_fresh := k\<rparr>"
  have w: "waiting ?u = waiting (ds_user st)" by (simp add: waiting_def fun_eq_iff)
  show "net_ok G X L st'" using assms(1) mail_fresh [OF net_mail [OF assms(1)] assms(2)] by (simp add: st'_def net_ok_def texts_def)
  show "inbox st' = inbox st" using w by (simp add: st'_def inbox_def fun_eq_iff)
  show "calm UNIV st st'" by (simp add: st'_def calm_def faces_def fun_eq_iff)
qed

lemma reference_if_ok:
  assumes "net_ok G X L st" "\<And>ep. src = Some ep \<Longrightarrow> n_ends (ds_user st) ep \<noteq> None"
  shows "\<exists>st'. reference_if src st = Inr st' \<and> net_ok G (opt_refs src + X) L st' \<and>
    calm UNIV st st' \<and> inbox st' = inbox st \<and> n_msgs (ds_user st') = n_msgs (ds_user st) \<and>
    n_fresh (ds_user st') = n_fresh (ds_user st) \<and> ds_store st' = ds_store st \<and> ds_tick st' = ds_tick st"
  using assms reference_ok [OF assms(1)] by (cases src) (auto simp: reference_if_def)

lemma faces_live: "faces st' = faces st \<Longrightarrow> n_ends (ds_user st) ep \<noteq> None \<Longrightarrow> n_ends (ds_user st') ep \<noteq> None"
  by (metis faces_def option.map_disc_iff)

text \<open>The allocations of a caller that is not refused any.\<close>

definition waking_ok :: "'u waking \<Rightarrow> bool" where
  "waking_ok w \<longleftrightarrow> env_ok (w_env w)"

lemma create_message_ok:
  assumes ok: "net_ok G X L st" and w: "waking_ok w"
    and ends: "\<And>ep. src = Some ep \<Longrightarrow> n_ends (ds_user st) ep \<noteq> None" "n_ends (ds_user st) dst \<noteq> None" "src \<noteq> Some dst"
    and ack: "ack \<Longrightarrow> src \<noteq> None"
    and px: "px \<in># G" "st_heap (ds_store st) px = Some q" "p_state q = PARSE_DONE"
  shows "\<exists>m x st'. create_message_katcp w src dst (Some px) ack st = Inr (Some m, st') \<and> m \<notin> L \<and>
    n_msgs (ds_user st) m = None \<and>
    net_ok G X (insert m L) st' \<and> calm UNIV st st' \<and> inbox st' = inbox st \<and>
    n_msgs (ds_user st') m = Some x \<and> m_to x = Some dst \<and>
    letter (ds_store st') x = (src, (parse_args q, p_tag q), ack) \<and>
    (\<exists>n. st_heap (ds_store st') px = Some (q\<lparr>p_refs := n\<rparr>))"
proof -
  let ?m = "n_fresh (ds_user st)"
  let ?x = "\<lparr>m_flags = (if ack then KATCP_MESSAGE_WACK else 0), m_parse = Some px, m_from = src, m_to = Some dst\<rparr>"
  define st0 where "st0 = tick st\<lparr>ds_user := (ds_user st)\<lparr>n_fresh := ?m + 1\<rparr>\<rparr>"
  have 0: "net_ok G X L st0" "calm UNIV st st0" "inbox st0 = inbox st"
    using net_fresh [OF ok, of "?m + 1"] by (simp_all add: st0_def)
  have s0: "n_msgs (ds_user st0) = n_msgs (ds_user st)" "n_fresh (ds_user st0) = ?m + 1" "ds_store st0 = ds_store st"
      "n_ends (ds_user st0) = n_ends (ds_user st)"
    by (simp_all add: st0_def)
  obtain st1 where 1: "reference_if src st0 = Inr st1" "net_ok G (opt_refs src + X) L st1" "calm UNIV st0 st1"
      "inbox st1 = inbox st0" "n_msgs (ds_user st1) = n_msgs (ds_user st)" "n_fresh (ds_user st1) = ?m + 1"
      "ds_store st1 = ds_store st"
    using reference_if_ok [OF 0(1), of src] ends(1) s0 by auto
  have "n_ends (ds_user st1) dst \<noteq> None" using faces_live [of st1 st0] 1(3) s0 ends(2) by (auto simp: calm_def)
  then obtain st2 where 2: "reference_endpoint_katcp dst st1 = Inr st2" "net_ok G (add_mset dst (opt_refs src + X)) L st2"
      "calm UNIV st1 st2" "inbox st2 = inbox st1" "n_msgs (ds_user st2) = n_msgs (ds_user st)"
      "n_fresh (ds_user st2) = ?m + 1" "ds_store st2 = ds_store st"
    using reference_ok [OF 1(2), of dst] 1(5-7) by auto
  have free: "n_msgs (ds_user st) ?m = None"
    using net_mail [OF ok] by (auto simp: mail_ok_def shaped_def)
  have "px \<in># texts (ds_user st2) + G" using px(1) by simp
  from copy_text [OF net_disp [OF 2(2), THEN conjunct1] net_disp [OF 2(2), THEN conjunct2] this]
  obtain s where s: "copy_parse_katcl (Some px) (ds_store st2) = Inr (Some px, s)"
      "disp_ok (add_mset px (texts (ds_user st2) + G)) (st2\<lparr>ds_store := s\<rparr>)"
      "same_msgs (ds_store st2) s (texts (ds_user st2) + G)" "st_heap s px = Some (q\<lparr>p_refs := p_refs q + 1\<rparr>)"
    using px(2,3) 2(7) by auto
  define st3 where "st3 = set_message ?m (Some ?x) (st2\<lparr>ds_store := s\<rparr>)"
  have u3: "ds_user st3 = put_msg ?m (Some ?x) (ds_user st2)" "ds_store st3 = s" by (simp_all add: st3_def set_user)
  have "msg_ok ?x" using ends(3) ack by (auto simp: msg_ok_def wants_reply_def KATCP_MESSAGE_WACK_def)
  moreover have "mail_ok (links_of ?x + X) L (ds_user st2)" using net_mail [OF 2(2)] by (simp add: links_of_def)
  ultimately have mail: "mail_ok X (insert ?m L) (put_msg ?m (Some ?x) (ds_user st2))"
    using 2(5,6) free by (intro mail_new) auto
  have tx: "texts (ds_user st3) = add_mset px (texts (ds_user st2))"
    using gather_new [OF mail_finite [OF net_mail [OF 2(2)]], of ?m "\<lambda>x. opt_refs (m_parse x)" ?x] 2(5) free
    by (simp add: texts_def u3)
  have each: "good_text s y \<and> letter s y = letter (ds_store st2) y" if y: "n_msgs (ds_user st2) k = Some y" for k y
  proof -
    have "a \<in># texts (ds_user st2) + G" if "m_parse y = Some a" for a
      using text_member [OF net_mail [OF 2(2)] y that] by simp
    then show ?thesis using letter_same [OF net_text [OF 2(2) y] s(3)] by blast
  qed
  have "good_text s ?x" using s(4) px(3) by (simp add: good_text_def)
  then have 3: "net_ok G X (insert ?m L) st3"
    using s(2) mail each net_disp [OF 2(2)] tx u3 by (auto simp: net_ok_def st3_def set_user split: if_splits)
  have same3: "letter (ds_store st3) y = letter (ds_store st2) y" if "n_msgs (ds_user st2) k = Some y" for k y
    using each [OF that] u3(2) by simp
  have in3: "inbox st3 = inbox st2"
  proof -
    have "k \<noteq> ?m \<and> n_msgs (ds_user st2) k = Some (the (n_msgs (ds_user st2) k))" if "k \<in> set (waiting (ds_user st2) ep)" for k ep
      using waiting_live [OF net_mail [OF 2(2)] that] 2(5) free by (cases "k = ?m") auto
    then show ?thesis using same3 unfolding inbox_def u3(1) by (auto simp: fun_eq_iff)
  qed
  have q3: "calm UNIV st2 st3"
    using same3 u3 2(5) free by (auto simp: calm_def faces_def fun_eq_iff st3_def set_user put_msg_def)
  have lx: "letter (ds_store st3) ?x = (src, (parse_args q, p_tag q), ack)"
    using s(4) by (simp add: letter_def words_at_def u3 wants_reply_def KATCP_MESSAGE_WACK_def)
  have "e_mem (w_env w) (ds_tick st) 30" using w by (simp add: waking_ok_def env_ok_def)
  then have "create_message_katcp w src dst (Some px) ack st = Inr (Some ?m, st3)"
    using ack 1(1) 2(1) s(1)
    by (cases ack) (auto simp: create_message_katcp_def Let_def st0_def st3_def)
  moreover have "?m \<notin> L" using net_mail [OF ok] free by (auto simp: mail_ok_def placed_def)
  moreover have "calm UNIV st st3"
    using calm_then(1) [OF calm_then(1) [OF calm_then(1) [OF 0(2) 1(3)] 2(3)] q3] by simp
  moreover have "n_msgs (ds_user st3) ?m = Some ?x" by (simp add: u3)
  moreover have "m_to ?x = Some dst" by simp
  ultimately show ?thesis using 3 lx in3 0(3) 1(4) 2(4) s(4) u3(2) free by metis
qed

section \<open>Queues\<close>

lemma end_queue:
  assumes "net_ok G X L st" "n_ends (ds_user st) ep = Some e"
  shows "\<exists>g. e_queue e = Some g \<and> gueue_inv g \<and> items e = gueue_items g \<and> queue_of e = Inr g"
  using mail_end [OF net_mail [OF assms(1)] assms(2)] by (auto simp: end_ok_def items_def queue_of_def)

lemma receives_up: "end_ok e \<Longrightarrow> receives e \<Longrightarrow> is_up e"
  by (auto simp: end_ok_def receives_def ENDPOINT_STATE_GONE_def)

text \<open>A change of one queue.\<close>

lemma net_requeue:
  assumes ok: "net_ok G X L st" and e: "n_ends (ds_user st) ep = Some e"
    and f: "f = e\<lparr>e_queue := Some g\<rparr>" "gueue_inv g" and m: "mail_ok Y K (put_end ep f (ds_user st))"
  shows "net_ok G Y K (st\<lparr>ds_user := put_end ep f (ds_user st)\<rparr>)"
    "calm UNIV st (st\<lparr>ds_user := put_end ep f (ds_user st)\<rparr>)"
    "inbox (st\<lparr>ds_user := put_end ep f (ds_user st)\<rparr>) =
      (inbox st)(ep := map (\<lambda>m. letter (ds_store st) (the (n_msgs (ds_user st) m))) (gueue_items g))"
proof -
  have fc: "face f = face e" "items f = gueue_items g" by (simp_all add: f face_def items_def)
  show "net_ok G Y K (st\<lparr>ds_user := put_end ep f (ds_user st)\<rparr>)" by (rule net_put_end [OF ok m])
  show "calm UNIV st (st\<lparr>ds_user := put_end ep f (ds_user st)\<rparr>)" by (rule calm_put_end [OF e fc(1)])
  show "inbox (st\<lparr>ds_user := put_end ep f (ds_user st)\<rparr>) =
      (inbox st)(ep := map (\<lambda>m. letter (ds_store st) (the (n_msgs (ds_user st) m))) (gueue_items g))"
    using fc(2) by (simp add: inbox_def fun_eq_iff)
qed

lemma queue_mail_ok:
  assumes ok: "net_ok G X L st" and w: "waking_ok w" and d: "d < n_clients st"
    and m: "n_msgs (ds_user st) m = Some x" "m \<in> L" "m_to x = Some ep"
  shows "\<exists>e. n_ends (ds_user st) ep = Some e \<and>
    (if receives e
     then \<exists>st'. queue_message_katcp w d m st = Inr (0, st') \<and> net_ok G X (L - {m}) st' \<and> calm UNIV st st' \<and>
            inbox st' = (inbox st)(ep := inbox st ep @ [letter (ds_store st) x]) \<and> ds_store st' = ds_store st
     else \<exists>st'. queue_message_katcp w d m st = Inr (-1, st') \<and> net_ok G X L st' \<and> calm UNIV st st' \<and>
            inbox st' = inbox st)"
proof -
  have "ep \<in># links_of x" using m(3) by (simp add: links_of_def)
  then obtain e where e: "n_ends (ds_user st) ep = Some e" using mail_live [OF net_mail [OF ok] m(1)] by auto
  have env: "env_ok (w_env w)" using w by (simp add: waking_ok_def)
  note eo = mail_end [OF net_mail [OF ok] e]
  show ?thesis
  proof (cases "receives e")
    case False
    obtain st' where "log_only (w_env w) d 0 (''unable to send to endpoint '' @ w_pointer w ep @ '' in state 0x'' @
           hex_of_nat (unat (e_state e)) @ '' as it is not receiving'') (-1) st = Inr (-1, st')"
        "net_ok G X L st'" "calm UNIV st st'" "inbox st' = inbox st"
      using net_log [OF ok d env] by blast
    then show ?thesis using False e m
      by (simp add: queue_message_katcp_def message_at_def endpoint_at_def receives_def)
  next
    case True
    obtain g where g: "e_queue e = Some g" "gueue_inv g" "items e = gueue_items g" "queue_of e = Inr g"
      using end_queue [OF ok e] by blast
    have mem: "e_mem (w_env w) (ds_tick st) 31" using env by (simp add: env_ok_def)
    obtain g' where g': "add_tail_gueue_katcl True g (Some m) = Inr (0, g')" "gueue_inv g'"
        "gueue_items g' = gueue_items g @ [m]"
      using add_tail_refines [OF g(2), of True m] by auto
    let ?f = "e\<lparr>e_queue := Some g'\<rparr>"
    have up: "is_up e" by (rule receives_up [OF eo True])
    have f: "items ?f = items e @ [m]" "end_ok ?f" "e_refcount ?f = e_refcount e"
      using eo g g' up by (simp_all add: items_def end_ok_def is_up_def)
    have mail: "mail_ok X (L - {m}) (put_end ep ?f (ds_user st))"
      by (rule mail_enqueue [OF net_mail [OF ok] m e f])
    let ?st = "st\<lparr>ds_user := put_end ep ?f (ds_user st)\<rparr>"
    note r = net_requeue [OF ok e refl g'(2) mail]
    have "queue_message_katcp w d m st = Inr (0, tick ?st)"
      using True e m g g' mem by (simp add: queue_message_katcp_def message_at_def endpoint_at_def receives_def set_user Let_def)
    moreover have "inbox ?st = (inbox st)(ep := inbox st ep @ [letter (ds_store st) x])"
      using r(3) e g(3) g'(3) m(1) by (simp add: inbox_def waiting_def)
    moreover have "calm UNIV st (tick ?st)" using r(2) by (simp add: calm_def)
    ultimately show ?thesis using r(1) e True by (intro exI [of _ e]) (auto intro!: exI [of _ "tick ?st"] simp del: fun_upd_apply)
  qed
qed

text \<open>Sending: the message is at the end of the inbox of its destination, or nothing happened.\<close>

definition sends_as :: "endpoint option \<Rightarrow> bool" where
  "sends_as x = (case x of None \<Rightarrow> False | Some e \<Rightarrow> e_state e AND ENDPOINT_STATE_TX \<noteq> 0)"

lemma net_busy [simp]: "net_ok G X L (mark_busy_katcp st) = net_ok G X L st" "inbox (mark_busy_katcp st) = inbox st"
  "faces (mark_busy_katcp st) = faces st" "ds_store (mark_busy_katcp st) = ds_store st"
proof -
  have w: "waiting ((ds_user st)\<lparr>s_wanted := k\<rparr>) = waiting (ds_user st)" for k by (simp add: waiting_def fun_eq_iff)
  show "net_ok G X L (mark_busy_katcp st) = net_ok G X L st"
    by (simp add: net_ok_def mark_busy_katcp_def texts_def mail_ok_def counted_def placed_def shaped_def w)
  show "inbox (mark_busy_katcp st) = inbox st" by (simp add: inbox_def mark_busy_katcp_def w fun_eq_iff)
  show "faces (mark_busy_katcp st) = faces st" by (simp add: faces_def mark_busy_katcp_def fun_eq_iff)
  show "ds_store (mark_busy_katcp st) = ds_store st" by (simp add: mark_busy_katcp_def)
qed

lemma calm_busy [simp]: "calm M st (mark_busy_katcp st') = calm M st st'"
proof -
  have "n_clients (mark_busy_katcp st') = n_clients st'" "n_msgs (ds_user (mark_busy_katcp st')) = n_msgs (ds_user st')"
    "s_endpoints (ds_user (mark_busy_katcp st')) = s_endpoints (ds_user st')"
    "s_epcount (ds_user (mark_busy_katcp st')) = s_epcount (ds_user st')"
    by (simp_all add: mark_busy_katcp_def)
  then show ?thesis by (simp add: calm_def)
qed

lemma precedence_same:
  assumes "net_ok G X L st" "n_ends (ds_user st) ep \<noteq> None"
  shows "precedence_endpoint_katcp (Some ep) 0 st = Inr st"
proof -
  obtain x where x: "n_ends (ds_user st) ep = Some x" using assms(2) by auto
  have "x\<lparr>e_precedence := 0\<rparr> = x" using mail_end [OF net_mail [OF assms(1)] x] by (cases x) (simp add: end_ok_def)
  moreover have "put_end ep x (ds_user st) = ds_user st" using x by (simp add: put_end_def fun_upd_idem)
  ultimately show ?thesis using x by (simp add: precedence_endpoint_katcp_def on_endpoint_def endpoint_at_def set_user)
qed

lemma send_ok:
  assumes ok: "net_ok G X L st" and w: "waking_ok w" and d: "d < n_clients st"
    and dst: "n_ends (ds_user st) dst = Some e" and src: "\<And>a. src = Some a \<Longrightarrow> sends_as (n_ends (ds_user st) a)"
    and ne: "src \<noteq> Some dst" and ack: "ack \<Longrightarrow> src \<noteq> None"
    and px: "px \<in># G" "st_heap (ds_store st) px = Some q" "p_state q = PARSE_DONE"
    and reply: "has_type KATCP_REPLY (parse_args q) \<Longrightarrow> src \<noteq> None"
  shows "\<exists>st'. send_message_endpoint_katcp w d src (Some dst) (Some px) ack st = Inr (if receives e then 0 else -1, st') \<and>
    net_ok G X L st' \<and> calm UNIV st st' \<and>
    inbox st' = (if receives e then (inbox st)(dst := inbox st dst @ [(src, (parse_args q, p_tag q), ack)]) else inbox st)"
proof -
  have live: "n_ends (ds_user st) a \<noteq> None" if "src = Some a" for a using src [OF that] by (auto simp: sends_as_def split: option.splits)
  have may: "(case src of None \<Rightarrow> Inr ()
      | Some f \<Rightarrow> bind_res (endpoint_at f st) (\<lambda>x. if e_state x AND ENDPOINT_STATE_TX = 0 then Inl Abort else Inr ())) = Inr ()"
    using src by (cases src) (auto simp: sends_as_def endpoint_at_def split: option.splits)
  obtain m x st1 where c: "create_message_katcp w src dst (Some px) ack st = Inr (Some m, st1)" "m \<notin> L" "n_msgs (ds_user st) m = None"
      "net_ok G X (insert m L) st1" "calm UNIV st st1" "inbox st1 = inbox st" "n_msgs (ds_user st1) m = Some x"
      "m_to x = Some dst" "letter (ds_store st1) x = (src, (parse_args q, p_tag q), ack)"
      "\<exists>n. st_heap (ds_store st1) px = Some (q\<lparr>p_refs := n\<rparr>)"
    using create_message_ok [OF ok w live _ ne ack px] dst by blast
  have d1: "d < n_clients st1" using d c(5) by (simp add: calm_def)
  have same: "faces st1 = faces st" using c(5) by (simp add: calm_def)
  have live1: "n_ends (ds_user st1) a \<noteq> None" if "src = Some a" for a by (rule faces_live [OF same live [OF that]])
  obtain e1 where e1: "n_ends (ds_user st1) dst = Some e1" "receives e1 = receives e"
  proof -
    obtain e1 where "n_ends (ds_user st1) dst = Some e1" "face e1 = face e"
      using fun_cong [OF same, of dst] dst by (auto simp: faces_def)
    then show thesis using that face_state unfolding receives_def by metis
  qed
  have rest: "insert m L - {m} = L" using c(2) by simp
  have "m \<in> insert m L" by simp
  note qd = queue_mail_ok [OF c(4) w d1 c(7) this c(8)]
  have new: "calm UNIV st st2" if "calm (- {m}) st st2" for st2
    using that c(3) unfolding calm_def by (metis ComplI option.distinct(1) singletonD)
  show ?thesis
  proof (cases "receives e")
    case False
    then obtain st2 where q: "queue_message_katcp w d m st1 = Inr (-1, st2)" "net_ok G X (insert m L) st2"
        "calm UNIV st1 st2" "inbox st2 = inbox st1"
      using qd e1 by auto
    have "n_msgs (ds_user st2) m = Some x" using q(3) c(7) by (simp add: calm_def)
    then obtain st3 where k: "destroy_message_katcp m st2 = Inr st3" "net_ok G X L st3" "calm (- {m}) st2 st3"
        "inbox st3 = inbox st2"
      using destroy_message_ok [OF q(2), of m x] rest by auto
    have "calm UNIV st st3"
      using new [OF calm_then(1) [OF calm_then(1) [OF c(5) q(3)] k(3)]] by simp
    then show ?thesis using False c(1,6) q(1,4) k ne may by (simp add: send_message_endpoint_katcp_def)
  next
    case True
    then obtain st2 where q: "queue_message_katcp w d m st1 = Inr (0, st2)" "net_ok G X L st2"
        "calm UNIV st1 st2" "inbox st2 = (inbox st1)(dst := inbox st1 dst @ [letter (ds_store st1) x])"
        "ds_store st2 = ds_store st1"
      using qd e1 rest by auto
    let ?st3 = "mark_busy_katcp st2"
    obtain k where k: "st_heap (ds_store ?st3) px = Some (q\<lparr>p_refs := k\<rparr>)" using c(10) q(5) by auto
    have ok3: "net_ok G X L ?st3" using q(2) by simp
    have "px \<in># texts (ds_user ?st3) + G" using px(1) by simp
    then have inv: "parse_inv (q\<lparr>p_refs := k\<rparr>)"
      using disp_held [OF net_disp [OF ok3, THEN conjunct1] net_disp [OF ok3, THEN conjunct2]] k by fastforce
    have pr: "precedence_endpoint_katcp src ENDPOINT_PRECEDENCE_LOW ?st3 = Inr ?st3" if t: "has_type KATCP_REPLY (parse_args q)"
    proof -
      obtain a where a: "src = Some a" using reply [OF t] by auto
      have "faces ?st3 = faces st1" using q(3) by (simp add: calm_def)
      then have "n_ends (ds_user ?st3) a \<noteq> None" using faces_live live1 [OF a] by metis
      then show ?thesis using precedence_same [OF ok3] a by (simp add: ENDPOINT_PRECEDENCE_LOW_def)
    qed
    have "calm UNIV st ?st3" using calm_then(1) [OF c(5) q(3)] by simp
    moreover have "send_message_endpoint_katcp w d src (Some dst) (Some px) ack st = Inr (0, ?st3)"
      using c(1) q(1) ne may k inv pr
      by (auto simp: send_message_endpoint_katcp_def sane_parse_katcl_def deref_def request_text Let_def)
    ultimately show ?thesis using True ok3 q(4) c(6,9) by simp
  qed
qed

section \<open>Answering and flushing\<close>

text \<open>What becomes of a letter that is given up with a code and a text: its sender, if it waits for
  an answer and still receives, gets a reply from the endpoint.\<close>

definition given_up :: "nat \<Rightarrow> int \<Rightarrow> string option \<Rightarrow> letter \<Rightarrow> letter" where
  "given_up ep code extra a =
     (Some ep, (reply_words (fst (fst (snd a))) (the (misc_result_table ! nat (- code))) extra, -1), False)"

definition hears :: "'u net \<Rightarrow> nat \<Rightarrow> bool" where
  "hears st ep \<longleftrightarrow> (case faces st ep of None \<Rightarrow> False | Some e \<Rightarrow> receives e)"

definition returned :: "'u net \<Rightarrow> nat \<Rightarrow> int \<Rightarrow> string option \<Rightarrow> nat \<Rightarrow> letter \<Rightarrow> letter list" where
  "returned st ep code extra to a =
     (if fst a = Some to \<and> snd (snd a) \<and> has_type KATCP_REQUEST (fst (fst (snd a))) \<and> hears st to
      then [given_up ep code extra a] else [])"

lemma calm_hears: "calm M st st' \<Longrightarrow> hears st' = hears st"
  by (simp add: calm_def hears_def fun_eq_iff)

lemma turn_message_ok:
  assumes ok: "net_ok G X L st" and w: "waking_ok w" and d: "d < n_clients st"
    and m: "n_msgs (ds_user st) m = Some x" "m \<in> L" "m_to x = Some ep"
    and code: "-3 \<le> code" "code \<le> 0" and req: "has_type KATCP_REQUEST (fst (words_at (ds_store st) (m_parse x)))"
  shows "\<exists>v st'. turnaround_endpoint_katcp w d ep m code extra st = Inr (v, st') \<and> net_ok G X (L - {m}) st' \<and>
    calm (- {m}) st st' \<and>
    inbox st' = (\<lambda>to. inbox st to @ returned st ep code extra to (letter (ds_store st) x))"
proof (cases "wants_reply x")
  case False
  then have "returned st ep code extra to (letter (ds_store st) x) = []" for to by (simp add: returned_def letter_def)
  moreover obtain st' where "destroy_message_katcp m st = Inr st'" "net_ok G X (L - {m}) st'" "calm (- {m}) st st'"
      "inbox st' = inbox st"
    using destroy_message_ok [OF ok m(1,2)] by blast
  ultimately show ?thesis using False m
    by (simp add: turnaround_endpoint_katcp_def vturnaround_endpoint_katcp_def message_at_def wants_reply_def)
next
  case True
  note mail = net_mail [OF ok]
  have mok: "msg_ok x" by (rule mail_msg [OF mail m(1)])
  then obtain a where a: "m_from x = Some a" "a \<noteq> ep" using True m(3) by (auto simp: msg_ok_def)
  obtain p q where p: "m_parse x = Some p" "st_heap (ds_store st) p = Some q" "p_state q = PARSE_DONE" "parse_inv q"
      "texts (ds_user st) = add_mset p (texts (put_msg m None (ds_user st)))"
    using net_texts [OF ok m(1)] by blast
  let ?u0 = "put_msg m None (ds_user st)" and ?mem = "\<lambda>i. e_mem (w_env w) (ds_tick st) (i + 40)"
  have rq: "has_type KATCP_REQUEST (parse_args q)" using req p by (simp add: words_at_def)
  have mem: "\<forall>i. ?mem i" using w by (simp add: waking_ok_def env_ok_def)
  obtain cname where cname: "code_to_name_katcm code = Inr (Some cname)" "misc_result_table ! nat (- code) = Some cname"
    using code_to_name_range [OF code] by blast
  have d0: "disp_ok (add_mset p (texts ?u0 + G)) st" "0 < n_clients st" using net_disp [OF ok] p(5) by simp_all
  obtain b s r where t: "turnaround_extra_parse_katcl ?mem p code extra (ds_store st) = Inr (Some b, s)"
      "disp_ok (add_mset b (texts ?u0 + G)) (st\<lparr>ds_store := s\<rparr>)" "same_msgs (ds_store st) s (texts ?u0 + G)"
      "st_heap s b = Some r" "p_state r = PARSE_DONE"
      "parse_args r = reply_words (parse_args q) cname extra" "p_tag r = -1"
    using turn_text [OF d0 p(2,3) rq cname(1) mem, of extra] by blast
  let ?y = "x\<lparr>m_parse := Some b, m_to := m_from x, m_from := m_to x, m_flags := m_flags x AND NOT KATCP_MESSAGE_WACK\<rparr>"
  define t1 where "t1 = set_message m (Some ?y) (tick st\<lparr>ds_store := s\<rparr>)"
  have t1: "ds_user t1 = put_msg m (Some ?y) (ds_user st)" "ds_store t1 = s" "n_clients t1 = n_clients st"
    by (simp_all add: t1_def set_user)
  have wr: "\<not> wants_reply ?y" by (simp add: wants_reply_def KATCP_MESSAGE_WACK_def and.assoc)
  have my: "msg_ok ?y" "links_of ?y = links_of x" using a m(3) mok wr by (auto simp: msg_ok_def links_of_def)
  have mail1: "mail_ok X L (put_msg m (Some ?y) (ds_user st))" by (rule mail_change [OF mail m(1,2) my])
  have tx: "texts (ds_user t1) = add_mset b (texts ?u0)"
    using gather_put [OF mail_finite [OF mail], of "\<lambda>x. opt_refs (m_parse x)" m ?y] by (simp add: texts_def t1)
  have each: "good_text s z \<and> letter s z = letter (ds_store st) z" if z: "n_msgs (ds_user st) k = Some z" "k \<noteq> m" for k z
  proof -
    have "n_msgs ?u0 k = Some z" using z by simp
    then have "c \<in># texts ?u0 + G" if "m_parse z = Some c" for c
      using text_member [OF mail_drop [OF mail m(1,2)] _ that] by simp
    then show ?thesis using letter_same [OF net_text [OF ok z(1)] t(3)] by blast
  qed
  have "disp_ok (texts (ds_user t1) + G) t1" using t(2) tx by (simp add: t1_def set_user)
  moreover have "good_text s ?y" using t(4,5) by (simp add: good_text_def)
  ultimately have ok1: "net_ok G X L t1"
    using mail1 each t1 net_disp [OF ok] by (auto simp: net_ok_def split: if_splits)
  have in1: "inbox t1 = inbox st" using inbox_loose [OF ok m(2) t1(1)] each t1(2) by simp
  have c1: "calm (- {m}) st t1" using each t1 by (auto simp: calm_def faces_def fun_eq_iff put_msg_def)
  have ly: "letter s ?y = given_up ep code extra (letter (ds_store st) x)"
    using t(4,6,7) p(1,2) m(3) cname(2) wr by (simp add: letter_def words_at_def given_up_def wants_reply_def)
  have m1: "n_msgs (ds_user t1) m = Some ?y" "m_to ?y = Some a" using a by (simp_all add: t1)
  obtain e where e: "n_ends (ds_user t1) a = Some e"
    "if receives e
     then \<exists>st'. queue_message_katcp w d m t1 = Inr (0, st') \<and> net_ok G X (L - {m}) st' \<and> calm UNIV t1 st' \<and>
            inbox st' = (inbox t1)(a := inbox t1 a @ [letter (ds_store t1) ?y]) \<and> ds_store st' = ds_store t1
     else \<exists>st'. queue_message_katcp w d m t1 = Inr (-1, st') \<and> net_ok G X L st' \<and> calm UNIV t1 st' \<and>
            inbox st' = inbox t1"
    using queue_mail_ok [OF ok1 w _ m1(1) m(2) m1(2)] d t1(3) by auto
  have h: "hears st a = receives e"
    using e(1) t1(1) by (simp add: hears_def faces_def face_def receives_def)
  have go: "turnaround_endpoint_katcp w d ep m code extra st =
      bind_res (queue_message_katcp w d m t1) (\<lambda>(r, st2).
        if r < 0 then bind_res (destroy_message_katcp m st2) (\<lambda>st3. Inr (-1, st3)) else Inr (0, st2))"
    using True m a p(1) t(1)
    by (simp add: turnaround_endpoint_katcp_def vturnaround_endpoint_katcp_def message_at_def wants_reply_def Let_def t1_def)
  show ?thesis
  proof (cases "receives e")
    case True
    then obtain st' where q: "queue_message_katcp w d m t1 = Inr (0, st')" "net_ok G X (L - {m}) st'" "calm UNIV t1 st'"
            "inbox st' = (inbox t1)(a := inbox t1 a @ [letter (ds_store t1) ?y])"
      using e(2) by auto
    have "returned st ep code extra to (letter (ds_store st) x) =
        (if to = a then [given_up ep code extra (letter (ds_store st) x)] else [])" for to
      using \<open>wants_reply x\<close> a(1) req h True by (auto simp: returned_def letter_def)
    then show ?thesis using go q calm_then(2) [OF c1 q(3)] in1 ly t1(2) by (auto simp: fun_eq_iff)
  next
    case False
    then obtain st2 where q: "queue_message_katcp w d m t1 = Inr (-1, st2)" "net_ok G X L st2" "calm UNIV t1 st2"
            "inbox st2 = inbox t1"
      using e(2) by auto
    have "n_msgs (ds_user st2) m = Some ?y" using q(3) m1(1) by (simp add: calm_def)
    then obtain st3 where k: "destroy_message_katcp m st2 = Inr st3" "net_ok G X (L - {m}) st3" "calm (- {m}) st2 st3"
        "inbox st3 = inbox st2"
      using destroy_message_ok [OF q(2) _ m(2)] by blast
    have "returned st ep code extra to (letter (ds_store st) x) = []" for to
      using a(1) h False by (auto simp: returned_def letter_def)
    moreover have "calm (- {m}) st st3"
      using calm_trans [OF calm_then(2) [OF c1 q(3)] k(3), of "- {m}"] by simp
    ultimately show ?thesis using go q(1,4) k in1 by simp
  qed
qed

text \<open>Taking a message out of the queue it waits in.\<close>

lemma take_step:
  assumes ok: "net_ok G X L st" and e: "n_ends (ds_user st) ep = Some e" "m \<in> set (waiting (ds_user st) ep)"
    and g: "gueue_inv g'" "gueue_items g' = remove1 m (items e)"
  defines "st' \<equiv> st\<lparr>ds_user := put_end ep (e\<lparr>e_queue := Some g'\<rparr>) (ds_user st)\<rparr>"
  shows "net_ok G X (insert m L) st'" "calm UNIV st st'" "m \<notin> L"
    "inbox st' = (inbox st)(ep := map (\<lambda>k. letter (ds_store st) (the (n_msgs (ds_user st) k))) (remove1 m (items e)))"
    "\<exists>x. n_msgs (ds_user st') m = Some x \<and> n_msgs (ds_user st) m = Some x \<and> m_to x = Some ep \<and> m_from x \<noteq> Some ep"
proof -
  note mail = net_mail [OF ok]
  let ?f = "e\<lparr>e_queue := Some g'\<rparr>"
  have it: "m \<in> set (items e)" using e by (simp add: waiting_def)
  have "is_up e" using mail_end [OF mail e(1)] it by (auto simp: end_ok_def)
  then have f: "items ?f = remove1 m (items e)" "end_ok ?f" "e_refcount ?f = e_refcount e"
    using mail_end [OF mail e(1)] g by (simp_all add: end_ok_def items_def is_up_def)
  have m: "mail_ok X (insert m L) (put_end ep ?f (ds_user st))" by (rule mail_take [OF mail e(1) it f])
  note r = net_requeue [OF ok e(1) refl g(1) m]
  show "net_ok G X (insert m L) st'" "calm UNIV st st'" using r(1,2) by (simp_all add: st'_def)
  show "inbox st' = (inbox st)(ep := map (\<lambda>k. letter (ds_store st) (the (n_msgs (ds_user st) k))) (remove1 m (items e)))"
    using r(3) g(2) by (simp add: st'_def)
  obtain x where x: "m \<notin> L" "n_msgs (ds_user st) m = Some x" "m_to x = Some ep" using mail_member [OF mail e(2)] by auto
  show "m \<notin> L" by (rule x(1))
  have "m_from x \<noteq> Some ep" using mail_msg [OF mail x(2)] x(3) by (auto simp: msg_ok_def)
  then show "\<exists>x. n_msgs (ds_user st') m = Some x \<and> n_msgs (ds_user st) m = Some x \<and> m_to x = Some ep \<and> m_from x \<noteq> Some ep"
    using x by (simp add: st'_def)
qed

lemma request_message:
  assumes "net_ok G X L st" "n_msgs (ds_user st) m = Some x"
  shows "is_request_message (m_parse x) st = Inr (has_type KATCP_REQUEST (fst (words_at (ds_store st) (m_parse x))))"
  using net_texts [OF assms] request_text
  by (auto simp: is_request_message_def sane_parse_katcl_def deref_def words_at_def)

text \<open>Giving up a message that has been taken: answered if it is a request, dropped otherwise.\<close>

lemma give_up_ok:
  assumes ok: "net_ok G X (insert m L) st" and w: "waking_ok w" and d: "d < n_clients st"
    and m: "n_msgs (ds_user st) m = Some x" "m \<notin> L" "m_to x = Some ep" and code: "-3 \<le> code" "code \<le> 0"
  shows "\<exists>st'. bind_res (message_at m st) (\<lambda>mx. bind_res (is_request_message (m_parse mx) st) (\<lambda>request.
        if request then bind_res (turnaround_endpoint_katcp w d ep m code extra st) (\<lambda>(_, st2). Inr (True, st2))
        else bind_res (destroy_message_katcp m st) (\<lambda>st2. Inr (True, st2)))) = Inr (True, st') \<and>
    net_ok G X L st' \<and> calm (- {m}) st st' \<and>
    inbox st' = (\<lambda>to. inbox st to @ returned st ep code extra to (letter (ds_store st) x))"
proof -
  have L: "insert m L - {m} = L" "m \<in> insert m L" using m(2) by auto
  note r = request_message [OF ok m(1)]
  show ?thesis
  proof (cases "has_type KATCP_REQUEST (fst (words_at (ds_store st) (m_parse x)))")
    case True
    then show ?thesis using turn_message_ok [OF ok w d m(1) L(2) m(3) code True, of extra] r m(1) L(1)
      by (auto simp: message_at_def)
  next
    case False
    then have "returned st ep code extra to (letter (ds_store st) x) = []" for to by (simp add: returned_def letter_def)
    then show ?thesis using destroy_message_ok [OF ok m(1) L(2)] r m(1) L(1) False by (auto simp: message_at_def)
  qed
qed

lemma returned_calm: "calm M st st' \<Longrightarrow> returned st' = returned st"
  by (simp add: returned_def calm_hears fun_eq_iff)

lemma flush_loop_ok:
  assumes "net_ok G X L st" "waking_ok w" "d < n_clients st" "n_ends (ds_user st) ep \<noteq> None" "length (inbox st ep) < n"
  shows "\<exists>st'. flush_loop n w d ep c st = Some (Inr (c + length (inbox st ep), st')) \<and> net_ok G X L st' \<and>
    calm {} st st' \<and>
    inbox st' = (\<lambda>to. if to = ep then []
      else inbox st to @ concat (map (returned st ep (-1) (Some ''handler detached'') to) (inbox st ep)))"
  using assms
proof (induction n arbitrary: st c)
  case 0
  from 0(5) show ?case by simp
next
  case (Suc n)
  obtain e where e: "n_ends (ds_user st) ep = Some e" using Suc.prems(4) by auto
  obtain g where g: "e_queue e = Some g" "gueue_inv g" "items e = gueue_items g" "queue_of e = Inr g"
    using end_queue [OF Suc.prems(1) e] by blast
  obtain g' where g': "remove_head_gueue_katcl g = Inr (fst (list_deq (items e)), g')" "gueue_inv g'"
      "gueue_items g' = snd (list_deq (items e))"
    using remove_head_refines [OF g(2)] g(3) by auto
  have w: "waiting (ds_user st) ep = items e" using e by (simp add: waiting_def)
  let ?st1 = "st\<lparr>ds_user := put_end ep (e\<lparr>e_queue := Some g'\<rparr>) (ds_user st)\<rparr>"
  show ?case
  proof (cases "items e")
    case Nil
    then have i: "inbox st ep = []" using w by (simp add: inbox_def)
    have "gueue_items g' = items e" using g'(3) Nil by (simp add: list_deq_def)
    then have f: "end_ok (e\<lparr>e_queue := Some g'\<rparr>)" "items (e\<lparr>e_queue := Some g'\<rparr>) = items e"
      using mail_end [OF net_mail [OF Suc.prems(1)] e] g' by (simp_all add: end_ok_def items_def is_up_def)
    have "mail_ok X L (put_end ep (e\<lparr>e_queue := Some g'\<rparr>) (ds_user st))"
      by (rule mail_put_end [OF net_mail [OF Suc.prems(1)] e f]) simp
    from net_requeue [OF Suc.prems(1) e refl g'(2) this] have 1: "net_ok G X L ?st1" "calm UNIV st ?st1"
      "inbox ?st1 = inbox st"
      using i g'(3) Nil by (auto simp: list_deq_def fun_eq_iff)
    have "flush_loop (Suc n) w d ep c st = Some (Inr (c, ?st1))"
      using e g(4) g'(1) Nil by (simp add: endpoint_at_def set_user list_deq_def)
    then show ?thesis using 1 i calm_mono [OF 1(2), of "{}"] by (auto simp: fun_eq_iff)
  next
    case (Cons m ms)
    have mw: "m \<in> set (waiting (ds_user st) ep)" using w Cons by simp
    have q: "gueue_items g' = remove1 m (items e)" using g'(3) Cons by (simp add: list_deq_def)
    note t = take_step [OF Suc.prems(1) e mw g'(2) q]
    obtain x where x: "n_msgs (ds_user ?st1) m = Some x" "n_msgs (ds_user st) m = Some x" "m_to x = Some ep" "m_from x \<noteq> Some ep"
      using t(5) by blast
    let ?a = "letter (ds_store st) x"
    have i: "inbox st ep = ?a # map (\<lambda>k. letter (ds_store st) (the (n_msgs (ds_user st) k))) ms"
      using w Cons x(2) by (simp add: inbox_def)
    have i1: "inbox ?st1 = (inbox st)(ep := tl (inbox st ep))" using t(4) i Cons by simp
    have d1: "d < n_clients ?st1" using Suc.prems(3) by simp
    obtain st2 where 2: "bind_res (message_at m ?st1) (\<lambda>mx. bind_res (is_request_message (m_parse mx) ?st1) (\<lambda>request.
        if request then bind_res (turnaround_endpoint_katcp w d ep m KATCP_RESULT_FAIL (Some ''handler detached'') ?st1) (\<lambda>(_, st2). Inr (True, st2))
        else bind_res (destroy_message_katcp m ?st1) (\<lambda>st2. Inr (True, st2)))) = Inr (True, st2)"
      "net_ok G X L st2" "calm (- {m}) ?st1 st2"
      "inbox st2 = (\<lambda>to. inbox ?st1 to @ returned ?st1 ep (-1) (Some ''handler detached'') to (letter (ds_store ?st1) x))"
      using give_up_ok [OF t(1) Suc.prems(2) d1 x(1) t(3) x(3), of KATCP_RESULT_FAIL "Some ''handler detached''"]
      by (auto simp: KATCP_RESULT_FAIL_def)
    have c2: "calm (- {m}) st st2" by (rule calm_then(1) [OF t(2) 2(3)])
    have r: "returned ?st1 = returned st" by (rule returned_calm [OF t(2)])
    have i2: "inbox st2 ep = tl (inbox st ep)" "to \<noteq> ep \<Longrightarrow>
        inbox st2 to = inbox st to @ returned st ep (-1) (Some ''handler detached'') to ?a" for to
      using 2(4) i1 r x(4) by (simp_all add: returned_def letter_def)
    have live: "n_ends (ds_user st2) ep \<noteq> None" using faces_live [of st2 st ep] c2 Suc.prems(4) by (simp add: calm_def)
    have d2: "d < n_clients st2" using c2 Suc.prems(3) by (simp add: calm_def)
    have len: "length (inbox st2 ep) < n" using i2(1) Suc.prems(5) i by simp
    obtain st3 where 3: "flush_loop n w d ep (c + 1) st2 = Some (Inr (c + 1 + length (inbox st2 ep), st3))"
        "net_ok G X L st3" "calm {} st2 st3"
        "inbox st3 = (\<lambda>to. if to = ep then []
          else inbox st2 to @ concat (map (returned st2 ep (-1) (Some ''handler detached'') to) (inbox st2 ep)))"
      using Suc.IH [OF 2(2) Suc.prems(2) d2 live len, of "c + 1"] by blast
    have "flush_loop (Suc n) w d ep c st = flush_loop n w d ep (c + 1) st2"
      using e g(4) g'(1) Cons 2(1) by (simp add: endpoint_at_def set_user list_deq_def)
    moreover have "c + 1 + length (inbox st2 ep) = c + length (inbox st ep)" using i2(1) i by simp
    moreover have "calm {} st st3" using calm_trans [OF c2 3(3)] by simp
    moreover have "inbox st3 to = (if to = ep then []
        else inbox st to @ concat (map (returned st ep (-1) (Some ''handler detached'') to) (inbox st ep)))" for to
      unfolding 3(4) returned_calm [OF c2] using i2(2) [of to] i unfolding i2(1) by simp
    ultimately show ?thesis using 3(1,2) by (intro exI [of _ st3]) (simp add: fun_eq_iff del: flush_loop.simps)
  qed
qed

lemma net_epcount [simp]: "net_ok G X L (st\<lparr>ds_user := (ds_user st)\<lparr>s_epcount := k\<rparr>\<rparr>) = net_ok G X L st"
  "inbox (st\<lparr>ds_user := (ds_user st)\<lparr>s_epcount := k\<rparr>\<rparr>) = inbox st"
  "faces (st\<lparr>ds_user := (ds_user st)\<lparr>s_epcount := k\<rparr>\<rparr>) = faces st"
proof -
  have w: "waiting ((ds_user st)\<lparr>s_epcount := k\<rparr>) = waiting (ds_user st)" by (simp add: waiting_def fun_eq_iff)
  show "net_ok G X L (st\<lparr>ds_user := (ds_user st)\<lparr>s_epcount := k\<rparr>\<rparr>) = net_ok G X L st"
    by (simp add: net_ok_def texts_def mail_ok_def counted_def placed_def shaped_def w)
  show "inbox (st\<lparr>ds_user := (ds_user st)\<lparr>s_epcount := k\<rparr>\<rparr>) = inbox st" by (simp add: inbox_def w fun_eq_iff)
  show "faces (st\<lparr>ds_user := (ds_user st)\<lparr>s_epcount := k\<rparr>\<rparr>) = faces st" by (simp add: faces_def fun_eq_iff)
qed

text \<open>A change of an endpoint that keeps its queue and its references.\<close>

lemma net_set_end:
  assumes "net_ok G X L st" "n_ends (ds_user st) ep = Some x" "end_ok y" "items y = items x" "e_refcount y = e_refcount x"
  shows "net_ok G X L (st\<lparr>ds_user := put_end ep y (ds_user st)\<rparr>)"
    "inbox (st\<lparr>ds_user := put_end ep y (ds_user st)\<rparr>) = inbox st"
    "faces (st\<lparr>ds_user := put_end ep y (ds_user st)\<rparr>) = (faces st)(ep \<mapsto> face y)"
  using net_put_end [OF assms(1) mail_put_end [OF net_mail [OF assms(1)] assms(2-5)]] inbox_put_end [OF assms(2,4)]
  by (simp_all add: faces_def fun_eq_iff)

lemma release_ok:
  assumes ok: "net_ok G X L st" and w: "waking_ok w" and d: "d < n_clients st"
    and e: "n_ends (ds_user st) ep = Some e" "is_up e" and n: "length (inbox st ep) < n"
  shows "\<exists>st'. release_endpoint_katcp n w d ep st = Some (Inr (length (inbox st ep), st')) \<and> net_ok G X L st' \<and>
    (\<forall>to. inbox st' to = (if to = ep then []
      else inbox st to @ concat (map (returned st ep (-1) (Some ''handler detached'') to) (inbox st ep)))) \<and>
    (\<exists>f. n_ends (ds_user st') ep = Some f \<and> e_state f = ENDPOINT_STATE_GONE) \<and>
    (\<forall>to. to \<noteq> ep \<longrightarrow> faces st' to = faces st to)"
proof -
  let ?y = "e\<lparr>e_wake := None, e_release := None, e_data := None\<rparr>"
  let ?st1 = "st\<lparr>ds_user := put_end ep ?y (ds_user st)\<rparr>"
  have y: "end_ok ?y" "items ?y = items e" "e_refcount ?y = e_refcount e"
    using mail_end [OF net_mail [OF ok] e(1)] e(2) by (simp_all add: end_ok_def items_def is_up_def)
  note s = net_set_end [OF ok e(1) y]
  have n1: "length (inbox ?st1 ep) < n" "n_ends (ds_user ?st1) ep \<noteq> None" "d < n_clients ?st1" using n d s(2) by simp_all
  obtain st2 where f: "flush_loop n w d ep 0 ?st1 = Some (Inr (0 + length (inbox ?st1 ep), st2))" "net_ok G X L st2"
      "calm {} ?st1 st2"
      "inbox st2 = (\<lambda>to. if to = ep then []
        else inbox ?st1 to @ concat (map (returned ?st1 ep (-1) (Some ''handler detached'') to) (inbox ?st1 ep)))"
    using flush_loop_ok [OF s(1) w n1(3,2,1), of 0] by blast
  have f2: "faces st2 = faces ?st1" using f(3) by (simp add: calm_def)
  obtain e2 where e2: "n_ends (ds_user st2) ep = Some e2" "face e2 = face ?y"
    using fun_cong [OF f2, of ep] s(3) by (auto simp: faces_def)
  have rel: "e_release e2 = None" using arg_cong [OF e2(2), of e_release] by (simp add: face_def)
  have empty: "items e2 = []" using fun_cong [OF f(4), of ep] e2(1) by (simp add: inbox_def waiting_def)
  let ?z = "e2\<lparr>e_state := ENDPOINT_STATE_GONE\<rparr>"
  have z: "end_ok ?z" "items ?z = items e2" "e_refcount ?z = e_refcount e2"
    using mail_end [OF net_mail [OF f(2)] e2(1)] empty rel by (auto simp: end_ok_def items_def)
  note s3 = net_set_end [OF f(2) e2(1) z]
  let ?st3 = "st2\<lparr>ds_user := put_end ep ?z (ds_user st2)\<rparr>"
  let ?st4 = "?st3\<lparr>ds_user := (ds_user ?st3)\<lparr>s_epcount := s_epcount (ds_user ?st3) - 1\<rparr>\<rparr>"
  have up: "e_state e AND ENDPOINT_STATE_UP \<noteq> 0" using e(2) by (simp add: is_up_def)
  have "on_endpoint ep (\<lambda>x. x\<lparr>e_state := ENDPOINT_STATE_GONE\<rparr>) st2 = Inr ?st3"
    using e2(1) by (simp add: on_endpoint_def endpoint_at_def set_user)
  then have "release_endpoint_katcp n w d ep st = Some (Inr (length (inbox st ep), ?st4))"
    using up e(1) f(1) s(2)
    by (simp add: release_endpoint_katcp_def flush_endpoint_katcp_def endpoint_at_def set_user del: flush_loop.simps)
  moreover have "net_ok G X L ?st4" using s3(1) by (simp only: net_epcount)
  moreover have "inbox ?st4 to = (if to = ep then []
      else inbox st to @ concat (map (returned st ep (-1) (Some ''handler detached'') to) (inbox st ep)))" for to
  proof -
    have h: "returned ?st1 ep (-1) (Some ''handler detached'') to a = returned st ep (-1) (Some ''handler detached'') to a"
      if "to \<noteq> ep" for a using that s(3) by (simp add: returned_def hears_def)
    have "inbox ?st4 to = inbox st2 to" using s3(2) by (simp only: net_epcount)
    then show ?thesis using h unfolding f(4) s(2) by (auto intro!: arg_cong [where f = concat])
  qed
  moreover have "n_ends (ds_user ?st4) ep = Some ?z" by simp
  moreover have "faces ?st4 to = faces st to" if "to \<noteq> ep" for to
  proof -
    have "faces ?st4 to = faces ?st3 to" by (simp only: net_epcount)
    then show ?thesis using that s3(3) s(3) f2 by simp
  qed
  ultimately show ?thesis by (intro exI [of _ ?st4] conjI) (auto simp del: net_epcount)
qed

section \<open>A network of two endpoints\<close>

definition sample_end :: endpoint where
  "sample_end = \<lparr>e_freeable = True, e_state = 7, e_refcount = 0,
     e_queue = create_precedence_gueue_katcl True False None, e_precedence = 0, e_wake = Some 0,
     e_release = None, e_data = None, e_fast_flush = False, e_flush_runs = 0, e_flush_messages = 0\<rparr>"

definition sample_with :: "parse \<Rightarrow> unit net" where
  "sample_with p =
     \<lparr>ds_all = [\<lparr>d_level = 2, d_run = 1, d_exit = KATCP_EXIT_ABORT, d_pause = 0, d_line = fresh_line 3 0,
                 d_current = None, d_count = 0\<rparr>],
      ds_store = \<lparr>st_heap = [0 \<mapsto> fresh_parse\<lparr>p_refs := 1\<rparr>, 1 \<mapsto> p\<lparr>p_refs := 1\<rparr>], st_fresh = 2\<rparr>,
      s_clients = [0], s_count = 0, s_template = 0, s_commands = [], s_mode = 0,
      s_vector = [None], s_default = 2, s_prehook = None, s_posthook = None, ds_tick = 0,
      ds_user = \<lparr>s_endpoints = [6, 5], s_epcount = 2, s_wanted = 0, n_ends = [5 \<mapsto> sample_end, 6 \<mapsto> sample_end],
        n_msgs = Map.empty, n_fresh = 7, n_user = ()\<rparr>\<rparr>"

definition sample_net :: "unit net" where
  "sample_net = sample_with request_msg"

lemmas sample_defs = sample_net_def sample_with_def

definition sample_waking :: "unit waking" where
  "sample_waking = \<lparr>w_env = sample_env, w_wake = (\<lambda>f d ep m data st. Inr (KATCP_RESULT_OK, st)),
     w_release = (\<lambda>f d data st. Inr st), w_pointer = (\<lambda>_. [])\<rparr>"

lemma sample_end: "end_ok sample_end" "items sample_end = []" "receives sample_end" "is_up sample_end"
  "sends_as (Some sample_end)"
  using create_gueue_refines [of True False None]
  by (auto simp: sample_end_def end_ok_def items_def receives_def is_up_def sends_as_def ENDPOINT_STATE_UP_def
      ENDPOINT_STATE_RX_def ENDPOINT_STATE_TX_def create_precedence_gueue_katcl_def)

lemma sample_with_ok:
  assumes "parse_inv p"
  shows "net_ok {#1#} {#} {} (sample_with p)" "n_clients (sample_with p) = 1"
proof -
  let ?s = "ds_store (sample_with p)" and ?u = "ds_user (sample_with p)"
  have refs: "refs_ok ?s {#0, 1#}"
    using blank_fresh assms by (auto simp: refs_ok_def sample_with_def blank_def)
  have "line_ok ?s (fresh_line 3 0) {#1#}"
    using refs pq_empty by (simp add: line_ok_def fresh_line_def line_refs_def sample_with_def fresh_parse_def add_mset_commute)
  then have "disp_ok {#1#} (sample_with p)"
    using fresh_output(1)
    by (simp add: disp_ok_def sample_with_def n_clients_def lines_ok_def rest_refs_def all_refs_def)
  moreover have "mail_ok {#} {} ?u"
  proof -
    have ends: "n_ends ?u = [5 \<mapsto> sample_end, 6 \<mapsto> sample_end]" "n_msgs ?u = Map.empty" "s_endpoints ?u = [6, 5]" "n_fresh ?u = 7"
      by (simp_all add: sample_with_def)
    have "waiting ?u ep = []" for ep using sample_end(2) by (simp add: waiting_def ends)
    moreover have "e_refcount sample_end = 0" by (simp add: sample_end_def)
    ultimately show ?thesis using sample_end(1)
      by (auto simp: mail_ok_def counted_def placed_def shaped_def ends gather_def)
  qed
  ultimately show "net_ok {#1#} {#} {} (sample_with p)"
    by (simp add: net_ok_def texts_def gather_def sample_with_def n_clients_def)
  show "n_clients (sample_with p) = 1" by (simp add: sample_with_def n_clients_def)
qed

lemma sample_net_ok: "net_ok {#1#} {#} {} sample_net" "waking_ok sample_waking" "n_clients sample_net = 1"
  using sample_with_ok [OF request_msg(1)] by (simp_all add: sample_net_def waking_ok_def sample_waking_def)

section \<open>Properties\<close>

text \<open>C31. Sending a message to an endpoint puts it at the end of the inbox of that endpoint, once,
  with its words, its sender and the wish for an answer, and changes no other inbox; when the
  destination does not receive, the call fails and no inbox changes. Either way every reference is
  accounted for. No allocation is refused (\<open>waking_ok\<close>), the sender, if there is one, is another
  endpoint, and a reply and a message to be answered have one.\<close>

theorem send_arrives_once:
  assumes "net_ok G X L st" "waking_ok w" "d < n_clients st" "n_ends (ds_user st) dst = Some e"
    "\<And>a. src = Some a \<Longrightarrow> sends_as (n_ends (ds_user st) a)" "src \<noteq> Some dst" "ack \<Longrightarrow> src \<noteq> None"
    "px \<in># G" "st_heap (ds_store st) px = Some q" "p_state q = PARSE_DONE"
    "has_type KATCP_REPLY (parse_args q) \<Longrightarrow> src \<noteq> None"
  shows "\<exists>st'. send_message_endpoint_katcp w d src (Some dst) (Some px) ack st = Inr (if receives e then 0 else -1, st') \<and>
    net_ok G X L st' \<and> faces st' = faces st \<and>
    inbox st' = (if receives e then (inbox st)(dst := inbox st dst @ [(src, (parse_args q, p_tag q), ack)]) else inbox st)"
proof -
  obtain st' where "send_message_endpoint_katcp w d src (Some dst) (Some px) ack st = Inr (if receives e then 0 else -1, st')"
    "net_ok G X L st'" "calm UNIV st st'"
    "inbox st' = (if receives e then (inbox st)(dst := inbox st dst @ [(src, (parse_args q, p_tag q), ack)]) else inbox st)"
    using send_ok [OF assms] by blast
  then show ?thesis by (auto simp: calm_def)
qed

theorem send_arrives_once_witness:
  "\<exists>st'. send_message_endpoint_katcp sample_waking 0 (Some 5) (Some 6) (Some 1) True sample_net = Inr (0, st') \<and>
    inbox st' 6 = [(Some 5, ([''?a'', ''b''], 7), True)]"
proof -
  let ?q = "request_msg\<lparr>p_refs := 1\<rparr>"
  have h: "n_ends (ds_user sample_net) 6 = Some sample_end" "n_ends (ds_user sample_net) 5 = Some sample_end"
    "st_heap (ds_store sample_net) 1 = Some ?q" "inbox sample_net 6 = []"
    using sample_end(2) by (simp_all add: sample_defs inbox_def waiting_def)
  have q: "p_state ?q = PARSE_DONE" "parse_args ?q = [''?a'', ''b'']" "p_tag ?q = 7"
    using request_msg by simp_all
  have "\<exists>st'. send_message_endpoint_katcp sample_waking 0 (Some 5) (Some 6) (Some 1) True sample_net =
      Inr (if receives sample_end then 0 else -1, st') \<and> net_ok {#1#} {#} {} st' \<and> faces st' = faces sample_net \<and>
      inbox st' = (if receives sample_end then (inbox sample_net)(6 := inbox sample_net 6 @ [(Some 5, (parse_args ?q, p_tag ?q), True)])
        else inbox sample_net)"
    using sample_net_ok sample_end(5) h q(1) by (intro send_arrives_once) auto
  then show ?thesis using h(4) q sample_end(3) by auto
qed

text \<open>C32. Releasing an endpoint empties its inbox and answers for it: each request that waits there
  and whose sender waits for an answer and still receives is turned into the reply \<open>fail\<close> with the
  text "handler detached" at the end of that sender's inbox, in the order of the requests; nothing
  else reaches anybody, the endpoint is gone, and every reference is accounted for. The name of a
  reply carries no tag, as the build leaves \<open>KATCP_ENABLE_TAGS\<close> out. No allocation is refused
  (\<open>waking_ok\<close>): a refused one would release a request twice
  (\<open>vturnaround_extra_parse_katcl\<close> in \<open>Parse_Store\<close>).\<close>

theorem release_answers_waiting:
  assumes "net_ok G X L st" "waking_ok w" "d < n_clients st" "n_ends (ds_user st) ep = Some e" "is_up e"
    "length (inbox st ep) < n"
  shows "\<exists>st'. release_endpoint_katcp n w d ep st = Some (Inr (length (inbox st ep), st')) \<and> net_ok G X L st' \<and>
    (\<forall>to. inbox st' to = (if to = ep then []
      else inbox st to @ concat (map (returned st ep (-1) (Some ''handler detached'') to) (inbox st ep)))) \<and>
    (\<exists>f. n_ends (ds_user st') ep = Some f \<and> e_state f = ENDPOINT_STATE_GONE) \<and>
    (\<forall>to. to \<noteq> ep \<longrightarrow> faces st' to = faces st to)"
  by (rule release_ok [OF assms])

theorem release_answers_waiting_witness:
  "\<exists>st st'. release_endpoint_katcp 2 sample_waking 0 6 st = Some (Inr (1, st')) \<and> inbox st' 6 = [] \<and>
    inbox st' 5 = [(Some 6, ([''!a'', ''fail'', ''handler detached''], -1), False)]"
proof -
  let ?q = "request_msg\<lparr>p_refs := 1\<rparr>"
  have h: "n_ends (ds_user sample_net) 6 = Some sample_end" "n_ends (ds_user sample_net) 5 = Some sample_end"
    "st_heap (ds_store sample_net) 1 = Some ?q" "inbox sample_net 6 = []" "inbox sample_net 5 = []"
    using sample_end(2) by (simp_all add: sample_defs inbox_def waiting_def)
  have q: "p_state ?q = PARSE_DONE" "parse_args ?q = [''?a'', ''b'']" "p_tag ?q = 7" using request_msg by simp_all
  have "\<exists>st'. send_message_endpoint_katcp sample_waking 0 (Some 5) (Some 6) (Some 1) True sample_net =
      Inr (if receives sample_end then 0 else -1, st') \<and> net_ok {#1#} {#} {} st' \<and> calm UNIV sample_net st' \<and>
      inbox st' = (if receives sample_end then (inbox sample_net)(6 := inbox sample_net 6 @ [(Some 5, (parse_args ?q, p_tag ?q), True)])
        else inbox sample_net)"
    using sample_net_ok sample_end(5) h q(1) by (intro send_ok) auto
  then obtain st where st: "net_ok {#1#} {#} {} st" "calm UNIV sample_net st"
      "inbox st 6 = [(Some 5, ([''?a'', ''b''], 7), True)]" "inbox st 5 = []"
    using sample_end(3) h(4,5) q by auto
  have f: "faces st = faces sample_net" "n_clients st = 1" using st(2) sample_net_ok(3) by (simp_all add: calm_def)
  then obtain e where e: "n_ends (ds_user st) 6 = Some e" "face e = face sample_end"
  proof -
    have "map_option face (n_ends (ds_user st) 6) = map_option face (n_ends (ds_user sample_net) 6)"
      using fun_cong [OF f(1), of 6] by (simp only: faces_def)
    then show thesis using that h(1) by (cases "n_ends (ds_user st) 6") auto
  qed
  have "is_up e" using face_state [OF e(2)] sample_end(4) unfolding is_up_def by metis
  moreover have "length (inbox st 6) < 2" "0 < n_clients st" using st(3) f(2) by simp_all
  ultimately obtain st' where r: "release_endpoint_katcp 2 sample_waking 0 6 st = Some (Inr (length (inbox st 6), st'))"
      "inbox st' 6 = []"
      "inbox st' 5 = inbox st 5 @ concat (map (returned st 6 (-1) (Some ''handler detached'') 5) (inbox st 6))"
    using release_answers_waiting [OF st(1) sample_net_ok(2) _ e(1)] by fastforce
  have "hears st 5" using f(1) h(2) sample_end(3) by (simp add: hears_def faces_def receives_def face_def)
  then have "returned st 6 (-1) (Some ''handler detached'') 5 (Some 5, ([''?a'', ''b''], 7), True) =
      [(Some 6, ([''!a'', ''fail'', ''handler detached''], -1), False)]"
    by (simp add: returned_def given_up_def reply_words_def has_type_def KATCP_REQUEST_def KATCP_REPLY_def
        misc_result_table_def cstr_def)
  then show ?thesis using r st(3,4) by auto
qed

end
