(* ===== verification/Endpoint_Run.thy ===== *)
theory Endpoint_Run
  imports Endpoint_Life
begin

text \<open>
  The main loop over the endpoints (\<open>run_endpoints_katcp\<close> in \<open>katcp/endpoint.c\<close>): each endpoint
  that is up has its wake function called with the message at the head of its queue, the result
  decides what becomes of the message, and endpoints that are gone and unreferenced are collected.
  What a wake function has to promise is \<open>wakes_well\<close>.
\<close>

unbundle bit_operations_syntax

section \<open>The next message\<close>

lemma precedence_ok:
  assumes "net_ok G X L st" "n_msgs (ds_user st) m = Some x"
  shows "\<exists>v. compute_precedence_endpoint m st = Inr v"
  using request_message [OF assms] net_text [OF assms] assms(2)
  by (auto simp: compute_precedence_endpoint_def message_at_def good_text_def)

lemma next_message_ok:
  assumes "net_ok G X L st" "n_ends (ds_user st) ep = Some e"
  shows "next_message e st = Inr (case items e of [] \<Rightarrow> None | m # _ \<Rightarrow> Some m)"
proof -
  obtain g where g: "e_queue e = Some g" "gueue_inv g" "items e = gueue_items g" "queue_of e = Inr g"
    using end_queue [OF assms] by blast
  let ?g = "g\<lparr>g_precedence := Some (\<lambda>m. case compute_precedence_endpoint m st of
              Inl _ \<Rightarrow> e_precedence e | Inr v \<Rightarrow> v)\<rparr>"
  have i: "gueue_inv ?g" "gueue_items ?g = items e"
    using g(2,3) by (simp_all add: gueue_inv_def gueue_items_def gueue_slot_def)
  have p: "e_precedence e = 0" using mail_end [OF net_mail [OF assms(1)] assms(2)] by (simp add: end_ok_def)
  have "get_precedence_head_gueue_katcl ?g 0 = Inr (case items e of [] \<Rightarrow> None | m # _ \<Rightarrow> Some m)"
    using get_precedence_head_spec [OF i(1), of 0] i(2) by (cases "items e") auto
  moreover have "\<exists>v. compute_precedence_endpoint m st = Inr v" if "items e = m # ms" for m ms
  proof -
    have "m \<in> set (waiting (ds_user st) ep)" using that assms(2) by (simp add: waiting_def)
    then show ?thesis using mail_member [OF net_mail [OF assms(1)]] precedence_ok [OF assms(1)] by blast
  qed
  ultimately show ?thesis using g(4) p by (cases "items e") (auto simp: next_message_def)
qed

section \<open>One message\<close>

lemma faces_get:
  assumes "faces st' = faces st" "n_ends (ds_user st) ep = Some e"
  shows "\<exists>f. n_ends (ds_user st') ep = Some f \<and> face f = face e"
proof -
  have "map_option face (n_ends (ds_user st') ep) = Some (face e)"
    using fun_cong [OF assms(1), of ep] assms(2) by (simp add: faces_def)
  then show ?thesis by auto
qed

text \<open>What the rounds leave alone.\<close>

definition flags :: "'u net \<Rightarrow> nat \<Rightarrow> bool option" where
  "flags st ep = map_option e_fast_flush (n_ends (ds_user st) ep)"

definition same_frame :: "'u net \<Rightarrow> 'u net \<Rightarrow> bool" where
  "same_frame st st' \<longleftrightarrow> n_clients st' = n_clients st \<and> s_endpoints (ds_user st') = s_endpoints (ds_user st) \<and>
     flags st' = flags st"

lemma same_frame_refl [simp]: "same_frame st st"
  by (simp add: same_frame_def)

lemma same_frame_trans: "same_frame st st1 \<Longrightarrow> same_frame st1 st2 \<Longrightarrow> same_frame st st2"
  by (simp add: same_frame_def)

lemma calm_frame: "calm M st st' \<Longrightarrow> same_frame st st'"
proof -
  have "flags st ep = map_option e_fast_flush (faces st ep)" for st :: "'u net" and ep
    by (simp add: flags_def faces_def face_def option.map_comp comp_def)
  then have "flags st ep = map_option e_fast_flush (faces st ep)" "flags st' ep = map_option e_fast_flush (faces st' ep)" for ep
    by blast+
  then show "calm M st st' \<Longrightarrow> same_frame st st'" by (simp add: calm_def same_frame_def fun_eq_iff)
qed

lemma same_frame_live: "same_frame st st' \<Longrightarrow> n_ends (ds_user st) ep \<noteq> None \<Longrightarrow> n_ends (ds_user st') ep \<noteq> None"
  by (metis same_frame_def flags_def option.map_disc_iff)

lemma take_message_ok:
  assumes ok: "net_ok G X L st" and m: "m \<in> set (waiting (ds_user st) ep)"
  shows "\<exists>e g'. n_ends (ds_user st) ep = Some e \<and> gueue_inv g' \<and> gueue_items g' = remove1 m (items e) \<and>
    take_message ep m st = Inr (st\<lparr>ds_user := put_end ep (e\<lparr>e_queue := Some g'\<rparr>) (ds_user st)\<rparr>)"
proof -
  obtain e where e: "n_ends (ds_user st) ep = Some e" "m \<in> set (items e)"
    using m by (cases "n_ends (ds_user st) ep") (auto simp: waiting_def)
  obtain g where g: "e_queue e = Some g" "gueue_inv g" "items e = gueue_items g" "queue_of e = Inr g"
    using end_queue [OF ok e(1)] by blast
  obtain g' where g': "remove_datum_gueue_katcl g m = Inr (Some m, g')" "gueue_inv g'" "gueue_items g' = remove1 m (items e)"
    using remove_datum_refines [OF g(2), of m] e(2) g(3) by auto
  have "take_message ep m st = Inr (st\<lparr>ds_user := put_end ep (e\<lparr>e_queue := Some g'\<rparr>) (ds_user st)\<rparr>)"
    using e(1) g(4) g'(1) by (simp add: take_message_def endpoint_at_def set_user)
  then show ?thesis using e(1) g'(2,3) by blast
qed

text \<open>The letters that stay when a message is taken.\<close>

definition inbox_but :: "nat \<Rightarrow> 'u net \<Rightarrow> nat \<Rightarrow> letter list" where
  "inbox_but m st ep = map (\<lambda>k. letter (ds_store st) (the (n_msgs (ds_user st) k))) (remove1 m (waiting (ds_user st) ep))"

definition letter_of :: "'u net \<Rightarrow> nat \<Rightarrow> letter" where
  "letter_of st m = letter (ds_store st) (the (n_msgs (ds_user st) m))"

lemma serve_answer_ok:
  assumes ok: "net_ok G X L st" and w: "waking_ok w" and d: "d < n_clients st" and m: "m \<in> set (waiting (ds_user st) ep)"
    and r: "result \<in> {KATCP_RESULT_OK, KATCP_RESULT_FAIL, KATCP_RESULT_INVALID}"
  shows "\<exists>st'. serve_result w d ep m result st = Inr (True, st') \<and> net_ok G X L st' \<and> same_frame st st' \<and>
    inbox st' = (\<lambda>to. if to = ep then inbox_but m st ep else inbox st to @ returned st ep result None to (letter_of st m))"
proof -
  obtain e g' where e: "n_ends (ds_user st) ep = Some e" "gueue_inv g'" "gueue_items g' = remove1 m (items e)"
      "take_message ep m st = Inr (st\<lparr>ds_user := put_end ep (e\<lparr>e_queue := Some g'\<rparr>) (ds_user st)\<rparr>)"
    using take_message_ok [OF ok m] by blast
  let ?st1 = "st\<lparr>ds_user := put_end ep (e\<lparr>e_queue := Some g'\<rparr>) (ds_user st)\<rparr>"
  note t = take_step [OF ok e(1) m e(2,3)]
  obtain x where x: "n_msgs (ds_user ?st1) m = Some x" "n_msgs (ds_user st) m = Some x" "m_to x = Some ep" "m_from x \<noteq> Some ep"
    using t(5) by blast
  have code: "-3 \<le> result" "result \<le> 0" and other: "result \<noteq> KATCP_RESULT_OWN" "result \<noteq> KATCP_RESULT_PAUSE"
    using r by (auto simp: KATCP_RESULT_OK_def KATCP_RESULT_FAIL_def KATCP_RESULT_INVALID_def KATCP_RESULT_OWN_def KATCP_RESULT_PAUSE_def)
  have d1: "d < n_clients ?st1" using d by simp
  obtain st2 where 2: "bind_res (message_at m ?st1) (\<lambda>mx. bind_res (is_request_message (m_parse mx) ?st1) (\<lambda>request.
        if request then bind_res (turnaround_endpoint_katcp w d ep m result None ?st1) (\<lambda>(_, st2). Inr (True, st2))
        else bind_res (destroy_message_katcp m ?st1) (\<lambda>st2. Inr (True, st2)))) = Inr (True, st2)"
      "net_ok G X L st2" "calm (- {m}) ?st1 st2"
      "inbox st2 = (\<lambda>to. inbox ?st1 to @ returned ?st1 ep result None to (letter (ds_store ?st1) x))"
    using give_up_ok [OF t(1) w d1 x(1) t(3) x(3) code, of None] by blast
  have "serve_result w d ep m result st = Inr (True, st2)"
    using r other e(4) 2(1) by (simp add: serve_result_def)
  moreover have "same_frame st st2" using calm_frame [OF calm_then(1) [OF t(2) 2(3)]] .
  moreover have "inbox st2 to = (if to = ep then inbox_but m st ep else inbox st to @ returned st ep result None to (letter_of st m))" for to
  proof -
    have w: "waiting (ds_user st) ep = items e" using e(1) by (simp add: waiting_def)
    have "returned ?st1 = returned st" by (rule returned_calm [OF t(2)])
    then show ?thesis using x(2,4) unfolding 2(4) t(4) by (auto simp: inbox_but_def letter_of_def w returned_def letter_def)
  qed
  ultimately show ?thesis using 2(2) by (intro exI [of _ st2]) (simp add: fun_eq_iff)
qed

lemma serve_own_ok:
  assumes ok: "net_ok G X L st" and m: "m \<in> set (waiting (ds_user st) ep)"
  shows "\<exists>st'. serve_result w d ep m KATCP_RESULT_OWN st = Inr (True, st') \<and> net_ok G X L st' \<and> same_frame st st' \<and>
    inbox st' = (inbox st)(ep := inbox_but m st ep)"
proof -
  obtain e g' where e: "n_ends (ds_user st) ep = Some e" "gueue_inv g'" "gueue_items g' = remove1 m (items e)"
      "take_message ep m st = Inr (st\<lparr>ds_user := put_end ep (e\<lparr>e_queue := Some g'\<rparr>) (ds_user st)\<rparr>)"
    using take_message_ok [OF ok m] by blast
  let ?st1 = "st\<lparr>ds_user := put_end ep (e\<lparr>e_queue := Some g'\<rparr>) (ds_user st)\<rparr>"
  note t = take_step [OF ok e(1) m e(2,3)]
  obtain x where x: "n_msgs (ds_user ?st1) m = Some x" using t(5) by blast
  have L: "insert m L - {m} = L" "m \<in> insert m L" using t(3) by auto
  obtain st2 where 2: "destroy_message_katcp m ?st1 = Inr st2" "net_ok G X L st2" "calm (- {m}) ?st1 st2" "inbox st2 = inbox ?st1"
    using destroy_message_ok [OF t(1) x L(2)] L(1) by auto
  have c: "calm (- {m}) st st2" by (rule calm_then(1) [OF t(2) 2(3)])
  have "n_ends (ds_user st2) ep \<noteq> None" using faces_live [of st2 st ep] c e(1) by (simp add: calm_def)
  then have "precedence_endpoint_katcp (Some ep) ENDPOINT_PRECEDENCE_HIGH st2 = Inr st2"
    using precedence_same [OF 2(2)] by (simp add: ENDPOINT_PRECEDENCE_HIGH_def)
  then have "serve_result w d ep m KATCP_RESULT_OWN st = Inr (True, st2)"
    using e(4) 2(1) by (simp add: serve_result_def)
  moreover have "inbox st2 = (inbox st)(ep := inbox_but m st ep)"
    using 2(4) t(4) e(1) by (simp add: inbox_but_def waiting_def)
  ultimately show ?thesis using 2(2) calm_frame [OF c] by blast
qed

lemma serve_wait_ok:
  assumes "net_ok G X L st" "n_ends (ds_user st) ep \<noteq> None" "result = KATCP_RESULT_PAUSE \<or> result = KATCP_RESULT_YIELD"
  shows "serve_result w d ep m result st = Inr (False, st)"
  using assms precedence_same [OF assms(1,2)]
  by (auto simp: serve_result_def KATCP_RESULT_PAUSE_def KATCP_RESULT_YIELD_def KATCP_RESULT_OK_def KATCP_RESULT_FAIL_def
      KATCP_RESULT_INVALID_def KATCP_RESULT_OWN_def ENDPOINT_PRECEDENCE_HIGH_def)

section \<open>What a wake function promises\<close>

text \<open>It is called for the message \<open>m\<close> that waits at \<open>ep\<close> and comes back with one of the six result
  codes, leaves the network in order, makes no endpoints and keeps their flush modes, and, when it
  is done with the message, has not taken it out of the queue itself. It may send messages, but an
  endpoint that flushes quickly does not make its own queue longer: it would never be left.\<close>

definition done_codes :: "int set" where
  "done_codes = {KATCP_RESULT_OWN, KATCP_RESULT_OK, KATCP_RESULT_FAIL, KATCP_RESULT_INVALID}"

definition wait_codes :: "int set" where
  "wait_codes = {KATCP_RESULT_PAUSE, KATCP_RESULT_YIELD}"

definition wakes_well :: "nat multiset \<Rightarrow> nat multiset \<Rightarrow> nat \<Rightarrow> 'u waking \<Rightarrow> bool" where
  "wakes_well G X d w \<longleftrightarrow>
     (\<forall>f ep m data st. net_ok G X {} st \<longrightarrow> d < n_clients st \<longrightarrow> m \<in> set (waiting (ds_user st) ep) \<longrightarrow>
        (\<exists>r st'. w_wake w f d ep m data st = Inr (r, st') \<and> net_ok G X {} st' \<and> same_frame st st' \<and>
           (flags st ep = Some True \<longrightarrow> length (inbox st' ep) \<le> length (inbox st ep)) \<and>
           (r \<in> wait_codes \<or> r \<in> done_codes \<and> m \<in> set (waiting (ds_user st') ep))))"

lemma length_inbox_but: "m \<in> set (waiting (ds_user st) ep) \<Longrightarrow> Suc (length (inbox_but m st ep)) = length (inbox st ep)"
  by (auto simp: inbox_but_def inbox_def length_remove1) (metis length_pos_if_in_set Suc_pred)

lemma serve_result_ok:
  assumes ok: "net_ok G X L st" and w: "waking_ok w" and d: "d < n_clients st" and ep: "n_ends (ds_user st) ep \<noteq> None"
    and r: "r \<in> wait_codes \<or> r \<in> done_codes \<and> m \<in> set (waiting (ds_user st) ep)"
  shows "\<exists>b st'. serve_result w d ep m r st = Inr (b, st') \<and> net_ok G X L st' \<and> same_frame st st' \<and>
    (b \<longrightarrow> length (inbox st' ep) < length (inbox st ep))"
proof -
  consider "r \<in> wait_codes" | "r = KATCP_RESULT_OWN" "m \<in> set (waiting (ds_user st) ep)"
    | "r \<in> {KATCP_RESULT_OK, KATCP_RESULT_FAIL, KATCP_RESULT_INVALID}" "m \<in> set (waiting (ds_user st) ep)"
    using r by (auto simp: done_codes_def)
  then show ?thesis
  proof cases
    case 1
    then show ?thesis using serve_wait_ok [OF ok ep] ok by (auto simp: wait_codes_def)
  next
    case 2
    then show ?thesis using serve_own_ok [OF ok 2(2)] length_inbox_but [OF 2(2)]
      by (metis fun_upd_same lessI)
  next
    case 3
    then show ?thesis using serve_answer_ok [OF ok w d 3(2,1)] length_inbox_but [OF 3(2)]
      by (metis lessI)
  qed
qed

lemma serve_round_ok:
  assumes ok: "net_ok G X {} st" and w: "waking_ok w" "wakes_well G X d w" and d: "d < n_clients st"
    and ep: "n_ends (ds_user st) ep \<noteq> None"
  shows "\<exists>b c' st'. serve_round w d ep c st = Inr (b, c', st') \<and> net_ok G X {} st' \<and> same_frame st st' \<and>
    (b \<longrightarrow> flags st ep = Some True \<longrightarrow> length (inbox st' ep) < length (inbox st ep))"
proof -
  obtain e where e: "n_ends (ds_user st) ep = Some e" using ep by auto
  note nm = next_message_ok [OF ok e]
  show ?thesis
  proof (cases "items e")
    case Nil
    then have "serve_round w d ep c st = Inr (False, c, st)" using nm e by (simp add: serve_round_def endpoint_at_def)
    then show ?thesis using ok same_frame_refl by blast
  next
    case (Cons m ms)
    have m: "m \<in> set (waiting (ds_user st) ep)" using Cons e by (simp add: waiting_def)
    then obtain x where x: "n_msgs (ds_user st) m = Some x" "m_to x = Some ep" using mail_member [OF net_mail [OF ok]] by blast
    let ?call = "case e_wake e of None \<Rightarrow> Inr (KATCP_RESULT_FAIL, c, st)
      | Some f \<Rightarrow> bind_res (w_wake w f d ep m (e_data e) st) (\<lambda>(r, st1). Inr (r, c + 1, st1))"
    obtain r c' st1 where 1: "?call = Inr (r, c', st1)" "net_ok G X {} st1" "same_frame st st1"
        "r \<in> wait_codes \<or> r \<in> done_codes \<and> m \<in> set (waiting (ds_user st1) ep)"
        "flags st ep = Some True \<longrightarrow> length (inbox st1 ep) \<le> length (inbox st ep)"
    proof (cases "e_wake e")
      case None
      then show thesis using that [of KATCP_RESULT_FAIL c st] ok m by (simp add: done_codes_def)
    next
      case (Some f)
      obtain r st1 where "w_wake w f d ep m (e_data e) st = Inr (r, st1)" "net_ok G X {} st1" "same_frame st st1"
          "flags st ep = Some True \<longrightarrow> length (inbox st1 ep) \<le> length (inbox st ep)"
          "r \<in> wait_codes \<or> r \<in> done_codes \<and> m \<in> set (waiting (ds_user st1) ep)"
        using w(2) ok d m unfolding wakes_well_def by blast
      then show thesis using that [of r "c + 1" st1] Some by simp
    qed
    have d1: "d < n_clients st1" "n_ends (ds_user st1) ep \<noteq> None"
      using d 1(3) same_frame_live [OF 1(3) ep] by (simp_all add: same_frame_def)
    obtain b st2 where 2: "serve_result w d ep m r st1 = Inr (b, st2)" "net_ok G X {} st2" "same_frame st1 st2"
        "b \<longrightarrow> length (inbox st2 ep) < length (inbox st1 ep)"
      using serve_result_ok [OF 1(2) w(1) d1 1(4)] by blast
    have "serve_round w d ep c st = Inr (b, c', st2)"
      using nm e Cons x 1(1) 2(1) by (simp add: serve_round_def endpoint_at_def message_at_def)
    moreover have "b \<longrightarrow> flags st ep = Some True \<longrightarrow> length (inbox st2 ep) < length (inbox st ep)"
      using 1(5) 2(4) by linarith
    ultimately show ?thesis using 2(2) same_frame_trans [OF 1(3) 2(3)] by blast
  qed
qed

text \<open>An endpoint that does not flush quickly has one message served; the inner loop over one that
  does ends after at most as many rounds as messages wait, and one more.\<close>

definition serve_bound :: "'u net \<Rightarrow> nat \<Rightarrow> nat" where
  "serve_bound st ep = (if flags st ep = Some True then Suc (length (inbox st ep)) else 1)"

lemma serve_loop_ok:
  assumes "net_ok G X {} st" "waking_ok w" "wakes_well G X d w" "d < n_clients st" "n_ends (ds_user st) ep \<noteq> None"
  shows "\<exists>c' st'. (\<forall>n \<ge> serve_bound st ep. serve_loop n w d ep c st = Some (Inr (c', st'))) \<and>
    net_ok G X {} st' \<and> same_frame st st'"
  using assms
proof (induction "length (inbox st ep)" arbitrary: st c rule: less_induct)
  case less
  obtain b c1 st1 where r: "serve_round w d ep c st = Inr (b, c1, st1)" "net_ok G X {} st1" "same_frame st st1"
      "b \<longrightarrow> flags st ep = Some True \<longrightarrow> length (inbox st1 ep) < length (inbox st ep)"
    using serve_round_ok [OF less.prems] by blast
  have ep1: "n_ends (ds_user st1) ep \<noteq> None" by (rule same_frame_live [OF r(3) less.prems(5)])
  then obtain e where e: "n_ends (ds_user st1) ep = Some e" by auto
  have fl: "flags st1 ep = Some (e_fast_flush e)" "flags st ep = Some (e_fast_flush e)"
  proof -
    show "flags st1 ep = Some (e_fast_flush e)" using e by (simp add: flags_def)
    then show "flags st ep = Some (e_fast_flush e)" using r(3) by (simp add: same_frame_def)
  qed
  have pos: "serve_bound st ep \<le> n \<Longrightarrow> \<exists>m. n = Suc m" for n
    by (cases n) (auto simp: serve_bound_def split: if_splits)
  show ?case
  proof (cases "e_fast_flush e \<and> b")
    case False
    have "serve_loop (Suc m) w d ep c st = Some (Inr (c1, st1))" for m
      using r(1) e False by (auto simp: endpoint_at_def)
    then show ?thesis using r(2,3) pos by metis
  next
    case True
    then have lt: "length (inbox st1 ep) < length (inbox st ep)" using r(4) fl by simp
    have d1: "d < n_clients st1" using less.prems(4) r(3) by (simp add: same_frame_def)
    obtain c2 st2 where 2: "\<forall>n \<ge> serve_bound st1 ep. serve_loop n w d ep c1 st1 = Some (Inr (c2, st2))"
        "net_ok G X {} st2" "same_frame st1 st2"
      using less.hyps [OF lt r(2) less.prems(2,3) d1 ep1] by blast
    have step: "serve_loop (Suc m) w d ep c st = serve_loop m w d ep c1 st1" for m
      using r(1) e True by (simp add: endpoint_at_def)
    have "serve_bound st1 ep < serve_bound st ep" using lt fl True by (simp add: serve_bound_def)
    then have "serve_loop n w d ep c st = Some (Inr (c2, st2))" if "serve_bound st ep \<le> n" for n
      using 2(1) step pos [OF that] that by fastforce
    then show ?thesis using 2(2) same_frame_trans [OF r(3) 2(3)] by blast
  qed
qed

lemma frame_busy [simp]: "same_frame st (mark_busy_katcp st') = same_frame st st'"
  using calm_frame [of UNIV st' "mark_busy_katcp st'"] by (auto simp: same_frame_def)

lemma after_serve_ok:
  assumes ok: "net_ok G X L st" and ep: "n_ends (ds_user st) ep \<noteq> None"
  shows "\<exists>st'. after_serve ep c st = Inr st' \<and> net_ok G X L st' \<and> same_frame st st'"
proof -
  obtain e where e: "n_ends (ds_user st) ep = Some e" using ep by auto
  let ?y = "e\<lparr>e_flush_runs := e_flush_runs e + 1, e_flush_messages := e_flush_messages e + of_nat c\<rparr>"
  let ?r = "if c = 0 then Inr st
    else on_endpoint ep (\<lambda>x. x\<lparr>e_flush_runs := e_flush_runs x + 1, e_flush_messages := e_flush_messages x + of_nat c\<rparr>) st"
  obtain st1 e1 where 1: "?r = Inr st1" "net_ok G X L st1" "same_frame st st1" "n_ends (ds_user st1) ep = Some e1"
  proof (cases "c = 0")
    case True
    then show thesis using that [of st e] ok e by simp
  next
    case False
    let ?st = "st\<lparr>ds_user := put_end ep ?y (ds_user st)\<rparr>"
    have y: "end_ok ?y" "items ?y = items e" "e_refcount ?y = e_refcount e"
      using mail_end [OF net_mail [OF ok] e] by (simp_all add: end_ok_def items_def is_up_def)
    have "?r = Inr ?st" using False e by (simp add: on_endpoint_def endpoint_at_def set_user)
    moreover have "same_frame st ?st" using e by (auto simp: same_frame_def flags_def fun_eq_iff)
    ultimately show thesis using that [of ?st ?y] net_set_end(1) [OF ok e y] by simp
  qed
  have "after_serve ep c st = Inr (if next_message e1 st1 \<noteq> Inr None then mark_busy_katcp st1 else st1)"
    unfolding after_serve_def 1(1) using 1(4) next_message_ok [OF 1(2,4)] by (simp add: endpoint_at_def)
  then show ?thesis using 1(2,3) by (cases "next_message e1 st1 = Inr None") auto
qed

section \<open>Collection\<close>

lemma mail_collect:
  assumes ok: "mail_ok X L u" and e: "n_ends u ep = Some e" "e_refcount e = 0"
    and l: "s_endpoints u = pre @ ep # post"
  shows "mail_ok X L (u\<lparr>n_ends := (n_ends u)(ep := None), s_endpoints := pre @ post\<rparr>)"
proof -
  let ?u = "u\<lparr>n_ends := (n_ends u)(ep := None), s_endpoints := pre @ post\<rparr>"
  have none: "m_to x \<noteq> Some ep" if "n_msgs u m = Some x" for m x
    using mail_live [OF ok that, of ep] e by (auto simp: links_of_def)
  have w: "waiting ?u a = (if a = ep then [] else waiting u a)" for a by (simp add: waiting_def)
  have we: "waiting u ep = []" using mail_member [OF ok, of _ ep] none by (metis last_in_set)
  have "counted X ?u" using ok e by (auto simp: mail_ok_def counted_def)
  moreover have "placed L ?u"
    using ok none unfolding mail_ok_def placed_def w by (auto split: if_splits)
  moreover have "shaped ?u" using ok l unfolding mail_ok_def shaped_def by auto
  ultimately show ?thesis by (simp add: mail_ok_def)
qed

lemma inbox_collect:
  assumes "mail_ok X L (ds_user st)" "n_ends (ds_user st) ep = Some e" "e_refcount e = 0"
  shows "waiting (ds_user st) ep = []"
proof -
  have "m_to x \<noteq> Some ep" if "n_msgs (ds_user st) m = Some x" for m x
    using mail_live [OF assms(1) that, of ep] assms(2,3) by (auto simp: links_of_def)
  then show ?thesis using mail_member [OF assms(1), of _ ep] by (metis last_in_set)
qed

text \<open>The place of the loop in the list: \<open>ex\<close> is the last endpoint that was kept.\<close>

definition before :: "nat list \<Rightarrow> nat option" where
  "before pre = (if pre = [] then None else Some (last pre))"

definition first_of :: "nat list \<Rightarrow> nat option" where
  "first_of xs = (case xs of [] \<Rightarrow> None | x # _ \<Rightarrow> Some x)"

lemma from_here_split: "ep \<notin> set pre \<Longrightarrow> from_here ep (pre @ ep # post) = ep # post"
  by (induction pre) (auto simp: from_here_def)

lemma next_endpoint_split:
  "s_endpoints (ds_user st) = pre @ ep # post \<Longrightarrow> ep \<notin> set pre \<Longrightarrow> next_endpoint ep st = first_of post"
  by (simp add: next_endpoint_def from_here_split first_of_def)

lemma unlink_split:
  assumes "s_endpoints (ds_user st) = pre @ ep # post" "distinct (pre @ ep # post)"
  shows "unlink_endpoint (before pre) ep st = set_list (pre @ post) st"
proof (cases pre rule: rev_cases)
  case Nil
  then show ?thesis using assms by (simp add: unlink_endpoint_def before_def from_here_def)
next
  case (snoc qs q)
  have "takeWhile (\<lambda>y. y \<noteq> q) (qs @ q # ep # post) = qs"
    using assms(2) snoc by (subst takeWhile_append2) auto
  then show ?thesis using assms snoc from_here_split [of ep pre post]
    by (simp add: unlink_endpoint_def before_def)
qed

lemma collect_ok:
  assumes ok: "net_ok G X L st" and e: "n_ends (ds_user st) ep = Some e" "e_refcount e = 0" "e_state e = ENDPOINT_STATE_GONE"
    and l: "s_endpoints (ds_user st) = pre @ ep # post"
  shows "\<exists>st'. collect_endpoint w d (before pre) ep st = Inr st' \<and> net_ok G X L st' \<and> n_clients st' = n_clients st \<and>
    s_endpoints (ds_user st') = pre @ post \<and> flags st' = (flags st)(ep := None) \<and> inbox st' = inbox st \<and>
    n_ends (ds_user st') ep = None"
proof -
  note mail = net_mail [OF ok]
  have dist: "distinct (pre @ ep # post)" using mail l by (simp add: mail_ok_def shaped_def)
  obtain g where g: "e_queue e = Some g" "gueue_inv g" "items e = gueue_items g" using end_queue [OF ok e(1)] by blast
  have eo: "end_ok e" by (rule mail_end [OF mail e(1)])
  have rel: "e_release e = None" "e_freeable e" "items e = []"
    using eo e(3) by (auto simp: end_ok_def is_up_def ENDPOINT_STATE_GONE_def)
  then have c0: "g_count g = 0" using g(3) by (metis length_gueue_items list.size(3))
  let ?u = "(ds_user st)\<lparr>n_ends := (n_ends (ds_user st))(ep := None), s_endpoints := pre @ post\<rparr>"
  let ?st = "st\<lparr>ds_user := ?u\<rparr>"
  have "collect_endpoint w d (before pre) ep st = Inr ?st"
    unfolding collect_endpoint_def unlink_split [OF l dist] Let_def
    using e(1,2) rel(1,2) g(1) c0
    by (simp add: endpoint_at_def set_list_def free_endpoint_katcp_def clear_endpoint_katcp_def size_gueue_katcl_def
        on_endpoint_def set_endpoint_def)
  moreover have "net_ok G X L ?st"
    using ok mail_collect [OF mail e(1,2) l] by (simp add: net_ok_def texts_def)
  moreover have "inbox ?st = inbox st"
    using inbox_collect [OF mail e(1,2)] by (auto simp: inbox_def waiting_def fun_eq_iff)
  ultimately show ?thesis by (intro exI [of _ ?st]) (auto simp: flags_def fun_eq_iff)
qed

section \<open>The loop\<close>

text \<open>How many rounds are enough depends on the messages that the endpoints send each other, unless no
  endpoint flushes quickly.\<close>

lemma run_ends_loop_ok:
  assumes "net_ok G X {} st" "waking_ok w" "wakes_well G X d w" "d < n_clients st"
    "s_endpoints (ds_user st) = pre @ rest"
  shows "\<exists>N st' kept. (\<forall>n\<ge>N. run_loop_endpoints n w d (before pre) (first_of rest) st = Some (Inr st')) \<and> net_ok G X {} st' \<and>
    n_clients st' = n_clients st \<and> s_endpoints (ds_user st') = pre @ kept \<and> set kept \<subseteq> set rest \<and>
    ((\<forall>ep. flags st ep \<noteq> Some True) \<longrightarrow> N \<le> Suc (length rest))"
  using assms
proof (induction rest arbitrary: st pre)
  case Nil
  have "run_loop_endpoints n w d (before pre) (first_of []) st = Some (Inr st)" if "1 \<le> n" for n
    using that by (cases n) (simp_all add: first_of_def)
  then show ?case using Nil.prems by (intro exI [of _ 1] exI [of _ st] exI [of _ "[]"]) simp
next
  case (Cons ep post)
  note ok = Cons.prems(1)
  have mem: "set (s_endpoints (ds_user st)) = dom (n_ends (ds_user st))" "distinct (pre @ ep # post)"
    using net_mail [OF ok] Cons.prems(5) by (auto simp: mail_ok_def shaped_def)
  then obtain e where e: "n_ends (ds_user st) ep = Some e" using Cons.prems(5) by auto
  define served where "served n = (if e_state e AND ENDPOINT_STATE_UP \<noteq> 0
    then map_option (\<lambda>r. bind_res r (\<lambda>(c, st1). after_serve ep c st1)) (serve_loop n w d ep 0 st) else Some (Inr st))" for n
  obtain st1 where 1: "\<forall>n \<ge> serve_bound st ep. served n = Some (Inr st1)" "net_ok G X {} st1" "same_frame st st1"
  proof (cases "e_state e AND ENDPOINT_STATE_UP \<noteq> 0")
    case True
    obtain c st0 where s: "\<forall>n \<ge> serve_bound st ep. serve_loop n w d ep 0 st = Some (Inr (c, st0))" "net_ok G X {} st0" "same_frame st st0"
      using serve_loop_ok [OF ok Cons.prems(2-4), of ep 0] e by auto
    have "n_ends (ds_user st0) ep \<noteq> None" using same_frame_live [OF s(3)] e by simp
    then obtain st1 where "after_serve ep c st0 = Inr st1" "net_ok G X {} st1" "same_frame st0 st1"
      using after_serve_ok [OF s(2)] by blast
    then show thesis using that [of st1] s(1) True same_frame_trans [OF s(3)] by (simp add: served_def)
  next
    case False
    then show thesis using that [of st] ok by (simp add: served_def)
  qed
  have l1: "s_endpoints (ds_user st1) = pre @ ep # post" "d < n_clients st1" "flags st1 = flags st" "n_clients st1 = n_clients st"
    using 1(3) Cons.prems(4,5) by (simp_all add: same_frame_def)
  obtain f where f: "n_ends (ds_user st1) ep = Some f" using same_frame_live [OF 1(3)] e by fastforce
  have nx: "next_endpoint ep st1 = first_of post" using next_endpoint_split [OF l1(1)] mem(2) by simp
  have fr: "first_of (ep # post) = Some ep" by (simp add: first_of_def)
  have step: "run_loop_endpoints (Suc n) w d (before pre) (first_of (ep # post)) st =
      (if e_state f = ENDPOINT_STATE_GONE \<and> e_refcount f \<le> 0
       then (case collect_endpoint w d (before pre) ep st1 of
               Inl z \<Rightarrow> Some (Inl z) | Inr st2 \<Rightarrow> run_loop_endpoints n w d (before pre) (first_of post) st2)
       else run_loop_endpoints n w d (Some ep) (first_of post) st1)" if "serve_bound st ep \<le> n" for n
    using e f 1(1) that unfolding served_def fr nx [symmetric] by (simp add: endpoint_at_def)
  let ?goal = "\<lambda>N st' kept. (\<forall>n\<ge>N. run_loop_endpoints n w d (before pre) (first_of (ep # post)) st = Some (Inr st')) \<and>
    net_ok G X {} st' \<and> n_clients st' = n_clients st \<and> s_endpoints (ds_user st') = pre @ kept \<and> set kept \<subseteq> set (ep # post) \<and>
    ((\<forall>ep. flags st ep \<noteq> Some True) \<longrightarrow> N \<le> Suc (length (ep # post)))"
  have join: "\<forall>n\<ge>Suc (max (serve_bound st ep) N).
      run_loop_endpoints n w d (before pre) (first_of (ep # post)) st = Some (Inr st3)"
    if "\<And>n. serve_bound st ep \<le> n \<Longrightarrow> N \<le> n \<Longrightarrow>
      run_loop_endpoints (Suc n) w d (before pre) (first_of (ep # post)) st = Some (Inr st3)" for N st3
    using that by (metis Suc_le_D Suc_le_mono max.bounded_iff)
  have bound: "(\<forall>ep. flags st ep \<noteq> Some True) \<longrightarrow> Suc (max (serve_bound st ep) N) \<le> Suc (length (ep # post))"
    if "(\<forall>ep. flags st ep \<noteq> Some True) \<longrightarrow> N \<le> Suc (length post)" for N
    using that by (auto simp: serve_bound_def)
  show ?case
  proof (cases "e_state f = ENDPOINT_STATE_GONE \<and> e_refcount f \<le> 0")
    case True
    then have gone: "e_refcount f = 0" "e_state f = ENDPOINT_STATE_GONE" by simp_all
    obtain st2 where 2: "collect_endpoint w d (before pre) ep st1 = Inr st2" "net_ok G X {} st2" "n_clients st2 = n_clients st1"
        "s_endpoints (ds_user st2) = pre @ post" "flags st2 = (flags st1)(ep := None)"
      using collect_ok [OF 1(2) f gone l1(1)] by blast
    have fl: "(\<forall>ep. flags st ep \<noteq> Some True) \<longrightarrow> (\<forall>ep. flags st2 ep \<noteq> Some True)" using 2(5) l1(3) by simp
    have "d < n_clients st2" using 2(3) l1(2) by simp
    from Cons.IH [OF 2(2) Cons.prems(2,3) this 2(4)]
    obtain N st3 kept where 3: "\<forall>n\<ge>N. run_loop_endpoints n w d (before pre) (first_of post) st2 = Some (Inr st3)"
        "net_ok G X {} st3" "n_clients st3 = n_clients st2" "s_endpoints (ds_user st3) = pre @ kept" "set kept \<subseteq> set post"
        "(\<forall>ep. flags st2 ep \<noteq> Some True) \<longrightarrow> N \<le> Suc (length post)"
      by blast
    have "?goal (Suc (max (serve_bound st ep) N)) st3 kept"
      using join [of N st3] step True 2(1,3) 3 l1(4) bound [of N] fl by auto
    then show ?thesis by blast
  next
    case False
    have b: "Some ep = before (pre @ [ep])" by (simp add: before_def)
    have l2: "s_endpoints (ds_user st1) = (pre @ [ep]) @ post" using l1(1) by simp
    from Cons.IH [OF 1(2) Cons.prems(2,3) l1(2) l2]
    obtain N st3 kept where 3: "\<forall>n\<ge>N. run_loop_endpoints n w d (before (pre @ [ep])) (first_of post) st1 = Some (Inr st3)"
        "net_ok G X {} st3" "n_clients st3 = n_clients st1" "s_endpoints (ds_user st3) = (pre @ [ep]) @ kept"
        "set kept \<subseteq> set post" "(\<forall>ep. flags st1 ep \<noteq> Some True) \<longrightarrow> N \<le> Suc (length post)"
      by blast
    have "run_loop_endpoints (Suc n) w d (before pre) (first_of (ep # post)) st = Some (Inr st3)"
      if "serve_bound st ep \<le> n" "N \<le> n" for n
      unfolding step [OF that(1)] if_not_P [OF False] b using 3(1) that(2) by simp
    then have "?goal (Suc (max (serve_bound st ep) N)) st3 (ep # kept)"
      using join [of N st3] 3(2-6) l1(3,4) bound [of N] by auto
    then show ?thesis by blast
  qed
qed

section \<open>Properties\<close>

text \<open>C33. When a wake function has dealt with a message and returns \<open>ok\<close>, \<open>fail\<close> or \<open>invalid\<close>, the
  message leaves the inbox, and if it is a request whose sender waits and still receives, the sender
  gets exactly one reply with that result at the end of its inbox; no other inbox changes. A request
  whose sender does not wait for an answer, or no longer receives, and a message that is no request
  leave the inbox without one. No allocation is refused (\<open>waking_ok\<close>).\<close>

theorem served_request_is_answered:
  assumes "net_ok G X L st" "waking_ok w" "d < n_clients st" "m \<in> set (waiting (ds_user st) ep)"
    "result \<in> {KATCP_RESULT_OK, KATCP_RESULT_FAIL, KATCP_RESULT_INVALID}"
  shows "\<exists>st'. serve_result w d ep m result st = Inr (True, st') \<and> net_ok G X L st' \<and>
    inbox st' = (\<lambda>to. if to = ep then inbox_but m st ep else inbox st to @ returned st ep result None to (letter_of st m))"
  using serve_answer_ok [OF assms] by blast

lemma sample_sent:
  "\<exists>(st :: unit net) m. net_ok {#1#} {#} {} st \<and> faces st = faces sample_net \<and> n_clients st = 1 \<and> waiting (ds_user st) 6 = [m] \<and>
    letter_of st m = (Some 5, ([''?a'', ''b''], 7), True) \<and> inbox st 5 = [] \<and> hears st 5"
proof -
  let ?q = "request_msg\<lparr>p_refs := 1\<rparr>"
  have h: "n_ends (ds_user sample_net) 6 = Some sample_end" "n_ends (ds_user sample_net) 5 = Some sample_end"
    "st_heap (ds_store sample_net) 1 = Some ?q" "inbox sample_net 6 = []" "inbox sample_net 5 = []"
    using sample_end(2) by (simp_all add: sample_defs inbox_def waiting_def)
  have q: "p_state ?q = PARSE_DONE" "parse_args ?q = [''?a'', ''b'']" "p_tag ?q = 7" using request_msg by simp_all
  have "\<exists>st'. send_message_endpoint_katcp sample_waking 0 (Some 5) (Some 6) (Some 1) True sample_net =
      Inr (if receives sample_end then 0 else -1, st') \<and> net_ok {#1#} {#} {} st' \<and> calm UNIV sample_net st' \<and>
      inbox st' = (if receives sample_end then (inbox sample_net)(6 := inbox sample_net 6 @ [(Some 5, (parse_args ?q, p_tag ?q), True)])
        else inbox sample_net)"
    using sample_net_ok sample_end(5) h q(1) by (intro send_ok) auto
  then obtain st where st: "net_ok {#1#} {#} {} st" "calm UNIV sample_net st"
      "inbox st 6 = [(Some 5, ([''?a'', ''b''], 7), True)]" "inbox st 5 = []"
    using sample_end(3) h(4,5) q by auto
  have f: "faces st = faces sample_net" "n_clients st = 1" using st(2) sample_net_ok(3) by (simp_all add: calm_def)
  have "hears st 5" using f(1) h(2) sample_end(3) by (simp add: hears_def faces_def receives_def face_def)
  moreover obtain m where "waiting (ds_user st) 6 = [m]" "letter_of st m = (Some 5, ([''?a'', ''b''], 7), True)"
    using st(3) by (auto simp: inbox_def letter_of_def map_eq_Cons_conv)
  ultimately show ?thesis using st f by blast
qed

theorem served_request_is_answered_witness:
  "\<exists>st m st'. serve_result sample_waking 0 6 m KATCP_RESULT_OK st = Inr (True, st') \<and> inbox st' 6 = [] \<and>
    inbox st' 5 = [(Some 6, ([''!a'', ''ok''], -1), False)]"
proof -
  obtain st :: "unit net" and m where s: "net_ok {#1#} {#} {} st" "n_clients st = 1" "waiting (ds_user st) 6 = [m]"
      "letter_of st m = (Some 5, ([''?a'', ''b''], 7), True)" "inbox st 5 = []" "hears st 5"
    using sample_sent by blast
  have p: "0 < n_clients st" "m \<in> set (waiting (ds_user st) 6)" using s(2,3) by simp_all
  obtain st' where r: "serve_result sample_waking 0 6 m KATCP_RESULT_OK st = Inr (True, st')"
      "inbox st' = (\<lambda>to. if to = 6 then inbox_but m st 6 else inbox st to @ returned st 6 KATCP_RESULT_OK None to (letter_of st m))"
    using served_request_is_answered [OF s(1) sample_net_ok(2) p, of KATCP_RESULT_OK] by blast
  have "returned st 6 KATCP_RESULT_OK None 5 (letter_of st m) = [(Some 6, ([''!a'', ''ok''], -1), False)]"
    using s(6) by (simp add: s(4) returned_def given_up_def reply_words_def has_type_def KATCP_REQUEST_def KATCP_REPLY_def
        misc_result_table_def cstr_def KATCP_RESULT_OK_def)
  then have "inbox st' 6 = []" "inbox st' 5 = [(Some 6, ([''!a'', ''ok''], -1), False)]"
    using s(3,5) unfolding r(2) by (simp_all add: inbox_but_def)
  then show ?thesis using r(1) by blast
qed

text \<open>C34. A run of the main loop over the endpoints ends, whatever messages the wake functions send each
  other, and keeps the network in order: all counts are exact, every message is in one queue, and no
  endpoint that a message or an owner refers to is collected. It ends for the endpoints that flush
  quickly too, whose inner loop goes on until their queue is empty or they ask to wait, as long as
  their wake functions do not lengthen their own queue; when none flushes quickly, as many rounds as
  there are endpoints, and one more, are enough. The wake functions keep to \<open>wakes_well\<close>, and no
  allocation is refused (\<open>waking_ok\<close>): a refused one lets \<open>vturnaround_extra_parse_katcl\<close> release
  a request twice, which breaks the counts.\<close>

theorem main_loop_keeps_references:
  assumes "net_ok G X {} st" "waking_ok w" "wakes_well G X d w" "d < n_clients st"
  shows "\<exists>N st'. (\<forall>n\<ge>N. run_endpoints_katcp n w d st = Some (Inr st')) \<and> net_ok G X {} st' \<and>
    set (s_endpoints (ds_user st')) \<subseteq> set (s_endpoints (ds_user st)) \<and>
    (\<forall>ep \<in># X. ep \<in> set (s_endpoints (ds_user st'))) \<and>
    (\<forall>m x ep. n_msgs (ds_user st') m = Some x \<longrightarrow> m_from x = Some ep \<or> m_to x = Some ep \<longrightarrow>
       ep \<in> set (s_endpoints (ds_user st'))) \<and>
    ((\<forall>ep. flags st ep \<noteq> Some True) \<longrightarrow> N \<le> Suc (length (s_endpoints (ds_user st))))"
proof -
  let ?all = "s_endpoints (ds_user st)"
  obtain N st' kept where r: "\<forall>n\<ge>N. run_loop_endpoints n w d (before []) (first_of ?all) st = Some (Inr st')" "net_ok G X {} st'"
      "s_endpoints (ds_user st') = [] @ kept" "set kept \<subseteq> set ?all"
      "(\<forall>ep. flags st ep \<noteq> Some True) \<longrightarrow> N \<le> Suc (length ?all)"
    using run_ends_loop_ok [OF assms, of "[]"] by auto
  note mail = net_mail [OF r(2)]
  have dom: "set (s_endpoints (ds_user st')) = dom (n_ends (ds_user st'))" using mail by (simp add: mail_ok_def shaped_def)
  have "\<forall>n\<ge>N. run_endpoints_katcp n w d st = Some (Inr st')"
    using r(1) by (simp add: run_endpoints_katcp_def before_def first_of_def)
  moreover have "ep \<in> set (s_endpoints (ds_user st'))" if "ep \<in># X" for ep
    using mail_held [OF mail that] dom by auto
  moreover have "ep \<in> set (s_endpoints (ds_user st'))" if "n_msgs (ds_user st') m = Some x" "m_from x = Some ep \<or> m_to x = Some ep" for m x ep
    using mail_live [OF mail that(1), of ep] that(2) dom by (auto simp: links_of_def)
  ultimately show ?thesis using r(2-5) by (intro exI [of _ N] exI [of _ st']) auto
qed

theorem main_loop_keeps_references_witness:
  "\<exists>st st'. length (inbox st 6) = 1 \<and> run_endpoints_katcp 3 sample_waking 0 st = Some (Inr st') \<and>
    net_ok {#1#} {#} {} st'"
proof -
  obtain st :: "unit net" and m where s: "net_ok {#1#} {#} {} st" "faces st = faces sample_net" "n_clients st = 1" "waiting (ds_user st) 6 = [m]"
    using sample_sent by blast
  have wk: "wakes_well {#1#} {#} 0 sample_waking"
    by (auto simp: wakes_well_def sample_waking_def done_codes_def)
  have fl: "flags u ep = map_option e_fast_flush (faces u ep)" for u :: "unit net" and ep
    by (simp add: flags_def faces_def face_def option.map_comp comp_def)
  have sf: "faces sample_net ep = (if ep = 5 \<or> ep = 6 then Some (face sample_end) else None)" for ep
    by (simp add: faces_def sample_defs)
  have "flags st ep \<noteq> Some True" for ep
    unfolding fl s(2) sf by (simp add: sample_end_def face_def)
  moreover have "length (s_endpoints (ds_user st)) < 3"
  proof -
    have "dom (n_ends (ds_user st)) = dom (faces st)" by (auto simp: faces_def)
    also have "\<dots> = {5, 6}" using sf by (auto simp: s(2) split: if_splits)
    finally have "set (s_endpoints (ds_user st)) = {5, 6}" "distinct (s_endpoints (ds_user st))"
      using net_mail [OF s(1)] by (simp_all add: mail_ok_def shaped_def)
    then show ?thesis using distinct_card [of "s_endpoints (ds_user st)"] by simp
  qed
  ultimately have "\<exists>st'. run_endpoints_katcp 3 sample_waking 0 st = Some (Inr st') \<and> net_ok {#1#} {#} {} st'"
    using main_loop_keeps_references [OF s(1) sample_net_ok(2) wk] s(3) by fastforce
  moreover have "length (inbox st 6) = 1" using s(4) by (simp add: inbox_def)
  ultimately show ?thesis by blast
qed

text \<open>C35. Two oddities. A reply that is sent without a source is queued and then a null pointer is
  followed, to reset the precedence of that source. And since both precedences have the same number,
  a wake function that asks for a pause is called again with the same request: the endpoint does not
  look for replies behind it first. No allocation is refused (\<open>waking_ok\<close>), so that the reply is
  queued before the pointer is followed.\<close>

theorem endpoint_oddities:
  assumes "net_ok G X L st" "waking_ok w" "d < n_clients st" "n_ends (ds_user st) dst = Some e" "receives e"
    "px \<in># G" "st_heap (ds_store st) px = Some q" "p_state q = PARSE_DONE" "has_type KATCP_REPLY (parse_args q)"
  shows "send_message_endpoint_katcp w d None (Some dst) (Some px) False st = Inl NullDeref \<and>
    serve_result w d dst m KATCP_RESULT_PAUSE st = Inr (False, st) \<and>
    next_message e st = Inr (case items e of [] \<Rightarrow> None | k # _ \<Rightarrow> Some k)"
proof -
  obtain k x st1 where c: "create_message_katcp w None dst (Some px) False st = Inr (Some k, st1)" "k \<notin> L"
      "net_ok G X (insert k L) st1" "calm UNIV st st1" "n_msgs (ds_user st1) k = Some x" "m_to x = Some dst"
      "\<exists>n. st_heap (ds_store st1) px = Some (q\<lparr>p_refs := n\<rparr>)"
    using create_message_ok [OF assms(1,2) _ _ _ _ assms(6-8), of None dst False] assms(4) by auto
  have d1: "d < n_clients st1" using assms(3) c(4) by (simp add: calm_def)
  have f: "faces st1 = faces st" using c(4) by (simp add: calm_def)
  then obtain e1 where e1: "n_ends (ds_user st1) dst = Some e1" "face e1 = face e"
    using faces_get assms(4) by blast
  have "receives e1" using face_state [OF e1(2)] assms(5) unfolding receives_def by metis
  then obtain st2 where r: "queue_message_katcp w d k st1 = Inr (0, st2)" "net_ok G X L st2" "ds_store st2 = ds_store st1"
    using queue_mail_ok [OF c(3) assms(2) d1 c(5) _ c(6)] e1(1) c(2) by auto
  let ?st3 = "mark_busy_katcp st2"
  obtain j where j: "st_heap (ds_store ?st3) px = Some (q\<lparr>p_refs := j\<rparr>)" using c(7) r(3) by auto
  have ok3: "net_ok G X L ?st3" using r(2) by simp
  have "px \<in># texts (ds_user ?st3) + G" using assms(6) by simp
  then have inv: "parse_inv (q\<lparr>p_refs := j\<rparr>)"
    using disp_held [OF net_disp [OF ok3, THEN conjunct1] net_disp [OF ok3, THEN conjunct2]] j by fastforce
  have "send_message_endpoint_katcp w d None (Some dst) (Some px) False st = Inl NullDeref"
    using c(1) r(1) j inv assms(9)
    by (simp add: send_message_endpoint_katcp_def sane_parse_katcl_def deref_def request_text precedence_endpoint_katcp_def Let_def)
  moreover have "serve_result w d dst m KATCP_RESULT_PAUSE st = Inr (False, st)"
    using assms(4) by (intro serve_wait_ok [OF assms(1)]) simp_all
  ultimately show ?thesis using next_message_ok [OF assms(1,4)] by blast
qed

theorem endpoint_oddities_witness:
  "send_message_endpoint_katcp sample_waking 0 None (Some 5) (Some 1) False
      (sample_with (request_msg\<lparr>p_buffer := ''!a'' @ [nul] @ ''b'' @ [nul]\<rparr>)) = Inl NullDeref"
proof -
  let ?p = "request_msg\<lparr>p_buffer := ''!a'' @ [nul] @ ''b'' @ [nul]\<rparr>"
  let ?q = "?p\<lparr>p_refs := 1\<rparr>"
  have inv: "parse_inv ?p" 
    by (simp add: request_msg_def fresh_parse_def parse_inv_def All_less_Suc numeral_2_eq_2)
  note ok = sample_with_ok [OF inv]
  have h: "n_ends (ds_user (sample_with ?p)) 5 = Some sample_end" "st_heap (ds_store (sample_with ?p)) 1 = Some ?q"
    by (simp_all add: sample_with_def)
  have a: "p_state ?q = PARSE_DONE" "parse_args ?q = [''!a'', ''b'']"
    by (simp_all add: request_msg_def fresh_parse_def parse_args_def arg_text_def slice_def upt_rec)
  then have "has_type KATCP_REPLY (parse_args ?q)" by (simp add: has_type_def KATCP_REPLY_def)
  then show ?thesis
    using endpoint_oddities [OF ok(1) sample_net_ok(2) _ h(1) sample_end(3) _ h(2) a(1)] ok(2) by simp
qed

end
